(* ===== verification/Prelude.thy ===== *)
theory Prelude
  imports Main "HOL-Library.Word" "HOL-Library.Monad_Syntax"
begin

unbundle bit_operations_syntax

text \<open>
  Shared vocabulary of the development: 64-bit unsigned arithmetic on natural numbers with
  the wrap-around written out, byte memory with bounds (\<open>mread\<close>, \<open>mwrite\<close> stand for a
  pointer read and a \<open>memcpy\<close>), little-endian encodings, and checked access to arrays
  and vectors. An option result \<open>None\<close> always means that the C++ code would have undefined
  behaviour at this point (an access outside the object) or would never leave a spin loop.
\<close>

named_theorems u64_simps
named_theorems mem_simps

section \<open>Unsigned 64-bit arithmetic\<close>

abbreviation U64 :: nat where
  "U64 \<equiv> 18446744073709551616"

abbreviation u64_max :: nat where
  "u64_max \<equiv> 18446744073709551615"

abbreviation u32_max :: nat where
  "u32_max \<equiv> 4294967295"

definition add64 :: "nat \<Rightarrow> nat \<Rightarrow> nat" where
  "add64 a b = (a + b) mod U64"

definition sub64 :: "nat \<Rightarrow> nat \<Rightarrow> nat" where
  "sub64 a b = (a + U64 - b) mod U64"

definition mul64 :: "nat \<Rightarrow> nat \<Rightarrow> nat" where
  "mul64 a b = (a * b) mod U64"

lemma add64_small [u64_simps]: "a + b < U64 \<Longrightarrow> add64 a b = a + b"
  by (simp add: add64_def)

lemma mul64_small [u64_simps]: "a * b < U64 \<Longrightarrow> mul64 a b = a * b"
  by (simp add: mul64_def)

lemma sub64_ge [u64_simps]:
  assumes "b \<le> a" and "a < U64"
  shows "sub64 a b = a - b"
proof -
  from assms have "a + U64 - b = (a - b) + U64" by simp
  then have "sub64 a b = (a - b) mod U64"
    unfolding sub64_def by (simp only: mod_add_self2)
  then show ?thesis using assms by simp
qed

lemma sub64_lt [u64_simps]: "a < b \<Longrightarrow> b < U64 \<Longrightarrow> sub64 a b = a + U64 - b"
  by (simp add: sub64_def)

lemma add64_less [simp]: "add64 a b < U64"
  by (simp add: add64_def)

lemma sub64_less [simp]: "sub64 a b < U64"
  by (simp add: sub64_def)

lemma mul64_less [simp]: "mul64 a b < U64"
  by (simp add: mul64_def)

text \<open>Reducing modulo a divisor of the word size commutes with the wrap-around.\<close>

lemma add64_mod: "c dvd U64 \<Longrightarrow> add64 a b mod c = (a + b) mod c"
  by (simp add: add64_def mod_mod_cancel)

lemma sub64_add64_cancel: "n < U64 \<Longrightarrow> r < U64 \<Longrightarrow> sub64 (add64 r n) r = n"
  by (cases "r + n < U64") (auto simp: u64_simps add64_def sub64_def mod_if)

lemma add64_sub64_cancel: "w < U64 \<Longrightarrow> r < U64 \<Longrightarrow> add64 r (sub64 w r) = w"
  by (cases "r \<le> w") (auto simp: u64_simps add64_def mod_if)

lemma add64_assoc: "add64 (add64 a b) c = add64 a (b + c)"
  by (simp add: add64_def mod_simps ac_simps)

section \<open>Vectors and arrays\<close>

definition vec_get :: "'a list \<Rightarrow> nat \<Rightarrow> 'a option" where
  "vec_get xs i = (if i < length xs then Some (xs ! i) else None)"

definition vec_set :: "'a list \<Rightarrow> nat \<Rightarrow> 'a \<Rightarrow> 'a list option" where
  "vec_set xs i x = (if i < length xs then Some (xs[i := x]) else None)"

lemma vec_get_in [mem_simps]: "i < length xs \<Longrightarrow> vec_get xs i = Some (xs ! i)"
  by (simp add: vec_get_def)

lemma vec_set_in [mem_simps]: "i < length xs \<Longrightarrow> vec_set xs i x = Some (xs[i := x])"
  by (simp add: vec_set_def)

lemma vec_get_Some: "vec_get xs i = Some x \<longleftrightarrow> i < length xs \<and> x = xs ! i"
  by (auto simp: vec_get_def)

lemma vec_set_Some: "vec_set xs i x = Some ys \<longleftrightarrow> i < length xs \<and> ys = xs[i := x]"
  by (auto simp: vec_set_def)

section \<open>Byte memory\<close>

type_synonym byte = "8 word"
type_synonym bytes = "byte list"

definition mread :: "bytes \<Rightarrow> nat \<Rightarrow> nat \<Rightarrow> bytes option" where
  "mread m pos len = (if pos + len \<le> length m then Some (take len (drop pos m)) else None)"

definition mwrite :: "bytes \<Rightarrow> nat \<Rightarrow> bytes \<Rightarrow> bytes option" where
  "mwrite m pos bs =
     (if pos + length bs \<le> length m
      then Some (take pos m @ bs @ drop (pos + length bs) m) else None)"

lemma mread_in [mem_simps]:
  "pos + len \<le> length m \<Longrightarrow> mread m pos len = Some (take len (drop pos m))"
  by (simp add: mread_def)

lemma mwrite_in [mem_simps]:
  "pos + length bs \<le> length m \<Longrightarrow>
     mwrite m pos bs = Some (take pos m @ bs @ drop (pos + length bs) m)"
  by (simp add: mwrite_def)

lemma mread_Some:
  "mread m pos len = Some bs \<longleftrightarrow> pos + len \<le> length m \<and> bs = take len (drop pos m)"
  by (auto simp: mread_def)

lemma mwrite_Some:
  "mwrite m pos bs = Some m' \<longleftrightarrow>
     pos + length bs \<le> length m \<and> m' = take pos m @ bs @ drop (pos + length bs) m"
  by (auto simp: mwrite_def)

lemma mwrite_length: "mwrite m pos bs = Some m' \<Longrightarrow> length m' = length m"
  by (auto simp: mwrite_Some)

lemma mread_length: "mread m pos len = Some bs \<Longrightarrow> length bs = len"
  by (auto simp: mread_Some)

text \<open>A write read byte by byte: the written range holds the data, the rest is kept.\<close>

lemma mwrite_nth:
  assumes "mwrite m pos bs = Some m'" and "i < length m"
  shows "m' ! i = (if pos \<le> i \<and> i < pos + length bs then bs ! (i - pos) else m ! i)"
  using assms by (auto simp: mwrite_Some nth_append min_def)

lemma mread_mwrite_same:
  assumes "mwrite m pos bs = Some m'"
  shows "mread m' pos (length bs) = Some bs"
  using assms by (auto simp: mwrite_Some mread_def)

lemma mread_mwrite_disjoint:
  assumes w: "mwrite m pos bs = Some m'"
    and d: "p + len \<le> pos \<or> pos + length bs \<le> p"
  shows "mread m' p len = mread m p len"
proof (cases "p + len \<le> length m")
  case True
  have l: "length m' = length m" by (rule mwrite_length [OF w])
  have "take len (drop p m') = take len (drop p m)"
  proof (rule nth_equalityI)
    show "length (take len (drop p m')) = length (take len (drop p m))"
      by (simp add: l)
    fix i assume "i < length (take len (drop p m'))"
    then have i: "i < len" "p + i < length m" using True l by auto
    then have "m' ! (p + i) = m ! (p + i)"
      using mwrite_nth [OF w i(2)] d by auto
    then show "take len (drop p m') ! i = take len (drop p m) ! i"
      using i l by simp
  qed
  then show ?thesis using True l by (simp add: mread_def)
next
  case False
  then show ?thesis using mwrite_length [OF w] by (simp add: mread_def)
qed

text \<open>Writing in two parts is writing at once.\<close>

lemma mwrite_append:
  "mwrite m p (xs @ ys) = do { m1 \<leftarrow> mwrite m p xs; mwrite m1 (p + length xs) ys }"
  by (auto simp: mwrite_def min_def ac_simps split: Option.bind_split simp flip: length_greater_0_conv)

section \<open>Little-endian encodings\<close>

fun le_encode :: "nat \<Rightarrow> nat \<Rightarrow> bytes" where
  "le_encode 0 v = []"
| "le_encode (Suc n) v = word_of_nat (v mod 256) # le_encode n (v div 256)"

fun le_decode :: "bytes \<Rightarrow> nat" where
  "le_decode [] = 0"
| "le_decode (b # bs) = unat b + 256 * le_decode bs"

lemma length_le_encode [simp]: "length (le_encode n v) = n"
  by (induction n arbitrary: v) auto

lemma unat_byte_of_nat: "unat (word_of_nat (v mod 256) :: byte) = v mod 256"
  by (simp add: unat_of_nat)

lemma le_decode_encode: "le_decode (le_encode n v) = v mod 256 ^ n"
proof (induction n arbitrary: v)
  case 0
  then show ?case by simp
next
  case (Suc n)
  have "le_decode (le_encode (Suc n) v) = v mod 256 + 256 * (v div 256 mod 256 ^ n)"
    by (simp add: Suc unat_byte_of_nat)
  also have "\<dots> = v mod 256 ^ Suc n"
    by (simp add: mod_mult2_eq)
  finally show ?case .
qed

lemma le_roundtrip: "v < 256 ^ n \<Longrightarrow> le_decode (le_encode n v) = v"
  by (simp add: le_decode_encode)

lemma le_decode_bound: "le_decode bs < 256 ^ length bs"
proof (induction bs)
  case Nil
  then show ?case by simp
next
  case (Cons b bs)
  have "unat b < 256" using unsigned_less [of b] by simp
  moreover from Cons have "le_decode bs + 1 \<le> 256 ^ length bs" by simp
  then have "256 * (le_decode bs + 1) \<le> 256 * 256 ^ length bs" by (rule mult_le_mono2)
  ultimately show ?case by simp
qed

lemma le_encode_decode: "le_encode (length bs) (le_decode bs) = bs"
proof (induction bs)
  case Nil
  then show ?case by simp
next
  case (Cons b bs)
  have b: "unat b < 256" using unsigned_less [of b] by simp
  then have "(unat b + 256 * le_decode bs) mod 256 = unat b" by simp
  moreover have "(unat b + 256 * le_decode bs) div 256 = le_decode bs" using b by simp
  ultimately show ?case using Cons by simp
qed

lemma le_encode_inj: "v < 256 ^ n \<Longrightarrow> w < 256 ^ n \<Longrightarrow> le_encode n v = le_encode n w \<Longrightarrow> v = w"
  by (metis le_roundtrip)

section \<open>Arithmetic on cyclic ranges\<close>

lemma mod_add_if:
  "(a::nat) < n \<Longrightarrow> b < n \<Longrightarrow> (a + b) mod n = (if a + b < n then a + b else a + b - n)"
  by (auto simp: mod_if)

lemma mod_add_shift: "((a::nat) + b) mod n = x \<Longrightarrow> (x + c) mod n = (a + (b + c)) mod n"
  by (metis add.assoc mod_add_left_eq)

lemma div_mod_pair_inj: "(a::nat) div n = b div n \<Longrightarrow> a mod n = b mod n \<Longrightarrow> a = b"
  by (metis mult_div_mod_eq)

lemma mult_add_less: "(q::nat) < m \<Longrightarrow> r < n \<Longrightarrow> q * n + r < m * n"
proof -
  assume "q < m" "r < n"
  then have "q * n + r < q * n + n" by simp
  also have "\<dots> = Suc q * n" by simp
  also have "\<dots> \<le> m * n" using \<open>q < m\<close> by (intro mult_le_mono1) simp
  finally show ?thesis .
qed

lemma bit_shifted_add:
  fixes a b :: nat
  assumes "a < 2 ^ k"
  shows "bit (a + 2 ^ k * b) n \<longleftrightarrow> (if n < k then bit a n else bit b (n - k))"
proof -
  have a: "\<not> bit a n" if "k \<le> n" for n
    using assms that by (metis bit_take_bit_iff not_le take_bit_nat_eq_self_iff)
  have e: "2 ^ k * b = push_bit k b" by (simp add: push_bit_eq_mult)
  have "bit (a + push_bit k b) n \<longleftrightarrow> bit a n \<or> bit (push_bit k b) n"
    by (rule bit_disjunctive_add_iff) (use a in \<open>auto simp: bit_push_bit_iff\<close>)
  then show ?thesis unfolding e using a by (auto simp: bit_push_bit_iff)
qed

lemma bit_le_decode: "bit (le_decode bs) n \<longleftrightarrow> n div 8 < length bs \<and> bit (bs ! (n div 8)) (n mod 8)"
proof (induction bs arbitrary: n)
  case (Cons b bs)
  have s: "le_decode (b # bs) = unat b + 2 ^ 8 * le_decode bs" by simp
  have "unat b < 2 ^ 8" using unsigned_less [of b] by simp
  then have "bit (le_decode (b # bs)) n \<longleftrightarrow> (if n < 8 then bit b n else bit (le_decode bs) (n - 8))"
    unfolding s by (simp only: bit_shifted_add bit_unsigned_iff possible_bit_nat simp_thms)
  also have "\<dots> \<longleftrightarrow> n div 8 < length (b # bs) \<and> bit ((b # bs) ! (n div 8)) (n mod 8)"
  proof (cases "n < 8")
    case False
    then have "n div 8 = Suc ((n - 8) div 8)" "n mod 8 = (n - 8) mod 8" by (simp_all add: le_div_geq le_mod_geq)
    then show ?thesis using False Cons.IH [of "n - 8"] by simp
  qed simp
  finally show ?case .
qed simp

end
