(* ===== verification/KeyTypes.thy ===== *)
theory KeyTypes
  imports Prelude
begin

text \<open>
  The key types of \<^verbatim>\<open>dpdk_lib/util.hpp\<close>: the enumeration of index types, IPv6 addresses as two
  64-bit halves with their comparison and shift operators, and the flow four-tuples. The
  comparison operators are translated branch by branch; the lemmas show that they are the
  numeric order of the address (high half first) and the lexicographic order of the tuple, so
  that the key types are instances of \<open>linorder\<close> and can be sorted and searched.
\<close>

section \<open>Enumerations\<close>

datatype IndexType = SRCIP | DSTIP | SRCPORT | DSTPORT | SRCIPv6 | DSTIPv6 | TOTAL_INDEX

fun index_num :: "IndexType \<Rightarrow> nat" where
  "index_num SRCIP = 0"
| "index_num DSTIP = 1"
| "index_num SRCPORT = 2"
| "index_num DSTPORT = 3"
| "index_num SRCIPv6 = 4"
| "index_num DSTIPv6 = 5"
| "index_num TOTAL_INDEX = 6"

datatype AgentType = DATA_AGENT | INDEX_AGENT | TOTAL_AGENT

lemma index_num_inj: "index_num a = index_num b \<Longrightarrow> a = b"
  by (cases a; cases b) simp_all

section \<open>IPv6 addresses\<close>

datatype IPv6Address = IPv6Address (low: "64 word") (high: "64 word")

definition ipv6_lt :: "IPv6Address \<Rightarrow> IPv6Address \<Rightarrow> bool" where
  "ipv6_lt a other =
     (if high a < high other then True
      else if high a > high other then False
      else low a < low other)"

definition ipv6_gt :: "IPv6Address \<Rightarrow> IPv6Address \<Rightarrow> bool" where
  "ipv6_gt a other =
     (if high a > high other then True
      else if high a < high other then False
      else low a > low other)"

definition ipv6_eq :: "IPv6Address \<Rightarrow> IPv6Address \<Rightarrow> bool" where
  "ipv6_eq a other \<longleftrightarrow> high a = high other \<and> low a = low other"

definition ipv6_ne :: "IPv6Address \<Rightarrow> IPv6Address \<Rightarrow> bool" where
  "ipv6_ne a other \<longleftrightarrow> \<not> ipv6_eq a other"

definition ipv6_le :: "IPv6Address \<Rightarrow> IPv6Address \<Rightarrow> bool" where
  "ipv6_le a other \<longleftrightarrow> \<not> ipv6_gt a other"

definition ipv6_ge :: "IPv6Address \<Rightarrow> IPv6Address \<Rightarrow> bool" where
  "ipv6_ge a other \<longleftrightarrow> \<not> ipv6_lt a other"

definition ipv6_shr :: "IPv6Address \<Rightarrow> nat \<Rightarrow> IPv6Address" where
  "ipv6_shr a shift =
     (if shift = 0 then a
      else if shift < 64 then
        IPv6Address (drop_bit shift (low a) OR push_bit (64 - shift) (high a))
                    (drop_bit shift (high a))
      else if shift < 128 then IPv6Address (drop_bit (shift - 64) (high a)) 0
      else IPv6Address 0 0)"

text \<open>The 128-bit number an address stands for.\<close>

definition ipv6_value :: "IPv6Address \<Rightarrow> nat" where
  "ipv6_value a = unat (high a) * 2 ^ 64 + unat (low a)"

lemma unat64_less [simp]: "unat (w :: 64 word) < U64"
  using unsigned_less [of w] by simp

lemma ipv6_value_inj: "ipv6_value a = ipv6_value b \<Longrightarrow> a = b"
proof -
  assume eq: "ipv6_value a = ipv6_value b"
  have "ipv6_value a div U64 = unat (high a)" "ipv6_value b div U64 = unat (high b)"
       "ipv6_value a mod U64 = unat (low a)" "ipv6_value b mod U64 = unat (low b)"
    by (simp_all add: ipv6_value_def)
  with eq have "unat (high a) = unat (high b)" "unat (low a) = unat (low b)" by simp_all
  then have "high a = high b" "low a = low b" by (simp_all add: word_unat_eq_iff)
  then show ?thesis by (rule IPv6Address.expand [OF conjI, rotated])
qed

lemma ipv6_lt_value: "ipv6_lt a b \<longleftrightarrow> ipv6_value a < ipv6_value b"
proof -
  have two: "x * U64 + r < y * U64 + t \<longleftrightarrow> x < y \<or> x = y \<and> r < t"
    if "r < U64" "t < U64" for x y r t :: nat
    using that mult_add_less [of x y r U64] mult_add_less [of y x t U64]
    by (cases x y rule: linorder_cases) auto
  show ?thesis
    by (auto simp: ipv6_lt_def ipv6_value_def word_less_nat_alt two simp flip: word_unat_eq_iff)
qed

lemma ipv6_gt_lt: "ipv6_gt a b = ipv6_lt b a"
  by (simp add: ipv6_gt_def ipv6_lt_def)

lemma ipv6_eq_eq: "ipv6_eq a b \<longleftrightarrow> a = b"
  by (cases a; cases b) (auto simp: ipv6_eq_def)

lemma ipv6_le_value: "ipv6_le a b \<longleftrightarrow> ipv6_value a \<le> ipv6_value b"
  by (auto simp: ipv6_le_def ipv6_gt_lt ipv6_lt_value)

instantiation IPv6Address :: linorder
begin
definition less_IPv6Address :: "IPv6Address \<Rightarrow> IPv6Address \<Rightarrow> bool" where
  "less_IPv6Address = ipv6_lt"
definition less_eq_IPv6Address :: "IPv6Address \<Rightarrow> IPv6Address \<Rightarrow> bool" where
  "less_eq_IPv6Address = ipv6_le"
instance
  by standard
     (auto simp: less_IPv6Address_def less_eq_IPv6Address_def ipv6_lt_value ipv6_le_value
           intro: ipv6_value_inj)
end

lemma low_high_split: "ipv6_value a = take_bit 64 (unat (low a)) + push_bit 64 (unat (high a))"
  by (simp add: ipv6_value_def push_bit_eq_mult take_bit_eq_mod)

section \<open>Flow four-tuples\<close>

datatype QuarTurpleIPv4 =
  QuarTurpleIPv4 (dstport4: "16 word") (srcport4: "16 word") (dstip4: "32 word") (srcip4: "32 word")

definition quad4_lt :: "QuarTurpleIPv4 \<Rightarrow> QuarTurpleIPv4 \<Rightarrow> bool" where
  "quad4_lt a other =
     (if srcip4 a < srcip4 other then True
      else if srcip4 a > srcip4 other then False
      else if dstip4 a < dstip4 other then True
      else if dstip4 a > dstip4 other then False
      else if srcport4 a < srcport4 other then True
      else if srcport4 a > srcport4 other then False
      else dstport4 a < dstport4 other)"

definition quad4_gt :: "QuarTurpleIPv4 \<Rightarrow> QuarTurpleIPv4 \<Rightarrow> bool" where
  "quad4_gt a other =
     (if srcip4 a > srcip4 other then True
      else if srcip4 a < srcip4 other then False
      else if dstip4 a > dstip4 other then True
      else if dstip4 a < dstip4 other then False
      else if srcport4 a > srcport4 other then True
      else if srcport4 a < srcport4 other then False
      else dstport4 a > dstport4 other)"

definition quad4_eq :: "QuarTurpleIPv4 \<Rightarrow> QuarTurpleIPv4 \<Rightarrow> bool" where
  "quad4_eq a other \<longleftrightarrow> srcip4 a = srcip4 other \<and> dstip4 a = dstip4 other \<and>
     srcport4 a = srcport4 other \<and> dstport4 a = dstport4 other"

definition quad4_le :: "QuarTurpleIPv4 \<Rightarrow> QuarTurpleIPv4 \<Rightarrow> bool" where
  "quad4_le a other \<longleftrightarrow> \<not> quad4_gt a other"

definition quad4_ge :: "QuarTurpleIPv4 \<Rightarrow> QuarTurpleIPv4 \<Rightarrow> bool" where
  "quad4_ge a other \<longleftrightarrow> \<not> quad4_lt a other"

lemma quad4_gt_lt: "quad4_gt a b = quad4_lt b a"
  by (simp add: quad4_gt_def quad4_lt_def)

lemma quad4_eq_eq: "quad4_eq a b \<longleftrightarrow> a = b"
  by (cases a; cases b) (auto simp: quad4_eq_def)

instantiation QuarTurpleIPv4 :: linorder
begin
definition less_QuarTurpleIPv4 :: "QuarTurpleIPv4 \<Rightarrow> QuarTurpleIPv4 \<Rightarrow> bool" where
  "less_QuarTurpleIPv4 = quad4_lt"
definition less_eq_QuarTurpleIPv4 :: "QuarTurpleIPv4 \<Rightarrow> QuarTurpleIPv4 \<Rightarrow> bool" where
  "less_eq_QuarTurpleIPv4 = quad4_le"
instance
  by standard
     (auto simp: less_QuarTurpleIPv4_def less_eq_QuarTurpleIPv4_def quad4_le_def quad4_gt_lt
                 quad4_lt_def QuarTurpleIPv4.expand split: if_splits)
end

datatype QuarTurpleIPv6 =
  QuarTurpleIPv6 (dstport6: "16 word") (srcport6: "16 word") (dstip6: IPv6Address) (srcip6: IPv6Address)

definition quad6_lt :: "QuarTurpleIPv6 \<Rightarrow> QuarTurpleIPv6 \<Rightarrow> bool" where
  "quad6_lt a other =
     (if ipv6_lt (srcip6 a) (srcip6 other) then True
      else if ipv6_gt (srcip6 a) (srcip6 other) then False
      else if ipv6_lt (dstip6 a) (dstip6 other) then True
      else if ipv6_gt (dstip6 a) (dstip6 other) then False
      else if srcport6 a < srcport6 other then True
      else if srcport6 a > srcport6 other then False
      else dstport6 a < dstport6 other)"

definition quad6_gt :: "QuarTurpleIPv6 \<Rightarrow> QuarTurpleIPv6 \<Rightarrow> bool" where
  "quad6_gt a other =
     (if ipv6_gt (srcip6 a) (srcip6 other) then True
      else if ipv6_lt (srcip6 a) (srcip6 other) then False
      else if ipv6_gt (dstip6 a) (dstip6 other) then True
      else if ipv6_lt (dstip6 a) (dstip6 other) then False
      else if srcport6 a > srcport6 other then True
      else if srcport6 a < srcport6 other then False
      else dstport6 a > dstport6 other)"

definition quad6_eq :: "QuarTurpleIPv6 \<Rightarrow> QuarTurpleIPv6 \<Rightarrow> bool" where
  "quad6_eq a other \<longleftrightarrow> ipv6_eq (srcip6 a) (srcip6 other) \<and> ipv6_eq (dstip6 a) (dstip6 other) \<and>
     srcport6 a = srcport6 other \<and> dstport6 a = dstport6 other"

definition quad6_le :: "QuarTurpleIPv6 \<Rightarrow> QuarTurpleIPv6 \<Rightarrow> bool" where
  "quad6_le a other \<longleftrightarrow> \<not> quad6_gt a other"

definition quad6_ge :: "QuarTurpleIPv6 \<Rightarrow> QuarTurpleIPv6 \<Rightarrow> bool" where
  "quad6_ge a other \<longleftrightarrow> \<not> quad6_lt a other"

lemma ipv6_ops: "ipv6_lt a b \<longleftrightarrow> a < b" "ipv6_gt a b \<longleftrightarrow> b < a" "ipv6_le a b \<longleftrightarrow> a \<le> b"
  by (simp_all add: less_IPv6Address_def less_eq_IPv6Address_def ipv6_gt_lt)

lemma quad6_gt_lt: "quad6_gt a b = quad6_lt b a"
  by (simp add: quad6_gt_def quad6_lt_def ipv6_ops)

lemma quad6_eq_eq: "quad6_eq a b \<longleftrightarrow> a = b"
  by (cases a; cases b) (auto simp: quad6_eq_def ipv6_eq_eq)

instantiation QuarTurpleIPv6 :: linorder
begin
definition less_QuarTurpleIPv6 :: "QuarTurpleIPv6 \<Rightarrow> QuarTurpleIPv6 \<Rightarrow> bool" where
  "less_QuarTurpleIPv6 = quad6_lt"
definition less_eq_QuarTurpleIPv6 :: "QuarTurpleIPv6 \<Rightarrow> QuarTurpleIPv6 \<Rightarrow> bool" where
  "less_eq_QuarTurpleIPv6 = quad6_le"
instance
  by standard
     (auto simp: less_QuarTurpleIPv6_def less_eq_QuarTurpleIPv6_def quad6_le_def quad6_gt_lt
                 quad6_lt_def ipv6_ops QuarTurpleIPv6.expand split: if_splits)
end

section \<open>Properties\<close>

lemma unat_drop_bit: "unat (drop_bit s (w :: 64 word)) = unat w div 2 ^ s"
proof -
  have "unat (drop_bit s w) = drop_bit s (take_bit LENGTH(64) (unat w))"
    by (rule unsigned_drop_bit_eq)
  also have "take_bit LENGTH(64) (unat w) = unat w" by (simp add: take_bit_nat_eq_self_iff)
  finally show ?thesis by (simp add: drop_bit_eq_div)
qed

lemma unat_push_bit:
  assumes "s < 64"
  shows "unat (push_bit (64 - s) (w :: 64 word)) = (unat w mod 2 ^ s) * 2 ^ (64 - s)"
proof -
  have "unat (push_bit (64 - s) w) = take_bit LENGTH(64) (push_bit (64 - s) (unat w))"
    by (rule unsigned_push_bit_eq)
  also have "\<dots> = (unat w * 2 ^ (64 - s)) mod (2 ^ s * 2 ^ (64 - s))"
    using assms by (simp add: push_bit_eq_mult take_bit_eq_mod flip: power_add)
  finally show ?thesis by (simp add: mult_mod_left)
qed

lemma drop_bit_or_disjoint:
  assumes "0 < s" and "s < 64"
  shows "unat (drop_bit s (l :: 64 word) OR push_bit (64 - s) (h :: 64 word))
    = unat l div 2 ^ s + (unat h mod 2 ^ s) * 2 ^ (64 - s)"
proof -
  have "drop_bit s l AND push_bit (64 - s) h = 0"
  proof (rule bit_word_eqI)
    fix n assume "n < LENGTH(64)"
    then show "bit (drop_bit s l AND push_bit (64 - s) h) n = bit 0 n"
      using bit_imp_le_length [of l "s + n"]
      by (auto simp: bit_and_iff bit_drop_bit_eq bit_push_bit_iff)
  qed
  then have "drop_bit s l OR push_bit (64 - s) h = drop_bit s l + push_bit (64 - s) h"
    by (simp add: disjunctive_add_eq_or)
  moreover have "unat (drop_bit s l) = unat l div 2 ^ s"
    by (rule unat_drop_bit)
  moreover have p: "unat (push_bit (64 - s) h) = (unat h mod 2 ^ s) * 2 ^ (64 - s)"
    using assms(2) by (rule unat_push_bit)
  moreover have "unat l div 2 ^ s + (unat h mod 2 ^ s) * 2 ^ (64 - s) < 2 ^ 64"
  proof -
    have "unat l div 2 ^ s < 2 ^ (64 - s)"
      using unsigned_less [of l] assms
      by (intro less_mult_imp_div_less) (simp flip: power_add)
    moreover have "unat h mod 2 ^ s < 2 ^ s" by simp
    ultimately have "(unat h mod 2 ^ s) * 2 ^ (64 - s) + unat l div 2 ^ s < 2 ^ s * 2 ^ (64 - s)"
      by (intro mult_add_less)
    then show ?thesis using assms by (simp add: ac_simps flip: power_add)
  qed
  ultimately show ?thesis
    by (simp add: unat_word_ariths)
qed

lemma ipv6_shr_div: "ipv6_value (ipv6_shr a shift) = ipv6_value a div 2 ^ shift"
proof -
  let ?l = "unat (low a)" and ?h = "unat (high a)"
  have l: "?l < 2 ^ 64" and h: "?h < 2 ^ 64" using unsigned_less [of "low a"] unsigned_less [of "high a"] by simp_all
  consider "shift = 0" | "0 < shift" "shift < 64" | "64 \<le> shift" "shift < 128" | "128 \<le> shift"
    by linarith
  then show ?thesis
  proof cases
    case 1
    then show ?thesis by (simp add: ipv6_shr_def)
  next
    case 2
    let ?s = "shift"
    have split: "?h * 2 ^ 64 = (?h div 2 ^ ?s) * 2 ^ 64 * 2 ^ ?s + (?h mod 2 ^ ?s) * 2 ^ (64 - ?s) * 2 ^ ?s"
    proof -
      have "(2::nat) ^ (64 - ?s) * 2 ^ ?s = 2 ^ 64" using 2 by (simp flip: power_add)
      then have "(?h mod 2 ^ ?s) * 2 ^ (64 - ?s) * 2 ^ ?s = (?h mod 2 ^ ?s) * 2 ^ 64"
        by (simp only: mult.assoc)
      then have "(?h div 2 ^ ?s) * 2 ^ 64 * 2 ^ ?s + (?h mod 2 ^ ?s) * 2 ^ (64 - ?s) * 2 ^ ?s
        = (?h div 2 ^ ?s * 2 ^ ?s + ?h mod 2 ^ ?s) * 2 ^ 64"
        by (simp only: algebra_simps)
      then show ?thesis by (simp only: div_mult_mod_eq)
    qed
    have "ipv6_value a div 2 ^ ?s
      = (((?h div 2 ^ ?s) * 2 ^ 64 + (?h mod 2 ^ ?s) * 2 ^ (64 - ?s)) * 2 ^ ?s + ?l) div 2 ^ ?s"
      unfolding ipv6_value_def split by (simp only: algebra_simps)
    also have "\<dots> = (?h div 2 ^ ?s) * 2 ^ 64 + (?h mod 2 ^ ?s) * 2 ^ (64 - ?s) + ?l div 2 ^ ?s"
      by (subst div_mult_self3) simp_all
    also have "\<dots> = ipv6_value (ipv6_shr a shift)"
      using 2 drop_bit_or_disjoint [OF 2, of "low a" "high a"]
      by (simp add: ipv6_shr_def ipv6_value_def unat_drop_bit)
    finally show ?thesis by simp
  next
    case 3
    have "ipv6_value a div 2 ^ shift = ipv6_value a div 2 ^ 64 div 2 ^ (shift - 64)"
    proof -
      have "(2::nat) ^ shift = 2 ^ 64 * 2 ^ (shift - 64)"
        using 3 by (simp only: flip: power_add) simp
      then show ?thesis by (simp only: div_mult2_eq)
    qed
    also have "ipv6_value a div 2 ^ 64 = ?h" using l by (simp add: ipv6_value_def)
    finally show ?thesis using 3 by (simp add: ipv6_shr_def ipv6_value_def unat_drop_bit)
  next
    case 4
    have "ipv6_value a < 2 ^ 64 * 2 ^ 64"
      unfolding ipv6_value_def using h l by (rule mult_add_less)
    also have "\<dots> = 2 ^ 128" by simp
    also have "\<dots> \<le> 2 ^ shift" using 4 by (intro power_increasing) simp_all
    finally show ?thesis using 4 by (simp add: ipv6_shr_def ipv6_value_def)
  qed
qed

lemma ipv6_shr_shr: "ipv6_shr (ipv6_shr a s) t = ipv6_shr a (s + t)"
  by (rule ipv6_value_inj) (simp only: ipv6_shr_div div_mult2_eq power_add)

lemma ipv6_shr_agree:
  assumes "ipv6_shr a s = ipv6_shr b s" and "s \<le> t"
  shows "ipv6_shr a t = ipv6_shr b t"
  using assms ipv6_shr_shr [of a s "t - s"] ipv6_shr_shr [of b s "t - s"] by simp

text \<open>The 128-bit right shift. For every shift amount, including 0, amounts within the low
  half, amounts that move the high half down and amounts of 128 and more, the two shifted
  halves are the 128-bit value divided by the power of two, and two shifts in a row are one
  shift by the sum.\<close>

lemma ipv6_shr_value:
  "ipv6_value (ipv6_shr a shift) = ipv6_value a div 2 ^ shift \<and>
   ipv6_shr (ipv6_shr a shift) shift' = ipv6_shr a (shift + shift')"
  by (simp add: ipv6_shr_div ipv6_shr_shr)

text \<open>All six IPv6 comparison operators are the numeric order of the 128-bit value.\<close>

lemma ipv6_compare_numeric:
  "ipv6_lt a b = (ipv6_value a < ipv6_value b)
   \<and> ipv6_gt a b = (ipv6_value a > ipv6_value b)
   \<and> ipv6_eq a b = (ipv6_value a = ipv6_value b)
   \<and> ipv6_ne a b = (ipv6_value a \<noteq> ipv6_value b)
   \<and> ipv6_le a b = (ipv6_value a \<le> ipv6_value b)
   \<and> ipv6_ge a b = (ipv6_value a \<ge> ipv6_value b)"
  by (auto simp: ipv6_ne_def ipv6_ge_def ipv6_lt_value ipv6_gt_lt ipv6_le_value ipv6_eq_eq
           dest: ipv6_value_inj)

end
