(* ===== verification/BlockRing.thy ===== *)
theory BlockRing
  imports KeyTypes
begin

text \<open>
  What the two block buffers of \<^verbatim>\<open>dpdk_lib/dataBlockbuffer.hpp\<close> and
  \<^verbatim>\<open>dpdk_lib/indexBlockBuffer.hpp\<close> have in common: the cyclic copy into the buffer, the test
  whether a writer has left the window of a block, and the rotation of the disk block that each
  buffer block stands for (the interface \<open>block_ring\<close>). Sizes and disk positions are far below
  \<open>2 ^ 64\<close>, so their sums are written without the wrap-around.
\<close>

declare One_nat_def [simp del]

section \<open>Cyclic copies\<close>

definition ring_copy :: "bytes \<Rightarrow> nat \<Rightarrow> nat \<Rightarrow> bytes \<Rightarrow> bytes option" where
  "ring_copy buf sz pos data =
     (if pos + length data > sz
      then do {
        let tmp = sz - pos;
        buf1 \<leftarrow> mwrite buf pos (take tmp data);
        mwrite buf1 0 (drop tmp data)}
      else mwrite buf pos data)"

definition ring_read :: "bytes \<Rightarrow> nat \<Rightarrow> nat \<Rightarrow> nat \<Rightarrow> bytes" where
  "ring_read buf sz pos len = map (\<lambda>i. buf ! ((pos + i) mod sz)) [0..<len]"

lemma length_ring_read [simp]: "length (ring_read buf sz pos len) = len"
  by (simp add: ring_read_def)

text \<open>The cyclic distance from \<open>p\<close> to \<open>j\<close>.\<close>

definition cyc :: "nat \<Rightarrow> nat \<Rightarrow> nat \<Rightarrow> nat" where
  "cyc n p j = (j + n - p) mod n"

lemma cyc_less: "0 < n \<Longrightarrow> cyc n p j < n"
  by (simp add: cyc_def)

lemma cyc_if: "p < n \<Longrightarrow> j < n \<Longrightarrow> cyc n p j = (if p \<le> j then j - p else j + n - p)"
  by (auto simp: cyc_def mod_if)

lemma cyc_add: "p < n \<Longrightarrow> i < n \<Longrightarrow> cyc n p ((p + i) mod n) = i"
  by (auto simp: cyc_def mod_add_if mod_if)

lemma add_cyc: "p < n \<Longrightarrow> j < n \<Longrightarrow> (p + cyc n p j) mod n = j"
  by (auto simp: cyc_if mod_if)

lemma ring_copy_some:
  assumes "pos < sz" and "length data \<le> sz" and "sz \<le> length buf"
  shows "\<exists>buf'. ring_copy buf sz pos data = Some buf' \<and> length buf' = length buf \<and>
    (\<forall>j < length buf. buf' ! j =
       (if j < sz \<and> cyc sz pos j < length data then data ! cyc sz pos j else buf ! j))"
proof (cases "pos + length data > sz")
  case True
  let ?t = "sz - pos"
  have len: "length (take ?t data) = ?t" "length (drop ?t data) = length data - ?t" using True by auto
  obtain buf1 where b1: "mwrite buf pos (take ?t data) = Some buf1"
    using assms len by (simp add: mwrite_def)
  have l1: "length buf1 = length buf" using mwrite_length [OF b1] .
  obtain buf2 where b2: "mwrite buf1 0 (drop ?t data) = Some buf2"
  proof -
    have "0 + length (drop ?t data) \<le> length buf1" using assms len l1 by simp
    then show thesis using that mwrite_in by blast
  qed
  have l2: "length buf2 = length buf" using mwrite_length [OF b2] l1 by simp
  have "buf2 ! j = (if j < sz \<and> cyc sz pos j < length data then data ! cyc sz pos j else buf ! j)"
    if j: "j < length buf" for j
  proof -
    have n2: "buf2 ! j = (if j < length data - ?t then drop ?t data ! j else buf1 ! j)"
      using mwrite_nth [OF b2, of j] j l1 len by auto
    have n1: "buf1 ! j = (if pos \<le> j \<and> j < sz then take ?t data ! (j - pos) else buf ! j)"
      using mwrite_nth [OF b1 j] len assms by auto
    show ?thesis
    proof (cases "j < sz")
      case False
      then show ?thesis using n1 n2 assms True by auto
    next
      case True
      have c: "cyc sz pos j = (if pos \<le> j then j - pos else j + ?t)"
        using assms True by (auto simp: cyc_if)
      show ?thesis
        using n1 n2 assms True \<open>pos + length data > sz\<close> unfolding c by (auto simp: add.commute)
    qed
  qed
  then show ?thesis using True b1 b2 l2 by (simp add: ring_copy_def Let_def)
next
  case False
  then obtain buf' where b: "mwrite buf pos data = Some buf'"
    using assms by (simp add: mwrite_def)
  have "buf' ! j = (if j < sz \<and> cyc sz pos j < length data then data ! cyc sz pos j else buf ! j)"
    if j: "j < length buf" for j
    using mwrite_nth [OF b j] False assms by (cases "j < sz") (auto simp: cyc_if)
  then show ?thesis using False b mwrite_length [OF b] by (simp add: ring_copy_def)
qed

lemma ring_read_copy:
  assumes "pos < sz" and "length data \<le> sz" and "sz \<le> length buf"
    and "ring_copy buf sz pos data = Some buf'"
  shows "length buf' = length buf" and "ring_read buf' sz pos (length data) = data"
    and "\<And>p len. p < sz \<Longrightarrow> len \<le> sz \<Longrightarrow>
       (\<forall>i < len. length data \<le> cyc sz pos ((p + i) mod sz)) \<Longrightarrow>
       ring_read buf' sz p len = ring_read buf sz p len"
proof -
  from ring_copy_some [OF assms(1-3)] assms(4)
  have l: "length buf' = length buf" and n: "\<And>j. j < length buf \<Longrightarrow> buf' ! j =
       (if j < sz \<and> cyc sz pos j < length data then data ! cyc sz pos j else buf ! j)" by auto
  show "length buf' = length buf" by (rule l)
  have lt: "(q + i) mod sz < length buf" for q i
  proof -
    have "(q + i) mod sz < sz" using assms(1) by simp
    then show ?thesis using assms(3) by simp
  qed
  have ms: "(q + i) mod sz < sz" for q i using assms(1) by simp
  show "ring_read buf' sz pos (length data) = data"
  proof (rule nth_equalityI)
    fix i assume "i < length (ring_read buf' sz pos (length data))"
    then have i: "i < length data" by simp
    then have "cyc sz pos ((pos + i) mod sz) = i" using assms(1,2) by (intro cyc_add) simp_all
    then show "ring_read buf' sz pos (length data) ! i = data ! i"
      using n [OF lt] i ms by (simp add: ring_read_def)
  qed simp
  show "ring_read buf' sz p len = ring_read buf sz p len"
    if "\<forall>i < len. length data \<le> cyc sz pos ((p + i) mod sz)" for p len
    using that n [OF lt] by (auto simp: ring_read_def dest: leD)
qed

lemma ring_read_append:
  "ring_read b N p (l1 + l2) = ring_read b N p l1 @ ring_read b N ((p + l1) mod N) l2"
proof (rule nth_equalityI)
  fix i assume "i < length (ring_read b N p (l1 + l2))"
  then have i: "i < l1 + l2" by simp
  show "ring_read b N p (l1 + l2) ! i = (ring_read b N p l1 @ ring_read b N ((p + l1) mod N) l2) ! i"
  proof (cases "i < l1")
    case True
    then show ?thesis by (simp add: ring_read_def nth_append)
  next
    case False
    then obtain k where k: "i = l1 + k" by (metis le_iff_add not_less)
    have "((p + l1) mod N + k) mod N = (p + l1 + k) mod N" by (rule mod_add_left_eq)
    then show ?thesis using i by (simp add: k ring_read_def nth_append add.assoc)
  qed
qed simp

lemma cyc_shift: "i < l \<Longrightarrow> l \<le> n \<Longrightarrow> p < n \<Longrightarrow> cyc n ((p + l) mod n) ((p + i) mod n) = i + n - l"
proof -
  assume a: "i < l" "l \<le> n" "p < n"
  have e: "p + l + (i + n - l) = p + i + n" using a by simp
  have "((p + l) mod n + (i + n - l)) mod n = (p + l + (i + n - l)) mod n" by (rule mod_add_left_eq)
  also have "\<dots> = (p + i) mod n" unfolding e by simp
  finally have "((p + l) mod n + (i + n - l)) mod n = (p + i) mod n" .
  then show ?thesis using cyc_add [of "(p + l) mod n" n "i + n - l"] a by simp
qed

text \<open>Data written behind a cyclic range extend it.\<close>

lemma ring_copy_append:
  assumes "p < N" and "l + length data \<le> N" and "N \<le> length buf"
    and "ring_copy buf N ((p + l) mod N) data = Some buf'"
  shows "ring_read buf' N p (l + length data) = ring_read buf N p l @ data"
proof -
  have N: "0 < N" "(p + l) mod N < N" using assms(1) by auto
  note rc = ring_read_copy [OF N(2) _ assms(3,4)]
  have "\<forall>i < l. length data \<le> cyc N ((p + l) mod N) ((p + i) mod N)"
    using assms(1,2) cyc_shift [of _ l N p] by auto
  then have "ring_read buf' N p l = ring_read buf N p l" using assms(1,2) by (intro rc(3)) auto
  moreover have "ring_read buf' N ((p + l) mod N) (length data) = data" using assms(2) by (intro rc(2)) simp
  ultimately show ?thesis by (simp add: ring_read_append)
qed

lemma ring_read_mwrite_append:
  assumes p: "p < N" and len: "length buf = N" and fit: "l + length d \<le> N"
    and q: "(p + l) mod N + length d \<le> N" and w: "mwrite buf ((p + l) mod N) d = Some buf'"
  shows "ring_read buf' N p (l + length d) = ring_read buf N p l @ d"
  by (rule ring_copy_append [OF p fit]) (use len q w in \<open>simp_all add: ring_copy_def\<close>)

section \<open>Has a writer left the window of a block?\<close>

text \<open>\<open>right\<close> is the disk block up to which writers may still write into the window, \<open>len\<close> the
  length of the barrier before it; the two functions differ in counting \<open>right\<close> itself.\<close>

definition barrier_passed :: "nat \<Rightarrow> nat \<Rightarrow> nat \<Rightarrow> nat \<Rightarrow> bool" where
  "barrier_passed disks barrier_len right disk_write_id =
     (let left = (right + disks - barrier_len) mod disks in
      (left < right \<and> (disk_write_id > right \<or> disk_write_id < left)) \<or>
      (left > right \<and> disk_write_id > right \<and> disk_write_id < left))"

definition barrier_reached :: "nat \<Rightarrow> nat \<Rightarrow> nat \<Rightarrow> nat \<Rightarrow> bool" where
  "barrier_reached disks barrier_len right disk_write_id =
     (let left = (right + disks - barrier_len) mod disks in
      (left < right \<and> (disk_write_id \<ge> right \<or> disk_write_id < left)) \<or>
      (left > right \<and> (disk_write_id \<ge> right \<and> disk_write_id < left)))"

lemma barrier_left:
  assumes "(right :: nat) < disks" and "0 < len" and "len < disks"
  shows "(right + disks - len) mod disks = (if len \<le> right then right - len else right + disks - len)"
proof (cases "len \<le> right")
  case True
  then have "right + disks - len = (right - len) + disks" by linarith
  then show ?thesis using True assms(1) by (simp only: mod_add_self2) simp
next
  case False
  then show ?thesis using assms by simp
qed

lemma barrier_passed_cyc:
  assumes "right < disks" and "0 < len" and "len < disks" and "w < disks"
  shows "barrier_passed disks len right w \<longleftrightarrow> 0 < cyc disks right w \<and> cyc disks right w < disks - len"
  using assms unfolding barrier_passed_def Let_def barrier_left [OF assms(1-3)]
  by (auto simp: cyc_if)

lemma barrier_reached_cyc:
  assumes "right < disks" and "0 < len" and "len < disks" and "w < disks"
  shows "barrier_reached disks len right w \<longleftrightarrow> cyc disks right w < disks - len"
  using assms unfolding barrier_reached_def Let_def barrier_left [OF assms(1-3)]
  by (auto simp: cyc_if)

text \<open>The loops over the writer threads.\<close>

fun all_check :: "(nat \<Rightarrow> bool option) \<Rightarrow> nat list \<Rightarrow> bool option" where
  "all_check chk [] = Some True"
| "all_check chk (i # is) = (case chk i of None \<Rightarrow> None
     | Some ok \<Rightarrow> if ok then all_check chk is else Some False)"

fun any_check :: "(nat \<Rightarrow> bool option) \<Rightarrow> nat list \<Rightarrow> bool option" where
  "any_check chk [] = Some False"
| "any_check chk (i # is) = (case chk i of None \<Rightarrow> None
     | Some ok \<Rightarrow> if ok then Some True else any_check chk is)"

lemma all_check_iff:
  assumes "\<forall>i \<in> set is. chk i = Some (P i)"
  shows "all_check chk is = Some (\<forall>i \<in> set is. P i)"
  using assms by (induction "is") auto

lemma any_check_iff:
  assumes "\<forall>i \<in> set is. chk i = Some (P i)"
  shows "any_check chk is = Some (\<exists>i \<in> set is. P i)"
  using assms by (induction "is") auto

section \<open>The interface of a rotating block buffer\<close>

locale block_ring =
  fixes inv :: "'s \<Rightarrow> bool"
    and total :: "'s \<Rightarrow> nat"
    and disks :: "'s \<Rightarrow> nat"
    and owner :: "'s \<Rightarrow> nat \<Rightarrow> nat"
    and recycle :: "'s \<Rightarrow> nat \<Rightarrow> 's option"
  assumes sizes: "inv s \<Longrightarrow> 0 < total s \<and> total s < disks s"
    and owner_less: "inv s \<Longrightarrow> b < total s \<Longrightarrow> owner s b < disks s"
    and recycle_owner: "inv s \<Longrightarrow> b < total s \<Longrightarrow>
      \<exists>s'. recycle s b = Some s' \<and> inv s' \<and> total s' = total s \<and> disks s' = disks s \<and>
        (\<forall>c < total s. owner s' c = (if c = b then (owner s b + total s) mod disks s else owner s c))"

fun repeat_opt :: "nat \<Rightarrow> ('s \<Rightarrow> 's option) \<Rightarrow> 's \<Rightarrow> 's option" where
  "repeat_opt 0 step s = Some s"
| "repeat_opt (Suc n) step s = (case step s of None \<Rightarrow> None | Some s' \<Rightarrow> repeat_opt n step s')"

context block_ring
begin

lemma recycle_times:
  "inv s \<Longrightarrow> b < total s \<Longrightarrow>
     \<exists>s'. repeat_opt n (\<lambda>s. recycle s b) s = Some s' \<and> inv s' \<and> total s' = total s \<and> disks s' = disks s \<and>
       (\<forall>c < total s. owner s' c = (if c = b then (owner s b + n * total s) mod disks s else owner s c))"
proof (induction n arbitrary: s)
  case 0
  then show ?case using owner_less by simp
next
  case (Suc n)
  from recycle_owner [OF Suc.prems] obtain t where
    t: "recycle s b = Some t" "inv t" "total t = total s" "disks t = disks s"
      "\<forall>c < total s. owner t c = (if c = b then (owner s b + total s) mod disks s else owner s c)" by blast
  with Suc.prems have "b < total t" by simp
  from Suc.IH [OF t(2) this] obtain u where
    u: "repeat_opt n (\<lambda>s. recycle s b) t = Some u" "inv u" "total u = total t" "disks u = disks t"
      "\<forall>c < total t. owner u c = (if c = b then (owner t b + n * total t) mod disks t else owner t c)" by blast
  have "((owner s b + total s) mod disks s + n * total s) mod disks s
      = (owner s b + Suc n * total s) mod disks s"
  proof -
    have "owner s b + Suc n * total s = (owner s b + total s) + n * total s" by simp
    then show ?thesis by (simp only: mod_add_left_eq)
  qed
  then show ?case using t u Suc.prems by auto
qed

text \<open>When the buffer divides the disk, every disk block of a buffer block's residue class comes
  round after fewer recyclings than the disk has laps of the buffer.\<close>

lemma recycle_reaches:
  assumes inv: "inv s" and b: "b < total s" and dvd: "total s dvd disks s"
    and al: "owner s b mod total s = d mod total s" and d: "d < disks s"
  shows "\<exists>n < disks s div total s. \<exists>s'. repeat_opt n (\<lambda>s. recycle s b) s = Some s' \<and> inv s' \<and>
      total s' = total s \<and> disks s' = disks s \<and> owner s' b = d \<and> (\<forall>c < total s. c \<noteq> b \<longrightarrow> owner s' c = owner s c)"
proof -
  let ?t = "total s" and ?D = "disks s" and ?o = "owner s b"
  have o: "?o < ?D" and t: "0 < ?t" using owner_less [OF inv b] sizes [OF inv] by simp_all
  let ?c = "cyc ?D ?o d"
  have "?t dvd ?c"
  proof -
    have "(?o + ?c) mod ?D = d" using add_cyc [OF o d] .
    then have "(?o + ?c) mod ?t = d mod ?t" using dvd by (metis mod_mod_cancel)
    then have "(?o + ?c) mod ?t = ?o mod ?t" using al by simp
    then have "?t dvd (?o + ?c) - ?o" by (intro mod_eq_dvd_iff_nat [THEN iffD1]) simp_all
    then show ?thesis by simp
  qed
  then obtain n where n: "?c = n * ?t" by (metis dvd_div_mult_self)
  have "?c < ?D" using o by (intro cyc_less) simp
  then have "n * ?t < (?D div ?t) * ?t" using n dvd by simp
  then have lt: "n < ?D div ?t" by simp
  from recycle_times [OF inv b, of n] obtain s' where
    s': "repeat_opt n (\<lambda>s. recycle s b) s = Some s'" "inv s'" "total s' = total s" "disks s' = disks s"
      "owner s' b = (?o + n * ?t) mod ?D" "\<forall>c < total s. c \<noteq> b \<longrightarrow> owner s' c = owner s c" using b by auto
  have "(?o + n * ?t) mod ?D = d" using add_cyc [OF o d] n by simp
  then show ?thesis using lt s' by blast
qed

end

end
