(* ===== verification/DataBlocks.thy ===== *)
theory DataBlocks
  imports BlockRing
begin

text \<open>
  The packet buffer of \<^verbatim>\<open>dpdk_lib/dataBlockbuffer.hpp\<close>: a cyclic buffer of blocks in memory, each
  standing for one block of the (much larger, also cyclic) disk. Capture threads write packets
  at disk positions; a write into a block that does not stand for its disk block yet is refused
  and repeated by the caller. Check threads look for blocks that every writer has left, hand
  them to the disk and recycle them. An index outside its array is \<open>None\<close>.
\<close>

section \<open>State\<close>

record DataBlock =
  blk_id :: nat
  blk_write_pos :: nat
  blk_start_time :: nat
  blk_end_time :: nat
  blk_packet_count :: nat
  blk_buffer :: bytes

record DataBlockBuffer =
  db_total :: nat
  db_block_size :: nat
  db_buffer_size :: nat
  db_disk_num :: nat
  db_rss_num :: nat
  db_delayed :: nat
  db_mem :: bytes
  db_block_disk_id :: "nat list"
  db_start_times :: "nat list"
  db_end_times :: "nat list"
  db_packet_counts :: "nat list"
  db_write_ids :: "nat list"
  db_check_ids :: "nat list"

datatype block_error = Buffer_size_wrong | Block_number_wrong | Block_mmap_failed

definition DataBlockBuffer_new :: "bool \<Rightarrow> nat \<Rightarrow> nat \<Rightarrow> nat \<Rightarrow> nat \<Rightarrow> nat \<Rightarrow> block_error + DataBlockBuffer" where
  "DataBlockBuffer_new mmap_ok blocks bsize disks rss delayed =
     (let buffer_size = blocks * bsize in
      if buffer_size AND (buffer_size - 1) \<noteq> 0 then Inl Buffer_size_wrong
      else if blocks * 4 \<ge> disks then Inl Block_number_wrong
      else if \<not> mmap_ok then Inl Block_mmap_failed
      else Inr \<lparr>db_total = blocks, db_block_size = bsize, db_buffer_size = buffer_size,
             db_disk_num = disks, db_rss_num = rss, db_delayed = delayed,
             db_mem = replicate buffer_size 0, db_block_disk_id = [0..<blocks],
             db_start_times = replicate blocks u64_max, db_end_times = replicate blocks 0,
             db_packet_counts = replicate (blocks * rss) 0, db_write_ids = [], db_check_ids = []\<rparr>)"

section \<open>Threads\<close>

definition db_addWriteThread :: "DataBlockBuffer \<Rightarrow> nat \<times> DataBlockBuffer" where
  "db_addWriteThread b =
     (let i = length (db_write_ids b) in
      if i \<ge> db_total b then (u64_max, b)
      else (i, b\<lparr>db_write_ids := db_write_ids b @ [i]\<rparr>))"

definition db_addCheckThread :: "DataBlockBuffer \<Rightarrow> nat \<times> DataBlockBuffer" where
  "db_addCheckThread b =
     (let i = length (db_check_ids b) in
      if i \<ge> db_total b then (u64_max, b)
      else (i, b\<lparr>db_check_ids := db_check_ids b @ [i]\<rparr>))"

section \<open>Writing\<close>

definition db_set_write_id :: "DataBlockBuffer \<Rightarrow> bool \<Rightarrow> nat \<Rightarrow> nat \<Rightarrow> DataBlockBuffer option" where
  "db_set_write_id b new_data thread_id disk_id =
     (if new_data
      then do { ids \<leftarrow> vec_set (db_write_ids b) thread_id disk_id; Some (b\<lparr>db_write_ids := ids\<rparr>) }
      else Some b)"

definition db_set_end :: "DataBlockBuffer \<Rightarrow> bool \<Rightarrow> nat \<Rightarrow> nat \<Rightarrow> DataBlockBuffer option" where
  "db_set_end b new_data block_id ts =
     (if new_data
      then do { es \<leftarrow> vec_set (db_end_times b) block_id ts; Some (b\<lparr>db_end_times := es\<rparr>) }
      else Some b)"

definition db_min_start :: "DataBlockBuffer \<Rightarrow> bool \<Rightarrow> nat \<Rightarrow> nat \<Rightarrow> DataBlockBuffer option" where
  "db_min_start b new_data block_id ts =
     (if new_data
      then do {
        old \<leftarrow> vec_get (db_start_times b) block_id;
        ss \<leftarrow> vec_set (db_start_times b) block_id (min old ts);
        Some (b\<lparr>db_start_times := ss\<rparr>) }
      else Some b)"

definition db_count_packet :: "DataBlockBuffer \<Rightarrow> bool \<Rightarrow> bool \<Rightarrow> nat \<Rightarrow> nat \<Rightarrow> DataBlockBuffer option" where
  "db_count_packet b new_data new_index disk_pos thread_id =
     (if new_data \<and> new_index
      then do {
        let i = (disk_pos div db_block_size b) mod db_total b + db_total b * thread_id;
        old \<leftarrow> vec_get (db_packet_counts b) i;
        cs \<leftarrow> vec_set (db_packet_counts b) i (add64 old 1);
        Some (b\<lparr>db_packet_counts := cs\<rparr>) }
      else Some b)"

text \<open>The part of \<open>writeBlock\<close> after the ownership tests; \<open>block_id\<close> and \<open>disk_id\<close> are those of
  the block in which the data end.\<close>

definition db_store :: "DataBlockBuffer \<Rightarrow> bytes \<Rightarrow> nat \<Rightarrow> nat \<Rightarrow> bool \<Rightarrow> bool \<Rightarrow> nat \<Rightarrow> nat \<Rightarrow> nat \<Rightarrow>
    (bool \<times> DataBlockBuffer) option" where
  "db_store b data disk_pos thread_id new_data new_index ts block_id disk_id = do {
     let block_offset = disk_pos mod db_block_size b;
     let block_pos = disk_pos mod db_buffer_size b;
     let slice = (if db_rss_num b = 0 then 0 else db_block_size b div db_rss_num b);
     b1 \<leftarrow> (if slice = 0 then None
            else if (block_offset + length data) mod slice = 0
            then do {
              b' \<leftarrow> db_set_end b new_data block_id ts;
              db_min_start b' new_data ((block_id + 1) mod db_total b) ts }
            else Some b);
     m \<leftarrow> ring_copy (db_mem b1) (db_buffer_size b) block_pos data;
     b2 \<leftarrow> db_set_write_id (b1\<lparr>db_mem := m\<rparr>) new_data thread_id disk_id;
     b3 \<leftarrow> db_count_packet b2 new_data new_index disk_pos thread_id;
     Some (True, b3) }"

definition db_writeBlock :: "DataBlockBuffer \<Rightarrow> bytes \<Rightarrow> nat \<Rightarrow> nat \<Rightarrow> bool \<Rightarrow> bool \<Rightarrow> nat \<Rightarrow>
    (bool \<times> DataBlockBuffer) option" where
  "db_writeBlock b data disk_pos thread_id new_data new_index ts = do {
     let block_id = (disk_pos div db_block_size b) mod db_total b;
     let disk_id = (disk_pos div db_block_size b) mod db_disk_num b;
     let block_offset = disk_pos mod db_block_size b;
     own \<leftarrow> vec_get (db_block_disk_id b) block_id;
     if own \<noteq> disk_id
     then do { b' \<leftarrow> db_set_write_id b new_data thread_id disk_id; Some (False, b') }
     else if block_offset + length data \<ge> db_block_size b
     then do {
       b1 \<leftarrow> db_set_end b new_data block_id ts;
       let block_id = (block_id + 1) mod db_total b;
       let disk_id = (disk_id + 1) mod db_disk_num b;
       own \<leftarrow> vec_get (db_block_disk_id b1) block_id;
       if own \<noteq> disk_id
       then do { b' \<leftarrow> db_set_write_id b1 new_data thread_id disk_id; Some (False, b') }
       else do {
         b2 \<leftarrow> db_min_start b1 new_data block_id ts;
         db_store b2 data disk_pos thread_id new_data new_index ts block_id disk_id } }
     else db_store b data disk_pos thread_id new_data new_index ts block_id disk_id }"

section \<open>Checking, handing out, recycling\<close>

definition checkRSS :: "DataBlockBuffer \<Rightarrow> nat \<Rightarrow> nat \<Rightarrow> bool option" where
  "checkRSS b block_check_id rss_id = do {
     disk_write_id \<leftarrow> vec_get (db_write_ids b) rss_id;
     own \<leftarrow> vec_get (db_block_disk_id b) block_check_id;
     Some (barrier_passed (db_disk_num b) (db_total b * 2)
             ((own + db_delayed b) mod db_disk_num b) disk_write_id) }"

definition directCheckRSS :: "DataBlockBuffer \<Rightarrow> nat \<Rightarrow> nat \<Rightarrow> bool option" where
  "directCheckRSS b block_check_id rss_id = do {
     disk_write_id \<leftarrow> vec_get (db_write_ids b) rss_id;
     own \<leftarrow> vec_get (db_block_disk_id b) block_check_id;
     Some (barrier_reached (db_disk_num b) (db_total b * 2) (own mod db_disk_num b) disk_write_id) }"

definition db_checkBlock :: "DataBlockBuffer \<Rightarrow> nat \<Rightarrow> nat option" where
  "db_checkBlock b thread_id = do {
     block_check_id \<leftarrow> vec_get (db_check_ids b) thread_id;
     ok \<leftarrow> all_check (checkRSS b block_check_id) [0..<db_rss_num b];
     Some (if ok then block_check_id else u64_max) }"

definition directGetBlockID :: "DataBlockBuffer \<Rightarrow> nat \<Rightarrow> nat option" where
  "directGetBlockID b thread_id = do {
     block_check_id \<leftarrow> vec_get (db_check_ids b) thread_id;
     ok \<leftarrow> any_check (directCheckRSS b block_check_id) [0..<db_rss_num b];
     Some (if ok then block_check_id else u64_max) }"

text \<open>The loops over the packet counters of a block, one per capture thread.\<close>

fun sum_counts :: "nat list \<Rightarrow> nat \<Rightarrow> nat \<Rightarrow> nat list \<Rightarrow> nat option" where
  "sum_counts cs block_id blocks [] = Some 0"
| "sum_counts cs block_id blocks (i # is) = do {
     c \<leftarrow> vec_get cs (block_id + blocks * i);
     rest \<leftarrow> sum_counts cs block_id blocks is;
     Some (add64 c rest) }"

fun reset_counts :: "nat list \<Rightarrow> nat \<Rightarrow> nat \<Rightarrow> nat list \<Rightarrow> nat list option" where
  "reset_counts cs block_id blocks [] = Some cs"
| "reset_counts cs block_id blocks (i # is) = do {
     cs' \<leftarrow> vec_set cs (block_id + blocks * i) 0;
     reset_counts cs' block_id blocks is }"

definition db_getBlock :: "DataBlockBuffer \<Rightarrow> nat \<Rightarrow> (DataBlock \<times> DataBlockBuffer) option" where
  "db_getBlock b thread_id = do {
     block_id \<leftarrow> vec_get (db_check_ids b) thread_id;
     st \<leftarrow> vec_get (db_start_times b) block_id;
     en \<leftarrow> vec_get (db_end_times b) block_id;
     wp \<leftarrow> vec_get (db_block_disk_id b) block_id;
     count \<leftarrow> sum_counts (db_packet_counts b) block_id (db_total b) [0..<db_rss_num b];
     buf \<leftarrow> mread (db_mem b) (block_id * db_block_size b) (db_block_size b);
     cs \<leftarrow> reset_counts (db_packet_counts b) block_id (db_total b) [0..<db_rss_num b];
     ids \<leftarrow> vec_set (db_check_ids b) thread_id
              ((block_id + length (db_check_ids b)) mod db_total b);
     Some (\<lparr>blk_id = block_id, blk_write_pos = wp, blk_start_time = st, blk_end_time = en,
            blk_packet_count = count, blk_buffer = buf\<rparr>,
           b\<lparr>db_packet_counts := cs, db_check_ids := ids\<rparr>) }"

definition db_recycleBlock :: "DataBlockBuffer \<Rightarrow> nat \<Rightarrow> DataBlockBuffer option" where
  "db_recycleBlock b block_id = do {
     disk_id \<leftarrow> vec_get (db_block_disk_id b) block_id;
     ids \<leftarrow> vec_set (db_block_disk_id b) block_id ((disk_id + db_total b) mod db_disk_num b);
     Some (b\<lparr>db_block_disk_id := ids\<rparr>) }"

section \<open>Well-formed buffers\<close>

definition db_wf :: "DataBlockBuffer \<Rightarrow> bool" where
  "db_wf b \<longleftrightarrow> 0 < db_total b \<and> 0 < db_block_size b \<and> 0 < db_rss_num b \<and>
     db_rss_num b \<le> db_block_size b \<and> db_total b * 4 < db_disk_num b \<and>
     db_buffer_size b = db_total b * db_block_size b \<and>
     length (db_mem b) = db_buffer_size b \<and>
     length (db_block_disk_id b) = db_total b \<and> (\<forall>d \<in> set (db_block_disk_id b). d < db_disk_num b) \<and>
     length (db_start_times b) = db_total b \<and> length (db_end_times b) = db_total b \<and>
     length (db_packet_counts b) = db_total b * db_rss_num b \<and>
     length (db_write_ids b) \<le> db_total b \<and> (\<forall>d \<in> set (db_write_ids b). d < db_disk_num b) \<and>
     length (db_check_ids b) \<le> db_total b \<and> (\<forall>i \<in> set (db_check_ids b). i < db_total b)"

definition db_owner :: "DataBlockBuffer \<Rightarrow> nat \<Rightarrow> nat" where
  "db_owner b i = db_block_disk_id b ! i"

text \<open>The buffer stands for the disk blocks of \<open>len\<close> bytes: the buffer block of every byte has the disk
  block of this byte.\<close>

definition db_stands_for :: "DataBlockBuffer \<Rightarrow> nat \<Rightarrow> nat \<Rightarrow> bool" where
  "db_stands_for b disk_pos len \<longleftrightarrow>
     (\<forall>k < len. let blk = (disk_pos + k) div db_block_size b in
        db_owner b (blk mod db_total b) = blk mod db_disk_num b)"

text \<open>What a write tests instead: the block in which the data begin, and the next one when the data
  reach its end. Later blocks are not tested.\<close>

definition db_admits :: "DataBlockBuffer \<Rightarrow> nat \<Rightarrow> nat \<Rightarrow> bool" where
  "db_admits b disk_pos len \<longleftrightarrow>
     (let blk = disk_pos div db_block_size b in
      db_owner b (blk mod db_total b) = blk mod db_disk_num b \<and>
      (disk_pos mod db_block_size b + len \<ge> db_block_size b \<longrightarrow>
         db_owner b ((blk mod db_total b + 1) mod db_total b) = (blk mod db_disk_num b + 1) mod db_disk_num b))"

lemma db_admits_stands:
  assumes "0 < db_block_size b" and "disk_pos mod db_block_size b + len < 2 * db_block_size b"
  shows "db_admits b disk_pos len \<longleftrightarrow> db_stands_for b disk_pos (len + 1)"
proof -
  let ?w = "db_block_size b"
  let ?blk = "disk_pos div ?w" and ?off = "disk_pos mod ?w"
  let ?P = "\<lambda>blk. db_owner b (blk mod db_total b) = blk mod db_disk_num b"
  have blk: "(disk_pos + k) div ?w = (if ?off + k < ?w then ?blk else ?blk + 1)" if "k \<le> len" for k
  proof -
    have "disk_pos + k = ?off + k + ?blk * ?w" by (simp add: add.commute add.left_commute)
    then have "(disk_pos + k) div ?w = (?off + k) div ?w + ?blk"
      using assms(1) by (metis add.commute div_mult_self1 less_irrefl)
    moreover have "(?off + k) div ?w = (if ?off + k < ?w then 0 else 1)"
      using assms that by (auto simp: div_nat_eqI One_nat_def)
    ultimately show ?thesis by simp
  qed
  have next_block: "?P (?blk + 1) \<longleftrightarrow>
      db_owner b ((?blk mod db_total b + 1) mod db_total b) = (?blk mod db_disk_num b + 1) mod db_disk_num b"
    by (simp add: mod_add_left_eq)
  have "?off < ?w" using assms(1) by simp
  then have "db_stands_for b disk_pos (len + 1) \<longleftrightarrow> ?P ?blk \<and> (?w \<le> ?off + len \<longrightarrow> ?P (?blk + 1))"
    unfolding db_stands_for_def Let_def using blk
    by (auto simp: less_Suc_eq_le One_nat_def)
  then show ?thesis unfolding next_block db_admits_def Let_def by blast
qed

lemma db_new_wf:
  assumes "DataBlockBuffer_new ok blocks bsize disks rss delayed = Inr b"
    and "0 < blocks" and "0 < rss" and "rss \<le> bsize"
  shows "db_wf b"
  using assms by (auto simp: DataBlockBuffer_new_def db_wf_def Let_def split: if_splits)

section \<open>What the steps of a write do\<close>

definition put_write_id :: "DataBlockBuffer \<Rightarrow> bool \<Rightarrow> nat \<Rightarrow> nat \<Rightarrow> nat list" where
  "put_write_id b new_data thread_id disk_id =
     (if new_data then (db_write_ids b)[thread_id := disk_id] else db_write_ids b)"

definition put_count :: "DataBlockBuffer \<Rightarrow> bool \<Rightarrow> nat \<Rightarrow> nat \<Rightarrow> nat list" where
  "put_count b counted disk_pos thread_id =
     (let i = (disk_pos div db_block_size b) mod db_total b + db_total b * thread_id in
      if counted then (db_packet_counts b)[i := add64 (db_packet_counts b ! i) 1]
      else db_packet_counts b)"

lemma put_frame [simp]:
  "put_write_id (b\<lparr>db_end_times := E\<rparr>) = put_write_id b"
  "put_write_id (b\<lparr>db_start_times := S\<rparr>) = put_write_id b"
  "put_write_id (b\<lparr>db_mem := m\<rparr>) = put_write_id b"
  "put_count (b\<lparr>db_end_times := E\<rparr>) = put_count b"
  "put_count (b\<lparr>db_start_times := S\<rparr>) = put_count b"
  "put_count (b\<lparr>db_mem := m\<rparr>) = put_count b"
  "put_count (b\<lparr>db_write_ids := W\<rparr>) = put_count b"
  by (auto simp: put_write_id_def put_count_def Let_def fun_eq_iff)

lemma db_set_write_id_eq:
  "thread_id < length (db_write_ids b) \<Longrightarrow>
     db_set_write_id b new_data thread_id d = Some (b\<lparr>db_write_ids := put_write_id b new_data thread_id d\<rparr>)"
  by (simp add: db_set_write_id_def put_write_id_def vec_set_def)

lemma db_set_end_eq:
  "block_id < length (db_end_times b) \<Longrightarrow>
     \<exists>E. db_set_end b new_data block_id ts = Some (b\<lparr>db_end_times := E\<rparr>) \<and> length E = length (db_end_times b)"
  by (rule exI [of _ "if new_data then (db_end_times b)[block_id := ts] else db_end_times b"])
     (simp add: db_set_end_def vec_set_def)

lemma db_min_start_eq:
  "block_id < length (db_start_times b) \<Longrightarrow>
     \<exists>S. db_min_start b new_data block_id ts = Some (b\<lparr>db_start_times := S\<rparr>) \<and>
         length S = length (db_start_times b)"
  by (rule exI [of _ "if new_data then (db_start_times b)[block_id := min (db_start_times b ! block_id) ts]
        else db_start_times b"])
     (simp add: db_min_start_def vec_set_def vec_get_def)

lemma count_index:
  assumes "db_wf b" and "thread_id < db_rss_num b"
  shows "(disk_pos div db_block_size b) mod db_total b + db_total b * thread_id < length (db_packet_counts b)"
proof -
  let ?x = "(disk_pos div db_block_size b) mod db_total b"
  have "?x < db_total b" using assms(1) by (simp add: db_wf_def)
  then have "thread_id * db_total b + ?x < db_rss_num b * db_total b"
    by (intro mult_add_less assms(2))
  then show ?thesis using assms(1) by (simp add: db_wf_def ac_simps)
qed

lemma db_count_packet_eq:
  assumes "db_wf b" and "thread_id < db_rss_num b"
  shows "db_count_packet b new_data new_index disk_pos thread_id =
    Some (b\<lparr>db_packet_counts := put_count b (new_data \<and> new_index) disk_pos thread_id\<rparr>)"
  using count_index [OF assms]
  by (simp add: db_count_packet_def put_count_def vec_get_def vec_set_def Let_def)

text \<open>An update of the fields a write may change keeps the buffer well formed.\<close>

lemma db_wf_update:
  assumes "db_wf b" and "length S = db_total b" and "length E = db_total b"
    and "length m = db_buffer_size b" and "length C = db_total b * db_rss_num b"
    and "length W = length (db_write_ids b)" and "\<forall>d \<in> set W. d < db_disk_num b"
  shows "db_wf (b\<lparr>db_end_times := E, db_start_times := S, db_mem := m, db_write_ids := W, db_packet_counts := C\<rparr>)"
  using assms by (simp add: db_wf_def)

lemma put_write_id_props:
  assumes "db_wf b" and "d < db_disk_num b"
  shows "length (put_write_id b new_data thread_id d) = length (db_write_ids b)"
    and "\<forall>x \<in> set (put_write_id b new_data thread_id d). x < db_disk_num b"
  using assms set_update_subset_insert [of "db_write_ids b" thread_id d]
  by (auto simp: put_write_id_def db_wf_def)

lemma put_count_length [simp]: "length (put_count b counted disk_pos thread_id) = length (db_packet_counts b)"
  by (simp add: put_count_def Let_def)

definition written :: "DataBlockBuffer \<Rightarrow> bytes \<Rightarrow> nat \<Rightarrow> nat \<Rightarrow> bool \<Rightarrow> bool \<Rightarrow> DataBlockBuffer \<Rightarrow> bool" where
  "written b data disk_pos thread_id new_data new_index b' \<longleftrightarrow>
     (\<exists>S E m d. length S = db_total b \<and> length E = db_total b \<and> d < db_disk_num b \<and>
        ring_copy (db_mem b) (db_buffer_size b) (disk_pos mod db_buffer_size b) data = Some m \<and>
        b' = b\<lparr>db_end_times := E, db_start_times := S, db_mem := m,
               db_write_ids := put_write_id b new_data thread_id d,
               db_packet_counts := put_count b (new_data \<and> new_index) disk_pos thread_id\<rparr>)"

definition refused :: "DataBlockBuffer \<Rightarrow> nat \<Rightarrow> bool \<Rightarrow> DataBlockBuffer \<Rightarrow> bool" where
  "refused b thread_id new_data b' \<longleftrightarrow>
     (\<exists>E d. length E = db_total b \<and> d < db_disk_num b \<and>
        b' = b\<lparr>db_end_times := E, db_write_ids := put_write_id b new_data thread_id d\<rparr>)"

lemma ring_copy_wf:
  assumes "db_wf b" and "length data \<le> db_buffer_size b"
  obtains m where "ring_copy (db_mem b) (db_buffer_size b) (disk_pos mod db_buffer_size b) data = Some m"
    and "length m = db_buffer_size b"
proof -
  have "disk_pos mod db_buffer_size b < db_buffer_size b" "length (db_mem b) = db_buffer_size b"
    using assms(1) by (simp_all add: db_wf_def)
  then show thesis using ring_copy_some [of "disk_pos mod db_buffer_size b" "db_buffer_size b" data "db_mem b"]
      assms(2) that by auto
qed

lemma db_store_written:
  assumes wf: "db_wf b" and th: "thread_id < length (db_write_ids b)" "thread_id < db_rss_num b"
    and len: "length data \<le> db_buffer_size b" and ids: "block_id < db_total b" "disk_id < db_disk_num b"
  shows "\<exists>b'. db_store b data disk_pos thread_id new_data new_index ts block_id disk_id = Some (True, b') \<and>
    written b data disk_pos thread_id new_data new_index b'"
proof -
  let ?slice = "db_block_size b div db_rss_num b"
  let ?nb = "(block_id + 1) mod db_total b"
  have rss: "db_rss_num b \<noteq> 0" and slice: "?slice \<noteq> 0"
    using wf by (auto simp: db_wf_def div_eq_0_iff)
  obtain m where m: "ring_copy (db_mem b) (db_buffer_size b) (disk_pos mod db_buffer_size b) data = Some m"
    using ring_copy_wf [OF wf len] by metis
  have lens: "length (db_start_times b) = db_total b" "length (db_end_times b) = db_total b" "?nb < db_total b"
    using wf by (simp_all add: db_wf_def)
  obtain S E where SE: "length S = db_total b" "length E = db_total b" and
    b1: "(if (disk_pos mod db_block_size b + length data) mod ?slice = 0
          then do { b' \<leftarrow> db_set_end b new_data block_id ts; db_min_start b' new_data ?nb ts }
          else Some b) = Some (b\<lparr>db_end_times := E, db_start_times := S\<rparr>)"
  proof (cases "(disk_pos mod db_block_size b + length data) mod ?slice = 0")
    case True
    obtain E where E: "db_set_end b new_data block_id ts = Some (b\<lparr>db_end_times := E\<rparr>)" "length E = db_total b"
      using db_set_end_eq [of block_id b new_data ts] ids(1) lens by auto
    obtain S where "db_min_start (b\<lparr>db_end_times := E\<rparr>) new_data ?nb ts =
        Some (b\<lparr>db_end_times := E, db_start_times := S\<rparr>)" "length S = db_total b"
      using db_min_start_eq [of ?nb "b\<lparr>db_end_times := E\<rparr>" new_data ts] lens by auto
    with E True show thesis by (intro that [of S E]) simp_all
  next
    case False
    then show thesis using lens by (intro that [of "db_start_times b" "db_end_times b"]) simp_all
  qed
  let ?b1 = "b\<lparr>db_end_times := E, db_start_times := S\<rparr>"
  let ?b2 = "?b1\<lparr>db_mem := m, db_write_ids := put_write_id b new_data thread_id disk_id\<rparr>"
  have w: "db_set_write_id (?b1\<lparr>db_mem := m\<rparr>) new_data thread_id disk_id = Some ?b2"
    using db_set_write_id_eq [of thread_id "?b1\<lparr>db_mem := m\<rparr>" new_data disk_id] th(1)
    by simp
  have "length m = db_buffer_size b" using ring_copy_wf [OF wf len] m by (metis option.inject)
  then have wf2: "db_wf ?b2"
    using db_wf_update [OF wf SE, of m "db_packet_counts b" "put_write_id b new_data thread_id disk_id"]
      put_write_id_props [OF wf ids(2)] wf by (simp add: db_wf_def)
  have c: "db_count_packet ?b2 new_data new_index disk_pos thread_id =
      Some (?b2\<lparr>db_packet_counts := put_count b (new_data \<and> new_index) disk_pos thread_id\<rparr>)"
    using db_count_packet_eq [OF wf2, of thread_id] th(2) by simp
  have "db_store b data disk_pos thread_id new_data new_index ts block_id disk_id =
      Some (True, ?b2\<lparr>db_packet_counts := put_count b (new_data \<and> new_index) disk_pos thread_id\<rparr>)"
    unfolding db_store_def Let_def using rss slice m w c by (simp add: b1)
  then show ?thesis unfolding written_def using SE m ids(2) by fastforce
qed

lemma db_writeBlock_cases:
  assumes wf: "db_wf b" and th: "thread_id < length (db_write_ids b)" "thread_id < db_rss_num b"
    and len: "length data \<le> db_buffer_size b"
  shows "\<exists>b'. db_writeBlock b data disk_pos thread_id new_data new_index ts =
      Some (db_admits b disk_pos (length data), b') \<and>
    (if db_admits b disk_pos (length data) then written b data disk_pos thread_id new_data new_index b'
     else refused b thread_id new_data b')"
proof -
  let ?blk = "disk_pos div db_block_size b"
  let ?bi = "?blk mod db_total b" and ?di = "?blk mod db_disk_num b"
  let ?bi' = "(?bi + 1) mod db_total b" and ?di' = "(?di + 1) mod db_disk_num b"
  have tot: "?bi < db_total b" "?bi' < db_total b" "?di < db_disk_num b" "?di' < db_disk_num b"
    and lens: "length (db_block_disk_id b) = db_total b" "length (db_end_times b) = db_total b"
      "length (db_start_times b) = db_total b"
    using wf by (auto simp: db_wf_def)
  have own: "vec_get (db_block_disk_id b) i = Some (db_owner b i)" if "i < db_total b" for i
    using that lens by (simp add: vec_get_def db_owner_def)
  consider (no) "db_owner b ?bi \<noteq> ?di"
    | (in1) "db_owner b ?bi = ?di" "disk_pos mod db_block_size b + length data < db_block_size b"
    | (no2) "db_owner b ?bi = ?di" "disk_pos mod db_block_size b + length data \<ge> db_block_size b"
        "db_owner b ?bi' \<noteq> ?di'"
    | (in2) "db_owner b ?bi = ?di" "disk_pos mod db_block_size b + length data \<ge> db_block_size b"
        "db_owner b ?bi' = ?di'"
    by linarith
  then show ?thesis
  proof cases
    case no
    then have "\<not> db_admits b disk_pos (length data)" by (simp add: db_admits_def Let_def)
    moreover have "refused b thread_id new_data (b\<lparr>db_write_ids := put_write_id b new_data thread_id ?di\<rparr>)"
      unfolding refused_def using tot(3) lens(2)
      by (intro exI [of _ "db_end_times b"] exI [of _ ?di]) simp
    ultimately show ?thesis
      using no by (simp add: db_writeBlock_def Let_def own [OF tot(1)] db_set_write_id_eq [OF th(1)])
  next
    case in1
    then have "db_admits b disk_pos (length data)" by (simp add: db_admits_def Let_def)
    then show ?thesis
      using in1 db_store_written [OF wf th len tot(1,3), of disk_pos new_data new_index ts]
      by (auto simp: db_writeBlock_def Let_def own [OF tot(1)])
  next
    case no2
    then have no: "\<not> db_admits b disk_pos (length data)" by (simp add: db_admits_def Let_def)
    obtain E where E: "db_set_end b new_data ?bi ts = Some (b\<lparr>db_end_times := E\<rparr>)" "length E = db_total b"
      using db_set_end_eq [of ?bi b new_data ts] tot(1) lens by auto
    have "db_set_write_id (b\<lparr>db_end_times := E\<rparr>) new_data thread_id ?di' =
        Some (b\<lparr>db_end_times := E, db_write_ids := put_write_id b new_data thread_id ?di'\<rparr>)"
      using db_set_write_id_eq [of thread_id "b\<lparr>db_end_times := E\<rparr>" new_data ?di'] th(1)
      by simp
    then have "db_writeBlock b data disk_pos thread_id new_data new_index ts =
        Some (False, b\<lparr>db_end_times := E, db_write_ids := put_write_id b new_data thread_id ?di'\<rparr>)"
      using no2 by (simp add: db_writeBlock_def Let_def own [OF tot(1)] own [OF tot(2)] E)
    moreover have "refused b thread_id new_data
        (b\<lparr>db_end_times := E, db_write_ids := put_write_id b new_data thread_id ?di'\<rparr>)"
      unfolding refused_def using tot(4) E(2) by blast
    ultimately show ?thesis using no by simp
  next
    case in2
    then have yes: "db_admits b disk_pos (length data)" by (simp add: db_admits_def Let_def)
    obtain E where E: "db_set_end b new_data ?bi ts = Some (b\<lparr>db_end_times := E\<rparr>)" "length E = db_total b"
      using db_set_end_eq [of ?bi b new_data ts] tot(1) lens by auto
    obtain S where S: "db_min_start (b\<lparr>db_end_times := E\<rparr>) new_data ?bi' ts =
        Some (b\<lparr>db_end_times := E, db_start_times := S\<rparr>)" "length S = db_total b"
      using db_min_start_eq [of ?bi' "b\<lparr>db_end_times := E\<rparr>" new_data ts] tot(2) lens by auto
    let ?b2 = "b\<lparr>db_end_times := E, db_start_times := S\<rparr>"
    have wf2: "db_wf ?b2" using wf E(2) S(2) by (simp add: db_wf_def)
    from db_store_written [OF wf2, of thread_id data ?bi' ?di' disk_pos new_data new_index ts] th len tot
    obtain b' where b': "db_store ?b2 data disk_pos thread_id new_data new_index ts ?bi' ?di' = Some (True, b')"
      and w: "written ?b2 data disk_pos thread_id new_data new_index b'" by auto
    have "db_writeBlock b data disk_pos thread_id new_data new_index ts = Some (True, b')"
      using in2 by (simp add: db_writeBlock_def Let_def own [OF tot(1)] own [OF tot(2)] E S b')
    moreover have "written b data disk_pos thread_id new_data new_index b'"
      using w unfolding written_def by simp
    ultimately show ?thesis using yes by simp
  qed
qed

lemma written_props:
  assumes wf: "db_wf b" and len: "length data \<le> db_buffer_size b"
    and w: "written b data disk_pos thread_id new_data new_index b'"
  shows "db_wf b'" and "db_block_disk_id b' = db_block_disk_id b" and "db_total b' = db_total b"
    and "db_packet_counts b' = put_count b (new_data \<and> new_index) disk_pos thread_id"
    and "db_buffer_size b' = db_buffer_size b" and "db_check_ids b' = db_check_ids b"
    and "ring_copy (db_mem b) (db_buffer_size b) (disk_pos mod db_buffer_size b) data = Some (db_mem b')"
proof -
  from w obtain S E m d where v: "length S = db_total b" "length E = db_total b" "d < db_disk_num b"
      "ring_copy (db_mem b) (db_buffer_size b) (disk_pos mod db_buffer_size b) data = Some m"
    and b': "b' = b\<lparr>db_end_times := E, db_start_times := S, db_mem := m,
               db_write_ids := put_write_id b new_data thread_id d,
               db_packet_counts := put_count b (new_data \<and> new_index) disk_pos thread_id\<rparr>"
    unfolding written_def by blast
  have "length m = db_buffer_size b" using ring_copy_wf [OF wf len] v(4) by (metis option.inject)
  then show "db_wf b'"
    unfolding b' using wf put_write_id_props [OF wf v(3)] v(1,2)
    by (intro db_wf_update) (simp_all add: db_wf_def)
  show "db_block_disk_id b' = db_block_disk_id b" and "db_total b' = db_total b"
    and "db_packet_counts b' = put_count b (new_data \<and> new_index) disk_pos thread_id"
    and "db_buffer_size b' = db_buffer_size b" and "db_check_ids b' = db_check_ids b"
    and "ring_copy (db_mem b) (db_buffer_size b) (disk_pos mod db_buffer_size b) data = Some (db_mem b')"
    using v(4) by (simp_all add: b')
qed

lemma refused_props:
  assumes wf: "db_wf b" and r: "refused b thread_id new_data b'"
  shows "db_wf b'" and "db_block_disk_id b' = db_block_disk_id b" and "db_mem b' = db_mem b"
    and "db_packet_counts b' = db_packet_counts b" and "db_total b' = db_total b"
    and "db_check_ids b' = db_check_ids b" and "db_start_times b' = db_start_times b"
proof -
  from r obtain E d where v: "length E = db_total b" "d < db_disk_num b"
    and b': "b' = b\<lparr>db_end_times := E, db_write_ids := put_write_id b new_data thread_id d\<rparr>"
    unfolding refused_def by blast
  show "db_wf b'" using wf v(1) put_write_id_props [OF wf v(2)] by (simp add: b' db_wf_def)
  show "db_block_disk_id b' = db_block_disk_id b" and "db_mem b' = db_mem b"
    and "db_packet_counts b' = db_packet_counts b" and "db_total b' = db_total b"
    and "db_check_ids b' = db_check_ids b" and "db_start_times b' = db_start_times b"
    by (simp_all add: b')
qed

section \<open>Rotation of the disk blocks\<close>

lemma db_recycle_eq:
  assumes "db_wf b" and "i < db_total b"
  shows "db_recycleBlock b i = Some (b\<lparr>db_block_disk_id :=
    (db_block_disk_id b)[i := (db_owner b i + db_total b) mod db_disk_num b]\<rparr>)"
  using assms by (simp add: db_recycleBlock_def vec_get_def vec_set_def db_owner_def db_wf_def)

interpretation dbr: block_ring db_wf db_total db_disk_num db_owner db_recycleBlock
proof
  fix b :: DataBlockBuffer and i
  assume wf: "db_wf b"
  show "0 < db_total b \<and> db_total b < db_disk_num b" using wf by (simp add: db_wf_def)
  assume i: "i < db_total b"
  show o: "db_owner b i < db_disk_num b" using wf i by (simp add: db_wf_def db_owner_def)
  let ?ids = "(db_block_disk_id b)[i := (db_owner b i + db_total b) mod db_disk_num b]"
  have "(db_owner b i + db_total b) mod db_disk_num b < db_disk_num b" using o by simp
  then have "\<forall>d \<in> set ?ids. d < db_disk_num b"
    using wf set_update_subset_insert [of "db_block_disk_id b" i "(db_owner b i + db_total b) mod db_disk_num b"]
    by (auto simp: db_wf_def)
  then have "db_wf (b\<lparr>db_block_disk_id := ?ids\<rparr>)" using wf by (simp add: db_wf_def)
  moreover have "db_owner (b\<lparr>db_block_disk_id := ?ids\<rparr>) c =
      (if c = i then (db_owner b i + db_total b) mod db_disk_num b else db_owner b c)" if "c < db_total b" for c
    using that wf by (simp add: db_owner_def db_wf_def nth_list_update)
  ultimately show "\<exists>b'. db_recycleBlock b i = Some b' \<and> db_wf b' \<and> db_total b' = db_total b \<and>
      db_disk_num b' = db_disk_num b \<and> (\<forall>c < db_total b. db_owner b' c =
        (if c = i then (db_owner b i + db_total b) mod db_disk_num b else db_owner b c))"
    by (simp add: db_recycle_eq [OF wf i])
qed

section \<open>Which block a byte lives in\<close>

lemma mod_div_block:
  assumes "0 < (w::nat)"
  shows "(x mod (t * w)) div w = x div w mod t"
proof -
  have "x mod (w * t) = w * (x div w mod t) + x mod w" by (rule mod_mult2_eq)
  then show ?thesis using assms by (simp add: mult.commute [of t w])
qed

lemma written_byte_block:
  assumes wf: "db_wf b" and j: "j < db_buffer_size b"
    and c: "cyc (db_buffer_size b) (disk_pos mod db_buffer_size b) j < len" and len: "len \<le> db_block_size b"
  shows "j div db_block_size b = disk_pos div db_block_size b mod db_total b \<or>
    (db_block_size b \<le> disk_pos mod db_block_size b + len \<and>
     j div db_block_size b = (disk_pos div db_block_size b mod db_total b + 1) mod db_total b)"
proof -
  let ?N = "db_buffer_size b" and ?w = "db_block_size b" and ?t = "db_total b"
  let ?i = "cyc ?N (disk_pos mod ?N) j"
  have w: "0 < ?w" and N: "?N = ?t * ?w" "0 < ?N" using wf by (simp_all add: db_wf_def)
  have "j = (disk_pos mod ?N + ?i) mod ?N" using add_cyc [of "disk_pos mod ?N" ?N j] j N(2) by simp
  then have "j = (disk_pos + ?i) mod (?t * ?w)" by (simp add: mod_add_left_eq N(1))
  then have jb: "j div ?w = (disk_pos + ?i) div ?w mod ?t" using mod_div_block [OF w] by metis
  have d: "(disk_pos + ?i) div ?w = disk_pos div ?w + (disk_pos mod ?w + ?i) div ?w"
    using div_mult_mod_eq [of disk_pos ?w] w
    by (metis add.assoc div_mult_self3 nat_neq_iff)
  show ?thesis
  proof (cases "disk_pos mod ?w + ?i < ?w")
    case True
    then show ?thesis using jb d by simp
  next
    case False
    have "disk_pos mod ?w < ?w" using w by simp
    then have "disk_pos mod ?w + ?i < 2 * ?w" using c len by linarith
    then have "(disk_pos mod ?w + ?i) div ?w = 1" using False by (simp add: div_nat_eqI One_nat_def)
    then have "j div ?w = (disk_pos div ?w mod ?t + 1) mod ?t" using jb d by (simp add: mod_add_left_eq)
    moreover have "?w \<le> disk_pos mod ?w + len" using False c by linarith
    ultimately show ?thesis by blast
  qed
qed

section \<open>Packet counters\<close>

lemma sum_counts_value:
  "\<forall>i \<in> set is. bi + t * i < length cs \<Longrightarrow>
     sum_counts cs bi t is = Some (sum_list (map (\<lambda>i. cs ! (bi + t * i)) is) mod U64)"
  by (induction "is") (auto simp: vec_get_def add64_def mod_simps)

lemma reset_counts_value:
  "\<forall>i \<in> set is. bi + t * i < length cs \<Longrightarrow> distinct is \<Longrightarrow> 0 < t \<Longrightarrow>
     \<exists>cs'. reset_counts cs bi t is = Some cs' \<and> length cs' = length cs \<and>
       sum_list cs' + sum_list (map (\<lambda>i. cs ! (bi + t * i)) is) = sum_list cs"
proof (induction "is" arbitrary: cs)
  case Nil
  then show ?case by simp
next
  case (Cons i "is")
  let ?k = "bi + t * i"
  let ?cs = "cs[?k := 0]"
  have k: "?k < length cs" using Cons.prems by simp
  have "\<forall>j \<in> set is. bi + t * j < length ?cs" "distinct is" using Cons.prems by auto
  from Cons.IH [OF this Cons.prems(3)] obtain cs' where
    c': "reset_counts ?cs bi t is = Some cs'" "length cs' = length cs"
      "sum_list cs' + sum_list (map (\<lambda>i. ?cs ! (bi + t * i)) is) = sum_list ?cs" by auto
  have m: "map (\<lambda>j. ?cs ! (bi + t * j)) is = map (\<lambda>j. cs ! (bi + t * j)) is"
  proof (rule map_cong [OF refl])
    fix j assume "j \<in> set is"
    then have "j \<noteq> i" using Cons.prems(2) by auto
    then have "?k \<noteq> bi + t * j" using Cons.prems(3) by simp
    then show "?cs ! (bi + t * j) = cs ! (bi + t * j)" by simp
  qed
  have e: "sum_list cs' + sum_list (map (\<lambda>j. cs ! (bi + t * j)) is) = sum_list ?cs"
    using c'(3) by (simp only: m)
  have "sum_list ?cs + cs ! ?k = sum_list cs"
    using k by (simp add: sum_list_update elem_le_sum_list)
  with e have "sum_list cs' + sum_list (map (\<lambda>j. cs ! (bi + t * j)) (i # is)) = sum_list cs" by simp
  then show ?case using c'(1,2) k by (simp add: vec_set_def)
qed

text \<open>A history of writes, hand-outs and recyclings; \<open>accepted\<close> counts the accepted writes of new
  packets with an index, \<open>reported\<close> adds up the packet counts of the blocks handed out.\<close>

datatype db_op = W_op bytes nat nat bool bool nat | Get_op nat | Recycle_op nat

record db_history =
  hist_buf :: DataBlockBuffer
  accepted :: nat
  reported :: nat

fun db_exec :: "db_op \<Rightarrow> db_history \<Rightarrow> db_history option" where
  "db_exec (W_op data pos th nd ni ts) h = do {
     (ok, b') \<leftarrow> db_writeBlock (hist_buf h) data pos th nd ni ts;
     Some (h\<lparr>hist_buf := b', accepted := accepted h + (if ok \<and> nd \<and> ni then 1 else 0)\<rparr>) }"
| "db_exec (Get_op th) h = do {
     (blk, b') \<leftarrow> db_getBlock (hist_buf h) th;
     Some (h\<lparr>hist_buf := b', reported := reported h + blk_packet_count blk\<rparr>) }"
| "db_exec (Recycle_op i) h = do {
     b' \<leftarrow> db_recycleBlock (hist_buf h) i;
     Some (h\<lparr>hist_buf := b'\<rparr>) }"

fun db_run :: "db_op list \<Rightarrow> db_history \<Rightarrow> db_history option" where
  "db_run [] h = Some h"
| "db_run (op # ops) h = (case db_exec op h of None \<Rightarrow> None | Some h' \<Rightarrow> db_run ops h')"

fun op_ok :: "DataBlockBuffer \<Rightarrow> db_op \<Rightarrow> bool" where
  "op_ok b (W_op data pos th nd ni ts) =
     (th < length (db_write_ids b) \<and> th < db_rss_num b \<and> length data \<le> db_buffer_size b)"
| "op_ok b (Get_op th) = (th < length (db_check_ids b))"
| "op_ok b (Recycle_op i) = (i < db_total b)"

definition same_shape :: "DataBlockBuffer \<Rightarrow> DataBlockBuffer \<Rightarrow> bool" where
  "same_shape b b' \<longleftrightarrow> db_wf b' \<and> length (db_write_ids b') = length (db_write_ids b) \<and>
     db_rss_num b' = db_rss_num b \<and> db_buffer_size b' = db_buffer_size b \<and>
     length (db_check_ids b') = length (db_check_ids b) \<and> db_total b' = db_total b"

definition balanced :: "db_history \<Rightarrow> bool" where
  "balanced h \<longleftrightarrow> (sum_list (db_packet_counts (hist_buf h)) + reported h) mod U64 = accepted h mod U64"

lemma same_shape_ok: "same_shape b b' \<Longrightarrow> op_ok b' op = op_ok b op"
  by (cases op) (simp_all add: same_shape_def)

lemma put_count_sum:
  assumes "db_wf b" and "th < db_rss_num b"
  shows "sum_list (put_count b counted pos th) mod U64 =
    (sum_list (db_packet_counts b) + (if counted then 1 else 0)) mod U64"
proof (cases counted)
  case True
  let ?i = "(pos div db_block_size b) mod db_total b + db_total b * th"
  let ?cs = "db_packet_counts b"
  have i: "?i < length ?cs" by (rule count_index [OF assms])
  have "sum_list (?cs[?i := add64 (?cs ! ?i) 1]) + ?cs ! ?i = sum_list ?cs + add64 (?cs ! ?i) 1"
    using i elem_le_sum_list [OF i] by (simp add: sum_list_update)
  then have "sum_list (?cs[?i := add64 (?cs ! ?i) 1]) = sum_list ?cs - ?cs ! ?i + add64 (?cs ! ?i) 1"
    using elem_le_sum_list [OF i] by linarith
  then have "sum_list (?cs[?i := add64 (?cs ! ?i) 1]) mod U64 = (sum_list ?cs - ?cs ! ?i + (?cs ! ?i + 1)) mod U64"
    by (simp add: add64_def mod_add_right_eq)
  also have "sum_list ?cs - ?cs ! ?i + (?cs ! ?i + 1) = sum_list ?cs + 1"
    using elem_le_sum_list [OF i] by simp
  finally show ?thesis using True by (simp add: put_count_def Let_def)
next
  case False
  then show ?thesis by (simp add: put_count_def Let_def)
qed

lemma db_getBlock_step:
  assumes wf: "db_wf b" and th: "th < length (db_check_ids b)"
  shows "\<exists>blk b'. db_getBlock b th = Some (blk, b') \<and> same_shape b b' \<and>
     (sum_list (db_packet_counts b') + blk_packet_count blk) mod U64 = sum_list (db_packet_counts b) mod U64 \<and>
     blk_write_pos blk = db_owner b (db_check_ids b ! th) \<and>
     mread (db_mem b) (db_check_ids b ! th * db_block_size b) (db_block_size b) = Some (blk_buffer blk) \<and>
     db_mem b' = db_mem b \<and> db_block_disk_id b' = db_block_disk_id b"
proof -
  let ?i = "db_check_ids b ! th" and ?is = "[0..<db_rss_num b]"
  have i: "?i < db_total b" using wf th by (auto simp: db_wf_def)
  have rng: "\<forall>j \<in> set ?is. ?i + db_total b * j < length (db_packet_counts b)"
  proof
    fix j assume "j \<in> set ?is"
    then have "j * db_total b + ?i < db_rss_num b * db_total b" using i by (intro mult_add_less) simp_all
    then show "?i + db_total b * j < length (db_packet_counts b)" using wf by (simp add: db_wf_def ac_simps)
  qed
  have t: "0 < db_total b" using i by simp
  from reset_counts_value [OF rng _ t] obtain cs where
    cs: "reset_counts (db_packet_counts b) ?i (db_total b) ?is = Some cs"
      "length cs = length (db_packet_counts b)"
      "sum_list cs + sum_list (map (\<lambda>j. db_packet_counts b ! (?i + db_total b * j)) ?is)
         = sum_list (db_packet_counts b)" by auto
  have mem: "?i * db_block_size b + db_block_size b \<le> length (db_mem b)"
  proof -
    have "Suc ?i * db_block_size b \<le> db_total b * db_block_size b" using i by (intro mult_le_mono1) simp
    then show ?thesis using wf by (simp add: db_wf_def)
  qed
  let ?ids = "(db_check_ids b)[th := (?i + length (db_check_ids b)) mod db_total b]"
  have lens: "length (db_start_times b) = db_total b" "length (db_end_times b) = db_total b"
    "length (db_block_disk_id b) = db_total b" using wf by (simp_all add: db_wf_def)
  let ?s = "sum_list (map (\<lambda>j. db_packet_counts b ! (?i + db_total b * j)) ?is)"
  have get: "db_getBlock b th = Some (\<lparr>blk_id = ?i, blk_write_pos = db_owner b ?i,
      blk_start_time = db_start_times b ! ?i, blk_end_time = db_end_times b ! ?i,
      blk_packet_count = ?s mod U64,
      blk_buffer = take (db_block_size b) (drop (?i * db_block_size b) (db_mem b))\<rparr>,
      b\<lparr>db_packet_counts := cs, db_check_ids := ?ids\<rparr>)"
    using th i lens mem sum_counts_value [OF rng] cs(1)
    by (simp add: db_getBlock_def vec_get_def vec_set_def mread_def db_owner_def)
  have "\<forall>x \<in> set ?ids. x < db_total b"
    using wf t set_update_subset_insert [of "db_check_ids b" th "(?i + length (db_check_ids b)) mod db_total b"]
    by (auto simp: db_wf_def)
  then have "same_shape b (b\<lparr>db_packet_counts := cs, db_check_ids := ?ids\<rparr>)"
    using wf cs(2) by (simp add: same_shape_def db_wf_def)
  moreover have "(sum_list cs + ?s mod U64) mod U64 = sum_list (db_packet_counts b) mod U64"
    using cs(3) by (simp add: mod_add_right_eq)
  ultimately show ?thesis using get mem by (simp add: mread_def)
qed

lemma db_exec_step:
  assumes wf: "db_wf (hist_buf h)" and bal: "balanced h" and ok: "op_ok (hist_buf h) op"
  shows "\<exists>h'. db_exec op h = Some h' \<and> same_shape (hist_buf h) (hist_buf h') \<and> balanced h'"
proof (cases op)
  case (W_op data pos th nd ni ts)
  let ?b = "hist_buf h"
  from ok W_op have p: "th < length (db_write_ids ?b)" "th < db_rss_num ?b" "length data \<le> db_buffer_size ?b"
    by simp_all
  from db_writeBlock_cases [OF wf p, of pos nd ni ts] obtain b' where
    b': "db_writeBlock ?b data pos th nd ni ts = Some (db_admits ?b pos (length data), b')" and
    c: "if db_admits ?b pos (length data) then written ?b data pos th nd ni b' else refused ?b th nd b'" by blast
  show ?thesis
  proof (cases "db_admits ?b pos (length data)")
    case True
    with c have w: "written ?b data pos th nd ni b'" by simp
    note wp = written_props [OF wf p(3) w]
    from w have "length (db_write_ids b') = length (db_write_ids ?b)" "db_rss_num b' = db_rss_num ?b"
      by (auto simp: written_def put_write_id_def)
    with wp have "same_shape ?b b'" by (simp add: same_shape_def)
    moreover have "(sum_list (db_packet_counts b') + reported h) mod U64
        = (accepted h + (if nd \<and> ni then 1 else 0)) mod U64"
    proof -
      have "(sum_list (db_packet_counts b') + reported h) mod U64
          = (sum_list (db_packet_counts ?b) + (if nd \<and> ni then 1 else 0) + reported h) mod U64"
        unfolding wp(4) by (rule mod_add_cong [OF put_count_sum [OF wf p(2)] refl])
      also have "\<dots> = (sum_list (db_packet_counts ?b) + reported h + (if nd \<and> ni then 1 else 0)) mod U64"
        by (simp add: ac_simps)
      also have "\<dots> = (accepted h + (if nd \<and> ni then 1 else 0)) mod U64"
        by (rule mod_add_cong [OF bal [unfolded balanced_def] refl])
      finally show ?thesis .
    qed
    ultimately show ?thesis using W_op b' True by (simp add: balanced_def)
  next
    case False
    with c have r: "refused ?b th nd b'" by simp
    note rp = refused_props [OF wf r]
    from r have "length (db_write_ids b') = length (db_write_ids ?b)" "db_rss_num b' = db_rss_num ?b"
      "db_buffer_size b' = db_buffer_size ?b"
      by (auto simp: refused_def put_write_id_def)
    with rp have "same_shape ?b b'" by (simp add: same_shape_def)
    then show ?thesis using W_op b' False bal rp by (simp add: balanced_def)
  qed
next
  case (Get_op th)
  with ok have "th < length (db_check_ids (hist_buf h))" by simp
  from db_getBlock_step [OF wf this] obtain blk b' where
    g: "db_getBlock (hist_buf h) th = Some (blk, b')" "same_shape (hist_buf h) b'"
      "(sum_list (db_packet_counts b') + blk_packet_count blk) mod U64 = sum_list (db_packet_counts (hist_buf h)) mod U64"
    by blast
  have "(sum_list (db_packet_counts b') + (reported h + blk_packet_count blk)) mod U64
      = (sum_list (db_packet_counts b') + blk_packet_count blk + reported h) mod U64"
    by (simp add: ac_simps)
  also have "\<dots> = (sum_list (db_packet_counts (hist_buf h)) + reported h) mod U64"
    by (rule mod_add_cong [OF g(3) refl])
  finally show ?thesis using g(1,2) Get_op bal by (simp add: balanced_def)
next
  case (Recycle_op i)
  with ok have i: "i < db_total (hist_buf h)" by simp
  note eq = db_recycle_eq [OF wf i]
  let ?b' = "(hist_buf h)\<lparr>db_block_disk_id := (db_block_disk_id (hist_buf h))
      [i := (db_owner (hist_buf h) i + db_total (hist_buf h)) mod db_disk_num (hist_buf h)]\<rparr>"
  have "db_wf ?b'" using dbr.recycle_owner [OF wf i] eq by (metis option.inject)
  then have "same_shape (hist_buf h) ?b'" by (simp add: same_shape_def)
  then show ?thesis using Recycle_op bal eq by (simp add: balanced_def)
qed

lemma db_run_balanced:
  assumes "db_wf (hist_buf h)" and "balanced h" and "\<forall>op \<in> set ops. op_ok (hist_buf h) op"
  shows "\<exists>h'. db_run ops h = Some h' \<and> db_wf (hist_buf h') \<and> balanced h'"
  using assms
proof (induction ops arbitrary: h)
  case Nil
  then show ?case by simp
next
  case (Cons op ops)
  from db_exec_step [OF Cons.prems(1,2)] Cons.prems(3) obtain h' where
    h': "db_exec op h = Some h'" "same_shape (hist_buf h) (hist_buf h')" "balanced h'" by auto
  have "\<forall>op \<in> set ops. op_ok (hist_buf h') op"
    using Cons.prems(3) same_shape_ok [OF h'(2)] by simp
  from Cons.IH [OF _ h'(3) this] h' show ?case by (simp add: same_shape_def)
qed

section \<open>Checking a block\<close>

lemma checkRSS_value:
  assumes wf: "db_wf b" and i: "i < db_total b" and r: "r < length (db_write_ids b)"
  shows "checkRSS b i r = Some (0 < cyc (db_disk_num b) ((db_owner b i + db_delayed b) mod db_disk_num b) (db_write_ids b ! r) \<and>
      cyc (db_disk_num b) ((db_owner b i + db_delayed b) mod db_disk_num b) (db_write_ids b ! r)
        < db_disk_num b - db_total b * 2)"
    and "directCheckRSS b i r = Some (cyc (db_disk_num b) (db_owner b i) (db_write_ids b ! r)
        < db_disk_num b - db_total b * 2)"
proof -
  have d: "0 < db_disk_num b" "0 < db_total b * 2" "db_total b * 2 < db_disk_num b"
    and w: "db_write_ids b ! r < db_disk_num b" and o: "db_owner b i < db_disk_num b"
    and l: "i < length (db_block_disk_id b)"
    using wf r i by (auto simp: db_wf_def db_owner_def)
  let ?R = "(db_owner b i + db_delayed b) mod db_disk_num b"
  have "?R < db_disk_num b" using d(1) by simp
  note bp = barrier_passed_cyc [OF this d(2,3) w]
  show "checkRSS b i r = Some (0 < cyc (db_disk_num b) ?R (db_write_ids b ! r) \<and>
      cyc (db_disk_num b) ?R (db_write_ids b ! r) < db_disk_num b - db_total b * 2)"
    using l r by (simp add: checkRSS_def vec_get_def db_owner_def [symmetric] bp)
  show "directCheckRSS b i r = Some (cyc (db_disk_num b) (db_owner b i) (db_write_ids b ! r)
        < db_disk_num b - db_total b * 2)"
    using l r o by (simp add: directCheckRSS_def vec_get_def db_owner_def [symmetric]
        barrier_reached_cyc [OF o d(2,3) w])
qed

lemma db_write_effect:
  assumes "db_wf b" and "thread_id < length (db_write_ids b)" and "thread_id < db_rss_num b"
    and "length data \<le> db_buffer_size b"
  shows "\<exists>b'. db_writeBlock b data disk_pos thread_id new_data new_index ts
        = Some (db_admits b disk_pos (length data), b') \<and>
      db_wf b' \<and> db_block_disk_id b' = db_block_disk_id b \<and>
      (if db_admits b disk_pos (length data)
       then ring_read (db_mem b') (db_buffer_size b) (disk_pos mod db_buffer_size b) (length data) = data \<and>
            (\<forall>j < db_buffer_size b. length data \<le> cyc (db_buffer_size b) (disk_pos mod db_buffer_size b) j
               \<longrightarrow> db_mem b' ! j = db_mem b ! j)
       else db_mem b' = db_mem b \<and> db_packet_counts b' = db_packet_counts b)"
proof -
  let ?N = "db_buffer_size b" and ?o = "db_admits b disk_pos (length data)"
  from db_writeBlock_cases [OF assms, of disk_pos new_data new_index ts] obtain b' where
    b': "db_writeBlock b data disk_pos thread_id new_data new_index ts = Some (?o, b')" and
    c: "if ?o then written b data disk_pos thread_id new_data new_index b' else refused b thread_id new_data b'"
    by blast
  show ?thesis
  proof (cases ?o)
    case True
    with c have w: "written b data disk_pos thread_id new_data new_index b'" by simp
    note wp = written_props [OF assms(1,4) w]
    have pre: "disk_pos mod ?N < ?N" "?N \<le> length (db_mem b)" using assms(1) by (simp_all add: db_wf_def)
    have "ring_read (db_mem b') ?N (disk_pos mod ?N) (length data) = data"
      by (rule ring_read_copy(2) [OF pre(1) assms(4) pre(2) wp(7)])
    moreover have "db_mem b' ! j = db_mem b ! j"
      if "j < ?N" "length data \<le> cyc ?N (disk_pos mod ?N) j" for j
      using ring_copy_some [OF pre(1) assms(4) pre(2)] wp(7) that pre(2) by (metis leD less_le_trans option.inject)
    ultimately show ?thesis using b' True wp by auto
  next
    case False
    with c refused_props [OF assms(1)] b' show ?thesis by auto
  qed
qed

section \<open>Properties\<close>

text \<open>C6: a write into the packet buffer. For every well-formed buffer, registered thread and data
  no longer than the buffer that end before the block behind the next one, the call is defined; it answers
  true exactly when the buffer stands for the disk blocks of the data and of the byte behind them;
  then the data can be read back at the (cyclic) position and no other byte has changed, also when
  the data wrap around the end of the buffer; otherwise neither the bytes nor the packet counters
  change. The block table never changes.\<close>

theorem db_write_cyclic:
  assumes "db_wf b" and "thread_id < length (db_write_ids b)" and "thread_id < db_rss_num b"
    and "length data \<le> db_buffer_size b" and "disk_pos mod db_block_size b + length data < 2 * db_block_size b"
  shows "\<exists>b'. db_writeBlock b data disk_pos thread_id new_data new_index ts
        = Some (db_stands_for b disk_pos (length data + 1), b') \<and>
      db_wf b' \<and> db_block_disk_id b' = db_block_disk_id b \<and>
      (if db_stands_for b disk_pos (length data + 1)
       then ring_read (db_mem b') (db_buffer_size b) (disk_pos mod db_buffer_size b) (length data) = data \<and>
            (\<forall>j < db_buffer_size b. length data \<le> cyc (db_buffer_size b) (disk_pos mod db_buffer_size b) j
               \<longrightarrow> db_mem b' ! j = db_mem b ! j)
       else db_mem b' = db_mem b \<and> db_packet_counts b' = db_packet_counts b)"
proof -
  have "0 < db_block_size b" using assms(1) by (simp add: db_wf_def)
  note ad = db_admits_stands [OF this assms(5)]
  show ?thesis using db_write_effect [OF assms(1-4), of disk_pos new_data new_index ts] unfolding ad .
qed

text \<open>Without the bound on the end only two blocks are tested: here the data reach a third one, for which
  the buffer does not stand, and are written all the same.\<close>

lemma long_write_untested:
  "\<exists>b b'. db_wf b \<and> db_writeBlock b (replicate 17 1) 7 0 True True 9 = Some (True, b') \<and>
     \<not> db_stands_for b 7 17 \<and> ring_read (db_mem b') (db_buffer_size b) 7 17 = replicate 17 1"
proof -
  let ?b = "\<lparr>db_total = 4, db_block_size = 8, db_buffer_size = 32, db_disk_num = 32, db_rss_num = 1,
     db_delayed = 0, db_mem = replicate 32 0, db_block_disk_id = [0, 1, 6, 3], db_start_times = replicate 4 u64_max,
     db_end_times = replicate 4 0, db_packet_counts = replicate 4 0, db_write_ids = [0], db_check_ids = [0]\<rparr>"
  have wf: "db_wf ?b" by (simp add: db_wf_def)
  have ad: "db_admits ?b 7 17" by (simp add: db_admits_def db_owner_def)
  obtain b' where b': "db_writeBlock ?b (replicate 17 1) 7 0 True True 9 = Some (True, b')" "db_wf b'"
    "db_block_disk_id b' = db_block_disk_id ?b" "ring_read (db_mem b') 32 7 17 = replicate 17 1"
    using db_write_effect [OF wf, of 0 "replicate 17 1" 7 True True 9] ad by auto
  have st: "\<not> db_stands_for ?b 7 17"
    unfolding db_stands_for_def by (auto intro!: exI [of _ 9] simp: db_owner_def Let_def)
  show ?thesis using wf b'(1,4) st by (intro exI [of _ ?b] exI [of _ b']) simp
qed

text \<open>A buffer block is only written while it stands for the disk block being written. Whatever
  a thread writes, the bytes of a block whose disk block is neither the one of the position nor,
  when the data reach the end of it, the next one, stay as they are; so a block handed to the
  disk is stable until it is recycled.\<close>

lemma db_write_block_stable:
  assumes "db_wf b" and "thread_id < length (db_write_ids b)" and "thread_id < db_rss_num b"
    and "length data \<le> db_block_size b"
    and "db_writeBlock b data disk_pos thread_id new_data new_index ts = Some (ok, b')"
    and "c < db_total b"
    and "db_owner b c \<noteq> disk_pos div db_block_size b mod db_disk_num b"
    and "db_owner b c \<noteq> (disk_pos div db_block_size b mod db_disk_num b + 1) mod db_disk_num b"
  shows "mread (db_mem b') (c * db_block_size b) (db_block_size b)
       = mread (db_mem b) (c * db_block_size b) (db_block_size b)"
proof -
  let ?N = "db_buffer_size b" and ?w = "db_block_size b"
  have N: "?N = db_total b * ?w" "?N \<le> length (db_mem b)" "disk_pos mod ?N < ?N" "0 < ?w" "1 \<le> db_total b"
    using assms(1) by (simp_all add: db_wf_def)
  then have len: "length data \<le> ?N" using assms(4) by (metis le_trans mult_le_mono1 mult_1)
  from db_writeBlock_cases [OF assms(1-3) len, of disk_pos new_data new_index ts] assms(5)
  have ok: "ok = db_admits b disk_pos (length data)" and
    cs: "if ok then written b data disk_pos thread_id new_data new_index b' else refused b thread_id new_data b'"
    by auto
  show ?thesis
  proof (cases ok)
    case False
    with cs refused_props [OF assms(1)] show ?thesis by auto
  next
    case True
    with cs have w: "written b data disk_pos thread_id new_data new_index b'" by simp
    note wp = written_props [OF assms(1) len w]
    have same: "db_mem b' ! j = db_mem b ! j" if j: "c * ?w \<le> j" "j < Suc c * ?w" for j
    proof -
      have jN: "j < ?N" using j(2) assms(6) N(1) by (metis Suc_leI less_le_trans mult_le_mono1)
      have "\<not> cyc ?N (disk_pos mod ?N) j < length data"
      proof
        assume "cyc ?N (disk_pos mod ?N) j < length data"
        from written_byte_block [OF assms(1) jN this assms(4)]
        have "j div ?w = disk_pos div ?w mod db_total b \<or>
            (?w \<le> disk_pos mod ?w + length data \<and> j div ?w = (disk_pos div ?w mod db_total b + 1) mod db_total b)" .
        moreover have "j div ?w = c" using j by (simp add: div_nat_eqI mult.commute)
        ultimately show False using True ok assms(7,8) by (auto simp: db_admits_def Let_def)
      qed
      then show ?thesis
        using ring_copy_some [OF N(3) len N(2)] wp(7) jN N(2) by (metis less_le_trans option.inject)
    qed
    have l: "length (db_mem b') = length (db_mem b)" using wp(1,5) assms(1) by (simp add: db_wf_def)
    show ?thesis
    proof (cases "c * ?w + ?w \<le> length (db_mem b)")
      case True
      have "take ?w (drop (c * ?w) (db_mem b')) = take ?w (drop (c * ?w) (db_mem b))"
        by (rule nth_equalityI) (use l same True in simp_all)
      then show ?thesis using l by (simp add: mread_def)
    next
      case False
      then show ?thesis using l by (simp add: mread_def)
    qed
  qed
qed

text \<open>C16: packet accounting. In every history of writes, hand-outs and recyclings by registered
  threads, each step is defined, and the packets reported with the blocks handed out, plus those
  still counted in the buffer, are exactly the accepted writes of new indexed packets (as 64-bit
  numbers): no packet is lost or counted twice.\<close>

theorem db_packet_accounting:
  assumes "db_wf b" and "\<forall>op \<in> set ops. op_ok b op"
  shows "\<exists>h'. db_run ops \<lparr>hist_buf = b, accepted = sum_list (db_packet_counts b), reported = 0\<rparr> = Some h' \<and>
      (sum_list (db_packet_counts (hist_buf h')) + reported h') mod U64 = accepted h' mod U64"
  using db_run_balanced [of "\<lparr>hist_buf = b, accepted = sum_list (db_packet_counts b), reported = 0\<rparr>" ops] assms
  by (auto simp: balanced_def)

text \<open>The block check. When all capture threads are registered, \<open>checkBlock\<close> answers the block
  of the check thread exactly when every capture thread's last disk block is, counted cyclically
  from the block's disk block plus the delay, at least one and less than the disk without the
  barrier of two buffer lengths ahead; otherwise it answers the sentinel.\<close>

lemma db_checkBlock_window:
  assumes "db_wf b" and "th < length (db_check_ids b)" and "db_rss_num b \<le> length (db_write_ids b)"
  shows "db_checkBlock b th =
    Some (if \<forall>r < db_rss_num b.
        (let d = cyc (db_disk_num b) ((db_owner b (db_check_ids b ! th) + db_delayed b) mod db_disk_num b)
                   (db_write_ids b ! r)
         in 0 < d \<and> d < db_disk_num b - db_total b * 2)
      then db_check_ids b ! th else u64_max)"
proof -
  let ?i = "db_check_ids b ! th"
  let ?P = "\<lambda>r. let d = cyc (db_disk_num b) ((db_owner b ?i + db_delayed b) mod db_disk_num b) (db_write_ids b ! r)
         in 0 < d \<and> d < db_disk_num b - db_total b * 2"
  have i: "?i < db_total b" using assms(1,2) by (auto simp: db_wf_def)
  have "\<forall>r \<in> set [0..<db_rss_num b]. checkRSS b ?i r = Some (?P r)"
    using checkRSS_value(1) [OF assms(1) i] assms(3) by (simp add: Let_def)
  from all_check_iff [OF this] show ?thesis
    using assms(2) by (simp add: db_checkBlock_def vec_get_def Ball_def)
qed

text \<open>Recycling changes nothing but the block table.\<close>

lemma db_recycle_table:
  "db_recycleBlock b i = Some b' \<Longrightarrow> \<exists>ids. b' = b\<lparr>db_block_disk_id := ids\<rparr>"
  by (auto simp: db_recycleBlock_def split: Option.bind_splits)

lemma db_recycles_table:
  "repeat_opt n (\<lambda>c. db_recycleBlock c i) b = Some b' \<Longrightarrow> \<exists>ids. b' = b\<lparr>db_block_disk_id := ids\<rparr>"
proof (induction n arbitrary: b)
  case 0
  then show ?case by (auto intro: exI [of _ "db_block_disk_id b"])
next
  case (Suc n)
  then obtain b1 where b1: "db_recycleBlock b i = Some b1" "repeat_opt n (\<lambda>c. db_recycleBlock c i) b1 = Some b'"
    by (auto split: option.splits)
  from Suc.IH [OF b1(2)] db_recycle_table [OF b1(1)] show ?case by auto
qed

text \<open>C27: a refused write can always be completed. When the number of buffer blocks divides that of the disk
  blocks, there are at least two, and the blocks are aligned (as they are initially), then recycling
  the block of the position and the next one a bounded number of times brings the buffer to where
  the same write is accepted and the data stand in the buffer.\<close>

theorem db_recycle_makes_room:
  assumes "db_wf b" and "thread_id < length (db_write_ids b)" and "thread_id < db_rss_num b"
    and "length data \<le> db_buffer_size b" and "db_total b dvd db_disk_num b" and "2 \<le> db_total b"
    and "\<forall>i < db_total b. db_owner b i mod db_total b = i"
    and "i = disk_pos div db_block_size b mod db_total b"
  shows "\<exists>n k b1 b2 b'. n < db_disk_num b div db_total b \<and> k < db_disk_num b div db_total b \<and>
    repeat_opt n (\<lambda>c. db_recycleBlock c i) b = Some b1 \<and>
    repeat_opt k (\<lambda>c. db_recycleBlock c ((i + 1) mod db_total b)) b1 = Some b2 \<and>
    db_writeBlock b2 data disk_pos thread_id new_data new_index ts = Some (True, b') \<and>
    ring_read (db_mem b') (db_buffer_size b) (disk_pos mod db_buffer_size b) (length data) = data"
proof -
  let ?blk = "disk_pos div db_block_size b" and ?j = "(i + 1) mod db_total b"
  let ?d = "?blk mod db_disk_num b" and ?e = "(?blk mod db_disk_num b + 1) mod db_disk_num b"
  have ij: "i < db_total b" "?j < db_total b" "?j \<noteq> i" "?d < db_disk_num b" "?e < db_disk_num b"
  proof -
    show "i < db_total b" "?j < db_total b" using assms(6,8) by simp_all
    then show "?j \<noteq> i" using assms(6) by (cases "i + 1 = db_total b") (auto simp: One_nat_def)
    show "?d < db_disk_num b" "?e < db_disk_num b" using assms(1) by (simp_all add: db_wf_def)
  qed
  have al: "db_owner b i mod db_total b = ?d mod db_total b" "db_owner b ?j mod db_total b = ?e mod db_total b"
    using assms(5,7) ij(1,2) by (simp_all add: assms(8) mod_mod_cancel mod_simps)
  from dbr.recycle_reaches [OF assms(1) ij(1) assms(5) al(1) ij(4)] obtain n b1 where
    n: "n < db_disk_num b div db_total b" "repeat_opt n (\<lambda>c. db_recycleBlock c i) b = Some b1" "db_wf b1"
      "db_total b1 = db_total b" "db_disk_num b1 = db_disk_num b" "db_owner b1 i = ?d"
      "\<forall>c < db_total b. c \<noteq> i \<longrightarrow> db_owner b1 c = db_owner b c" by blast
  have "?j < db_total b1" "db_total b1 dvd db_disk_num b1" "db_owner b1 ?j mod db_total b1 = ?e mod db_total b1" "?e < db_disk_num b1"
    using n(4,5,7) ij al(2) assms(5) by simp_all
  from dbr.recycle_reaches [OF n(3) this] obtain k b2 where
    k: "k < db_disk_num b div db_total b" "repeat_opt k (\<lambda>c. db_recycleBlock c ?j) b1 = Some b2" "db_wf b2"
      "db_owner b2 ?j = ?e" "\<forall>c < db_total b. c \<noteq> ?j \<longrightarrow> db_owner b2 c = db_owner b1 c"
    unfolding n(4,5) by blast
  from db_recycles_table [OF n(2)] db_recycles_table [OF k(2)] obtain ids where ids: "b2 = b\<lparr>db_block_disk_id := ids\<rparr>" by auto
  have "db_admits b2 disk_pos (length data)"
    using k(4,5) n(6) ij(1,3) by (simp add: db_admits_def ids Let_def assms(8))
  then have "\<exists>b'. db_writeBlock b2 data disk_pos thread_id new_data new_index ts = Some (True, b') \<and>
      ring_read (db_mem b') (db_buffer_size b) (disk_pos mod db_buffer_size b) (length data) = data"
    using db_write_effect [OF k(3), of thread_id data disk_pos new_data new_index ts] assms(2-4) by (auto simp: ids)
  with n(1,2) k(1,2) show ?thesis by blast
qed

section \<open>Witnesses\<close>

definition example_blocks :: DataBlockBuffer where
  "example_blocks = \<lparr>db_total = 2, db_block_size = 8, db_buffer_size = 16, db_disk_num = 16, db_rss_num = 1,
     db_delayed = 0, db_mem = replicate 16 0, db_block_disk_id = [0, 1], db_start_times = [u64_max, u64_max],
     db_end_times = [0, 0], db_packet_counts = [0, 0], db_write_ids = [0], db_check_ids = [0]\<rparr>"

lemma example_blocks_wf: "db_wf example_blocks"
  by (simp add: example_blocks_def db_wf_def)

theorem db_write_cyclic_witness:
  "\<exists>b'. db_writeBlock example_blocks [1, 2, 3] 3 0 True True 9 = Some (True, b') \<and>
     ring_read (db_mem b') 16 3 3 = [1, 2, 3]"
proof -
  have o: "db_stands_for example_blocks 3 4" by (simp add: db_stands_for_def db_owner_def example_blocks_def)
  have e: "db_block_size example_blocks = 8" "db_buffer_size example_blocks = 16" "db_rss_num example_blocks = 1"
      "length (db_write_ids example_blocks) = 1" "length [1, 2, 3 :: byte] = 3"
    by (simp_all add: example_blocks_def)
  show ?thesis
    using db_write_cyclic [OF example_blocks_wf, of 0 "[1, 2, 3]" 3 True True 9] o unfolding e by auto
qed

lemma db_write_block_stable_example:
  "\<exists>b'. db_writeBlock example_blocks [1, 2, 3] 35 0 True True 9 = Some (False, b') \<and>
     mread (db_mem b') 0 8 = mread (db_mem example_blocks) 0 8"
proof -
  have w: "\<exists>b'. db_writeBlock example_blocks [1, 2, 3] 35 0 True True 9 = Some (False, b')"
    by (simp add: db_writeBlock_def db_set_write_id_def vec_get_def vec_set_def example_blocks_def Let_def)
  then obtain b' where b': "db_writeBlock example_blocks [1, 2, 3] 35 0 True True 9 = Some (False, b')" by blast
  have "mread (db_mem b') (0 * db_block_size example_blocks) (db_block_size example_blocks)
      = mread (db_mem example_blocks) (0 * db_block_size example_blocks) (db_block_size example_blocks)"
    by (rule db_write_block_stable [OF example_blocks_wf _ _ _ b'])
       (simp_all add: example_blocks_def db_owner_def)
  moreover have "db_block_size example_blocks = 8" by (simp add: example_blocks_def)
  ultimately show ?thesis using b' by auto
qed

lemma example_sum: "sum_list (db_packet_counts example_blocks) = 0"
  by (simp add: example_blocks_def)

theorem db_packet_accounting_witness:
  "\<exists>h'. db_run [W_op [1, 2, 3] 3 0 True True 9, Get_op 0, Recycle_op 0]
      \<lparr>hist_buf = example_blocks, accepted = 0, reported = 0\<rparr> = Some h' \<and>
    (sum_list (db_packet_counts (hist_buf h')) + reported h') mod U64 = accepted h' mod U64"
proof -
  have "\<forall>op \<in> set [W_op [1, 2, 3] 3 0 True True 9, Get_op 0, Recycle_op 0]. op_ok example_blocks op"
    by (simp add: example_blocks_def)
  from db_packet_accounting [OF example_blocks_wf this]
  show ?thesis by (simp only: example_sum)
qed

lemma db_checkBlock_window_example:
  "db_checkBlock (example_blocks\<lparr>db_write_ids := [5]\<rparr>) 0 = Some 0 \<and>
   db_checkBlock example_blocks 0 = Some u64_max"
proof -
  have "db_wf (example_blocks\<lparr>db_write_ids := [5]\<rparr>)" by (simp add: example_blocks_def db_wf_def)
  from db_checkBlock_window [OF this, of 0] db_checkBlock_window [OF example_blocks_wf, of 0] show ?thesis
    by (simp add: example_blocks_def db_owner_def cyc_def)
qed

theorem db_recycle_makes_room_witness:
  "\<exists>n k b1 b2 b'. repeat_opt n (\<lambda>c. db_recycleBlock c 0) example_blocks = Some b1 \<and>
     repeat_opt k (\<lambda>c. db_recycleBlock c 1) b1 = Some b2 \<and>
     db_writeBlock b2 [1, 2, 3, 4, 5, 6] 35 0 True True 9 = Some (True, b') \<and>
     ring_read (db_mem b') 16 3 6 = [1, 2, 3, 4, 5, 6]"
proof -
  have al: "\<forall>i < db_total example_blocks. db_owner example_blocks i mod db_total example_blocks = i"
    by (simp add: example_blocks_def db_owner_def less_Suc_eq numeral_2_eq_2 One_nat_def)
  have e: "db_total example_blocks = 2" "db_disk_num example_blocks = 16" "db_block_size example_blocks = 8"
    "db_buffer_size example_blocks = 16" "db_rss_num example_blocks = 1" "length (db_write_ids example_blocks) = 1"
    "length [1, 2, 3, 4, 5, 6 :: byte] = 6" by (simp_all add: example_blocks_def)
  have "db_total example_blocks dvd db_disk_num example_blocks" unfolding e by simp
  from db_recycle_makes_room [OF example_blocks_wf _ _ _ this _ al refl, of 0 "[1, 2, 3, 4, 5, 6]" 35 True True 9]
  show ?thesis unfolding e by simp blast
qed

end
