(* ===== verification/SpscRing.thy ===== *)
theory SpscRing
  imports Prelude
begin

text \<open>
  The single-producer single-consumer ring of \<^verbatim>\<open>dpdk_lib/singleRingBuffer.hpp\<close>, which carries
  index entries from a capture thread to an index generator, and the loops of
  \<^verbatim>\<open>dpdk_component/indexGenerator.cpp\<close> that empty it. The two positions are 64-bit counters that
  wrap; the slot of a position is the position modulo the capacity with its two halves of the
  address swapped (\<open>real_pos\<close>), to spread neighbours over cache lines. A null pointer is
  \<open>None\<close>; a capacity below 8 divides by zero. Besides the sequential operations the theory holds
  the interleaving of one producer and one consumer, each shared access being one step.
\<close>

declare One_nat_def [simp del]

section \<open>The interface of a queue\<close>

text \<open>A history of operations: a value in, or an attempt to take one out. The result lists what
  came out; \<open>None\<close> when an insertion waits for a consumer that is not there.\<close>

fun run_ops :: "('s \<Rightarrow> 'a \<Rightarrow> 's option) \<Rightarrow> ('s \<Rightarrow> ('a option \<times> 's) option) \<Rightarrow> 'a option list \<Rightarrow> 's \<Rightarrow> ('a list \<times> 's) option" where
  "run_ops enq deq [] s = Some ([], s)"
| "run_ops enq deq (Some x # ops) s = (case enq s x of None \<Rightarrow> None | Some s' \<Rightarrow> run_ops enq deq ops s')"
| "run_ops enq deq (None # ops) s =
     (case deq s of None \<Rightarrow> None | Some (r, s') \<Rightarrow>
        (case run_ops enq deq ops s' of None \<Rightarrow> None
         | Some (ys, s'') \<Rightarrow> Some ((case r of None \<Rightarrow> ys | Some x \<Rightarrow> x # ys), s'')))"

definition inputs :: "'a option list \<Rightarrow> 'a list" where
  "inputs ops = List.map_filter (\<lambda>x. x) ops"

text \<open>Taking values out until the queue answers that it is empty, each handed to a consumer that
  may refuse for good (\<open>None\<close>). The fuel bounds the number of iterations.\<close>

fun drain :: "('s \<Rightarrow> ('a option \<times> 's) option) \<Rightarrow> nat \<Rightarrow> ('a \<Rightarrow> 'b \<Rightarrow> 'b option) \<Rightarrow> 's \<Rightarrow> 'b \<Rightarrow> ('s \<times> 'b) option" where
  "drain deq 0 sink s b = None"
| "drain deq (Suc n) sink s b =
     (case deq s of
        None \<Rightarrow> None
      | Some (None, s') \<Rightarrow> Some (s', b)
      | Some (Some x, s') \<Rightarrow> (case sink x b of None \<Rightarrow> None | Some b' \<Rightarrow> drain deq n sink s' b'))"

locale fifo_queue =
  fixes inv :: "'s \<Rightarrow> bool"
    and contents :: "'s \<Rightarrow> 'a list"
    and bound :: "'s \<Rightarrow> nat"
    and enq :: "'s \<Rightarrow> 'a \<Rightarrow> 's option"
    and deq :: "'s \<Rightarrow> ('a option \<times> 's) option"
  assumes enq_room: "inv s \<Longrightarrow> length (contents s) < bound s \<Longrightarrow>
      \<exists>s'. enq s x = Some s' \<and> inv s' \<and> contents s' = contents s @ [x] \<and> bound s' = bound s"
    and enq_full: "inv s \<Longrightarrow> bound s \<le> length (contents s) \<Longrightarrow> enq s x = None"
    and deq_nil: "inv s \<Longrightarrow> contents s = [] \<Longrightarrow> deq s = Some (None, s)"
    and deq_cons: "inv s \<Longrightarrow> contents s = x # xs \<Longrightarrow>
      \<exists>s'. deq s = Some (Some x, s') \<and> inv s' \<and> contents s' = xs \<and> bound s' = bound s"
begin

lemma run_ops_fifo:
  "inv s \<Longrightarrow> run_ops enq deq ops s = Some (ys, s') \<Longrightarrow>
     inv s' \<and> bound s' = bound s \<and> contents s @ inputs ops = ys @ contents s'"
proof (induction ops arbitrary: s ys)
  case Nil
  then show ?case by (simp add: inputs_def map_filter_simps)
next
  case (Cons op ops)
  show ?case
  proof (cases op)
    case (Some x)
    from Cons.prems(2) Some obtain t where t: "enq s x = Some t" "run_ops enq deq ops t = Some (ys, s')"
      by (auto split: option.splits)
    then have "length (contents s) < bound s"
      using enq_full [OF Cons.prems(1), of x] by (cases "length (contents s) < bound s") auto
    with enq_room [OF Cons.prems(1), of x] t(1)
    have "inv t \<and> contents t = contents s @ [x] \<and> bound t = bound s" by auto
    with Cons.IH [OF _ t(2)] Some show ?thesis by (simp add: inputs_def map_filter_simps)
  next
    case None
    from Cons.prems(2) None obtain r t zs where d: "deq s = Some (r, t)" and
      z: "run_ops enq deq ops t = Some (zs, s')" "ys = (case r of None \<Rightarrow> zs | Some x \<Rightarrow> x # zs)"
      by (auto split: option.splits)
    show ?thesis
    proof (cases "contents s")
      case Nil
      with deq_nil [OF Cons.prems(1)] d have "t = s" "r = None" by simp_all
      with Cons.IH [OF _ z(1)] Cons.prems(1) z(2) None show ?thesis
        by (simp add: inputs_def map_filter_simps)
    next
      case (Cons x xs)
      with deq_cons [OF Cons.prems(1)] d
      have "r = Some x" "inv t" "contents t = xs" "bound t = bound s" by auto
      with Cons.IH [OF _ z(1)] z(2) None Cons show ?thesis
        by (simp add: inputs_def map_filter_simps)
    qed
  qed
qed

end

text \<open>Handing a list of values to a consumer.\<close>

fun feed :: "('a \<Rightarrow> 'b \<Rightarrow> 'b option) \<Rightarrow> 'a list \<Rightarrow> 'b \<Rightarrow> 'b option" where
  "feed sink [] b = Some b"
| "feed sink (x # xs) b = (case sink x b of None \<Rightarrow> None | Some b' \<Rightarrow> feed sink xs b')"

lemma feed_append:
  "feed sink (xs @ ys) b = (case feed sink xs b of None \<Rightarrow> None | Some b' \<Rightarrow> feed sink ys b')"
  by (induction xs arbitrary: b) (auto split: option.splits)

context fifo_queue
begin

lemma drain_all:
  "inv s \<Longrightarrow> length (contents s) < n \<Longrightarrow>
     (case feed sink (contents s) b of
        None \<Rightarrow> drain deq n sink s b = None
      | Some b' \<Rightarrow> \<exists>s'. drain deq n sink s b = Some (s', b') \<and> inv s' \<and> contents s' = [] \<and> bound s' = bound s)"
proof (induction n arbitrary: s b)
  case 0
  then show ?case by simp
next
  case (Suc n)
  show ?case
  proof (cases "contents s")
    case Nil
    then show ?thesis using deq_nil [OF Suc.prems(1)] Suc.prems(1) by simp
  next
    case (Cons x xs)
    from deq_cons [OF Suc.prems(1) Cons] obtain t where
      t: "deq s = Some (Some x, t)" "inv t" "contents t = xs" "bound t = bound s" by blast
    have "length (contents t) < n" using Suc.prems(2) Cons t(3) by simp
    note ih = Suc.IH [OF t(2) this]
    show ?thesis
    proof (cases "sink x b")
      case None
      then show ?thesis by (simp add: t(1) Cons)
    next
      case (Some b')
      then show ?thesis using ih [of b'] by (cases "feed sink xs b'") (simp_all add: t(1,3,4) Cons)
    qed
  qed
qed

end

section \<open>The ring\<close>

record 'a PointerRing =
  capacity :: nat
  writePos :: nat
  readPos :: nat
  pointers :: "'a option list option"

datatype ring_error = Mmap_failed

text \<open>The constructor: a capacity that is not a power of two leaves the null pointer and the
  positions unset (the model sets them to 0); a failed \<open>mmap\<close> throws.\<close>

definition PointerRing_new :: "bool \<Rightarrow> nat \<Rightarrow> ring_error + 'a PointerRing" where
  "PointerRing_new mmap_ok cap =
     (if (cap AND ((cap + u32_max) mod 4294967296)) \<noteq> 0
      then Inr \<lparr>capacity = cap, writePos = 0, readPos = 0, pointers = None\<rparr>
      else if \<not> mmap_ok then Inl Mmap_failed
      else Inr \<lparr>capacity = cap, writePos = 0, readPos = 0, pointers = Some (replicate cap None)\<rparr>)"

definition initSucceed :: "'a PointerRing \<Rightarrow> bool" where
  "initSucceed q \<longleftrightarrow> pointers q \<noteq> None"

definition real_pos :: "nat \<Rightarrow> nat \<Rightarrow> nat option" where
  "real_pos cap pos =
     (if drop_bit 3 cap = 0 then None
      else Some (push_bit 3 (pos AND (drop_bit 3 cap - 1)) + pos div drop_bit 3 cap))"

definition ring_full :: "'a PointerRing \<Rightarrow> bool" where
  "ring_full q \<longleftrightarrow> writePos q = add64 (capacity q - 1) (readPos q)"

text \<open>One look at the ring by \<open>put\<close>: \<open>None\<close> while it has to wait for room. The whole call follows \<open>get\<close>.\<close>

definition put :: "'a PointerRing \<Rightarrow> 'a \<Rightarrow> 'a PointerRing option" where
  "put q data =
     (let pos = writePos q AND (capacity q - 1) in
      if ring_full q then None
      else do {
        rp \<leftarrow> real_pos (capacity q) pos;
        ps \<leftarrow> pointers q;
        ps' \<leftarrow> vec_set ps rp (Some data);
        Some (q\<lparr>pointers := Some ps', writePos := add64 (writePos q) 1\<rparr>)})"

text \<open>\<open>get\<close> answers the null pointer on an empty ring. The outer option is undefined behaviour.\<close>

definition get :: "'a PointerRing \<Rightarrow> ('a option \<times> 'a PointerRing) option" where
  "get q =
     (let pos = readPos q AND (capacity q - 1) in
      if writePos q = readPos q then Some (None, q)
      else do {
        rp \<leftarrow> real_pos (capacity q) pos;
        ps \<leftarrow> pointers q;
        data \<leftarrow> vec_get ps rp;
        Some (data, q\<lparr>readPos := add64 (readPos q) 1\<rparr>)})"

text \<open>The whole call of \<open>put\<close>: it looks again and again until there is room, and only then stores. The list
  tells how many calls of \<open>get\<close> the consumer makes between two looks; when it ends with the ring still full,
  the call has not returned (\<open>None\<close>). The call has no other way to fail.\<close>

fun get_times :: "nat \<Rightarrow> 'a PointerRing \<Rightarrow> 'a PointerRing option" where
  "get_times 0 q = Some q"
| "get_times (Suc n) q = do { (_, q') \<leftarrow> get q; get_times n q' }"

fun put_wait :: "nat list \<Rightarrow> 'a PointerRing \<Rightarrow> 'a \<Rightarrow> 'a PointerRing option" where
  "put_wait gets q data =
     (if ring_full q then (case gets of [] \<Rightarrow> None
        | n # gets' \<Rightarrow> do { q' \<leftarrow> get_times n q; put_wait gets' q' data })
      else put q data)"

declare put_wait.simps [simp del]

section \<open>Slots\<close>

text \<open>The slot of a counter value, for a capacity that the constructor and the division accept.\<close>

definition slot :: "nat \<Rightarrow> nat \<Rightarrow> nat" where
  "slot cap p = (p mod cap mod (cap div 8)) * 8 + p mod cap div (cap div 8)"

definition good_capacity :: "nat \<Rightarrow> bool" where
  "good_capacity cap \<longleftrightarrow> (\<exists>n. 3 \<le> n \<and> n < 32 \<and> cap = 2 ^ n)"

lemma good_capacityE:
  assumes "good_capacity cap"
  obtains k where "cap = 2 ^ (k + 3)" "k < 29" "cap div 8 = 2 ^ k" "cap = 8 * 2 ^ k"
proof -
  from assms obtain n where n: "3 \<le> n" "n < 32" "cap = 2 ^ n" by (auto simp: good_capacity_def)
  then obtain k where k: "n = k + 3" by (metis add.commute le_Suc_ex)
  have c: "cap = 8 * 2 ^ k" unfolding n(3) k by (simp add: power_add)
  then have "cap div 8 = 2 ^ k" by simp
  with c n k show thesis by (intro that [of k]) simp_all
qed

lemma nat_and_mask: "(x::nat) AND (2 ^ n - 1) = x mod 2 ^ n"
  using take_bit_eq_mask [of n x] by (simp add: take_bit_eq_mod mask_eq_exp_minus_1)

lemma real_pos_slot:
  assumes "good_capacity cap"
  shows "real_pos cap (p AND (cap - 1)) = Some (slot cap p)"
proof -
  from good_capacityE [OF assms] obtain k where
    n: "cap = 2 ^ (k + 3)" "cap div 8 = 2 ^ k" by metis
  have a: "p AND (cap - 1) = p mod cap" unfolding n(1) by (rule nat_and_mask)
  have d: "drop_bit 3 cap = cap div 8" by (simp add: drop_bit_eq_div)
  have b: "(p mod cap) AND (cap div 8 - 1) = p mod cap mod (cap div 8)"
    unfolding n(2) by (rule nat_and_mask)
  have nz: "cap div 8 \<noteq> 0" unfolding n(2) by simp
  have ps: "push_bit 3 x = x * 8" for x :: nat by (simp add: push_bit_eq_mult)
  show ?thesis unfolding real_pos_def a d b ps slot_def using nz by (simp only: if_False)
qed

lemma slot_split:
  assumes "good_capacity cap"
  shows "slot cap p div 8 = p mod cap mod (cap div 8)" and "slot cap p mod 8 = p mod cap div (cap div 8)"
    and "slot cap p < cap"
proof -
  from good_capacityE [OF assms] obtain k where c: "cap = 8 * 2 ^ k" and w: "cap div 8 = 2 ^ k" by metis
  have "p mod cap < 8 * 2 ^ k" unfolding c by simp
  then have h: "p mod cap div 2 ^ k < 8" by (rule less_mult_imp_div_less)
  then show "slot cap p div 8 = p mod cap mod (cap div 8)" and "slot cap p mod 8 = p mod cap div (cap div 8)"
    unfolding slot_def w by simp_all
  have "slot cap p < 2 ^ k * 8" unfolding slot_def w by (intro mult_add_less h) simp
  then show "slot cap p < cap" unfolding c by simp
qed

lemma slot_inj:
  assumes "good_capacity cap" and "slot cap p = slot cap q"
  shows "p mod cap = q mod cap"
proof -
  have "p mod cap mod (cap div 8) = q mod cap mod (cap div 8)"
    using slot_split(1) [OF assms(1), of p] slot_split(1) [OF assms(1), of q] assms(2) by argo
  moreover have "p mod cap div (cap div 8) = q mod cap div (cap div 8)"
    using slot_split(2) [OF assms(1), of p] slot_split(2) [OF assms(1), of q] assms(2) by argo
  ultimately show ?thesis by (rule div_mod_pair_inj [rotated])
qed

section \<open>The ring is a queue\<close>

definition ring_count :: "'a PointerRing \<Rightarrow> nat" where
  "ring_count q = sub64 (writePos q) (readPos q)"

definition cell :: "'a PointerRing \<Rightarrow> nat \<Rightarrow> 'a option" where
  "cell q i = the (pointers q) ! slot (capacity q) (add64 (readPos q) i)"

definition ring_contents :: "'a PointerRing \<Rightarrow> 'a list" where
  "ring_contents q = map (\<lambda>i. the (cell q i)) [0..<ring_count q]"

definition ring_inv :: "'a PointerRing \<Rightarrow> bool" where
  "ring_inv q \<longleftrightarrow> good_capacity (capacity q) \<and> writePos q < U64 \<and> readPos q < U64 \<and>
     (\<exists>ps. pointers q = Some ps \<and> length ps = capacity q) \<and>
     ring_count q \<le> capacity q - 1 \<and> (\<forall>i < ring_count q. cell q i \<noteq> None)"

definition ring_bound :: "'a PointerRing \<Rightarrow> nat" where
  "ring_bound q = capacity q - 1"

lemma good_capacity_dvd: "good_capacity cap \<Longrightarrow> cap dvd U64" "good_capacity cap \<Longrightarrow> 0 < cap"
  "good_capacity cap \<Longrightarrow> cap \<le> 2147483648"
proof -
  assume "good_capacity cap"
  then obtain n where n: "n < 32" "cap = 2 ^ n" by (auto simp: good_capacity_def)
  have "(2::nat) ^ n dvd 2 ^ 64" by (rule le_imp_power_dvd) (use n in simp)
  then show "cap dvd U64" by (simp add: n)
  show "0 < cap" by (simp add: n)
  have "(2::nat) ^ n \<le> 2 ^ 31" by (rule power_increasing) (use n in simp_all)
  then show "cap \<le> 2147483648" by (simp add: n)
qed

lemma slot_add: "good_capacity cap \<Longrightarrow> slot cap (add64 r i) = slot cap (r + i)"
  by (simp add: slot_def add64_mod good_capacity_dvd)

lemma slot_distinct:
  assumes "good_capacity cap" and "i < j" and "j < i + cap"
  shows "slot cap (add64 r i) \<noteq> slot cap (add64 r j)"
proof
  assume "slot cap (add64 r i) = slot cap (add64 r j)"
  then have "(r + i) mod cap = (r + j) mod cap"
    unfolding slot_add [OF assms(1)] by (rule slot_inj [OF assms(1)])
  then have "cap dvd (r + j) - (r + i)" using assms(2) by (intro mod_eq_dvd_iff_nat [THEN iffD1]) simp_all
  then have "cap dvd j - i" by simp
  moreover have "0 < j - i" "j - i < cap" using assms by auto
  ultimately show False by (meson nat_dvd_not_less)
qed

lemma ring_full_count:
  assumes "ring_inv q"
  shows "ring_full q \<longleftrightarrow> ring_count q = capacity q - 1"
proof -
  have c: "capacity q - 1 < U64" using assms good_capacity_dvd(3) by (fastforce simp: ring_inv_def)
  have w: "writePos q < U64" and r: "readPos q < U64" using assms by (auto simp: ring_inv_def)
  show ?thesis
  proof
    assume "ring_full q"
    then have "writePos q = add64 (readPos q) (capacity q - 1)"
      by (simp add: ring_full_def add64_def add.commute)
    then show "ring_count q = capacity q - 1"
      unfolding ring_count_def using sub64_add64_cancel [OF c r] by simp
  next
    assume "ring_count q = capacity q - 1"
    then have "add64 (readPos q) (capacity q - 1) = writePos q"
      unfolding ring_count_def using add64_sub64_cancel [OF w r] by simp
    then show "ring_full q" by (simp add: ring_full_def add64_def add.commute)
  qed
qed

lemma ring_empty_count:
  assumes "ring_inv q"
  shows "writePos q = readPos q \<longleftrightarrow> ring_count q = 0"
proof -
  have w: "writePos q < U64" and r: "readPos q < U64" using assms by (auto simp: ring_inv_def)
  show ?thesis
    using add64_sub64_cancel [OF w r] r unfolding ring_count_def
    by (auto simp: add64_def sub64_def)
qed

lemma write_slot:
  assumes "ring_inv q"
  shows "slot (capacity q) (writePos q) = slot (capacity q) (add64 (readPos q) (ring_count q))"
  using assms add64_sub64_cancel [of "writePos q" "readPos q"] by (simp add: ring_inv_def ring_count_def)

text \<open>Storing into the slot of the write position touches no live entry.\<close>

definition store_slot :: "'a PointerRing \<Rightarrow> 'a \<Rightarrow> 'a PointerRing" where
  "store_slot q x = q\<lparr>pointers := Some ((the (pointers q))[slot (capacity q) (writePos q) := Some x])\<rparr>"

lemma cell_store:
  assumes inv: "ring_inv q" and room: "ring_count q < capacity q - 1" and i: "i \<le> ring_count q"
  shows "cell (store_slot q x) i = (if i = ring_count q then Some x else cell q i)"
proof -
  have g: "good_capacity (capacity q)" and l: "length (the (pointers q)) = capacity q"
    using inv by (auto simp: ring_inv_def split: option.splits)
  have "slot (capacity q) (add64 (readPos q) i) \<noteq> slot (capacity q) (writePos q)"
    if "i < ring_count q"
    unfolding write_slot [OF inv] by (rule slot_distinct [OF g that]) (use room in simp)
  moreover have "slot (capacity q) (writePos q) < length (the (pointers q))"
    using slot_split(3) [OF g] l by simp
  ultimately show ?thesis
    using i write_slot [OF inv] by (auto simp: cell_def store_slot_def)
qed

lemma count_store [simp]: "ring_count (store_slot q x) = ring_count q" "capacity (store_slot q x) = capacity q"
  "readPos (store_slot q x) = readPos q" "writePos (store_slot q x) = writePos q"
  by (simp_all add: ring_count_def store_slot_def)

lemma store_inv:
  assumes "ring_inv q" and "ring_count q < capacity q - 1"
  shows "ring_inv (store_slot q x) \<and> ring_contents (store_slot q x) = ring_contents q"
proof
  have c: "cell (store_slot q x) i = cell q i" if "i < ring_count q" for i
    using cell_store [OF assms, of i x] that by simp
  then show "ring_inv (store_slot q x)"
    using assms(1) by (auto simp: ring_inv_def store_slot_def ring_count_def split: option.splits)
  show "ring_contents (store_slot q x) = ring_contents q"
    using c by (auto simp: ring_contents_def)
qed

text \<open>Advancing the write position publishes the entry stored in its slot.\<close>

lemma publish:
  assumes inv: "ring_inv q" and room: "ring_count q < capacity q - 1"
    and x: "cell q (ring_count q) = Some x"
  shows "ring_inv (q\<lparr>writePos := add64 (writePos q) 1\<rparr>) \<and>
    ring_contents (q\<lparr>writePos := add64 (writePos q) 1\<rparr>) = ring_contents q @ [x] \<and>
    ring_count (q\<lparr>writePos := add64 (writePos q) 1\<rparr>) = Suc (ring_count q)"
proof -
  let ?q = "q\<lparr>writePos := add64 (writePos q) 1\<rparr>"
  have w: "writePos q < U64" and r: "readPos q < U64" using inv by (auto simp: ring_inv_def)
  have big: "capacity q < U64" using inv good_capacity_dvd(3) by (fastforce simp: ring_inv_def)
  have "add64 (writePos q) 1 = add64 (readPos q) (Suc (ring_count q))"
    using add64_sub64_cancel [OF w r] add64_assoc [of "readPos q" "ring_count q" 1]
    by (simp add: ring_count_def Suc_eq_plus1 del: add_Suc_right)
  then have n: "ring_count ?q = Suc (ring_count q)"
    using sub64_add64_cancel [of "Suc (ring_count q)" "readPos q"] r room big
    by (simp add: ring_count_def)
  have c: "cell ?q i = cell q i" for i by (simp add: cell_def)
  have "ring_inv ?q"
    using inv room x by (auto simp: ring_inv_def n c less_Suc_eq)
  then show ?thesis using x by (simp add: ring_contents_def n c)
qed

text \<open>Advancing the read position drops the oldest entry.\<close>

lemma consume:
  assumes inv: "ring_inv q" and ne: "0 < ring_count q"
  shows "ring_inv (q\<lparr>readPos := add64 (readPos q) 1\<rparr>) \<and>
    ring_contents q = the (cell q 0) # ring_contents (q\<lparr>readPos := add64 (readPos q) 1\<rparr>) \<and>
    ring_count (q\<lparr>readPos := add64 (readPos q) 1\<rparr>) = ring_count q - 1"
proof -
  let ?q = "q\<lparr>readPos := add64 (readPos q) 1\<rparr>"
  have w: "writePos q < U64" and r: "readPos q < U64" using inv by (auto simp: ring_inv_def)
  have big: "ring_count q < U64" by (simp add: ring_count_def)
  have "add64 (add64 (readPos q) 1) (ring_count q - 1) = writePos q"
    using add64_sub64_cancel [OF w r] ne by (simp add: ring_count_def add64_assoc)
  then have n: "ring_count ?q = ring_count q - 1"
    using sub64_add64_cancel [of "ring_count q - 1" "add64 (readPos q) 1"] big
    unfolding ring_count_def by (simp add: less_imp_diff_less)
  have c: "cell ?q i = cell q (Suc i)" for i by (simp add: cell_def add64_assoc Suc_eq_plus1_left)
  have "ring_inv ?q"
    using inv by (auto simp: ring_inv_def n c)
  moreover have "[0..<ring_count q] = 0 # map Suc [0..<ring_count q - 1]"
    using ne by (cases "ring_count q") (simp_all add: upt_conv_Cons map_Suc_upt)
  ultimately show ?thesis by (simp add: ring_contents_def n c)
qed

lemma put_eq:
  assumes "ring_inv q"
  shows "put q x = (if ring_count q = capacity q - 1 then None
     else Some ((store_slot q x)\<lparr>writePos := add64 (writePos q) 1\<rparr>))"
proof -
  have g: "good_capacity (capacity q)" using assms by (simp add: ring_inv_def)
  obtain ps where ps: "pointers q = Some ps" "length ps = capacity q"
    using assms by (auto simp: ring_inv_def split: option.splits)
  show ?thesis
    using ps slot_split(3) [OF g, of "writePos q"]
    by (simp add: put_def Let_def real_pos_slot [OF g] ring_full_count [OF assms] vec_set_def store_slot_def)
qed

lemma get_eq:
  assumes "ring_inv q"
  shows "get q = (if ring_count q = 0 then Some (None, q)
     else Some (cell q 0, q\<lparr>readPos := add64 (readPos q) 1\<rparr>))"
proof -
  have g: "good_capacity (capacity q)" using assms by (simp add: ring_inv_def)
  obtain ps where ps: "pointers q = Some ps" "length ps = capacity q"
    using assms by (auto simp: ring_inv_def split: option.splits)
  have "add64 (readPos q) 0 = readPos q" using assms by (simp add: add64_def ring_inv_def)
  then show ?thesis
    using ps slot_split(3) [OF g, of "readPos q"]
    by (simp add: get_def Let_def real_pos_slot [OF g] ring_empty_count [OF assms] vec_get_def cell_def)
qed

lemma length_contents [simp]: "length (ring_contents q) = ring_count q"
  by (simp add: ring_contents_def)

interpretation ring: fifo_queue ring_inv ring_contents ring_bound put get
proof
  fix q :: "'a PointerRing" and x :: 'a and xs
  assume inv: "ring_inv q"
  show "\<exists>q'. put q x = Some q' \<and> ring_inv q' \<and> ring_contents q' = ring_contents q @ [x] \<and>
      ring_bound q' = ring_bound q" if "length (ring_contents q) < ring_bound q"
  proof -
    from that have room: "ring_count q < capacity q - 1" by (simp add: ring_bound_def)
    let ?t = "store_slot q x"
    have t: "ring_inv ?t" "ring_contents ?t = ring_contents q" using store_inv [OF inv room] by auto
    have "cell ?t (ring_count ?t) = Some x" using cell_store [OF inv room, of "ring_count q" x] by simp
    from publish [OF t(1) _ this] room t(2) show ?thesis
      by (simp add: put_eq [OF inv] ring_bound_def)
  qed
  show "put q x = None" if "ring_bound q \<le> length (ring_contents q)"
    using that inv put_eq [OF inv, of x] by (auto simp: ring_bound_def ring_inv_def)
  show "get q = Some (None, q)" if "ring_contents q = []"
    using that get_eq [OF inv] by (simp add: ring_contents_def)
  show "\<exists>q'. get q = Some (Some x, q') \<and> ring_inv q' \<and> ring_contents q' = xs \<and>
      ring_bound q' = ring_bound q" if "ring_contents q = x # xs"
  proof -
    have ne: "0 < ring_count q" using that length_contents [of q] by (metis length_greater_0_conv list.distinct(1))
    then have "cell q 0 \<noteq> None" using inv by (simp add: ring_inv_def)
    then show ?thesis
      using consume [OF inv ne] that ne by (auto simp: get_eq [OF inv] ring_bound_def)
  qed
qed

text \<open>Waiting loses nothing: the value follows what the consumer has left.\<close>

lemma get_times_contents:
  "ring_inv q \<Longrightarrow> \<exists>q'. get_times n q = Some q' \<and> ring_inv q' \<and> ring_contents q' = drop n (ring_contents q) \<and>
     ring_bound q' = ring_bound q"
proof (induction n arbitrary: q)
  case 0
  then show ?case by simp
next
  case (Suc n)
  show ?case
  proof (cases "ring_contents q")
    case Nil
    then show ?thesis using ring.deq_nil [OF Suc.prems Nil] Suc.IH [OF Suc.prems] by simp
  next
    case (Cons x xs)
    from ring.deq_cons [OF Suc.prems Cons] obtain t where
      t: "get q = Some (Some x, t)" "ring_inv t" "ring_contents t = xs" "ring_bound t = ring_bound q" by blast
    from Suc.IH [OF t(2)] show ?thesis by (simp add: t Cons)
  qed
qed

lemma ring_full_iff: "ring_inv q \<Longrightarrow> ring_full q \<longleftrightarrow> \<not> length (ring_contents q) < ring_bound q"
  using ring_full_count [of q] by (auto simp: ring_bound_def ring_inv_def)

lemma put_wait_room:
  "ring_inv q \<Longrightarrow> length (ring_contents q) < ring_bound q \<Longrightarrow>
     \<exists>q'. put_wait gets q x = Some q' \<and> ring_inv q' \<and> ring_contents q' = ring_contents q @ [x] \<and> ring_bound q' = ring_bound q"
  using ring.enq_room [of q x] by (simp add: put_wait.simps [of gets] ring_full_iff)

lemma put_wait_full:
  assumes "ring_inv q" and "\<not> length (ring_contents q) < ring_bound q" and "0 < ring_bound q"
  shows "(\<forall>n \<in> set gets. n = 0) \<and> put_wait gets q x = None \<or>
    (\<exists>n \<in> set gets. 0 < n \<and> (\<exists>q'. put_wait gets q x = Some q' \<and> ring_inv q' \<and>
       ring_contents q' = drop n (ring_contents q) @ [x] \<and> ring_bound q' = ring_bound q))"
proof (induction gets)
  case Nil
  then show ?case using assms by (simp add: put_wait.simps [of "[]"] ring_full_iff)
next
  case (Cons n gets)
  have full: "ring_full q" using assms by (simp add: ring_full_iff)
  show ?case
  proof (cases "n = 0")
    case True
    then have "put_wait (n # gets) q x = put_wait gets q x" using full by (simp add: put_wait.simps [of "0 # gets"])
    then show ?thesis using Cons True by auto
  next
    case False
    from get_times_contents [OF assms(1), of n] obtain t where
      t: "get_times n q = Some t" "ring_inv t" "ring_contents t = drop n (ring_contents q)" "ring_bound t = ring_bound q" by blast
    have "length (ring_contents q) \<le> ring_bound q" using assms(1) by (simp add: ring_inv_def ring_bound_def)
    then have "length (ring_contents t) < ring_bound t" using False assms(3) unfolding t(3,4) by auto
    from put_wait_room [OF t(2) this, of gets x] False t show ?thesis
      by (auto simp: put_wait.simps [of "n # gets"] full)
  qed
qed

text \<open>Only a capacity with a non-zero eighth makes a usable ring; then it starts empty.\<close>

lemma ring_new:
  assumes "good_capacity cap"
  shows "\<exists>q. PointerRing_new True cap = Inr q \<and> ring_inv q \<and> ring_contents q = [] \<and> ring_bound q = cap - 1"
proof -
  from good_capacityE [OF assms] obtain k where k: "cap = 2 ^ (k + 3)" by metis
  have pos: "0 < cap" and le: "cap \<le> 2147483648" using good_capacity_dvd [OF assms] by simp_all
  have "(cap + u32_max) mod 4294967296 = cap - 1"
  proof -
    have "cap + u32_max = (cap - 1) + 4294967296" using pos by simp
    then show ?thesis using le by (simp only: mod_add_self2) simp
  qed
  moreover have "cap AND (cap - 1) = 0" unfolding k by (simp add: nat_and_mask)
  ultimately have "PointerRing_new True cap =
      Inr \<lparr>capacity = cap, writePos = 0, readPos = 0, pointers = Some (replicate cap None)\<rparr>"
    by (simp add: PointerRing_new_def)
  then show ?thesis
    using assms by (auto simp: ring_inv_def ring_count_def ring_contents_def ring_bound_def sub64_def)
qed

section \<open>Emptying the rings\<close>

text \<open>\<open>IndexGenerator::putIndexToCache\<close> repeats the insertion into the index buffer until it
  succeeds; \<open>ins\<close> stands for the buffer, and the fuel bounds the attempts.\<close>

fun putIndexToCache :: "nat \<Rightarrow> ('a \<Rightarrow> 'b \<Rightarrow> bool \<times> 'b) \<Rightarrow> 'a \<Rightarrow> 'b \<Rightarrow> 'b option" where
  "putIndexToCache 0 ins x b = None"
| "putIndexToCache (Suc n) ins x b =
     (case ins x b of (ok, b') \<Rightarrow> if ok then Some b' else putIndexToCache n ins x b')"

text \<open>One round of polling: at most one entry of each ring.\<close>

fun poll_round :: "('a \<Rightarrow> 'b \<Rightarrow> 'b option) \<Rightarrow> 'a PointerRing list \<Rightarrow> 'b \<Rightarrow> ('a PointerRing list \<times> 'b) option" where
  "poll_round sink [] b = Some ([], b)"
| "poll_round sink (q # qs) b = do {
     (data, q') \<leftarrow> get q;
     b' \<leftarrow> (case data of None \<Rightarrow> Some b | Some x \<Rightarrow> sink x b);
     (qs', b'') \<leftarrow> poll_round sink qs b';
     Some (q' # qs', b'')}"

text \<open>After a stop request each ring is emptied in turn. A ring holds fewer entries than its
  capacity, so the capacity is enough fuel for its loop.\<close>

fun drain_rings :: "('a \<Rightarrow> 'b \<Rightarrow> 'b option) \<Rightarrow> 'a PointerRing list \<Rightarrow> 'b \<Rightarrow> ('a PointerRing list \<times> 'b) option" where
  "drain_rings sink [] b = Some ([], b)"
| "drain_rings sink (q # qs) b = do {
     (q', b') \<leftarrow> drain get (capacity q) sink q b;
     (qs', b'') \<leftarrow> drain_rings sink qs b';
     Some (q' # qs', b'')}"

text \<open>\<open>IndexGenerator::run\<close> once the producers have stopped: some rounds of polling, then the
  stop request is seen and the rings are emptied.\<close>

fun generator_run :: "nat \<Rightarrow> ('a \<Rightarrow> 'b \<Rightarrow> 'b option) \<Rightarrow> 'a PointerRing list \<Rightarrow> 'b \<Rightarrow>
    ('a PointerRing list \<times> 'b) option" where
  "generator_run 0 sink qs b = (case poll_round sink qs b of
     None \<Rightarrow> None | Some (qs', b') \<Rightarrow> drain_rings sink qs' b')"
| "generator_run (Suc rounds) sink qs b = (case poll_round sink qs b of
     None \<Rightarrow> None | Some (qs', b') \<Rightarrow> generator_run rounds sink qs' b')"

lemma drain_ring:
  assumes "ring_inv q"
  shows "case feed sink (ring_contents q) b of
      None \<Rightarrow> drain get (capacity q) sink q b = None
    | Some b' \<Rightarrow> \<exists>q'. drain get (capacity q) sink q b = Some (q', b') \<and> ring_inv q' \<and>
        ring_contents q' = [] \<and> ring_bound q' = ring_bound q"
proof (rule ring.drain_all [OF assms])
  show "length (ring_contents q) < capacity q"
    using assms good_capacity_dvd(2) by (fastforce simp: ring_inv_def)
qed

lemma drain_rings_feed:
  "\<forall>q \<in> set qs. ring_inv q \<Longrightarrow>
     map_option snd (drain_rings sink qs b) = feed sink (concat (map ring_contents qs)) b \<and>
     (\<forall>qs' b'. drain_rings sink qs b = Some (qs', b') \<longrightarrow> (\<forall>q \<in> set qs'. ring_contents q = []))"
proof (induction qs arbitrary: b)
  case Nil
  then show ?case by simp
next
  case (Cons q qs)
  then have d: "case feed sink (ring_contents q) b of
      None \<Rightarrow> drain get (capacity q) sink q b = None
    | Some b' \<Rightarrow> \<exists>q'. drain get (capacity q) sink q b = Some (q', b') \<and> ring_inv q' \<and>
        ring_contents q' = [] \<and> ring_bound q' = ring_bound q"
    by (intro drain_ring) simp
  show ?case
  proof (cases "feed sink (ring_contents q) b")
    case None
    with d show ?thesis by (simp add: feed_append)
  next
    case (Some b')
    with d obtain q' where q': "drain get (capacity q) sink q b = Some (q', b')" "ring_contents q' = []"
      by auto
    have "\<forall>q \<in> set qs. ring_inv q" using Cons.prems by simp
    from Cons.IH [OF this, of b'] q' Some show ?thesis
      by (cases "drain_rings sink qs b'") (auto simp: feed_append)
  qed
qed

section \<open>One producer and one consumer at the same time\<close>

text \<open>The producer tests for room, stores into its slot and then advances \<open>writePos\<close>; the
  consumer tests for an entry, loads it and then advances \<open>readPos\<close>. In the source \<open>readPos\<close> is atomic and
  \<open>writePos\<close> a plain variable; the steps take its loads and stores as single and ordered, as they are on
  the target. \<open>sent\<close> lists the values
  whose \<open>put\<close> has advanced \<open>writePos\<close>, \<open>received\<close> those whose \<open>get\<close> has advanced \<open>readPos\<close>. Steps of the two
  threads interleave in any order.\<close>

datatype 'a producer = P_idle | P_room 'a | P_stored 'a
datatype 'a consumer = C_idle | C_some | C_loaded "'a option"

record 'a duo =
  ring :: "'a PointerRing"
  producer :: "'a producer"
  consumer :: "'a consumer"
  sent :: "'a list"
  received :: "'a option list"

inductive duo_step :: "'a duo \<Rightarrow> 'a duo \<Rightarrow> bool" where
  put_room: "producer s = P_idle \<Longrightarrow> \<not> ring_full (ring s) \<Longrightarrow>
     duo_step s (s\<lparr>producer := P_room x\<rparr>)"
| put_store: "producer s = P_room x \<Longrightarrow> real_pos (capacity (ring s)) (writePos (ring s) AND (capacity (ring s) - 1)) = Some rp \<Longrightarrow>
     pointers (ring s) = Some ps \<Longrightarrow> vec_set ps rp (Some x) = Some ps' \<Longrightarrow>
     duo_step s (s\<lparr>ring := (ring s)\<lparr>pointers := Some ps'\<rparr>, producer := P_stored x\<rparr>)"
| put_advance: "producer s = P_stored x \<Longrightarrow>
     duo_step s (s\<lparr>ring := (ring s)\<lparr>writePos := add64 (writePos (ring s)) 1\<rparr>,
       producer := P_idle, sent := sent s @ [x]\<rparr>)"
| get_some: "consumer s = C_idle \<Longrightarrow> writePos (ring s) \<noteq> readPos (ring s) \<Longrightarrow>
     duo_step s (s\<lparr>consumer := C_some\<rparr>)"
| get_load: "consumer s = C_some \<Longrightarrow> real_pos (capacity (ring s)) (readPos (ring s) AND (capacity (ring s) - 1)) = Some rp \<Longrightarrow>
     pointers (ring s) = Some ps \<Longrightarrow> vec_get ps rp = Some data \<Longrightarrow>
     duo_step s (s\<lparr>consumer := C_loaded data\<rparr>)"
| get_advance: "consumer s = C_loaded data \<Longrightarrow>
     duo_step s (s\<lparr>ring := (ring s)\<lparr>readPos := add64 (readPos (ring s)) 1\<rparr>,
       consumer := C_idle, received := received s @ [data]\<rparr>)"

inductive_cases duo_stepE: "duo_step s t"

definition duo_start :: "'a PointerRing \<Rightarrow> 'a duo" where
  "duo_start q = \<lparr>ring = q, producer = P_idle, consumer = C_idle, sent = [], received = []\<rparr>"

fun producer_ok :: "'a PointerRing \<Rightarrow> 'a producer \<Rightarrow> bool" where
  "producer_ok q P_idle = True"
| "producer_ok q (P_room x) = (ring_count q < capacity q - 1)"
| "producer_ok q (P_stored x) = (ring_count q < capacity q - 1 \<and> cell q (ring_count q) = Some x)"

fun consumer_ok :: "'a PointerRing \<Rightarrow> 'a consumer \<Rightarrow> bool" where
  "consumer_ok q C_idle = True"
| "consumer_ok q C_some = (0 < ring_count q)"
| "consumer_ok q (C_loaded data) = (0 < ring_count q \<and> cell q 0 = data)"

definition duo_inv :: "'a duo \<Rightarrow> bool" where
  "duo_inv s \<longleftrightarrow> ring_inv (ring s) \<and>
     map Some (sent s) = received s @ map Some (ring_contents (ring s)) \<and>
     producer_ok (ring s) (producer s) \<and> consumer_ok (ring s) (consumer s)"

lemma cell_update [simp]:
  "cell (q\<lparr>writePos := w\<rparr>) i = cell q i"
  "cell (q\<lparr>readPos := add64 (readPos q) 1\<rparr>) i = cell q (Suc i)"
  by (simp_all add: cell_def add64_assoc Suc_eq_plus1_left)

lemma store_steps:
  assumes inv: "ring_inv q"
    and st: "real_pos (capacity q) (writePos q AND (capacity q - 1)) = Some rp"
      "pointers q = Some ps" "vec_set ps rp (Some x) = Some ps'"
  shows "q\<lparr>pointers := Some ps'\<rparr> = store_slot q x"
proof -
  have "good_capacity (capacity q)" using inv by (simp add: ring_inv_def)
  then have "rp = slot (capacity q) (writePos q)" using st(1) by (simp add: real_pos_slot)
  then show ?thesis using st by (simp add: store_slot_def vec_set_Some)
qed

lemma load_steps:
  assumes inv: "ring_inv q"
    and st: "real_pos (capacity q) (readPos q AND (capacity q - 1)) = Some rp"
      "pointers q = Some ps" "vec_get ps rp = Some data"
  shows "data = cell q 0"
proof -
  have "good_capacity (capacity q)" using inv by (simp add: ring_inv_def)
  then have "rp = slot (capacity q) (readPos q)" using st(1) by (simp add: real_pos_slot)
  moreover have "add64 (readPos q) 0 = readPos q" using inv by (simp add: add64_def ring_inv_def)
  ultimately show ?thesis using st by (simp add: cell_def vec_get_Some)
qed

lemma duo_inv_step:
  assumes "duo_inv s" and "duo_step s t"
  shows "duo_inv t"
  using assms(2)
proof (cases rule: duo_step.cases)
  case (put_room x)
  have "ring_count (ring s) \<le> capacity (ring s) - 1" using assms(1) by (simp add: duo_inv_def ring_inv_def)
  then have "ring_count (ring s) < capacity (ring s) - 1"
    using put_room ring_full_count [of "ring s"] assms(1) by (simp add: duo_inv_def)
  then show ?thesis using assms(1) put_room by (simp add: duo_inv_def)
next
  case (put_store x rp ps ps')
  have inv: "ring_inv (ring s)" and room: "ring_count (ring s) < capacity (ring s) - 1"
    using assms(1) put_store by (auto simp: duo_inv_def)
  note st = store_steps [OF inv put_store(3-5)]
  have "0 < ring_count (ring s) \<Longrightarrow> cell (store_slot (ring s) x) 0 = cell (ring s) 0"
    using cell_store [OF inv room, of 0 x] by simp
  then show ?thesis
    using assms(1) put_store(1,2) store_inv [OF inv room, of x] cell_store [OF inv room, of "ring_count (ring s)" x] room
    by (cases "consumer s") (auto simp: duo_inv_def st)
next
  case (put_advance x)
  from assms(1) put_advance have inv: "ring_inv (ring s)" and room: "ring_count (ring s) < capacity (ring s) - 1"
    and x: "cell (ring s) (ring_count (ring s)) = Some x" by (auto simp: duo_inv_def)
  show ?thesis
    using assms(1) put_advance publish [OF inv room x] by (cases "consumer s") (auto simp: duo_inv_def)
next
  case get_some
  then show ?thesis using assms(1) ring_empty_count [of "ring s"] by (simp add: duo_inv_def)
next
  case (get_load rp ps data)
  have inv: "ring_inv (ring s)" using assms(1) by (simp add: duo_inv_def)
  from load_steps [OF inv get_load(3-5)] show ?thesis using assms(1) get_load by (simp add: duo_inv_def)
next
  case (get_advance data)
  from assms(1) get_advance have inv: "ring_inv (ring s)" and ne: "0 < ring_count (ring s)"
    and x: "cell (ring s) 0 = data" by (auto simp: duo_inv_def)
  then have "data \<noteq> None" by (auto simp: ring_inv_def)
  then show ?thesis
    using assms(1) get_advance consume [OF inv ne] x ne
    by (cases "producer s") (auto simp: duo_inv_def)
qed

lemma duo_reach_inv:
  assumes "ring_inv q" and "ring_contents q = []" and "duo_step\<^sup>*\<^sup>* (duo_start q) s"
  shows "duo_inv s"
  using assms(3)
proof (induction rule: rtranclp_induct)
  case base
  show ?case using assms(1,2) by (simp add: duo_inv_def duo_start_def)
next
  case (step s t)
  then show ?case by (rule_tac duo_inv_step)
qed

text \<open>No thread can reach an access outside the slot array: from every reachable state the
  producer and the consumer can take their pending step.\<close>

lemma duo_not_stuck:
  assumes "duo_inv s"
  shows "producer s = P_room x \<Longrightarrow> \<exists>t. duo_step s t \<and> producer t = P_stored x"
    and "consumer s = C_some \<Longrightarrow> \<exists>t y. duo_step s t \<and> consumer t = C_loaded (Some y)"
proof -
  let ?q = "ring s"
  have inv: "ring_inv ?q" using assms by (simp add: duo_inv_def)
  then have g: "good_capacity (capacity ?q)" by (simp add: ring_inv_def)
  obtain ps where ps: "pointers ?q = Some ps" "length ps = capacity ?q"
    using inv by (auto simp: ring_inv_def split: option.splits)
  note sl = slot_split(3) [OF g]
  {
    assume "producer s = P_room x"
    then show "\<exists>t. duo_step s t \<and> producer t = P_stored x"
      using duo_step.put_store [OF _ real_pos_slot [OF g] ps(1), of x] ps(2) sl [of "writePos ?q"]
      by (fastforce simp: vec_set_def)
  next
    assume c: "consumer s = C_some"
    have l: "vec_get ps (slot (capacity ?q) (readPos ?q)) = Some (ps ! slot (capacity ?q) (readPos ?q))"
      using ps(2) sl by (simp add: vec_get_def)
    have "ps ! slot (capacity ?q) (readPos ?q) = cell ?q 0"
      using load_steps [OF inv real_pos_slot [OF g] ps(1) l] .
    moreover have "cell ?q 0 \<noteq> None" using assms c inv by (auto simp: duo_inv_def ring_inv_def)
    ultimately obtain y where "ps ! slot (capacity ?q) (readPos ?q) = Some y" by auto
    then show "\<exists>t y. duo_step s t \<and> consumer t = C_loaded (Some y)"
      using duo_step.get_load [OF c real_pos_slot [OF g] ps(1) l] by fastforce
  }
qed

section \<open>Properties\<close>

text \<open>The slot arithmetic. For every power-of-two capacity from 8 up, the shuffled slot
  indices of the counter values of one lap are distinct and inside the array, also across the
  wrap of the 64-bit counters; for smaller capacities the arithmetic divides by zero.\<close>

lemma slots_are_a_permutation:
  "(good_capacity cap \<longrightarrow>
      (\<forall>r. inj_on (\<lambda>i. real_pos cap (add64 r i AND (cap - 1))) {..<cap} \<and>
           (\<forall>i. \<exists>p < cap. real_pos cap (add64 r i AND (cap - 1)) = Some p)))
   \<and> (cap < 8 \<longrightarrow> real_pos cap pos = None)"
proof (intro conjI impI allI)
  fix r assume g: "good_capacity cap"
  show "inj_on (\<lambda>i. real_pos cap (add64 r i AND (cap - 1))) {..<cap}"
  proof (rule inj_onI)
    fix i j assume ij: "i \<in> {..<cap}" "j \<in> {..<cap}"
      and eq: "real_pos cap (add64 r i AND (cap - 1)) = real_pos cap (add64 r j AND (cap - 1))"
    then have "slot cap (add64 r i) = slot cap (add64 r j)" by (simp add: real_pos_slot [OF g])
    then show "i = j"
      using slot_distinct [OF g, of i j r] slot_distinct [OF g, of j i r] ij
      by (cases i j rule: linorder_cases) auto
  qed
  fix i show "\<exists>p < cap. real_pos cap (add64 r i AND (cap - 1)) = Some p"
    using slot_split(3) [OF g] by (auto simp: real_pos_slot [OF g])
next
  assume "cap < 8"
  then show "real_pos cap pos = None" by (simp add: real_pos_def drop_bit_eq_div)
qed

text \<open>C12: the ring is a first-in first-out queue of capacity minus one entries. Whatever history of
  \<open>put\<close> and \<open>get\<close> calls completes, the values that came out, followed by those still inside,
  are the values that went in, in order: none is lost, duplicated or reordered; and a further
  \<open>put\<close> goes through unless capacity minus one values are inside.\<close>

theorem ring_history_fifo:
  assumes "good_capacity cap" and "PointerRing_new True cap = Inr q"
    and "run_ops put get ops q = Some (ys, q')"
  shows "inputs ops = ys @ ring_contents q' \<and> length (ring_contents q') \<le> cap - 1 \<and>
    (put q' x \<noteq> None \<longleftrightarrow> length (ring_contents q') < cap - 1)"
proof -
  have q: "ring_inv q" "ring_contents q = []" "ring_bound q = cap - 1"
    using ring_new [OF assms(1), where ?'a = 'a] assms(2) by auto
  from ring.run_ops_fifo [OF q(1) assms(3)] q(2,3) show ?thesis
    using put_eq [of q' x] by (auto simp: ring_inv_def ring_bound_def)
qed

text \<open>C11: the same holds when one producer thread and one consumer thread interleave their memory
  accesses in any order: the values the consumer received are always a prefix of the values the
  producer sent, the missing ones are in the ring, a received pointer is never null, and neither
  thread can overwrite or read a slot the other is working on.\<close>

theorem ring_concurrent_fifo:
  assumes "good_capacity cap" and "PointerRing_new True cap = Inr q"
    and "duo_step\<^sup>*\<^sup>* (duo_start q) s"
  shows "map Some (sent s) = received s @ map Some (ring_contents (ring s)) \<and>
    (\<forall>x. producer s = P_room x \<longrightarrow> (\<exists>t. duo_step s t \<and> producer t = P_stored x)) \<and>
    (consumer s = C_some \<longrightarrow> (\<exists>t y. duo_step s t \<and> consumer t = C_loaded (Some y)))"
proof -
  have "ring_inv q" "ring_contents q = []" using ring_new [OF assms(1), where ?'a = 'a] assms(2) by auto
  then have inv: "duo_inv s" using assms(3) by (rule duo_reach_inv)
  then show ?thesis using duo_not_stuck [OF inv] by (simp add: duo_inv_def)
qed

text \<open>C25: a stopping index generator hands every entry still in the rings to the index buffer, ring
  by ring and oldest first, and leaves the rings empty; the capacity bounds the iterations of
  each loop, so it returns unless the buffer never accepts an entry.\<close>

theorem generator_drains_all:
  assumes "\<forall>q \<in> set qs. ring_inv q"
  shows "(case feed sink (concat (map ring_contents qs)) b of
      None \<Rightarrow> drain_rings sink qs b = None
    | Some b' \<Rightarrow> \<exists>qs'. drain_rings sink qs b = Some (qs', b') \<and> (\<forall>q \<in> set qs'. ring_contents q = []))"
proof -
  note d = drain_rings_feed [OF assms, of sink b]
  show ?thesis
  proof (cases "drain_rings sink qs b")
    case None
    then have "feed sink (concat (map ring_contents qs)) b = None" using d by (metis option.simps(8))
    then show ?thesis using None by simp
  next
    case (Some r)
    obtain qs' b' where r: "r = (qs', b')" by (cases r)
    then have "feed sink (concat (map ring_contents qs)) b = Some b'" using d Some
      by (metis option.simps(9) snd_conv)
    then show ?thesis using d Some r by auto
  qed
qed

section \<open>Witnesses\<close>

definition example_ring :: "nat PointerRing" where
  "example_ring = \<lparr>capacity = 8, writePos = 0, readPos = 0, pointers = Some (replicate 8 None)\<rparr>"

lemma good_8: "good_capacity 8"
  by (auto simp: good_capacity_def intro!: exI [of _ 3])

lemma example_ring_new: "PointerRing_new True 8 = Inr example_ring"
  by (simp add: PointerRing_new_def example_ring_def)

lemma example_ring_inv: "ring_inv example_ring" "ring_contents example_ring = []"
  using ring_new [OF good_8, where ?'a = nat] example_ring_new by auto

lemma slots_are_a_permutation_example:
  "inj_on (\<lambda>i. real_pos 8 (add64 u64_max i AND 7)) {..<8} \<and> real_pos 4 3 = None"
  using slots_are_a_permutation [of 8 0] slots_are_a_permutation [of 4 3] good_8 by simp

lemma real_pos_8: "real_pos 8 p = Some p"
  by (simp add: real_pos_def drop_bit_eq_div)

theorem ring_history_fifo_witness:
  "\<exists>q'. run_ops put get [Some 11, Some 12, None, Some 13, None, None, None, Some 14] example_ring
           = Some ([11, 12, 13], q') \<and> ring_contents q' = [14]"
proof -
  have "map_option fst (run_ops put get [Some 11, Some 12, None, Some 13, None, None, None, Some 14]
      example_ring) = Some [11, 12, 13]"
    by (simp add: example_ring_def put_def get_def ring_full_def real_pos_8 Let_def add64_def
        vec_get_def vec_set_def)
  then obtain q' where
    r: "run_ops put get [Some 11, Some 12, None, Some 13, None, None, None, Some 14] example_ring
      = Some ([11, 12, 13], q')" by auto
  have "ring_contents q' = [14]"
    using ring_history_fifo [OF good_8 example_ring_new r] by (simp add: inputs_def map_filter_simps)
  with r show ?thesis by blast
qed

theorem ring_concurrent_fifo_witness:
  "\<exists>t. duo_step ((duo_start example_ring)\<lparr>producer := P_room 5\<rparr>) t \<and> producer t = P_stored 5"
proof -
  have "duo_step (duo_start example_ring) ((duo_start example_ring)\<lparr>producer := P_room 5\<rparr>)"
    by (rule duo_step.put_room) (simp_all add: duo_start_def example_ring_def ring_full_def add64_def)
  then have "duo_step\<^sup>*\<^sup>* (duo_start example_ring) ((duo_start example_ring)\<lparr>producer := P_room 5\<rparr>)"
    by (rule r_into_rtranclp)
  from ring_concurrent_fifo [OF good_8 example_ring_new this] show ?thesis by simp
qed

theorem generator_drains_all_witness:
  "\<exists>q qs'. put example_ring 5 = Some q \<and>
     drain_rings (\<lambda>x b. Some (b @ [x])) [q, example_ring, q] [] = Some (qs', [5, 5])"
proof -
  have "length (ring_contents example_ring) < ring_bound example_ring"
    by (simp add: ring_count_def sub64_def ring_bound_def example_ring_def)
  from ring.enq_room [OF example_ring_inv(1) this, of 5] obtain q where
    q: "put example_ring 5 = Some q" "ring_inv q" "ring_contents q = [5]"
    by (auto simp: example_ring_inv)
  then have "\<forall>r \<in> set [q, example_ring, q]. ring_inv r" by (simp add: example_ring_inv)
  from generator_drains_all [OF this, of "\<lambda>x b. Some (b @ [x])" "[]"] show ?thesis
    using q example_ring_inv by auto
qed

end
