(* ===== verification/FlowAggregate.thy ===== *)
theory FlowAggregate
  imports Prelude
begin

text \<open>
  The flow table of \<^verbatim>\<open>dpdk_lib/packetAggregator.hpp\<close>, with which a capture thread chains the
  packets of a flow: it remembers the offset and time of the last packet of every flow and
  answers the offset to link the new packet to, or the sentinel when there is none or it is too
  far away. An \<open>unordered_map\<close> is a map, whatever its hash function.
\<close>

record FlowAttr =
  lastOffset :: nat
  flow_ts :: nat

record FlowMetadata =
  sourceAddress :: bytes
  destinationAddress :: bytes
  sourcePort :: "16 word"
  destinationPort :: "16 word"

record PacketAggregator =
  offsetThreshold :: nat
  tsThreshold :: nat
  aggMap :: "FlowMetadata \<rightharpoonup> FlowAttr"

definition PacketAggregator_new :: "nat \<Rightarrow> nat \<Rightarrow> PacketAggregator" where
  "PacketAggregator_new ot tt = \<lparr>offsetThreshold = ot, tsThreshold = tt, aggMap = Map.empty\<rparr>"

definition addPacket :: "PacketAggregator \<Rightarrow> FlowMetadata \<Rightarrow> nat \<Rightarrow> nat \<Rightarrow> nat \<Rightarrow> nat \<times> PacketAggregator" where
  "addPacket a meta offset ts disk_size =
     (let last = u64_max; flow = \<lparr>lastOffset = offset, flow_ts = ts\<rparr>;
          a' = a\<lparr>aggMap := (aggMap a)(meta \<mapsto> flow)\<rparr> in
      case aggMap a meta of
        None \<Rightarrow> (last, a')
      | Some it \<Rightarrow>
          let ordered_offset = (if offset \<le> lastOffset it then add64 offset disk_size else offset) in
          if sub64 ordered_offset (lastOffset it) > offsetThreshold a \<or> sub64 ts (flow_ts it) > tsThreshold a
          then (last, a')
          else (lastOffset it, a'))"

text \<open>A packet of a history: its flow, offset and time.\<close>

type_synonym flow_packet = "FlowMetadata \<times> nat \<times> nat"

fun add_all :: "nat \<Rightarrow> flow_packet list \<Rightarrow> PacketAggregator \<Rightarrow> PacketAggregator" where
  "add_all disk [] a = a"
| "add_all disk ((meta, offset, ts) # ps) a = add_all disk ps (snd (addPacket a meta offset ts disk))"

definition last_of :: "flow_packet list \<Rightarrow> FlowMetadata \<Rightarrow> (nat \<times> nat) option" where
  "last_of ps meta =
     (let qs = filter (\<lambda>p. fst p = meta) ps in if qs = [] then None else Some (snd (last qs)))"

lemma addPacket_map:
  "aggMap (snd (addPacket a meta offset ts disk)) = (aggMap a)(meta \<mapsto> \<lparr>lastOffset = offset, flow_ts = ts\<rparr>)"
  "offsetThreshold (snd (addPacket a meta offset ts disk)) = offsetThreshold a"
  "tsThreshold (snd (addPacket a meta offset ts disk)) = tsThreshold a"
  by (simp_all add: addPacket_def Let_def split: option.splits)

lemma last_of_snoc:
  "last_of (ps @ [(m, p)]) meta = (if m = meta then Some p else last_of ps meta)"
  by (auto simp: last_of_def Let_def)

lemma add_all_snoc:
  "add_all disk (ps @ [(m, off, ts)]) a = snd (addPacket (add_all disk ps a) m off ts disk)"
  by (induction ps arbitrary: a) auto

lemma add_all_map:
  "aggMap (add_all disk ps (PacketAggregator_new ot tt)) meta =
     map_option (\<lambda>(off, ts). \<lparr>lastOffset = off, flow_ts = ts\<rparr>) (last_of ps meta) \<and>
   offsetThreshold (add_all disk ps (PacketAggregator_new ot tt)) = ot \<and>
   tsThreshold (add_all disk ps (PacketAggregator_new ot tt)) = tt"
proof (induction ps rule: rev_induct)
  case Nil
  then show ?case by (simp add: PacketAggregator_new_def last_of_def)
next
  case (snoc p ps)
  obtain m off ts where p: "p = (m, off, ts)" by (cases p)
  from snoc show ?case unfolding p add_all_snoc last_of_snoc by (auto simp: addPacket_map)
qed

text \<open>The chain of a flow. After any history of packets, the offset the table links a packet to
  is the offset of the latest earlier packet of the same flow, unless there is none or it is more
  than the offset threshold behind (counted around the end of the disk) or older than the time
  threshold; packets of other flows have no influence.\<close>

lemma addPacket_links_last:
  "fst (addPacket (add_all disk ps (PacketAggregator_new ot tt)) meta offset ts disk) =
     (case last_of ps meta of
        None \<Rightarrow> u64_max
      | Some (off', ts') \<Rightarrow>
          if sub64 (if offset \<le> off' then add64 offset disk else offset) off' \<le> ot \<and> sub64 ts ts' \<le> tt
          then off' else u64_max)"
  using add_all_map [of disk ps ot tt meta]
  by (auto simp: addPacket_def Let_def split: option.splits)

end
