(* ===== verification/BitMapStore.thy ===== *)
theory BitMapStore
  imports KeyTypes
begin

text \<open>
  The column store of \<^verbatim>\<open>dpdk_lib/bitMap.hpp\<close>: one bit per (row, column), rows being the
  positions of the prefix Bloom filters and columns the disk blocks. Eight columns share a byte:
  column \<open>c\<close> lives in bit \<open>c / (col_count / 8)\<close> of byte \<open>c % (col_count / 8)\<close> of its row.
  The mapped region is a function from byte offsets to bytes together with its size in bytes;
  the constructor and the operations are translated with their range checks and the sentinel
  values (all ones) the private index functions return. The interface \<open>bit_store\<close> at the
  start is what the Bloom filters rely on; the bitmap is an interpretation of it.
\<close>

section \<open>The interface of a bit store\<close>

text \<open>Set or test a list of rows in one column, stopping at the first row that fails, as the
  loops of the filters do.\<close>

fun set_seq :: "('s \<Rightarrow> nat \<Rightarrow> nat \<Rightarrow> bool \<times> 's) \<Rightarrow> 's \<Rightarrow> nat list \<Rightarrow> nat \<Rightarrow> bool \<times> 's" where
  "set_seq set1 s [] c = (True, s)"
| "set_seq set1 s (r # rs) c =
     (case set1 s r c of (ok, s') \<Rightarrow> if ok then set_seq set1 s' rs c else (False, s'))"

fun get_seq :: "('s \<Rightarrow> nat \<Rightarrow> nat \<Rightarrow> bool) \<Rightarrow> 's \<Rightarrow> nat list \<Rightarrow> nat \<Rightarrow> bool" where
  "get_seq get1 s [] c = True"
| "get_seq get1 s (r # rs) c = (if get1 s r c then get_seq get1 s rs c else False)"

lemma get_seq_all: "get_seq get1 s rs c \<longleftrightarrow> (\<forall>r \<in> set rs. get1 s r c)"
  by (induction rs) auto

lemma set_seq_append:
  "set_seq set1 s (rs @ ts) c =
     (case set_seq set1 s rs c of (ok, s') \<Rightarrow> if ok then set_seq set1 s' ts c else (False, s'))"
  by (induction rs arbitrary: s) (auto split: prod.splits)

lemma get_seq_append: "get_seq get1 s (rs @ ts) c = (get_seq get1 s rs c \<and> get_seq get1 s ts c)"
  by (induction rs) auto

locale bit_store =
  fixes inv :: "'s \<Rightarrow> bool"
    and dom :: "'s \<Rightarrow> nat \<Rightarrow> nat \<Rightarrow> bool"
    and get1 :: "'s \<Rightarrow> nat \<Rightarrow> nat \<Rightarrow> bool"
    and set1 :: "'s \<Rightarrow> nat \<Rightarrow> nat \<Rightarrow> bool \<times> 's"
  assumes set_ok: "inv s \<Longrightarrow> fst (set1 s r c) = dom s r c"
    and set_fail: "inv s \<Longrightarrow> \<not> dom s r c \<Longrightarrow> snd (set1 s r c) = s"
    and set_inv: "inv s \<Longrightarrow> inv (snd (set1 s r c))"
    and set_dom: "inv s \<Longrightarrow> dom (snd (set1 s r c)) r' c' = dom s r' c'"
    and get_dom: "inv s \<Longrightarrow> get1 s r c \<Longrightarrow> dom s r c"
    and get_set: "inv s \<Longrightarrow> dom s r c \<Longrightarrow>
      get1 (snd (set1 s r c)) r' c' = (get1 s r' c' \<or> (r' = r \<and> c' = c))"
begin

lemma get_set_any:
  "inv s \<Longrightarrow> get1 (snd (set1 s r c)) r' c' = (get1 s r' c' \<or> (r' = r \<and> c' = c \<and> dom s r c))"
  by (cases "dom s r c") (auto simp: get_set set_fail)

lemma set_seq_inv: "inv s \<Longrightarrow> inv (snd (set_seq set1 s rs c))"
proof (induction rs arbitrary: s)
  case Nil
  then show ?case by simp
next
  case (Cons r rs)
  have "inv (snd (set1 s r c))" using Cons.prems by (rule set_inv)
  with Cons.IH [of "snd (set1 s r c)"] show ?case by (auto split: prod.splits)
qed

lemma set_seq_dom: "inv s \<Longrightarrow> dom (snd (set_seq set1 s rs c)) r' c' = dom s r' c'"
proof (induction rs arbitrary: s)
  case Nil
  then show ?case by simp
next
  case (Cons r rs)
  have "inv (snd (set1 s r c))" using Cons.prems by (rule set_inv)
  with Cons.IH [of "snd (set1 s r c)"] set_dom [OF Cons.prems, of r c] show ?case
    by (auto split: prod.splits)
qed

lemma set_seq_ok: "inv s \<Longrightarrow> fst (set_seq set1 s rs c) \<longleftrightarrow> (\<forall>r \<in> set rs. dom s r c)"
proof (induction rs arbitrary: s)
  case Nil
  then show ?case by simp
next
  case (Cons r rs)
  have i: "inv (snd (set1 s r c))" using Cons.prems by (rule set_inv)
  show ?case
    using Cons.IH [OF i] set_ok [OF Cons.prems, of r c] set_dom [OF Cons.prems, of r c]
    by (auto split: prod.splits)
qed

text \<open>A completed sequence sets exactly its rows in its column.\<close>

lemma set_seq_get:
  "inv s \<Longrightarrow> fst (set_seq set1 s rs c) \<Longrightarrow>
     get1 (snd (set_seq set1 s rs c)) r' c' = (get1 s r' c' \<or> (r' \<in> set rs \<and> c' = c))"
proof (induction rs arbitrary: s)
  case Nil
  then show ?case by simp
next
  case (Cons r rs)
  have i: "inv (snd (set1 s r c))" using Cons.prems(1) by (rule set_inv)
  from Cons.prems have d: "dom s r c" and f: "fst (set_seq set1 (snd (set1 s r c)) rs c)"
    using set_ok [OF Cons.prems(1), of r c] by (auto split: prod.splits if_splits)
  show ?case
    using Cons.IH [OF i f] get_set [OF Cons.prems(1) d] set_ok [OF Cons.prems(1), of r c] d
    by (auto split: prod.splits)
qed

text \<open>Bits are only added, whether or not the sequence completes.\<close>

lemma set_seq_mono:
  "inv s \<Longrightarrow> get1 s r' c' \<Longrightarrow> get1 (snd (set_seq set1 s rs c)) r' c'"
proof (induction rs arbitrary: s)
  case Nil
  then show ?case by simp
next
  case (Cons r rs)
  have i: "inv (snd (set1 s r c))" using Cons.prems(1) by (rule set_inv)
  have g: "get1 (snd (set1 s r c)) r' c'"
    using get_set_any [OF Cons.prems(1), of r c r' c'] Cons.prems(2) by simp
  show ?case
    using Cons.IH [OF i g] g by (auto split: prod.splits)
qed

text \<open>Only rows of the sequence in its own column can change.\<close>

lemma set_seq_frame:
  "inv s \<Longrightarrow> r' \<notin> set rs \<or> c' \<noteq> c \<Longrightarrow> get1 (snd (set_seq set1 s rs c)) r' c' = get1 s r' c'"
proof (induction rs arbitrary: s)
  case Nil
  then show ?case by simp
next
  case (Cons r rs)
  have i: "inv (snd (set1 s r c))" using Cons.prems(1) by (rule set_inv)
  have "get1 (snd (set1 s r c)) r' c' = get1 s r' c'"
    using get_set_any [OF Cons.prems(1)] Cons.prems(2) by auto
  with Cons.IH [OF i] Cons.prems(2) show ?case by (auto split: prod.splits)
qed

lemma set_then_get_seq:
  assumes "inv s" and "fst (set_seq set1 s rs c)"
  shows "get_seq get1 (snd (set_seq set1 s rs c)) rs c"
  using set_seq_get [OF assms] by (simp add: get_seq_all)

lemma get_seq_mono:
  "inv s \<Longrightarrow> get_seq get1 s ts c' \<Longrightarrow> get_seq get1 (snd (set_seq set1 s rs c)) ts c'"
  by (auto simp: get_seq_all intro: set_seq_mono)

end

section \<open>The bitmap\<close>

record BitMap =
  bitmap :: "nat \<Rightarrow> byte"
  row_count :: nat
  col_count :: nat
  backup_col_count :: nat
  bm_size :: nat

datatype bitmap_error = Bad_col_count | Bad_backup_col_count | Bitmap_mmap_failed

text \<open>The constructor, with its exceptions (the argument tells whether \<open>mmap\<close> succeeds); the mapped
  region is zeroed.\<close>

definition BitMap_new :: "bool \<Rightarrow> nat \<Rightarrow> nat \<Rightarrow> nat \<Rightarrow> bitmap_error + BitMap" where
  "BitMap_new mmap_ok rows logic_col_count backup =
     (let cols = add64 logic_col_count backup in
      if cols mod 8 \<noteq> 0 then Inl Bad_col_count
      else if mul64 backup 8 > cols then Inl Bad_backup_col_count
      else if \<not> mmap_ok then Inl Bitmap_mmap_failed
      else Inr \<lparr>bitmap = (\<lambda>_. 0), row_count = rows, col_count = cols,
                backup_col_count = backup, bm_size = mul64 rows cols div 8\<rparr>)"

definition getByteIndex :: "BitMap \<Rightarrow> nat \<Rightarrow> nat \<Rightarrow> nat" where
  "getByteIndex m row col =
     (if row \<ge> row_count m \<or> col \<ge> col_count m then u64_max
      else let byte_col = col mod (col_count m div 8)
           in add64 (mul64 row (col_count m div 8)) byte_col)"

definition getBitIndex :: "BitMap \<Rightarrow> nat \<Rightarrow> nat" where
  "getBitIndex m col = (if col \<ge> col_count m then 255 else (col div (col_count m div 8)) mod 256)"

definition BitMap_get :: "BitMap \<Rightarrow> nat \<Rightarrow> nat \<Rightarrow> bool" where
  "BitMap_get m row col =
     (let byte_index = getByteIndex m row col in
      if byte_index = u64_max then False
      else let bit_index = getBitIndex m col in
      if bit_index = 255 then False
      else (bitmap m byte_index AND push_bit bit_index 1) \<noteq> 0)"

definition BitMap_set :: "BitMap \<Rightarrow> nat \<Rightarrow> nat \<Rightarrow> bool \<times> BitMap" where
  "BitMap_set m row col =
     (let byte_index = getByteIndex m row col in
      if byte_index = u64_max then (False, m)
      else let bit_index = getBitIndex m col in
      if bit_index = 255 then (False, m)
      else (True, m\<lparr>bitmap := (bitmap m)(byte_index :=
              bitmap m byte_index OR push_bit bit_index 1)\<rparr>))"

fun clearCol_from :: "BitMap \<Rightarrow> nat \<Rightarrow> nat \<Rightarrow> nat list \<Rightarrow> BitMap" where
  "clearCol_from m col bit_index [] = m"
| "clearCol_from m col bit_index (row # rows) =
     (let byte_index = getByteIndex m row col
      in clearCol_from
           (m\<lparr>bitmap := (bitmap m)(byte_index :=
                bitmap m byte_index AND NOT (push_bit bit_index 1))\<rparr>) col bit_index rows)"

definition clearCol :: "BitMap \<Rightarrow> nat \<Rightarrow> BitMap" where
  "clearCol m col =
     (let bit_index = getBitIndex m col in
      if bit_index = 255 then m else clearCol_from m col bit_index [0..<row_count m])"

text \<open>What the constructor establishes when the region fits the address space.\<close>

definition BitMap_inv :: "BitMap \<Rightarrow> bool" where
  "BitMap_inv m \<longleftrightarrow> 8 dvd col_count m \<and> row_count m * col_count m < U64 \<and>
     bm_size m = row_count m * col_count m div 8"

definition in_map :: "BitMap \<Rightarrow> nat \<Rightarrow> nat \<Rightarrow> bool" where
  "in_map m row col \<longleftrightarrow> row < row_count m \<and> col < col_count m"

lemma BitMap_new_inv:
  assumes new: "BitMap_new mmap_ok rows logic backup = Inr m"
    and fits: "rows * add64 logic backup < U64"
  shows "BitMap_inv m"
  using assms
  by (auto simp: BitMap_new_def BitMap_inv_def Let_def u64_simps split: if_splits)

section \<open>The layout\<close>

text \<open>Inside the map the byte index is below the size of the region and the bit index below 8,
  and different cells have different (byte, bit) pairs.\<close>

lemma byte_index_eq:
  assumes "BitMap_inv m" and "in_map m row col"
  shows "getByteIndex m row col = row * (col_count m div 8) + col mod (col_count m div 8)"
    and "getByteIndex m row col < bm_size m"
    and "bm_size m < u64_max"
proof -
  let ?w = "col_count m div 8"
  from assms have c: "col_count m = ?w * 8" and "0 < col_count m"
    by (auto simp: BitMap_inv_def in_map_def)
  then have w: "0 < ?w" by simp
  have sz: "bm_size m = row_count m * ?w"
    using assms(1) c by (simp add: BitMap_inv_def div_mult_swap)
  have "row * ?w + col mod ?w < row_count m * ?w"
    using assms(2) w by (intro mult_add_less) (simp_all add: in_map_def)
  moreover have "row_count m * ?w * 8 < U64"
    using assms(1) c by (simp add: BitMap_inv_def mult.assoc)
  ultimately show "getByteIndex m row col = row * ?w + col mod ?w"
    and "getByteIndex m row col < bm_size m" and "bm_size m < u64_max"
    using assms(2) by (simp_all add: getByteIndex_def in_map_def u64_simps sz)
qed

lemma bit_index_eq:
  assumes "BitMap_inv m" and "in_map m row col"
  shows "getBitIndex m col = col div (col_count m div 8)" and "getBitIndex m col < 8"
proof -
  let ?w = "col_count m div 8"
  from assms have c: "col_count m = ?w * 8" and "0 < ?w"
    by (auto simp: BitMap_inv_def in_map_def)
  with assms(2) have "col < 8 * ?w" by (simp add: in_map_def)
  then have "col div ?w < 8" by (rule less_mult_imp_div_less)
  then show "getBitIndex m col = col div ?w" and "getBitIndex m col < 8"
    using assms(2) by (simp_all add: getBitIndex_def in_map_def)
qed

lemma cell_inj:
  assumes "BitMap_inv m" and "in_map m row col" and "in_map m row' col'"
    and "getByteIndex m row col = getByteIndex m row' col'"
    and "getBitIndex m col = getBitIndex m col'"
  shows "row = row' \<and> col = col'"
proof -
  let ?w = "col_count m div 8"
  from assms(1,2) have w: "0 < ?w" by (auto simp: BitMap_inv_def in_map_def)
  have eq: "row * ?w + col mod ?w = row' * ?w + col' mod ?w"
    using assms byte_index_eq(1) by metis
  then have "(row * ?w + col mod ?w) div ?w = (row' * ?w + col' mod ?w) div ?w" by simp
  then have r: "row = row'" using w by simp
  with eq have "col mod ?w = col' mod ?w" by simp
  moreover have "col div ?w = col' div ?w"
    using assms bit_index_eq(1) by metis
  ultimately show ?thesis using r div_mod_pair_inj by blast
qed

lemma in_map_indices:
  assumes "BitMap_inv m"
  shows "in_map m row col \<longleftrightarrow> getByteIndex m row col \<noteq> u64_max \<and> getBitIndex m col \<noteq> 255"
  using byte_index_eq [OF assms] bit_index_eq [OF assms]
  by (cases "in_map m row col") (fastforce, auto simp: in_map_def getByteIndex_def)

lemma bit_one_shift [simp]: "bit (2 ^ k :: byte) n \<longleftrightarrow> n = k \<and> n < 8"
  by (auto simp: bit_exp_iff possible_bit_word)

lemma and_push_bit_one: "((b :: byte) AND push_bit k 1) \<noteq> 0 \<longleftrightarrow> bit b k"
proof
  assume "(b AND push_bit k 1) \<noteq> 0"
  then obtain n where "bit (b AND push_bit k 1) n" using bit_eq_iff [of "b AND push_bit k 1" 0] by auto
  then show "bit b k" by (auto simp: bit_and_iff)
next
  assume b: "bit b k"
  then have "k < 8" using bit_imp_le_length [of b k] by simp
  with b have "bit (b AND push_bit k 1) k" by (simp add: bit_and_iff)
  then show "(b AND push_bit k 1) \<noteq> 0" by auto
qed

lemma byte_or_bit: "k < 8 \<Longrightarrow> bit ((b :: byte) OR 2 ^ k) n \<longleftrightarrow> bit b n \<or> n = k"
  by (auto simp: bit_or_iff)

lemma byte_and_not_bit: "bit ((b :: byte) AND NOT (2 ^ k)) n \<longleftrightarrow> bit b n \<and> n \<noteq> k"
  using bit_imp_le_length [of b n] by (auto simp: bit_and_iff bit_not_iff possible_bit_word)

lemma BitMap_get_bit:
  assumes "BitMap_inv m"
  shows "BitMap_get m row col \<longleftrightarrow>
    in_map m row col \<and> bit (bitmap m (getByteIndex m row col)) (getBitIndex m col)"
  using in_map_indices [OF assms, of row col]
  unfolding BitMap_get_def Let_def and_push_bit_one by auto

lemma index_update [simp]:
  "getByteIndex (m\<lparr>bitmap := f\<rparr>) row col = getByteIndex m row col"
  "getBitIndex (m\<lparr>bitmap := f\<rparr>) col = getBitIndex m col"
  "BitMap_inv (m\<lparr>bitmap := f\<rparr>) = BitMap_inv m"
  "in_map (m\<lparr>bitmap := f\<rparr>) row col = in_map m row col"
  by (simp_all add: getByteIndex_def getBitIndex_def BitMap_inv_def in_map_def)

lemma BitMap_set_in:
  assumes "BitMap_inv m" and "in_map m row col"
  shows "BitMap_set m row col = (True, m\<lparr>bitmap := (bitmap m)(getByteIndex m row col :=
    bitmap m (getByteIndex m row col) OR push_bit (getBitIndex m col) 1)\<rparr>)"
  using assms in_map_indices [OF assms(1)] by (simp add: BitMap_set_def Let_def)

lemma BitMap_set_out:
  assumes "BitMap_inv m" and "\<not> in_map m row col"
  shows "BitMap_set m row col = (False, m)"
  using assms in_map_indices [OF assms(1)] by (auto simp: BitMap_set_def Let_def)

lemma BitMap_get_set:
  assumes inv: "BitMap_inv m" and d: "in_map m r c"
  shows "BitMap_get (snd (BitMap_set m r c)) r' c' = (BitMap_get m r' c' \<or> (r' = r \<and> c' = c))"
proof (cases "in_map m r' c'")
  case False
  then show ?thesis
    using d by (auto simp: BitMap_get_bit inv BitMap_set_in [OF inv d])
next
  case True
  have inj: "getByteIndex m r' c' = getByteIndex m r c \<Longrightarrow> getBitIndex m c' = getBitIndex m c \<Longrightarrow>
      r' = r \<and> c' = c"
    using cell_inj [OF inv True d] by blast
  show ?thesis
    using True inj bit_index_eq(2) [OF inv d]
    by (auto simp: BitMap_get_bit inv BitMap_set_in [OF inv d] byte_or_bit)
qed

interpretation bms: bit_store BitMap_inv in_map BitMap_get BitMap_set
proof
  fix m :: BitMap and r c r' c' :: nat
  assume inv: "BitMap_inv m"
  show "fst (BitMap_set m r c) = in_map m r c"
    using inv by (cases "in_map m r c") (simp_all add: BitMap_set_in BitMap_set_out)
  show "BitMap_inv (snd (BitMap_set m r c))"
    using inv by (cases "in_map m r c") (simp_all add: BitMap_set_in BitMap_set_out)
  show "in_map (snd (BitMap_set m r c)) r' c' = in_map m r' c'"
    using inv by (cases "in_map m r c") (simp_all add: BitMap_set_in BitMap_set_out)
  show "\<not> in_map m r c \<Longrightarrow> snd (BitMap_set m r c) = m"
    using inv by (simp add: BitMap_set_out)
  show "BitMap_get m r c \<Longrightarrow> in_map m r c"
    using inv by (simp add: BitMap_get_bit)
  show "in_map m r c \<Longrightarrow>
      BitMap_get (snd (BitMap_set m r c)) r' c' = (BitMap_get m r' c' \<or> (r' = r \<and> c' = c))"
    using inv by (rule BitMap_get_set)
qed

section \<open>Clearing a column\<close>

lemma clearCol_from_get:
  assumes "BitMap_inv m" and "col < col_count m" and "\<forall>row \<in> set rows. row < row_count m"
  shows "BitMap_inv (clearCol_from m col (getBitIndex m col) rows) \<and>
    in_map (clearCol_from m col (getBitIndex m col) rows) r c = in_map m r c \<and>
    BitMap_get (clearCol_from m col (getBitIndex m col) rows) r c
      = (BitMap_get m r c \<and> \<not> (r \<in> set rows \<and> c = col))"
  using assms
proof (induction rows arbitrary: m)
  case Nil
  then show ?case by simp
next
  case (Cons row rows)
  let ?m = "m\<lparr>bitmap := (bitmap m)(getByteIndex m row col :=
     bitmap m (getByteIndex m row col) AND NOT (push_bit (getBitIndex m col) 1))\<rparr>"
  have d: "in_map m row col" using Cons.prems by (simp add: in_map_def)
  have b8: "getBitIndex m col < 8" by (rule bit_index_eq(2) [OF Cons.prems(1) d])
  have step: "BitMap_get ?m r c = (BitMap_get m r c \<and> \<not> (r = row \<and> c = col))"
  proof (cases "in_map m r c")
    case True
    then show ?thesis
      using cell_inj [OF Cons.prems(1) True d] bit_index_eq(2) [OF Cons.prems(1) True] b8
      by (auto simp: BitMap_get_bit Cons.prems(1) byte_and_not_bit)
  next
    case False
    then show ?thesis by (simp add: BitMap_get_bit Cons.prems(1))
  qed
  have "BitMap_inv ?m" "col < col_count ?m" "\<forall>x \<in> set rows. x < row_count ?m"
    using Cons.prems by simp_all
  from Cons.IH [OF this] step show ?case by (auto simp: Let_def)
qed

lemma clearCol_get:
  assumes "BitMap_inv m"
  shows "BitMap_inv (clearCol m col)" and "in_map (clearCol m col) r c = in_map m r c"
    and "BitMap_get (clearCol m col) r c = (BitMap_get m r c \<and> c \<noteq> col)"
proof -
  have rng: "BitMap_get m r c \<Longrightarrow> r < row_count m \<and> c < col_count m"
    using assms by (simp add: BitMap_get_bit in_map_def)
  have "BitMap_inv (clearCol m col) \<and> in_map (clearCol m col) r c = in_map m r c \<and>
     BitMap_get (clearCol m col) r c = (BitMap_get m r c \<and> c \<noteq> col)"
  proof (cases "col < col_count m")
    case True
    show ?thesis
    proof (cases "row_count m = 0")
      case True
      with rng show ?thesis using assms by (auto simp: clearCol_def Let_def)
    next
      case False
      then have "in_map m 0 col" using True by (simp add: in_map_def)
      then have "getBitIndex m col \<noteq> 255" using bit_index_eq(2) [OF assms] by fastforce
      then show ?thesis
        using clearCol_from_get [OF assms True, of "[0..<row_count m]" r c] rng
        by (auto simp: clearCol_def Let_def)
    qed
  next
    case False
    with rng show ?thesis using assms by (auto simp: clearCol_def getBitIndex_def Let_def)
  qed
  then show "BitMap_inv (clearCol m col)" and "in_map (clearCol m col) r c = in_map m r c"
    and "BitMap_get (clearCol m col) r c = (BitMap_get m r c \<and> c \<noteq> col)" by blast+
qed

lemma set_seq_size: "col_count (snd (set_seq BitMap_set m rs c)) = col_count m \<and>
    row_count (snd (set_seq BitMap_set m rs c)) = row_count m"
proof (induction rs arbitrary: m)
  case (Cons r rs)
  have "col_count (snd (BitMap_set m r c)) = col_count m \<and> row_count (snd (BitMap_set m r c)) = row_count m"
    by (simp add: BitMap_set_def Let_def)
  with Cons.IH [of "snd (BitMap_set m r c)"] show ?case by (auto split: prod.splits)
qed simp

lemma clearCol_size [simp]: "col_count (clearCol m col) = col_count m" "row_count (clearCol m col) = row_count m"
  "backup_col_count (clearCol m col) = backup_col_count m"
proof -
  have "col_count (clearCol_from m col b rows) = col_count m \<and> row_count (clearCol_from m col b rows) = row_count m \<and>
    backup_col_count (clearCol_from m col b rows) = backup_col_count m" for b rows
    by (induction rows arbitrary: m) (simp_all add: Let_def)
  then show "col_count (clearCol m col) = col_count m" "row_count (clearCol m col) = row_count m"
    "backup_col_count (clearCol m col) = backup_col_count m"
    by (simp_all add: clearCol_def Let_def)
qed

section \<open>Properties\<close>

text \<open>The bitmap is an array of independent bits. Inside the map, \<open>set\<close> succeeds and turns
  on the addressed cell and no other (although eight columns share each byte), and every access
  stays inside the mapped region; outside the map \<open>set\<close> fails without a change; \<open>clearCol\<close> turns
  off its own column and no other cell.\<close>

lemma bitmap_independent_bits:
  assumes inv: "BitMap_inv m"
  shows "(in_map m row col \<longrightarrow> fst (BitMap_set m row col) \<and> getByteIndex m row col < bm_size m \<and>
            BitMap_get (snd (BitMap_set m row col)) r c = (BitMap_get m r c \<or> (r = row \<and> c = col)))
       \<and> (\<not> in_map m row col \<longrightarrow> BitMap_set m row col = (False, m) \<and> \<not> BitMap_get m row col)
       \<and> BitMap_get (clearCol m col) r c = (BitMap_get m r c \<and> c \<noteq> col)"
proof (intro conjI impI)
  assume d: "in_map m row col"
  show "fst (BitMap_set m row col)" by (simp add: BitMap_set_in inv d)
  show "getByteIndex m row col < bm_size m" by (rule byte_index_eq(2) [OF inv d])
  show "BitMap_get (snd (BitMap_set m row col)) r c = (BitMap_get m r c \<or> (r = row \<and> c = col))"
    by (rule BitMap_get_set [OF inv d])
next
  assume d: "\<not> in_map m row col"
  show "BitMap_set m row col = (False, m)" by (rule BitMap_set_out [OF inv d])
  show "\<not> BitMap_get m row col" using d by (simp add: BitMap_get_bit inv)
next
  show "BitMap_get (clearCol m col) r c = (BitMap_get m r c \<and> c \<noteq> col)"
    by (rule clearCol_get(3) [OF inv])
qed

definition example_map :: BitMap where
  "example_map = \<lparr>bitmap = (\<lambda>_. 0), row_count = 3, col_count = 16, backup_col_count = 2, bm_size = 6\<rparr>"

lemma bitmap_independent_bits_example:
  "BitMap_new True 3 14 2 = Inr example_map \<and>
   BitMap_get (snd (BitMap_set example_map 1 9)) 1 9 \<and>
   \<not> BitMap_get (snd (BitMap_set example_map 1 9)) 1 8"
proof -
  have inv: "BitMap_inv example_map"
    by (simp add: BitMap_inv_def example_map_def)
  have d: "in_map example_map 1 9"
    by (simp add: in_map_def example_map_def)
  have g: "\<not> BitMap_get example_map 1 8"
    by (simp add: BitMap_get_def example_map_def)
  have n: "BitMap_new True 3 14 2 = Inr example_map"
    by (simp add: BitMap_new_def example_map_def add64_def mul64_def)
  show ?thesis
    using bitmap_independent_bits [OF inv, of 1 9 1 9] bitmap_independent_bits [OF inv, of 1 9 1 8] d g n
    by simp
qed

end
