(* ===== verification/PrefixBloom.thy ===== *)
theory PrefixBloom
  imports BitMapStore
begin

text \<open>
  The prefix Bloom filter of \<^verbatim>\<open>dpdk_lib/prefixBloomFilter.hpp\<close>. One column of the bitmap holds
  the filter of one index block: exact bits for the ports, and per address the exact bits of its
  leading byte pairs followed by one small Bloom filter per remaining byte, keyed by the bytes
  before it, so that a query for a prefix only looks at the slices the prefix fixes.
  The bitmap is shared by several filters (they differ in the column they write), so it is an
  argument and a result of the operations, with \<open>None\<close> for the null pointer.
  \<open>std::hash\<close> is unspecified by the standard: \<open>h1\<close> stands for the hash of strings and \<open>h2\<close> for
  the hash of 64-bit numbers. Offsets and row numbers are sums of constants below \<open>2 ^ 24\<close>, hence
  plain sums; the hash arithmetic wraps.
\<close>

named_theorems pbf_defs

abbreviation HASH_SEED :: nat where "HASH_SEED \<equiv> 1540483477"
abbreviation SLICE_VALUE_COUNT :: nat where "SLICE_VALUE_COUNT \<equiv> 256"
abbreviation IPV4_BLOOM_LEN :: nat where "IPV4_BLOOM_LEN \<equiv> 1024"
abbreviation IPV6_BLOOM_LEN :: nat where "IPV6_BLOOM_LEN \<equiv> 1024"
abbreviation PORT_BIT_LEN :: nat where "PORT_BIT_LEN \<equiv> 65536"

definition IPV4_BIT_LEN :: nat where
  "IPV4_BIT_LEN = SLICE_VALUE_COUNT * SLICE_VALUE_COUNT * 2 + SLICE_VALUE_COUNT * IPV4_BLOOM_LEN * 2"

definition IPV6_BIT_LEN :: nat where
  "IPV6_BIT_LEN = SLICE_VALUE_COUNT * SLICE_VALUE_COUNT + SLICE_VALUE_COUNT * IPV6_BLOOM_LEN * 14"

lemma bit_len_values [simp]: "IPV4_BIT_LEN = 655360" "IPV6_BIT_LEN = 3735552"
  by (simp_all add: IPV4_BIT_LEN_def IPV6_BIT_LEN_def)

record PrefixBloomFilter =
  pb_k :: nat
  writing_col :: nat
  reading_col :: nat

definition PrefixBloomFilter_init :: "nat \<Rightarrow> PrefixBloomFilter" where
  "PrefixBloomFilter_init numHashFunctions =
     \<lparr>pb_k = numHashFunctions, writing_col = u32_max, reading_col = u32_max\<rparr>"

text \<open>The size the constructor asks for (it only prints a warning when it is not met).\<close>

definition pbf_rows_needed :: nat where
  "pbf_rows_needed = (PORT_BIT_LEN + IPV4_BIT_LEN + IPV6_BIT_LEN) * 2"

definition setWritingCol :: "BitMap option \<Rightarrow> PrefixBloomFilter \<Rightarrow> nat \<Rightarrow> PrefixBloomFilter" where
  "setWritingCol bm f col =
     (case bm of None \<Rightarrow> f
      | Some m \<Rightarrow> if col \<ge> col_count m then f else f\<lparr>writing_col := col\<rparr>)"

definition setReadingCol :: "BitMap option \<Rightarrow> PrefixBloomFilter \<Rightarrow> nat \<Rightarrow> PrefixBloomFilter" where
  "setReadingCol bm f col =
     (case bm of None \<Rightarrow> f
      | Some m \<Rightarrow> if col \<ge> col_count m then f else f\<lparr>reading_col := col\<rparr>)"

definition getWritingCol :: "BitMap option \<Rightarrow> PrefixBloomFilter \<Rightarrow> nat" where
  "getWritingCol bm f = (case bm of None \<Rightarrow> u64_max | Some m \<Rightarrow> writing_col f)"

section \<open>One slice\<close>

definition hashFunction :: "(bytes \<Rightarrow> nat) \<Rightarrow> (nat \<Rightarrow> nat) \<Rightarrow> bytes \<Rightarrow> nat \<Rightarrow> nat" where
  "hashFunction h1 h2 element i = h2 (add64 (h1 element) (mul64 HASH_SEED i))"

text \<open>The row the \<open>i\<close>-th hash of a slice addresses.\<close>

definition bloom_row ::
  "(bytes \<Rightarrow> nat) \<Rightarrow> (nat \<Rightarrow> nat) \<Rightarrow> bytes \<Rightarrow> nat \<Rightarrow> nat \<Rightarrow> nat \<Rightarrow> nat \<Rightarrow> nat" where
  "bloom_row h1 h2 prefix offset byte bloom_len i =
     (let hash_value = hashFunction h1 h2 prefix i mod bloom_len;
          bit_pos = byte * SLICE_VALUE_COUNT + hash_value
      in bit_pos + offset)"

definition setBloom :: "(bytes \<Rightarrow> nat) \<Rightarrow> (nat \<Rightarrow> nat) \<Rightarrow> PrefixBloomFilter \<Rightarrow> BitMap \<Rightarrow>
    bytes \<Rightarrow> nat \<Rightarrow> nat \<Rightarrow> nat \<Rightarrow> bool \<times> BitMap" where
  "setBloom h1 h2 f m prefix offset byte bloom_len =
     set_seq BitMap_set m (map (bloom_row h1 h2 prefix offset byte bloom_len) [0..<pb_k f])
       (writing_col f)"

definition getBloom :: "(bytes \<Rightarrow> nat) \<Rightarrow> (nat \<Rightarrow> nat) \<Rightarrow> PrefixBloomFilter \<Rightarrow> BitMap \<Rightarrow>
    bytes \<Rightarrow> nat \<Rightarrow> nat \<Rightarrow> nat \<Rightarrow> bool" where
  "getBloom h1 h2 f m prefix offset byte bloom_len =
     get_seq BitMap_get m (map (bloom_row h1 h2 prefix offset byte bloom_len) [0..<pb_k f])
       (reading_col f)"

section \<open>IPv4 addresses\<close>

text \<open>Byte \<open>i\<close> of an address, counted from the least significant one, and the two exact rows.\<close>

definition ip_byte :: "32 word \<Rightarrow> nat \<Rightarrow> nat" where
  "ip_byte ip i = unat (drop_bit (8 * i) ip AND 255)"

definition ip_prefix_str :: "32 word \<Rightarrow> nat \<Rightarrow> bytes" where
  "ip_prefix_str ip i = le_encode 4 (unat (drop_bit (8 * (i + 1)) ip))"

fun setIPv4_slices :: "(bytes \<Rightarrow> nat) \<Rightarrow> (nat \<Rightarrow> nat) \<Rightarrow> PrefixBloomFilter \<Rightarrow> BitMap \<Rightarrow>
    32 word \<Rightarrow> nat \<Rightarrow> nat list \<Rightarrow> bool \<times> BitMap" where
  "setIPv4_slices h1 h2 f m ip offset [] = (True, m)"
| "setIPv4_slices h1 h2 f m ip offset (i # is) =
     (let byte = ip_byte ip i; prefix_str = ip_prefix_str ip i in
      case setBloom h1 h2 f m prefix_str
             (offset + SLICE_VALUE_COUNT * SLICE_VALUE_COUNT * 2
                + SLICE_VALUE_COUNT * IPV4_BLOOM_LEN * (4 - i - 3)) byte IPV4_BLOOM_LEN of
        (ok, m') \<Rightarrow> if ok then setIPv4_slices h1 h2 f m' ip offset is else (False, m'))"

definition setIPv4 :: "(bytes \<Rightarrow> nat) \<Rightarrow> (nat \<Rightarrow> nat) \<Rightarrow> PrefixBloomFilter \<Rightarrow> BitMap \<Rightarrow>
    32 word \<Rightarrow> nat \<Rightarrow> bool \<times> BitMap" where
  "setIPv4 h1 h2 f m ip offset =
     (let bit_pos = ip_byte ip 3 * SLICE_VALUE_COUNT + ip_byte ip 2 in
      case BitMap_set m (bit_pos + offset) (writing_col f) of (ok, m1) \<Rightarrow>
      if \<not> ok then (False, m1) else
      let bit_pos = ip_byte ip 1 * SLICE_VALUE_COUNT + ip_byte ip 0 in
      case BitMap_set m1 (bit_pos + offset + SLICE_VALUE_COUNT * SLICE_VALUE_COUNT) (writing_col f) of
        (ok, m2) \<Rightarrow>
      if \<not> ok then (False, m2) else setIPv4_slices h1 h2 f m2 ip offset [1, 0])"

fun checkIPv4_slices :: "(bytes \<Rightarrow> nat) \<Rightarrow> (nat \<Rightarrow> nat) \<Rightarrow> PrefixBloomFilter \<Rightarrow> BitMap \<Rightarrow>
    32 word \<Rightarrow> nat \<Rightarrow> nat list \<Rightarrow> bool" where
  "checkIPv4_slices h1 h2 f m ip offset [] = True"
| "checkIPv4_slices h1 h2 f m ip offset (i # is) =
     (let byte = ip_byte ip i; prefix_str = ip_prefix_str ip i in
      if \<not> getBloom h1 h2 f m prefix_str
             (offset + SLICE_VALUE_COUNT * SLICE_VALUE_COUNT * 2
                + SLICE_VALUE_COUNT * IPV4_BLOOM_LEN * (4 - i - 3)) byte IPV4_BLOOM_LEN
      then False else checkIPv4_slices h1 h2 f m ip offset is)"

definition checkIPv4 :: "(bytes \<Rightarrow> nat) \<Rightarrow> (nat \<Rightarrow> nat) \<Rightarrow> PrefixBloomFilter \<Rightarrow> BitMap \<Rightarrow>
    32 word \<Rightarrow> nat \<Rightarrow> bool" where
  "checkIPv4 h1 h2 f m ip offset =
     (let bit_pos = ip_byte ip 3 * SLICE_VALUE_COUNT + ip_byte ip 2 in
      if \<not> BitMap_get m (bit_pos + offset) (reading_col f) then False else
      let bit_pos = ip_byte ip 1 * SLICE_VALUE_COUNT + ip_byte ip 0 in
      if \<not> BitMap_get m (bit_pos + offset + SLICE_VALUE_COUNT * SLICE_VALUE_COUNT) (reading_col f)
      then False else checkIPv4_slices h1 h2 f m ip offset [1, 0])"

text \<open>The loops that look for any value of the byte a prefix leaves open.\<close>

definition any_slice :: "PrefixBloomFilter \<Rightarrow> BitMap \<Rightarrow> nat \<Rightarrow> nat \<Rightarrow> bool" where
  "any_slice f m byte offset =
     list_ex (\<lambda>i. BitMap_get m (byte * SLICE_VALUE_COUNT + i + offset) (reading_col f))
       [0..<SLICE_VALUE_COUNT]"

text \<open>The query for a prefix of \<open>prefix_len\<close> bytes. For a length above 4 the loop would shift by
  a negative amount, which is undefined: the result is \<open>None\<close> as soon as the loop gets there.
  (Lengths above \<open>2 ^ 31\<close> make the loop bound wrap to a large positive number: no iteration.)\<close>

definition checkIPv4_prefix :: "(bytes \<Rightarrow> nat) \<Rightarrow> (nat \<Rightarrow> nat) \<Rightarrow> PrefixBloomFilter \<Rightarrow> BitMap \<Rightarrow>
    32 word \<Rightarrow> nat \<Rightarrow> nat \<Rightarrow> bool option" where
  "checkIPv4_prefix h1 h2 f m ip offset prefix_len =
     (if prefix_len = 0 then Some True
      else if prefix_len = 1 \<and> any_slice f m (ip_byte ip 3) offset then Some True
      else if \<not> BitMap_get m (ip_byte ip 3 * SLICE_VALUE_COUNT + ip_byte ip 2 + offset) (reading_col f)
      then Some False
      else if prefix_len = 2 then Some True
      else if prefix_len = 3 \<and>
              \<not> any_slice f m (ip_byte ip 1) (offset + SLICE_VALUE_COUNT * SLICE_VALUE_COUNT)
      then Some False
      else if prefix_len = 4 \<and>
              \<not> BitMap_get m (ip_byte ip 1 * SLICE_VALUE_COUNT + ip_byte ip 0 + offset
                    + SLICE_VALUE_COUNT * SLICE_VALUE_COUNT) (reading_col f)
      then Some False
      else if prefix_len \<le> 4
      then Some (checkIPv4_slices h1 h2 f m ip offset (rev [4 - prefix_len..<2]))
      else if prefix_len > 2147483652 then Some True
      else if \<not> checkIPv4_slices h1 h2 f m ip offset [1, 0] then Some False
      else None)"

section \<open>IPv6 addresses\<close>

definition ip6_byte :: "IPv6Address \<Rightarrow> nat \<Rightarrow> nat" where
  "ip6_byte ip i = unat (low (ipv6_shr ip (8 * i)) AND 255)"

definition ip6_prefix_str :: "IPv6Address \<Rightarrow> nat \<Rightarrow> bytes" where
  "ip6_prefix_str ip i =
     (let prefix = ipv6_shr ip (8 * (i + 1))
      in le_encode 8 (unat (low prefix)) @ le_encode 8 (unat (high prefix)))"

fun setIPv6_slices :: "(bytes \<Rightarrow> nat) \<Rightarrow> (nat \<Rightarrow> nat) \<Rightarrow> PrefixBloomFilter \<Rightarrow> BitMap \<Rightarrow>
    IPv6Address \<Rightarrow> nat \<Rightarrow> nat list \<Rightarrow> bool \<times> BitMap" where
  "setIPv6_slices h1 h2 f m ip offset [] = (True, m)"
| "setIPv6_slices h1 h2 f m ip offset (i # is) =
     (let byte = ip6_byte ip i; prefix_str = ip6_prefix_str ip i in
      case setBloom h1 h2 f m prefix_str
             (offset + SLICE_VALUE_COUNT * SLICE_VALUE_COUNT
                + SLICE_VALUE_COUNT * IPV6_BLOOM_LEN * (16 - i - 3)) byte IPV6_BLOOM_LEN of
        (ok, m') \<Rightarrow> if ok then setIPv6_slices h1 h2 f m' ip offset is else (False, m'))"

definition setIPv6 :: "(bytes \<Rightarrow> nat) \<Rightarrow> (nat \<Rightarrow> nat) \<Rightarrow> PrefixBloomFilter \<Rightarrow> BitMap \<Rightarrow>
    IPv6Address \<Rightarrow> nat \<Rightarrow> bool \<times> BitMap" where
  "setIPv6 h1 h2 f m ip offset =
     (let bit_pos = ip6_byte ip 15 * SLICE_VALUE_COUNT + ip6_byte ip 14 in
      case BitMap_set m (bit_pos + offset) (writing_col f) of (ok, m1) \<Rightarrow>
      if \<not> ok then (False, m1) else setIPv6_slices h1 h2 f m1 ip offset (rev [0..<14]))"

fun checkIPv6_slices :: "(bytes \<Rightarrow> nat) \<Rightarrow> (nat \<Rightarrow> nat) \<Rightarrow> PrefixBloomFilter \<Rightarrow> BitMap \<Rightarrow>
    IPv6Address \<Rightarrow> nat \<Rightarrow> nat list \<Rightarrow> bool" where
  "checkIPv6_slices h1 h2 f m ip offset [] = True"
| "checkIPv6_slices h1 h2 f m ip offset (i # is) =
     (let byte = ip6_byte ip i; prefix_str = ip6_prefix_str ip i in
      if \<not> getBloom h1 h2 f m prefix_str
             (offset + SLICE_VALUE_COUNT * SLICE_VALUE_COUNT
                + SLICE_VALUE_COUNT * IPV4_BLOOM_LEN * (16 - i - 3)) byte IPV6_BLOOM_LEN
      then False else checkIPv6_slices h1 h2 f m ip offset is)"

definition checkIPv6 :: "(bytes \<Rightarrow> nat) \<Rightarrow> (nat \<Rightarrow> nat) \<Rightarrow> PrefixBloomFilter \<Rightarrow> BitMap \<Rightarrow>
    IPv6Address \<Rightarrow> nat \<Rightarrow> bool" where
  "checkIPv6 h1 h2 f m ip offset =
     (let bit_pos = ip6_byte ip 15 * SLICE_VALUE_COUNT + ip6_byte ip 14 in
      if \<not> BitMap_get m (bit_pos + offset) (reading_col f) then False
      else checkIPv6_slices h1 h2 f m ip offset (rev [0..<14]))"

text \<open>For lengths above 16 the loop index gets negative and the \<open>unsigned int\<close> shift amount wraps;
  no caller passes such a length, and the model leaves it undefined.\<close>

definition checkIPv6_prefix :: "(bytes \<Rightarrow> nat) \<Rightarrow> (nat \<Rightarrow> nat) \<Rightarrow> PrefixBloomFilter \<Rightarrow> BitMap \<Rightarrow>
    IPv6Address \<Rightarrow> nat \<Rightarrow> nat \<Rightarrow> bool option" where
  "checkIPv6_prefix h1 h2 f m ip offset prefix_len =
     (if prefix_len = 0 then Some True
      else if prefix_len = 1 \<and> any_slice f m (ip6_byte ip 15) offset then Some True
      else if \<not> BitMap_get m (ip6_byte ip 15 * SLICE_VALUE_COUNT + ip6_byte ip 14 + offset) (reading_col f)
      then Some False
      else if prefix_len = 2 then Some True
      else if prefix_len \<le> 16
      then Some (checkIPv6_slices h1 h2 f m ip offset (rev [16 - prefix_len..<14]))
      else None)"

section \<open>The public operations\<close>

definition insertPort :: "PrefixBloomFilter \<Rightarrow> BitMap option \<Rightarrow> 16 word \<Rightarrow> IndexType \<Rightarrow> bool \<times> BitMap option" where
  "insertPort f bm port t =
     (case bm of None \<Rightarrow> (False, None)
      | Some m \<Rightarrow>
        (case t of
           SRCPORT \<Rightarrow> map_prod id Some (BitMap_set m (unat port) (writing_col f))
         | DSTPORT \<Rightarrow> map_prod id Some (BitMap_set m (PORT_BIT_LEN + unat port) (writing_col f))
         | _ \<Rightarrow> (False, bm)))"

definition insertIPv4 :: "(bytes \<Rightarrow> nat) \<Rightarrow> (nat \<Rightarrow> nat) \<Rightarrow> PrefixBloomFilter \<Rightarrow> BitMap option \<Rightarrow>
    32 word \<Rightarrow> IndexType \<Rightarrow> bool \<times> BitMap option" where
  "insertIPv4 h1 h2 f bm ip t =
     (case bm of None \<Rightarrow> (False, None)
      | Some m \<Rightarrow>
        (case t of
           SRCIP \<Rightarrow> map_prod id Some (setIPv4 h1 h2 f m ip (PORT_BIT_LEN * 2))
         | DSTIP \<Rightarrow> map_prod id Some (setIPv4 h1 h2 f m ip (PORT_BIT_LEN * 2 + IPV4_BIT_LEN))
         | _ \<Rightarrow> (False, bm)))"

definition insertIPv6 :: "(bytes \<Rightarrow> nat) \<Rightarrow> (nat \<Rightarrow> nat) \<Rightarrow> PrefixBloomFilter \<Rightarrow> BitMap option \<Rightarrow>
    IPv6Address \<Rightarrow> IndexType \<Rightarrow> bool \<times> BitMap option" where
  "insertIPv6 h1 h2 f bm ip t =
     (case bm of None \<Rightarrow> (False, None)
      | Some m \<Rightarrow>
        (case t of
           SRCIPv6 \<Rightarrow> map_prod id Some (setIPv6 h1 h2 f m ip (PORT_BIT_LEN * 2 + IPV4_BIT_LEN * 2))
         | DSTIPv6 \<Rightarrow> map_prod id Some
             (setIPv6 h1 h2 f m ip (PORT_BIT_LEN * 2 + IPV4_BIT_LEN * 2 + IPV6_BIT_LEN))
         | _ \<Rightarrow> (False, bm)))"

definition getPort :: "PrefixBloomFilter \<Rightarrow> BitMap option \<Rightarrow> 16 word \<Rightarrow> IndexType \<Rightarrow> bool" where
  "getPort f bm port t =
     (case bm of None \<Rightarrow> False
      | Some m \<Rightarrow>
        (case t of
           SRCPORT \<Rightarrow> BitMap_get m (unat port) (reading_col f)
         | DSTPORT \<Rightarrow> BitMap_get m (PORT_BIT_LEN + unat port) (reading_col f)
         | _ \<Rightarrow> False))"

definition getIPv4 :: "(bytes \<Rightarrow> nat) \<Rightarrow> (nat \<Rightarrow> nat) \<Rightarrow> PrefixBloomFilter \<Rightarrow> BitMap option \<Rightarrow>
    32 word \<Rightarrow> IndexType \<Rightarrow> bool" where
  "getIPv4 h1 h2 f bm ip t =
     (case bm of None \<Rightarrow> False
      | Some m \<Rightarrow>
        (case t of
           SRCIP \<Rightarrow> checkIPv4 h1 h2 f m ip (PORT_BIT_LEN * 2)
         | DSTIP \<Rightarrow> checkIPv4 h1 h2 f m ip (PORT_BIT_LEN * 2 + IPV4_BIT_LEN)
         | _ \<Rightarrow> False))"

definition getIPv4_prefix :: "(bytes \<Rightarrow> nat) \<Rightarrow> (nat \<Rightarrow> nat) \<Rightarrow> PrefixBloomFilter \<Rightarrow> BitMap option \<Rightarrow>
    32 word \<Rightarrow> IndexType \<Rightarrow> nat \<Rightarrow> bool option" where
  "getIPv4_prefix h1 h2 f bm ip t prefix_len =
     (case bm of None \<Rightarrow> Some False
      | Some m \<Rightarrow>
        (case t of
           SRCIP \<Rightarrow> checkIPv4_prefix h1 h2 f m ip (PORT_BIT_LEN * 2) prefix_len
         | DSTIP \<Rightarrow> checkIPv4_prefix h1 h2 f m ip (PORT_BIT_LEN * 2 + IPV4_BIT_LEN) prefix_len
         | _ \<Rightarrow> Some False))"

definition getIPv6 :: "(bytes \<Rightarrow> nat) \<Rightarrow> (nat \<Rightarrow> nat) \<Rightarrow> PrefixBloomFilter \<Rightarrow> BitMap option \<Rightarrow>
    IPv6Address \<Rightarrow> IndexType \<Rightarrow> bool" where
  "getIPv6 h1 h2 f bm ip t =
     (case bm of None \<Rightarrow> False
      | Some m \<Rightarrow>
        (case t of
           SRCIPv6 \<Rightarrow> checkIPv6 h1 h2 f m ip (PORT_BIT_LEN * 2 + IPV4_BIT_LEN * 2)
         | DSTIPv6 \<Rightarrow> checkIPv6 h1 h2 f m ip (PORT_BIT_LEN * 2 + IPV4_BIT_LEN * 2 + IPV6_BIT_LEN)
         | _ \<Rightarrow> False))"

definition getIPv6_prefix :: "(bytes \<Rightarrow> nat) \<Rightarrow> (nat \<Rightarrow> nat) \<Rightarrow> PrefixBloomFilter \<Rightarrow> BitMap option \<Rightarrow>
    IPv6Address \<Rightarrow> IndexType \<Rightarrow> nat \<Rightarrow> bool option" where
  "getIPv6_prefix h1 h2 f bm ip t prefix_len =
     (case bm of None \<Rightarrow> Some False
      | Some m \<Rightarrow>
        (case t of
           SRCIPv6 \<Rightarrow> checkIPv6_prefix h1 h2 f m ip (PORT_BIT_LEN * 2 + IPV4_BIT_LEN * 2) prefix_len
         | DSTIPv6 \<Rightarrow>
             checkIPv6_prefix h1 h2 f m ip (PORT_BIT_LEN * 2 + IPV4_BIT_LEN * 2 + IPV6_BIT_LEN) prefix_len
         | _ \<Rightarrow> Some False))"

section \<open>Each operation is a sequence of rows\<close>

definition ipv4_rows :: "(bytes \<Rightarrow> nat) \<Rightarrow> (nat \<Rightarrow> nat) \<Rightarrow> nat \<Rightarrow> 32 word \<Rightarrow> nat \<Rightarrow> nat list \<Rightarrow> nat list" where
  "ipv4_rows h1 h2 k ip offset is =
     concat (map (\<lambda>i. map (bloom_row h1 h2 (ip_prefix_str ip i)
        (offset + 131072 + 262144 * (4 - i - 3)) (ip_byte ip i) 1024) [0..<k]) is)"

definition ipv6_rows :: "(bytes \<Rightarrow> nat) \<Rightarrow> (nat \<Rightarrow> nat) \<Rightarrow> nat \<Rightarrow> IPv6Address \<Rightarrow> nat \<Rightarrow> nat list \<Rightarrow> nat list" where
  "ipv6_rows h1 h2 k ip offset is =
     concat (map (\<lambda>i. map (bloom_row h1 h2 (ip6_prefix_str ip i)
        (offset + 65536 + 262144 * (16 - i - 3)) (ip6_byte ip i) 1024) [0..<k]) is)"

definition ipv4_all_rows :: "(bytes \<Rightarrow> nat) \<Rightarrow> (nat \<Rightarrow> nat) \<Rightarrow> nat \<Rightarrow> 32 word \<Rightarrow> nat \<Rightarrow> nat list" where
  "ipv4_all_rows h1 h2 k ip offset =
     [ip_byte ip 3 * 256 + ip_byte ip 2 + offset, ip_byte ip 1 * 256 + ip_byte ip 0 + offset + 65536]
       @ ipv4_rows h1 h2 k ip offset [1, 0]"

definition ipv6_all_rows :: "(bytes \<Rightarrow> nat) \<Rightarrow> (nat \<Rightarrow> nat) \<Rightarrow> nat \<Rightarrow> IPv6Address \<Rightarrow> nat \<Rightarrow> nat list" where
  "ipv6_all_rows h1 h2 k ip offset =
     (ip6_byte ip 15 * 256 + ip6_byte ip 14 + offset) # ipv6_rows h1 h2 k ip offset (rev [0..<14])"

lemma setIPv4_slices_seq:
  "setIPv4_slices h1 h2 f m ip offset is =
     set_seq BitMap_set m (ipv4_rows h1 h2 (pb_k f) ip offset is) (writing_col f)"
  by (induction "is" arbitrary: m)
     (auto simp: ipv4_rows_def setBloom_def set_seq_append Let_def split: prod.splits)

lemma setIPv4_seq:
  "setIPv4 h1 h2 f m ip offset =
     set_seq BitMap_set m (ipv4_all_rows h1 h2 (pb_k f) ip offset) (writing_col f)"
  by (auto simp: setIPv4_def ipv4_all_rows_def setIPv4_slices_seq Let_def split: prod.splits)

lemma checkIPv4_slices_seq:
  "checkIPv4_slices h1 h2 f m ip offset is =
     get_seq BitMap_get m (ipv4_rows h1 h2 (pb_k f) ip offset is) (reading_col f)"
  by (induction "is") (auto simp: ipv4_rows_def getBloom_def get_seq_append Let_def)

lemma checkIPv4_seq:
  "checkIPv4 h1 h2 f m ip offset =
     get_seq BitMap_get m (ipv4_all_rows h1 h2 (pb_k f) ip offset) (reading_col f)"
  by (auto simp: checkIPv4_def ipv4_all_rows_def checkIPv4_slices_seq Let_def)

lemma setIPv6_slices_seq:
  "setIPv6_slices h1 h2 f m ip offset is =
     set_seq BitMap_set m (ipv6_rows h1 h2 (pb_k f) ip offset is) (writing_col f)"
  by (induction "is" arbitrary: m)
     (auto simp: ipv6_rows_def setBloom_def set_seq_append Let_def split: prod.splits)

lemma setIPv6_seq:
  "setIPv6 h1 h2 f m ip offset =
     set_seq BitMap_set m (ipv6_all_rows h1 h2 (pb_k f) ip offset) (writing_col f)"
  by (auto simp: setIPv6_def ipv6_all_rows_def setIPv6_slices_seq Let_def split: prod.splits)

lemma checkIPv6_slices_seq:
  "checkIPv6_slices h1 h2 f m ip offset is =
     get_seq BitMap_get m (ipv6_rows h1 h2 (pb_k f) ip offset is) (reading_col f)"
  by (induction "is") (auto simp: ipv6_rows_def getBloom_def get_seq_append Let_def)

lemma checkIPv6_seq:
  "checkIPv6 h1 h2 f m ip offset =
     get_seq BitMap_get m (ipv6_all_rows h1 h2 (pb_k f) ip offset) (reading_col f)"
  by (auto simp: checkIPv6_def ipv6_all_rows_def checkIPv6_slices_seq Let_def)


section \<open>Keys, regions and histories\<close>

datatype filter_key = KPort "16 word" | KIPv4 "32 word" | KIPv6 IPv6Address

definition pbf_insert :: "(bytes \<Rightarrow> nat) \<Rightarrow> (nat \<Rightarrow> nat) \<Rightarrow> PrefixBloomFilter \<Rightarrow> BitMap option \<Rightarrow>
    filter_key \<Rightarrow> IndexType \<Rightarrow> bool \<times> BitMap option" where
  "pbf_insert h1 h2 f bm key t =
     (case key of KPort p \<Rightarrow> insertPort f bm p t
      | KIPv4 ip \<Rightarrow> insertIPv4 h1 h2 f bm ip t
      | KIPv6 ip \<Rightarrow> insertIPv6 h1 h2 f bm ip t)"

definition pbf_contains :: "(bytes \<Rightarrow> nat) \<Rightarrow> (nat \<Rightarrow> nat) \<Rightarrow> PrefixBloomFilter \<Rightarrow> BitMap option \<Rightarrow>
    filter_key \<Rightarrow> IndexType \<Rightarrow> bool" where
  "pbf_contains h1 h2 f bm key t =
     (case key of KPort p \<Rightarrow> getPort f bm p t
      | KIPv4 ip \<Rightarrow> getIPv4 h1 h2 f bm ip t
      | KIPv6 ip \<Rightarrow> getIPv6 h1 h2 f bm ip t)"

text \<open>What happens to the shared bitmap over time: filters of all columns insert, and the columns
  of recycled blocks are cleared.\<close>

datatype filter_op = Insert PrefixBloomFilter filter_key IndexType | ClearCol nat

fun run_filter_op :: "(bytes \<Rightarrow> nat) \<Rightarrow> (nat \<Rightarrow> nat) \<Rightarrow> filter_op \<Rightarrow> BitMap \<Rightarrow> BitMap" where
  "run_filter_op h1 h2 (Insert f key t) m = the (snd (pbf_insert h1 h2 f (Some m) key t))"
| "run_filter_op h1 h2 (ClearCol col) m = clearCol m col"

definition key_fits :: "filter_key \<Rightarrow> IndexType \<Rightarrow> bool" where
  "key_fits key t =
     (case key of KPort _ \<Rightarrow> t = SRCPORT \<or> t = DSTPORT
      | KIPv4 _ \<Rightarrow> t = SRCIP \<or> t = DSTIP
      | KIPv6 _ \<Rightarrow> t = SRCIPv6 \<or> t = DSTIPv6)"

fun region_base :: "IndexType \<Rightarrow> nat" where
  "region_base SRCPORT = 0"
| "region_base DSTPORT = 65536"
| "region_base SRCIP = 131072"
| "region_base DSTIP = 786432"
| "region_base SRCIPv6 = 1441792"
| "region_base DSTIPv6 = 5177344"
| "region_base TOTAL_INDEX = 8912896"

fun region_end :: "IndexType \<Rightarrow> nat" where
  "region_end SRCPORT = 65536"
| "region_end DSTPORT = 131072"
| "region_end SRCIP = 786432"
| "region_end DSTIP = 1441792"
| "region_end SRCIPv6 = 5177344"
| "region_end DSTIPv6 = 8912896"
| "region_end TOTAL_INDEX = 8912896"

definition key_rows :: "(bytes \<Rightarrow> nat) \<Rightarrow> (nat \<Rightarrow> nat) \<Rightarrow> nat \<Rightarrow> filter_key \<Rightarrow> IndexType \<Rightarrow> nat list" where
  "key_rows h1 h2 k key t =
     (case key of KPort p \<Rightarrow> [region_base t + unat p]
      | KIPv4 ip \<Rightarrow> ipv4_all_rows h1 h2 k ip (region_base t)
      | KIPv6 ip \<Rightarrow> ipv6_all_rows h1 h2 k ip (region_base t))"

lemma set_seq_one: "set_seq set1 s [r] c = set1 s r c"
  by (simp split: prod.splits)

lemma pbf_insert_seq:
  "pbf_insert h1 h2 f (Some m) key t =
     (if key_fits key t
      then map_prod id Some (set_seq BitMap_set m (key_rows h1 h2 (pb_k f) key t) (writing_col f))
      else (False, Some m))"
  by (cases key; cases t)
     (simp_all add: pbf_insert_def insertPort_def insertIPv4_def insertIPv6_def key_fits_def
        key_rows_def setIPv4_seq setIPv6_seq set_seq_one del: set_seq.simps)

lemma pbf_contains_seq:
  "pbf_contains h1 h2 f (Some m) key t \<longleftrightarrow>
     key_fits key t \<and> get_seq BitMap_get m (key_rows h1 h2 (pb_k f) key t) (reading_col f)"
  by (cases key; cases t)
     (simp_all add: pbf_contains_def getPort_def getIPv4_def getIPv6_def key_fits_def
        key_rows_def checkIPv4_seq checkIPv6_seq)

lemma and_255_less: "unat ((w :: 'a :: len word) AND 255) < 256"
proof -
  have "(w AND 255) \<le> 255" by (rule word_and_le1)
  then have "unat (w AND 255) \<le> unat (255 :: 'a word)" by (simp add: word_le_nat_alt)
  also have "\<dots> \<le> 255" by (simp add: unsigned_numeral take_bit_nat_less_eq_self)
  finally show ?thesis by simp
qed

lemma ip_byte_less: "ip_byte ip i < 256" "ip6_byte a i < 256"
  by (simp_all add: ip_byte_def ip6_byte_def and_255_less)

lemma bloom_row_bounds:
  assumes "byte < 256"
  shows "offset \<le> bloom_row h1 h2 prefix offset byte 1024 i"
    and "bloom_row h1 h2 prefix offset byte 1024 i < offset + 66304"
proof -
  have "hashFunction h1 h2 prefix i mod 1024 < 1024" by simp
  then show "bloom_row h1 h2 prefix offset byte 1024 i < offset + 66304"
    and "offset \<le> bloom_row h1 h2 prefix offset byte 1024 i"
    using assms unfolding bloom_row_def Let_def by linarith+
qed

lemma in_slice_rows:
  "r \<in> set (concat (map (\<lambda>i. map (g i) [0..<k]) is)) \<longleftrightarrow>
     (\<exists>i j. i \<in> set is \<and> j < k \<and> r = g i j)"
  by fastforce

lemma in_ipv4_rows:
  "r \<in> set (ipv4_rows h1 h2 k ip offset is) \<longleftrightarrow>
     (\<exists>i j. i \<in> set is \<and> j < k \<and> r = bloom_row h1 h2 (ip_prefix_str ip i)
        (offset + 131072 + 262144 * (4 - i - 3)) (ip_byte ip i) 1024 j)"
  unfolding ipv4_rows_def by (rule in_slice_rows)

lemma ipv4_rows_bounds:
  assumes "r \<in> set (ipv4_all_rows h1 h2 k ip offset)"
  shows "offset \<le> r \<and> r < offset + 655360"
proof -
  have b: "ip_byte ip i < 256" for i by (rule ip_byte_less)
  from assms consider "r = ip_byte ip 3 * 256 + ip_byte ip 2 + offset"
    | "r = ip_byte ip 1 * 256 + ip_byte ip 0 + offset + 65536"
    | i j where "i \<in> set [1, 0]" "r = bloom_row h1 h2 (ip_prefix_str ip i)
        (offset + 131072 + 262144 * (4 - i - 3)) (ip_byte ip i) 1024 j"
    by (auto simp: ipv4_all_rows_def in_ipv4_rows simp del: One_nat_def)
  then show ?thesis
  proof cases
    case 1
    then show ?thesis using b [of 3] b [of 2] by linarith
  next
    case 2
    then show ?thesis using b [of 1] b [of 0] by linarith
  next
    case (3 i j)
    have "4 - i - 3 \<le> 1" by simp
    then show ?thesis
      using bloom_row_bounds [OF b [of i], where offset = "offset + 131072 + 262144 * (4 - i - 3)"
          and prefix = "ip_prefix_str ip i" and i = j and ?h1.0 = h1 and ?h2.0 = h2] unfolding 3(2) by linarith
  qed
qed

lemma ipv6_rows_bounds:
  assumes "r \<in> set (ipv6_all_rows h1 h2 k ip offset)"
  shows "offset \<le> r \<and> r < offset + 3735552"
proof -
  have b: "ip6_byte ip i < 256" for i by (rule ip_byte_less)
  from assms consider "r = ip6_byte ip 15 * 256 + ip6_byte ip 14 + offset"
    | i j where "i < 14" "r = bloom_row h1 h2 (ip6_prefix_str ip i)
        (offset + 65536 + 262144 * (16 - i - 3)) (ip6_byte ip i) 1024 j"
    by (auto simp: ipv6_all_rows_def ipv6_rows_def)
  then show ?thesis
  proof cases
    case 1
    then show ?thesis using b [of 15] b [of 14] by linarith
  next
    case (2 i j)
    have "16 - i - 3 \<le> 13" by simp
    then show ?thesis
      using bloom_row_bounds [OF b [of i], where offset = "offset + 65536 + 262144 * (16 - i - 3)"
          and prefix = "ip6_prefix_str ip i" and i = j and ?h1.0 = h1 and ?h2.0 = h2] unfolding 2(2) by linarith
  qed
qed

text \<open>Every key stays inside the region of its index type, and the regions are disjoint.\<close>

lemma key_rows_region:
  assumes "key_fits key t" and "r \<in> set (key_rows h1 h2 k key t)"
  shows "region_base t \<le> r \<and> r < region_end t"
proof (cases key)
  case (KPort p)
  have "unat p < 65536" using unsigned_less [of p] by simp
  with KPort assms show ?thesis by (auto simp: key_rows_def key_fits_def)
next
  case (KIPv4 ip)
  with assms have "region_base t \<le> r \<and> r < region_base t + 655360"
    using ipv4_rows_bounds by (auto simp: key_rows_def)
  with KIPv4 assms show ?thesis by (auto simp: key_fits_def)
next
  case (KIPv6 ip)
  with assms have "region_base t \<le> r \<and> r < region_base t + 3735552"
    using ipv6_rows_bounds by (auto simp: key_rows_def)
  with KIPv6 assms show ?thesis by (auto simp: key_fits_def)
qed

lemma regions_disjoint:
  "t \<noteq> t' \<Longrightarrow> region_base t \<le> r \<Longrightarrow> r < region_end t \<Longrightarrow> region_base t' \<le> r \<Longrightarrow> r < region_end t' \<Longrightarrow> False"
  by (cases t; cases t') simp_all

lemma key_rows_nonempty: "key_rows h1 h2 k key t \<noteq> []"
  by (cases key) (simp_all add: key_rows_def ipv4_all_rows_def ipv6_all_rows_def)

lemma run_filter_op_step:
  assumes "BitMap_inv m"
  shows "BitMap_inv (run_filter_op h1 h2 op m)"
    and "get_seq BitMap_get m rows c \<Longrightarrow> op \<noteq> ClearCol c \<Longrightarrow>
           get_seq BitMap_get (run_filter_op h1 h2 op m) rows c"
  using assms
  by (cases op; auto simp: pbf_insert_seq clearCol_get bms.set_seq_inv get_seq_all bms.set_seq_mono)+

lemma run_filter_ops:
  assumes "BitMap_inv m" and "get_seq BitMap_get m rows c" and "ClearCol c \<notin> set ops"
  shows "get_seq BitMap_get (fold (run_filter_op h1 h2) ops m) rows c"
  using assms
proof (induction ops arbitrary: m)
  case Nil
  then show ?case by simp
next
  case (Cons op ops)
  from Cons.prems(3) have "op \<noteq> ClearCol c" "ClearCol c \<notin> set ops" by auto
  with Cons.IH [OF run_filter_op_step(1) [OF Cons.prems(1)]]
       run_filter_op_step(2) [OF Cons.prems(1,2)]
  show ?case by simp
qed

lemma pbf_insert_contains:
  assumes "BitMap_inv m" and "fst (pbf_insert h1 h2 f (Some m) key t)"
  shows "key_fits key t"
    and "BitMap_inv (the (snd (pbf_insert h1 h2 f (Some m) key t)))"
    and "get_seq BitMap_get (the (snd (pbf_insert h1 h2 f (Some m) key t)))
           (key_rows h1 h2 (pb_k f) key t) (writing_col f)"
  using assms
  by (auto simp: pbf_insert_seq bms.set_seq_inv bms.set_then_get_seq split: if_splits)

lemma pbf_insert_succeeds:
  assumes inv: "BitMap_inv m" and rows: "pbf_rows_needed \<le> row_count m"
  shows "fst (pbf_insert h1 h2 f (Some m) key t) \<longleftrightarrow> key_fits key t \<and> writing_col f < col_count m"
proof (cases "key_fits key t")
  case True
  have "region_end t \<le> row_count m"
    using rows by (cases t) (simp_all add: pbf_rows_needed_def)
  then have "r < row_count m" if "r \<in> set (key_rows h1 h2 (pb_k f) key t)" for r
    using key_rows_region [OF True that] by simp
  then have "(\<forall>r \<in> set (key_rows h1 h2 (pb_k f) key t). in_map m r (writing_col f))
      \<longleftrightarrow> writing_col f < col_count m"
    using hd_in_set [OF key_rows_nonempty [of h1 h2 "pb_k f" key t]]
    unfolding in_map_def by blast
  then show ?thesis using True by (simp add: pbf_insert_seq bms.set_seq_ok [OF inv])
next
  case False
  then show ?thesis by (simp add: pbf_insert_seq)
qed

section \<open>Prefix queries\<close>

lemma any_slice_iff:
  "any_slice f m b offset \<longleftrightarrow> (\<exists>i<256. BitMap_get m (b * 256 + i + offset) (reading_col f))"
  by (auto simp: any_slice_def list_ex_iff)

lemma drop_bit_agree:
  assumes "drop_bit s (a :: 'a :: len word) = drop_bit s b" and "s \<le> t"
  shows "drop_bit t a = drop_bit t b"
proof -
  have e: "drop_bit t w = drop_bit (t - s) (drop_bit s w)" for w :: "'a word"
    using assms(2) by (simp add: drop_bit_drop_bit)
  show ?thesis by (simp only: e [of a] e [of b] assms(1))
qed

lemma ip_agree:
  assumes "drop_bit (8 * (4 - p)) ip' = drop_bit (8 * (4 - p)) (ip :: 32 word)" and "4 - p \<le> i"
  shows "ip_byte ip' i = ip_byte ip i" and "ip_prefix_str ip' i = ip_prefix_str ip i"
proof -
  have "drop_bit (8 * i) ip' = drop_bit (8 * i) ip"
    by (rule drop_bit_agree [OF assms(1)]) (use assms(2) in simp)
  moreover have "drop_bit (8 * (i + 1)) ip' = drop_bit (8 * (i + 1)) ip"
    by (rule drop_bit_agree [OF assms(1)]) (use assms(2) in simp)
  ultimately show "ip_byte ip' i = ip_byte ip i" and "ip_prefix_str ip' i = ip_prefix_str ip i"
    unfolding ip_byte_def ip_prefix_str_def by (simp_all only:)
qed

lemma ip6_agree:
  assumes "ipv6_shr ip' (8 * (16 - p)) = ipv6_shr ip (8 * (16 - p))" and "16 - p \<le> i"
  shows "ip6_byte ip' i = ip6_byte ip i" and "ip6_prefix_str ip' i = ip6_prefix_str ip i"
proof -
  have "ipv6_shr ip' (8 * i) = ipv6_shr ip (8 * i)"
    by (rule ipv6_shr_agree [OF assms(1)]) (use assms(2) in simp)
  moreover have "ipv6_shr ip' (8 * (i + 1)) = ipv6_shr ip (8 * (i + 1))"
    by (rule ipv6_shr_agree [OF assms(1)]) (use assms(2) in simp)
  ultimately show "ip6_byte ip' i = ip6_byte ip i" and "ip6_prefix_str ip' i = ip6_prefix_str ip i"
    unfolding ip6_byte_def ip6_prefix_str_def by (simp_all only:)
qed

lemma checkIPv4_slices_sub:
  assumes "checkIPv4_slices h1 h2 f m ip offset is" and "set js \<subseteq> set is"
    and "\<forall>j \<in> set js. ip_byte ip' j = ip_byte ip j \<and> ip_prefix_str ip' j = ip_prefix_str ip j"
  shows "checkIPv4_slices h1 h2 f m ip' offset js"
  using assms unfolding checkIPv4_slices_seq get_seq_all in_ipv4_rows Ball_def
  by (metis subsetD)

lemma in_ipv6_rows:
  "r \<in> set (ipv6_rows h1 h2 k ip offset is) \<longleftrightarrow>
     (\<exists>i j. i \<in> set is \<and> j < k \<and> r = bloom_row h1 h2 (ip6_prefix_str ip i)
        (offset + 65536 + 262144 * (16 - i - 3)) (ip6_byte ip i) 1024 j)"
  unfolding ipv6_rows_def by (rule in_slice_rows)

lemma checkIPv6_slices_sub:
  assumes "checkIPv6_slices h1 h2 f m ip offset is" and "set js \<subseteq> set is"
    and "\<forall>j \<in> set js. ip6_byte ip' j = ip6_byte ip j \<and> ip6_prefix_str ip' j = ip6_prefix_str ip j"
  shows "checkIPv6_slices h1 h2 f m ip' offset js"
  using assms unfolding checkIPv6_slices_seq get_seq_all in_ipv6_rows Ball_def
  by (metis subsetD)

lemma checkIPv4_prefix_of_check:
  assumes c: "checkIPv4 h1 h2 f m ip offset" and p: "p \<le> 4"
    and agree: "drop_bit (8 * (4 - p)) ip' = drop_bit (8 * (4 - p)) ip"
  shows "checkIPv4_prefix h1 h2 f m ip' offset p = Some True"
proof -
  let ?g = "\<lambda>r. BitMap_get m r (reading_col f)"
  from c have g1: "?g (ip_byte ip 3 * 256 + ip_byte ip 2 + offset)"
    and g2: "?g (ip_byte ip 1 * 256 + ip_byte ip 0 + offset + 65536)"
    and sl: "checkIPv4_slices h1 h2 f m ip offset [1, 0]"
    by (simp_all add: checkIPv4_def Let_def split: if_splits)
  note ag = ip_agree [OF agree]
  have "checkIPv4_slices h1 h2 f m ip' offset (rev [4 - p..<2])"
    by (rule checkIPv4_slices_sub [OF sl]) (auto simp: ag)
  note sub = this
  from p consider "p = 0" | "p = 1" | "p = 2" | "p = 3" | "p = 4" by linarith
  then show ?thesis
  proof cases
    case 2
    have "any_slice f m (ip_byte ip' 3) offset"
      using g1 ag(1) [of 3] ip_byte_less(1) [of ip 2] 2 by (auto simp: any_slice_iff)
    with 2 show ?thesis by (simp add: checkIPv4_prefix_def)
  next
    case 3
    then show ?thesis using g1 ag(1) [of 3] ag(1) [of 2] by (simp add: checkIPv4_prefix_def)
  next
    case 4
    have "any_slice f m (ip_byte ip' 1) (offset + 65536)"
      using g2 ag(1) [of 1] ip_byte_less(1) [of ip 0] 4
      by (auto simp: any_slice_iff ac_simps intro!: exI [of _ "ip_byte ip 0"])
    with 4 sub show ?thesis
      using g1 ag(1) [of 3] ag(1) [of 2] by (simp add: checkIPv4_prefix_def)
  next
    case 5
    with sub show ?thesis
      using g1 g2 ag(1) [of 3] ag(1) [of 2] ag(1) [of 1] ag(1) [of 0]
      by (simp add: checkIPv4_prefix_def ac_simps)
  qed (simp add: checkIPv4_prefix_def)
qed

lemma checkIPv6_prefix_of_check:
  assumes c: "checkIPv6 h1 h2 f m ip offset" and p: "p \<le> 16"
    and agree: "ipv6_shr ip' (8 * (16 - p)) = ipv6_shr ip (8 * (16 - p))"
  shows "checkIPv6_prefix h1 h2 f m ip' offset p = Some True"
proof -
  from c have g1: "BitMap_get m (ip6_byte ip 15 * 256 + ip6_byte ip 14 + offset) (reading_col f)"
    and sl: "checkIPv6_slices h1 h2 f m ip offset (rev [0..<14])"
    by (simp_all add: checkIPv6_def Let_def split: if_splits)
  note ag = ip6_agree [OF agree]
  have "checkIPv6_slices h1 h2 f m ip' offset (rev [16 - p..<14])"
    by (rule checkIPv6_slices_sub [OF sl]) (auto simp: ag)
  note sub = this
  from p consider "p = 0" | "p = 1" | "p \<ge> 2" by linarith
  then show ?thesis
  proof cases
    case 2
    have "any_slice f m (ip6_byte ip' 15) offset"
      using g1 ag(1) [of 15] ip_byte_less(2) [of ip 14] 2 by (auto simp: any_slice_iff)
    with 2 show ?thesis by (simp add: checkIPv6_prefix_def)
  next
    case 3
    then show ?thesis using g1 ag(1) [of 15] ag(1) [of 14] sub p by (simp add: checkIPv6_prefix_def)
  qed (simp add: checkIPv6_prefix_def)
qed

section \<open>Properties\<close>

text \<open>C13: no false negatives. Once an insertion of a key has reported success in the column the
  filter writes, a filter that reads this column finds the key, whatever is inserted afterwards
  by any filter in any column and whatever other columns are cleared.\<close>

theorem pbf_no_false_negative:
  assumes inv: "BitMap_inv m"
    and ins: "fst (pbf_insert h1 h2 f (Some m) key t)"
    and same: "pb_k g = pb_k f" "reading_col g = writing_col f"
    and kept: "ClearCol (writing_col f) \<notin> set ops"
  shows "pbf_contains h1 h2 g
           (Some (fold (run_filter_op h1 h2) ops (the (snd (pbf_insert h1 h2 f (Some m) key t))))) key t"
  using run_filter_ops [OF pbf_insert_contains(2,3) [OF inv ins] kept] pbf_insert_contains(1) [OF inv ins]
  by (simp add: pbf_contains_seq same)

text \<open>C26: isolation. An insertion for one index type changes no answer for another index type, in
  any column, and no answer at all in a column it does not write; this holds for all hash
  functions, and also when the insertion fails half way.\<close>

theorem pbf_isolated:
  assumes inv: "BitMap_inv m" and other: "t' \<noteq> t \<or> reading_col g \<noteq> writing_col f"
  shows "pbf_contains h1 h2 g (snd (pbf_insert h1 h2 f (Some m) key t)) key' t'
           = pbf_contains h1 h2 g (Some m) key' t'"
proof (cases "key_fits key t \<and> key_fits key' t'")
  case True
  let ?s = "set_seq BitMap_set m (key_rows h1 h2 (pb_k f) key t) (writing_col f)"
  have "BitMap_get (snd ?s) r (reading_col g) = BitMap_get m r (reading_col g)"
    if "r \<in> set (key_rows h1 h2 (pb_k g) key' t')" for r
  proof (rule bms.set_seq_frame [OF inv])
    show "r \<notin> set (key_rows h1 h2 (pb_k f) key t) \<or> reading_col g \<noteq> writing_col f"
      using other key_rows_region that True regions_disjoint by blast
  qed
  then show ?thesis using True by (simp add: pbf_insert_seq pbf_contains_seq get_seq_all)
next
  case False
  then show ?thesis by (auto simp: pbf_insert_seq pbf_contains_seq)
qed

text \<open>An insertion of a key under an index type that fits it succeeds exactly when the
  writing column exists, provided the bitmap has the rows the constructor asks for; the sentinel
  column of a filter that was never given one is refused.\<close>

lemma pbf_insert_total:
  assumes inv: "BitMap_inv m" and rows: "pbf_rows_needed \<le> row_count m"
  shows "fst (pbf_insert h1 h2 f (Some m) key t) \<longleftrightarrow> key_fits key t \<and> writing_col f < col_count m"
  by (rule pbf_insert_succeeds [OF inv rows])

text \<open>Prefix queries. Whenever the filter reports an IPv4 or IPv6 address, it also reports
  every prefix of that address, for each number of whole bytes (0 to 4, or 0 to 16), whatever the
  bits of the query behind the prefix are; in particular no prefix query of a stored address
  reaches the undefined shift.\<close>

lemma pbf_prefix_query:
  "(getIPv4 h1 h2 f bm ip t \<and> p \<le> 4 \<and> drop_bit (8 * (4 - p)) ip' = drop_bit (8 * (4 - p)) ip
            \<longrightarrow> getIPv4_prefix h1 h2 f bm ip' t p = Some True)
       \<and> (getIPv6 h1 h2 f bm a t \<and> p \<le> 16 \<and> ipv6_shr a' (8 * (16 - p)) = ipv6_shr a (8 * (16 - p))
            \<longrightarrow> getIPv6_prefix h1 h2 f bm a' t p = Some True)"
proof (cases bm)
  case None
  then show ?thesis by (simp add: getIPv4_def getIPv6_def)
next
  case (Some m)
  then show ?thesis
    using checkIPv4_prefix_of_check [of h1 h2 f m ip _ p ip']
      checkIPv6_prefix_of_check [of h1 h2 f m a _ p a']
    by (cases t) (simp_all add: getIPv4_def getIPv4_prefix_def getIPv6_def getIPv6_prefix_def)
qed

section \<open>Witnesses\<close>

definition example_store :: "byte \<Rightarrow> BitMap" where
  "example_store b = \<lparr>bitmap = (\<lambda>_. b), row_count = 8912896, col_count = 16,
     backup_col_count = 2, bm_size = 17825792\<rparr>"

definition example_filter :: PrefixBloomFilter where
  "example_filter = \<lparr>pb_k = 2, writing_col = 3, reading_col = 3\<rparr>"

lemma example_store_inv: "BitMap_inv (example_store b)"
  by (simp add: BitMap_inv_def example_store_def)

lemma example_insert_ok:
  "fst (pbf_insert (\<lambda>_. 7) id example_filter (Some (example_store 0)) (KIPv4 3232235777) SRCIP)"
proof -
  let ?rs = "key_rows (\<lambda>_. 7) id 2 (KIPv4 3232235777) SRCIP"
  have "key_fits (KIPv4 3232235777) SRCIP" by (simp add: key_fits_def)
  moreover from this have "\<forall>r \<in> set ?rs. in_map (example_store 0) r 3"
    using key_rows_region [of "KIPv4 3232235777" SRCIP _ "\<lambda>_. 7" id 2]
    by (fastforce simp: in_map_def example_store_def)
  ultimately show ?thesis
    by (simp add: pbf_insert_seq bms.set_seq_ok [OF example_store_inv] example_filter_def)
qed

theorem pbf_no_false_negative_witness:
  "pbf_contains (\<lambda>_. 7) id example_filter
     (Some (clearCol (the (snd (pbf_insert (\<lambda>_. 7) id example_filter (Some (example_store 0))
        (KIPv4 3232235777) SRCIP))) 4)) (KIPv4 3232235777) SRCIP"
  using pbf_no_false_negative [OF example_store_inv example_insert_ok, of example_filter "[ClearCol 4]"]
  by (simp add: example_filter_def)

theorem pbf_isolated_witness:
  "\<not> pbf_contains (\<lambda>_. 7) id example_filter
      (snd (pbf_insert (\<lambda>_. 7) id example_filter (Some (example_store 0)) (KPort 80) SRCPORT))
      (KPort 80) DSTPORT"
proof -
  have "\<not> pbf_contains (\<lambda>_. 7) id example_filter (Some (example_store 0)) (KPort 80) DSTPORT"
    by (simp add: pbf_contains_def getPort_def BitMap_get_def Let_def example_store_def)
  then show ?thesis
    using pbf_isolated [OF example_store_inv, of DSTPORT SRCPORT example_filter example_filter
        "\<lambda>_. 7" id 0 "KPort 80" "KPort 80"] by simp
qed

lemma pbf_insert_total_example:
  "fst (pbf_insert (\<lambda>_. 7) id example_filter (Some (example_store 0)) (KIPv6 (IPv6Address 1 2)) DSTIPv6)
   \<and> \<not> fst (pbf_insert (\<lambda>_. 7) id (PrefixBloomFilter_init 2) (Some (example_store 0)) (KPort 80) SRCPORT)"
proof -
  have "pbf_rows_needed \<le> row_count (example_store 0)"
    by (simp add: pbf_rows_needed_def example_store_def)
  note total = pbf_insert_total [OF example_store_inv this]
  show ?thesis unfolding total
    by (simp add: key_fits_def example_filter_def PrefixBloomFilter_init_def example_store_def)
qed

lemma pbf_prefix_query_example:
  "getIPv4_prefix (\<lambda>_. 7) id example_filter (Some (example_store 255)) 3232235520 SRCIP 2 = Some True"
proof -
  have full: "BitMap_get (example_store 255) r 3" if "r < 8912896" for r
    using that unfolding BitMap_get_bit [OF example_store_inv]
    by (simp add: in_map_def getBitIndex_def example_store_def)
  have "\<forall>r \<in> set (ipv4_all_rows (\<lambda>_. 7) id 2 3232235777 131072). BitMap_get (example_store 255) r 3"
    using ipv4_rows_bounds [of _ "\<lambda>_. 7" id 2 3232235777 131072] by (fastforce intro: full)
  then have "getIPv4 (\<lambda>_. 7) id example_filter (Some (example_store 255)) 3232235777 SRCIP"
    by (simp add: getIPv4_def checkIPv4_seq get_seq_all example_filter_def)
  moreover have "drop_bit (8 * (4 - 2)) (3232235520 :: 32 word) = drop_bit (8 * (4 - 2)) 3232235777"
    by simp
  ultimately show ?thesis
    using pbf_prefix_query [of "\<lambda>_. 7" id example_filter "Some (example_store 255)" 3232235777 SRCIP 2
        3232235520] by simp
qed

end
