(* ===== verification/IndexBlocks.thy ===== *)
theory IndexBlocks
  imports BlockRing "HOL-Library.Multiset"
begin

text \<open>
  The index buffer of \<^verbatim>\<open>dpdk_lib/indexBlockBuffer.hpp\<close>: the cyclic block buffer through which
  the sorted index records reach the disk. It works like the packet buffer without times and
  counters, and has one spare block behind the buffer, in which \<open>sortIndex\<close> completes a run of
  records that wraps around the end before sorting it in place. \<open>std::sort\<close> is a parameter: the
  standard fixes its result only up to the order of equal keys.
\<close>

declare One_nat_def [simp del]

section \<open>State and writing\<close>

record IndexBlock =
  ix_id :: nat
  ix_write_pos :: nat
  ix_buffer :: bytes

record IndexBlockBuffer =
  ib_total :: nat
  ib_block_size :: nat
  ib_buffer_size :: nat
  ib_disk_num :: nat
  ib_thread_num :: nat
  ib_mem :: bytes
  ib_block_disk_id :: "nat list"
  ib_write_ids :: "nat list"
  ib_check_ids :: "nat list"

datatype index_block_error = IB_buffer_size_wrong | IB_block_number_wrong | IB_mmap_failed | Unsupported_key_len

definition IndexBlockBuffer_new :: "bool \<Rightarrow> nat \<Rightarrow> nat \<Rightarrow> nat \<Rightarrow> nat \<Rightarrow> index_block_error + IndexBlockBuffer" where
  "IndexBlockBuffer_new mmap_ok blocks bsize disks threads =
     (let buffer_size = blocks * bsize in
      if buffer_size AND (buffer_size - 1) \<noteq> 0 then Inl IB_buffer_size_wrong
      else if blocks * 4 \<ge> disks then Inl IB_block_number_wrong
      else if \<not> mmap_ok then Inl IB_mmap_failed
      else Inr \<lparr>ib_total = blocks, ib_block_size = bsize, ib_buffer_size = buffer_size,
             ib_disk_num = disks, ib_thread_num = threads,
             ib_mem = replicate (buffer_size + bsize) 0, ib_block_disk_id = [0..<blocks],
             ib_write_ids = [], ib_check_ids = []\<rparr>)"

definition ib_addWriteThread :: "IndexBlockBuffer \<Rightarrow> nat \<times> IndexBlockBuffer" where
  "ib_addWriteThread b =
     (let i = length (ib_write_ids b) in
      if i \<ge> ib_total b then (u64_max, b)
      else (i, b\<lparr>ib_write_ids := ib_write_ids b @ [i]\<rparr>))"

definition ib_addCheckThread :: "IndexBlockBuffer \<Rightarrow> nat \<times> IndexBlockBuffer" where
  "ib_addCheckThread b =
     (let i = length (ib_check_ids b) in
      if i \<ge> ib_total b then (u64_max, b)
      else (i, b\<lparr>ib_check_ids := ib_check_ids b @ [i]\<rparr>))"

definition ib_store :: "IndexBlockBuffer \<Rightarrow> bytes \<Rightarrow> nat \<Rightarrow> nat \<Rightarrow> nat \<Rightarrow> (bool \<times> IndexBlockBuffer) option" where
  "ib_store b data disk_pos thread_id disk_id = do {
     m \<leftarrow> ring_copy (ib_mem b) (ib_buffer_size b) (disk_pos mod ib_buffer_size b) data;
     ids \<leftarrow> vec_set (ib_write_ids b) thread_id disk_id;
     Some (True, b\<lparr>ib_mem := m, ib_write_ids := ids\<rparr>) }"

definition ib_refuse :: "IndexBlockBuffer \<Rightarrow> nat \<Rightarrow> nat \<Rightarrow> (bool \<times> IndexBlockBuffer) option" where
  "ib_refuse b thread_id disk_id = do {
     ids \<leftarrow> vec_set (ib_write_ids b) thread_id disk_id;
     Some (False, b\<lparr>ib_write_ids := ids\<rparr>) }"

definition ib_writeBlock :: "IndexBlockBuffer \<Rightarrow> bytes \<Rightarrow> nat \<Rightarrow> nat \<Rightarrow> (bool \<times> IndexBlockBuffer) option" where
  "ib_writeBlock b data disk_pos thread_id = do {
     let block_id = (disk_pos div ib_block_size b) mod ib_total b;
     let disk_id = (disk_pos div ib_block_size b) mod ib_disk_num b;
     let block_offset = disk_pos mod ib_block_size b;
     own \<leftarrow> vec_get (ib_block_disk_id b) block_id;
     if own \<noteq> disk_id then ib_refuse b thread_id disk_id
     else if block_offset + length data \<ge> ib_block_size b
     then do {
       let block_id = (block_id + 1) mod ib_total b;
       let disk_id = (disk_id + 1) mod ib_disk_num b;
       own \<leftarrow> vec_get (ib_block_disk_id b) block_id;
       if own \<noteq> disk_id then ib_refuse b thread_id disk_id
       else ib_store b data disk_pos thread_id disk_id }
     else ib_store b data disk_pos thread_id disk_id }"

section \<open>Checking, handing out, recycling\<close>

definition checkThread :: "IndexBlockBuffer \<Rightarrow> nat \<Rightarrow> nat \<Rightarrow> bool option" where
  "checkThread b block_check_id rss_id = do {
     disk_write_id \<leftarrow> vec_get (ib_write_ids b) rss_id;
     own \<leftarrow> vec_get (ib_block_disk_id b) block_check_id;
     Some (barrier_passed (ib_disk_num b) (ib_total b * 2) (own mod ib_disk_num b) disk_write_id) }"

definition directCheckThread :: "IndexBlockBuffer \<Rightarrow> nat \<Rightarrow> nat \<Rightarrow> bool option" where
  "directCheckThread b block_check_id rss_id = do {
     disk_write_id \<leftarrow> vec_get (ib_write_ids b) rss_id;
     own \<leftarrow> vec_get (ib_block_disk_id b) block_check_id;
     Some (barrier_reached (ib_disk_num b) (ib_total b * 2) (own mod ib_disk_num b) disk_write_id) }"

definition ib_checkBlock :: "IndexBlockBuffer \<Rightarrow> nat \<Rightarrow> nat option" where
  "ib_checkBlock b thread_id = do {
     block_check_id \<leftarrow> vec_get (ib_check_ids b) thread_id;
     ok \<leftarrow> all_check (checkThread b block_check_id) [0..<ib_thread_num b];
     Some (if ok then block_check_id else u64_max) }"

definition directCheckBlock :: "IndexBlockBuffer \<Rightarrow> nat \<Rightarrow> nat option" where
  "directCheckBlock b thread_id = do {
     block_check_id \<leftarrow> vec_get (ib_check_ids b) thread_id;
     ok \<leftarrow> any_check (directCheckThread b block_check_id) [0..<ib_thread_num b];
     Some (if ok then block_check_id else u64_max) }"

definition ib_getBlock :: "IndexBlockBuffer \<Rightarrow> nat \<Rightarrow> (IndexBlock \<times> IndexBlockBuffer) option" where
  "ib_getBlock b thread_id = do {
     block_id \<leftarrow> vec_get (ib_check_ids b) thread_id;
     wp \<leftarrow> vec_get (ib_block_disk_id b) block_id;
     buf \<leftarrow> mread (ib_mem b) (block_id * ib_block_size b) (ib_block_size b);
     ids \<leftarrow> vec_set (ib_check_ids b) thread_id
              ((block_id + length (ib_check_ids b)) mod ib_total b);
     Some (\<lparr>ix_id = block_id, ix_write_pos = wp, ix_buffer = buf\<rparr>, b\<lparr>ib_check_ids := ids\<rparr>) }"

definition ib_recycleBlock :: "IndexBlockBuffer \<Rightarrow> nat \<Rightarrow> IndexBlockBuffer option" where
  "ib_recycleBlock b block_id = do {
     disk_id \<leftarrow> vec_get (ib_block_disk_id b) block_id;
     ids \<leftarrow> vec_set (ib_block_disk_id b) block_id ((disk_id + ib_total b) mod ib_disk_num b);
     Some (b\<lparr>ib_block_disk_id := ids\<rparr>) }"

section \<open>Sorting the records of a block\<close>

text \<open>A record is a key followed by a 64-bit value; the key is read as the type that
  \<open>sortIndex\<close> casts the memory to, and compared with its \<open>operator<\<close>.\<close>

definition decode_ipv6 :: "bytes \<Rightarrow> IPv6Address" where
  "decode_ipv6 bs = IPv6Address (word_of_nat (le_decode (take 8 bs))) (word_of_nat (le_decode (take 8 (drop 8 bs))))"

definition record_lt :: "nat \<Rightarrow> bytes \<Rightarrow> bytes \<Rightarrow> bool" where
  "record_lt key_len r1 r2 =
     (if key_len = 16 then ipv6_lt (decode_ipv6 (take 16 r1)) (decode_ipv6 (take 16 r2))
      else le_decode (take key_len r1) < le_decode (take key_len r2))"

fun chunks :: "nat \<Rightarrow> nat \<Rightarrow> bytes \<Rightarrow> bytes list" where
  "chunks 0 sz bs = []"
| "chunks (Suc n) sz bs = take sz bs # chunks n sz (drop sz bs)"

definition sortIndex :: "((bytes \<Rightarrow> bytes \<Rightarrow> bool) \<Rightarrow> bytes list \<Rightarrow> bytes list) \<Rightarrow> IndexBlockBuffer \<Rightarrow>
    nat \<Rightarrow> nat \<Rightarrow> nat \<Rightarrow> (index_block_error + IndexBlockBuffer) option" where
  "sortIndex srt b start_pos len key_len = do {
     let N = ib_buffer_size b;
     let block_pos = start_pos mod N;
     let over = len + block_pos - N;
     m1 \<leftarrow> (if block_pos + len > N
            then do { front \<leftarrow> mread (ib_mem b) 0 over; mwrite (ib_mem b) N front }
            else Some (ib_mem b));
     let record_size = key_len + 8;
     let num_records = len div record_size;
     if key_len = 2 \<or> key_len = 4 \<or> key_len = 16
     then do {
       region \<leftarrow> mread m1 block_pos (num_records * record_size);
       m2 \<leftarrow> mwrite m1 block_pos (concat (srt (record_lt key_len) (chunks num_records record_size region)));
       m3 \<leftarrow> (if block_pos + len > N
              then do { back \<leftarrow> mread m2 N over; mwrite m2 0 back }
              else Some m2);
       Some (Inr (b\<lparr>ib_mem := m3\<rparr>)) }
     else Some (Inl Unsupported_key_len) }"

section \<open>Well-formed buffers\<close>

definition ib_wf :: "IndexBlockBuffer \<Rightarrow> bool" where
  "ib_wf b \<longleftrightarrow> 0 < ib_total b \<and> 0 < ib_block_size b \<and> ib_total b * 4 < ib_disk_num b \<and>
     ib_buffer_size b = ib_total b * ib_block_size b \<and>
     length (ib_mem b) = ib_buffer_size b + ib_block_size b \<and>
     length (ib_block_disk_id b) = ib_total b \<and> (\<forall>d \<in> set (ib_block_disk_id b). d < ib_disk_num b) \<and>
     length (ib_write_ids b) \<le> ib_total b \<and> (\<forall>d \<in> set (ib_write_ids b). d < ib_disk_num b) \<and>
     length (ib_check_ids b) \<le> ib_total b \<and> (\<forall>i \<in> set (ib_check_ids b). i < ib_total b)"

definition ib_owner :: "IndexBlockBuffer \<Rightarrow> nat \<Rightarrow> nat" where
  "ib_owner b i = ib_block_disk_id b ! i"

text \<open>What a write tests: the block in which the data begin, and the next one when the data reach its end.\<close>

definition ib_admits :: "IndexBlockBuffer \<Rightarrow> nat \<Rightarrow> nat \<Rightarrow> bool" where
  "ib_admits b disk_pos len \<longleftrightarrow>
     (let blk = disk_pos div ib_block_size b in
      ib_owner b (blk mod ib_total b) = blk mod ib_disk_num b \<and>
      (disk_pos mod ib_block_size b + len \<ge> ib_block_size b \<longrightarrow>
         ib_owner b ((blk mod ib_total b + 1) mod ib_total b) = (blk mod ib_disk_num b + 1) mod ib_disk_num b))"

lemma ib_new_wf:
  assumes "IndexBlockBuffer_new ok blocks bsize disks threads = Inr b" and "0 < blocks" and "0 < bsize"
  shows "ib_wf b"
  using assms by (auto simp: IndexBlockBuffer_new_def ib_wf_def Let_def split: if_splits)

definition ib_disk_after :: "IndexBlockBuffer \<Rightarrow> nat \<Rightarrow> nat \<Rightarrow> nat" where
  "ib_disk_after b disk_pos len =
     (let blk = disk_pos div ib_block_size b in
      if ib_owner b (blk mod ib_total b) = blk mod ib_disk_num b \<and>
         disk_pos mod ib_block_size b + len \<ge> ib_block_size b
      then (blk mod ib_disk_num b + 1) mod ib_disk_num b else blk mod ib_disk_num b)"

lemma ib_writeBlock_eq:
  assumes wf: "ib_wf b" and th: "thread_id < length (ib_write_ids b)" and len: "length data \<le> ib_buffer_size b"
  shows "\<exists>m. ring_copy (ib_mem b) (ib_buffer_size b) (disk_pos mod ib_buffer_size b) data = Some m \<and>
    length m = length (ib_mem b) \<and>
    ib_writeBlock b data disk_pos thread_id =
      (let W = (ib_write_ids b)[thread_id := ib_disk_after b disk_pos (length data)] in
       Some (if ib_admits b disk_pos (length data)
             then (True, b\<lparr>ib_mem := m, ib_write_ids := W\<rparr>)
             else (False, b\<lparr>ib_write_ids := W\<rparr>)))"
proof -
  let ?N = "ib_buffer_size b" and ?blk = "disk_pos div ib_block_size b"
  have pre: "disk_pos mod ?N < ?N" "?N \<le> length (ib_mem b)"
    "?blk mod ib_total b < length (ib_block_disk_id b)"
    "(?blk mod ib_total b + 1) mod ib_total b < length (ib_block_disk_id b)"
    using wf by (simp_all add: ib_wf_def)
  from ring_copy_some [OF pre(1) len pre(2)] obtain m where
    m: "ring_copy (ib_mem b) ?N (disk_pos mod ?N) data = Some m" "length m = length (ib_mem b)" by blast
  show ?thesis
    by (rule exI [of _ m])
       (simp add: m th pre(3,4) ib_writeBlock_def ib_store_def ib_refuse_def ib_admits_def ib_disk_after_def
          ib_owner_def vec_get_def vec_set_def Let_def)
qed

lemma ib_disk_after_less: "ib_wf b \<Longrightarrow> ib_disk_after b disk_pos len < ib_disk_num b"
  by (simp add: ib_disk_after_def ib_wf_def Let_def)

lemma ib_wf_update:
  assumes "ib_wf b" and "length m = length (ib_mem b)" and "d < ib_disk_num b"
  shows "ib_wf (b\<lparr>ib_mem := m, ib_write_ids := (ib_write_ids b)[thread_id := d]\<rparr>)"
    and "ib_wf (b\<lparr>ib_write_ids := (ib_write_ids b)[thread_id := d]\<rparr>)"
  using assms set_update_subset_insert [of "ib_write_ids b" thread_id d] by (auto simp: ib_wf_def)

interpretation ibr: block_ring ib_wf ib_total ib_disk_num ib_owner ib_recycleBlock
proof
  fix b :: IndexBlockBuffer and i
  assume wf: "ib_wf b"
  show "0 < ib_total b \<and> ib_total b < ib_disk_num b" using wf by (simp add: ib_wf_def)
  assume i: "i < ib_total b"
  show o: "ib_owner b i < ib_disk_num b" using wf i by (simp add: ib_wf_def ib_owner_def)
  let ?ids = "(ib_block_disk_id b)[i := (ib_owner b i + ib_total b) mod ib_disk_num b]"
  have eq: "ib_recycleBlock b i = Some (b\<lparr>ib_block_disk_id := ?ids\<rparr>)"
    using wf i by (simp add: ib_recycleBlock_def vec_get_def vec_set_def ib_owner_def ib_wf_def)
  have "(ib_owner b i + ib_total b) mod ib_disk_num b < ib_disk_num b" using o by simp
  then have "\<forall>d \<in> set ?ids. d < ib_disk_num b"
    using wf set_update_subset_insert [of "ib_block_disk_id b" i "(ib_owner b i + ib_total b) mod ib_disk_num b"]
    by (auto simp: ib_wf_def)
  then have "ib_wf (b\<lparr>ib_block_disk_id := ?ids\<rparr>)" using wf by (simp add: ib_wf_def)
  moreover have "ib_owner (b\<lparr>ib_block_disk_id := ?ids\<rparr>) c =
      (if c = i then (ib_owner b i + ib_total b) mod ib_disk_num b else ib_owner b c)" if "c < ib_total b" for c
    using that wf by (simp add: ib_owner_def ib_wf_def nth_list_update)
  ultimately show "\<exists>b'. ib_recycleBlock b i = Some b' \<and> ib_wf b' \<and> ib_total b' = ib_total b \<and>
      ib_disk_num b' = ib_disk_num b \<and> (\<forall>c < ib_total b. ib_owner b' c =
        (if c = i then (ib_owner b i + ib_total b) mod ib_disk_num b else ib_owner b c))"
    by (simp add: eq)
qed

section \<open>Sorting in place\<close>

lemma chunks_length: "length (chunks n sz bs) = n"
  by (induction n arbitrary: bs) simp_all

lemma chunks_concat: "n * sz \<le> length bs \<Longrightarrow> concat (chunks n sz bs) = take (n * sz) bs"
proof (induction n arbitrary: bs)
  case 0
  then show ?case by simp
next
  case (Suc n)
  then have "n * sz \<le> length (drop sz bs)" by simp
  from Suc.IH [OF this] show ?case by (simp add: take_add)
qed

lemma chunks_take: "chunks n sz (take (n * sz) bs) = chunks n sz bs"
  by (induction n arbitrary: bs) (simp_all add: drop_take min_def)

lemma chunks_sizes: "n * sz \<le> length bs \<Longrightarrow> \<forall>r \<in> set (chunks n sz bs). length r = sz"
proof (induction n arbitrary: bs)
  case 0
  then show ?case by simp
next
  case (Suc n)
  have le: "sz + n * sz \<le> length bs" using Suc.prems by simp
  have "n * sz \<le> length (drop sz bs)" using le by simp
  note ih = Suc.IH [OF this]
  have "length (take sz bs) = sz" using add_leD1 [OF le] by simp
  with ih show ?case unfolding chunks.simps list.set by blast
qed

lemma concat_length: "\<forall>r \<in> set rs. length r = sz \<Longrightarrow> length (concat rs) = length rs * sz"
  by (induction rs) simp_all

lemma chunks_of_concat: "\<forall>r \<in> set rs. length r = sz \<Longrightarrow> chunks (length rs) sz (concat rs @ rest) = rs"
  by (induction rs) simp_all

text \<open>The key of a record as a number: in every case the order is the numeric order.\<close>

definition record_key :: "nat \<Rightarrow> bytes \<Rightarrow> nat" where
  "record_key key_len r = le_decode (take key_len r)"

lemma le_decode_append: "le_decode (xs @ ys) = le_decode xs + 256 ^ length xs * le_decode ys"
  by (induction xs) (simp_all add: algebra_simps)

lemma decode_ipv6_value:
  assumes "length bs = 16"
  shows "ipv6_value (decode_ipv6 bs) = le_decode bs"
proof -
  have bnd: "le_decode xs < U64" if "length xs = 8" for xs
    using le_decode_bound [of xs] that by simp
  have "le_decode bs = le_decode (take 8 bs @ drop 8 bs)" by simp
  also have "\<dots> = le_decode (take 8 bs) + U64 * le_decode (drop 8 bs)"
    unfolding le_decode_append using assms by simp
  finally show ?thesis
    using bnd [of "take 8 bs"] bnd [of "drop 8 bs"] assms
    by (simp add: decode_ipv6_def ipv6_value_def unat_of_nat)
qed

lemma record_lt_key:
  assumes "key_len \<le> length r1" and "key_len \<le> length r2"
  shows "record_lt key_len r1 r2 \<longleftrightarrow> record_key key_len r1 < record_key key_len r2"
  using assms decode_ipv6_value [of "take 16 r1"] decode_ipv6_value [of "take 16 r2"]
  by (auto simp: record_lt_def record_key_def ipv6_lt_value)

text \<open>What the standard promises of \<open>std::sort\<close> with a strict weak order.\<close>

definition std_sort_ok :: "((bytes \<Rightarrow> bytes \<Rightarrow> bool) \<Rightarrow> bytes list \<Rightarrow> bytes list) \<Rightarrow> bool" where
  "std_sort_ok srt \<longleftrightarrow> (\<forall>lt key xs. (\<forall>a \<in> set xs. \<forall>b \<in> set xs. lt a b = (key a < (key b :: nat))) \<longrightarrow>
     mset (srt lt xs) = mset xs \<and> sorted_wrt (\<lambda>a b. \<not> lt b a) (srt lt xs))"

lemma ring_read_linear:
  assumes "pos < N" and "len \<le> N" and "N \<le> length m"
    and "\<And>i. i < len \<Longrightarrow> pos + i < length m' \<and> m' ! (pos + i) = m ! ((pos + i) mod N)"
  shows "take len (drop pos m') = ring_read m N pos len"
proof (rule nth_equalityI)
  show "length (take len (drop pos m')) = length (ring_read m N pos len)"
  proof (cases len)
    case (Suc n)
    then have "pos + n < length m'" using assms(4) [of n] by simp
    then show ?thesis using Suc by simp
  qed simp
  fix i assume "i < length (take len (drop pos m'))"
  then show "take len (drop pos m') ! i = ring_read m N pos len ! i"
    using assms(4) [of i] by (simp add: ring_read_def)
qed

lemma mwrite_ok:
  assumes "pos + length bs \<le> length m"
  shows "\<exists>m'. mwrite m pos bs = Some m' \<and> length m' = length m \<and>
    (\<forall>i < length m. m' ! i = (if pos \<le> i \<and> i < pos + length bs then bs ! (i - pos) else m ! i))"
proof -
  obtain m' where w: "mwrite m pos bs = Some m'" using assms by (simp add: mwrite_def)
  then show ?thesis using mwrite_length [OF w] mwrite_nth [OF w] by auto
qed

lemma sort_in_place:
  assumes pos: "pos < N" and len: "len \<le> N" and mem: "N + over \<le> length m" and over: "over = len + pos - N"
    and new: "length new = n" and n: "n \<le> len"
    and f: "\<And>bs. length bs = n \<Longrightarrow> bs = take n (ring_read m N pos len) \<Longrightarrow> g bs = new"
  shows "\<exists>m1 m2 m3.
    (if pos + len > N then do { front \<leftarrow> mread m 0 over; mwrite m N front } else Some m) = Some m1 \<and>
    mread m1 pos n = Some (take n (ring_read m N pos len)) \<and>
    mwrite m1 pos (g (take n (ring_read m N pos len))) = Some m2 \<and>
    (if pos + len > N then do { back \<leftarrow> mread m2 N over; mwrite m2 0 back } else Some m2) = Some m3 \<and>
    length m3 = length m \<and>
    ring_read m3 N pos len = new @ drop n (ring_read m N pos len) \<and>
    (\<forall>j < N. len \<le> cyc N pos j \<longrightarrow> m3 ! j = m ! j)"
proof -
  let ?old = "ring_read m N pos len"
  have N: "N \<le> length m" using mem by simp
  have wrap: "(pos + i) mod N = (if pos + i < N then pos + i else pos + i - N)" if "i < len" for i
    using that pos len by (auto simp: mod_if)
  obtain m1 where m1: "(if pos + len > N then do { front \<leftarrow> mread m 0 over; mwrite m N front } else Some m) = Some m1"
    and l1: "length m1 = length m"
    and n1: "\<And>j. j < length m \<Longrightarrow> m1 ! j = (if pos + len > N \<and> N \<le> j \<and> j < N + over then m ! (j - N) else m ! j)"
  proof (cases "pos + len > N")
    case True
    have r: "mread m 0 over = Some (take over m)" using mem by (simp add: mread_def)
    have lo: "length (take over m) = over" using mem by simp
    from mwrite_ok [of N "take over m" m] mem lo obtain m1 where
      w: "mwrite m N (take over m) = Some m1" "length m1 = length m"
      "\<forall>i < length m. m1 ! i = (if N \<le> i \<and> i < N + over then take over m ! (i - N) else m ! i)" by auto
    show thesis by (rule that [of m1]) (use True r w in auto)
  next
    case False
    then show thesis by (intro that [of m]) simp_all
  qed
  have lin: "take len (drop pos m1) = ?old"
    by (rule ring_read_linear [OF pos len N]) (use n1 l1 wrap pos len over mem in auto)
  have pn: "pos + n \<le> length m1" using l1 mem over n by linarith
  have rd: "mread m1 pos n = Some (take n ?old)"
    using pn n by (simp add: mread_def lin [symmetric] min_def)
  have g: "g (take n ?old) = new" by (rule f) (use n in simp_all)
  from mwrite_ok [of pos new m1] pn new obtain m2 where
    m2: "mwrite m1 pos new = Some m2" and l2: "length m2 = length m"
    and n2: "\<And>i. i < length m \<Longrightarrow> m2 ! i = (if pos \<le> i \<and> i < pos + n then new ! (i - pos) else m1 ! i)"
    using l1 by auto
  let ?res = "new @ drop n ?old"
  have v2: "m2 ! (pos + i) = ?res ! i" if i: "i < len" for i
  proof -
    have "pos + i < length m" using i mem over by linarith
    then have "m2 ! (pos + i) = (if i < n then new ! i else m1 ! (pos + i))" using n2 by simp
    moreover have "m1 ! (pos + i) = ?old ! i"
      using lin i l1 mem over by (metis add_leD1 length_ring_read nth_drop nth_take le_add1 le_trans nat_le_linear
          \<open>pos + i < length m\<close> length_drop less_imp_le_nat)
    ultimately show ?thesis using new i n by (simp add: nth_append)
  qed
  obtain m3 where m3: "(if pos + len > N then do { back \<leftarrow> mread m2 N over; mwrite m2 0 back } else Some m2) = Some m3"
    and l3: "length m3 = length m"
    and n3: "\<And>j. j < length m \<Longrightarrow> m3 ! j = (if pos + len > N \<and> j < over then m2 ! (N + j) else m2 ! j)"
  proof (cases "pos + len > N")
    case True
    let ?bk = "take over (drop N m2)"
    have r: "mread m2 N over = Some ?bk" using mem l2 by (simp add: mread_def)
    have lo: "length ?bk = over" using mem l2 by simp
    from mwrite_ok [of 0 ?bk m2] mem lo l2 obtain m3 where
      w: "mwrite m2 0 ?bk = Some m3" "length m3 = length m"
      "\<forall>i < length m. m3 ! i = (if i < over then ?bk ! i else m2 ! i)" by auto
    show thesis by (rule that [of m3]) (use True r w l2 mem in auto)
  next
    case False
    then show thesis by (intro that [of m2]) (simp_all add: l2)
  qed
  have "ring_read m3 N pos len = ?res"
  proof (rule nth_equalityI)
    show "length (ring_read m3 N pos len) = length ?res" using new n by simp
    fix i assume "i < length (ring_read m3 N pos len)"
    then have i: "i < len" by simp
    have lt: "(pos + i) mod N < length m" 
    proof -
      have "(pos + i) mod N < N" using pos by simp
      then show ?thesis using N by simp
    qed
    have "m3 ! ((pos + i) mod N) = ?res ! i"
    proof (cases "pos + i < N")
      case True
      then have "\<not> pos + i < over" using over len pos by linarith
      then show ?thesis using n3 [OF lt] v2 [OF i] True by (simp add: wrap [OF i])
    next
      case False
      then have a: "pos + len > N" "pos + i - N < over" "N + (pos + i - N) = pos + i"
        using i over by linarith+
      have e: "(pos + i) mod N = pos + i - N" using wrap [OF i] False by simp
      have "m3 ! (pos + i - N) = m2 ! (N + (pos + i - N))" using n3 [OF lt] a(1,2) unfolding e by simp
      then show ?thesis using v2 [OF i] unfolding e a(3) by simp
    qed
    then show "ring_read m3 N pos len ! i = ?res ! i" using i by (simp add: ring_read_def)
  qed
  moreover have "m3 ! j = m ! j" if j: "j < N" "len \<le> cyc N pos j" for j
  proof -
    have jm: "j < length m" using j(1) N by simp
    have c: "len \<le> (if pos \<le> j then j - pos else j + N - pos)" using j cyc_if [OF pos j(1)] by simp
    then have "\<not> (pos + len > N \<and> j < over)" and "\<not> (pos \<le> j \<and> j < pos + n)"
      using over j(1) n pos by (auto split: if_splits)
    then show ?thesis using n3 [OF jm] n2 [OF jm] n1 [OF jm] j(1) by auto
  qed
  ultimately show ?thesis using m1 rd m2 m3 l3 g by blast
qed

section \<open>Properties\<close>

text \<open>A write into the index buffer: defined for every registered thread and data no longer than
  the buffer, true exactly when the buffer stands for the disk blocks the data touch; then the
  data are at their cyclic position and nothing else has changed, otherwise no byte changes. In
  both cases the thread's disk block is recorded.\<close>

lemma ib_write_cyclic:
  assumes "ib_wf b" and "thread_id < length (ib_write_ids b)" and "length data \<le> ib_buffer_size b"
  shows "\<exists>b'. ib_writeBlock b data disk_pos thread_id = Some (ib_admits b disk_pos (length data), b') \<and>
      ib_wf b' \<and> ib_write_ids b' ! thread_id = ib_disk_after b disk_pos (length data) \<and>
      (if ib_admits b disk_pos (length data)
       then ring_read (ib_mem b') (ib_buffer_size b) (disk_pos mod ib_buffer_size b) (length data) = data \<and>
            (\<forall>j < ib_buffer_size b. length data \<le> cyc (ib_buffer_size b) (disk_pos mod ib_buffer_size b) j
               \<longrightarrow> ib_mem b' ! j = ib_mem b ! j)
       else ib_mem b' = ib_mem b)"
proof -
  let ?N = "ib_buffer_size b" and ?d = "ib_disk_after b disk_pos (length data)"
  from ib_writeBlock_eq [OF assms, of disk_pos] obtain m where
    m: "ring_copy (ib_mem b) ?N (disk_pos mod ?N) data = Some m" "length m = length (ib_mem b)" and
    w: "ib_writeBlock b data disk_pos thread_id =
      Some (if ib_admits b disk_pos (length data)
             then (True, b\<lparr>ib_mem := m, ib_write_ids := (ib_write_ids b)[thread_id := ?d]\<rparr>)
             else (False, b\<lparr>ib_write_ids := (ib_write_ids b)[thread_id := ?d]\<rparr>))"
    by (auto simp: Let_def)
  have pre: "disk_pos mod ?N < ?N" "?N \<le> length (ib_mem b)" using assms(1) by (simp_all add: ib_wf_def)
  have rd: "ring_read m ?N (disk_pos mod ?N) (length data) = data"
    by (rule ring_read_copy(2) [OF pre(1) assms(3) pre(2) m(1)])
  have fr: "m ! j = ib_mem b ! j" if "j < ?N" "length data \<le> cyc ?N (disk_pos mod ?N) j" for j
    using ring_copy_some [OF pre(1) assms(3) pre(2)] m(1) that pre(2) by (metis leD less_le_trans option.inject)
  note wf = ib_wf_update [OF assms(1) m(2) ib_disk_after_less [OF assms(1), of disk_pos "length data"], of thread_id]
  show ?thesis
  proof (cases "ib_admits b disk_pos (length data)")
    case True
    then show ?thesis using w wf(1) rd fr assms(2) by simp
  next
    case False
    then show ?thesis using w wf(2) assms(2) by simp
  qed
qed

lemma sortIndex_effect:
  assumes "ib_wf b" and "std_sort_ok srt" and "key_len \<in> {2, 4, 16}"
    and "len \<le> ib_buffer_size b"
    and "start_pos mod ib_buffer_size b + len \<le> ib_buffer_size b + ib_block_size b"
  shows "\<exists>b'. sortIndex srt b start_pos len key_len = Some (Inr b') \<and> ib_wf b' \<and>
    (let N = ib_buffer_size b; pos = start_pos mod N; sz = key_len + 8; n = len div sz;
         old = ring_read (ib_mem b) N pos len; new = ring_read (ib_mem b') N pos len
     in mset (chunks n sz new) = mset (chunks n sz old) \<and>
        sorted (map (record_key key_len) (chunks n sz new)) \<and>
        drop (n * sz) new = drop (n * sz) old \<and>
        (\<forall>j < N. len \<le> cyc N pos j \<longrightarrow> ib_mem b' ! j = ib_mem b ! j))"
proof -
  let ?N = "ib_buffer_size b" and ?pos = "start_pos mod ib_buffer_size b"
  let ?sz = "key_len + 8" let ?n = "len div ?sz"
  let ?old = "ring_read (ib_mem b) ?N ?pos len" let ?over = "len + ?pos - ?N"
  let ?rs = "chunks ?n ?sz (take (?n * ?sz) ?old)"
  have le: "?n * ?sz \<le> len" by (rule div_times_less_eq_dividend)
  have szs: "\<forall>r \<in> set ?rs. length r = ?sz" by (rule chunks_sizes) (use le in simp)
  then have lt: "\<forall>x \<in> set ?rs. \<forall>y \<in> set ?rs. record_lt key_len x y = (record_key key_len x < record_key key_len y)"
    using record_lt_key by simp
  let ?new = "srt (record_lt key_len) ?rs"
  have ms: "mset ?new = mset ?rs" and srt: "sorted_wrt (\<lambda>a b. \<not> record_lt key_len b a) ?new"
    using assms(2) lt unfolding std_sort_ok_def by blast+
  have st: "set ?new = set ?rs" using ms by (metis set_mset_mset)
  have nsz: "\<forall>r \<in> set ?new. length r = ?sz" using szs unfolding st .
  have nl: "length ?new = ?n" using ms by (metis chunks_length size_mset)
  have len: "length (concat ?new) = ?n * ?sz" using concat_length [OF nsz] nl by simp
  have pos: "?pos < ?N" and mem: "?N + ?over \<le> length (ib_mem b)"
    using assms(1,5) by (auto simp: ib_wf_def)
  from sort_in_place [OF pos assms(4) mem refl len le,
      of "\<lambda>bs. concat (srt (record_lt key_len) (chunks ?n ?sz bs))"] obtain m1 m2 m3 where
    m: "(if ?pos + len > ?N then do { front \<leftarrow> mread (ib_mem b) 0 ?over; mwrite (ib_mem b) ?N front }
         else Some (ib_mem b)) = Some m1"
      "mread m1 ?pos (?n * ?sz) = Some (take (?n * ?sz) ?old)"
      "mwrite m1 ?pos (concat ?new) = Some m2"
      "(if ?pos + len > ?N then do { back \<leftarrow> mread m2 ?N ?over; mwrite m2 0 back } else Some m2) = Some m3"
      "length m3 = length (ib_mem b)"
      "ring_read m3 ?N ?pos len = concat ?new @ drop (?n * ?sz) ?old"
      "\<forall>j < ?N. len \<le> cyc ?N ?pos j \<longrightarrow> m3 ! j = ib_mem b ! j"
    by auto
  have "sortIndex srt b start_pos len key_len = Some (Inr (b\<lparr>ib_mem := m3\<rparr>))"
    unfolding sortIndex_def Let_def m(1) using assms(3) m(2,3,4) by auto
  moreover have "ib_wf (b\<lparr>ib_mem := m3\<rparr>)" using assms(1) m(5) by (simp add: ib_wf_def)
  moreover have "chunks ?n ?sz (ring_read m3 ?N ?pos len) = ?new"
    unfolding m(6) using chunks_of_concat [OF nsz] nl by simp
  moreover have "?rs = chunks ?n ?sz ?old"
    by (rule chunks_take)
  moreover have "sorted (map (record_key key_len) ?new)"
  proof -
    have "sorted_wrt (\<lambda>a b. record_key key_len a \<le> record_key key_len b) ?new"
      by (rule sorted_wrt_mono_rel [OF _ srt]) (use lt st in auto)
    then show ?thesis by (simp add: sorted_map)
  qed
  moreover have "drop (?n * ?sz) (ring_read m3 ?N ?pos len) = drop (?n * ?sz) ?old"
    unfolding m(6) using len by simp
  ultimately show ?thesis using ms m(7) by (simp add: Let_def)
qed

text \<open>C17: sorting a block's records. For the three key lengths, any \<open>std::sort\<close> that meets the
  standard, and a range no longer than the buffer that wraps by at most one block, the records
  of the range (read cyclically) are afterwards the same multiset, in the order of their keys
  (for IPv6 the numeric order of the address); an incomplete record at the end and all bytes
  outside the range are untouched.\<close>

theorem sortIndex_sorted:
  assumes "ib_wf b" and "std_sort_ok srt" and "key_len \<in> {2, 4, 16}"
    and "len \<le> ib_buffer_size b"
    and "start_pos mod ib_buffer_size b + len \<le> ib_buffer_size b + ib_block_size b"
  shows "\<exists>b'. sortIndex srt b start_pos len key_len = Some (Inr b') \<and> ib_wf b' \<and>
    (let N = ib_buffer_size b; pos = start_pos mod N; sz = key_len + 8; n = len div sz;
         old = ring_read (ib_mem b) N pos len; new = ring_read (ib_mem b') N pos len
     in mset (chunks n sz new) = mset (chunks n sz old) \<and>
        sorted (map (record_key key_len) (chunks n sz new)) \<and>
        drop (n * sz) new = drop (n * sz) old \<and>
        (\<forall>j < N. len \<le> cyc N pos j \<longrightarrow> ib_mem b' ! j = ib_mem b ! j))"
  by (rule sortIndex_effect [OF assms])

section \<open>Witnesses\<close>

definition example_index_blocks :: IndexBlockBuffer where
  "example_index_blocks = \<lparr>ib_total = 4, ib_block_size = 16, ib_buffer_size = 64, ib_disk_num = 32,
     ib_thread_num = 1, ib_mem = replicate 80 7, ib_block_disk_id = [0, 1, 2, 3], ib_write_ids = [0], ib_check_ids = [0]\<rparr>"

lemma example_index_blocks_wf: "ib_wf example_index_blocks"
  by (simp add: example_index_blocks_def ib_wf_def)

fun insert_by :: "('a \<Rightarrow> 'a \<Rightarrow> bool) \<Rightarrow> 'a \<Rightarrow> 'a list \<Rightarrow> 'a list" where
  "insert_by lt x [] = [x]"
| "insert_by lt x (y # ys) = (if lt y x then y # insert_by lt x ys else x # y # ys)"

fun sort_by :: "('a \<Rightarrow> 'a \<Rightarrow> bool) \<Rightarrow> 'a list \<Rightarrow> 'a list" where
  "sort_by lt [] = []"
| "sort_by lt (x # xs) = insert_by lt x (sort_by lt xs)"

lemma insert_by_mset: "mset (insert_by lt x ys) = add_mset x (mset ys)"
  by (induction ys) auto

lemma sort_by_mset: "mset (sort_by lt xs) = mset xs"
  by (induction xs) (auto simp: insert_by_mset)

lemma insert_by_sorted:
  assumes "\<forall>a \<in> insert x (set ys). \<forall>b \<in> insert x (set ys). lt a b = (key a < (key b :: nat))"
    and "sorted_wrt (\<lambda>a b. key a \<le> key b) ys"
  shows "sorted_wrt (\<lambda>a b. key a \<le> key b) (insert_by lt x ys)"
  using assms
proof (induction ys)
  case Nil
  then show ?case by simp
next
  case (Cons y ys)
  have "set (insert_by lt x ys) = insert x (set ys)"
    using insert_by_mset [of lt x ys] by (metis set_mset_add_mset_insert set_mset_mset)
  with Cons show ?case by auto
qed

lemma sort_by_sorted:
  "\<forall>a \<in> set xs. \<forall>b \<in> set xs. lt a b = (key a < (key b :: nat)) \<Longrightarrow>
     sorted_wrt (\<lambda>a b. key a \<le> key b) (sort_by lt xs)"
proof (induction xs)
  case Nil
  then show ?case by simp
next
  case (Cons x xs)
  have "set (sort_by lt xs) = set xs" using sort_by_mset by (metis set_mset_mset)
  with Cons show ?case by (auto intro!: insert_by_sorted)
qed

lemma sort_by_ok: "std_sort_ok sort_by"
  unfolding std_sort_ok_def
proof (intro allI impI conjI)
  fix lt :: "bytes \<Rightarrow> bytes \<Rightarrow> bool" and key :: "bytes \<Rightarrow> nat" and xs
  assume k: "\<forall>a \<in> set xs. \<forall>b \<in> set xs. lt a b = (key a < key b)"
  show "mset (sort_by lt xs) = mset xs" by (rule sort_by_mset)
  have st: "set (sort_by lt xs) = set xs" using sort_by_mset by (metis set_mset_mset)
  show "sorted_wrt (\<lambda>a b. \<not> lt b a) (sort_by lt xs)"
    by (rule sorted_wrt_mono_rel [OF _ sort_by_sorted [OF k]]) (use k st in auto)
qed

lemma ib_write_cyclic_example:
  "\<exists>b'. ib_writeBlock example_index_blocks [1, 2, 3] 50 0 = Some (True, b') \<and> ring_read (ib_mem b') 64 50 3 = [1, 2, 3]"
proof -
  have o: "ib_admits example_index_blocks 50 3" by (simp add: ib_admits_def ib_owner_def example_index_blocks_def)
  have e: "ib_buffer_size example_index_blocks = 64" "length (ib_write_ids example_index_blocks) = 1"
    "length [1, 2, 3 :: byte] = 3" by (simp_all add: example_index_blocks_def)
  show ?thesis
    using ib_write_cyclic [OF example_index_blocks_wf, of 0 "[1, 2, 3]" 50] o unfolding e by auto
qed

theorem sortIndex_sorted_witness:
  "\<exists>b'. sortIndex sort_by example_index_blocks 54 20 2 = Some (Inr b') \<and>
     sorted (map (record_key 2) (chunks 2 10 (ring_read (ib_mem b') 64 54 20)))"
proof -
  have e: "ib_buffer_size example_index_blocks = 64" "ib_block_size example_index_blocks = 16"
    by (simp_all add: example_index_blocks_def)
  show ?thesis
    using sortIndex_sorted [OF example_index_blocks_wf sort_by_ok, of 2 20 54] unfolding e
    by (auto simp: Let_def)
qed

end
