(* ===== verification/MemPool.thy ===== *)
theory MemPool
  imports IndexBlocks FlowAggregate
begin

text \<open>
  The index memory pools of \<^verbatim>\<open>dpdk_lib/memoryPool.hpp\<close> and \<^verbatim>\<open>dpdk_lib/indexMemoryPool.hpp\<close>:
  one cyclic buffer per index type, in which the records of a data block are allocated one after
  the other, and a cyclic list of nodes that remember where the records of each data block
  begin. The refinement target is a bounded log of segments, one per node. A loop that would
  spin forever is \<open>None\<close>. The slices of the shared mapping are separate byte lists.
\<close>

declare One_nat_def [simp del]

section \<open>One pool\<close>

record NodeMeta =
  data_block_id :: nat
  start_offset :: nat
  dirty :: bool

record MemoryPool =
  mp_capacity :: nat
  mp_list_len :: nat
  mp_unit_len :: nat
  mp_buffer :: bytes
  mp_allocate_pos :: nat
  mp_list :: "NodeMeta list"
  mp_tail :: nat
  mp_head :: nat

datatype pool_error = Capacity_not_aligned | Pool_mmap_failed

definition empty_node :: NodeMeta where
  "empty_node = \<lparr>data_block_id = u64_max, start_offset = u64_max, dirty = False\<rparr>"

text \<open>The constructor; the nodes behind the first are not initialised (any value will do).\<close>

definition MemoryPool_new :: "bytes \<Rightarrow> nat \<Rightarrow> nat \<Rightarrow> nat \<Rightarrow> pool_error + MemoryPool" where
  "MemoryPool_new buffer capacity list_len unit_len =
     (if capacity mod unit_len \<noteq> 0 then Inl Capacity_not_aligned
      else Inr \<lparr>mp_capacity = capacity, mp_list_len = list_len, mp_unit_len = unit_len, mp_buffer = buffer,
             mp_allocate_pos = 0, mp_list = replicate list_len empty_node, mp_tail = 1, mp_head = 0\<rparr>)"

definition addNodeMeta :: "MemoryPool \<Rightarrow> nat \<Rightarrow> nat \<Rightarrow> MemoryPool option" where
  "addNodeMeta p block_id pool_offset =
     (if mp_head p = mp_tail p then None
      else do {
        l \<leftarrow> vec_set (mp_list p) (mp_tail p)
               \<lparr>data_block_id = block_id, start_offset = pool_offset, dirty = False\<rparr>;
        Some (p\<lparr>mp_list := l, mp_tail := (mp_tail p + 1) mod mp_list_len p\<rparr>) })"

text \<open>The loop that drops recycled nodes from the head; it keeps the last one. It moves the head
  towards the tail, so the length of the list bounds its iterations.\<close>

fun drop_dirty :: "nat \<Rightarrow> MemoryPool \<Rightarrow> MemoryPool option" where
  "drop_dirty 0 p = None"
| "drop_dirty (Suc n) p = do {
     nd \<leftarrow> vec_get (mp_list p) (mp_head p);
     if dirty nd then
       if (mp_head p + 1) mod mp_list_len p = mp_tail p then Some p
       else drop_dirty n (p\<lparr>mp_head := (mp_head p + 1) mod mp_list_len p\<rparr>)
     else Some p }"

text \<open>\<open>allocate\<close> answers the offset of the memory. While the start of the oldest node lies in the
  new range it waits; nothing it waits for can change, because only \<open>allocate\<close> moves the head.\<close>

definition allocate :: "MemoryPool \<Rightarrow> nat \<Rightarrow> nat \<Rightarrow> (nat \<times> MemoryPool) option" where
  "allocate p0 len disk_block_id = do {
     p \<leftarrow> drop_dirty (mp_list_len p0 + 1) p0;
     let start = (if mp_allocate_pos p + len > mp_capacity p then 0 else mp_allocate_pos p);
     let end_pos = start + len;
     nd \<leftarrow> vec_get (mp_list p) (mp_head p);
     let barrier = start_offset nd;
     if barrier = u64_max \<and> start + len \<le> mp_capacity p
     then do {
       l \<leftarrow> vec_set (mp_list p) (mp_head p) (nd\<lparr>data_block_id := disk_block_id, start_offset := start\<rparr>);
       Some (start, p\<lparr>mp_list := l, mp_allocate_pos := end_pos\<rparr>) }
     else if barrier \<ge> start \<and> barrier < end_pos then None
     else do {
       lst \<leftarrow> vec_get (mp_list p) ((mp_tail p + mp_list_len p - 1) mod mp_list_len p);
       p' \<leftarrow> (if disk_block_id \<noteq> data_block_id lst then addNodeMeta p disk_block_id start else Some p);
       Some (start, p'\<lparr>mp_allocate_pos := end_pos\<rparr>) } }"

definition getListLen :: "MemoryPool \<Rightarrow> nat" where
  "getListLen p = (mp_tail p + mp_list_len p - mp_head p) mod mp_list_len p"

text \<open>The common search: from the head to the tail, at most \<open>list_len\<close> nodes.\<close>

fun find_node :: "nat \<Rightarrow> MemoryPool \<Rightarrow> nat \<Rightarrow> nat \<Rightarrow> nat option option" where
  "find_node 0 p block_id h = Some None"
| "find_node (Suc n) p block_id h =
     (if h = mp_tail p then Some None
      else do {
        nd \<leftarrow> vec_get (mp_list p) h;
        if data_block_id nd = block_id then Some (Some h)
        else find_node n p block_id ((h + 1) mod mp_list_len p) })"

definition getLenOfDiskID :: "MemoryPool \<Rightarrow> nat \<Rightarrow> nat option" where
  "getLenOfDiskID p block_id = do {
     found \<leftarrow> find_node (mp_list_len p) p block_id (mp_head p);
     case found of None \<Rightarrow> Some 0
     | Some h \<Rightarrow> do {
         nd \<leftarrow> vec_get (mp_list p) h;
         end_offset \<leftarrow> (if h + 1 \<noteq> mp_tail p
                       then map_option start_offset (vec_get (mp_list p) ((h + 1) mod mp_list_len p))
                       else Some (mp_allocate_pos p));
         Some (if end_offset > start_offset nd then end_offset - start_offset nd
               else mp_capacity p - start_offset nd + end_offset) } }"

text \<open>\<open>writeToBuffer\<close> ignores the answers of \<open>writeBlock\<close>.\<close>

definition mp_writeToBuffer :: "MemoryPool \<Rightarrow> nat \<Rightarrow> nat \<Rightarrow> IndexBlockBuffer \<Rightarrow> nat \<Rightarrow> nat \<Rightarrow> IndexBlockBuffer option" where
  "mp_writeToBuffer p block_id len buffer thread_id disk_pos = do {
     found \<leftarrow> find_node (mp_list_len p) p block_id (mp_head p);
     case found of None \<Rightarrow> Some buffer
     | Some h \<Rightarrow> do {
         nd \<leftarrow> vec_get (mp_list p) h;
         let st = start_offset nd;
         if st + len < mp_capacity p
         then do {
           data \<leftarrow> mread (mp_buffer p) st len;
           r \<leftarrow> ib_writeBlock buffer data disk_pos thread_id;
           Some (snd r) }
         else do {
           data1 \<leftarrow> mread (mp_buffer p) st (mp_capacity p - st);
           r1 \<leftarrow> ib_writeBlock buffer data1 disk_pos thread_id;
           data2 \<leftarrow> mread (mp_buffer p) 0 (len + st - mp_capacity p);
           r2 \<leftarrow> ib_writeBlock (snd r1) data2 (disk_pos + (mp_capacity p - st)) thread_id;
           Some (snd r2) } } }"

definition mp_recycle :: "MemoryPool \<Rightarrow> nat \<Rightarrow> MemoryPool option" where
  "mp_recycle p block_id = do {
     found \<leftarrow> find_node (mp_list_len p) p block_id (mp_head p);
     case found of None \<Rightarrow> Some p
     | Some h \<Rightarrow> do {
         nd \<leftarrow> vec_get (mp_list p) h;
         l \<leftarrow> vec_set (mp_list p) h (nd\<lparr>dirty := True\<rparr>);
         Some (p\<lparr>mp_list := l\<rparr>) } }"

text \<open>What the callers do with the allocated memory.\<close>

definition pool_put :: "MemoryPool \<Rightarrow> bytes \<Rightarrow> nat \<Rightarrow> nat \<Rightarrow> MemoryPool option" where
  "pool_put p key position disk_block_id = do {
     (off, p') \<leftarrow> allocate p (length key + 8) disk_block_id;
     b1 \<leftarrow> mwrite (mp_buffer p') off key;
     b2 \<leftarrow> mwrite b1 (off + length key) (le_encode 8 position);
     Some (p'\<lparr>mp_buffer := b2\<rparr>) }"

section \<open>The pools of all index types\<close>

record IndexMemoryPool =
  imp_capacity :: nat
  imp_list_len :: nat
  imp_pool :: "MemoryPool list"

fun type_key_len :: "IndexType \<Rightarrow> nat" where
  "type_key_len SRCIP = 4"
| "type_key_len DSTIP = 4"
| "type_key_len SRCPORT = 2"
| "type_key_len DSTPORT = 2"
| "type_key_len SRCIPv6 = 16"
| "type_key_len DSTIPv6 = 16"
| "type_key_len TOTAL_INDEX = 0"

definition pool_types :: "IndexType list" where
  "pool_types = [SRCIP, DSTIP, SRCPORT, DSTPORT, SRCIPv6, DSTIPv6]"

fun new_pools :: "nat \<Rightarrow> nat \<Rightarrow> IndexType list \<Rightarrow> pool_error + MemoryPool list" where
  "new_pools pool_capacity list_len [] = Inr []"
| "new_pools pool_capacity list_len (t # ts) =
     (let unit_len = type_key_len t + 8; cur = (pool_capacity div unit_len) * unit_len in
      case MemoryPool_new (replicate cur 0) cur list_len unit_len of
        Inl e \<Rightarrow> Inl e
      | Inr p \<Rightarrow> (case new_pools pool_capacity list_len ts of Inl e \<Rightarrow> Inl e | Inr ps \<Rightarrow> Inr (p # ps)))"

definition IndexMemoryPool_new :: "bool \<Rightarrow> nat \<Rightarrow> nat \<Rightarrow> pool_error + IndexMemoryPool" where
  "IndexMemoryPool_new mmap_ok capacity list_len =
     (if \<not> mmap_ok then Inl Pool_mmap_failed
      else case new_pools (capacity div 6) list_len pool_types of
        Inl e \<Rightarrow> Inl e
      | Inr ps \<Rightarrow> Inr \<lparr>imp_capacity = capacity, imp_list_len = list_len, imp_pool = ps\<rparr>)"

definition imp_put :: "IndexMemoryPool \<Rightarrow> IndexType \<Rightarrow> bytes \<Rightarrow> nat \<Rightarrow> nat \<Rightarrow> IndexMemoryPool option" where
  "imp_put ip t key position block_id = do {
     p \<leftarrow> vec_get (imp_pool ip) (index_num t);
     p' \<leftarrow> pool_put p key position block_id;
     ps \<leftarrow> vec_set (imp_pool ip) (index_num t) p';
     Some (ip\<lparr>imp_pool := ps\<rparr>) }"

definition imp_insert :: "IndexMemoryPool \<Rightarrow> FlowMetadata \<Rightarrow> nat \<Rightarrow> nat \<Rightarrow> (bool \<times> IndexMemoryPool) option" where
  "imp_insert ip meta position block_id = do {
     ip1 \<leftarrow> (if length (sourceAddress meta) = 4 \<and> length (destinationAddress meta) = 4
             then do {
               a \<leftarrow> imp_put ip SRCIP (sourceAddress meta) position block_id;
               imp_put a DSTIP (destinationAddress meta) position block_id }
             else if length (sourceAddress meta) = 16 \<and> length (destinationAddress meta) = 16
             then do {
               a \<leftarrow> imp_put ip SRCIPv6 (sourceAddress meta) position block_id;
               imp_put a DSTIPv6 (destinationAddress meta) position block_id }
             else Some ip);
     ip2 \<leftarrow> imp_put ip1 SRCPORT (le_encode 2 (unat (sourcePort meta))) position block_id;
     ip3 \<leftarrow> imp_put ip2 DSTPORT (le_encode 2 (unat (destinationPort meta))) position block_id;
     Some (True, ip3) }"

definition imp_getIndexLen :: "IndexMemoryPool \<Rightarrow> nat \<Rightarrow> nat \<Rightarrow> nat option" where
  "imp_getIndexLen ip t block_id = do { p \<leftarrow> vec_get (imp_pool ip) t; getLenOfDiskID p block_id }"

definition imp_writeToBuffer :: "IndexMemoryPool \<Rightarrow> nat \<Rightarrow> IndexBlockBuffer \<Rightarrow> nat \<Rightarrow> nat \<Rightarrow> nat \<Rightarrow> nat \<Rightarrow>
    IndexBlockBuffer option" where
  "imp_writeToBuffer ip t buffer block_id len thread_id disk_pos = do {
     p \<leftarrow> vec_get (imp_pool ip) t;
     mp_writeToBuffer p block_id len buffer thread_id disk_pos }"

fun recycle_all :: "MemoryPool list \<Rightarrow> nat \<Rightarrow> MemoryPool list option" where
  "recycle_all [] block_id = Some []"
| "recycle_all (p # ps) block_id = do {
     p' \<leftarrow> mp_recycle p block_id;
     ps' \<leftarrow> recycle_all ps block_id;
     Some (p' # ps') }"

definition imp_recycle :: "IndexMemoryPool \<Rightarrow> nat \<Rightarrow> IndexMemoryPool option" where
  "imp_recycle ip block_id = do { ps \<leftarrow> recycle_all (imp_pool ip) block_id; Some (ip\<lparr>imp_pool := ps\<rparr>) }"

section \<open>The pool as a bounded log\<close>

text \<open>A segment: the data block, whether it has been recycled, and its records, oldest first. The
  log operations say what the pool promises.\<close>

type_synonym segment = "nat \<times> bool \<times> bytes list"

definition seg_recs :: "segment list \<Rightarrow> bytes list" where
  "seg_recs segs = concat (map (\<lambda>s. snd (snd s)) segs)"

fun live :: "segment list \<Rightarrow> segment list" where
  "live (s # t # rest) = (if fst (snd s) then live (t # rest) else s # t # rest)"
| "live segs = segs"

definition log_put :: "nat \<Rightarrow> nat \<Rightarrow> nat \<Rightarrow> bytes \<Rightarrow> nat \<Rightarrow> segment list \<Rightarrow> segment list option" where
  "log_put capacity list_len unit_len rec block_id segs =
     (let ss = live segs; (i, d, rs) = last ss in
      if unit_len * length (seg_recs ss) = capacity then None
      else if i = block_id then Some (butlast ss @ [(i, d, rs @ [rec])])
      else if length ss = list_len then None
      else Some (ss @ [(block_id, False, [rec])]))"

fun log_recycle :: "nat \<Rightarrow> segment list \<Rightarrow> segment list" where
  "log_recycle block_id [] = []"
| "log_recycle block_id ((i, d, rs) # segs) =
     (if i = block_id then (i, True, rs) # segs else (i, d, rs) # log_recycle block_id segs)"

fun log_find :: "nat \<Rightarrow> segment list \<Rightarrow> bytes list" where
  "log_find block_id [] = []"
| "log_find block_id ((i, d, rs) # segs) = (if i = block_id then rs else log_find block_id segs)"

definition pool_node :: "MemoryPool \<Rightarrow> nat \<Rightarrow> NodeMeta" where
  "pool_node p k = mp_list p ! ((mp_head p + k) mod mp_list_len p)"

definition pool_base :: "MemoryPool \<Rightarrow> nat" where
  "pool_base p = start_offset (pool_node p 0)"

definition pool_ok :: "MemoryPool \<Rightarrow> bool" where
  "pool_ok p \<longleftrightarrow> 0 < mp_unit_len p \<and> mp_unit_len p dvd mp_capacity p \<and> 0 < mp_capacity p \<and>
     mp_capacity p < u64_max \<and> 2 \<le> mp_list_len p \<and> length (mp_list p) = mp_list_len p \<and>
     mp_head p < mp_list_len p \<and> length (mp_buffer p) = mp_capacity p \<and>
     mp_allocate_pos p \<le> mp_capacity p \<and> mp_unit_len p dvd mp_allocate_pos p"

definition pool_log :: "MemoryPool \<Rightarrow> segment list \<Rightarrow> bool" where
  "pool_log p segs \<longleftrightarrow> pool_ok p \<and> segs \<noteq> [] \<and> length segs \<le> mp_list_len p \<and>
     mp_tail p = (mp_head p + length segs) mod mp_list_len p \<and>
     (\<forall>k < length segs.
        data_block_id (pool_node p k) = fst (segs ! k) \<and> dirty (pool_node p k) = fst (snd (segs ! k)) \<and>
        start_offset (pool_node p k) =
          (pool_base p + mp_unit_len p * length (seg_recs (take k segs))) mod mp_capacity p) \<and>
     pool_base p < mp_capacity p \<and> mp_unit_len p dvd pool_base p \<and>
     (\<forall>s \<in> set segs. snd (snd s) \<noteq> []) \<and> (\<forall>r \<in> set (seg_recs segs). length r = mp_unit_len p) \<and>
     mp_unit_len p * length (seg_recs segs) \<le> mp_capacity p \<and>
     mp_allocate_pos p mod mp_capacity p =
       (pool_base p + mp_unit_len p * length (seg_recs segs)) mod mp_capacity p \<and>
     ring_read (mp_buffer p) (mp_capacity p) (pool_base p) (mp_unit_len p * length (seg_recs segs))
       = concat (seg_recs segs)"

lemma seg_recs_simps [simp]:
  "seg_recs [] = []" "seg_recs (s # segs) = snd (snd s) @ seg_recs segs"
  "seg_recs (segs @ segs') = seg_recs segs @ seg_recs segs'"
  by (simp_all add: seg_recs_def)

lemma concat_units: "\<forall>r \<in> set rs. length r = u \<Longrightarrow> length (concat rs) = u * length rs"
  by (induction rs) simp_all

lemma pool_node_head:
  assumes "pool_ok p"
  shows "pool_node (p\<lparr>mp_head := (mp_head p + 1) mod mp_list_len p\<rparr>) k = pool_node p (Suc k)"
proof -
  have "((mp_head p + 1) mod mp_list_len p + k) mod mp_list_len p = (mp_head p + 1 + k) mod mp_list_len p"
    by (rule mod_add_left_eq)
  then show ?thesis by (simp add: pool_node_def Suc_eq_plus1 ac_simps)
qed

lemma pool_log_tl:
  assumes log: "pool_log p (s # segs)" and ne: "segs \<noteq> []"
  shows "pool_log (p\<lparr>mp_head := (mp_head p + 1) mod mp_list_len p\<rparr>) segs"
proof -
  let ?p = "p\<lparr>mp_head := (mp_head p + 1) mod mp_list_len p\<rparr>"
  let ?C = "mp_capacity p" and ?u = "mp_unit_len p" and ?L = "mp_list_len p"
  let ?m = "length (snd (snd s))"
  have ok: "pool_ok p" using log by (simp add: pool_log_def)
  then have C: "0 < ?C" and L: "0 < ?L" by (simp_all add: pool_ok_def)
  note nd = pool_node_head [OF ok]
  have nodes: "data_block_id (pool_node p k) = fst ((s # segs) ! k)" "dirty (pool_node p k) = fst (snd ((s # segs) ! k))"
      "start_offset (pool_node p k) = (pool_base p + ?u * length (seg_recs (take k (s # segs)))) mod ?C"
    if "k < Suc (length segs)" for k
    using log that by (simp_all add: pool_log_def)
  have base: "pool_base ?p = (pool_base p + ?u * ?m) mod ?C"
    using nodes(3) [of 1] ne nd [of 0] by (simp add: pool_base_def One_nat_def)
  have start: "start_offset (pool_node ?p k) = (pool_base ?p + ?u * length (seg_recs (take k segs))) mod ?C"
    if "k < length segs" for k
  proof -
    let ?t = "length (seg_recs (take k segs))"
    have "((pool_base p + ?u * ?m) mod ?C + ?u * ?t) mod ?C = (pool_base p + ?u * ?m + ?u * ?t) mod ?C"
      by (rule mod_add_left_eq)
    then show ?thesis using nodes(3) [of "Suc k"] that unfolding nd base by (simp add: distrib_left ac_simps)
  qed
  have tail: "mp_tail p = ((mp_head p + 1) mod ?L + length segs) mod ?L"
  proof -
    have "((mp_head p + 1) mod ?L + length segs) mod ?L = (mp_head p + 1 + length segs) mod ?L"
      by (rule mod_add_left_eq)
    then show ?thesis using log by (simp add: pool_log_def Suc_eq_plus1 ac_simps)
  qed
  have alloc: "mp_allocate_pos p mod ?C = (pool_base ?p + ?u * length (seg_recs segs)) mod ?C"
  proof -
    let ?t = "length (seg_recs segs)"
    have "((pool_base p + ?u * ?m) mod ?C + ?u * ?t) mod ?C = (pool_base p + ?u * ?m + ?u * ?t) mod ?C"
      by (rule mod_add_left_eq)
    then show ?thesis using log unfolding base by (simp add: pool_log_def distrib_left ac_simps)
  qed
  have unit: "\<forall>r \<in> set (snd (snd s)). length r = ?u" using log by (simp add: pool_log_def)
  have "ring_read (mp_buffer p) ?C (pool_base p) (?u * ?m + ?u * length (seg_recs segs))
      = concat (snd (snd s)) @ concat (seg_recs segs)"
    using log by (simp add: pool_log_def distrib_left)
  then have "ring_read (mp_buffer p) ?C (pool_base p) (?u * ?m) @
      ring_read (mp_buffer p) ?C (pool_base ?p) (?u * length (seg_recs segs)) = concat (snd (snd s)) @ concat (seg_recs segs)"
    unfolding ring_read_append base .
  then have rd: "ring_read (mp_buffer p) ?C (pool_base ?p) (?u * length (seg_recs segs)) = concat (seg_recs segs)"
    using concat_units [OF unit] by simp
  have "?u dvd pool_base ?p" unfolding base using log ok
    by (intro dvd_mod dvd_add) (simp_all add: pool_log_def pool_ok_def)
  moreover have "pool_ok ?p" using ok L by (simp add: pool_ok_def)
  moreover have "pool_base ?p < ?C" unfolding base using C by simp
  ultimately show ?thesis
    using log ne nodes start tail alloc rd unfolding pool_log_def
    by (auto simp: nd distrib_left)
qed

lemma pool_log_ok: "pool_log p segs \<Longrightarrow> pool_ok p"
  by (simp add: pool_log_def)

lemma node_get:
  assumes "pool_ok p"
  shows "vec_get (mp_list p) ((mp_head p + k) mod mp_list_len p) = Some (pool_node p k)"
    and "vec_get (mp_list p) (mp_head p) = Some (pool_node p 0)"
  using assms by (simp_all add: vec_get_def pool_node_def pool_ok_def)

lemma head_distinct:
  assumes "pool_ok p" and "i < j" and "j < i + mp_list_len p"
  shows "(mp_head p + i) mod mp_list_len p \<noteq> (mp_head p + j) mod mp_list_len p"
proof
  assume "(mp_head p + i) mod mp_list_len p = (mp_head p + j) mod mp_list_len p"
  then have "mp_list_len p dvd (mp_head p + j) - (mp_head p + i)"
    using assms(2) by (intro mod_eq_dvd_iff_nat [THEN iffD1]) simp_all
  then have "mp_list_len p dvd j - i" by simp
  moreover have "0 < j - i" "j - i < mp_list_len p" using assms(2,3) by auto
  ultimately show False by (meson nat_dvd_not_less)
qed

lemma drop_dirty_live:
  "pool_log p segs \<Longrightarrow> length segs \<le> n \<Longrightarrow>
     \<exists>h. drop_dirty n p = Some (p\<lparr>mp_head := h\<rparr>) \<and> pool_log (p\<lparr>mp_head := h\<rparr>) (live segs)"
proof (induction segs arbitrary: p n)
  case Nil
  then show ?case by (simp add: pool_log_def)
next
  case (Cons s segs)
  have ok: "pool_ok p" by (rule pool_log_ok [OF Cons.prems(1)])
  obtain n' where n: "n = Suc n'" using Cons.prems(2) by (cases n) simp_all
  have d: "dirty (pool_node p 0) = fst (snd s)" using Cons.prems(1) by (auto simp: pool_log_def)
  have tail: "mp_tail p = (mp_head p + Suc (length segs)) mod mp_list_len p"
    and le: "Suc (length segs) \<le> mp_list_len p" using Cons.prems(1) by (simp_all add: pool_log_def)
  show ?case
  proof (cases "segs = []")
    case True
    then have "(mp_head p + 1) mod mp_list_len p = mp_tail p" using tail by (simp add: Suc_eq_plus1)
    then have "drop_dirty n p = Some (p\<lparr>mp_head := mp_head p\<rparr>)"
      by (simp add: n node_get [OF ok])
    then show ?thesis using Cons.prems(1) True by (intro exI [of _ "mp_head p"]) simp
  next
    case False
    then obtain t rest where segs: "segs = t # rest" by (cases segs) auto
    have "(mp_head p + 1) mod mp_list_len p \<noteq> mp_tail p"
      using head_distinct [OF ok, of 1 "Suc (length segs)"] tail le False by (simp add: One_nat_def)
    note step = this
    show ?thesis
    proof (cases "fst (snd s)")
      case True
      from Cons.IH [OF pool_log_tl [OF Cons.prems(1) False], of n'] Cons.prems(2) n obtain h where
        "drop_dirty n' (p\<lparr>mp_head := (mp_head p + 1) mod mp_list_len p\<rparr>) = Some (p\<lparr>mp_head := h\<rparr>)"
        "pool_log (p\<lparr>mp_head := h\<rparr>) (live segs)" by auto
      then show ?thesis using True step d segs by (intro exI [of _ h]) (simp add: n node_get [OF ok])
    next
      case False
      then show ?thesis using Cons.prems(1) d segs
        by (intro exI [of _ "mp_head p"]) (simp add: n node_get [OF ok])
    qed
  qed
qed

lemma live_suffix: "segs \<noteq> [] \<Longrightarrow> live segs \<noteq> [] \<and> length (live segs) \<le> length segs"
  by (induction segs rule: live.induct) (auto simp: le_Suc_eq)

text \<open>Storing a record behind the log.\<close>

lemma mwrite_two:
  assumes "off + length key + length rest \<le> length b"
  shows "\<exists>b1 b2. mwrite b off key = Some b1 \<and> mwrite b1 (off + length key) rest = Some b2 \<and>
    mwrite b off (key @ rest) = Some b2"
proof -
  let ?o = "off + length key"
  obtain b1 where b1: "mwrite b off key = Some b1" using assms by (simp add: mwrite_def)
  then have e1: "b1 = take off b @ key @ drop ?o b" by (simp add: mwrite_Some)
  have l1: "length b1 = length b" by (rule mwrite_length [OF b1])
  have "take ?o b1 = take off b @ key" unfolding e1 using assms by simp
  moreover have "drop (?o + length rest) b1 = drop (?o + length rest) b"
    unfolding e1 using assms by (simp add: add.commute [of "length rest"])
  ultimately have "mwrite b1 ?o rest = Some (take off b @ key @ rest @ drop (?o + length rest) b)"
    using assms l1 by (simp add: mwrite_def)
  moreover have "mwrite b off (key @ rest) = Some (take off b @ key @ rest @ drop (?o + length rest) b)"
    using assms by (simp add: mwrite_def add.assoc)
  ultimately show ?thesis using b1 by blast
qed

lemma put_room:
  assumes log: "pool_log p segs"
  defines "start \<equiv> (if mp_allocate_pos p + mp_unit_len p > mp_capacity p then 0 else mp_allocate_pos p)"
  shows "start = (pool_base p + mp_unit_len p * length (seg_recs segs)) mod mp_capacity p"
    and "start + mp_unit_len p \<le> mp_capacity p"
    and "mp_unit_len p dvd start"
    and "pool_base p \<ge> start \<and> pool_base p < start + mp_unit_len p \<longleftrightarrow>
      mp_unit_len p * length (seg_recs segs) = mp_capacity p"
proof -
  let ?C = "mp_capacity p" and ?u = "mp_unit_len p" and ?B = "pool_base p" and ?n = "length (seg_recs segs)"
  have ok: "0 < ?u" "?u dvd ?C" "0 < ?C" "mp_allocate_pos p \<le> ?C" "?u dvd mp_allocate_pos p"
    using log by (simp_all add: pool_log_def pool_ok_def)
  have b: "?B < ?C" "?u dvd ?B" and al: "mp_allocate_pos p mod ?C = (?B + ?u * ?n) mod ?C"
    and tot: "?u * ?n \<le> ?C" using log by (simp_all add: pool_log_def)
  have uC: "?u \<le> ?C" using ok by (simp add: dvd_imp_le)
  have gap: "x + ?u \<le> y" if "?u dvd x" "?u dvd y" "x < y" for x y
  proof -
    have "?u dvd y - x" using that by simp
    then have "?u \<le> y - x" using that(3) by (simp add: dvd_imp_le)
    then show ?thesis using that(3) by linarith
  qed
  have st: "start = mp_allocate_pos p mod ?C"
    using ok gap [OF ok(5,2)] uC unfolding start_def by (cases "mp_allocate_pos p = ?C") auto
  then show s: "start = (?B + ?u * ?n) mod ?C" using al by simp
  have lt: "start < ?C" using st ok(3) by simp
  show du: "?u dvd start" unfolding st using ok by (intro dvd_mod) simp_all
  show "start + ?u \<le> ?C" by (rule gap [OF du ok(2) lt])
  have ne: "0 < ?n"
  proof -
    obtain x xs where x: "segs = x # xs" using log by (cases segs) (auto simp: pool_log_def)
    then show ?thesis using log by (simp add: pool_log_def)
  qed
  have eq: "?B \<ge> start \<and> ?B < start + ?u \<longleftrightarrow> ?B = start"
    using gap [OF du b(2)] ok(1) by (cases "start < ?B") auto
  show "?B \<ge> start \<and> ?B < start + ?u \<longleftrightarrow> ?u * ?n = ?C"
  proof
    assume "?B \<ge> start \<and> ?B < start + ?u"
    then have "(?B + ?u * ?n) mod ?C = ?B mod ?C" using eq s b by simp
    then have "?C dvd ?u * ?n" using mod_eq_dvd_iff_nat [of ?B "?B + ?u * ?n" ?C] by simp
    moreover have "0 < ?u * ?n" using ok ne by simp
    ultimately show "?u * ?n = ?C" using tot by (simp add: dvd_imp_le le_antisym)
  next
    assume "?u * ?n = ?C"
    then have "start = ?B" using s b by simp
    then show "?B \<ge> start \<and> ?B < start + ?u" using eq by simp
  qed
qed

lemma ring_after_put:
  assumes log: "pool_log p segs" and rec: "length rec = mp_unit_len p"
    and room: "mp_unit_len p * length (seg_recs segs) \<noteq> mp_capacity p"
    and start: "start = (pool_base p + mp_unit_len p * length (seg_recs segs)) mod mp_capacity p"
      "start + mp_unit_len p \<le> mp_capacity p"
  shows "\<exists>b. mwrite (mp_buffer p) start rec = Some b \<and> length b = mp_capacity p \<and>
    mp_unit_len p * length (seg_recs segs) + mp_unit_len p \<le> mp_capacity p \<and>
    ring_read b (mp_capacity p) (pool_base p) (mp_unit_len p * length (seg_recs segs) + mp_unit_len p)
      = concat (seg_recs segs) @ rec"
proof -
  let ?C = "mp_capacity p" and ?u = "mp_unit_len p" and ?T = "mp_unit_len p * length (seg_recs segs)"
  have l: "length (mp_buffer p) = ?C" and B: "pool_base p < ?C" and T: "?T \<le> ?C" and d: "?u dvd ?C"
    and rd: "ring_read (mp_buffer p) ?C (pool_base p) ?T = concat (seg_recs segs)"
    using log by (simp_all add: pool_log_def pool_ok_def)
  have "?u dvd ?C - ?T" using d by simp
  then have fit: "?T + ?u \<le> ?C" using room T dvd_imp_le [of ?u "?C - ?T"] by linarith
  obtain b where w: "mwrite (mp_buffer p) start rec = Some b"
    using l start(2) rec by (simp add: mwrite_def)
  have "ring_read b ?C (pool_base p) (?T + length rec) = ring_read (mp_buffer p) ?C (pool_base p) ?T @ rec"
    by (rule ring_read_mwrite_append [OF B l]) (use fit rec start w in simp_all)
  then show ?thesis using w mwrite_length [OF w] l fit rd rec by simp
qed

lemma after_put:
  assumes log: "pool_log p segs" and ok: "pool_ok p'"
    and same: "mp_unit_len p' = mp_unit_len p" "mp_capacity p' = mp_capacity p" "mp_list_len p' = mp_list_len p"
      "mp_head p' = mp_head p" "pool_base p' = pool_base p" "mp_allocate_pos p' = start + mp_unit_len p"
    and recs: "seg_recs segs' = seg_recs segs @ [rec]" and ne: "segs' \<noteq> []" "\<forall>s \<in> set segs'. snd (snd s) \<noteq> []"
    and len: "length segs' \<le> mp_list_len p" "mp_tail p' = (mp_head p + length segs') mod mp_list_len p"
    and nodes: "\<And>k. k < length segs' \<Longrightarrow> data_block_id (pool_node p' k) = fst (segs' ! k) \<and>
        dirty (pool_node p' k) = fst (snd (segs' ! k)) \<and> start_offset (pool_node p' k) =
          (pool_base p + mp_unit_len p * length (seg_recs (take k segs'))) mod mp_capacity p"
    and b: "length rec = mp_unit_len p"
      "mp_unit_len p * length (seg_recs segs) + mp_unit_len p \<le> mp_capacity p"
      "ring_read (mp_buffer p') (mp_capacity p) (pool_base p) (mp_unit_len p * length (seg_recs segs) + mp_unit_len p)
         = concat (seg_recs segs) @ rec"
    and st: "start = (pool_base p + mp_unit_len p * length (seg_recs segs)) mod mp_capacity p"
  shows "pool_log p' segs'"
proof -
  let ?T = "mp_unit_len p * length (seg_recs segs)" and ?u = "mp_unit_len p" and ?C = "mp_capacity p"
  have T: "?u * length (seg_recs segs') = ?T + ?u" by (simp add: recs distrib_left)
  have "((pool_base p + ?T) mod ?C + ?u) mod ?C = (pool_base p + ?T + ?u) mod ?C" by (rule mod_add_left_eq)
  then have al: "(start + ?u) mod ?C = (pool_base p + (?T + ?u)) mod ?C"
    by (simp add: st add.assoc)
  have cc: "concat (seg_recs segs') = concat (seg_recs segs) @ rec" by (simp add: recs)
  have un: "\<forall>r \<in> set (seg_recs segs'). length r = ?u" using log b(1) by (simp add: pool_log_def recs)
  have old: "pool_base p < ?C" "?u dvd pool_base p" using log by (simp_all add: pool_log_def)
  show ?thesis
    unfolding pool_log_def same T cc using ok ne len nodes old un b(2,3) al by simp
qed

lemma pool_put_log:
  assumes log: "pool_log p segs" and len: "length key + 8 = mp_unit_len p"
  shows "case log_put (mp_capacity p) (mp_list_len p) (mp_unit_len p) (key @ le_encode 8 position) block_id segs of
      None \<Rightarrow> pool_put p key position block_id = None
    | Some segs' \<Rightarrow> \<exists>p'. pool_put p key position block_id = Some p' \<and> pool_log p' segs' \<and>
        mp_capacity p' = mp_capacity p \<and> mp_list_len p' = mp_list_len p \<and> mp_unit_len p' = mp_unit_len p"
proof -
  let ?rec = "key @ le_encode 8 position" and ?C = "mp_capacity p" and ?u = "mp_unit_len p" and ?L = "mp_list_len p"
  have "length segs \<le> ?L + 1" using log by (simp add: pool_log_def)
  from drop_dirty_live [OF log this] obtain h where
    dd: "drop_dirty (?L + 1) p = Some (p\<lparr>mp_head := h\<rparr>)" and lg: "pool_log (p\<lparr>mp_head := h\<rparr>) (live segs)" by blast
  define p1 where "p1 = p\<lparr>mp_head := h\<rparr>"
  define ss where "ss = live segs"
  have lg1: "pool_log p1 ss" using lg by (simp add: p1_def ss_def)
  have sz: "mp_capacity p1 = ?C" "mp_unit_len p1 = ?u" "mp_list_len p1 = ?L" by (simp_all add: p1_def)
  have ok1: "pool_ok p1" by (rule pool_log_ok [OF lg1])
  have ne: "ss \<noteq> []" and n: "0 < length ss" "length ss \<le> ?L" and L: "2 \<le> ?L"
    and tl: "mp_tail p1 = (mp_head p1 + length ss) mod ?L"
    and bC: "pool_base p1 < ?C" and Cm: "?C < u64_max" and ll: "length (mp_list p1) = ?L"
    using lg1 sz by (auto simp: pool_log_def pool_ok_def)
  define start where "start = (if mp_allocate_pos p1 + ?u > ?C then 0 else mp_allocate_pos p1)"
  note room = put_room [OF lg1, unfolded sz, folded start_def]
  obtain i d rs where last: "last ss = (i, d, rs)" by (cases "last ss")
  have nodes: "data_block_id (pool_node p1 k) = fst (ss ! k) \<and> dirty (pool_node p1 k) = fst (snd (ss ! k)) \<and>
      start_offset (pool_node p1 k) = (pool_base p1 + ?u * length (seg_recs (take k ss))) mod ?C"
    if "k < length ss" for k using lg1 sz that by (simp add: pool_log_def)
  have lastn: "vec_get (mp_list p1) ((mp_tail p1 + ?L - 1) mod ?L) = Some (pool_node p1 (length ss - 1))"
  proof -
    have "(mp_tail p1 + ?L - 1) mod ?L = (mp_head p1 + (length ss - 1)) mod ?L"
    proof -
      have "mp_tail p1 + ?L - 1 = mp_tail p1 + (?L - 1)" using L by simp
      then have "(mp_tail p1 + ?L - 1) mod ?L = (mp_head p1 + length ss + (?L - 1)) mod ?L"
        by (simp add: tl mod_add_left_eq)
      also have "mp_head p1 + length ss + (?L - 1) = (mp_head p1 + (length ss - 1)) + ?L" using n L by linarith
      finally show ?thesis by simp
    qed
    then show ?thesis using node_get(1) [OF ok1] sz by simp
  qed
  have lastid: "data_block_id (pool_node p1 (length ss - 1)) = i"
    using nodes [of "length ss - 1"] n last ne by (simp add: last_conv_nth)
  have nb: "vec_get (mp_list p1) (mp_head p1) = Some (pool_node p1 0)" by (rule node_get(2) [OF ok1])
  have al: "allocate p ?u block_id =
     (if ?u * length (seg_recs ss) = ?C then None
      else do { p' \<leftarrow> (if block_id \<noteq> i then addNodeMeta p1 block_id start else Some p1);
                Some (start, p'\<lparr>mp_allocate_pos := start + ?u\<rparr>) })"
  proof -
    have base: "start_offset (pool_node p1 0) = pool_base p1" by (simp add: pool_base_def)
    have nm: "pool_base p1 \<noteq> u64_max" using bC Cm by simp
    show ?thesis
      unfolding allocate_def dd p1_def [symmetric] Let_def
      using nm room(4) by (simp add: sz nb lastn lastid base start_def [symmetric])
  qed
  have put: "pool_put p key position block_id = do {
      (off, p') \<leftarrow> allocate p ?u block_id;
      b1 \<leftarrow> mwrite (mp_buffer p') off key;
      b2 \<leftarrow> mwrite b1 (off + length key) (le_encode 8 position);
      Some (p'\<lparr>mp_buffer := b2\<rparr>)}"
    unfolding pool_put_def len ..
  have lp: "log_put ?C ?L ?u ?rec block_id segs =
     (if ?u * length (seg_recs ss) = ?C then None
      else if i = block_id then Some (butlast ss @ [(i, d, rs @ [?rec])])
      else if length ss = ?L then None
      else Some (ss @ [(block_id, False, [?rec])]))"
    unfolding log_put_def Let_def ss_def [symmetric] last by simp
  show ?thesis
  proof (cases "?u * length (seg_recs ss) = ?C")
    case True
    then show ?thesis unfolding lp put al by simp
  next
    case False
    have rl: "length ?rec = ?u" using len by simp
    from ring_after_put [OF lg1, unfolded sz, OF rl False room(1,2)] obtain b where
      b: "mwrite (mp_buffer p1) start ?rec = Some b" "length b = ?C" "?u * length (seg_recs ss) + ?u \<le> ?C"
        "ring_read b ?C (pool_base p1) (?u * length (seg_recs ss) + ?u) = concat (seg_recs ss) @ ?rec" by blast
    have "start + length key + length (le_encode 8 position) \<le> length (mp_buffer p1)"
      using b(1) rl by (auto simp: mwrite_Some)
    from mwrite_two [OF this] b(1) obtain b1 where
      w: "mwrite (mp_buffer p1) start key = Some b1"
        "mwrite b1 (start + length key) (le_encode 8 position) = Some b" by auto
    show ?thesis
    proof (cases "i = block_id")
      case True
      let ?p' = "p1\<lparr>mp_allocate_pos := start + ?u, mp_buffer := b\<rparr>"
      let ?segs' = "butlast ss @ [(i, d, rs @ [?rec])]"
      have sp: "ss = butlast ss @ [(i, d, rs)]" using ne last by (metis append_butlast_last_id)
      have nd: "pool_node ?p' k = pool_node p1 k" for k by (simp add: pool_node_def)
      have nth: "fst (?segs' ! k) = fst (ss ! k)" "fst (snd (?segs' ! k)) = fst (snd (ss ! k))"
        "take k ?segs' = take k ss" if "k < length ss" for k
      proof -
        have k: "k < length (butlast ss) \<or> k = length (butlast ss)" using that by auto
        then show "fst (?segs' ! k) = fst (ss ! k)" "fst (snd (?segs' ! k)) = fst (snd (ss ! k))"
          using sp by (metis fst_conv nth_append nth_append_length snd_conv)+
        show "take k ?segs' = take k ss" using k sp that by (simp add: take_butlast)
      qed
      have recs: "seg_recs ?segs' = seg_recs ss @ [?rec]"
        using arg_cong [OF sp, of seg_recs] by simp
      have "pool_log ?p' ?segs'"
      proof (rule after_put [OF lg1, unfolded sz, where start = start and rec = ?rec])
        show "pool_ok ?p'" using ok1 room(2,3) b(2) sz by (simp add: pool_ok_def)
        show "pool_base ?p' = pool_base p1" by (simp add: pool_base_def nd)
        show "seg_recs ?segs' = seg_recs ss @ [?rec]" by (rule recs)
        show "\<forall>s \<in> set ?segs'. snd (snd s) \<noteq> []"
          using lg1 by (auto simp: pool_log_def dest: in_set_butlastD)
        show "data_block_id (pool_node ?p' k) = fst (?segs' ! k) \<and> dirty (pool_node ?p' k) = fst (snd (?segs' ! k)) \<and>
            start_offset (pool_node ?p' k) = (pool_base p1 + ?u * length (seg_recs (take k ?segs'))) mod ?C"
          if "k < length ?segs'" for k
        proof -
          have "k < length ss" using that n(1) by simp
          then show ?thesis using nodes nth unfolding nd by simp
        qed
      qed (use sz n tl b rl room(1) in simp_all)
      moreover have "pool_put p key position block_id = Some ?p'"
        unfolding put al using False True w by simp
      ultimately show ?thesis unfolding lp using False True sz by simp
    next
      case other: False
      show ?thesis
      proof (cases "length ss = ?L")
        case True
        then have "mp_head p1 = mp_tail p1" using tl ok1 sz by (simp add: pool_ok_def)
        then show ?thesis unfolding lp put al using False other True by (simp add: addNodeMeta_def)
      next
        case room2: False
        then have lt: "length ss < ?L" using n by simp
        let ?new = "\<lparr>data_block_id = block_id, start_offset = start, dirty = False\<rparr>"
        let ?p' = "p1\<lparr>mp_list := (mp_list p1)[mp_tail p1 := ?new], mp_tail := (mp_tail p1 + 1) mod ?L,
          mp_allocate_pos := start + ?u, mp_buffer := b\<rparr>"
        let ?segs' = "ss @ [(block_id, False, [?rec])]"
        have hL: "mp_head p1 < ?L" using ok1 sz by (simp add: pool_ok_def)
        have tl_lt: "mp_tail p1 < length (mp_list p1)" using tl ll L by simp
        have hne: "mp_head p1 \<noteq> mp_tail p1"
          using head_distinct [OF ok1, of 0 "length ss"] n(1) lt tl hL sz by simp
        have nd: "pool_node ?p' k = pool_node p1 k" if "k < length ss" for k
          using head_distinct [OF ok1 that] lt sz tl by (simp add: pool_node_def)
        have ndn: "pool_node ?p' (length ss) = ?new" using tl tl_lt sz by (simp add: pool_node_def)
        have an: "addNodeMeta p1 block_id start = Some (p1\<lparr>mp_list := (mp_list p1)[mp_tail p1 := ?new],
            mp_tail := (mp_tail p1 + 1) mod ?L\<rparr>)"
          using hne tl_lt sz by (simp add: addNodeMeta_def vec_set_def)
        have tl': "(mp_tail p1 + 1) mod ?L = (mp_head p1 + length ?segs') mod ?L"
        proof -
          have "((mp_head p1 + length ss) mod ?L + 1) mod ?L = (mp_head p1 + length ss + 1) mod ?L"
            by (rule mod_add_left_eq)
          then show ?thesis by (simp add: tl Suc_eq_plus1 add.assoc)
        qed
        have "pool_log ?p' ?segs'"
        proof (rule after_put [OF lg1, unfolded sz, where start = start and rec = ?rec])
          show "pool_ok ?p'" using ok1 room(2,3) b(2) sz by (simp add: pool_ok_def)
          show "pool_base ?p' = pool_base p1" unfolding pool_base_def nd [OF n(1)] ..
          show "data_block_id (pool_node ?p' k) = fst (?segs' ! k) \<and> dirty (pool_node ?p' k) = fst (snd (?segs' ! k)) \<and>
              start_offset (pool_node ?p' k) = (pool_base p1 + ?u * length (seg_recs (take k ?segs'))) mod ?C"
            if "k < length ?segs'" for k
          proof (cases "k = length ss")
            case True
            then show ?thesis using ndn room(1) by simp
          next
            case False
            then have k: "k < length ss" using that by simp
            show ?thesis unfolding nd [OF k] using nodes [OF k] k by (simp add: nth_append)
          qed
        qed (use sz lt tl' b rl room(1) lg1 in \<open>simp_all add: pool_log_def\<close>)
        moreover have "pool_put p key position block_id = Some ?p'"
          unfolding put al using False other w an by simp
        ultimately show ?thesis unfolding lp using False other room2 sz by simp
      qed
    qed
  qed
qed

section \<open>Searching the log\<close>

fun find_idx :: "nat \<Rightarrow> segment list \<Rightarrow> nat option" where
  "find_idx block_id [] = None"
| "find_idx block_id (s # segs) = (if fst s = block_id then Some 0 else map_option Suc (find_idx block_id segs))"

lemma find_idx_Some:
  "find_idx i segs = Some k \<Longrightarrow> k < length segs \<and> fst (segs ! k) = i \<and> log_find i segs = snd (snd (segs ! k)) \<and>
     log_recycle i segs = segs[k := (i, True, snd (snd (segs ! k)))]"
  by (induction segs arbitrary: k) (auto split: if_splits)

lemma find_idx_None: "find_idx i segs = None \<Longrightarrow> log_find i segs = [] \<and> log_recycle i segs = segs"
  by (induction segs) (auto split: if_splits)

lemma find_node_from:
  assumes log: "pool_log p segs" and room: "length segs < mp_list_len p"
  shows "k + length rest = length segs \<Longrightarrow> rest = drop k segs \<Longrightarrow> length rest \<le> n \<Longrightarrow>
    find_node n p i ((mp_head p + k) mod mp_list_len p) =
      Some (map_option (\<lambda>j. (mp_head p + k + j) mod mp_list_len p) (find_idx i rest))"
proof (induction rest arbitrary: k n)
  case Nil
  then have "k = length segs" by simp
  then have "(mp_head p + k) mod mp_list_len p = mp_tail p" using log by (simp add: pool_log_def)
  then show ?case by (cases n) simp_all
next
  case (Cons s rest)
  have ok: "pool_ok p" by (rule pool_log_ok [OF log])
  from Cons.prems obtain n' where n: "n = Suc n'" by (cases n) simp_all
  have k: "k < length segs" using Cons.prems(1) by simp
  have s: "s = segs ! k" and rest: "rest = drop (Suc k) segs"
    using Cons.prems(2) k by (metis Cons_nth_drop_Suc list.inject)+
  have ne: "(mp_head p + k) mod mp_list_len p \<noteq> mp_tail p"
    using head_distinct [OF ok k] room log by (simp add: pool_log_def)
  have id: "data_block_id (pool_node p k) = fst s" using log k s by (simp add: pool_log_def)
  have next_h: "((mp_head p + k) mod mp_list_len p + 1) mod mp_list_len p = (mp_head p + Suc k) mod mp_list_len p"
  proof -
    have "((mp_head p + k) mod mp_list_len p + 1) mod mp_list_len p = (mp_head p + k + 1) mod mp_list_len p"
      by (rule mod_add_left_eq)
    then show ?thesis by (simp add: Suc_eq_plus1 add.assoc)
  qed
  have "find_node n' p i ((mp_head p + Suc k) mod mp_list_len p) =
      Some (map_option (\<lambda>j. (mp_head p + Suc k + j) mod mp_list_len p) (find_idx i rest))"
    by (rule Cons.IH) (use Cons.prems n rest in simp_all)
  then show ?case using ne id
    by (cases "find_idx i rest") (simp_all add: n node_get(1) [OF ok] next_h)
qed

lemma find_node_log:
  assumes "pool_log p segs" and "length segs < mp_list_len p"
  shows "find_node (mp_list_len p) p i (mp_head p) =
    Some (map_option (\<lambda>j. (mp_head p + j) mod mp_list_len p) (find_idx i segs))"
proof -
  have "mp_head p mod mp_list_len p = mp_head p" using assms(1) by (simp add: pool_log_def pool_ok_def)
  then show ?thesis using find_node_from [OF assms, of 0 segs "mp_list_len p" i] assms by simp
qed

lemma find_node_full:
  assumes "pool_log p segs" and "length segs = mp_list_len p"
  shows "find_node (mp_list_len p) p i (mp_head p) = Some None"
proof -
  have "mp_head p = mp_tail p" using assms by (simp add: pool_log_def pool_ok_def)
  moreover obtain n where "mp_list_len p = Suc n"
    using assms(1) by (cases "mp_list_len p") (simp_all add: pool_log_def pool_ok_def)
  ultimately show ?thesis by simp
qed

lemma seg_recs_take_Suc: "k < length segs \<Longrightarrow> seg_recs (take (Suc k) segs) = seg_recs (take k segs) @ snd (snd (segs ! k))"
  by (simp add: take_Suc_conv_app_nth)

lemma seg_recs_split: "k < length segs \<Longrightarrow>
    seg_recs segs = seg_recs (take k segs) @ snd (snd (segs ! k)) @ seg_recs (drop (Suc k) segs)"
  by (metis append_Cons append_take_drop_id Cons_nth_drop_Suc seg_recs_simps(2,3))

text \<open>The cyclic distance of the ends of a segment is its length.\<close>

lemma end_minus_start:
  assumes "(s::nat) < C" and "0 < m" and "m \<le> C" and "e mod C = (s + m) mod C" and "e \<le> C"
  shows "(if e > s then e - s else C - s + e) = m"
proof (cases "s + m < C")
  case True
  then have "e mod C = s + m" using assms(4) by simp
  then show ?thesis using assms True by (cases "e = C") auto
next
  case False
  then have "(s + m) mod C = s + m - C" using assms by (simp add: mod_if)
  then show ?thesis using assms False by (cases "e = C") auto
qed

lemma getLen_log:
  assumes log: "pool_log p segs" and room: "length segs < mp_list_len p" and tail: "mp_tail p \<noteq> 0"
  shows "getLenOfDiskID p i = Some (mp_unit_len p * length (log_find i segs))"
proof (cases "find_idx i segs")
  case None
  then show ?thesis using find_idx_None [OF None]
    by (simp add: getLenOfDiskID_def find_node_log [OF log room])
next
  case (Some k)
  let ?L = "mp_list_len p" and ?C = "mp_capacity p" and ?u = "mp_unit_len p"
  let ?h = "(mp_head p + k) mod ?L" and ?rs = "log_find i segs"
  have ok: "pool_ok p" by (rule pool_log_ok [OF log])
  then have L: "2 \<le> ?L" and C: "0 < ?C" and u: "0 < ?u" by (simp_all add: pool_ok_def)
  from find_idx_Some [OF Some] have k: "k < length segs" and rs: "?rs = snd (snd (segs ! k))" by simp_all
  have st: "start_offset (pool_node p j) = (pool_base p + ?u * length (seg_recs (take j segs))) mod ?C"
    if "j < length segs" for j using log that by (simp add: pool_log_def)
  let ?s = "start_offset (pool_node p k)"
  have s: "?s < ?C" using st [OF k] C by simp
  have "?rs \<noteq> []" using log k rs by (simp add: pool_log_def)
  then have m0: "0 < ?u * length ?rs" using u by simp
  have "length ?rs \<le> length (seg_recs segs)" using seg_recs_split [OF k] rs by simp
  then have "?u * length ?rs \<le> ?u * length (seg_recs segs)" by (rule mult_le_mono2)
  also have "\<dots> \<le> ?C" using log by (simp add: pool_log_def)
  finally have mC: "?u * length ?rs \<le> ?C" .
  have nxt: "(pool_base p + ?u * length (seg_recs (take (Suc k) segs))) mod ?C = (?s + ?u * length ?rs) mod ?C"
    unfolding seg_recs_take_Suc [OF k] rs length_append distrib_left
    by (rule mod_add_shift [OF st [OF k, symmetric], symmetric])
  have h1: "(?h + 1) mod ?L = (mp_head p + Suc k) mod ?L"
  proof -
    have "(?h + 1) mod ?L = (mp_head p + k + 1) mod ?L" by (rule mod_add_left_eq)
    then show ?thesis by (simp add: Suc_eq_plus1 add.assoc)
  qed
  have hL: "?h < ?L" using L by simp
  obtain e where e: "(if ?h + 1 \<noteq> mp_tail p
        then map_option start_offset (vec_get (mp_list p) ((?h + 1) mod ?L)) else Some (mp_allocate_pos p)) = Some e"
    and eC: "e \<le> ?C" "e mod ?C = (?s + ?u * length ?rs) mod ?C"
  proof (cases "Suc k = length segs")
    case True
    then have "mp_tail p = (?h + 1) mod ?L" using h1 log by (simp add: pool_log_def)
    then have "?h + 1 = mp_tail p" using tail hL by (cases "?h + 1 = ?L") (simp_all add: mod_less)
    moreover have "mp_allocate_pos p mod ?C = (?s + ?u * length ?rs) mod ?C"
      using nxt True log by (simp add: pool_log_def)
    moreover have "mp_allocate_pos p \<le> ?C" using ok by (simp add: pool_ok_def)
    ultimately show thesis by (intro that [of "mp_allocate_pos p"]) simp_all
  next
    case False
    then have sk: "Suc k < length segs" using k by simp
    have "(?h + 1) mod ?L \<noteq> mp_tail p"
      unfolding h1 using head_distinct [OF ok sk] room log by (simp add: pool_log_def)
    moreover have "mp_tail p < ?L" using log L by (simp add: pool_log_def)
    ultimately have "?h + 1 \<noteq> mp_tail p" by (metis mod_less)
    moreover have "start_offset (pool_node p (Suc k)) \<le> ?C" using st [OF sk] C by (simp add: less_imp_le)
    moreover have "vec_get (mp_list p) ((?h + 1) mod ?L) = Some (pool_node p (Suc k))"
      unfolding h1 by (rule node_get(1) [OF ok])
    moreover have "start_offset (pool_node p (Suc k)) mod ?C = (?s + ?u * length ?rs) mod ?C"
      unfolding st [OF sk] nxt by simp
    ultimately show thesis
      by (intro that [of "start_offset (pool_node p (Suc k))"]) (simp_all only: if_True option.map simp_thms)
  qed
  have "(if e > ?s then e - ?s else ?C - ?s + e) = ?u * length ?rs"
    by (rule end_minus_start [OF s m0 mC eC(2,1)])
  then show ?thesis
    by (simp add: getLenOfDiskID_def find_node_log [OF log room] Some node_get(1) [OF ok] e)
qed

text \<open>Recycling marks the first node of the block; in a full list it finds nothing.\<close>

definition log_recycle_step :: "nat \<Rightarrow> nat \<Rightarrow> segment list \<Rightarrow> segment list" where
  "log_recycle_step list_len i segs = (if length segs = list_len then segs else log_recycle i segs)"

lemma seg_recs_update:
  "k < length segs \<Longrightarrow> snd (snd s) = snd (snd (segs ! k)) \<Longrightarrow> seg_recs (segs[k := s]) = seg_recs segs"
  "k < length segs \<Longrightarrow> snd (snd s) = snd (snd (segs ! k)) \<Longrightarrow> seg_recs (take j (segs[k := s])) = seg_recs (take j segs)"
proof -
  have m: "map (\<lambda>s. snd (snd s)) (segs[k := s]) = map (\<lambda>s. snd (snd s)) segs"
    if "k < length segs" "snd (snd s) = snd (snd (segs ! k))"
    using that by (simp add: map_update list_update_same_conv)
  show "k < length segs \<Longrightarrow> snd (snd s) = snd (snd (segs ! k)) \<Longrightarrow> seg_recs (segs[k := s]) = seg_recs segs"
    using m by (simp add: seg_recs_def)
  show "k < length segs \<Longrightarrow> snd (snd s) = snd (snd (segs ! k)) \<Longrightarrow> seg_recs (take j (segs[k := s])) = seg_recs (take j segs)"
    using m by (simp add: seg_recs_def take_map [symmetric])
qed

lemma recycle_log:
  assumes log: "pool_log p segs"
  shows "\<exists>p'. mp_recycle p i = Some p' \<and> pool_log p' (log_recycle_step (mp_list_len p) i segs) \<and>
    mp_capacity p' = mp_capacity p \<and> mp_list_len p' = mp_list_len p \<and> mp_unit_len p' = mp_unit_len p"
proof (cases "length segs = mp_list_len p")
  case True
  then show ?thesis using log by (simp add: mp_recycle_def find_node_full log_recycle_step_def)
next
  case False
  then have room: "length segs < mp_list_len p" using log by (simp add: pool_log_def)
  have ok: "pool_ok p" by (rule pool_log_ok [OF log])
  show ?thesis
  proof (cases "find_idx i segs")
    case None
    then show ?thesis using log False find_idx_None [OF None]
      by (simp add: mp_recycle_def find_node_log [OF log room] log_recycle_step_def)
  next
    case (Some k)
    from find_idx_Some [OF Some] have k: "k < length segs" "fst (segs ! k) = i"
      and rec: "log_recycle i segs = segs[k := (i, True, snd (snd (segs ! k)))]" by simp_all
    let ?h = "(mp_head p + k) mod mp_list_len p"
    let ?p' = "p\<lparr>mp_list := (mp_list p)[?h := (pool_node p k)\<lparr>dirty := True\<rparr>]\<rparr>"
    let ?segs' = "segs[k := (i, True, snd (snd (segs ! k)))]"
    have hL: "?h < length (mp_list p)" using ok by (simp add: pool_ok_def)
    have r: "mp_recycle p i = Some ?p'"
      using hL by (simp add: mp_recycle_def find_node_log [OF log room] Some node_get(1) [OF ok] vec_set_def)
    have nd: "pool_node ?p' j = (if j = k then (pool_node p k)\<lparr>dirty := True\<rparr> else pool_node p j)"
      if "j < length segs" for j
      using head_distinct [OF ok, of j k] head_distinct [OF ok, of k j] that k(1) room hL
      by (cases j k rule: linorder_cases) (auto simp: pool_node_def)
    have base: "pool_base ?p' = pool_base p"
    proof -
      have "0 < length segs" using k(1) by (rule le_less_trans [OF le0])
      from nd [OF this] show ?thesis by (cases "k = 0") (simp_all add: pool_base_def)
    qed
    have ok': "pool_ok ?p'" using ok by (simp add: pool_ok_def)
    have nodes: "\<forall>j < length segs. data_block_id (pool_node p j) = fst (segs ! j) \<and>
        dirty (pool_node p j) = fst (snd (segs ! j)) \<and> start_offset (pool_node p j) =
          (pool_base p + mp_unit_len p * length (seg_recs (take j segs))) mod mp_capacity p"
      using log by (simp add: pool_log_def)
    have nodes': "data_block_id (pool_node ?p' j) = fst (?segs' ! j) \<and>
        dirty (pool_node ?p' j) = fst (snd (?segs' ! j)) \<and> start_offset (pool_node ?p' j) =
          (pool_base p + mp_unit_len p * length (seg_recs (take j ?segs'))) mod mp_capacity p"
      if "j < length segs" for j
      using nodes that k unfolding nd [OF that] by (auto simp: seg_recs_update(2))
    have ne: "\<forall>s \<in> set ?segs'. snd (snd s) \<noteq> []"
      using log k(1) by (auto simp: pool_log_def dest!: set_update_subset_insert [THEN subsetD])
    have "pool_log ?p' ?segs'"
      using log ok' nodes' ne k(1) unfolding pool_log_def base seg_recs_update(1) [OF k(1), of "(i, True, snd (snd (segs ! k)))", simplified]
      by auto
    then show ?thesis using r rec False by (simp add: log_recycle_step_def)
  qed
qed

section \<open>Histories\<close>

definition pool_fresh :: "MemoryPool \<Rightarrow> bool" where
  "pool_fresh p \<longleftrightarrow> pool_ok p \<and> mp_head p = 0 \<and> mp_tail p = 1 \<and> mp_list p ! 0 = empty_node \<and> mp_allocate_pos p = 0"

datatype pool_op = P_put bytes nat nat | P_recycle nat

fun pool_step :: "pool_op \<Rightarrow> MemoryPool \<Rightarrow> MemoryPool option" where
  "pool_step (P_put key position i) p = pool_put p key position i"
| "pool_step (P_recycle i) p = mp_recycle p i"

fun log_step :: "nat \<Rightarrow> nat \<Rightarrow> nat \<Rightarrow> pool_op \<Rightarrow> segment list \<Rightarrow> segment list option" where
  "log_step C L u (P_put key position i) segs =
     (if segs = [] then Some [(i, False, [key @ le_encode 8 position])]
      else log_put C L u (key @ le_encode 8 position) i segs)"
| "log_step C L u (P_recycle i) segs = Some (log_recycle_step L i segs)"

fun run_list :: "('op \<Rightarrow> 's \<Rightarrow> 's option) \<Rightarrow> 'op list \<Rightarrow> 's \<Rightarrow> 's option" where
  "run_list step [] s = Some s"
| "run_list step (op # ops) s = (case step op s of None \<Rightarrow> None | Some s' \<Rightarrow> run_list step ops s')"

definition pool_rel :: "MemoryPool \<Rightarrow> segment list \<Rightarrow> bool" where
  "pool_rel p segs \<longleftrightarrow> (if segs = [] then pool_fresh p else pool_log p segs)"

fun pool_op_ok :: "nat \<Rightarrow> pool_op \<Rightarrow> bool" where
  "pool_op_ok u (P_put key position i) = (length key + 8 = u \<and> i < u64_max)"
| "pool_op_ok u (P_recycle i) = (i < u64_max)"

lemma pool_new_fresh:
  assumes "MemoryPool_new (replicate C 0) C L u = Inr p" and "0 < C" and "C < u64_max" and "0 < u" and "2 \<le> L"
  shows "pool_fresh p \<and> mp_capacity p = C \<and> mp_list_len p = L \<and> mp_unit_len p = u"
  using assms by (auto simp: MemoryPool_new_def pool_fresh_def pool_ok_def split: if_splits)

lemma fresh_node: "pool_fresh p \<Longrightarrow> vec_get (mp_list p) 0 = Some empty_node"
  by (simp add: pool_fresh_def pool_ok_def vec_get_def)

lemma put_fresh:
  assumes f: "pool_fresh p" and len: "length key + 8 = mp_unit_len p"
  shows "\<exists>p'. pool_put p key position i = Some p' \<and> pool_log p' [(i, False, [key @ le_encode 8 position])] \<and>
    mp_capacity p' = mp_capacity p \<and> mp_list_len p' = mp_list_len p \<and> mp_unit_len p' = mp_unit_len p \<and> mp_tail p' = 1"
proof -
  let ?C = "mp_capacity p" and ?u = "mp_unit_len p" and ?L = "mp_list_len p" and ?rec = "key @ le_encode 8 position"
  have ok: "0 < ?u" "?u dvd ?C" "0 < ?C" "?C < u64_max" "2 \<le> ?L" "length (mp_list p) = ?L"
    "length (mp_buffer p) = ?C" "mp_head p = 0" "mp_tail p = 1" "mp_allocate_pos p = 0"
    using f by (simp_all add: pool_fresh_def pool_ok_def)
  have uC: "?u \<le> ?C" using ok by (simp add: dvd_imp_le)
  let ?p1 = "p\<lparr>mp_list := (mp_list p)[0 := empty_node\<lparr>data_block_id := i, start_offset := 0\<rparr>], mp_allocate_pos := ?u\<rparr>"
  have dd: "drop_dirty (?L + 1) p = Some p"
    using fresh_node [OF f] ok by (simp add: Suc_eq_plus1 [symmetric] empty_node_def)
  have al: "allocate p ?u i = Some (0, ?p1)"
    unfolding allocate_def dd using ok uC fresh_node [OF f]
    by (simp add: Let_def vec_set_def empty_node_def)
  have rl: "length ?rec = ?u" using len by simp
  obtain b where b: "mwrite (mp_buffer p) 0 ?rec = Some b" using rl ok uC by (simp add: mwrite_def)
  have "0 + length key + length (le_encode 8 position) \<le> length (mp_buffer p)" using rl ok uC by simp
  from mwrite_two [OF this] b obtain b1 where
    w: "mwrite (mp_buffer p) 0 key = Some b1" "mwrite b1 (0 + length key) (le_encode 8 position) = Some b" by auto
  let ?p' = "?p1\<lparr>mp_buffer := b\<rparr>"
  have put: "pool_put p key position i = Some ?p'"
    unfolding pool_put_def len al using w by simp
  have nd: "pool_node ?p' 0 = empty_node\<lparr>data_block_id := i, start_offset := 0\<rparr>"
    using ok by (simp add: pool_node_def)
  have lb: "length b = ?C" using mwrite_length [OF b] ok by simp
  have "ring_read b ?C 0 (0 + length ?rec) = ring_read (mp_buffer p) ?C 0 0 @ ?rec"
    by (rule ring_read_mwrite_append) (use ok rl uC b in simp_all)
  then have "ring_read b ?C 0 ?u = ?rec" using rl by (simp add: ring_read_def)
  then have "pool_log ?p' [(i, False, [?rec])]"
    using ok uC lb rl by (simp add: pool_log_def pool_ok_def pool_node_def pool_base_def empty_node_def)
  then show ?thesis using put ok by simp
qed

lemma recycle_fresh:
  assumes "pool_fresh p" and "i < u64_max"
  shows "mp_recycle p i = Some p"
proof -
  have "find_node (mp_list_len p) p i (mp_head p) = Some None"
  proof -
    obtain n where "mp_list_len p = Suc (Suc n)" using assms(1)
      by (metis pool_fresh_def pool_ok_def Suc_le_D numeral_2_eq_2 Suc_le_mono)
    then show ?thesis using assms fresh_node [OF assms(1)]
      by (simp add: pool_fresh_def empty_node_def mod_less)
  qed
  then show ?thesis by (simp add: mp_recycle_def)
qed

lemma pool_step_sim:
  assumes rel: "pool_rel p segs" and ok: "pool_op_ok (mp_unit_len p) op"
  shows "case log_step (mp_capacity p) (mp_list_len p) (mp_unit_len p) op segs of
      None \<Rightarrow> pool_step op p = None
    | Some segs' \<Rightarrow> \<exists>p'. pool_step op p = Some p' \<and> pool_rel p' segs' \<and> mp_capacity p' = mp_capacity p \<and>
        mp_list_len p' = mp_list_len p \<and> mp_unit_len p' = mp_unit_len p"
proof (cases op)
  case (P_put key position i)
  then have len: "length key + 8 = mp_unit_len p" using ok by simp
  show ?thesis
  proof (cases "segs = []")
    case True
    then show ?thesis using put_fresh [OF _ len, of position i] rel P_put by (auto simp: pool_rel_def)
  next
    case False
    then have log: "pool_log p segs" using rel by (simp add: pool_rel_def)
    note sim = pool_put_log [OF log len, of position i]
    show ?thesis
    proof (cases "log_put (mp_capacity p) (mp_list_len p) (mp_unit_len p) (key @ le_encode 8 position) i segs")
      case None
      then show ?thesis using sim P_put False by simp
    next
      case (Some segs')
      then obtain p' where p': "pool_put p key position i = Some p'" "pool_log p' segs'"
          "mp_capacity p' = mp_capacity p" "mp_list_len p' = mp_list_len p" "mp_unit_len p' = mp_unit_len p"
        using sim by auto
      then have "segs' \<noteq> []" by (simp add: pool_log_def)
      then show ?thesis using P_put False Some p' by (simp add: pool_rel_def)
    qed
  qed
next
  case (P_recycle i)
  show ?thesis
  proof (cases "segs = []")
    case True
    then show ?thesis using rel ok P_recycle recycle_fresh [of p i]
      by (simp add: pool_rel_def log_recycle_step_def pool_fresh_def pool_ok_def)
  next
    case False
    then have "pool_log p segs" using rel by (simp add: pool_rel_def)
    from recycle_log [OF this, of i] obtain p' where p': "mp_recycle p i = Some p'"
        "pool_log p' (log_recycle_step (mp_list_len p) i segs)"
        "mp_capacity p' = mp_capacity p" "mp_list_len p' = mp_list_len p" "mp_unit_len p' = mp_unit_len p" by blast
    then have "log_recycle_step (mp_list_len p) i segs \<noteq> []" by (simp add: pool_log_def)
    then show ?thesis using P_recycle p' by (simp add: pool_rel_def)
  qed
qed

lemma pool_run_sim:
  assumes "pool_rel p segs" and "\<forall>op \<in> set ops. pool_op_ok (mp_unit_len p) op"
  shows "case run_list (log_step (mp_capacity p) (mp_list_len p) (mp_unit_len p)) ops segs of
      None \<Rightarrow> run_list pool_step ops p = None
    | Some segs' \<Rightarrow> \<exists>p'. run_list pool_step ops p = Some p' \<and> pool_rel p' segs' \<and> mp_capacity p' = mp_capacity p \<and>
        mp_list_len p' = mp_list_len p \<and> mp_unit_len p' = mp_unit_len p"
  using assms
proof (induction ops arbitrary: p segs)
  case Nil
  then show ?case by simp
next
  case (Cons op ops)
  have "pool_op_ok (mp_unit_len p) op" using Cons.prems(2) by simp
  note sim = pool_step_sim [OF Cons.prems(1) this]
  show ?case
  proof (cases "log_step (mp_capacity p) (mp_list_len p) (mp_unit_len p) op segs")
    case None
    then show ?thesis using sim by simp
  next
    case (Some segs')
    then obtain p' where p': "pool_step op p = Some p'" "pool_rel p' segs'" "mp_capacity p' = mp_capacity p"
        "mp_list_len p' = mp_list_len p" "mp_unit_len p' = mp_unit_len p" using sim by auto
    have "\<forall>op \<in> set ops. pool_op_ok (mp_unit_len p') op" using Cons.prems(2) p' by simp
    from Cons.IH [OF p'(2) this] show ?thesis
      using Some p' by (auto split: option.splits)
  qed
qed

section \<open>Writing a block's records to the index buffer\<close>

lemma ring_read_linear_part:
  assumes "length buf = C" and "st + len \<le> C"
  shows "mread buf st len = Some (ring_read buf C st len)"
proof -
  have "take len (drop st buf) = ring_read buf C st len"
    by (rule nth_equalityI) (use assms in \<open>simp_all add: ring_read_def\<close>)
  then show ?thesis using assms by (simp add: mread_def)
qed

lemma ring_read_two_parts:
  assumes "length buf = C" and "st < C" and "len \<le> C" and "C \<le> st + len"
  shows "\<exists>d1 d2. mread buf st (C - st) = Some d1 \<and> mread buf 0 (len + st - C) = Some d2 \<and>
    ring_read buf C st len = d1 @ d2 \<and> length d1 = C - st \<and> length d2 = len + st - C"
proof -
  have "(C - st) + (len + st - C) = len" "(st + (C - st)) mod C = 0" using assms by simp_all
  then have "ring_read buf C st len = ring_read buf C st (C - st) @ ring_read buf C 0 (len + st - C)"
    using ring_read_append [of buf C st "C - st" "len + st - C"] by simp
  then show ?thesis
    using ring_read_linear_part [OF assms(1), of st "C - st"] ring_read_linear_part [OF assms(1), of 0 "len + st - C"]
      assms by simp
qed

text \<open>The records of a block are where its node says.\<close>

lemma seg_data:
  assumes log: "pool_log p segs" and k: "find_idx i segs = Some k"
  shows "ring_read (mp_buffer p) (mp_capacity p) (start_offset (pool_node p k))
      (mp_unit_len p * length (log_find i segs)) = concat (log_find i segs)"
    and "start_offset (pool_node p k) < mp_capacity p"
    and "mp_unit_len p * length (log_find i segs) \<le> mp_capacity p"
    and "length (concat (log_find i segs)) = mp_unit_len p * length (log_find i segs)"
proof -
  let ?C = "mp_capacity p" and ?u = "mp_unit_len p" and ?rs = "log_find i segs"
  let ?a = "seg_recs (take k segs)" and ?z = "seg_recs (drop (Suc k) segs)"
  from find_idx_Some [OF k] have kl: "k < length segs" and rs: "?rs = snd (snd (segs ! k))" by simp_all
  have sp: "seg_recs segs = ?a @ ?rs @ ?z" using seg_recs_split [OF kl] rs by simp
  have st: "start_offset (pool_node p k) = (pool_base p + ?u * length ?a) mod ?C"
    using log kl by (simp add: pool_log_def)
  show "start_offset (pool_node p k) < ?C" unfolding st using log by (simp add: pool_log_def pool_ok_def)
  have un: "\<forall>r \<in> set (seg_recs segs). length r = ?u" using log by (simp add: pool_log_def)
  have la: "length (concat ?a) = ?u * length ?a" and lr: "length (concat ?rs) = ?u * length ?rs"
    using un unfolding sp by (auto intro!: concat_units)
  show "length (concat ?rs) = ?u * length ?rs" by (rule lr)
  have "?u * length ?rs \<le> ?u * length (seg_recs segs)" unfolding sp by (intro mult_le_mono2) simp
  also have "\<dots> \<le> ?C" using log by (simp add: pool_log_def)
  finally show "?u * length ?rs \<le> ?C" .
  have "ring_read (mp_buffer p) ?C (pool_base p) (?u * length ?a + (?u * length ?rs + ?u * length ?z))
      = concat ?a @ concat ?rs @ concat ?z"
    using log unfolding pool_log_def sp by (simp add: distrib_left)
  then have "ring_read (mp_buffer p) ?C (pool_base p) (?u * length ?a) @
      (ring_read (mp_buffer p) ?C (start_offset (pool_node p k)) (?u * length ?rs) @
       ring_read (mp_buffer p) ?C ((start_offset (pool_node p k) + ?u * length ?rs) mod ?C) (?u * length ?z))
      = concat ?a @ concat ?rs @ concat ?z"
    unfolding ring_read_append st .
  then show "ring_read (mp_buffer p) ?C (start_offset (pool_node p k)) (?u * length ?rs) = concat ?rs"
    using la lr by (auto simp: append_eq_append_conv)
qed

lemma ib_write_owned:
  assumes "ib_wf b" and "th < length (ib_write_ids b)" and "length data \<le> ib_buffer_size b"
    and "ib_admits b pos (length data)"
  shows "\<exists>b' m. ib_writeBlock b data pos th = Some (True, b') \<and> ib_wf b' \<and> ib_mem b' = m \<and>
    ring_copy (ib_mem b) (ib_buffer_size b) (pos mod ib_buffer_size b) data = Some m \<and>
    length (ib_write_ids b') = length (ib_write_ids b) \<and> ib_buffer_size b' = ib_buffer_size b \<and>
    (\<forall>q l. ib_admits b' q l = ib_admits b q l)"
proof -
  from ib_writeBlock_eq [OF assms(1-3), of pos] assms(4) obtain m where
    m: "ring_copy (ib_mem b) (ib_buffer_size b) (pos mod ib_buffer_size b) data = Some m" "length m = length (ib_mem b)"
      "ib_writeBlock b data pos th = Some (True, b\<lparr>ib_mem := m,
         ib_write_ids := (ib_write_ids b)[th := ib_disk_after b pos (length data)]\<rparr>)" by (auto simp: Let_def)
  show ?thesis
    using m ib_wf_update(1) [OF assms(1) m(2) ib_disk_after_less [OF assms(1)]]
    by (simp add: ib_admits_def ib_owner_def)
qed

text \<open>A write extends what can be read from a position; two consecutive writes leave their data one
  behind the other.\<close>

lemma ib_write_extend:
  assumes wf: "ib_wf b" and th: "th < length (ib_write_ids b)" and len: "l + length data \<le> ib_buffer_size b"
    and own: "ib_admits b (pos + l) (length data)"
  shows "\<exists>b'. ib_writeBlock b data (pos + l) th = Some (True, b') \<and> ib_wf b' \<and>
    length (ib_write_ids b') = length (ib_write_ids b) \<and> ib_buffer_size b' = ib_buffer_size b \<and>
    (\<forall>q l. ib_admits b' q l = ib_admits b q l) \<and>
    ring_read (ib_mem b') (ib_buffer_size b) (pos mod ib_buffer_size b) (l + length data) =
      ring_read (ib_mem b) (ib_buffer_size b) (pos mod ib_buffer_size b) l @ data"
proof -
  let ?N = "ib_buffer_size b"
  have N: "0 < ?N" "?N \<le> length (ib_mem b)" "length data \<le> ?N" using wf len by (simp_all add: ib_wf_def)
  from ib_write_owned [OF wf th N(3) own] obtain b' where
    b': "ib_writeBlock b data (pos + l) th = Some (True, b')" "ib_wf b'" "length (ib_write_ids b') = length (ib_write_ids b)"
      "ib_buffer_size b' = ?N" "\<forall>q l. ib_admits b' q l = ib_admits b q l"
      "ring_copy (ib_mem b) ?N ((pos + l) mod ?N) data = Some (ib_mem b')" by blast
  have "(pos mod ?N + l) mod ?N = (pos + l) mod ?N" by (rule mod_add_left_eq)
  with b'(6) have "ring_copy (ib_mem b) ?N ((pos mod ?N + l) mod ?N) data = Some (ib_mem b')" by simp
  from ring_copy_append [OF _ len N(2) this] N(1) b'(1-5) show ?thesis by simp
qed

lemma ib_write_two:
  assumes wf: "ib_wf b" and th: "th < length (ib_write_ids b)"
    and len: "length d1 + length d2 \<le> ib_buffer_size b"
    and own: "ib_admits b pos (length d1)" "ib_admits b (pos + length d1) (length d2)"
  shows "\<exists>b1 b2. ib_writeBlock b d1 pos th = Some (True, b1) \<and>
    ib_writeBlock b1 d2 (pos + length d1) th = Some (True, b2) \<and>
    ring_read (ib_mem b2) (ib_buffer_size b) (pos mod ib_buffer_size b) (length d1 + length d2) = d1 @ d2"
proof -
  from ib_write_extend [OF wf th, of 0 d1 pos] len own(1) obtain b1 where
    b1: "ib_writeBlock b d1 pos th = Some (True, b1)" "ib_wf b1" "length (ib_write_ids b1) = length (ib_write_ids b)"
      "ib_buffer_size b1 = ib_buffer_size b" "\<forall>q l. ib_admits b1 q l = ib_admits b q l"
      "ring_read (ib_mem b1) (ib_buffer_size b) (pos mod ib_buffer_size b) (length d1) = d1"
    by (auto simp: ring_read_def)
  from ib_write_extend [OF b1(2), of th "length d1" d2 pos] b1 th len own(2) show ?thesis by auto
qed

section \<open>Properties\<close>

text \<open>C5: the index pool is a bounded log. For every history of insertions and recyclings from a
  new pool, the cyclic buffer with its node list behaves exactly as a list of segments, one per
  data block: each record is appended to the segment of its block, recycled segments are only
  dropped from the front, and an insertion waits (never returns) exactly when all bytes hold live
  records, or a new block comes while all nodes are in use. Live records are never overwritten.\<close>

theorem pool_refines_log:
  assumes "MemoryPool_new (replicate C 0) C L u = Inr p" and "0 < C" and "C < u64_max" and "0 < u" and "2 \<le> L"
    and "\<forall>op \<in> set ops. pool_op_ok u op"
  shows "case run_list (log_step C L u) ops [] of
      None \<Rightarrow> run_list pool_step ops p = None
    | Some segs \<Rightarrow> \<exists>p'. run_list pool_step ops p = Some p' \<and>
        (segs \<noteq> [] \<longrightarrow> ring_read (mp_buffer p') C (pool_base p') (u * length (seg_recs segs)) = concat (seg_recs segs))"
proof -
  note f = pool_new_fresh [OF assms(1-5)]
  then have "pool_rel p []" by (simp add: pool_rel_def)
  from pool_run_sim [OF this, of ops] f assms(6) show ?thesis
    by (auto simp: pool_rel_def pool_log_def split: option.splits if_splits)
qed

text \<open>The length reported for a data block is the number of its records times the record size,
  after every history from a new pool that leaves a free node, unless the tail of the node list is
  at its slot 0 (there the code compares without reducing modulo the list length).\<close>

lemma pool_length_of_block:
  assumes "MemoryPool_new (replicate C 0) C L u = Inr p" and "0 < C" and "C < u64_max" and "0 < u" and "2 \<le> L"
    and "\<forall>op \<in> set ops. pool_op_ok u op"
    and "run_list (log_step C L u) ops [] = Some segs" and "segs \<noteq> []" and "length segs < L"
    and "run_list pool_step ops p = Some p'" and "mp_tail p' \<noteq> 0"
  shows "getLenOfDiskID p' i = Some (u * length (log_find i segs))"
proof -
  note f = pool_new_fresh [OF assms(1-5)]
  then have "pool_rel p []" by (simp add: pool_rel_def)
  from pool_run_sim [OF this, of ops] f assms have "pool_log p' segs" "mp_list_len p' = L" "mp_unit_len p' = u"
    by (auto simp: pool_rel_def)
  then show ?thesis using getLen_log [of p' segs i] assms(9,11) by simp
qed

text \<open>Writing a block out. When the pool holds records of a data block and the index buffer
  stands for the disk blocks of the target range, \<open>writeToBuffer\<close> with the length of the block
  puts exactly its records, in order, at the target position, also when they wrap around the end
  of the pool or of the index buffer.\<close>

lemma pool_writes_records:
  assumes log: "pool_log p segs" and room: "length segs < mp_list_len p" and k: "find_idx i segs = Some k"
    and wf: "ib_wf b" and th: "th < length (ib_write_ids b)"
    and len: "len = mp_unit_len p * length (log_find i segs)" "len \<le> ib_buffer_size b"
    and own: "\<forall>l \<le> len. ib_admits b pos l \<and> ib_admits b (pos + l) (len - l)"
  shows "\<exists>b'. mp_writeToBuffer p i len b th pos = Some b' \<and>
    ring_read (ib_mem b') (ib_buffer_size b) (pos mod ib_buffer_size b) len = concat (log_find i segs)"
proof -
  let ?C = "mp_capacity p" and ?st = "start_offset (pool_node p k)" and ?D = "concat (log_find i segs)"
  note sd = seg_data [OF log k, folded len(1)]
  have ok: "pool_ok p" by (rule pool_log_ok [OF log])
  have bl: "length (mp_buffer p) = ?C" using ok by (simp add: pool_ok_def)
  have fn: "find_node (mp_list_len p) p i (mp_head p) = Some (Some ((mp_head p + k) mod mp_list_len p))"
    using find_node_log [OF log room] k by simp
  show ?thesis
  proof (cases "?st + len < ?C")
    case True
    have rd: "mread (mp_buffer p) ?st len = Some ?D"
      using ring_read_linear_part [OF bl, of ?st len] True sd(1) by simp
    have "length ?D \<le> ib_buffer_size b" "ib_admits b pos (length ?D)" using len(2) own sd(4) by auto
    from ib_write_owned [OF wf th this] obtain b' where
      b': "ib_writeBlock b ?D pos th = Some (True, b')"
        "ring_copy (ib_mem b) (ib_buffer_size b) (pos mod ib_buffer_size b) ?D = Some (ib_mem b')" by blast
    have "ring_read (ib_mem b') (ib_buffer_size b) (pos mod ib_buffer_size b) (length ?D) = ?D"
      by (rule ring_read_copy(2) [OF _ _ _ b'(2)]) (use wf len(2) sd(4) in \<open>simp_all add: ib_wf_def\<close>)
    then show ?thesis
      using True rd b'(1) sd(4) by (simp add: mp_writeToBuffer_def fn node_get(1) [OF ok])
  next
    case False
    then have "?C \<le> ?st + len" by simp
    from ring_read_two_parts [OF bl sd(2,3) this] sd(1) obtain d1 d2 where
      d: "mread (mp_buffer p) ?st (?C - ?st) = Some d1" "mread (mp_buffer p) 0 (len + ?st - ?C) = Some d2"
        "?D = d1 @ d2" "length d1 = ?C - ?st" "length d2 = len + ?st - ?C" by auto
    have l: "length d1 + length d2 = len" using d(3) sd(4) by (metis length_append)
    have "length d1 \<le> len" "len - length d1 = length d2" using l by simp_all
    then have "ib_admits b pos (length d1)" "ib_admits b (pos + length d1) (length d2)" using own by metis+
    from ib_write_two [OF wf th _ this] l len(2) obtain b1 b2 where
      b: "ib_writeBlock b d1 pos th = Some (True, b1)" "ib_writeBlock b1 d2 (pos + length d1) th = Some (True, b2)"
        "ring_read (ib_mem b2) (ib_buffer_size b) (pos mod ib_buffer_size b) (length d1 + length d2) = d1 @ d2" by auto
    have "mp_writeToBuffer p i len b th pos = Some b2"
      using False d(1,2) b(1) b(2) [unfolded d(4)]
      by (simp add: mp_writeToBuffer_def fn node_get(1) [OF ok])
    then show ?thesis using b(3) d(3) l by simp
  qed
qed

text \<open>A waiting allocation is never released. \<open>allocate\<close> waits while the start of the oldest node
  lies in the range it wants; recycling, the only operation other threads perform on the pool,
  changes neither that start nor the head of the list nor the range, so the condition of the
  loop stays true for ever.\<close>

definition allocation_waits :: "MemoryPool \<Rightarrow> nat \<Rightarrow> bool" where
  "allocation_waits p len \<longleftrightarrow>
     (let start = (if mp_allocate_pos p + len > mp_capacity p then 0 else mp_allocate_pos p)
      in mp_head p < length (mp_list p) \<and> start_offset (mp_list p ! mp_head p) \<ge> start \<and>
         start_offset (mp_list p ! mp_head p) < start + len)"

lemma waiting_never_released:
  assumes "allocation_waits p len" and "run_list (\<lambda>i p. mp_recycle p i) blocks p = Some p'"
  shows "allocation_waits p' len"
  using assms
proof (induction blocks arbitrary: p)
  case Nil
  then show ?case by simp
next
  case (Cons i blocks)
  from Cons.prems(2) obtain q where q: "mp_recycle p i = Some q" "run_list (\<lambda>i p. mp_recycle p i) blocks q = Some p'"
    by (auto split: option.splits)
  have "allocation_waits q len"
    using q(1) Cons.prems(1)
    by (auto simp: mp_recycle_def allocation_waits_def vec_get_def vec_set_def nth_list_update Let_def
          split: Option.bind_splits option.splits if_splits)
  then show ?case by (rule Cons.IH [OF _ q(2)])
qed

text \<open>At slot 0 the comparison without the modulo takes an old node for the next one: this pool holds
  one record of 10 bytes of block 4, and reports 20.\<close>

definition stale_pool :: MemoryPool where
  "stale_pool = \<lparr>mp_capacity = 30, mp_list_len = 2, mp_unit_len = 10, mp_buffer = replicate 30 1,
     mp_allocate_pos = 20, mp_list = [\<lparr>data_block_id = 3, start_offset = 0, dirty = True\<rparr>,
       \<lparr>data_block_id = 4, start_offset = 10, dirty = False\<rparr>], mp_tail = 0, mp_head = 1\<rparr>"

lemma pool_length_stale_at_wrap:
  "pool_log stale_pool [(4, False, [replicate 10 1])]" "getLenOfDiskID stale_pool 4 = Some 20"
proof -
  have "ring_read (replicate 30 1) 30 10 10 = replicate 10 1"
    by (rule nth_equalityI) (simp_all add: ring_read_def)
  then show "pool_log stale_pool [(4, False, [replicate 10 1])]"
    by (simp add: pool_log_def pool_ok_def stale_pool_def pool_node_def pool_base_def)
  show "getLenOfDiskID stale_pool 4 = Some 20"
    by (simp add: getLenOfDiskID_def stale_pool_def vec_get_def numeral_2_eq_2)
qed

section \<open>Witnesses\<close>

definition example_pool :: MemoryPool where
  "example_pool = \<lparr>mp_capacity = 30, mp_list_len = 3, mp_unit_len = 10, mp_buffer = replicate 30 0,
     mp_allocate_pos = 0, mp_list = replicate 3 empty_node, mp_tail = 1, mp_head = 0\<rparr>"

lemma example_pool_new: "MemoryPool_new (replicate 30 0) 30 3 10 = Inr example_pool"
  by (simp add: MemoryPool_new_def example_pool_def)

theorem pool_refines_log_witness:
  "(\<exists>p'. run_list pool_step [P_put [1, 2] 5 7, P_put [3, 4] 6 7, P_recycle 7, P_put [9, 9] 8 8] example_pool = Some p' \<and>
     ring_read (mp_buffer p') 30 (pool_base p') 30
       = ([1, 2] @ le_encode 8 5) @ ([3, 4] @ le_encode 8 6) @ ([9, 9] @ le_encode 8 8)) \<and>
   run_list pool_step [P_put [1, 2] 5 7, P_put [3, 4] 6 7, P_put [5, 6] 6 7, P_put [9, 9] 8 8] example_pool = None"
proof -
  let ?ops = "[P_put [1, 2] 5 7, P_put [3, 4] 6 7, P_recycle 7, P_put [9, 9] 8 8]"
  let ?ops' = "[P_put [1, 2] 5 7, P_put [3, 4] 6 7, P_put [5, 6] 6 7, P_put [9, 9] 8 8]"
  have r: "run_list (log_step 30 3 10) ?ops [] = Some
      [(7, True, [[1, 2] @ le_encode 8 5, [3, 4] @ le_encode 8 6]), (8, False, [[9, 9] @ le_encode 8 8])]"
    by (simp add: log_put_def log_recycle_step_def Let_def)
  have r': "run_list (log_step 30 3 10) ?ops' [] = None"
    by (simp add: log_put_def Let_def)
  have "\<forall>op \<in> set ?ops. pool_op_ok 10 op" "\<forall>op \<in> set ?ops'. pool_op_ok 10 op" by simp_all
  with pool_refines_log [OF example_pool_new _ _ _ _, of ?ops] pool_refines_log [OF example_pool_new _ _ _ _, of ?ops']
  show ?thesis unfolding r r' by simp
qed

lemma pool_length_of_block_example:
  "\<exists>p'. run_list pool_step [P_put [1, 2] 5 7] example_pool = Some p' \<and> getLenOfDiskID p' 7 = Some 10 \<and>
     getLenOfDiskID p' 8 = Some 0"
proof -
  let ?ops = "[P_put [1, 2] 5 7]"
  have "pool_fresh example_pool" using pool_new_fresh [OF example_pool_new] by simp
  moreover have "length [1, 2 :: byte] + 8 = mp_unit_len example_pool" by (simp add: example_pool_def)
  ultimately obtain p' where p': "run_list pool_step ?ops example_pool = Some p'" "mp_tail p' \<noteq> 0"
    using put_fresh [of example_pool "[1, 2]" 5 7] by auto
  have r: "run_list (log_step 30 3 10) ?ops [] = Some [(7, False, [[1, 2] @ le_encode 8 5])]" by simp
  have "\<forall>op \<in> set ?ops. pool_op_ok 10 op" by simp
  note len = pool_length_of_block [OF example_pool_new _ _ _ _ this r _ _ p']
  show ?thesis using len [of 7] len [of 8] p'(1) by simp
qed

lemma pool_writes_records_example:
  "\<exists>p' b'. run_list pool_step [P_put [1, 2] 5 7] example_pool = Some p' \<and>
     mp_writeToBuffer p' 7 10 example_index_blocks 0 0 = Some b' \<and>
     ring_read (ib_mem b') 64 0 10 = [1, 2] @ le_encode 8 5"
proof -
  let ?ops = "[P_put [1, 2] 5 7]"
  have "pool_rel example_pool []"
    using pool_new_fresh [OF example_pool_new] by (simp add: pool_rel_def)
  moreover have "\<forall>op \<in> set ?ops. pool_op_ok (mp_unit_len example_pool) op" by (simp add: example_pool_def)
  moreover have sz: "mp_capacity example_pool = 30" "mp_list_len example_pool = 3" "mp_unit_len example_pool = 10"
    by (simp_all add: example_pool_def)
  ultimately obtain p' where p': "run_list pool_step ?ops example_pool = Some p'"
      "pool_log p' [(7, False, [[1, 2] @ le_encode 8 5])]" "mp_list_len p' = 3" "mp_unit_len p' = 10"
    using pool_run_sim [of example_pool "[]" ?ops] by (auto simp: pool_rel_def)
  have e: "ib_buffer_size example_index_blocks = 64" "length (ib_write_ids example_index_blocks) = 1"
    by (simp_all add: example_index_blocks_def)
  have own: "\<forall>l \<le> 10. ib_admits example_index_blocks 0 l \<and> ib_admits example_index_blocks (0 + l) (10 - l)"
    by (auto simp: ib_admits_def ib_owner_def example_index_blocks_def)
  have "\<exists>b'. mp_writeToBuffer p' 7 10 example_index_blocks 0 0 = Some b' \<and>
      ring_read (ib_mem b') (ib_buffer_size example_index_blocks) (0 mod ib_buffer_size example_index_blocks) 10
        = concat (log_find 7 [(7, False, [[1, 2] @ le_encode 8 5])])"
    by (rule pool_writes_records [OF p'(2) _ _ example_index_blocks_wf _ _ _ own, where k = 0])
       (simp_all add: p'(3,4) e)
  then show ?thesis using p'(1) unfolding e by auto
qed

lemma waiting_never_released_example:
  "allocation_waits (example_pool\<lparr>mp_list := [\<lparr>data_block_id = 7, start_offset = 0, dirty = True\<rparr>,
     empty_node, empty_node], mp_allocate_pos := 30\<rparr>) 10"
proof -
  let ?p = "example_pool\<lparr>mp_list := [\<lparr>data_block_id = 7, start_offset = 0, dirty = False\<rparr>,
     empty_node, empty_node], mp_allocate_pos := 30\<rparr>"
  have w: "allocation_waits ?p 10" by (simp add: allocation_waits_def example_pool_def)
  have r: "run_list (\<lambda>i p. mp_recycle p i) [7] ?p = Some (example_pool\<lparr>mp_list := [\<lparr>data_block_id = 7, start_offset = 0, dirty = True\<rparr>,
     empty_node, empty_node], mp_allocate_pos := 30\<rparr>)"
    by (simp add: mp_recycle_def example_pool_def vec_get_def vec_set_def numeral_3_eq_3)
  show ?thesis by (rule waiting_never_released [OF w r])
qed

end
