(* ===== verification/IndexPersist.thy ===== *)
theory IndexPersist
  imports PrefixBloom MemPool
begin

text \<open>
  From index entries to the disk: the table of index blocks of
  \<^verbatim>\<open>dpdk_lib/indexBufferWithPool.hpp\<close> (one filter column and counter per block in memory), the
  metadata of all disk blocks of \<^verbatim>\<open>dpdk_lib/diskBuffer.hpp\<close>, and the persister thread of
  \<^verbatim>\<open>dpdk_component/indexPersister.cpp\<close>, which waits until all index entries of a data block have
  arrived, writes and sorts them, and recycles the block's structures. The bitmap, the pools and
  the block buffer are shared between the components: the state is one record. Pointers into
  the tables are indices.
\<close>

declare One_nat_def [simp del]

section \<open>Disk metadata\<close>

record DiskMeta =
  dm_filter :: PrefixBloomFilter
  dm_start_time :: nat
  dm_end_time :: nat
  dm_index_meta :: "nat list"
  dm_packet_count :: nat

record DiskBuffer =
  dk_block_num :: nat
  dk_metas :: "DiskMeta list"

definition DiskMeta_init :: "nat \<Rightarrow> DiskMeta" where
  "DiskMeta_init k = \<lparr>dm_filter = PrefixBloomFilter_init k, dm_start_time = 0, dm_end_time = 0,
     dm_index_meta = replicate 12 0, dm_packet_count = 0\<rparr>"

text \<open>\<open>None\<close> is the exception of a failed \<open>mmap\<close>.\<close>

definition DiskBuffer_new :: "bool \<Rightarrow> nat \<Rightarrow> nat \<Rightarrow> DiskBuffer option" where
  "DiskBuffer_new mmap_ok blocks k =
     (if \<not> mmap_ok then None
      else Some \<lparr>dk_block_num = blocks, dk_metas = replicate blocks (DiskMeta_init k)\<rparr>)"

definition getDiskMeta :: "DiskBuffer \<Rightarrow> nat \<Rightarrow> DiskMeta option" where
  "getDiskMeta d i = (if i < dk_block_num d then vec_get (dk_metas d) i else None)"

definition update_meta :: "DiskBuffer \<Rightarrow> nat \<Rightarrow> (DiskMeta \<Rightarrow> DiskMeta) \<Rightarrow> DiskBuffer" where
  "update_meta d i g =
     (if i < dk_block_num d then d\<lparr>dk_metas := (dk_metas d)[i := g (dk_metas d ! i)]\<rparr> else d)"

definition setIndexID :: "DiskBuffer \<Rightarrow> nat \<Rightarrow> nat \<Rightarrow> nat \<Rightarrow> nat \<Rightarrow> DiskBuffer" where
  "setIndexID d i t index_start index_end =
     update_meta d i (\<lambda>m. m\<lparr>dm_index_meta := (dm_index_meta m)[t * 2 := index_start, t * 2 + 1 := index_end]\<rparr>)"

definition setBloomFilterWritingCol :: "BitMap option \<Rightarrow> DiskBuffer \<Rightarrow> nat \<Rightarrow> nat \<Rightarrow> DiskBuffer" where
  "setBloomFilterWritingCol bm d i col = update_meta d i (\<lambda>m. m\<lparr>dm_filter := setWritingCol bm (dm_filter m) col\<rparr>)"

definition setBloomFilterReadingCol :: "BitMap option \<Rightarrow> DiskBuffer \<Rightarrow> nat \<Rightarrow> nat \<Rightarrow> DiskBuffer" where
  "setBloomFilterReadingCol bm d i col = update_meta d i (\<lambda>m. m\<lparr>dm_filter := setReadingCol bm (dm_filter m) col\<rparr>)"

definition clearPacketCount :: "DiskBuffer \<Rightarrow> nat \<Rightarrow> DiskBuffer" where
  "clearPacketCount d i = update_meta d i (\<lambda>m. m\<lparr>dm_packet_count := 0\<rparr>)"

definition setTime :: "DiskBuffer \<Rightarrow> nat \<Rightarrow> nat \<Rightarrow> nat \<Rightarrow> DiskBuffer" where
  "setTime d i st en = update_meta d i (\<lambda>m. m\<lparr>dm_start_time := st, dm_end_time := en\<rparr>)"

definition setPacketCount :: "DiskBuffer \<Rightarrow> nat \<Rightarrow> nat \<Rightarrow> DiskBuffer" where
  "setPacketCount d i n = update_meta d i (\<lambda>m. m\<lparr>dm_packet_count := n\<rparr>)"

text \<open>Reading the key of a query out of the memory it points to.\<close>

definition key_of_bytes :: "bytes \<Rightarrow> IndexType \<Rightarrow> filter_key" where
  "key_of_bytes key t =
     (if t = SRCIP \<or> t = DSTIP then KIPv4 (word_of_nat (le_decode (take 4 key)))
      else if t = SRCPORT \<or> t = DSTPORT then KPort (word_of_nat (le_decode (take 2 key)))
      else KIPv6 (decode_ipv6 (take 16 key)))"

definition checkKey :: "(bytes \<Rightarrow> nat) \<Rightarrow> (nat \<Rightarrow> nat) \<Rightarrow> BitMap option \<Rightarrow> DiskBuffer \<Rightarrow> nat \<Rightarrow> bytes \<Rightarrow> IndexType \<Rightarrow> bool" where
  "checkKey h1 h2 bm d i key t =
     (if i \<ge> dk_block_num d then False
      else if t = TOTAL_INDEX then False
      else pbf_contains h1 h2 (dm_filter (dk_metas d ! i)) bm (key_of_bytes key t) t)"

section \<open>The index buffer\<close>

record IndexBufferMeta =
  im_filter :: PrefixBloomFilter
  im_disk_block_id :: nat
  im_index_count :: nat

record IndexBuffer =
  ibf_total :: nat
  ibf_disk_num :: nat
  ibf_metas :: "IndexBufferMeta list"
  ibf_check_ids :: "nat list"

datatype index_buffer_error = Not_a_multiple | IBuf_mmap_failed

definition IndexBufferMeta_init :: "BitMap option \<Rightarrow> nat \<Rightarrow> nat \<Rightarrow> IndexBufferMeta" where
  "IndexBufferMeta_init bm k i =
     \<lparr>im_filter = setWritingCol bm (PrefixBloomFilter_init k) i, im_disk_block_id = i, im_index_count = 0\<rparr>"

definition IndexBuffer_new :: "bool \<Rightarrow> nat \<Rightarrow> nat \<Rightarrow> BitMap option \<Rightarrow> nat \<Rightarrow> index_buffer_error + IndexBuffer" where
  "IndexBuffer_new mmap_ok blocks disks bm k =
     (if disks mod blocks \<noteq> 0 then Inl Not_a_multiple
      else if \<not> mmap_ok then Inl IBuf_mmap_failed
      else Inr \<lparr>ibf_total = blocks, ibf_disk_num = disks,
             ibf_metas = map (IndexBufferMeta_init bm k) [0..<blocks], ibf_check_ids = []\<rparr>)"

definition ibf_addCheckThread :: "IndexBuffer \<Rightarrow> nat \<times> IndexBuffer" where
  "ibf_addCheckThread b =
     (let i = length (ibf_check_ids b) in
      if i \<ge> ibf_total b then (u64_max, b)
      else (i, b\<lparr>ibf_check_ids := ibf_check_ids b @ [i]\<rparr>))"

record IndexSystem =
  sys_bitmap :: "BitMap option"
  sys_index :: IndexBuffer
  sys_pools :: "IndexMemoryPool list"
  sys_blocks :: IndexBlockBuffer
  sys_disk :: DiskBuffer
  sys_write_pos :: nat

text \<open>The keys of a flow in the order in which the filter is told about them.\<close>

definition flow_keys :: "FlowMetadata \<Rightarrow> (filter_key \<times> IndexType) list" where
  "flow_keys meta =
     (if length (sourceAddress meta) = 4 \<and> length (destinationAddress meta) = 4
      then [(key_of_bytes (sourceAddress meta) SRCIP, SRCIP), (key_of_bytes (destinationAddress meta) DSTIP, DSTIP)]
      else if length (sourceAddress meta) = 16 \<and> length (destinationAddress meta) = 16
      then [(key_of_bytes (sourceAddress meta) SRCIPv6, SRCIPv6), (key_of_bytes (destinationAddress meta) DSTIPv6, DSTIPv6)]
      else [])
     @ [(KPort (sourcePort meta), SRCPORT), (KPort (destinationPort meta), DSTPORT)]"

fun insert_keys :: "(bytes \<Rightarrow> nat) \<Rightarrow> (nat \<Rightarrow> nat) \<Rightarrow> PrefixBloomFilter \<Rightarrow> BitMap option \<Rightarrow>
    (filter_key \<times> IndexType) list \<Rightarrow> bool \<times> BitMap option" where
  "insert_keys h1 h2 f bm [] = (True, bm)"
| "insert_keys h1 h2 f bm ((key, t) # ks) =
     (case pbf_insert h1 h2 f bm key t of (ok, bm') \<Rightarrow>
        if ok then insert_keys h1 h2 f bm' ks else (False, bm'))"

definition ibf_insert :: "(bytes \<Rightarrow> nat) \<Rightarrow> (nat \<Rightarrow> nat) \<Rightarrow> IndexSystem \<Rightarrow> FlowMetadata \<Rightarrow> nat \<Rightarrow> nat \<Rightarrow> nat \<Rightarrow>
    (bool \<times> IndexSystem) option" where
  "ibf_insert h1 h2 s meta position disk_block_id rx_id = do {
     let i = disk_block_id mod ibf_total (sys_index s);
     m \<leftarrow> vec_get (ibf_metas (sys_index s)) i;
     if im_disk_block_id m \<noteq> disk_block_id then Some (False, s)
     else (case insert_keys h1 h2 (im_filter m) (sys_bitmap s) (flow_keys meta) of
       (ok, bm) \<Rightarrow>
         if \<not> ok then Some (False, s\<lparr>sys_bitmap := bm\<rparr>)
         else do {
           pool \<leftarrow> vec_get (sys_pools s) rx_id;
           (ok, pool') \<leftarrow> imp_insert pool meta position disk_block_id;
           let s1 = s\<lparr>sys_bitmap := bm, sys_pools := (sys_pools s)[rx_id := pool']\<rparr>;
           if \<not> ok then Some (False, s1)
           else Some (True, s1\<lparr>sys_index := (sys_index s)\<lparr>ibf_metas :=
                  (ibf_metas (sys_index s))[i := m\<lparr>im_index_count := add64 (im_index_count m) 1\<rparr>]\<rparr>\<rparr>) }) }"

definition checkIndexCount :: "IndexBuffer \<Rightarrow> nat \<Rightarrow> nat option" where
  "checkIndexCount b thread_id =
     (if thread_id \<ge> length (ibf_check_ids b) then Some u64_max
      else map_option im_index_count (vec_get (ibf_metas b) (ibf_check_ids b ! thread_id)))"

definition getCheckDishID :: "IndexBuffer \<Rightarrow> nat \<Rightarrow> nat option" where
  "getCheckDishID b thread_id =
     (if thread_id \<ge> length (ibf_check_ids b) then Some u64_max
      else map_option im_disk_block_id (vec_get (ibf_metas b) (ibf_check_ids b ! thread_id)))"

text \<open>A null pointer, or the index of the meta record.\<close>

definition getIndexBufferMeta :: "IndexBuffer \<Rightarrow> nat \<Rightarrow> nat option" where
  "getIndexBufferMeta b thread_id =
     (if thread_id \<ge> length (ibf_check_ids b) then None else Some (ibf_check_ids b ! thread_id))"

fun recycle_pools :: "IndexMemoryPool list \<Rightarrow> nat \<Rightarrow> IndexMemoryPool list option" where
  "recycle_pools [] i = Some []"
| "recycle_pools (p # ps) i = do {
     p' \<leftarrow> imp_recycle p i;
     ps' \<leftarrow> recycle_pools ps i;
     Some (p' # ps') }"

definition updateIndexBufferMeta :: "IndexSystem \<Rightarrow> nat \<Rightarrow> nat \<Rightarrow> IndexSystem option" where
  "updateIndexBufferMeta s thread_id bitmap_col =
     (let b = sys_index s in
      if thread_id \<ge> length (ibf_check_ids b) then Some s
      else do {
        let i = ibf_check_ids b ! thread_id;
        m \<leftarrow> vec_get (ibf_metas b) i;
        pools \<leftarrow> recycle_pools (sys_pools s) (im_disk_block_id m);
        let m' = \<lparr>im_filter = setWritingCol (sys_bitmap s) (im_filter m) bitmap_col,
                  im_disk_block_id = (im_disk_block_id m + ibf_total b) mod ibf_disk_num b,
                  im_index_count = 0\<rparr>;
        Some (s\<lparr>sys_pools := pools, sys_index := b\<lparr>ibf_metas := (ibf_metas b)[i := m'],
          ibf_check_ids := (ibf_check_ids b)[thread_id :=
            (i + length (ibf_check_ids b)) mod ibf_total b]\<rparr>\<rparr>) })"

section \<open>The persister\<close>

record IndexPersister =
  ip_disk_size :: nat
  ip_index_thread :: nat
  ip_block_thread :: nat

datatype persister_error = Unsupported_block_size

definition IndexPersister_new :: "nat \<Rightarrow> IndexSystem \<Rightarrow> persister_error + (IndexPersister \<times> IndexSystem)" where
  "IndexPersister_new disk_size s =
     (if disk_size AND (disk_size - 1) \<noteq> 0 then Inl Unsupported_block_size
      else let (i, b) = ibf_addCheckThread (sys_index s); (j, bb) = ib_addWriteThread (sys_blocks s)
           in Inr (\<lparr>ip_disk_size = disk_size, ip_index_thread = i, ip_block_thread = j\<rparr>,
                   s\<lparr>sys_index := b, sys_blocks := bb\<rparr>))"

definition bit_ceil :: "32 word \<Rightarrow> 32 word" where
  "bit_ceil x =
     (if x \<le> 1 then 1
      else let x0 = x - 1;
               x1 = x0 OR drop_bit 1 x0;
               x2 = x1 OR drop_bit 2 x1;
               x3 = x2 OR drop_bit 4 x2;
               x4 = x3 OR drop_bit 8 x3;
               x5 = x4 OR drop_bit 16 x4
           in x5 + 1)"

text \<open>One look at the shared counters: \<open>None\<close> as long as the loops of \<open>checkAndGetMeta\<close> have to
  wait (or the disk block does not exist), \<open>Some None\<close> for the null pointer that stops the thread.
  The disk block comes from the thread id in the index buffer, the counter and the meta from the
  thread id in the block buffer.\<close>

definition checkAndGetMeta :: "IndexPersister \<Rightarrow> bool \<Rightarrow> IndexSystem \<Rightarrow> nat option option" where
  "checkAndGetMeta p stop s = do {
     disk_block_id \<leftarrow> getCheckDishID (sys_index s) (ip_index_thread p);
     if disk_block_id = u64_max then Some None
     else if stop then Some None
     else do {
       dm \<leftarrow> getDiskMeta (sys_disk s) disk_block_id;
       if dm_packet_count dm = 0 then None
       else do {
         index_count \<leftarrow> checkIndexCount (sys_index s) (ip_block_thread p);
         if index_count < dm_packet_count dm then None
         else Some (getIndexBufferMeta (sys_index s) (ip_block_thread p)) } } }"

fun sum_lens :: "nat \<Rightarrow> nat \<Rightarrow> IndexMemoryPool list \<Rightarrow> nat option" where
  "sum_lens t i [] = Some 0"
| "sum_lens t i (p # ps) = do { l \<leftarrow> imp_getIndexLen p t i; r \<leftarrow> sum_lens t i ps; Some (l + r) }"

fun total_lens :: "nat list \<Rightarrow> nat \<Rightarrow> IndexMemoryPool list \<Rightarrow> nat option" where
  "total_lens [] i ps = Some 0"
| "total_lens (t # ts) i ps = do { l \<leftarrow> sum_lens t i ps; r \<leftarrow> total_lens ts i ps; Some (l + r) }"

text \<open>The inner loop of \<open>persistMeta\<close>: the records of one type, pool after pool.\<close>

fun write_type :: "nat \<Rightarrow> nat \<Rightarrow> nat \<Rightarrow> nat \<Rightarrow> nat \<Rightarrow> IndexMemoryPool list \<Rightarrow> IndexBlockBuffer \<Rightarrow>
    (nat \<times> IndexBlockBuffer) option" where
  "write_type t i thread cur off [] b = Some (off, b)"
| "write_type t i thread cur off (p # ps) b = do {
     len \<leftarrow> imp_getIndexLen p t i;
     if len = 0 then write_type t i thread cur off ps b
     else do {
       b' \<leftarrow> imp_writeToBuffer p t b i len thread (cur + off);
       write_type t i thread cur (off + len) ps b' } }"

definition key_lens :: "nat \<Rightarrow> nat" where
  "key_lens t = [4, 4, 2, 2, 16, 16] ! t"

fun persist_types :: "((bytes \<Rightarrow> bytes \<Rightarrow> bool) \<Rightarrow> bytes list \<Rightarrow> bytes list) \<Rightarrow> nat \<Rightarrow> nat \<Rightarrow> nat list \<Rightarrow> nat \<Rightarrow>
    IndexSystem \<Rightarrow> (index_block_error + IndexSystem) option" where
  "persist_types srt i thread [] cur s = Some (Inr s)"
| "persist_types srt i thread (t # ts) cur s = do {
     (index_offset, b) \<leftarrow> write_type t i thread cur 0 (sys_pools s) (sys_blocks s);
     r \<leftarrow> sortIndex srt b cur index_offset (key_lens t);
     case r of Inl e \<Rightarrow> Some (Inl e)
     | Inr b' \<Rightarrow> persist_types srt i thread ts (cur + index_offset)
         (s\<lparr>sys_blocks := b', sys_disk := setIndexID (sys_disk s) i t cur (cur + index_offset)\<rparr>) }"

definition persistMeta :: "((bytes \<Rightarrow> bytes \<Rightarrow> bool) \<Rightarrow> bytes list \<Rightarrow> bytes list) \<Rightarrow> IndexPersister \<Rightarrow>
    nat \<Rightarrow> IndexSystem \<Rightarrow> (index_block_error + IndexSystem) option" where
  "persistMeta srt p meta s = do {
     m \<leftarrow> vec_get (ibf_metas (sys_index s)) meta;
     let i = im_disk_block_id m;
     total_node_len \<leftarrow> total_lens [0..<6] i (sys_pools s);
     let disk_pos = sys_write_pos s mod ip_disk_size p;
     r \<leftarrow> persist_types srt i (ip_block_thread p) [0..<6] disk_pos
            (s\<lparr>sys_write_pos := add64 (sys_write_pos s) total_node_len\<rparr>);
     case r of Inl e \<Rightarrow> Some (Inl e)
     | Inr s' \<Rightarrow> Some (Inr (s'\<lparr>sys_disk := setBloomFilterReadingCol (sys_bitmap s') (sys_disk s') i
                    (getWritingCol (sys_bitmap s') (im_filter m))\<rparr>)) }"

text \<open>\<open>clearMeta\<close> moves the meta to the column that lies \<open>backup_col_count\<close> further on.\<close>

definition clearMeta :: "IndexPersister \<Rightarrow> nat \<Rightarrow> IndexSystem \<Rightarrow> IndexSystem option" where
  "clearMeta p meta s = do {
     m \<leftarrow> vec_get (ibf_metas (sys_index s)) meta;
     bitmap \<leftarrow> sys_bitmap s;
     let new_col = add64 (getWritingCol (sys_bitmap s) (im_filter m)) (backup_col_count bitmap);
     updateIndexBufferMeta
       (s\<lparr>sys_disk := clearPacketCount (sys_disk s) (im_disk_block_id m),
          sys_bitmap := Some (clearCol bitmap new_col)\<rparr>)
       (ip_index_thread p) new_col }"

text \<open>One round of \<open>run\<close>: \<open>None\<close> while it waits; the flag tells whether the thread goes on.\<close>

definition persister_round :: "((bytes \<Rightarrow> bytes \<Rightarrow> bool) \<Rightarrow> bytes list \<Rightarrow> bytes list) \<Rightarrow> IndexPersister \<Rightarrow> bool \<Rightarrow>
    IndexSystem \<Rightarrow> (index_block_error + bool \<times> IndexSystem) option" where
  "persister_round srt p stop s = do {
     r \<leftarrow> checkAndGetMeta p stop s;
     case r of None \<Rightarrow> Some (Inr (False, s))
     | Some meta \<Rightarrow> do {
         e \<leftarrow> persistMeta srt p meta s;
         case e of Inl err \<Rightarrow> Some (Inl err)
         | Inr s1 \<Rightarrow> do { s2 \<leftarrow> clearMeta p meta s1; Some (Inr (True, s2)) } } }"

section \<open>Inserted keys are in the filter\<close>

lemma insert_keys_contains:
  assumes "BitMap_inv m" and "insert_keys h1 h2 f (Some m) ks = (True, bm)"
  shows "\<exists>m'. bm = Some m' \<and> BitMap_inv m' \<and> (\<forall>(key, t) \<in> set ks. key_fits key t \<and>
      get_seq BitMap_get m' (key_rows h1 h2 (pb_k f) key t) (writing_col f)) \<and>
    (\<forall>rows c. get_seq BitMap_get m rows c \<longrightarrow> get_seq BitMap_get m' rows c)"
  using assms
proof (induction ks arbitrary: m)
  case Nil
  then show ?case by auto
next
  case (Cons kt ks)
  obtain key t where kt: "kt = (key, t)" by (cases kt)
  let ?r = "pbf_insert h1 h2 f (Some m) key t"
  let ?m1 = "run_filter_op h1 h2 (Insert f key t) m"
  from Cons.prems(2) kt have ok: "fst ?r" "insert_keys h1 h2 f (snd ?r) ks = (True, bm)"
    by (auto split: prod.splits if_splits)
  have s: "snd ?r = Some ?m1" by (auto simp: pbf_insert_seq)
  from Cons.IH [OF run_filter_op_step(1) [OF Cons.prems(1)] ok(2) [unfolded s]]
  show ?case
    using pbf_insert_contains(1,3) [OF Cons.prems(1) ok(1)] kt
      run_filter_op_step(2) [OF Cons.prems(1), where op = "Insert f key t"]
    by fastforce
qed

text \<open>A row that answers true lies in an existing column.\<close>

lemma get_rows_col:
  assumes "BitMap_inv m" and "get_seq BitMap_get m (key_rows h1 h2 k key t) c"
  shows "c < col_count m"
proof -
  from assms(2) have "BitMap_get m (hd (key_rows h1 h2 k key t)) c"
    using key_rows_nonempty by (simp add: get_seq_all)
  from bms.get_dom [OF assms(1) this] show ?thesis by (simp add: in_map_def)
qed

section \<open>What the persister does to the metadata\<close>

fun set_ranges :: "nat \<Rightarrow> (nat \<times> nat) list \<Rightarrow> nat \<Rightarrow> DiskBuffer \<Rightarrow> DiskBuffer" where
  "set_ranges i [] cur d = d"
| "set_ranges i ((t, len) # ts) cur d = set_ranges i ts (cur + len) (setIndexID d i t cur (cur + len))"

lemma write_type_len:
  "write_type t i th cur off ps b = Some (off', b') \<Longrightarrow> off \<le> off' \<and> sum_lens t i ps = Some (off' - off)"
proof (induction t i th cur off ps b rule: write_type.induct)
  case (2 t i th cur off p ps b)
  then show ?case
    by (fastforce split: if_splits Option.bind_splits)
qed simp

lemma persist_types_effect:
  "persist_types srt i th ts cur s = Some (Inr s') \<Longrightarrow>
    \<exists>lens. length lens = length ts \<and> total_lens ts i (sys_pools s) = Some (sum_list lens) \<and>
      (\<forall>j < length ts. sum_lens (ts ! j) i (sys_pools s) = Some (lens ! j)) \<and>
      sys_disk s' = set_ranges i (zip ts lens) cur (sys_disk s) \<and>
      sys_bitmap s' = sys_bitmap s \<and> sys_index s' = sys_index s \<and> sys_write_pos s' = sys_write_pos s"
proof (induction ts arbitrary: cur s)
  case Nil
  then show ?case by simp
next
  case (Cons t ts)
  from Cons.prems obtain off b b' where w: "write_type t i th cur 0 (sys_pools s) (sys_blocks s) = Some (off, b)"
    and "sortIndex srt b cur off (key_lens t) = Some (Inr b')"
    and rest: "persist_types srt i th ts (cur + off)
         (s\<lparr>sys_blocks := b', sys_disk := setIndexID (sys_disk s) i t cur (cur + off)\<rparr>) = Some (Inr s')"
    by (auto split: Option.bind_splits sum.splits)
  from write_type_len [OF w] have l: "sum_lens t i (sys_pools s) = Some off" by simp
  from Cons.IH [OF rest] obtain lens where "length lens = length ts"
    "total_lens ts i (sys_pools s) = Some (sum_list lens)"
    "\<forall>j < length ts. sum_lens (ts ! j) i (sys_pools s) = Some (lens ! j)"
    "sys_disk s' = set_ranges i (zip ts lens) (cur + off) (setIndexID (sys_disk s) i t cur (cur + off))"
    "sys_bitmap s' = sys_bitmap s" "sys_index s' = sys_index s" "sys_write_pos s' = sys_write_pos s" by auto
  then show ?case using l
    by (intro exI [of _ "off # lens"]) (auto simp: nth_Cons split: nat.split)
qed

lemma set_ranges_same:
  "dk_block_num (set_ranges i ts cur d) = dk_block_num d \<and>
   length (dk_metas (set_ranges i ts cur d)) = length (dk_metas d) \<and>
   dm_filter (dk_metas (set_ranges i ts cur d) ! j) = dm_filter (dk_metas d ! j) \<and>
   (length (dm_index_meta (dk_metas (set_ranges i ts cur d) ! j)) = length (dm_index_meta (dk_metas d ! j)))"
proof (induction i ts cur d rule: set_ranges.induct)
  case (2 i t len ts cur d)
  have "dm_filter (dk_metas (setIndexID d i t cur (cur + len)) ! j) = dm_filter (dk_metas d ! j) \<and>
     length (dm_index_meta (dk_metas (setIndexID d i t cur (cur + len)) ! j)) = length (dm_index_meta (dk_metas d ! j))"
    by (cases "i < length (dk_metas d)"; cases "i = j")
       (auto simp: setIndexID_def update_meta_def list_update_beyond)
  with 2 show ?case by (simp add: setIndexID_def update_meta_def)
qed simp

lemma persistMeta_effect:
  assumes "persistMeta srt p j s = Some (Inr s')" and "vec_get (ibf_metas (sys_index s)) j = Some im"
  shows "\<exists>lens. length lens = 6 \<and>
      (\<forall>t < 6. sum_lens t (im_disk_block_id im) (sys_pools s) = Some (lens ! t)) \<and>
      sys_disk s' = setBloomFilterReadingCol (sys_bitmap s)
        (set_ranges (im_disk_block_id im) (zip [0..<6] lens) (sys_write_pos s mod ip_disk_size p) (sys_disk s))
        (im_disk_block_id im) (getWritingCol (sys_bitmap s) (im_filter im)) \<and>
      sys_bitmap s' = sys_bitmap s \<and> sys_write_pos s' = add64 (sys_write_pos s) (sum_list lens)"
proof -
  from assms obtain n s1 where n: "total_lens [0..<6] (im_disk_block_id im) (sys_pools s) = Some n"
    and t: "persist_types srt (im_disk_block_id im) (ip_block_thread p) [0..<6] (sys_write_pos s mod ip_disk_size p)
       (s\<lparr>sys_write_pos := add64 (sys_write_pos s) n\<rparr>) = Some (Inr s1)"
    and s': "s' = s1\<lparr>sys_disk := setBloomFilterReadingCol (sys_bitmap s1) (sys_disk s1) (im_disk_block_id im)
       (getWritingCol (sys_bitmap s1) (im_filter im))\<rparr>"
    by (auto simp: persistMeta_def Let_def split: Option.bind_splits sum.splits)
  from persist_types_effect [OF t] obtain lens where "length lens = 6" "n = sum_list lens"
    "\<forall>j < 6. sum_lens ([0..<6] ! j) (im_disk_block_id im) (sys_pools s) = Some (lens ! j)"
    "sys_disk s1 = set_ranges (im_disk_block_id im) (zip [0..<6] lens) (sys_write_pos s mod ip_disk_size p) (sys_disk s)"
    "sys_bitmap s1 = sys_bitmap s" "sys_write_pos s1 = add64 (sys_write_pos s) n"
    using n by auto
  then show ?thesis using s' by (intro exI [of _ lens]) simp
qed

section \<open>Properties\<close>

text \<open>What a query asks for when it looks for this flow: the bytes of each key with its type.\<close>

definition query_keys :: "FlowMetadata \<Rightarrow> (bytes \<times> IndexType) list" where
  "query_keys meta =
     (if length (sourceAddress meta) = 4 \<and> length (destinationAddress meta) = 4
      then [(sourceAddress meta, SRCIP), (destinationAddress meta, DSTIP)]
      else if length (sourceAddress meta) = 16 \<and> length (destinationAddress meta) = 16
      then [(sourceAddress meta, SRCIPv6), (destinationAddress meta, DSTIPv6)]
      else [])
     @ [(le_encode 2 (unat (sourcePort meta)), SRCPORT), (le_encode 2 (unat (destinationPort meta)), DSTPORT)]"

lemma port_key: "key_of_bytes (le_encode 2 (unat (p :: 16 word))) SRCPORT = KPort p"
  "key_of_bytes (le_encode 2 (unat (p :: 16 word))) DSTPORT = KPort p"
proof -
  have "unat p < 256 ^ 2" using unsigned_less [of p] by simp
  then have "le_decode (take 2 (le_encode 2 (unat p))) = unat p" by (simp add: le_roundtrip)
  then show "key_of_bytes (le_encode 2 (unat (p :: 16 word))) SRCPORT = KPort p"
    "key_of_bytes (le_encode 2 (unat (p :: 16 word))) DSTPORT = KPort p"
    by (simp_all add: key_of_bytes_def)
qed

lemma query_flow_keys: "flow_keys meta = map (\<lambda>(b, t). (key_of_bytes b t, t)) (query_keys meta)"
  by (simp add: flow_keys_def query_keys_def port_key)

lemma ibf_insert_keys:
  assumes "ibf_insert h1 h2 s meta pos db rx = Some (True, s')"
  shows "\<exists>bm. insert_keys h1 h2 (im_filter (ibf_metas (sys_index s) ! (db mod ibf_total (sys_index s))))
      (sys_bitmap s) (flow_keys meta) = (True, bm) \<and> sys_bitmap s' = bm"
  using assms
  by (auto simp: ibf_insert_def Let_def vec_get_def split: Option.bind_splits if_splits prod.splits)

lemma ibf_insert_effect:
  assumes "ibf_insert h1 h2 s meta pos db rx = Some (True, s')" and "db mod ibf_total (sys_index s) = i"
  shows "i < length (ibf_metas (sys_index s)) \<and> sys_disk s' = sys_disk s \<and> sys_blocks s' = sys_blocks s \<and>
    im_disk_block_id (ibf_metas (sys_index s) ! i) = db \<and>
    sys_index s' = (sys_index s)\<lparr>ibf_metas := (ibf_metas (sys_index s))[i := (ibf_metas (sys_index s) ! i)
      \<lparr>im_index_count := add64 (im_index_count (ibf_metas (sys_index s) ! i)) 1\<rparr>]\<rparr>"
  using assms
  by (auto simp: ibf_insert_def Let_def vec_get_Some split: Option.bind_splits if_splits prod.splits)

lemma query_key_type: "(key, t) \<in> set (query_keys meta) \<Longrightarrow> t \<noteq> TOTAL_INDEX"
  by (auto simp: query_keys_def split: if_splits)

text \<open>C3: from insertion to query. A flow whose insertion into the index buffer was accepted is
  reported, under each of its addresses and ports, by the metadata of its disk block once the
  persister has written the block's index, whatever the filters of other blocks insert and whatever
  other columns are cleared before, between and after.\<close>

theorem persisted_flow_is_found:
  assumes inv: "sys_bitmap s = Some m" "BitMap_inv m"
    and f: "f = im_filter (ibf_metas (sys_index s) ! (db mod ibf_total (sys_index s)))"
    and ins: "ibf_insert h1 h2 s meta pos db rx = Some (True, s')"
    and kept: "ClearCol (writing_col f) \<notin> set ops \<union> set ops'"
    and s1: "sys_bitmap s1 = Some (fold (run_filter_op h1 h2) ops (the (sys_bitmap s')))"
      "vec_get (ibf_metas (sys_index s1)) j = Some im" "im_filter im = f" "im_disk_block_id im = db"
    and disk: "db < dk_block_num (sys_disk s1)" "length (dk_metas (sys_disk s1)) = dk_block_num (sys_disk s1)"
      "pb_k (dm_filter (dk_metas (sys_disk s1) ! db)) = pb_k f"
    and persist: "persistMeta srt p j s1 = Some (Inr s2)"
    and q: "(key, t) \<in> set (query_keys meta)"
  shows "checkKey h1 h2 (Some (fold (run_filter_op h1 h2) ops' (the (sys_bitmap s2)))) (sys_disk s2) db key t"
proof -
  let ?rows = "key_rows h1 h2 (pb_k f) (key_of_bytes key t) t"
  from q have k: "(key_of_bytes key t, t) \<in> set (flow_keys meta)"
    by (force simp: query_flow_keys)
  from ibf_insert_keys [OF ins] obtain bm where "insert_keys h1 h2 f (Some m) (flow_keys meta) = (True, bm)"
    "sys_bitmap s' = bm" using inv f by auto
  from insert_keys_contains [OF inv(2) this(1)] this(2) k obtain m' where m': "sys_bitmap s' = Some m'" "BitMap_inv m'"
    "key_fits (key_of_bytes key t) t" "get_seq BitMap_get m' ?rows (writing_col f)" by blast
  let ?m1 = "fold (run_filter_op h1 h2) ops m'"
  have inv1: "BitMap_inv (fold (run_filter_op h1 h2) os mm)" if "BitMap_inv mm" for os mm
    using that by (induction os arbitrary: mm) (auto simp: run_filter_op_step(1))
  have g1: "get_seq BitMap_get ?m1 ?rows (writing_col f)"
    using run_filter_ops [OF m'(2,4)] kept by simp
  have bm1: "sys_bitmap s1 = Some ?m1" using s1(1) m'(1) by simp
  have col: "writing_col f < col_count ?m1" by (rule get_rows_col [OF inv1 [OF m'(2)] g1])
  from persistMeta_effect [OF persist s1(2)] obtain lens where
    d: "sys_disk s2 = setBloomFilterReadingCol (Some ?m1)
        (set_ranges db (zip [0..<6] lens) (sys_write_pos s1 mod ip_disk_size p) (sys_disk s1)) db (writing_col f)"
    and bm2: "sys_bitmap s2 = Some ?m1" using s1(3,4) bm1 by (auto simp: getWritingCol_def)
  have fl: "dm_filter (dk_metas (sys_disk s2) ! db) = (dm_filter (dk_metas (sys_disk s1) ! db))\<lparr>reading_col := writing_col f\<rparr>"
    "dk_block_num (sys_disk s2) = dk_block_num (sys_disk s1)"
    unfolding d using disk(1,2) col
    by (simp_all add: setBloomFilterReadingCol_def update_meta_def set_ranges_same setReadingCol_def)
  have "get_seq BitMap_get (fold (run_filter_op h1 h2) ops' ?m1) ?rows (writing_col f)"
    using run_filter_ops [OF inv1 [OF m'(2)] g1] kept by simp
  then show ?thesis
    using disk(1,3) m'(3) query_key_type [OF q] bm2 by (simp add: checkKey_def fl pbf_contains_seq)
qed

text \<open>The index ranges of a block. When the persister has written a block, the metadata of the
  block holds for the six index types six adjacent ranges, the first starting at the shared write
  position reduced to the disk size; each is as long as the records of its type in all pools
  together, and the write position has moved on by the sum.\<close>

lemma persist_ranges_adjacent:
  assumes persist: "persistMeta srt p j s = Some (Inr s')"
    and im: "vec_get (ibf_metas (sys_index s)) j = Some im" "im_disk_block_id im = i"
    and disk: "i < dk_block_num (sys_disk s)" "length (dk_metas (sys_disk s)) = dk_block_num (sys_disk s)"
      "length (dm_index_meta (dk_metas (sys_disk s) ! i)) = 12"
  shows "\<exists>lens. length lens = 6 \<and> sys_write_pos s' = add64 (sys_write_pos s) (sum_list lens) \<and>
    (\<forall>t < 6. sum_lens t i (sys_pools s) = Some (lens ! t) \<and>
       dm_index_meta (dk_metas (sys_disk s') ! i) ! (2 * t) =
         sys_write_pos s mod ip_disk_size p + sum_list (take t lens) \<and>
       dm_index_meta (dk_metas (sys_disk s') ! i) ! (2 * t + 1) =
         sys_write_pos s mod ip_disk_size p + sum_list (take (t + 1) lens))"
proof -
  let ?c = "sys_write_pos s mod ip_disk_size p"
  from persistMeta_effect [OF persist im(1)] obtain lens where lens: "length lens = 6"
    "\<forall>t < 6. sum_lens t i (sys_pools s) = Some (lens ! t)"
    "sys_write_pos s' = add64 (sys_write_pos s) (sum_list lens)"
    and d: "sys_disk s' = setBloomFilterReadingCol (sys_bitmap s) (set_ranges i (zip [0..<6] lens) ?c (sys_disk s)) i
        (getWritingCol (sys_bitmap s) (im_filter im))" using im(2) by auto
  have same: "dm_index_meta (dk_metas (sys_disk s') ! i) =
      dm_index_meta (dk_metas (set_ranges i (zip [0..<6] lens) ?c (sys_disk s)) ! i)"
    unfolding d using disk by (simp add: setBloomFilterReadingCol_def update_meta_def set_ranges_same)
  obtain a0 a1 a2 a3 a4 a5 where l: "lens = [a0, a1, a2, a3, a4, a5]"
    using lens(1) by (auto simp: length_Suc_conv numeral_eq_Suc One_nat_def)
  have six: "[0..<6] = [0, 1, 2, 3, 4, 5]" by (simp add: upt_rec)
  have "\<forall>t < 6. dm_index_meta (dk_metas (sys_disk s') ! i) ! (2 * t) = ?c + sum_list (take t lens) \<and>
       dm_index_meta (dk_metas (sys_disk s') ! i) ! (2 * t + 1) = ?c + sum_list (take (t + 1) lens)"
  proof (intro allI impI)
    fix t :: nat assume "t < 6"
    then consider "t = 0" | "t = 1" | "t = 2" | "t = 3" | "t = 4" | "t = 5" by linarith
    then show "dm_index_meta (dk_metas (sys_disk s') ! i) ! (2 * t) = ?c + sum_list (take t lens) \<and>
       dm_index_meta (dk_metas (sys_disk s') ! i) ! (2 * t + 1) = ?c + sum_list (take (t + 1) lens)"
      unfolding same l six using disk
      by cases (simp_all add: setIndexID_def update_meta_def take_Cons')
  qed
  then show ?thesis using lens by (intro exI [of _ lens]) simp
qed

text \<open>What recycling a block does to the filter columns. The column \<open>backup_col_count\<close> further on
  is emptied: no filter reading it reports any key, whosever keys were in it, and no other column
  changes. The recycled block moves to that column when it exists; behind the last column, where
  nothing is cleared, it stays in its old column with all old keys.\<close>

lemma clearMeta_moves_column:
  assumes bm: "sys_bitmap s = Some m" "BitMap_inv m"
    and th: "ip_index_thread p < length (ibf_check_ids (sys_index s))"
      "ibf_check_ids (sys_index s) ! ip_index_thread p = j"
    and im: "vec_get (ibf_metas (sys_index s)) j = Some im"
    and new: "new_col = add64 (writing_col (im_filter im)) (backup_col_count m)"
    and cl: "clearMeta p j s = Some s'"
  shows "\<exists>m'. sys_bitmap s' = Some m' \<and> BitMap_inv m' \<and>
      (\<forall>r c. BitMap_get m' r c \<longleftrightarrow> BitMap_get m r c \<and> c \<noteq> new_col) \<and>
      (\<forall>g key t. reading_col g = new_col \<longrightarrow> \<not> pbf_contains h1 h2 g (Some m') key t) \<and>
      ibf_metas (sys_index s') ! j =
        \<lparr>im_filter = (im_filter im)\<lparr>writing_col := if new_col < col_count m then new_col else writing_col (im_filter im)\<rparr>,
         im_disk_block_id = (im_disk_block_id im + ibf_total (sys_index s)) mod ibf_disk_num (sys_index s),
         im_index_count = 0\<rparr>"
proof -
  note cc = clearCol_get [OF bm(2), where col = new_col]
  have g: "\<not> pbf_contains h1 h2 g (Some (clearCol m new_col)) key t" if "reading_col g = new_col" for g key t
    using key_rows_nonempty [of h1 h2 "pb_k g" key t]
    by (auto simp: pbf_contains_seq get_seq_all cc(3) that ex_in_conv [symmetric])
  have n: "new_col = add64 (getWritingCol (sys_bitmap s) (im_filter im)) (backup_col_count m)"
    using new bm(1) by (simp add: getWritingCol_def)
  obtain pools where e: "s' = s\<lparr>sys_disk := clearPacketCount (sys_disk s) (im_disk_block_id im),
      sys_bitmap := Some (clearCol m new_col), sys_pools := pools,
      sys_index := (sys_index s)\<lparr>
        ibf_metas := (ibf_metas (sys_index s))[j :=
          \<lparr>im_filter = setWritingCol (Some (clearCol m new_col)) (im_filter im) new_col,
           im_disk_block_id = (im_disk_block_id im + ibf_total (sys_index s)) mod ibf_disk_num (sys_index s),
           im_index_count = 0\<rparr>],
        ibf_check_ids := (ibf_check_ids (sys_index s))[ip_index_thread p :=
            (j + length (ibf_check_ids (sys_index s))) mod ibf_total (sys_index s)]\<rparr>\<rparr>"
    using cl im bm(1) th n
    by (auto simp: clearMeta_def updateIndexBufferMeta_def Let_def split: Option.bind_splits)
  have "j < length (ibf_metas (sys_index s))" using im by (simp add: vec_get_Some)
  then have "sys_bitmap s' = Some (clearCol m new_col)" "ibf_metas (sys_index s') ! j =
      \<lparr>im_filter = (im_filter im)\<lparr>writing_col := if new_col < col_count m then new_col else writing_col (im_filter im)\<rparr>,
       im_disk_block_id = (im_disk_block_id im + ibf_total (sys_index s)) mod ibf_disk_num (sys_index s),
       im_index_count = 0\<rparr>"
    unfolding e by (simp_all add: setWritingCol_def clearCol_size)
  then show ?thesis using cc g by auto
qed

section \<open>Witnesses\<close>

definition example_pools :: IndexMemoryPool where
  "example_pools = (case IndexMemoryPool_new True 720 3 of Inr ip \<Rightarrow> ip)"

definition example_flow :: FlowMetadata where
  "example_flow = \<lparr>sourceAddress = [1, 1, 168, 192], destinationAddress = [2, 1, 168, 192], sourcePort = 80, destinationPort = 443\<rparr>"

definition example_system :: IndexSystem where
  "example_system = \<lparr>sys_bitmap = Some (example_store 0),
     sys_index = \<lparr>ibf_total = 2, ibf_disk_num = 4,
       ibf_metas = map (IndexBufferMeta_init (Some (example_store 0)) 2) [0..<2], ibf_check_ids = [0]\<rparr>,
     sys_pools = [example_pools], sys_blocks = example_index_blocks,
     sys_disk = \<lparr>dk_block_num = 4, dk_metas = replicate 4 (DiskMeta_init 2)\<rparr>, sys_write_pos = 0\<rparr>"

lemma example_pools_fresh:
  "length (imp_pool example_pools) = 6"
  "\<forall>t \<in> set pool_types. pool_fresh (imp_pool example_pools ! index_num t) \<and>
     mp_unit_len (imp_pool example_pools ! index_num t) = type_key_len t + 8"
proof -
  obtain a b c where n: "MemoryPool_new (replicate 120 0) 120 3 12 = Inr a"
    "MemoryPool_new (replicate 120 0) 120 3 10 = Inr b" "MemoryPool_new (replicate 120 0) 120 3 24 = Inr c"
    by (simp add: MemoryPool_new_def)
  have e: "imp_pool example_pools = [a, a, b, b, c, c]"
    by (simp add: example_pools_def IndexMemoryPool_new_def pool_types_def n Let_def)
  show "length (imp_pool example_pools) = 6" by (simp add: e)
  show "\<forall>t \<in> set pool_types. pool_fresh (imp_pool example_pools ! index_num t) \<and>
     mp_unit_len (imp_pool example_pools ! index_num t) = type_key_len t + 8"
    using pool_new_fresh [OF n(1)] pool_new_fresh [OF n(2)] pool_new_fresh [OF n(3)]
    by (simp add: e pool_types_def)
qed

lemma imp_put_fresh:
  assumes "index_num t < length (imp_pool ip)" and "pool_fresh (imp_pool ip ! index_num t)"
    and "mp_unit_len (imp_pool ip ! index_num t) = length key + 8"
  shows "\<exists>p'. imp_put ip t key position i = Some (ip\<lparr>imp_pool := (imp_pool ip)[index_num t := p']\<rparr>)"
  using put_fresh [OF assms(2), of key position i] assms(1,3)
  by (auto simp: imp_put_def vec_get_def vec_set_def)

lemma example_imp_insert: "\<exists>ip. imp_insert example_pools example_flow 7 1 = Some (True, ip)"
proof -
  note fresh = example_pools_fresh [unfolded pool_types_def, simplified]
  obtain p1 where p1: "imp_put example_pools SRCIP [1, 1, 168, 192] 7 1 =
      Some (example_pools\<lparr>imp_pool := (imp_pool example_pools)[0 := p1]\<rparr>)" (is "_ = Some ?i1")
    using imp_put_fresh [of SRCIP example_pools "[1, 1, 168, 192]" 7 1] fresh by auto
  obtain p2 where p2: "imp_put ?i1 DSTIP [2, 1, 168, 192] 7 1 =
      Some (?i1\<lparr>imp_pool := (imp_pool ?i1)[1 := p2]\<rparr>)" (is "_ = Some ?i2")
    using imp_put_fresh [of DSTIP ?i1 "[2, 1, 168, 192]" 7 1] fresh by auto
  obtain p3 where p3: "imp_put ?i2 SRCPORT (le_encode 2 80) 7 1 =
      Some (?i2\<lparr>imp_pool := (imp_pool ?i2)[2 := p3]\<rparr>)" (is "_ = Some ?i3")
    using imp_put_fresh [of SRCPORT ?i2 "le_encode 2 80" 7 1] fresh by auto
  obtain p4 where p4: "imp_put ?i3 DSTPORT (le_encode 2 443) 7 1 =
      Some (?i3\<lparr>imp_pool := (imp_pool ?i3)[3 := p4]\<rparr>)"
    using imp_put_fresh [of DSTPORT ?i3 "le_encode 2 443" 7 1] fresh by auto
  have l: "length [1, 1, 168, 192 :: byte] = 4" "length [2, 1, 168, 192 :: byte] = 4"
    "unat (80 :: 16 word) = 80" "unat (443 :: 16 word) = 443" by simp_all
  have "imp_insert example_pools example_flow 7 1 =
      Some (True, ?i3\<lparr>imp_pool := (imp_pool ?i3)[3 := p4]\<rparr>)"
    unfolding imp_insert_def example_flow_def FlowMetadata.simps l p1 p2 p3 p4
    by (simp only: simp_thms if_True bind.bind_lunit p1 p2 p3 p4)
  then show ?thesis by blast
qed

lemma insert_keys_ok:
  assumes "BitMap_inv m" and "pbf_rows_needed \<le> row_count m" and "writing_col f < col_count m"
    and "\<forall>(key, t) \<in> set ks. key_fits key t"
  shows "\<exists>bm. insert_keys h1 h2 f (Some m) ks = (True, bm)"
  using assms
proof (induction ks arbitrary: m)
  case Nil
  then show ?case by simp
next
  case (Cons kt ks)
  obtain key t where kt: "kt = (key, t)" by (cases kt)
  let ?m1 = "run_filter_op h1 h2 (Insert f key t) m"
  have s: "snd (pbf_insert h1 h2 f (Some m) key t) = Some ?m1" by (auto simp: pbf_insert_seq)
  have in_same: "in_map ?m1 r c = in_map m r c" for r c
    using bms.set_seq_dom [OF Cons.prems(1)] by (auto simp: pbf_insert_seq)
  have cols: "col_count ?m1 = col_count m \<and> row_count ?m1 = row_count m"
    by (simp add: pbf_insert_seq set_seq_size)
  have ok: "fst (pbf_insert h1 h2 f (Some m) key t)"
    using pbf_insert_succeeds [OF Cons.prems(1,2)] Cons.prems(3,4) kt by simp
  have "\<exists>bm. insert_keys h1 h2 f (Some ?m1) ks = (True, bm)"
  proof (rule Cons.IH [OF run_filter_op_step(1) [OF Cons.prems(1)]])
    show "pbf_rows_needed \<le> row_count ?m1" "writing_col f < col_count ?m1"
      by (simp_all only: cols Cons.prems(2,3))
    show "\<forall>(key, t) \<in> set ks. key_fits key t" using Cons.prems(4) by simp
  qed
  moreover have "pbf_insert h1 h2 f (Some m) key t = (True, Some ?m1)" using s ok by (metis prod.collapse)
  ultimately show ?case unfolding kt by (simp only: insert_keys.simps prod.case if_True)
qed

lemma example_ibf_insert:
  "\<exists>s'. ibf_insert (\<lambda>_. 7) id example_system example_flow 7 1 0 = Some (True, s')"
proof -
  let ?f = "im_filter (IndexBufferMeta_init (Some (example_store 0)) 2 1)"
  have "\<exists>bm. insert_keys (\<lambda>_. 7) id ?f (Some (example_store 0)) (flow_keys example_flow) = (True, bm)"
  proof (rule insert_keys_ok [OF example_store_inv])
    show "pbf_rows_needed \<le> row_count (example_store 0)" by (simp add: pbf_rows_needed_def example_store_def)
    show "writing_col ?f < col_count (example_store 0)"
      by (simp add: IndexBufferMeta_init_def setWritingCol_def example_store_def PrefixBloomFilter_init_def)
    show "\<forall>(key, t) \<in> set (flow_keys example_flow). key_fits key t"
      by (simp add: flow_keys_def example_flow_def key_of_bytes_def key_fits_def)
  qed
  then obtain bm where bm: "insert_keys (\<lambda>_. 7) id ?f (Some (example_store 0)) (flow_keys example_flow) = (True, bm)" ..
  obtain ip where ip: "imp_insert example_pools example_flow 7 1 = Some (True, ip)" using example_imp_insert ..
  have "im_disk_block_id (IndexBufferMeta_init (Some (example_store 0)) 2 1) = 1"
    by (simp add: IndexBufferMeta_init_def)
  then show ?thesis
    using bm ip by (simp add: ibf_insert_def example_system_def vec_get_def Let_def nth_Cons' One_nat_def upt_rec)
qed

text \<open>The state of the example after the insertion, when all pools have been written out.\<close>

definition example_persister :: IndexPersister where
  "example_persister = \<lparr>ip_disk_size = 64, ip_index_thread = 0, ip_block_thread = 0\<rparr>"

lemma sort_nothing:
  assumes "key_len = 2 \<or> key_len = 4 \<or> key_len = 16" and "start_pos mod ib_buffer_size b \<le> ib_buffer_size b"
    and "ib_buffer_size b \<le> length (ib_mem b)"
  shows "sortIndex sort_by b start_pos 0 key_len = Some (Inr b)"
  using assms by (simp add: sortIndex_def Let_def mread_def mwrite_def)

lemma example_persist:
  assumes "sys_pools s = []" and "sys_blocks s = example_index_blocks" and "vec_get (ibf_metas (sys_index s)) j = Some im"
  shows "\<exists>s'. persistMeta sort_by example_persister j s = Some (Inr s')"
proof -
  have st: "persist_types sort_by i th ts cur s2 = Some (Inr (s2\<lparr>sys_disk := set_ranges i (map (\<lambda>t. (t, 0)) ts) cur (sys_disk s2)\<rparr>))"
    if "sys_pools s2 = []" "sys_blocks s2 = example_index_blocks" "\<forall>t \<in> set ts. t < 6" for i th ts cur s2
    using that
  proof (induction ts arbitrary: s2)
    case Nil
    then show ?case by simp
  next
    case (Cons t ts)
    have "t = 0 \<or> t = 1 \<or> t = 2 \<or> t = 3 \<or> t = 4 \<or> t = 5" using Cons.prems(3) by auto
    then have k: "key_lens t = 2 \<or> key_lens t = 4 \<or> key_lens t = 16" by (auto simp: key_lens_def One_nat_def)
    have e: "sortIndex sort_by example_index_blocks cur 0 (key_lens t) = Some (Inr example_index_blocks)"
      by (rule sort_nothing [OF k]) (simp_all add: example_index_blocks_def)
    show ?case using Cons by (simp add: e)
  qed
  have t0: "total_lens ts i [] = Some 0" for ts i by (induction ts) simp_all
  let ?s = "s\<lparr>sys_write_pos := add64 (sys_write_pos s) 0\<rparr>"
  have "\<forall>t \<in> set [0..<6::nat]. t < 6" by simp
  then obtain s1 where "persist_types sort_by (im_disk_block_id im) 0 [0..<6] (sys_write_pos s mod 64) ?s = Some (Inr s1)"
    using st [of ?s "[0..<6]"] assms(1,2) by simp
  then show ?thesis
    unfolding persistMeta_def assms(3) example_persister_def Let_def assms(1) IndexPersister.simps bind.bind_lunit t0
    by simp
qed

lemma le_443: "le_encode 2 443 = [187, 1]"
proof -
  have "le_encode (Suc (Suc 0)) 443 = [187, 1]" by simp
  then show ?thesis by (simp only: numeral_2_eq_2)
qed

theorem persisted_flow_is_found_witness:
  "\<exists>s' s2. ibf_insert (\<lambda>_. 7) id example_system example_flow 7 1 0 = Some (True, s') \<and>
     persistMeta sort_by example_persister 1 (s'\<lparr>sys_pools := []\<rparr>) = Some (Inr s2) \<and>
     checkKey (\<lambda>_. 7) id (sys_bitmap s2) (sys_disk s2) 1 [1, 1, 168, 192] SRCIP \<and>
     checkKey (\<lambda>_. 7) id (sys_bitmap s2) (sys_disk s2) 1 [187, 1] DSTPORT"
proof -
  let ?h1 = "\<lambda>_. 7" and ?h2 = "id :: nat \<Rightarrow> nat"
  obtain s' where ins: "ibf_insert ?h1 ?h2 example_system example_flow 7 1 0 = Some (True, s')"
    using example_ibf_insert ..
  let ?im = "IndexBufferMeta_init (Some (example_store 0)) 2 1"
  have ex: "(1::nat) mod ibf_total (sys_index example_system) = 1" "ibf_metas (sys_index example_system) ! 1 = ?im"
    "length (ibf_metas (sys_index example_system)) = 2" "sys_bitmap example_system = Some (example_store 0)"
    "dk_block_num (sys_disk example_system) = 4" "length (dk_metas (sys_disk example_system)) = 4"
    "sys_blocks example_system = example_index_blocks"
    by (simp_all add: example_system_def)
  have f: "im_filter ?im = \<lparr>pb_k = 2, writing_col = 1, reading_col = u32_max\<rparr>" "im_disk_block_id ?im = 1"
    by (simp_all add: IndexBufferMeta_init_def setWritingCol_def example_store_def PrefixBloomFilter_init_def)
  have k: "pb_k (dm_filter (dk_metas (sys_disk example_system) ! 1)) = 2"
    by (simp add: example_system_def DiskMeta_init_def PrefixBloomFilter_init_def)
  note eff = ibf_insert_effect [OF ins ex(1)]
  let ?s1 = "s'\<lparr>sys_pools := []\<rparr>"
  obtain bm where bm: "sys_bitmap s' = Some bm"
    using ibf_insert_keys [OF ins] insert_keys_contains [OF example_store_inv] unfolding ex(4) by metis
  have g: "vec_get (ibf_metas (sys_index ?s1)) 1 = Some (?im\<lparr>im_index_count := add64 (im_index_count ?im) 1\<rparr>)"
    using eff ex(2,3) by (simp add: vec_get_def)
  from example_persist [OF _ _ g] eff ex(7) obtain s2 where
    per: "persistMeta sort_by example_persister 1 ?s1 = Some (Inr s2)" by auto
  obtain lens where "sys_bitmap s2 = sys_bitmap ?s1" using persistMeta_effect [OF per g] by blast
  then have bm2: "sys_bitmap s2 = Some bm" using bm by simp
  have q: "([1, 1, 168, 192], SRCIP) \<in> set (query_keys example_flow)" "([187, 1], DSTPORT) \<in> set (query_keys example_flow)"
    using le_443 by (simp_all add: query_keys_def example_flow_def)
  have "checkKey ?h1 ?h2 (Some (fold (run_filter_op ?h1 ?h2) [] (the (sys_bitmap s2)))) (sys_disk s2) 1 key t"
    if "(key, t) \<in> set (query_keys example_flow)" for key t
    by (rule persisted_flow_is_found [OF ex(4) example_store_inv refl ins _ _ g _ _ _ _ _ per that, where ops = "[]"])
       (use eff ex f k bm in \<open>simp_all\<close>)
  with q bm2 ins per show ?thesis by auto
qed

lemma persist_ranges_adjacent_example:
  "\<exists>s'. persistMeta sort_by example_persister 1 (example_system\<lparr>sys_pools := []\<rparr>) = Some (Inr s') \<and>
     dm_index_meta (dk_metas (sys_disk s') ! 1) ! 7 = dm_index_meta (dk_metas (sys_disk s') ! 1) ! 8"
proof -
  let ?s = "example_system\<lparr>sys_pools := []\<rparr>" and ?im = "IndexBufferMeta_init (Some (example_store 0)) 2 1"
  have g: "vec_get (ibf_metas (sys_index ?s)) 1 = Some ?im" "im_disk_block_id ?im = 1"
    by (simp_all add: example_system_def vec_get_def IndexBufferMeta_init_def)
  obtain s' where per: "persistMeta sort_by example_persister 1 ?s = Some (Inr s')"
    using example_persist [OF _ _ g(1)] by (auto simp: example_system_def)
  have d: "1 < dk_block_num (sys_disk ?s)" "length (dk_metas (sys_disk ?s)) = dk_block_num (sys_disk ?s)"
    "length (dm_index_meta (dk_metas (sys_disk ?s) ! 1)) = 12"
    by (simp_all add: example_system_def DiskMeta_init_def)
  from persist_ranges_adjacent [OF per g d] obtain lens where
    r: "\<forall>t < 6. dm_index_meta (dk_metas (sys_disk s') ! 1) ! (2 * t) =
         sys_write_pos ?s mod ip_disk_size example_persister + sum_list (take t lens) \<and>
       dm_index_meta (dk_metas (sys_disk s') ! 1) ! (2 * t + 1) =
         sys_write_pos ?s mod ip_disk_size example_persister + sum_list (take (t + 1) lens)" by blast
  show ?thesis using r [rule_format, of 3] r [rule_format, of 4] per by simp
qed

lemma clearMeta_moves_column_example:
  "\<exists>s' m'. clearMeta example_persister 0 (example_system\<lparr>sys_pools := []\<rparr>) = Some s' \<and> sys_bitmap s' = Some m' \<and>
     writing_col (im_filter (ibf_metas (sys_index s') ! 0)) = 2 \<and> im_disk_block_id (ibf_metas (sys_index s') ! 0) = 2 \<and>
     \<not> getPort (example_filter\<lparr>reading_col := 2\<rparr>) (Some m') 80 SRCPORT"
proof -
  let ?s = "example_system\<lparr>sys_pools := []\<rparr>" and ?im = "IndexBufferMeta_init (Some (example_store 0)) 2 0"
  have im: "writing_col (im_filter ?im) = 0" "im_disk_block_id ?im = 0" "backup_col_count (example_store 0) = 2"
    "col_count (example_store 0) = 16"
    by (simp_all add: IndexBufferMeta_init_def setWritingCol_def example_store_def)
  have g: "vec_get (ibf_metas (sys_index ?s)) 0 = Some ?im" "sys_bitmap ?s = Some (example_store 0)"
    by (simp_all add: example_system_def vec_get_def upt_rec)
  have th: "ip_index_thread example_persister < length (ibf_check_ids (sys_index ?s))"
    "ibf_check_ids (sys_index ?s) ! ip_index_thread example_persister = 0"
    by (simp_all add: example_system_def example_persister_def)
  have n: "2 = add64 (writing_col (im_filter ?im)) (backup_col_count (example_store 0))"
    by (simp add: im add64_def)
  obtain s' where c: "clearMeta example_persister 0 ?s = Some s'"
    using g th im n by (simp add: clearMeta_def updateIndexBufferMeta_def Let_def example_system_def)
  from clearMeta_moves_column [OF g(2) example_store_inv th g(1) n c, of "\<lambda>_. 7" id] obtain m' where
    m': "sys_bitmap s' = Some m'" "\<forall>g key t. reading_col g = 2 \<longrightarrow> \<not> pbf_contains (\<lambda>_. 7) id g (Some m') key t"
      "ibf_metas (sys_index s') ! 0 = \<lparr>im_filter = (im_filter ?im)\<lparr>writing_col := if 2 < col_count (example_store 0) then 2
         else writing_col (im_filter ?im)\<rparr>, im_disk_block_id = (im_disk_block_id ?im + ibf_total (sys_index ?s)) mod
         ibf_disk_num (sys_index ?s), im_index_count = 0\<rparr>" by blast
  have "\<not> pbf_contains (\<lambda>_. 7) id (example_filter\<lparr>reading_col := 2\<rparr>) (Some m') (KPort 80) SRCPORT" using m'(2) by simp
  then show ?thesis using c m'(1,3) im
    by (intro exI [of _ s'] exI [of _ m']) (simp add: pbf_contains_def example_system_def)
qed

end
