(* ===== verification/PacketWriter.thy ===== *)
theory PacketWriter
  imports DataBlocks SpscRing FlowAggregate IndexPersist
begin

text \<open>
  The capture thread of \<^verbatim>\<open>dpdk_component/dpdkReader.cpp\<close>. Every packet gets a header of 16 bytes and
  is appended to the cell of the disk that the thread owns; when the cell is full, its last 8
  bytes point to the next cell, which all capture threads draw from one counter. The first packet
  of a flow chain is announced to the index over a ring; a later one is linked from its
  predecessor. The packet buffer is that of \<open>DataBlocks\<close>; while a write is refused the thread
  repeats it, and the other threads act between the attempts as their schedule says. Parsing reads
  the packet bytes as the code's pointers do; a read outside the packet is \<open>None\<close>.
\<close>

declare One_nat_def [simp del]

section \<open>State\<close>

record PacketMeta =
  pm_header :: bytes
  pm_data :: bytes
  pm_len :: nat

record Index =
  ix_ts :: nat
  ix_disk_block_id :: nat
  ix_position :: nat
  ix_rx_id :: nat
  ix_meta :: FlowMetadata

record DPDKReader =
  rd_eth_header_len :: nat
  rd_disk_size :: nat
  rd_block_size :: nat
  rd_cell_size :: nat
  rd_cell_num :: nat
  rd_rx_id :: nat
  rd_aggregator :: PacketAggregator
  rd_writeCell :: nat
  rd_writeOffset :: nat
  rd_byteLen :: nat
  rd_thread_id :: nat

datatype reader_error = Cell_number_not_power_of_2 | Block_not_multiple_of_cell

text \<open>The constructor; it also resets the shared cell counter and registers with the buffer.\<close>

definition DPDKReader_new :: "nat \<Rightarrow> nat \<Rightarrow> nat \<Rightarrow> nat \<Rightarrow> nat \<Rightarrow> nat \<Rightarrow> DataBlockBuffer \<Rightarrow>
    reader_error + (DPDKReader \<times> nat \<times> DataBlockBuffer)" where
  "DPDKReader_new eth disk_size block_size cell_size rx_id threshold blocks =
     (let cell_num = disk_size div cell_size in
      if cell_num AND (cell_num - 1) \<noteq> 0 then Inl Cell_number_not_power_of_2
      else if block_size mod cell_size \<noteq> 0 then Inl Block_not_multiple_of_cell
      else case db_addWriteThread blocks of (thread_id, blocks') \<Rightarrow>
        Inr (\<lparr>rd_eth_header_len = eth, rd_disk_size = disk_size, rd_block_size = block_size,
              rd_cell_size = cell_size, rd_cell_num = cell_num, rd_rx_id = rx_id,
              rd_aggregator = PacketAggregator_new threshold u64_max, rd_writeCell = u64_max,
              rd_writeOffset = 0, rd_byteLen = 0, rd_thread_id = thread_id\<rparr>, 0, blocks'))"

text \<open>The first cell of a thread, drawn when \<open>run\<close> starts.\<close>

definition reader_start :: "DPDKReader \<Rightarrow> nat \<Rightarrow> DPDKReader \<times> nat" where
  "reader_start r next_cell = (r\<lparr>rd_writeCell := next_cell\<rparr>, add64 next_cell 1)"

section \<open>Where a packet goes\<close>

definition readPacket :: "DPDKReader \<Rightarrow> bytes \<Rightarrow> nat \<Rightarrow> PacketMeta" where
  "readPacket r buf ts =
     (let caplen = (length buf + 4294967296 - rd_eth_header_len r) mod 4294967296 in
      \<lparr>pm_header = le_encode 4 (ts div 4294967296) @ le_encode 4 (ts mod 4294967296) @
         le_encode 4 caplen @ le_encode 4 u32_max,
       pm_data = buf, pm_len = caplen\<rparr>)"

definition getOffset :: "DPDKReader \<Rightarrow> PacketMeta \<Rightarrow> nat \<times> DPDKReader" where
  "getOffset r meta =
     (let total_len = 16 + pm_len meta;
          offset = add64 (rd_writeOffset r) (mul64 (rd_writeCell r) (rd_cell_size r));
          w1 = add64 (rd_writeOffset r) total_len;
          w2 = (if add64 w1 8 > rd_cell_size r then add64 w1 8 else w1)
      in (offset mod rd_disk_size r, r\<lparr>rd_writeOffset := w2\<rparr>))"

text \<open>The calls of \<open>writeBlock\<close> that \<open>writePacketToPacketBuffer\<close> makes, in order, each with its data,
  position and index flag; \<open>next_cell\<close> is the shared counter.\<close>

type_synonym packet_write = "bytes \<times> nat \<times> bool"

definition packet_writes :: "DPDKReader \<Rightarrow> nat \<Rightarrow> PacketMeta \<Rightarrow> nat \<Rightarrow> bool \<Rightarrow>
    (DPDKReader \<times> nat \<times> packet_write list) option" where
  "packet_writes r next_cell meta offset new_index =
     (let header = pm_header meta; data = mread (pm_data meta) (rd_eth_header_len r) in
      if rd_writeOffset r > rd_cell_size r
      then
        let cell = next_cell mod rd_cell_num r;
            r' = r\<lparr>rd_writeCell := cell, rd_writeOffset := rd_writeOffset r mod rd_cell_size r\<rparr>;
            basic_offset = offset mod rd_cell_size r;
            tmp_len = sub64 (sub64 (rd_cell_size r) basic_offset) 8;
            new_offset = mul64 cell (rd_cell_size r)
        in if 16 > tmp_len
           then do {
             payload \<leftarrow> data (pm_len meta);
             Some (r', add64 next_cell 1,
               (if tmp_len \<noteq> 0 then [(take tmp_len header, offset, new_index)] else [])
               @ [(le_encode 8 cell, offset + tmp_len, False)]
               @ (if tmp_len = 0 then [(header, new_offset, new_index)]
                  else [(drop tmp_len header, new_offset, False)])
               @ [(payload, new_offset + 16 - tmp_len, False)]) }
           else do {
             front \<leftarrow> data (tmp_len - 16);
             back \<leftarrow> data (sub64 (pm_len meta + 16) tmp_len);
             Some (r', add64 next_cell 1,
               [(header, offset, new_index)]
               @ (if tmp_len > 16 then [(front, offset + 16, False)] else [])
               @ [(le_encode 8 cell, offset + tmp_len, False)]
               @ [(back, new_offset, False)]) }
      else do {
        payload \<leftarrow> data (pm_len meta);
        Some (r, next_cell, [(header, offset, new_index), (payload, offset + 16, False)]) })"

text \<open>The loops around \<open>writeBlock\<close>: the list holds what the other threads do to the buffer before
  the second, third, \<open>\<dots>\<close> attempt.\<close>

type_synonym others = "DataBlockBuffer \<Rightarrow> DataBlockBuffer option"

fun write_until :: "others list \<Rightarrow> DataBlockBuffer \<Rightarrow> packet_write \<Rightarrow> nat \<Rightarrow> nat \<Rightarrow>
    (others list \<times> DataBlockBuffer) option" where
  "write_until os b (data, pos, new_index) thread_id ts = do {
     (ok, b') \<leftarrow> db_writeBlock b data pos thread_id True new_index ts;
     if ok then Some (os, b')
     else case os of [] \<Rightarrow> None
       | other # os' \<Rightarrow> do { b2 \<leftarrow> other b'; write_until os' b2 (data, pos, new_index) thread_id ts } }"

fun run_writes :: "others list \<Rightarrow> DataBlockBuffer \<Rightarrow> packet_write list \<Rightarrow> nat \<Rightarrow> nat \<Rightarrow>
    (others list \<times> DataBlockBuffer) option" where
  "run_writes os b [] thread_id ts = Some (os, b)"
| "run_writes os b (w # ws) thread_id ts = do {
     (os', b') \<leftarrow> write_until os b w thread_id ts;
     run_writes os' b' ws thread_id ts }"

section \<open>The flow of a packet\<close>

definition be_value :: "bytes \<Rightarrow> nat" where
  "be_value bs = le_decode (rev bs)"

text \<open>\<open>htons\<close> and \<open>htonl\<close> of the C library on a little-endian machine.\<close>

definition byte_swap :: "nat \<Rightarrow> nat \<Rightarrow> nat" where
  "byte_swap n v = le_decode (rev (le_encode n v))"

text \<open>The function for 64 bits, with the shifts and masks of the source.\<close>

definition swap_endianness :: "nat \<Rightarrow> nat" where
  "swap_endianness v =
     ((drop_bit 56 v AND 0x00000000000000FF) OR (drop_bit 40 v AND 0x000000000000FF00) OR
      (drop_bit 24 v AND 0x00000000FF000000) OR (drop_bit 8 v AND 0x00FF000000000000) OR
      (push_bit 8 v AND 0xFF00000000000000) OR (push_bit 24 v AND 0x0000FF0000000000) OR
      (push_bit 40 v AND 0x000000FF00000000) OR (push_bit 56 v AND 0x00000000000000FF))"

definition getFlowMetaData :: "DPDKReader \<Rightarrow> PacketMeta \<Rightarrow> FlowMetadata option" where
  "getFlowMetaData r meta =
     (let eth = rd_eth_header_len r; at = mread (pm_data meta);
          port = (\<lambda>pos. map_option (\<lambda>bs. word_of_nat (byte_swap 2 (le_decode bs))) (at pos 2));
          quad = (\<lambda>pos. map_option (\<lambda>bs. swap_endianness (le_decode bs)) (at pos 8)) in do {
      b0 \<leftarrow> at eth 1;
      let version = (le_decode b0 div 16) mod 16;
      if version = 4
      then do {
        let l4 = eth + (le_decode b0 mod 16) * 4;
        src \<leftarrow> at (eth + 12) 4;
        dst \<leftarrow> at (eth + 16) 4;
        sport \<leftarrow> port l4;
        dport \<leftarrow> port (l4 + 2);
        Some \<lparr>sourceAddress = le_encode 4 (byte_swap 4 (le_decode src)),
              destinationAddress = le_encode 4 (byte_swap 4 (le_decode dst)),
              sourcePort = sport, destinationPort = dport\<rparr> }
      else if version = 6
      then do {
        sport \<leftarrow> port (eth + 40);
        dport \<leftarrow> port (eth + 42);
        slow \<leftarrow> quad (eth + 16);
        shigh \<leftarrow> quad (eth + 8);
        dlow \<leftarrow> quad (eth + 32);
        dhigh \<leftarrow> quad (eth + 24);
        Some \<lparr>sourceAddress = le_encode 8 slow @ le_encode 8 shigh,
              destinationAddress = le_encode 8 dlow @ le_encode 8 dhigh,
              sourcePort = sport, destinationPort = dport\<rparr> }
      else Some \<lparr>sourceAddress = [], destinationAddress = [], sourcePort = 0, destinationPort = 0\<rparr> })"

section \<open>One packet\<close>

record Capture =
  cp_reader :: DPDKReader
  cp_blocks :: DataBlockBuffer
  cp_next_cell :: nat
  cp_ring :: "Index PointerRing"

definition calDiff :: "DPDKReader \<Rightarrow> nat \<Rightarrow> nat \<Rightarrow> nat" where
  "calDiff r offset last_offset = sub64 (add64 offset (rd_disk_size r)) last_offset mod rd_disk_size r"

text \<open>The insertion into the ring waits for room and always succeeds; the list gives the turns of the
  consumer meanwhile, as for \<open>put_wait\<close>. \<open>None\<close> is a call that still waits.\<close>

definition writeIndexToRing :: "nat list \<Rightarrow> DPDKReader \<Rightarrow> Index PointerRing \<Rightarrow> nat \<Rightarrow> FlowMetadata \<Rightarrow> nat \<Rightarrow>
    (bool \<times> Index PointerRing) option" where
  "writeIndexToRing gets r q offset meta ts =
     (let index = \<lparr>ix_ts = ts, ix_disk_block_id = offset div rd_block_size r, ix_position = offset,
                   ix_rx_id = rd_rx_id r, ix_meta = meta\<rparr>
      in map_option (Pair True) (put_wait gets q index))"

definition writeBefore :: "DPDKReader \<Rightarrow> DataBlockBuffer \<Rightarrow> bytes \<Rightarrow> nat \<Rightarrow> DataBlockBuffer option" where
  "writeBefore r b data last_offset =
     map_option snd (db_writeBlock b data last_offset (rd_thread_id r) False False 0)"

definition writePacket :: "others list \<Rightarrow> Capture \<Rightarrow> PacketMeta \<Rightarrow> nat \<Rightarrow> nat \<Rightarrow> bool \<Rightarrow> Capture option" where
  "writePacket os c meta ts offset new_index = do {
     (r, next_cell, ws) \<leftarrow> packet_writes (cp_reader c) (cp_next_cell c) meta offset new_index;
     (_, b) \<leftarrow> run_writes os (cp_blocks c) ws (rd_thread_id r) ts;
     Some (c\<lparr>cp_reader := r, cp_blocks := b, cp_next_cell := next_cell\<rparr>) }"

text \<open>The body of the loop of \<open>run\<close> over the received packets.\<close>

definition capture_packet :: "others list \<Rightarrow> nat list \<Rightarrow> nat \<Rightarrow> bytes \<Rightarrow> Capture \<Rightarrow> Capture option" where
  "capture_packet os gets ts buf c = do {
     let meta = readPacket (cp_reader c) buf ts;
     let (offset, r1) = getOffset (cp_reader c) meta;
     if offset = u64_max then Some (c\<lparr>cp_reader := r1\<rparr>)
     else do {
       let r2 = r1\<lparr>rd_byteLen := add64 (rd_byteLen r1) (pm_len meta)\<rparr>;
       flow_meta \<leftarrow> getFlowMetaData r2 meta;
       if sourceAddress flow_meta = [] then Some (c\<lparr>cp_reader := r2\<rparr>)
       else do {
         let (last, agg) = addPacket (rd_aggregator r2) flow_meta offset ts (rd_disk_size r2);
         let c1 = c\<lparr>cp_reader := r2\<lparr>rd_aggregator := agg\<rparr>\<rparr>;
         if last \<noteq> u64_max
         then do {
           c2 \<leftarrow> writePacket os c1 meta ts offset False;
           let diff = calDiff (cp_reader c2) offset last;
           b \<leftarrow> writeBefore (cp_reader c2) (cp_blocks c2) (le_encode 4 diff) last;
           Some (c2\<lparr>cp_blocks := b\<rparr>) }
         else do {
           c2 \<leftarrow> writePacket os c1 meta ts offset True;
           (_, q) \<leftarrow> writeIndexToRing gets (cp_reader c2) (cp_ring c2) offset flow_meta ts;
           Some (c2\<lparr>cp_ring := q\<rparr>) } } } }"

section \<open>The layout of the cells\<close>

definition reader_ok :: "DPDKReader \<Rightarrow> bool" where
  "reader_ok r \<longleftrightarrow> 0 < rd_cell_num r \<and> 8 \<le> rd_cell_size r \<and> rd_disk_size r = rd_cell_num r * rd_cell_size r \<and>
     rd_disk_size r < U64 div 2 \<and> rd_writeOffset r + 8 \<le> rd_cell_size r \<and> rd_writeCell r < rd_cell_num r"

text \<open>Writes that follow one another from a position on.\<close>

fun contiguous :: "nat \<Rightarrow> packet_write list \<Rightarrow> bool" where
  "contiguous p [] = True"
| "contiguous p ((bs, q, flag) # ws) \<longleftrightarrow> q = p \<and> contiguous (p + length bs) ws"

definition written_bytes :: "packet_write list \<Rightarrow> bytes" where
  "written_bytes ws = concat (map fst ws)"

lemma reader_arith:
  assumes "reader_ok r"
  shows "rd_writeOffset r + rd_writeCell r * rd_cell_size r < rd_disk_size r"
    and "(rd_writeOffset r + rd_writeCell r * rd_cell_size r) mod rd_cell_size r = rd_writeOffset r"
    and "cl < rd_cell_num r \<Longrightarrow> cl * rd_cell_size r + rd_cell_size r \<le> rd_disk_size r"
    and "rd_cell_size r \<le> rd_disk_size r"
proof -
  have le: "cl * rd_cell_size r + rd_cell_size r \<le> rd_disk_size r" if "cl < rd_cell_num r" for cl
  proof -
    have "Suc cl * rd_cell_size r \<le> rd_cell_num r * rd_cell_size r" using that by (intro mult_le_mono1) simp
    then show ?thesis using assms by (simp add: reader_ok_def)
  qed
  have "rd_writeCell r < rd_cell_num r" "rd_writeOffset r + 8 \<le> rd_cell_size r" using assms by (simp_all add: reader_ok_def)
  with le [of "rd_writeCell r"] show "rd_writeOffset r + rd_writeCell r * rd_cell_size r < rd_disk_size r"
    "(rd_writeOffset r + rd_writeCell r * rd_cell_size r) mod rd_cell_size r = rd_writeOffset r" by simp_all
  show "cl < rd_cell_num r \<Longrightarrow> cl * rd_cell_size r + rd_cell_size r \<le> rd_disk_size r" by (rule le)
  have "0 < rd_cell_num r" using assms by (simp add: reader_ok_def)
  from le [OF this] show "rd_cell_size r \<le> rd_disk_size r" by simp
qed

text \<open>The offset and the next write position, without the wrap-around of 64-bit arithmetic.\<close>

lemma getOffset_value:
  assumes ok: "reader_ok r" and len: "pm_len meta + 24 \<le> rd_cell_size r"
  shows "getOffset r meta = (rd_writeOffset r + rd_writeCell r * rd_cell_size r,
    r\<lparr>rd_writeOffset := if rd_writeOffset r + pm_len meta + 24 \<le> rd_cell_size r then rd_writeOffset r + pm_len meta + 16
       else rd_writeOffset r + pm_len meta + 24\<rparr>)"
proof -
  note a = reader_arith [OF ok]
  have s: "rd_disk_size r < U64 div 2" "rd_writeOffset r + 8 \<le> rd_cell_size r" using ok by (simp_all add: reader_ok_def)
  have "rd_writeCell r * rd_cell_size r < U64" using a(1) s(1) by linarith
  then have 1: "add64 (rd_writeOffset r) (mul64 (rd_writeCell r) (rd_cell_size r)) = rd_writeOffset r + rd_writeCell r * rd_cell_size r"
    using a(1) s(1) by (simp add: u64_simps)
  have 2: "add64 (rd_writeOffset r) (16 + pm_len meta) = rd_writeOffset r + pm_len meta + 16"
    "add64 (rd_writeOffset r + pm_len meta + 16) 8 = rd_writeOffset r + pm_len meta + 24"
    using len s a(4) by (simp_all add: add64_small)
  show ?thesis unfolding getOffset_def Let_def 1 2 using a(1) by (simp add: not_less)
qed

definition packet_payload :: "DPDKReader \<Rightarrow> PacketMeta \<Rightarrow> bytes" where
  "packet_payload r meta = take (pm_len meta) (drop (rd_eth_header_len r) (pm_data meta))"

text \<open>All three ways in which a packet is written.\<close>

lemma packet_writes_value:
  assumes ok: "reader_ok r" and len: "pm_len meta + 24 \<le> rd_cell_size r"
    and data: "rd_eth_header_len r + pm_len meta \<le> length (pm_data meta)" and hd: "length (pm_header meta) = 16"
    and off: "getOffset r meta = (off, r1)"
    and new: "new = next_cell mod rd_cell_num r" and tmp: "tmp = rd_cell_size r - rd_writeOffset r - 8"
  shows "packet_writes r1 next_cell meta off idx =
     (if rd_writeOffset r + pm_len meta + 24 \<le> rd_cell_size r
      then Some (r1, next_cell, [(pm_header meta, off, idx), (packet_payload r meta, off + 16, False)])
      else Some (r1\<lparr>rd_writeCell := new, rd_writeOffset := rd_writeOffset r + pm_len meta + 24 - rd_cell_size r\<rparr>,
        add64 next_cell 1,
        (if tmp = 0 then []
         else if tmp < 16 then [(take tmp (pm_header meta), off, idx)]
         else if tmp = 16 then [(pm_header meta, off, idx)]
         else [(pm_header meta, off, idx), (take (tmp - 16) (packet_payload r meta), off + 16, False)])
        @ [(le_encode 8 new, off + tmp, False)] @
        (if tmp = 0 then [(pm_header meta, new * rd_cell_size r, idx), (packet_payload r meta, new * rd_cell_size r + 16, False)]
         else if tmp < 16 then [(drop tmp (pm_header meta), new * rd_cell_size r, False),
                          (packet_payload r meta, new * rd_cell_size r + 16 - tmp, False)]
         else [(take (pm_len meta + 16 - tmp) (packet_payload r meta), new * rd_cell_size r, False)])))"
proof -
  note a = reader_arith [OF ok]
  have s: "rd_disk_size r < U64 div 2" "rd_writeOffset r + 8 \<le> rd_cell_size r" "0 < rd_cell_num r"
    using ok by (simp_all add: reader_ok_def)
  let ?w = "if rd_writeOffset r + pm_len meta + 24 \<le> rd_cell_size r then rd_writeOffset r + pm_len meta + 16
       else rd_writeOffset r + pm_len meta + 24"
  from off getOffset_value [OF ok len] have o: "off = rd_writeOffset r + rd_writeCell r * rd_cell_size r"
    and r1: "r1 = r\<lparr>rd_writeOffset := ?w\<rparr>" by simp_all
  have f: "rd_cell_size r1 = rd_cell_size r" "rd_cell_num r1 = rd_cell_num r" "rd_eth_header_len r1 = rd_eth_header_len r"
    "rd_writeOffset r1 = ?w" by (simp_all add: r1)
  have pay: "mread (pm_data meta) (rd_eth_header_len r) n = Some (take n (packet_payload r meta))" if "n \<le> pm_len meta" for n
    using that data by (simp add: mread_def packet_payload_def min_absorb1)
  have full: "take (pm_len meta) (packet_payload r meta) = packet_payload r meta" by (simp add: packet_payload_def)
  show ?thesis
  proof (cases "rd_writeOffset r + pm_len meta + 24 \<le> rd_cell_size r")
    case True
    then have "\<not> rd_writeOffset r1 > rd_cell_size r1" by (simp add: f)
    then show ?thesis using True pay [of "pm_len meta"] full by (simp add: packet_writes_def Let_def f)
  next
    case False
    then have split: "rd_writeOffset r1 > rd_cell_size r1" by (simp add: f)
    have b: "off mod rd_cell_size r = rd_writeOffset r" using a(2) o by simp
    have t: "sub64 (sub64 (rd_cell_size r) (rd_writeOffset r)) 8 = tmp"
      using s a(4) by (simp add: sub64_ge tmp)
    have "new < rd_cell_num r" using s(3) by (simp add: new)
    from a(3) [OF this] s(1) have n: "mul64 new (rd_cell_size r) = new * rd_cell_size r" by (simp add: mul64_small)
    have m: "(rd_writeOffset r + pm_len meta + 24) mod rd_cell_size r = rd_writeOffset r + pm_len meta + 24 - rd_cell_size r"
      using False len s(2) by (simp add: mod_if)
    have l: "\<not> 16 > tmp \<Longrightarrow> sub64 (pm_len meta + 16) tmp = pm_len meta + 16 - tmp" "tmp - 16 \<le> pm_len meta"
      "\<not> 16 > tmp \<Longrightarrow> pm_len meta + 16 - tmp \<le> pm_len meta"
      using False len s a(4) by (auto simp: tmp sub64_ge)
    show ?thesis
    proof (cases "16 > tmp")
      case True
      then show ?thesis
        using False split pay [of "pm_len meta"] full hd
        by (simp add: packet_writes_def Let_def f b t n m new [symmetric])
    next
      case F2: False
      show ?thesis
        using F2 False split l pay [of "tmp - 16"] pay [of "pm_len meta + 16 - tmp"]
        by (simp add: packet_writes_def Let_def f b t n m new [symmetric])
    qed
  qed
qed

text \<open>The two parts of a packet that does not fit; \<open>tmp\<close> bytes of it go to the old cell.\<close>

definition front_writes :: "nat \<Rightarrow> bytes \<Rightarrow> bytes \<Rightarrow> nat \<Rightarrow> bool \<Rightarrow> packet_write list" where
  "front_writes tmp hdr payload off idx =
     (if tmp = 0 then [] else if tmp < 16 then [(take tmp hdr, off, idx)]
      else if tmp = 16 then [(hdr, off, idx)]
      else [(hdr, off, idx), (take (tmp - 16) payload, off + 16, False)])"

definition rest_writes :: "nat \<Rightarrow> bytes \<Rightarrow> bytes \<Rightarrow> nat \<Rightarrow> bool \<Rightarrow> packet_write list" where
  "rest_writes tmp hdr payload start idx =
     (if tmp = 0 then [(hdr, start, idx), (payload, start + 16, False)]
      else if tmp < 16 then [(drop tmp hdr, start, False), (payload, start + 16 - tmp, False)]
      else [(take (length payload + 16 - tmp) payload, start, False)])"

lemma front_writes_props:
  assumes "length hdr = 16" and "tmp \<le> length payload + 16"
  shows "contiguous off (front_writes tmp hdr payload off idx)"
    and "length (written_bytes (front_writes tmp hdr payload off idx)) = tmp"
  using assms by (auto simp: front_writes_def written_bytes_def)

lemma rest_writes_props:
  assumes "length hdr = 16" and "tmp \<le> length payload + 16"
  shows "contiguous start (rest_writes tmp hdr payload start idx)"
    and "length (written_bytes (rest_writes tmp hdr payload start idx)) = length payload + 16 - tmp"
  using assms by (auto simp: rest_writes_def written_bytes_def)

lemma packet_writes_split:
  assumes ok: "reader_ok r" and len: "pm_len meta + 24 \<le> rd_cell_size r"
    and data: "rd_eth_header_len r + pm_len meta \<le> length (pm_data meta)" and hd: "length (pm_header meta) = 16"
    and off: "getOffset r meta = (off, r1)"
    and ws: "packet_writes r1 next_cell meta off idx = Some (r2, next', ws)"
    and split: "\<not> rd_writeOffset r + pm_len meta + 24 \<le> rd_cell_size r"
    and tmp: "tmp = rd_cell_size r - rd_writeOffset r - 8"
  shows "ws = front_writes tmp (pm_header meta) (packet_payload r meta) off idx @
      [(le_encode 8 (rd_writeCell r2), off + tmp, False)] @
      rest_writes tmp (pm_header meta) (packet_payload r meta) (rd_writeCell r2 * rd_cell_size r) idx"
    and "r2 = r\<lparr>rd_writeCell := next_cell mod rd_cell_num r, rd_writeOffset := rd_writeOffset r + pm_len meta + 24 - rd_cell_size r\<rparr>"
    and "next' = add64 next_cell 1" and "tmp \<le> pm_len meta + 16" and "length (packet_payload r meta) = pm_len meta"
proof -
  show pl: "length (packet_payload r meta) = pm_len meta" using data by (simp add: packet_payload_def)
  show "tmp \<le> pm_len meta + 16" using split by (simp add: tmp)
  note v = packet_writes_value [OF ok len data hd off refl tmp, of next_cell idx]
  from getOffset_value [OF ok len] off
  have r1: "r1 = r\<lparr>rd_writeOffset := rd_writeOffset r + pm_len meta + 24\<rparr>" using split by simp
  show r2: "r2 = r\<lparr>rd_writeCell := next_cell mod rd_cell_num r, rd_writeOffset := rd_writeOffset r + pm_len meta + 24 - rd_cell_size r\<rparr>"
    using v ws split r1 by simp
  show "next' = add64 next_cell 1" using v ws split by simp
  show "ws = front_writes tmp (pm_header meta) (packet_payload r meta) off idx @
      [(le_encode 8 (rd_writeCell r2), off + tmp, False)] @
      rest_writes tmp (pm_header meta) (packet_payload r meta) (rd_writeCell r2 * rd_cell_size r) idx"
    using v ws split by (auto simp: front_writes_def rest_writes_def pl r2)
qed

section \<open>The writes in the packet buffer\<close>

text \<open>A write into blocks the buffer stands for is accepted at the first attempt.\<close>

lemma write_accepted:
  assumes wf: "db_wf b" and th: "th < length (db_write_ids b)" "th < db_rss_num b"
    and len: "length data \<le> db_buffer_size b" and own: "db_admits b pos (length data)"
  shows "\<exists>b'. write_until os b (data, pos, flag) th ts = Some (os, b') \<and> db_wf b' \<and> db_buffer_size b' = db_buffer_size b \<and>
    db_rss_num b' = db_rss_num b \<and> length (db_write_ids b') = length (db_write_ids b) \<and> db_admits b' = db_admits b \<and>
    ring_copy (db_mem b) (db_buffer_size b) (pos mod db_buffer_size b) data = Some (db_mem b')"
proof -
  from db_writeBlock_cases [OF wf th len, of pos True flag ts] own obtain b' where
    b': "db_writeBlock b data pos th True flag ts = Some (True, b')" and w: "written b data pos th True flag b'" by auto
  have "db_rss_num b' = db_rss_num b \<and> length (db_write_ids b') = length (db_write_ids b) \<and> db_admits b' = db_admits b"
    using w by (auto simp: written_def put_write_id_def db_admits_def db_owner_def fun_eq_iff)
  moreover have "write_until os b (data, pos, flag) th ts = Some (os, b')" using b' by (cases os) simp_all
  ultimately show ?thesis using written_props [OF wf len w] by auto
qed

lemma contiguous_writes_read:
  assumes "db_wf b" and "th < length (db_write_ids b)" "th < db_rss_num b" and "N = db_buffer_size b"
    and "contiguous (p + l) ws" and "l + length (written_bytes ws) \<le> N"
    and "\<forall>(data, pos, _) \<in> set ws. db_admits b pos (length data)"
  shows "\<exists>b'. run_writes os b ws th ts = Some (os, b') \<and> db_wf b' \<and>
    ring_read (db_mem b') N (p mod N) (l + length (written_bytes ws)) = ring_read (db_mem b) N (p mod N) l @ written_bytes ws"
  using assms
proof (induction ws arbitrary: b l)
  case Nil
  then show ?case by (simp add: written_bytes_def)
next
  case (Cons w ws)
  obtain data pos flag where w: "w = (data, pos, flag)" by (cases w)
  from Cons.prems(5) w have pos: "pos = p + l" and c: "contiguous (p + (l + length data)) ws" by (simp_all add: ac_simps)
  have tot: "length (written_bytes (w # ws)) = length data + length (written_bytes ws)" by (simp add: written_bytes_def w)
  have len: "length data \<le> db_buffer_size b" using Cons.prems(4,6) tot by simp
  have own: "db_admits b pos (length data)" "\<forall>(data, pos, _) \<in> set ws. db_admits b pos (length data)"
    using Cons.prems(7) w by auto
  from write_accepted [OF Cons.prems(1-3) len own(1), of os flag ts] obtain b1 where
    b1: "write_until os b (data, pos, flag) th ts = Some (os, b1)" "db_wf b1" "db_buffer_size b1 = db_buffer_size b"
      "db_rss_num b1 = db_rss_num b" "length (db_write_ids b1) = length (db_write_ids b)" "db_admits b1 = db_admits b"
      "ring_copy (db_mem b) (db_buffer_size b) (pos mod db_buffer_size b) data = Some (db_mem b1)" by blast
  have N: "0 < N" "N = db_buffer_size b1" using Cons.prems(1,4) b1(3) by (auto simp: db_wf_def)
  have l: "l + length data + length (written_bytes ws) \<le> N" using Cons.prems(6) tot by simp
  have "\<exists>b'. run_writes os b1 ws th ts = Some (os, b') \<and> db_wf b' \<and>
      ring_read (db_mem b') N (p mod N) (l + length data + length (written_bytes ws)) =
        ring_read (db_mem b1) N (p mod N) (l + length data) @ written_bytes ws"
    by (rule Cons.IH [OF b1(2) _ _ N(2) c l]) (use b1 Cons.prems(2,3) own(2) in simp_all)
  then obtain b' where ih: "run_writes os b1 ws th ts = Some (os, b')" "db_wf b'"
    "ring_read (db_mem b') N (p mod N) (l + length data + length (written_bytes ws)) =
      ring_read (db_mem b1) N (p mod N) (l + length data) @ written_bytes ws" by blast
  have "ring_read (db_mem b1) N (p mod N) (l + length data) = ring_read (db_mem b) N (p mod N) l @ data"
  proof (rule ring_copy_append)
    show "p mod N < N" using N by simp
    show "l + length data \<le> N" using l by simp
    show "N \<le> length (db_mem b)" using Cons.prems(1,4) by (simp add: db_wf_def)
    show "ring_copy (db_mem b) N ((p mod N + l) mod N) data = Some (db_mem b1)"
      using b1(7) Cons.prems(4) by (simp add: pos mod_add_left_eq)
  qed
  moreover have "run_writes os b (w # ws) th ts = Some (os, b')" using b1(1) ih(1) by (simp add: w)
  ultimately show ?case using ih(2,3) by (intro exI [of _ b']) (simp add: tot add.assoc, simp add: written_bytes_def w)
qed

lemma caplen_value:
  assumes "eth \<le> n" and "n < 65536"
  shows "(n + 4294967296 - eth) mod 4294967296 = n - (eth :: nat)"
proof -
  have "n + 4294967296 - eth = (n - eth) + 4294967296" using assms by simp
  then have "(n + 4294967296 - eth) mod 4294967296 = (n - eth) mod 4294967296" by (simp only: mod_add_self2)
  then show ?thesis using assms by simp
qed

section \<open>Byte order\<close>

lemma swap_decode: "length bs = n \<Longrightarrow> byte_swap n (le_decode bs) = be_value bs"
  using le_encode_decode [of bs] by (simp add: byte_swap_def be_value_def)

lemma be_value_bound: "length bs = n \<Longrightarrow> be_value bs < 256 ^ n"
  using le_decode_bound [of "rev bs"] by (simp add: be_value_def)

lemma be_roundtrip: "length bs = n \<Longrightarrow> le_decode (le_encode n (be_value bs)) = be_value bs"
  by (simp add: le_roundtrip be_value_bound)

definition net_field :: "bytes \<Rightarrow> nat \<Rightarrow> nat \<Rightarrow> nat" where
  "net_field data pos n = be_value (take n (drop pos data))"

lemma mread_field:
  "mread data pos n = Some bs \<Longrightarrow> byte_swap n (le_decode bs) = net_field data pos n \<and> net_field data pos n < 256 ^ n"
proof -
  assume "mread data pos n = Some bs"
  then have b: "bs = take n (drop pos data)" "length bs = n" by (auto simp: mread_Some)
  with swap_decode [OF b(2)] be_value_bound [OF b(2)] show ?thesis by (simp add: net_field_def)
qed

lemma address4_key:
  "mread data pos 4 = Some bs \<Longrightarrow> t = SRCIP \<or> t = DSTIP \<Longrightarrow>
     key_of_bytes (le_encode 4 (byte_swap 4 (le_decode bs))) t = KIPv4 (word_of_nat (net_field data pos 4))"
proof -
  assume r: "mread data pos 4 = Some bs" and t: "t = SRCIP \<or> t = DSTIP"
  from mread_field [OF r] have f: "byte_swap 4 (le_decode bs) = net_field data pos 4" "net_field data pos 4 < 256 ^ 4"
    by auto
  have "take 4 (le_encode 4 v) = le_encode 4 v" for v by simp
  with t f show ?thesis by (auto simp: key_of_bytes_def le_roundtrip)
qed

text \<open>What \<open>swap_endianness\<close> does to the eight bytes: only three of them are kept.\<close>

definition kept_address :: "bytes \<Rightarrow> bytes" where
  "kept_address a = [a ! 15, a ! 14, 0, a ! 14, 0, a ! 10, a ! 15, a ! 14, a ! 7, a ! 6, 0, a ! 6, 0, a ! 2, a ! 7, a ! 6]"

lemma bit_byte_mask: "bit (v AND push_bit (8 * k) 255) n \<longleftrightarrow> bit (v :: nat) n \<and> n div 8 = k"
proof -
  have "(255 :: nat) = mask 8" by (simp add: mask_eq_exp_minus_1)
  then have "bit (push_bit (8 * k) (255 :: nat)) n \<longleftrightarrow> n div 8 = k"
    by (simp only: bit_push_bit_iff bit_mask_iff) auto
  then show ?thesis by (simp add: bit_and_iff)
qed

lemma bit_low_byte: "bit (v AND 255) n \<longleftrightarrow> bit (v :: nat) n \<and> n div 8 = 0"
  using bit_byte_mask [of v 0 n] by simp

lemma swap_masks:
  "(0x000000000000FF00 :: nat) = push_bit (8 * 1) 255"
  "(0x00000000FF000000 :: nat) = push_bit (8 * 3) 255" "(0x00FF000000000000 :: nat) = push_bit (8 * 6) 255"
  "(0xFF00000000000000 :: nat) = push_bit (8 * 7) 255" "(0x0000FF0000000000 :: nat) = push_bit (8 * 5) 255"
  "(0x000000FF00000000 :: nat) = push_bit (8 * 4) 255"
  by (simp_all add: push_bit_eq_mult)

lemma swap_endianness_nth:
  assumes l: "length vs = 8"
  shows "swap_endianness (le_decode vs) = le_decode [vs ! 7, vs ! 6, 0, vs ! 6, 0, vs ! 2, vs ! 7, vs ! 6]"
proof (rule bit_eqI)
  fix n :: nat
  define q r where "q = n div 8" and "r = n mod 8"
  let ?v = "le_decode vs"
  have n: "n = 8 * q + r" "r < 8" by (simp_all add: q_def r_def)
  have at: "bit ?v (8 * j + r) \<longleftrightarrow> j < 8 \<and> bit (vs ! j) r" for j
  proof -
    have "(8 * j + r) div 8 = j" "(8 * j + r) mod 8 = r" using n(2) by simp_all
    then show ?thesis unfolding bit_le_decode l by (simp only:)
  qed
  have up: "bit (drop_bit (8 * k) ?v) n \<longleftrightarrow> q + k < 8 \<and> bit (vs ! (q + k)) r" for k
    using at [of "q + k"] n(1) by (simp add: bit_drop_bit_eq add_mult_distrib2 add.assoc add.commute add.left_commute)
  have down: "bit (push_bit (8 * k) ?v) n \<longleftrightarrow> k \<le> q \<and> q - k < 8 \<and> bit (vs ! (q - k)) r" for k
  proof (cases "k \<le> q")
    case True
    then have "n - 8 * k = 8 * (q - k) + r" using n(1) by (simp add: diff_mult_distrib2)
    moreover have "8 * k \<le> n" using True n(1) by linarith
    ultimately show ?thesis using at [of "q - k"] True by (simp add: bit_push_bit_iff)
  next
    case False
    then have "n < 8 * k" using n by simp
    then show ?thesis using False by (simp add: bit_push_bit_iff)
  qed
  have sh: "drop_bit 56 ?v = drop_bit (8 * 7) ?v" "drop_bit 40 ?v = drop_bit (8 * 5) ?v" "drop_bit 24 ?v = drop_bit (8 * 3) ?v"
    "drop_bit 8 ?v = drop_bit (8 * 1) ?v" "push_bit 8 ?v = push_bit (8 * 1) ?v" "push_bit 24 ?v = push_bit (8 * 3) ?v"
    "push_bit 40 ?v = push_bit (8 * 5) ?v" "push_bit 56 ?v = push_bit (8 * 7) ?v" by simp_all
  have sw: "bit (swap_endianness ?v) n \<longleftrightarrow>
      (q + 7 < 8 \<and> bit (vs ! (q + 7)) r) \<and> q = 0 \<or> (q + 5 < 8 \<and> bit (vs ! (q + 5)) r) \<and> q = 1 \<or>
      (q + 3 < 8 \<and> bit (vs ! (q + 3)) r) \<and> q = 3 \<or> (q + 1 < 8 \<and> bit (vs ! (q + 1)) r) \<and> q = 6 \<or>
      (1 \<le> q \<and> q - 1 < 8 \<and> bit (vs ! (q - 1)) r) \<and> q = 7 \<or> (3 \<le> q \<and> q - 3 < 8 \<and> bit (vs ! (q - 3)) r) \<and> q = 5 \<or>
      (5 \<le> q \<and> q - 5 < 8 \<and> bit (vs ! (q - 5)) r) \<and> q = 4 \<or> (7 \<le> q \<and> q - 7 < 8 \<and> bit (vs ! (q - 7)) r) \<and> q = 0"
    unfolding swap_endianness_def swap_masks sh bit_or_iff bit_byte_mask bit_low_byte up down q_def [symmetric] disj_assoc ..
  consider "q = 0" | "q = 1" | "q = 2" | "q = 3" | "q = 4" | "q = 5" | "q = 6" | "q = 7" | "8 \<le> q" by linarith
  then show "bit (swap_endianness ?v) n \<longleftrightarrow> bit (le_decode [vs ! 7, vs ! 6, 0, vs ! 6, 0, vs ! 2, vs ! 7, vs ! 6]) n"
    unfolding sw bit_le_decode q_def [symmetric] r_def [symmetric] by cases simp_all
qed

lemma swap_endianness_bytes:
  "swap_endianness (le_decode [v0, v1, v2, v3, v4, v5, v6, v7]) = le_decode [v7, v6, 0, v6, 0, v2, v7, v6]"
proof -
  have "length [v0, v1, v2, v3, v4, v5, v6, v7] = 8" by simp
  note b = swap_endianness_nth [OF this]
  have "[v0, v1, v2, v3, v4, v5, v6, v7] ! 7 = v7" "[v0, v1, v2, v3, v4, v5, v6, v7] ! 6 = v6"
    "[v0, v1, v2, v3, v4, v5, v6, v7] ! 2 = v2" by simp_all
  then show ?thesis using b by (simp only:)
qed

lemma mread_eight:
  assumes "mread d p 8 = Some bs"
  shows "bs = [d ! p, d ! (p + 1), d ! (p + 2), d ! (p + 3), d ! (p + 4), d ! (p + 5), d ! (p + 6), d ! (p + 7)]"
proof -
  have b: "p + 8 \<le> length d" "bs = take 8 (drop p d)" using assms by (simp_all add: mread_Some)
  have "take 8 (drop p d) = map (\<lambda>i. d ! (p + i)) [0..<8]" using b(1) by (intro nth_equalityI) simp_all
  also have "[0..<8] = [0, 1, 2, 3, 4, 5, 6, 7 :: nat]" by (simp add: upt_rec One_nat_def)
  finally show ?thesis using b(2) by simp
qed

lemma address6_bytes:
  assumes "mread d (p + 8) 8 = Some b1" and "mread d p 8 = Some b2"
  shows "le_encode 8 (swap_endianness (le_decode b1)) @ le_encode 8 (swap_endianness (le_decode b2)) = kept_address (drop p d)"
proof -
  have l: "p + 16 \<le> length d" using assms(1) by (simp add: mread_Some)
  have e: "le_encode 8 (le_decode [w0, w1, w2, w3, w4, w5, w6, w7]) = [w0, w1, w2, w3, w4, w5, w6, w7]" for w0 w1 w2 w3 w4 w5 w6 w7
  proof -
    have "length [w0, w1, w2, w3, w4, w5, w6, w7] = 8" by simp
    then show ?thesis using le_encode_decode [of "[w0, w1, w2, w3, w4, w5, w6, w7]"] by (simp only:)
  qed
  show ?thesis
    unfolding mread_eight [OF assms(1)] mread_eight [OF assms(2)] swap_endianness_bytes e kept_address_def
    using l by (simp add: add.assoc) (simp add: add.commute)
qed

section \<open>The announcement\<close>

lemma index_announced:
  assumes "ring_inv q"
    and e: "e = \<lparr>ix_ts = ts, ix_disk_block_id = off div rd_block_size r, ix_position = off, ix_rx_id = rd_rx_id r, ix_meta = flow\<rparr>"
  shows "if length (ring_contents q) < ring_bound q \<or> (\<exists>n \<in> set gets. 0 < n)
    then \<exists>k q'. writeIndexToRing gets r q off flow ts = Some (True, q') \<and> ring_inv q' \<and>
           ring_contents q' = drop k (ring_contents q) @ [e] \<and> (if length (ring_contents q) < ring_bound q then k = 0 else k \<in> set gets \<and> 0 < k)
    else writeIndexToRing gets r q off flow ts = None"
proof (cases "length (ring_contents q) < ring_bound q")
  case True
  with put_wait_room [OF assms(1) True, of gets e] show ?thesis
    by (auto simp: writeIndexToRing_def e intro!: exI [of _ 0])
next
  case False
  have "0 < ring_bound q" using assms(1) by (auto simp: ring_inv_def ring_bound_def elim: good_capacityE)
  from put_wait_full [OF assms(1) False this, of gets e] False show ?thesis
    by (auto simp: writeIndexToRing_def e [symmetric])
qed

section \<open>Properties\<close>

text \<open>C10: where the bytes of a packet go. A packet that fits leaves no gap: header and payload follow
  one another from the offset of the packet, and the cell keeps room for a pointer. Otherwise the
  writes fill the old cell exactly up to its last 8 bytes, these receive the number of the next
  cell, and the remaining bytes fill the new cell from its start up to the new write offset; no
  write leaves the two cells, and the thread's state stays valid.\<close>

theorem packet_fills_cells:
  assumes ok: "reader_ok r" and len: "pm_len meta + 24 \<le> rd_cell_size r"
    and data: "rd_eth_header_len r + pm_len meta \<le> length (pm_data meta)" and hd: "length (pm_header meta) = 16"
    and off: "getOffset r meta = (off, r1)"
    and ws: "packet_writes r1 next_cell meta off idx = Some (r2, next', ws)"
  shows "off = rd_writeOffset r + rd_writeCell r * rd_cell_size r \<and> reader_ok r2 \<and>
    (if rd_writeOffset r + pm_len meta + 24 \<le> rd_cell_size r
     then rd_writeCell r2 = rd_writeCell r \<and> next' = next_cell \<and> contiguous off ws \<and>
          length (written_bytes ws) = 16 + pm_len meta \<and> rd_writeOffset r2 = rd_writeOffset r + 16 + pm_len meta
     else rd_writeCell r2 = next_cell mod rd_cell_num r \<and> next' = add64 next_cell 1 \<and>
       (\<exists>ws1 ws2. ws = ws1 @ [(le_encode 8 (rd_writeCell r2), rd_writeCell r * rd_cell_size r + rd_cell_size r - 8, False)] @ ws2 \<and>
          contiguous off ws1 \<and> off + length (written_bytes ws1) + 8 = rd_writeCell r * rd_cell_size r + rd_cell_size r \<and>
          contiguous (rd_writeCell r2 * rd_cell_size r) ws2 \<and> length (written_bytes ws2) = rd_writeOffset r2 \<and>
          length (written_bytes ws1) + length (written_bytes ws2) = 16 + pm_len meta))"
proof -
  let ?cs = "rd_cell_size r"
  let ?tmp = "?cs - rd_writeOffset r - 8"
  note v = packet_writes_value [OF ok len data hd off refl refl, of next_cell idx]
  from getOffset_value [OF ok len] off have o: "off = rd_writeOffset r + rd_writeCell r * ?cs" by simp
  have s: "rd_writeOffset r + 8 \<le> ?cs" "0 < rd_cell_num r" using ok by (simp_all add: reader_ok_def)
  show ?thesis
  proof (cases "rd_writeOffset r + pm_len meta + 24 \<le> ?cs")
    case True
    have pl: "length (packet_payload r meta) = pm_len meta" using data by (simp add: packet_payload_def)
    show ?thesis
      using True v ws o getOffset_value [OF ok len] off ok hd pl by (auto simp: reader_ok_def written_bytes_def)
  next
    case False
    note sp = packet_writes_split [OF ok len data hd off ws False refl]
    have end1: "off + ?tmp = rd_writeCell r * ?cs + ?cs - 8" "off + ?tmp + 8 = rd_writeCell r * ?cs + ?cs"
      using o s by simp_all
    have ok2: "reader_ok r2" using ok len False s unfolding sp(2) by (auto simp: reader_ok_def)
    note fr = front_writes_props [OF hd sp(4) [folded sp(5)], of off idx]
      and re = rest_writes_props [OF hd sp(4) [folded sp(5)], of "rd_writeCell r2 * ?cs" idx]
    have len2: "pm_len meta + 16 - ?tmp = rd_writeOffset r2" using False s by (simp add: sp(2))
    have "\<exists>ws1 ws2. ws = ws1 @ [(le_encode 8 (rd_writeCell r2), rd_writeCell r * ?cs + ?cs - 8, False)] @ ws2 \<and>
          contiguous off ws1 \<and> off + length (written_bytes ws1) + 8 = rd_writeCell r * ?cs + ?cs \<and>
          contiguous (rd_writeCell r2 * ?cs) ws2 \<and> length (written_bytes ws2) = rd_writeOffset r2 \<and>
          length (written_bytes ws1) + length (written_bytes ws2) = 16 + pm_len meta"
      by (rule exI, rule exI, rule conjI, rule sp(1) [unfolded end1(1)])
         (use fr re len2 end1(2) sp(4,5) in simp)
    then show ?thesis using False o ok2 sp(2,3) by simp
  qed
qed

text \<open>Which bytes are written. Leaving out the pointer, the writes of a packet give its header
  and payload in order whenever all of its bytes go to one cell or at most 16 of them to the old
  one; when payload goes to both cells, the second part starts again at the first payload byte, so
  the tail of the packet is replaced by a copy of its front.\<close>

lemma packet_bytes_written:
  assumes ok: "reader_ok r" and len: "pm_len meta + 24 \<le> rd_cell_size r"
    and data: "rd_eth_header_len r + pm_len meta \<le> length (pm_data meta)" and hd: "length (pm_header meta) = 16"
    and off: "getOffset r meta = (off, r1)"
    and ws: "packet_writes r1 next_cell meta off idx = Some (r2, next', ws)"
    and tmp: "tmp = rd_cell_size r - rd_writeOffset r - 8"
  shows "if pm_len meta + 16 \<le> tmp then written_bytes ws = pm_header meta @ packet_payload r meta
    else \<exists>ws1 ptr ws2. ws = ws1 @ [ptr] @ ws2 \<and> length (written_bytes ws1) = tmp \<and> fst ptr = le_encode 8 (rd_writeCell r2) \<and>
      written_bytes (ws1 @ ws2) = pm_header meta @
        (if tmp \<le> 16 then packet_payload r meta
         else take (tmp - 16) (packet_payload r meta) @ take (pm_len meta + 16 - tmp) (packet_payload r meta))"
proof (cases "pm_len meta + 16 \<le> tmp")
  case True
  then have "rd_writeOffset r + pm_len meta + 24 \<le> rd_cell_size r" using tmp by simp
  then show ?thesis using True packet_writes_value [OF ok len data hd off refl refl, of next_cell idx] ws
    by (auto simp: written_bytes_def)
next
  case False
  then have "\<not> rd_writeOffset r + pm_len meta + 24 \<le> rd_cell_size r" using tmp by simp
  note sp = packet_writes_split [OF ok len data hd off ws this tmp]
  have "written_bytes (front_writes tmp (pm_header meta) (packet_payload r meta) off idx @
      rest_writes tmp (pm_header meta) (packet_payload r meta) (rd_writeCell r2 * rd_cell_size r) idx) = pm_header meta @
        (if tmp \<le> 16 then packet_payload r meta
         else take (tmp - 16) (packet_payload r meta) @ take (pm_len meta + 16 - tmp) (packet_payload r meta))"
    using sp(4,5) hd by (auto simp: written_bytes_def front_writes_def rest_writes_def)
  then show ?thesis
    using False sp(1) front_writes_props(2) [OF hd sp(4) [folded sp(5)], of off idx] by (auto intro!: exI)
qed

text \<open>C28: in which block a packet is counted and announced. Exactly one write of an indexed packet
  carries the flag that counts it, and it lies in the disk block that the index entry names, so the
  entries and the packets of a block agree; the exception is a packet that starts exactly at the
  pointer of its cell, whose header goes to the new cell and is counted there. The entry is never
  lost: when the ring has room, or the index generator takes an entry while the thread waits, the call
  returns and the entry is the newest in the ring; otherwise the thread keeps waiting.\<close>

theorem packet_counted_and_announced:
  assumes ok: "reader_ok r" and len: "pm_len meta + 24 \<le> rd_cell_size r"
    and data: "rd_eth_header_len r + pm_len meta \<le> length (pm_data meta)" and hd: "length (pm_header meta) = 16"
    and off: "getOffset r meta = (off, r1)"
    and ws: "packet_writes r1 next_cell meta off True = Some (r2, next', ws)"
    and ring: "ring_inv q"
  shows "map (\<lambda>(bs, pos, flag). pos) (filter (\<lambda>(bs, pos, flag). flag) ws) =
      [if rd_writeOffset r + 8 = rd_cell_size r then (next_cell mod rd_cell_num r) * rd_cell_size r else off] \<and>
    (if length (ring_contents q) < ring_bound q \<or> (\<exists>n \<in> set gets. 0 < n)
     then \<exists>k q'. writeIndexToRing gets r2 q off flow ts = Some (True, q') \<and> ring_inv q' \<and>
            ring_contents q' = drop k (ring_contents q) @
              [\<lparr>ix_ts = ts, ix_disk_block_id = off div rd_block_size r, ix_position = off,
                ix_rx_id = rd_rx_id r, ix_meta = flow\<rparr>] \<and>
            (if length (ring_contents q) < ring_bound q then k = 0 else k \<in> set gets \<and> 0 < k)
     else writeIndexToRing gets r2 q off flow ts = None)"
proof -
  let ?tmp = "rd_cell_size r - rd_writeOffset r - 8"
  let ?e = "\<lparr>ix_ts = ts, ix_disk_block_id = off div rd_block_size r, ix_position = off, ix_rx_id = rd_rx_id r, ix_meta = flow\<rparr>"
  have s: "rd_writeOffset r + 8 \<le> rd_cell_size r" using ok by (simp add: reader_ok_def)
  have fl: "map (\<lambda>(bs, pos, flag). pos) (filter (\<lambda>(bs, pos, flag). flag) ws) =
      [if rd_writeOffset r + 8 = rd_cell_size r then (next_cell mod rd_cell_num r) * rd_cell_size r else off]
      \<and> rd_block_size r2 = rd_block_size r \<and> rd_rx_id r2 = rd_rx_id r"
  proof (cases "rd_writeOffset r + pm_len meta + 24 \<le> rd_cell_size r")
    case True
    then show ?thesis
      using packet_writes_value [OF ok len data hd off refl refl, of next_cell True] ws s getOffset_value [OF ok len] off by auto
  next
    case False
    note sp = packet_writes_split [OF ok len data hd off ws False refl]
    have "(?tmp = 0) = (rd_writeOffset r + 8 = rd_cell_size r)" using s by auto
    then show ?thesis by (simp add: sp(1,2) front_writes_def rest_writes_def)
  qed
  have "?e = \<lparr>ix_ts = ts, ix_disk_block_id = off div rd_block_size r2, ix_position = off, ix_rx_id = rd_rx_id r2, ix_meta = flow\<rparr>"
    using fl by simp
  from index_announced [OF ring this, of gets] fl show ?thesis by (simp only: simp_thms)
qed

text \<open>C24: the keys of a packet. For an IPv4 packet the index and the filters get exactly the addresses and
  ports of its network header, read in network byte order at their protocol offsets (the ports behind
  the options), in the order source, destination. For an IPv6 packet the ports are right, but of each
  address only the bytes 2, 6, 7, 10, 14 and 15 are kept, some of them several times, since the function
  that should swap the bytes does not. Any other packet has no address.\<close>

theorem flow_keys_of_packet:
  assumes "getFlowMetaData r meta = Some flow" and "d = pm_data meta" and "eth = rd_eth_header_len r"
  shows "eth < length d \<and>
    (let v = unat (d ! eth) div 16; l4 = eth + (unat (d ! eth) mod 16) * 4 in
     if v = 4 then flow_keys flow =
         [(KIPv4 (word_of_nat (net_field d (eth + 12) 4)), SRCIP), (KIPv4 (word_of_nat (net_field d (eth + 16) 4)), DSTIP),
          (KPort (word_of_nat (net_field d l4 2)), SRCPORT), (KPort (word_of_nat (net_field d (l4 + 2) 2)), DSTPORT)]
     else if v = 6 then flow_keys flow =
         [(key_of_bytes (kept_address (drop (eth + 8) d)) SRCIPv6, SRCIPv6),
          (key_of_bytes (kept_address (drop (eth + 24) d)) DSTIPv6, DSTIPv6),
          (KPort (word_of_nat (net_field d (eth + 40) 2)), SRCPORT), (KPort (word_of_nat (net_field d (eth + 42) 2)), DSTPORT)]
     else sourceAddress flow = [])"
proof -
  obtain b0 where b0: "mread d eth 1 = Some b0" using assms by (auto simp: getFlowMetaData_def Let_def split: Option.bind_splits)
  then have e: "eth < length d" "b0 = [d ! eth]"
    by (auto simp: mread_Some take_Suc_conv_app_nth One_nat_def Cons_nth_drop_Suc [symmetric])
  have le0: "le_decode b0 = unat (d ! eth)" by (simp add: e)
  have lt: "unat (d ! eth) < 256" using unsigned_less [of "d ! eth"] by simp
  then have v: "(unat (d ! eth) div 16) mod 16 = unat (d ! eth) div 16" by simp
  let ?l4 = "eth + (unat (d ! eth) mod 16) * 4"
  consider "unat (d ! eth) div 16 = 4" | "unat (d ! eth) div 16 = 6" | "unat (d ! eth) div 16 \<noteq> 4" "unat (d ! eth) div 16 \<noteq> 6" by blast
  then show ?thesis
  proof cases
    case 1
    from assms 1 b0 obtain src dst sp dp where m: "mread d (eth + 12) 4 = Some src" "mread d (eth + 16) 4 = Some dst"
      "mread d ?l4 2 = Some sp" "mread d (?l4 + 2) 2 = Some dp" and
      f: "flow = \<lparr>sourceAddress = le_encode 4 (byte_swap 4 (le_decode src)),
        destinationAddress = le_encode 4 (byte_swap 4 (le_decode dst)),
        sourcePort = word_of_nat (byte_swap 2 (le_decode sp)), destinationPort = word_of_nat (byte_swap 2 (le_decode dp))\<rparr>"
      by (auto simp: getFlowMetaData_def Let_def le0 v split: Option.bind_splits)
    show ?thesis
      using e(1) 1 address4_key [OF m(1), of SRCIP] address4_key [OF m(2), of DSTIP] mread_field [OF m(3)] mread_field [OF m(4)]
      by (simp add: f flow_keys_def Let_def)
  next
    case 2
    from assms 2 b0 obtain sp dp sl sh dl dh where m: "mread d (eth + 40) 2 = Some sp" "mread d (eth + 42) 2 = Some dp"
      "mread d (eth + 16) 8 = Some sl" "mread d (eth + 8) 8 = Some sh" "mread d (eth + 32) 8 = Some dl" "mread d (eth + 24) 8 = Some dh" and
      f: "flow = \<lparr>sourceAddress = le_encode 8 (swap_endianness (le_decode sl)) @ le_encode 8 (swap_endianness (le_decode sh)),
        destinationAddress = le_encode 8 (swap_endianness (le_decode dl)) @ le_encode 8 (swap_endianness (le_decode dh)),
        sourcePort = word_of_nat (byte_swap 2 (le_decode sp)), destinationPort = word_of_nat (byte_swap 2 (le_decode dp))\<rparr>"
      by (auto simp: getFlowMetaData_def Let_def le0 v split: Option.bind_splits)
    show ?thesis
    proof -
      have q: "eth + 8 + 8 = eth + 16" "eth + 24 + 8 = eth + 32" by simp_all
      have a: "sourceAddress flow = kept_address (drop (eth + 8) d)" "destinationAddress flow = kept_address (drop (eth + 24) d)"
        using address6_bytes [OF m(3) [folded q(1)] m(4)] address6_bytes [OF m(5) [folded q(2)] m(6)] by (simp_all add: f)
      have "length (kept_address x) = 16" for x by (simp add: kept_address_def)
      then show ?thesis
        using e(1) 2 mread_field [OF m(1)] mread_field [OF m(2)]
        by (simp add: flow_keys_def a) (simp add: f)
    qed
  next
    case 3
    then show ?thesis
      using assms(1) b0 e(1)
      by (auto simp: getFlowMetaData_def Let_def le0 v assms(2,3) [symmetric])
  qed
qed

text \<open>C2: a captured packet is stored and announced. When a packet that fits its cell starts a flow
  chain, the write is admitted, and the ring has room or its consumer takes an entry while the thread
  waits, then the packet buffer afterwards holds its header and payload in one piece at its (cyclic)
  position, and the flow's index entry with this position is the newest in the ring, behind what the
  consumer has left there.\<close>

theorem captured_packet_stored:
  assumes ok: "reader_ok (cp_reader c)" and ring: "ring_inv (cp_ring c)"
    and wf: "db_wf (cp_blocks c)" "rd_thread_id (cp_reader c) < length (db_write_ids (cp_blocks c))"
      "rd_thread_id (cp_reader c) < db_rss_num (cp_blocks c)" "N = db_buffer_size (cp_blocks c)"
    and meta: "meta = readPacket (cp_reader c) buf ts" "rd_eth_header_len (cp_reader c) \<le> length buf" "length buf < 65536"
    and fits: "rd_writeOffset (cp_reader c) + pm_len meta + 24 \<le> rd_cell_size (cp_reader c)" "pm_len meta + 16 \<le> N"
    and off: "off = rd_writeOffset (cp_reader c) + rd_writeCell (cp_reader c) * rd_cell_size (cp_reader c)"
    and own: "db_admits (cp_blocks c) off 16" "db_admits (cp_blocks c) (off + 16) (pm_len meta)"
    and flow: "getFlowMetaData (cp_reader c) meta = Some flow" "sourceAddress flow \<noteq> []"
    and first: "fst (addPacket (rd_aggregator (cp_reader c)) flow off ts (rd_disk_size (cp_reader c))) = u64_max"
    and turns: "length (ring_contents (cp_ring c)) < ring_bound (cp_ring c) \<or> (\<exists>n \<in> set gets. 0 < n)"
  shows "\<exists>c' k. capture_packet os gets ts buf c = Some c' \<and> reader_ok (cp_reader c') \<and> db_wf (cp_blocks c') \<and>
    ring_read (db_mem (cp_blocks c')) N (off mod N) (16 + pm_len meta) = pm_header meta @ drop (rd_eth_header_len (cp_reader c)) buf \<and>
    ring_inv (cp_ring c') \<and> ring_contents (cp_ring c') = drop k (ring_contents (cp_ring c)) @
      [\<lparr>ix_ts = ts, ix_disk_block_id = off div rd_block_size (cp_reader c), ix_position = off,
        ix_rx_id = rd_rx_id (cp_reader c), ix_meta = flow\<rparr>] \<and>
    (if length (ring_contents (cp_ring c)) < ring_bound (cp_ring c) then k = 0 else k \<in> set gets \<and> 0 < k)"
proof -
  let ?r = "cp_reader c"
  have m: "length (pm_header meta) = 16" "pm_data meta = buf" "pm_len meta = length buf - rd_eth_header_len ?r"
    using meta caplen_value [OF meta(2,3)] by (simp_all add: readPacket_def Let_def)
  have len: "pm_len meta + 24 \<le> rd_cell_size ?r" using fits(1) by simp
  let ?r1 = "?r\<lparr>rd_writeOffset := rd_writeOffset ?r + pm_len meta + 16\<rparr>"
  have go: "getOffset ?r meta = (off, ?r1)" using getOffset_value [OF ok len] fits(1) off by simp
  have o: "off \<noteq> u64_max" using reader_arith(1) [OF ok] ok off by (simp add: reader_ok_def)
  obtain agg where ag: "addPacket (rd_aggregator ?r) flow off ts (rd_disk_size ?r) = (u64_max, agg)"
    using first by (metis prod.collapse)
  let ?r2 = "?r1\<lparr>rd_byteLen := add64 (rd_byteLen ?r1) (pm_len meta)\<rparr>"
  let ?r3 = "?r2\<lparr>rd_aggregator := agg\<rparr>" and ?pay = "drop (rd_eth_header_len ?r) buf"
  have fl: "getFlowMetaData ?r2 meta = Some flow" using flow(1) by (simp add: getFlowMetaData_def)
  have small: "\<not> rd_writeOffset ?r3 > rd_cell_size ?r3" using fits(1) by simp
  have rd: "mread (pm_data meta) (rd_eth_header_len ?r3) (pm_len meta) = Some ?pay"
    using m meta(2) by (simp add: mread_def)
  let ?ws = "[(pm_header meta, off, True), (?pay, off + 16, False)]"
  have pw: "packet_writes ?r3 (cp_next_cell c) meta off True = Some (?r3, cp_next_cell c, ?ws)"
    unfolding packet_writes_def Let_def rd using small by simp
  have con: "contiguous (off + 0) ?ws" using m by simp
  have wl: "written_bytes ?ws = pm_header meta @ ?pay" by (simp add: written_bytes_def)
  have fit2: "0 + length (written_bytes ?ws) \<le> N" using fits(2) m unfolding wl by simp
  have "\<forall>(data, pos, _) \<in> set ?ws. db_admits (cp_blocks c) pos (length data)" using own m by simp
  from contiguous_writes_read [OF wf con fit2 this, of os ts] obtain b where
    b: "run_writes os (cp_blocks c) ?ws (rd_thread_id ?r) ts = Some (os, b)" "db_wf b"
      "ring_read (db_mem b) N (off mod N) (0 + length (written_bytes ?ws)) =
        ring_read (db_mem (cp_blocks c)) N (off mod N) 0 @ written_bytes ?ws" by blast
  then have mem: "ring_read (db_mem b) N (off mod N) (16 + pm_len meta) = pm_header meta @ ?pay"
    unfolding wl using m by (simp add: ring_read_def [of _ _ _ 0])
  let ?c2 = "c\<lparr>cp_reader := ?r3, cp_blocks := b\<rparr>"
  have wp: "writePacket os (c\<lparr>cp_reader := ?r3\<rparr>) meta ts off True = Some ?c2"
    using pw b(1) by (simp add: writePacket_def del: run_writes.simps)
  let ?e = "\<lparr>ix_ts = ts, ix_disk_block_id = off div rd_block_size ?r, ix_position = off, ix_rx_id = rd_rx_id ?r, ix_meta = flow\<rparr>"
  have "?e = \<lparr>ix_ts = ts, ix_disk_block_id = off div rd_block_size ?r3, ix_position = off, ix_rx_id = rd_rx_id ?r3, ix_meta = flow\<rparr>"
    by simp
  from index_announced [OF ring this, of gets] turns obtain k q where
    q: "writeIndexToRing gets ?r3 (cp_ring c) off flow ts = Some (True, q)" "ring_inv q"
      "ring_contents q = drop k (ring_contents (cp_ring c)) @ [?e]"
      "if length (ring_contents (cp_ring c)) < ring_bound (cp_ring c) then k = 0 else k \<in> set gets \<and> 0 < k"
    by (auto simp only: if_True)
  have run: "capture_packet os gets ts buf c = Some (?c2\<lparr>cp_ring := q\<rparr>)"
    unfolding capture_packet_def Let_def meta(1) [symmetric] go prod.case using o fl flow(2) ag wp q(1) by (simp add: Let_def)
  have ok': "reader_ok ?r3" using ok fits(1) by (simp add: reader_ok_def)
  show ?thesis unfolding run
    by (rule exI, rule exI [of _ k], rule conjI, rule refl) (use mem ok' b(2) q(2-4) in simp)
qed

text \<open>C29: a packet that is neither IPv4 nor IPv6 is not stored, but its place is taken: the write offset
  has moved on while buffer, ring and cell stay as they are. When the packet would not have fitted,
  the offset of the next packet lies outside the cell of the thread.\<close>

theorem non_ip_packet_leaves_gap:
  assumes ok: "reader_ok (cp_reader c)"
    and meta: "meta = readPacket (cp_reader c) buf ts" "pm_len meta + 24 \<le> rd_cell_size (cp_reader c)"
    and flow: "getFlowMetaData (cp_reader c) meta = Some flow" "sourceAddress flow = []"
  shows "\<exists>c'. capture_packet os gets ts buf c = Some c' \<and> cp_blocks c' = cp_blocks c \<and> cp_ring c' = cp_ring c \<and>
    rd_writeCell (cp_reader c') = rd_writeCell (cp_reader c) \<and>
    rd_writeOffset (cp_reader c) + pm_len meta + 16 \<le> rd_writeOffset (cp_reader c') \<and>
    (rd_writeOffset (cp_reader c) + pm_len meta + 24 > rd_cell_size (cp_reader c) \<longrightarrow>
       rd_writeOffset (cp_reader c') > rd_cell_size (cp_reader c'))"
proof -
  let ?r = "cp_reader c"
  note go = getOffset_value [OF ok meta(2)]
  have o: "rd_writeOffset ?r + rd_writeCell ?r * rd_cell_size ?r \<noteq> u64_max"
    using reader_arith(1) [OF ok] ok by (simp add: reader_ok_def)
  have fl: "getFlowMetaData (?r\<lparr>rd_writeOffset := w, rd_byteLen := n\<rparr>) meta = Some flow" for w n
    using flow(1) by (simp add: getFlowMetaData_def)
  show ?thesis
    unfolding capture_packet_def Let_def meta(1) [symmetric] go prod.case using o fl flow(2) by simp
qed

section \<open>Witnesses\<close>

text \<open>Cells of 64 bytes; an IPv4 packet of 24 bytes behind an Ethernet header of 14 bytes.\<close>

definition example_reader :: "nat \<Rightarrow> DPDKReader" where
  "example_reader w = \<lparr>rd_eth_header_len = 14, rd_disk_size = 1024, rd_block_size = 64, rd_cell_size = 64,
     rd_cell_num = 16, rd_rx_id = 0, rd_aggregator = PacketAggregator_new 1000 u64_max, rd_writeCell = 1,
     rd_writeOffset = w, rd_byteLen = 0, rd_thread_id = 0\<rparr>"

definition example_packet :: bytes where
  "example_packet = replicate 14 0 @ [69, 0, 0, 24, 0, 0, 0, 0, 64, 17, 0, 0, 192, 168, 1, 1, 192, 168, 1, 2, 0, 80, 1, 187]"

lemma example_reader_ok: "w \<le> 56 \<Longrightarrow> reader_ok (example_reader w)"
  by (simp add: reader_ok_def example_reader_def)

lemma example_meta:
  "pm_len (readPacket (example_reader w) example_packet ts) = 24"
  "length (pm_header (readPacket (example_reader w) example_packet ts)) = 16"
  "pm_data (readPacket (example_reader w) example_packet ts) = example_packet"
  "length example_packet = 38" "rd_eth_header_len (example_reader w) = 14" "rd_cell_size (example_reader w) = 64"
  "rd_writeOffset (example_reader w) = w" "rd_writeCell (example_reader w) = 1" "rd_cell_num (example_reader w) = 16"
  by (simp_all add: readPacket_def example_reader_def example_packet_def)

theorem packet_fills_cells_witness:
  "\<exists>r1 r2 ws. getOffset (example_reader 30) (readPacket (example_reader 30) example_packet 7) = (94, r1) \<and>
     packet_writes r1 5 (readPacket (example_reader 30) example_packet 7) 94 True = Some (r2, 6, ws) \<and>
     rd_writeCell r2 = 5 \<and> rd_writeOffset r2 = 14"
proof -
  let ?r = "example_reader 30" and ?m = "readPacket (example_reader 30) example_packet 7"
  have ok: "reader_ok ?r" by (rule example_reader_ok) simp
  have pre: "pm_len ?m + 24 \<le> rd_cell_size ?r" "rd_eth_header_len ?r + pm_len ?m \<le> length (pm_data ?m)"
    "length (pm_header ?m) = 16" by (simp_all add: example_meta)
  obtain r1 where off: "getOffset ?r ?m = (94, r1)" using getOffset_value [OF ok pre(1)] by (simp add: example_meta)
  obtain r2 next' ws where ws: "packet_writes r1 5 ?m 94 True = Some (r2, next', ws)"
    using packet_writes_value [OF ok pre off refl refl, of 5 True] by (simp add: example_meta)
  from packet_fills_cells [OF ok pre off ws] have "rd_writeCell r2 = 5" "next' = add64 5 1"
    by (simp_all add: example_meta)
  moreover have "rd_writeOffset r2 = 14"
    using packet_writes_split(2) [OF ok pre off ws _ refl] by (simp add: example_meta)
  ultimately show ?thesis using off ws by (simp add: add64_def)
qed

lemma packet_bytes_written_example:
  "\<exists>r1 r2 next' ws1 ptr ws2. getOffset (example_reader 30) (readPacket (example_reader 30) example_packet 7) = (94, r1) \<and>
     packet_writes r1 5 (readPacket (example_reader 30) example_packet 7) 94 True = Some (r2, next', ws1 @ [ptr] @ ws2) \<and>
     written_bytes (ws1 @ ws2) \<noteq> pm_header (readPacket (example_reader 30) example_packet 7) @
       packet_payload (example_reader 30) (readPacket (example_reader 30) example_packet 7)"
proof -
  let ?r = "example_reader 30" and ?m = "readPacket (example_reader 30) example_packet 7"
  have ok: "reader_ok ?r" by (rule example_reader_ok) simp
  have pre: "pm_len ?m + 24 \<le> rd_cell_size ?r" "rd_eth_header_len ?r + pm_len ?m \<le> length (pm_data ?m)"
    "length (pm_header ?m) = 16" by (simp_all add: example_meta)
  obtain r1 where off: "getOffset ?r ?m = (94, r1)" using getOffset_value [OF ok pre(1)] by (simp add: example_meta)
  obtain r2 next' ws where ws: "packet_writes r1 5 ?m 94 True = Some (r2, next', ws)"
    using packet_writes_value [OF ok pre off refl refl, of 5 True] by (simp add: example_meta)
  have p: "packet_payload ?r ?m = [69, 0, 0, 24, 0, 0, 0, 0, 64, 17, 0, 0, 192, 168, 1, 1, 192, 168, 1, 2, 0, 80, 1, 187]"
    unfolding packet_payload_def example_meta by (simp add: example_packet_def)
  have t: "26 = rd_cell_size ?r - rd_writeOffset ?r - 8" by (simp add: example_meta)
  from packet_bytes_written [OF ok pre off ws t] obtain ws1 ptr ws2 where
    w: "ws = ws1 @ [ptr] @ ws2" "written_bytes (ws1 @ ws2) = pm_header ?m @ take 10 (packet_payload ?r ?m) @ take 14 (packet_payload ?r ?m)"
    by (auto simp: example_meta)
  have "written_bytes (ws1 @ ws2) \<noteq> pm_header ?m @ packet_payload ?r ?m"
    unfolding w(2) same_append_eq p by simp
  then show ?thesis using off ws w(1) by blast
qed

definition capture_ring :: "Index PointerRing" where
  "capture_ring = \<lparr>capacity = 8, writePos = 0, readPos = 0, pointers = Some (replicate 8 None)\<rparr>"

lemma capture_ring_inv: "ring_inv capture_ring" "ring_contents capture_ring = []" "ring_bound capture_ring = 7"
  using good_8 by (simp_all add: ring_inv_def ring_contents_def ring_count_def capture_ring_def sub64_def ring_bound_def)

text \<open>A full ring of seven equal entries.\<close>

definition full_ring :: "Index PointerRing" where
  "full_ring = \<lparr>capacity = 8, writePos = 7, readPos = 0, pointers = Some (replicate 8
     (Some \<lparr>ix_ts = 1, ix_disk_block_id = 0, ix_position = 16, ix_rx_id = 0, ix_meta = example_flow\<rparr>))\<rparr>"

lemma full_ring_inv: "ring_inv full_ring" "ring_bound full_ring = 7" "length (ring_contents full_ring) = 7"
  using good_8 slot_split(3) [OF good_8]
  by (simp_all add: ring_inv_def cell_def ring_count_def full_ring_def sub64_def ring_bound_def add64_def)

theorem packet_counted_and_announced_witness:
  "\<exists>r1 r2 next' ws q' k. getOffset (example_reader 56) (readPacket (example_reader 56) example_packet 7) = (120, r1) \<and>
     packet_writes r1 5 (readPacket (example_reader 56) example_packet 7) 120 True = Some (r2, next', ws) \<and>
     map (\<lambda>(bs, pos, flag). pos) (filter (\<lambda>(bs, pos, flag). flag) ws) = [320] \<and>
     writeIndexToRing [0, 2] r2 full_ring 120 example_flow 7 = Some (True, q') \<and>
     map ix_disk_block_id (ring_contents q') = drop k (map ix_disk_block_id (ring_contents full_ring)) @ [1]"
proof -
  let ?r = "example_reader 56" and ?m = "readPacket (example_reader 56) example_packet 7"
  have ok: "reader_ok ?r" by (rule example_reader_ok) simp
  have pre: "pm_len ?m + 24 \<le> rd_cell_size ?r" "rd_eth_header_len ?r + pm_len ?m \<le> length (pm_data ?m)"
    "length (pm_header ?m) = 16" by (simp_all add: example_meta)
  obtain r1 where off: "getOffset ?r ?m = (120, r1)" using getOffset_value [OF ok pre(1)] by (simp add: example_meta)
  obtain r2 next' ws where ws: "packet_writes r1 5 ?m 120 True = Some (r2, next', ws)"
    using packet_writes_value [OF ok pre off refl refl, of 5 True] by (simp add: example_meta)
  have b: "rd_block_size ?r = 64" by (simp add: example_reader_def)
  from packet_counted_and_announced [OF ok pre off ws full_ring_inv(1), where flow = example_flow and ts = 7 and gets = "[0, 2]"]
  have flags: "map (\<lambda>(bs, pos, flag). pos) (filter (\<lambda>(bs, pos, flag). flag) ws) = [320]"
    and "\<exists>k q'. writeIndexToRing [0, 2] r2 full_ring 120 example_flow 7 = Some (True, q') \<and>
       map ix_disk_block_id (ring_contents q') = drop k (map ix_disk_block_id (ring_contents full_ring)) @ [1]"
    unfolding example_meta b full_ring_inv by (auto simp: drop_map)
  then obtain k q' where "writeIndexToRing [0, 2] r2 full_ring 120 example_flow 7 = Some (True, q')"
    "map ix_disk_block_id (ring_contents q') = drop k (map ix_disk_block_id (ring_contents full_ring)) @ [1]" by blast
  with flags off ws show ?thesis
    by (intro exI [of _ r1] exI [of _ r2] exI [of _ next'] exI [of _ ws] exI [of _ q'] exI [of _ k]) simp
qed

theorem flow_keys_of_packet_witness:
  "\<exists>flow. getFlowMetaData (example_reader 0) (readPacket (example_reader 0) example_packet 7) = Some flow \<and>
     flow_keys flow = [(KIPv4 3232235777, SRCIP), (KIPv4 3232235778, DSTIP), (KPort 80, SRCPORT), (KPort 443, DSTPORT)]"
proof -
  let ?r = "example_reader 0" and ?m = "readPacket (example_reader 0) example_packet 7"
  have d: "example_packet ! 14 = 69" by (simp add: example_packet_def nth_append)
  have "\<exists>flow. getFlowMetaData ?r ?m = Some flow"
    unfolding getFlowMetaData_def example_meta Let_def
    by (simp add: mread_def example_packet_def One_nat_def)
  then obtain flow where fl: "getFlowMetaData ?r ?m = Some flow" ..
  have n: "net_field example_packet 26 4 = 3232235777" "net_field example_packet 30 4 = 3232235778"
    "net_field example_packet 34 2 = 80" "net_field example_packet 36 2 = 443"
    by (simp_all add: net_field_def be_value_def example_packet_def One_nat_def)
  have "flow_keys flow = [(KIPv4 3232235777, SRCIP), (KIPv4 3232235778, DSTIP), (KPort 80, SRCPORT), (KPort 443, DSTPORT)]"
    using flow_keys_of_packet [OF fl refl refl] unfolding example_meta d by (simp add: Let_def n)
  then show ?thesis using fl by blast
qed

definition example_capture :: "nat \<Rightarrow> Capture" where
  "example_capture w = \<lparr>cp_reader = example_reader w,
     cp_blocks = \<lparr>db_total = 2, db_block_size = 64, db_buffer_size = 128, db_disk_num = 16, db_rss_num = 1,
       db_delayed = 0, db_mem = replicate 128 0, db_block_disk_id = [0, 1], db_start_times = [u64_max, u64_max],
       db_end_times = [0, 0], db_packet_counts = [0, 0], db_write_ids = [0], db_check_ids = [0]\<rparr>,
     cp_next_cell = 2, cp_ring = capture_ring\<rparr>"

theorem captured_packet_stored_witness:
  "\<exists>c'. capture_packet [] [] 7 example_packet (example_capture 0) = Some c' \<and>
     ring_read (db_mem (cp_blocks c')) 128 64 40 = pm_header (readPacket (example_reader 0) example_packet 7) @ drop 14 example_packet \<and>
     map ix_position (ring_contents (cp_ring c')) = [64]"
proof -
  let ?c = "example_capture 0" and ?m = "readPacket (example_reader 0) example_packet 7"
  have rd: "cp_reader ?c = example_reader 0" "cp_ring ?c = capture_ring" by (simp_all add: example_capture_def)
  have ok: "reader_ok (cp_reader ?c)" unfolding rd by (rule example_reader_ok) simp
  have wf: "db_wf (cp_blocks ?c)" by (simp add: example_capture_def db_wf_def)
  have th: "rd_thread_id (cp_reader ?c) < length (db_write_ids (cp_blocks ?c))"
    "rd_thread_id (cp_reader ?c) < db_rss_num (cp_blocks ?c)" "128 = db_buffer_size (cp_blocks ?c)"
    by (simp_all add: example_capture_def example_reader_def)
  obtain flow where f4: "getFlowMetaData (cp_reader ?c) ?m = Some flow" "length (sourceAddress flow) = 4"
    unfolding getFlowMetaData_def rd example_meta Let_def
    by (simp add: mread_def example_packet_def One_nat_def)
  then have fl: "getFlowMetaData (cp_reader ?c) ?m = Some flow" "sourceAddress flow \<noteq> []" by auto
  have first: "fst (addPacket (rd_aggregator (cp_reader ?c)) flow 64 7 (rd_disk_size (cp_reader ?c))) = u64_max"
    by (simp add: rd example_reader_def addPacket_def PacketAggregator_new_def)
  have me: "?m = readPacket (cp_reader ?c) example_packet 7" "rd_eth_header_len (cp_reader ?c) \<le> length example_packet"
    "length example_packet < 65536"
    "rd_writeOffset (cp_reader ?c) + pm_len ?m + 24 \<le> rd_cell_size (cp_reader ?c)" "pm_len ?m + 16 \<le> 128"
    "64 = rd_writeOffset (cp_reader ?c) + rd_writeCell (cp_reader ?c) * rd_cell_size (cp_reader ?c)"
    "db_admits (cp_blocks ?c) 64 16" "db_admits (cp_blocks ?c) (64 + 16) (pm_len ?m)"
    by (simp_all add: rd example_meta) (simp_all add: example_capture_def db_admits_def db_owner_def)
  show ?thesis
    using captured_packet_stored [OF ok capture_ring_inv(1) [folded rd(2)] wf th me fl first, of "[]" "[]"]
    unfolding rd example_meta capture_ring_inv by auto
qed

theorem non_ip_packet_leaves_gap_witness:
  "\<exists>c'. capture_packet [] [] 7 (replicate 38 0) (example_capture 30) = Some c' \<and>
     rd_writeOffset (cp_reader c') > rd_cell_size (cp_reader c') \<and> cp_blocks c' = cp_blocks (example_capture 30)"
proof -
  let ?c = "example_capture 30" and ?m = "readPacket (example_reader 30) (replicate 38 0) 7"
  have rd: "cp_reader ?c = example_reader 30" by (simp add: example_capture_def)
  have ok: "reader_ok (cp_reader ?c)" unfolding rd by (rule example_reader_ok) simp
  have m: "pm_len ?m = 24" by (simp add: readPacket_def example_reader_def)
  have fl: "getFlowMetaData (cp_reader ?c) ?m = Some \<lparr>sourceAddress = [], destinationAddress = [], sourcePort = 0, destinationPort = 0\<rparr>"
    by (simp add: rd getFlowMetaData_def readPacket_def example_reader_def mread_def Let_def One_nat_def)
  have len: "pm_len ?m + 24 \<le> rd_cell_size (cp_reader ?c)" unfolding m rd by (simp add: example_meta)
  have me: "?m = readPacket (cp_reader ?c) (replicate 38 0) 7" by (simp add: rd)
  from non_ip_packet_leaves_gap [OF ok me len fl, of "[]" "[]"] obtain c' where
    "capture_packet [] [] 7 (replicate 38 0) ?c = Some c'" "cp_blocks c' = cp_blocks ?c"
    "rd_writeOffset (cp_reader c') > rd_cell_size (cp_reader c')" by (auto simp: rd example_meta m)
  then show ?thesis by blast
qed

end
