(* ===== verification/DiskIO.thy ===== *)
theory DiskIO
  imports DataBlocks IndexPersist
begin

text \<open>
  Blocks on their way to the disk: the asynchronous disk agent of \<^verbatim>\<open>dpdk_lib/diskAgent.hpp\<close>, the
  disk manager of \<^verbatim>\<open>dpdk_component/diskManager.cpp\<close>, which takes finished blocks out of a block
  buffer and gives them to an agent, and the memory manager of
  \<^verbatim>\<open>dpdk_component/memoryManager.cpp\<close>, which recycles the blocks whose writes have completed.
  The io_uring library is not part of the repository: a call that can fail has its outcome as an
  argument, and an agent holds the requests prepared, the requests submitted and the completions
  that wait to be seen. A failed submission leaves its request prepared, so that the next
  submission sends it too, and a completion stays at the front of its queue until it is marked as
  seen; both is documented behaviour. The buffer of a request is the content of the block: by
  \<open>DataBlocks\<close> it does not change before the block is recycled.
\<close>

declare One_nat_def [simp del]

section \<open>The disk agent\<close>

record io_request =
  rq_buffer :: bytes
  rq_len :: nat
  rq_offset :: nat
  rq_user :: nat

record DiskAgent =
  da_disk_size :: nat
  da_block_size :: nat
  da_block_num :: nat
  da_basic_offset :: nat
  da_ring :: bool
  da_prepared :: "io_request list"
  da_submitted :: "io_request list"
  da_completed :: "(bool \<times> nat) list"

datatype disk_agent_error = Disk_size_wrong | Ring_init_failed

definition DiskAgent_new :: "nat \<Rightarrow> nat \<Rightarrow> nat \<Rightarrow> disk_agent_error + DiskAgent" where
  "DiskAgent_new disk_size block_size basic_offset =
     (if disk_size mod block_size \<noteq> 0 then Inl Disk_size_wrong
      else Inr \<lparr>da_disk_size = disk_size, da_block_size = block_size, da_block_num = disk_size div block_size,
             da_basic_offset = basic_offset, da_ring = False, da_prepared = [], da_submitted = [], da_completed = []\<rparr>)"

definition kernel_run :: "bool \<Rightarrow> DiskAgent \<Rightarrow> disk_agent_error + DiskAgent" where
  "kernel_run init_ok a = (if \<not> init_ok then Inl Ring_init_failed else Inr (a\<lparr>da_ring := True\<rparr>))"

text \<open>Without a ring the calls dereference a null pointer: \<open>None\<close>.\<close>

definition submit :: "bool \<Rightarrow> DiskAgent \<Rightarrow> io_request \<Rightarrow> bool \<times> DiskAgent" where
  "submit submit_ok a rq =
     (let prepared = da_prepared a @ [rq] in
      if submit_ok then (True, a\<lparr>da_prepared := [], da_submitted := da_submitted a @ prepared\<rparr>)
      else (False, a\<lparr>da_prepared := prepared\<rparr>))"

definition asyncWrite :: "bool \<Rightarrow> bool \<Rightarrow> DiskAgent \<Rightarrow> bytes \<Rightarrow> nat \<Rightarrow> nat \<Rightarrow> (bool \<times> DiskAgent) option" where
  "asyncWrite sqe_ok submit_ok a buffer block_id write_pos =
     (if write_pos > da_block_num a then Some (False, a)
      else if \<not> da_ring a then None
      else if \<not> sqe_ok then Some (False, a)
      else let offset = mul64 write_pos (da_block_size a)
           in Some (submit submit_ok a \<lparr>rq_buffer = buffer, rq_len = da_block_size a,
                      rq_offset = add64 offset (da_basic_offset a), rq_user = block_id\<rparr>))"

text \<open>The answer is the user data of the completion, or the sentinel. The source reads the user data just after it
  has marked the completion as seen; that the kernel has not reused the entry in between is assumed here.\<close>

definition processCompletions :: "DiskAgent \<Rightarrow> (nat \<times> DiskAgent) option" where
  "processCompletions a =
     (if \<not> da_ring a then None
      else case da_completed a of
        [] \<Rightarrow> Some (u64_max, a)
      | (ok, user) # rest \<Rightarrow>
          if \<not> ok then Some (u64_max, a) else Some (user, a\<lparr>da_completed := rest\<rparr>))"

text \<open>A synchronous read: the request it makes, and what the caller finds in its buffer when the
  device has the content \<open>disk\<close>; \<open>None\<close> in the result is the answer false.\<close>

definition disk_bytes :: "(nat \<Rightarrow> byte) \<Rightarrow> nat \<Rightarrow> nat \<Rightarrow> bytes" where
  "disk_bytes disk offset len = map (\<lambda>i. disk (offset + i)) [0..<len]"

definition agent_read :: "bool \<Rightarrow> bool \<Rightarrow> bool \<Rightarrow> (nat \<Rightarrow> byte) \<Rightarrow> DiskAgent \<Rightarrow> nat \<Rightarrow> bytes option option" where
  "agent_read sqe_ok submit_ok result_ok disk a block =
     (if block \<ge> da_block_num a then Some None
      else if \<not> da_ring a then None
      else if \<not> sqe_ok then Some None
      else if \<not> submit_ok then Some None
      else if \<not> result_ok then Some None
      else Some (Some (disk_bytes disk (add64 (mul64 block (da_block_size a)) (da_basic_offset a)) (da_block_size a))))"

definition agent_read_range :: "bool \<Rightarrow> bool \<Rightarrow> bool \<Rightarrow> (nat \<Rightarrow> byte) \<Rightarrow> DiskAgent \<Rightarrow> nat \<Rightarrow> nat \<Rightarrow> bytes option option" where
  "agent_read_range sqe_ok submit_ok result_ok disk a begin_id end_id =
     (if begin_id \<ge> da_block_num a \<or> end_id > da_block_num a \<or> begin_id > end_id then Some None
      else if \<not> da_ring a then None
      else if \<not> sqe_ok then Some None
      else if \<not> submit_ok then Some None
      else if \<not> result_ok then Some None
      else Some (Some (disk_bytes disk (add64 (mul64 begin_id (da_block_size a)) (da_basic_offset a))
             (mul64 (add64 (sub64 end_id begin_id) 1) (da_block_size a)))))"

definition jobFinished :: "DiskAgent \<Rightarrow> bool option" where
  "jobFinished a = (if \<not> da_ring a then None else Some (da_prepared a = [] \<and> da_completed a = []))"

section \<open>The block buffer behind its type\<close>

datatype block_store = Data_store DataBlockBuffer | Index_store IndexBlockBuffer

definition recycle_store :: "block_store \<Rightarrow> nat \<Rightarrow> block_store option" where
  "recycle_store st block_id =
     (case st of Data_store b \<Rightarrow> map_option Data_store (db_recycleBlock b block_id)
      | Index_store b \<Rightarrow> map_option Index_store (ib_recycleBlock b block_id))"

section \<open>The disk manager\<close>

record DiskManager =
  dm_store :: block_store
  dm_agents :: "DiskAgent list"
  dm_disk :: DiskBuffer
  dm_thread :: nat

text \<open>The constructor registers a check thread with the buffer.\<close>

definition DiskManager_new :: "block_store \<Rightarrow> DiskBuffer \<Rightarrow> DiskManager" where
  "DiskManager_new st disk =
     (case st of
        Data_store b \<Rightarrow> (case db_addCheckThread b of (i, b') \<Rightarrow>
          \<lparr>dm_store = Data_store b', dm_agents = [], dm_disk = disk, dm_thread = i\<rparr>)
      | Index_store b \<Rightarrow> (case ib_addCheckThread b of (i, b') \<Rightarrow>
          \<lparr>dm_store = Index_store b', dm_agents = [], dm_disk = disk, dm_thread = i\<rparr>))"

definition addAgent :: "DiskManager \<Rightarrow> DiskAgent option \<Rightarrow> DiskManager" where
  "addAgent d agent = (case agent of None \<Rightarrow> d | Some a \<Rightarrow> d\<lparr>dm_agents := dm_agents d @ [a]\<rparr>)"

text \<open>The agent is chosen by the number of the block; a block that cannot be written is recycled at
  once. Without agents the choice divides by zero.\<close>

definition addBlock :: "bool \<Rightarrow> bool \<Rightarrow> DiskManager \<Rightarrow> nat \<Rightarrow> nat \<Rightarrow> bytes \<Rightarrow> DiskManager option" where
  "addBlock sqe_ok submit_ok d block_id write_pos buffer =
     (if dm_agents d = [] then None
      else do {
        let agent_id = block_id mod length (dm_agents d) mod 4294967296;
        agent \<leftarrow> vec_get (dm_agents d) agent_id;
        (ok, agent') \<leftarrow> asyncWrite sqe_ok submit_ok agent buffer block_id write_pos;
        let d' = d\<lparr>dm_agents := (dm_agents d)[agent_id := agent']\<rparr>;
        if ok then Some d'
        else do { st \<leftarrow> recycle_store (dm_store d') block_id; Some (d'\<lparr>dm_store := st\<rparr>) } })"

text \<open>What both loops of \<open>runData\<close> do with a block.\<close>

definition dm_handle_data :: "bool \<Rightarrow> bool \<Rightarrow> DiskManager \<Rightarrow> DataBlockBuffer \<Rightarrow> DiskManager option" where
  "dm_handle_data sqe_ok submit_ok d b = do {
     (block, b') \<leftarrow> db_getBlock b (dm_thread d);
     let disk1 = setTime (dm_disk d) (blk_write_pos block) (blk_start_time block) (blk_end_time block);
     let disk2 = setPacketCount disk1 (blk_write_pos block) (blk_packet_count block);
     addBlock sqe_ok submit_ok (d\<lparr>dm_store := Data_store b', dm_disk := disk2\<rparr>)
       (blk_id block) (blk_write_pos block) (blk_buffer block) }"

definition dm_handle_index :: "bool \<Rightarrow> bool \<Rightarrow> DiskManager \<Rightarrow> IndexBlockBuffer \<Rightarrow> DiskManager option" where
  "dm_handle_index sqe_ok submit_ok d b = do {
     (block, b') \<leftarrow> ib_getBlock b (dm_thread d);
     addBlock sqe_ok submit_ok (d\<lparr>dm_store := Index_store b'\<rparr>) (ix_id block) (ix_write_pos block) (ix_buffer block) }"

text \<open>One round of the first loop of \<open>runData\<close> and \<open>runIndex\<close>, and the second loops, which follow a
  stop request; the list gives the outcomes of the calls of io_uring, one pair for each block, and
  \<open>None\<close> when there are more blocks than outcomes.\<close>

definition dm_round :: "bool \<Rightarrow> bool \<Rightarrow> DiskManager \<Rightarrow> DiskManager option" where
  "dm_round sqe_ok submit_ok d =
     (case dm_store d of
        Data_store b \<Rightarrow> do {
          block_id \<leftarrow> db_checkBlock b (dm_thread d);
          if block_id = u64_max then Some d else dm_handle_data sqe_ok submit_ok d b }
      | Index_store b \<Rightarrow> do {
          block_id \<leftarrow> ib_checkBlock b (dm_thread d);
          if block_id = u64_max then Some d else dm_handle_index sqe_ok submit_ok d b })"

fun dm_finish :: "(bool \<times> bool) list \<Rightarrow> DiskManager \<Rightarrow> DiskManager option" where
  "dm_finish outcomes d =
     (case dm_store d of
        Data_store b \<Rightarrow> do {
          block_id \<leftarrow> directGetBlockID b (dm_thread d);
          if block_id = u64_max then Some d
          else case outcomes of [] \<Rightarrow> None
            | (sqe_ok, submit_ok) # outcomes' \<Rightarrow> do {
                d' \<leftarrow> dm_handle_data sqe_ok submit_ok d b; dm_finish outcomes' d' } }
      | Index_store b \<Rightarrow> do {
          block_id \<leftarrow> directCheckBlock b (dm_thread d);
          if block_id = u64_max then Some d
          else case outcomes of [] \<Rightarrow> None
            | (sqe_ok, submit_ok) # outcomes' \<Rightarrow> do {
                d' \<leftarrow> dm_handle_index sqe_ok submit_ok d b; dm_finish outcomes' d' } })"

section \<open>The memory manager\<close>

text \<open>One round of \<open>run\<close> over the agents.\<close>

fun mm_round :: "DiskAgent list \<Rightarrow> block_store \<Rightarrow> (DiskAgent list \<times> block_store) option" where
  "mm_round [] st = Some ([], st)"
| "mm_round (agent # agents) st = do {
     (block_id, agent') \<leftarrow> processCompletions agent;
     st' \<leftarrow> (if block_id = u64_max then Some st else recycle_store st block_id);
     (agents', st'') \<leftarrow> mm_round agents st';
     Some (agent' # agents', st'') }"

text \<open>The loop that empties an agent after the stop request: the fuel bounds its rounds.\<close>

fun mm_drain :: "nat \<Rightarrow> DiskAgent \<Rightarrow> DiskAgent option" where
  "mm_drain 0 a = None"
| "mm_drain (Suc n) a = do {
     done_now \<leftarrow> jobFinished a;
     if done_now then Some a
     else do { (block_id, a') \<leftarrow> processCompletions a; mm_drain n a' } }"

section \<open>Well-formed agents\<close>

definition agent_ok :: "DiskAgent \<Rightarrow> bool" where
  "agent_ok a \<longleftrightarrow> da_ring a \<and> 0 < da_block_size a \<and> da_disk_size a = da_block_num a * da_block_size a \<and>
     da_disk_size a + da_block_size a + da_basic_offset a < U64"

definition in_area :: "DiskAgent \<Rightarrow> io_request \<Rightarrow> bool" where
  "in_area a rq \<longleftrightarrow> da_basic_offset a \<le> rq_offset rq \<and> rq_offset rq + rq_len rq \<le> da_basic_offset a + da_disk_size a"

lemma DiskAgent_new_ok:
  assumes "DiskAgent_new sz bs off = Inr a" and "kernel_run ok a = Inr a'" and "0 < bs" and "sz + bs + off < U64"
  shows "agent_ok a'"
  using assms by (auto simp: DiskAgent_new_def kernel_run_def agent_ok_def split: if_splits)

lemma write_offset:
  assumes "agent_ok a" and "pos \<le> da_block_num a"
  shows "add64 (mul64 pos (da_block_size a)) (da_basic_offset a) = pos * da_block_size a + da_basic_offset a"
proof -
  have "pos * da_block_size a \<le> da_block_num a * da_block_size a" using assms(2) by (rule mult_le_mono1)
  then have "pos * da_block_size a + da_basic_offset a < U64" using assms(1) unfolding agent_ok_def by linarith
  then show ?thesis by (simp add: mul64_small add64_small)
qed

lemma block_in_disk:
  assumes "agent_ok a" and "pos < da_block_num a"
  shows "pos * da_block_size a + da_block_size a \<le> da_disk_size a"
proof -
  have "Suc pos * da_block_size a \<le> da_block_num a * da_block_size a" using assms(2) by (intro mult_le_mono1) simp
  then show ?thesis using assms(1) by (simp add: agent_ok_def)
qed

section \<open>Properties\<close>

text \<open>C30: what an asynchronous write asks for. Whatever the ring answers, a write is accepted exactly
  when its position passes the guard and io_uring takes the request; the request then follows all
  earlier ones and covers the block's place behind the basic offset. For a position below the
  number of blocks it stays inside the area of the agent; the guard also admits the position equal
  to that number, whose request begins exactly behind the area. A failed submission leaves the
  request prepared, so that it is sent together with the next one.\<close>

theorem asyncWrite_request:
  assumes ok: "agent_ok a" and w: "asyncWrite sqe_ok submit_ok a buffer block_id pos = Some (r, a')"
    and rq: "rq = \<lparr>rq_buffer = buffer, rq_len = da_block_size a, rq_offset = pos * da_block_size a + da_basic_offset a, rq_user = block_id\<rparr>"
  shows "(r \<longleftrightarrow> pos \<le> da_block_num a \<and> sqe_ok \<and> submit_ok) \<and>
    da_submitted a' @ da_prepared a' = da_submitted a @ da_prepared a @ (if pos \<le> da_block_num a \<and> sqe_ok then [rq] else []) \<and>
    (r \<longrightarrow> da_prepared a' = []) \<and> (\<not> r \<longrightarrow> da_submitted a' = da_submitted a) \<and>
    (pos < da_block_num a \<longrightarrow> in_area a rq) \<and>
    (pos = da_block_num a \<longrightarrow> rq_offset rq = da_basic_offset a + da_disk_size a \<and> \<not> in_area a rq)"
proof -
  have "pos < da_block_num a \<longrightarrow> in_area a rq" using block_in_disk [OF ok, of pos] by (auto simp: in_area_def rq)
  moreover have "pos = da_block_num a \<longrightarrow> rq_offset rq = da_basic_offset a + da_disk_size a \<and> \<not> in_area a rq"
    using ok by (auto simp: agent_ok_def in_area_def rq)
  ultimately show ?thesis
    using w write_offset [OF ok, of pos] ok
    by (auto simp: asyncWrite_def submit_def Let_def agent_ok_def rq split: if_splits)
qed

text \<open>C9: a finished block reaches the disk. When the check finds a block of the packet buffer that all
  writers have left, one round of the disk manager hands its bytes, unchanged, to the agent that its
  number selects, for the place of the disk block it stands for and inside the area of the agent;
  the metadata of this disk block get the packet count and times, and the block is not recycled.\<close>

theorem finished_block_reaches_disk:
  assumes st: "dm_store d = Data_store b" "db_wf b" and agents: "dm_agents d \<noteq> []" "length (dm_agents d) < 4294967296"
      "\<forall>a \<in> set (dm_agents d). agent_ok a \<and> da_block_num a = db_disk_num b \<and> da_block_size a = db_block_size b"
    and disk: "dk_block_num (dm_disk d) = db_disk_num b" "length (dk_metas (dm_disk d)) = db_disk_num b"
    and check: "db_checkBlock b (dm_thread d) = Some i" "i \<noteq> u64_max"
    and rd: "dm_round True True d = Some d'"
    and g: "g = i mod length (dm_agents d)" and own: "own = db_owner b i"
  shows "\<exists>b' rq. dm_store d' = Data_store b' \<and> db_block_disk_id b' = db_block_disk_id b \<and>
    da_submitted (dm_agents d' ! g) = da_submitted (dm_agents d ! g) @ da_prepared (dm_agents d ! g) @ [rq] \<and>
    (\<forall>j. j \<noteq> g \<longrightarrow> dm_agents d' ! j = dm_agents d ! j) \<and>
    Some (rq_buffer rq) = mread (db_mem b) (i * db_block_size b) (db_block_size b) \<and>
    rq_offset rq = own * db_block_size b + da_basic_offset (dm_agents d ! g) \<and> rq_user rq = i \<and>
    in_area (dm_agents d ! g) rq \<and>
    sum_counts (db_packet_counts b) i (db_total b) [0..<db_rss_num b] = Some (dm_packet_count (dk_metas (dm_disk d') ! own)) \<and>
    dm_start_time (dk_metas (dm_disk d') ! own) = db_start_times b ! i \<and>
    dm_end_time (dk_metas (dm_disk d') ! own) = db_end_times b ! i"
proof -
  let ?a = "dm_agents d ! g"
  have gl: "g < length (dm_agents d)" "i mod length (dm_agents d) mod 4294967296 = g"
    using agents(1,2) by (simp_all add: g) (metis g length_greater_0_conv less_trans mod_less mod_less_divisor)
  then have ag: "agent_ok ?a" "da_block_num ?a = db_disk_num b" "da_block_size ?a = db_block_size b"
    using agents(3) nth_mem by blast+
  have ci: "vec_get (db_check_ids b) (dm_thread d) = Some i"
    using check by (auto simp: db_checkBlock_def split: Option.bind_splits if_splits)
  from rd st(1) check have "dm_handle_data True True d b = Some d'" by (simp add: dm_round_def)
  then obtain block b' where gb: "db_getBlock b (dm_thread d) = Some (block, b')"
    and add: "addBlock True True (d\<lparr>dm_store := Data_store b', dm_disk := setPacketCount (setTime (dm_disk d) (blk_write_pos block)
        (blk_start_time block) (blk_end_time block)) (blk_write_pos block) (blk_packet_count block)\<rparr>)
       (blk_id block) (blk_write_pos block) (blk_buffer block) = Some d'"
    by (auto simp: dm_handle_data_def Let_def split: Option.bind_splits)
  from gb ci have bl: "blk_id block = i" "i < length (db_start_times b)" "blk_start_time block = db_start_times b ! i"
    "blk_end_time block = db_end_times b ! i" "i < length (db_block_disk_id b)" "blk_write_pos block = own"
    "sum_counts (db_packet_counts b) i (db_total b) [0..<db_rss_num b] = Some (blk_packet_count block)"
    "mread (db_mem b) (i * db_block_size b) (db_block_size b) = Some (blk_buffer block)"
    "db_block_disk_id b' = db_block_disk_id b"
    by (auto simp: db_getBlock_def vec_get_Some own db_owner_def split: Option.bind_splits)
  have ow: "own < db_disk_num b" using st(2) bl(5) nth_mem by (auto simp: db_wf_def own db_owner_def)
  let ?rq = "\<lparr>rq_buffer = blk_buffer block, rq_len = da_block_size ?a,
      rq_offset = own * da_block_size ?a + da_basic_offset ?a, rq_user = i\<rparr>"
  let ?a' = "?a\<lparr>da_prepared := [], da_submitted := da_submitted ?a @ da_prepared ?a @ [?rq]\<rparr>"
  have aw: "asyncWrite True True ?a (blk_buffer block) i own = Some (True, ?a')"
    using ag(1,2) ow write_offset [OF ag(1), of own] by (simp add: asyncWrite_def submit_def agent_ok_def Let_def)
  have d': "d' = d\<lparr>dm_store := Data_store b', dm_disk := setPacketCount (setTime (dm_disk d) own
        (db_start_times b ! i) (db_end_times b ! i)) own (blk_packet_count block), dm_agents := (dm_agents d)[g := ?a']\<rparr>"
    using add gl(1) aw by (simp add: addBlock_def bl(1,3,4,6) gl(2) agents(1) vec_get_def Let_def)
  have "in_area ?a ?rq" using block_in_disk [OF ag(1), of own] ow ag(2) by (simp add: in_area_def)
  moreover have "dk_metas (dm_disk d') ! own = (dk_metas (dm_disk d) ! own)\<lparr>dm_start_time := db_start_times b ! i,
      dm_end_time := db_end_times b ! i, dm_packet_count := blk_packet_count block\<rparr>"
    using disk ow by (simp add: d' setPacketCount_def setTime_def update_meta_def)
  ultimately show ?thesis
    using gl(1) bl ag(3) by (intro exI [of _ b'] exI [of _ ?rq]) (simp add: d')
qed

text \<open>C15: completed writes are recycled in order, and a failed write is never passed. As long as the
  completions of an agent are successes, each round of the memory manager recycles the block of the
  oldest one, and nothing else. When the oldest completion is a failure, the rounds neither consume
  it nor recycle any block of that agent, however many later writes have completed, and after a stop
  request the loop over this agent never ends.\<close>

fun mm_rounds :: "nat \<Rightarrow> DiskAgent \<Rightarrow> block_store \<Rightarrow> (DiskAgent \<times> block_store) option" where
  "mm_rounds 0 a st = Some (a, st)"
| "mm_rounds (Suc n) a st = do {
     (as, st') \<leftarrow> mm_round [a] st;
     a' \<leftarrow> vec_get as 0;
     mm_rounds n a' st' }"

lemma mm_rounds_success:
  "da_ring a \<Longrightarrow> u64_max \<notin> set users \<Longrightarrow> da_completed a = map (Pair True) users @ rest \<Longrightarrow>
   mm_rounds (length users) a st =
     map_option (Pair (a\<lparr>da_completed := rest\<rparr>)) (run_list (\<lambda>i st. recycle_store st i) users st)"
proof (induction users arbitrary: a st)
  case Nil
  then show ?case by simp
next
  case (Cons u users)
  let ?a = "a\<lparr>da_completed := map (Pair True) users @ rest\<rparr>"
  have p: "processCompletions a = Some (u, ?a)" using Cons.prems by (simp add: processCompletions_def)
  have u: "u \<noteq> u64_max" using Cons.prems(2) by auto
  show ?case
  proof (cases "recycle_store st u")
    case None
    then show ?thesis using p u by simp
  next
    case (Some st')
    have "mm_rounds (length users) ?a st' =
      map_option (Pair (?a\<lparr>da_completed := rest\<rparr>)) (run_list (\<lambda>i st. recycle_store st i) users st')"
      by (rule Cons.IH) (use Cons.prems in auto)
    then show ?thesis using p u Some by (simp add: vec_get_def)
  qed
qed

theorem completions_recycled_in_order:
  assumes "da_ring a" and "u64_max \<notin> set users"
  shows "(da_completed a = map (Pair True) users @ rest \<longrightarrow> mm_rounds (length users) a st =
      map_option (Pair (a\<lparr>da_completed := rest\<rparr>)) (run_list (\<lambda>i st. recycle_store st i) users st)) \<and>
    (da_completed a = (False, user) # rest \<longrightarrow> mm_rounds n a st = Some (a, st) \<and> mm_drain n a = None)"
proof (intro conjI impI)
  assume "da_completed a = map (Pair True) users @ rest"
  with assms show "mm_rounds (length users) a st =
      map_option (Pair (a\<lparr>da_completed := rest\<rparr>)) (run_list (\<lambda>i st. recycle_store st i) users st)"
    by (rule mm_rounds_success)
next
  assume f: "da_completed a = (False, user) # rest"
  have p: "processCompletions a = Some (u64_max, a)" using assms(1) f by (simp add: processCompletions_def)
  then show "mm_rounds n a st = Some (a, st)" by (induction n) (simp_all add: vec_get_def)
  have "jobFinished a = Some False" using assms(1) f by (simp add: jobFinished_def)
  with p show "mm_drain n a = None" by (induction n) simp_all
qed

section \<open>Witnesses\<close>

definition example_agent :: DiskAgent where
  "example_agent = \<lparr>da_disk_size = 128, da_block_size = 8, da_block_num = 16, da_basic_offset = 4096, da_ring = True,
     da_prepared = [], da_submitted = [], da_completed = []\<rparr>"

lemma example_agent_ok: "agent_ok example_agent"
  by (simp add: agent_ok_def example_agent_def)

theorem asyncWrite_request_witness:
  "\<exists>a'. asyncWrite True True example_agent [1] 3 16 = Some (True, a') \<and> map rq_offset (da_submitted a') = [4224] \<and>
     da_basic_offset example_agent + da_disk_size example_agent = 4224"
proof -
  obtain r a' where w: "asyncWrite True True example_agent [1] 3 16 = Some (r, a')"
    by (simp add: asyncWrite_def example_agent_def submit_def Let_def)
  from asyncWrite_request [OF example_agent_ok w refl] have "r" "da_prepared a' = []"
    "da_submitted a' @ da_prepared a' = [\<lparr>rq_buffer = [1], rq_len = 8, rq_offset = 4224, rq_user = 3\<rparr>]"
    by (auto simp: example_agent_def)
  then show ?thesis using w by (simp add: example_agent_def)
qed

definition example_manager :: DiskManager where
  "example_manager = \<lparr>dm_store = Data_store (example_blocks\<lparr>db_write_ids := [1]\<rparr>), dm_agents = [example_agent],
     dm_disk = \<lparr>dk_block_num = 16, dk_metas = replicate 16 (DiskMeta_init 2)\<rparr>, dm_thread = 0\<rparr>"

theorem finished_block_reaches_disk_witness:
  "\<exists>d'. dm_round True True example_manager = Some d' \<and>
     map rq_offset (da_submitted (dm_agents d' ! 0)) = [4096] \<and> map rq_user (da_submitted (dm_agents d' ! 0)) = [0]"
proof -
  let ?b = "example_blocks\<lparr>db_write_ids := [1]\<rparr>" and ?d = example_manager
  have st: "dm_store ?d = Data_store ?b" "db_wf ?b"
    by (simp_all add: example_manager_def example_blocks_def db_wf_def)
  have ch: "db_checkBlock ?b (dm_thread ?d) = Some 0"
    by (simp add: db_checkBlock_def checkRSS_def barrier_passed_def example_manager_def example_blocks_def vec_get_def Let_def
        upt_rec)
  have "\<exists>d'. dm_round True True ?d = Some d'"
    unfolding dm_round_def st(1) using ch
    by (simp add: dm_handle_data_def db_getBlock_def vec_get_def vec_set_def mread_def addBlock_def asyncWrite_def
        submit_def Let_def example_manager_def example_blocks_def example_agent_def upt_rec)
  then obtain d' where d': "dm_round True True ?d = Some d'" ..
  have pre: "dm_agents ?d \<noteq> []" "length (dm_agents ?d) < 4294967296"
    "\<forall>a \<in> set (dm_agents ?d). agent_ok a \<and> da_block_num a = db_disk_num ?b \<and> da_block_size a = db_block_size ?b"
    "dk_block_num (dm_disk ?d) = db_disk_num ?b" "length (dk_metas (dm_disk ?d)) = db_disk_num ?b" "0 \<noteq> u64_max"
    "0 = 0 mod length (dm_agents ?d)" "0 = db_owner ?b 0"
    using example_agent_ok by (simp_all add: example_manager_def example_blocks_def example_agent_def db_owner_def)
  have e: "dm_agents ?d ! 0 = example_agent" "db_block_size ?b = 8" by (simp_all add: example_manager_def example_blocks_def)
  from finished_block_reaches_disk [OF st pre(1-5) ch pre(6) d' pre(7,8)] obtain rq where
    "da_submitted (dm_agents d' ! 0) = [rq]" "rq_offset rq = 4096" "rq_user rq = 0"
    unfolding e by (auto simp: example_agent_def)
  then show ?thesis using d' by simp
qed

theorem completions_recycled_in_order_witness:
  "mm_rounds 1 (example_agent\<lparr>da_completed := [(True, 1), (False, 0)]\<rparr>) (Data_store example_blocks) =
     Some (example_agent\<lparr>da_completed := [(False, 0)]\<rparr>, Data_store (example_blocks\<lparr>db_block_disk_id := [0, 3]\<rparr>)) \<and>
   mm_drain 9 (example_agent\<lparr>da_completed := [(False, 0)]\<rparr>) = None"
proof -
  have r: "da_ring (example_agent\<lparr>da_completed := c\<rparr>)" for c by (simp add: example_agent_def)
  have "run_list (\<lambda>i st. recycle_store st i) [1] (Data_store example_blocks) =
      Some (Data_store (example_blocks\<lparr>db_block_disk_id := [0, 3]\<rparr>))"
    by (simp add: recycle_store_def db_recycleBlock_def example_blocks_def vec_get_def vec_set_def One_nat_def)
  then show ?thesis
    using completions_recycled_in_order [OF r [of "[(True, 1), (False, 0)]"], where users = "[1]" and rest = "[(False, 0)]" and st = "Data_store example_blocks"]
      completions_recycled_in_order [OF r [of "[(False, 0)]"], where users = "[]" and user = 0 and rest = "[]" and n = 9] by (simp add: One_nat_def)
qed

end
