(* ===== verification/QuerySearch.thy ===== *)
theory QuerySearch
  imports PacketWriter DiskIO "HOL-Library.Multiset"
begin

text \<open>
  The searches of \<^verbatim>\<open>dpdk_component/querier.cpp\<close>: binary search in a run of sorted index records,
  for one key and for a range, the combination of position lists, the helpers that take dates and
  masks apart, the way from a key over the disk metadata and the index to positions, and the reader
  that fetches the packets of a chain from the disk. The template parameter \<open>KeyType\<close> is a linear
  order with its size and its decoding; the addresses have the order of \<open>KeyTypes\<close>.
\<close>

declare One_nat_def [simp del]

section \<open>Binary search\<close>

text \<open>The key and the value of the record with number \<open>i\<close>.\<close>

definition key_at :: "(bytes \<Rightarrow> 'k) \<Rightarrow> nat \<Rightarrow> bytes \<Rightarrow> nat \<Rightarrow> 'k option" where
  "key_at dec ksz index i = map_option dec (mread index (i * (ksz + 8)) ksz)"

definition value_at :: "nat \<Rightarrow> bytes \<Rightarrow> nat \<Rightarrow> nat option" where
  "value_at ksz index i = map_option le_decode (mread index (i * (ksz + 8) + ksz) 8)"

text \<open>The first loop of both searches: the first record whose key is not below \<open>key\<close>.\<close>

function lower_bound :: "(bytes \<Rightarrow> 'k :: linorder) \<Rightarrow> nat \<Rightarrow> bytes \<Rightarrow> 'k \<Rightarrow> nat \<Rightarrow> nat \<Rightarrow> nat option" where
  "lower_bound dec ksz index key left right =
     (if left < right
      then do {
        let mid = left + (right - left) div 2;
        key_mid \<leftarrow> key_at dec ksz index mid;
        if key_mid < key then lower_bound dec ksz index key (mid + 1) right
        else lower_bound dec ksz index key left mid }
      else Some left)"
  by pat_completeness auto
termination by (relation "measure (\<lambda>(_, _, _, _, left, right). right - left)") auto

declare lower_bound.simps [simp del]

text \<open>The second loop: collects values as long as the key passes the test.\<close>

function collect_while :: "(bytes \<Rightarrow> 'k) \<Rightarrow> nat \<Rightarrow> bytes \<Rightarrow> ('k \<Rightarrow> bool) \<Rightarrow> nat \<Rightarrow> nat \<Rightarrow> nat list \<Rightarrow> nat list option" where
  "collect_while dec ksz index go left n ret =
     (if left < n
      then do {
        key_now \<leftarrow> key_at dec ksz index left;
        if \<not> go key_now then Some ret
        else do {
          v \<leftarrow> value_at ksz index left;
          collect_while dec ksz index go (left + 1) n (ret @ [v]) } }
      else Some ret)"
  by pat_completeness auto
termination by (relation "measure (\<lambda>(_, _, _, _, left, n, _). n - left)") auto

declare collect_while.simps [simp del]

definition binarySearch :: "(bytes \<Rightarrow> 'k :: linorder) \<Rightarrow> nat \<Rightarrow> bytes \<Rightarrow> nat \<Rightarrow> 'k \<Rightarrow> nat list \<Rightarrow> nat list option" where
  "binarySearch dec ksz index index_len key ret = do {
     let n = index_len div (ksz + 8);
     left \<leftarrow> lower_bound dec ksz index key 0 n;
     collect_while dec ksz index (\<lambda>key_now. key_now = key) left n ret }"

text \<open>The length is a 32-bit parameter here.\<close>

definition binarySearchRange :: "(bytes \<Rightarrow> 'k :: linorder) \<Rightarrow> nat \<Rightarrow> bytes \<Rightarrow> nat \<Rightarrow> 'k \<Rightarrow> 'k \<Rightarrow> nat list option" where
  "binarySearchRange dec ksz index index_len startKey endKey = do {
     let n = (index_len mod 4294967296) div (ksz + 8);
     left \<leftarrow> lower_bound dec ksz index startKey 0 n;
     collect_while dec ksz index (\<lambda>key_now. \<not> key_now \<ge> endKey) left n [] }"

section \<open>Position lists\<close>

text \<open>The loops over two sorted lists; \<open>erase\<close> drops an element of the first list.\<close>

fun merge_intersect :: "nat list \<Rightarrow> nat list \<Rightarrow> nat list" where
  "merge_intersect (a # la) (b # lb) =
     (if a < b then merge_intersect la (b # lb)
      else if a > b then merge_intersect (a # la) lb
      else a # merge_intersect la lb)"
| "merge_intersect la lb = []"

fun merge_join :: "nat list \<Rightarrow> nat list \<Rightarrow> nat list" where
  "merge_join (a # la) (b # lb) =
     (if a < b then a # merge_join la (b # lb)
      else if a > b then b # merge_join (a # la) lb
      else a # merge_join la lb)"
| "merge_join [] lb = lb"
| "merge_join la [] = la"

definition intersect_pos :: "nat list \<Rightarrow> nat list \<Rightarrow> nat list" where
  "intersect_pos la lb = merge_intersect (sort la) (sort lb)"

definition join_pos :: "nat list \<Rightarrow> nat list \<Rightarrow> nat list" where
  "join_pos la lb = merge_join (sort la) (sort lb)"

record Answer =
  ans_block_id :: nat
  ans_pointers :: "nat list"

text \<open>Answers are combined place by place; the first difference of block numbers ends the loop.\<close>

fun zip_answers :: "(nat list \<Rightarrow> nat list \<Rightarrow> nat list) \<Rightarrow> Answer list \<Rightarrow> Answer list \<Rightarrow> Answer list" where
  "zip_answers f (a # la) (b # lb) =
     (if ans_block_id a \<noteq> ans_block_id b then a # la
      else a\<lparr>ans_pointers := f (ans_pointers a) (ans_pointers b)\<rparr> # zip_answers f la lb)"
| "zip_answers f la lb = la"

definition intersect_answers :: "Answer list \<Rightarrow> Answer list \<Rightarrow> Answer list" where
  "intersect_answers la lb =
     (if la = [] then lb else if lb = [] then la else zip_answers intersect_pos la lb)"

definition join_answers :: "Answer list \<Rightarrow> Answer list \<Rightarrow> Answer list" where
  "join_answers la lb =
     (if la = [] then lb else if lb = [] then la else zip_answers join_pos la lb)"

section \<open>Strings and masks\<close>

fun split_at_char :: "char \<Rightarrow> string \<Rightarrow> nat" where
  "split_at_char sep [] = 0"
| "split_at_char sep (c # cs) = (if c = sep then 0 else split_at_char sep cs + 1)"

definition splitIP :: "string \<Rightarrow> nat" where
  "splitIP s = split_at_char (CHR ''/'') s"

definition splitTime :: "string \<Rightarrow> nat" where
  "splitTime s = split_at_char (CHR ''.'') s"

datatype conversion_error = Invalid_argument | Out_of_range

definition is_digit :: "char \<Rightarrow> bool" where
  "is_digit c \<longleftrightarrow> of_char c \<ge> (48 :: nat) \<and> of_char c \<le> (57 :: nat)"

definition is_space :: "char \<Rightarrow> bool" where
  "is_space c \<longleftrightarrow> of_char c = (32 :: nat) \<or> (of_char c \<ge> (9 :: nat) \<and> of_char c \<le> (13 :: nat))"

fun digits_value :: "nat \<Rightarrow> string \<Rightarrow> nat" where
  "digits_value acc [] = acc"
| "digits_value acc (c # cs) = (if is_digit c then digits_value (acc * 10 + (of_char c - 48)) cs else acc)"

text \<open>\<open>std::stoul\<close> with base ten: blanks, a sign, digits; what follows is ignored.\<close>

definition stoul :: "string \<Rightarrow> conversion_error + nat" where
  "stoul s =
     (let t = dropWhile is_space s;
          neg = (t \<noteq> [] \<and> hd t = CHR ''-'');
          u = (if t \<noteq> [] \<and> (hd t = CHR ''-'' \<or> hd t = CHR ''+'') then tl t else t);
          v = digits_value 0 u
      in if u = [] \<or> \<not> is_digit (hd u) then Inl Invalid_argument
         else if v \<ge> U64 then Inl Out_of_range
         else Inr (if neg then sub64 0 v else v))"

definition stollTime :: "string \<Rightarrow> conversion_error + nat" where
  "stollTime s =
     (let sp_pos = splitTime s in
      case stoul (take sp_pos s) of Inl e \<Rightarrow> Inl e
      | Inr hi \<Rightarrow>
          let ret_time = mul64 hi 4294967296 in
          if sp_pos = length s then Inr ret_time
          else case stoul (drop (sp_pos + 1) s) of Inl e \<Rightarrow> Inl e
            | Inr lo \<Rightarrow> Inr (add64 ret_time lo))"

text \<open>A shift by 32 or more is undefined behaviour.\<close>

definition maskToInteger :: "nat \<Rightarrow> 32 word option" where
  "maskToInteger maskBits = (if 1 \<le> maskBits \<and> maskBits \<le> 32 then Some (push_bit (32 - maskBits) (- 1)) else None)"

section \<open>From a key to positions\<close>

record AtomKey =
  ak_cachePos :: IndexType
  ak_key :: bytes

text \<open>The loop over the disk blocks has the bound 1: only block 0 is looked at.\<close>

definition getIndexRange :: "(bytes \<Rightarrow> nat) \<Rightarrow> (nat \<Rightarrow> nat) \<Rightarrow> BitMap option \<Rightarrow> DiskBuffer \<Rightarrow> AtomKey \<Rightarrow> nat list option" where
  "getIndexRange h1 h2 bm disk key =
     (if \<not> checkKey h1 h2 bm disk 0 (ak_key key) (ak_cachePos key) then Some []
      else do {
        m \<leftarrow> getDiskMeta disk 0;
        a \<leftarrow> vec_get (dm_index_meta m) (index_num (ak_cachePos key) * 2);
        b \<leftarrow> vec_get (dm_index_meta m) (index_num (ak_cachePos key) * 2 + 1);
        Some [a, b] })"

definition search_index :: "bytes \<Rightarrow> nat \<Rightarrow> AtomKey \<Rightarrow> nat list \<Rightarrow> nat list option" where
  "search_index index len key ret =
     (let t = ak_cachePos key in
      if t = SRCIP \<or> t = DSTIP then binarySearch le_decode 4 index len (le_decode (take 4 (ak_key key))) ret
      else if t = SRCPORT \<or> t = DSTPORT then binarySearch le_decode 2 index len (le_decode (take 2 (ak_key key))) ret
      else if t = SRCIPv6 \<or> t = DSTIPv6 then binarySearch le_decode 2 index len (le_decode (take 2 (ak_key key))) ret
      else Some ret)"

text \<open>\<open>rd begin end\<close> is the range read of the index agent (the outer option as in \<open>DiskIO\<close>); the
  state is the index buffer and the two block numbers that remember what it holds. A failed read
  ends the loop with what has been found.\<close>

fun offset_loop :: "(nat \<Rightarrow> nat \<Rightarrow> bytes option option) \<Rightarrow> nat \<Rightarrow> AtomKey \<Rightarrow> nat list \<Rightarrow> bytes \<Rightarrow> nat \<Rightarrow> nat \<Rightarrow> nat list \<Rightarrow>
    (nat list \<times> bytes) option" where
  "offset_loop rd bsz key (a # b # rest) buf last_id last_end ret =
     (if last_id = a div bsz
      then do {
        blk \<leftarrow> mread buf (mul64 bsz last_end) bsz;
        buf1 \<leftarrow> mwrite buf 0 blk;
        let last_id' = b div bsz;
        let last_end' = sub64 last_id' (a div bsz);
        if last_end' = 0 then offset_loop rd bsz key rest buf1 last_id' last_end' ret
        else do {
          r \<leftarrow> rd (add64 (a div bsz) 1) last_id';
          case r of None \<Rightarrow> Some (ret, buf1)
          | Some bs \<Rightarrow> do {
              buf2 \<leftarrow> mwrite buf1 bsz bs;
              ret' \<leftarrow> search_index (drop (a mod bsz) buf2) (sub64 b a) key ret;
              offset_loop rd bsz key rest buf2 last_id' last_end' ret' } } }
      else do {
        let last_id' = b div bsz;
        let last_end' = sub64 last_id' (a div bsz);
        r \<leftarrow> rd (a div bsz) last_id';
        case r of None \<Rightarrow> Some (ret, buf)
        | Some bs \<Rightarrow> do {
            buf2 \<leftarrow> mwrite buf 0 bs;
            ret' \<leftarrow> search_index (drop (a mod bsz) buf2) (sub64 b a) key ret;
            offset_loop rd bsz key rest buf2 last_id' last_end' ret' } })"
| "offset_loop rd bsz key index_list buf last_id last_end ret = Some (ret, buf)"

definition getOffsetList :: "(nat \<Rightarrow> nat \<Rightarrow> bytes option option) \<Rightarrow> nat \<Rightarrow> bytes \<Rightarrow> nat list \<Rightarrow> AtomKey \<Rightarrow>
    (nat list \<times> bytes) option" where
  "getOffsetList rd bsz buf index_list key = offset_loop rd bsz key index_list buf u64_max u64_max []"

text \<open>One range of the index: its blocks are read to the start of the buffer and searched from its first byte on.\<close>

lemma one_range_searched:
  assumes "a \<le> b" and "a div bsz < u64_max" and "b < U64"
    and "rd (a div bsz) (b div bsz) = Some (Some bs)" and "length bs \<le> length buf"
  shows "getOffsetList rd bsz buf [a, b] key =
    map_option (\<lambda>ret. (ret, bs @ drop (length bs) buf))
      (search_index (drop (a mod bsz) (bs @ drop (length bs) buf)) (b - a) key [])"
proof -
  have "mwrite buf 0 bs = Some (bs @ drop (length bs) buf)" using assms(5) by (simp add: mwrite_def)
  moreover have "sub64 b a = b - a" using assms(1,3) by (simp add: sub64_ge)
  ultimately show ?thesis using assms(2,4)
    by (simp add: getOffsetList_def Let_def map_option_case split: option.splits Option.bind_splits)
qed

section \<open>Reading packets\<close>

record PacketReader =
  pr_offsets :: "nat list"
  pr_now :: nat
  pr_buffer :: bytes
  pr_now_buffer :: nat
  pr_next_buffer :: nat
  pr_last_cell :: nat
  pr_out :: "bytes list"

text \<open>One round of the loop of \<open>readPackets\<close>; \<open>rd\<close> reads a cell, \<open>slots\<close> is the number of cells in
  the buffer, \<open>junk\<close> the content of fresh memory. The flag tells whether the loop goes on: a failed
  read ends it.\<close>

definition pr_load :: "(nat \<Rightarrow> bytes option option) \<Rightarrow> nat \<Rightarrow> nat \<Rightarrow> nat \<Rightarrow> PacketReader \<Rightarrow> (bool \<times> PacketReader) option" where
  "pr_load rd cs slots cell_id s =
     (if pr_last_cell s = cell_id then Some (True, s)
      else do {
        r \<leftarrow> rd cell_id;
        case r of None \<Rightarrow> Some (False, s)
        | Some bs \<Rightarrow> do {
            buf \<leftarrow> mwrite (pr_buffer s) (pr_next_buffer s * cs) bs;
            Some (True, s\<lparr>pr_buffer := buf, pr_now_buffer := pr_next_buffer s,
              pr_next_buffer := (if pr_next_buffer s + 1 \<ge> slots then 0 else pr_next_buffer s + 1), pr_last_cell := cell_id\<rparr>) } })"

text \<open>Header fields: the captured length and the distance to the next packet.\<close>

definition hdr_caplen :: "bytes \<Rightarrow> nat" where
  "hdr_caplen h = le_decode (take 4 (drop 8 h))"

definition hdr_next :: "bytes \<Rightarrow> nat" where
  "hdr_next h = le_decode (take 4 (drop 12 h))"

text \<open>The packet at a position of the current cell: its bytes and the distance to the next one. The
  inner option is a failed read of the next cell.\<close>

definition pr_fetch :: "(nat \<Rightarrow> bytes option option) \<Rightarrow> nat \<Rightarrow> (nat \<Rightarrow> bytes) \<Rightarrow> nat \<Rightarrow> PacketReader \<Rightarrow>
    (bytes \<times> nat \<times> PacketReader) option option" where
  "pr_fetch rd cs junk cell_pos s =
     (let now = pr_now_buffer s * cs; nxt = pr_next_buffer s * cs in
      if cell_pos + 24 > cs
      then do {
        tail \<leftarrow> mread (pr_buffer s) (now + (cs - 8)) 8;
        let tmp_len = sub64 (sub64 cs cell_pos) 8;
        r \<leftarrow> rd (le_decode tail);
        case r of None \<Rightarrow> Some None
        | Some bs \<Rightarrow> do {
            buf \<leftarrow> mwrite (pr_buffer s) nxt bs;
            h1 \<leftarrow> mread buf (now + cell_pos) tmp_len;
            h2 \<leftarrow> mread buf nxt (16 - tmp_len);
            let packet_len = hdr_caplen (h1 @ h2);
            packet \<leftarrow> mread buf (nxt + 16 - tmp_len) packet_len;
            Some (Some (packet, hdr_next (h1 @ h2), s\<lparr>pr_buffer := buf\<rparr>)) } }
      else do {
        h \<leftarrow> mread (pr_buffer s) (now + cell_pos) 16;
        let packet_len = hdr_caplen h;
        if cell_pos + 24 + packet_len > cs
        then do {
          tail \<leftarrow> mread (pr_buffer s) (now + (cs - 8)) 8;
          let tmp_len = sub64 (sub64 (sub64 cs cell_pos) 8) 16;
          r \<leftarrow> rd (le_decode tail);
          case r of None \<Rightarrow> Some None
          | Some bs \<Rightarrow> do {
              buf \<leftarrow> mwrite (pr_buffer s) nxt bs;
              front \<leftarrow> mread buf (now + cell_pos + 16) tmp_len;
              p1 \<leftarrow> mwrite (junk packet_len) 0 front;
              back \<leftarrow> mread buf nxt (sub64 packet_len tmp_len);
              packet \<leftarrow> mwrite p1 0 back;
              Some (Some (packet, hdr_next h, s\<lparr>pr_buffer := buf\<rparr>)) } }
        else do {
          packet \<leftarrow> mread (pr_buffer s) (now + cell_pos + 16) packet_len;
          Some (Some (packet, hdr_next h, s)) } })"

definition pr_round :: "(nat \<Rightarrow> bytes option option) \<Rightarrow> nat \<Rightarrow> nat \<Rightarrow> (nat \<Rightarrow> bytes) \<Rightarrow> PacketReader \<Rightarrow>
    (bool \<times> PacketReader) option" where
  "pr_round rd cs slots junk s = do {
     let i = pr_now s;
     let os = pr_offsets s;
     let os1 = (if i + 1 < length os \<and> os ! (i + 1) < os ! i then os[i := os ! (i + 1), i + 1 := os ! i] else os);
     let offset = os1 ! i;
     (ok, s1) \<leftarrow> pr_load rd cs slots (offset div cs) (s\<lparr>pr_offsets := os1\<rparr>);
     if \<not> ok then Some (False, s1)
     else do {
       r \<leftarrow> pr_fetch rd cs junk (offset mod cs) s1;
       case r of None \<Rightarrow> Some (False, s1)
       | Some (packet, next, s2) \<Rightarrow>
           let s3 = s2\<lparr>pr_out := pr_out s2 @ [packet]\<rparr> in
           if next = 0 \<or> next = u32_max then Some (True, s3\<lparr>pr_now := i + 1\<rparr>)
           else Some (True, s3\<lparr>pr_offsets := os1[i := add64 offset next]\<rparr>) } }"

text \<open>The loop; the fuel bounds its rounds, one for each packet read.\<close>

fun pr_loop :: "nat \<Rightarrow> (nat \<Rightarrow> bytes option option) \<Rightarrow> nat \<Rightarrow> nat \<Rightarrow> (nat \<Rightarrow> bytes) \<Rightarrow> PacketReader \<Rightarrow> PacketReader option" where
  "pr_loop 0 rd cs slots junk s = (if pr_now s < length (pr_offsets s) then None else Some s)"
| "pr_loop (Suc n) rd cs slots junk s =
     (if pr_now s < length (pr_offsets s)
      then do {
        (go, s') \<leftarrow> pr_round rd cs slots junk s;
        if go then pr_loop n rd cs slots junk s' else Some s' }
      else Some s)"

definition readPackets :: "nat \<Rightarrow> (nat \<Rightarrow> bytes option option) \<Rightarrow> nat \<Rightarrow> (nat \<Rightarrow> bytes) \<Rightarrow> bytes \<Rightarrow> nat list \<Rightarrow> bytes list option" where
  "readPackets fuel rd cs junk buf offset_list =
     map_option pr_out (pr_loop fuel rd cs (length buf div cs) junk
       \<lparr>pr_offsets = offset_list, pr_now = 0, pr_buffer = buf, pr_now_buffer = 0, pr_next_buffer = 0,
        pr_last_cell = u64_max, pr_out = []\<rparr>)"

section \<open>Searching sorted records\<close>

text \<open>The contents of an index: its keys and values in order.\<close>

definition entries :: "(bytes \<Rightarrow> 'k) \<Rightarrow> nat \<Rightarrow> bytes list \<Rightarrow> ('k \<times> nat) list" where
  "entries dec ksz rs = map (\<lambda>r. (dec (take ksz r), le_decode (drop ksz r))) rs"

definition holds_entries :: "(bytes \<Rightarrow> 'k) \<Rightarrow> nat \<Rightarrow> bytes \<Rightarrow> ('k \<times> nat) list \<Rightarrow> bool" where
  "holds_entries dec ksz index es \<longleftrightarrow>
     (\<forall>i < length es. key_at dec ksz index i = Some (fst (es ! i)) \<and> value_at ksz index i = Some (snd (es ! i)))"

lemma concat_nth_part:
  assumes "\<forall>r \<in> set rs. length r = sz" and "i < length rs" and "off + len \<le> sz"
  shows "mread (concat rs @ rest) (i * sz + off) len = Some (take len (drop off (rs ! i)))"
  using assms
proof (induction rs arbitrary: i)
  case (Cons r rs)
  have l: "length r = sz" using Cons.prems(1) by simp
  show ?case
  proof (cases i)
    case 0
    then show ?thesis using l Cons.prems(3) by (simp add: mread_def)
  next
    case (Suc j)
    then have "mread (concat rs @ rest) (j * sz + off) len = Some (take len (drop off (rs ! j)))"
      using Cons by simp
    then show ?thesis using l Suc by (simp add: mread_def add.assoc split: if_splits)
  qed
qed simp

lemma holds_entries_concat:
  assumes "\<forall>r \<in> set rs. length r = ksz + 8"
  shows "holds_entries dec ksz (concat rs @ rest) (entries dec ksz rs)"
  unfolding holds_entries_def
proof (intro allI impI)
  fix i assume i: "i < length (entries dec ksz rs)"
  then have i': "i < length rs" by (simp add: entries_def)
  then have "length (rs ! i) = ksz + 8" using assms by simp
  then show "key_at dec ksz (concat rs @ rest) i = Some (fst (entries dec ksz rs ! i)) \<and>
      value_at ksz (concat rs @ rest) i = Some (snd (entries dec ksz rs ! i))"
    using concat_nth_part [OF assms i', of 0 ksz rest] concat_nth_part [OF assms i', of ksz 8 rest] i'
    by (simp add: key_at_def value_at_def entries_def)
qed

lemma lower_bound_spec:
  assumes "holds_entries dec ksz index es" and "sorted (map fst es)"
    and "left \<le> right" and "right \<le> length es"
    and "\<forall>i < left. fst (es ! i) < key" and "\<forall>i < length es. right \<le> i \<longrightarrow> \<not> fst (es ! i) < key"
  shows "\<exists>p \<le> length es. lower_bound dec ksz index key left right = Some p \<and>
    (\<forall>i < p. fst (es ! i) < key) \<and> (\<forall>i < length es. p \<le> i \<longrightarrow> \<not> fst (es ! i) < key)"
  using assms
proof (induction dec ksz index key left right rule: lower_bound.induct)
  case (1 dec ksz index key left right)
  show ?case
  proof (cases "left < right")
    case False
    then have "left = right" using "1.prems" by simp
    then show ?thesis using False "1.prems" by (subst lower_bound.simps) auto
  next
    case True
    let ?mid = "left + (right - left) div 2"
    have m: "?mid < right" "left \<le> ?mid" "?mid < length es" using True "1.prems"(4) by auto
    have k: "key_at dec ksz index ?mid = Some (fst (es ! ?mid))"
      using "1.prems"(1) m by (simp add: holds_entries_def)
    have mono: "fst (es ! i) \<le> fst (es ! j)" if "i \<le> j" "j < length es" for i j
      using sorted_nth_mono [OF "1.prems"(2), of i j] that by simp
    show ?thesis
    proof (cases "fst (es ! ?mid) < key")
      case below: True
      have "\<forall>i < ?mid + 1. fst (es ! i) < key"
        using mono [of _ ?mid] m below by (auto simp: less_Suc_eq_le One_nat_def intro: le_less_trans)
      from "1.IH"(1) [OF True refl k below "1.prems"(1,2) _ "1.prems"(4) this "1.prems"(6)] m
      show ?thesis using True k below by (subst lower_bound.simps) (simp add: Let_def)
    next
      case above: False
      have "\<forall>i < length es. ?mid \<le> i \<longrightarrow> \<not> fst (es ! i) < key"
        using mono [of ?mid] above by (meson le_less_trans)
      from "1.IH"(2) [OF True refl k above "1.prems"(1,2) _ _ "1.prems"(5) this] m
      show ?thesis using True k above by (subst lower_bound.simps) (simp add: Let_def)
    qed
  qed
qed

lemma collect_while_spec:
  assumes "holds_entries dec ksz index es" and "left \<le> length es"
  shows "collect_while dec ksz index go left (length es) ret =
    Some (ret @ map snd (takeWhile (\<lambda>e. go (fst e)) (drop left es)))"
  using assms
proof (induction "length es - left" arbitrary: left ret)
  case 0
  then show ?case by (subst collect_while.simps) simp
next
  case (Suc n)
  then have l: "left < length es" by simp
  have d: "drop left es = es ! left # drop (left + 1) es" using l by (simp add: Cons_nth_drop_Suc One_nat_def)
  have kv: "key_at dec ksz index left = Some (fst (es ! left))" "value_at ksz index left = Some (snd (es ! left))"
    using Suc.prems(1) l by (simp_all add: holds_entries_def)
  have "collect_while dec ksz index go (left + 1) (length es) (ret @ [snd (es ! left)]) =
      Some ((ret @ [snd (es ! left)]) @ map snd (takeWhile (\<lambda>e. go (fst e)) (drop (left + 1) es)))"
    by (rule Suc.hyps(1)) (use Suc l in auto)
  then show ?case using l kv unfolding d by (subst collect_while.simps) simp
qed

text \<open>Both searches at once: from the first key that is not below \<open>lo\<close>, while the test holds.\<close>

lemma search_from:
  assumes "holds_entries dec ksz index es" and "sorted (map fst es)"
    and down: "\<And>a b. lo \<le> a \<Longrightarrow> a \<le> b \<Longrightarrow> go b \<Longrightarrow> go a"
  shows "(do { left \<leftarrow> lower_bound dec ksz index lo 0 (length es);
               collect_while dec ksz index go left (length es) ret }) =
    Some (ret @ map snd (filter (\<lambda>e. lo \<le> fst e \<and> go (fst e)) es))"
proof -
  from lower_bound_spec [OF assms(1,2), of 0 "length es" lo] obtain p where
    p: "p \<le> length es" "lower_bound dec ksz index lo 0 (length es) = Some p"
      "\<forall>i < p. fst (es ! i) < lo" "\<forall>i < length es. p \<le> i \<longrightarrow> \<not> fst (es ! i) < lo" by auto
  have "fst e < lo" if "e \<in> set (take p es)" for e
  proof -
    obtain i where "i < length (take p es)" "e = take p es ! i" using \<open>e \<in> set (take p es)\<close> by (metis in_set_conv_nth)
    then show ?thesis using p(3) by simp
  qed
  then have a: "filter (\<lambda>e. lo \<le> fst e \<and> go (fst e)) (take p es) = []"
    by (auto intro!: filter_False dest: leD)
  have ge: "\<forall>e \<in> set (drop p es). lo \<le> fst e"
  proof
    fix e assume "e \<in> set (drop p es)"
    then obtain i where "i < length (drop p es)" "e = drop p es ! i" by (metis in_set_conv_nth)
    then show "lo \<le> fst e" using p(1) p(4) [rule_format, of "p + i"] by (simp add: not_less less_diff_conv add.commute)
  qed
  have tw: "takeWhile (\<lambda>e. go (fst e)) xs = filter (\<lambda>e. lo \<le> fst e \<and> go (fst e)) xs"
    if "\<forall>e \<in> set xs. lo \<le> fst e" "sorted (map fst xs)" for xs
    using that
  proof (induction xs)
    case (Cons x xs)
    show ?case
    proof (cases "go (fst x)")
      case False
      then have "\<not> go (fst e)" if "e \<in> set xs" for e
        using down [of "fst x" "fst e"] Cons.prems that by auto
      then show ?thesis using False by (auto simp: filter_empty_conv)
    qed (use Cons in auto)
  qed simp
  have "sorted (map fst (drop p es))" using assms(2) by (simp add: sorted_wrt_drop flip: drop_map)
  from tw [OF ge this] have "takeWhile (\<lambda>e. go (fst e)) (drop p es) = filter (\<lambda>e. lo \<le> fst e \<and> go (fst e)) es"
    using a filter_append [of "\<lambda>e. lo \<le> fst e \<and> go (fst e)" "take p es" "drop p es"] by simp
  then show ?thesis using p(2) collect_while_spec [OF assms(1) p(1)] by simp
qed

lemma binarySearch_entries:
  assumes "holds_entries dec ksz index es" and "sorted (map fst es)" and "len div (ksz + 8) = length es"
  shows "binarySearch dec ksz index len key ret = Some (ret @ map snd (filter (\<lambda>e. fst e = key) es))"
proof -
  have "(key \<le> fst e \<and> fst e = key) = (fst e = key)" for e :: "'a \<times> nat" by auto
  then show ?thesis
    using search_from [OF assms(1,2), where lo = key and go = "\<lambda>k. k = key" and ret = ret]
    by (simp add: binarySearch_def assms(3))
qed

section \<open>From the capture thread to the reader\<close>

text \<open>The disk as one array of bytes on which the writes of a packet have arrived.\<close>

fun apply_writes :: "bytes \<Rightarrow> packet_write list \<Rightarrow> bytes option" where
  "apply_writes d [] = Some d"
| "apply_writes d ((bs, pos, flag) # ws) = do { d' \<leftarrow> mwrite d pos bs; apply_writes d' ws }"

lemma mread_part: "mread m p L = Some bs \<Longrightarrow> a + n \<le> L \<Longrightarrow> mread m (p + a) n = Some (take n (drop a bs))"
  by (auto simp: mread_def min_def add.commute drop_take split: if_splits)

lemma mwrite_nothing: "p \<le> length m \<Longrightarrow> mwrite m p [] = Some m"
  by (simp add: mwrite_def)

lemma apply_writes_append: "apply_writes d (xs @ ys) = do { d1 \<leftarrow> apply_writes d xs; apply_writes d1 ys }"
  by (induction xs arbitrary: d) (auto split: Option.bind_split)

lemma apply_contiguous:
  "contiguous p ws \<Longrightarrow> p + length (written_bytes ws) \<le> length d \<Longrightarrow> apply_writes d ws = mwrite d p (written_bytes ws)"
proof (induction ws arbitrary: p d)
  case Nil
  then show ?case by (simp add: written_bytes_def mwrite_nothing)
next
  case (Cons w ws)
  obtain bs q flag where w: "w = (bs, q, flag)" by (cases w)
  have wb: "written_bytes (w # ws) = bs @ written_bytes ws" by (simp add: w written_bytes_def)
  from Cons.prems obtain d1 where d1: "mwrite d p bs = Some d1" by (auto simp: wb mwrite_def)
  then have "length d1 = length d" by (rule mwrite_length)
  then show ?case using Cons d1 unfolding wb by (simp add: w mwrite_append [of d p bs] written_bytes_def)
qed

lemma front_rest_bytes:
  assumes "length hdr = 16" and "tmp \<le> length payload + 16"
  shows "written_bytes (front_writes tmp hdr payload off idx) = take tmp (hdr @ payload)"
    and "written_bytes (rest_writes tmp hdr payload start idx) =
      (if tmp < 16 then drop tmp (hdr @ payload) else take (length payload + 16 - tmp) payload)"
  using assms by (auto simp: front_writes_def rest_writes_def written_bytes_def)

lemma contiguous_append: "contiguous p (xs @ ys) \<longleftrightarrow> contiguous p xs \<and> contiguous (p + length (written_bytes xs)) ys"
  by (induction xs arbitrary: p) (auto simp: written_bytes_def ac_simps)

text \<open>What the disk holds after a packet that does not fit into its cell.\<close>

lemma split_packet_on_disk:
  assumes hdr: "length hdr = 16" and tmp: "tmp \<le> length payload + 16"
    and ws: "ws = front_writes tmp hdr payload off idx @ [(ptr, off + tmp, False)] @ rest_writes tmp hdr payload start idx"
    and ptr: "length ptr = 8" and d: "apply_writes d ws = Some d'"
    and room: "off + tmp + 8 \<le> length d" "start + (length payload + 16 - tmp) \<le> length d"
    and apart: "off + tmp + 8 \<le> start \<or> start + (length payload + 16 - tmp) \<le> off"
  shows "mread d' off (tmp + 8) = Some (take tmp (hdr @ payload) @ ptr)"
    and "mread d' start (length payload + 16 - tmp) =
      Some (if tmp < 16 then drop tmp (hdr @ payload) else take (length payload + 16 - tmp) payload)"
    and "length d' = length d"
proof -
  let ?A = "take tmp (hdr @ payload) @ ptr"
  let ?B = "if tmp < 16 then drop tmp (hdr @ payload) else take (length payload + 16 - tmp) payload"
  let ?f = "front_writes tmp hdr payload off idx @ [(ptr, off + tmp, False)]" and ?r = "rest_writes tmp hdr payload start idx"
  note fp = front_writes_props [OF hdr tmp, of off idx] and rp = rest_writes_props [OF hdr tmp, of start idx]
    and fb = front_rest_bytes(1) [OF hdr tmp, of off idx] front_rest_bytes(2) [OF hdr tmp, of start idx]
  have A: "written_bytes ?f = ?A" "length ?A = tmp + 8" using fb(1) hdr tmp ptr by (simp_all add: written_bytes_def)
  have B: "length ?B = length payload + 16 - tmp" using rp(2) fb(2) by simp
  have cf: "contiguous off ?f" using fp by (simp add: contiguous_append)
  have f: "apply_writes d ?f = mwrite d off ?A"
    using apply_contiguous [OF cf, of d] room(1) unfolding A by (simp add: A(2))
  then obtain d1 where d1: "mwrite d off ?A = Some d1" using room(1) A(2) by (auto simp: mwrite_def)
  then have l1: "length d1 = length d" by (rule mwrite_length)
  have "apply_writes d1 ?r = mwrite d1 start ?B"
    using apply_contiguous [OF rp(1), of d1] room(2) l1 unfolding fb(2) by (simp add: B)
  moreover have "apply_writes d1 ?r = Some d'"
  proof -
    have "apply_writes d (?f @ ?r) = Some d'" using d unfolding ws by (simp only: append_assoc)
    then show ?thesis unfolding apply_writes_append [of d ?f ?r] f d1 by simp
  qed
  ultimately have d2: "mwrite d1 start ?B = Some d'" by simp
  show "length d' = length d" using mwrite_length [OF d2] l1 by simp
  show "mread d' start (length payload + 16 - tmp) = Some ?B" using mread_mwrite_same [OF d2] unfolding B .
  have "mread d' off (tmp + 8) = mread d1 off (tmp + 8)"
    by (rule mread_mwrite_disjoint [OF d2]) (use apart B in auto)
  then show "mread d' off (tmp + 8) = Some ?A" using mread_mwrite_same [OF d1] unfolding A(2) by simp
qed

text \<open>A cell in the buffer of the reader is read like the disk.\<close>

lemma cell_in_buffer:
  assumes "mread d q L = Some bs" and "mwrite buf pos bs = Some buf'" and "a + n \<le> L"
  shows "mread buf' (pos + a) n = mread d (q + a) n"
  using mread_part [OF assms(1,3)] mread_part [OF mread_mwrite_same [OF assms(2)], of a n] mread_length [OF assms(1)] assms(3)
  by simp

lemma header_fields:
  assumes "meta = readPacket r buf ts" and "rd_eth_header_len r \<le> length buf" and "length buf < 65536"
  shows "length (pm_header meta) = 16" and "hdr_caplen (pm_header meta) = pm_len meta" and "hdr_next (pm_header meta) = u32_max"
    and "rd_eth_header_len r + pm_len meta \<le> length (pm_data meta)" and "length (packet_payload r meta) = pm_len meta"
proof -
  let ?ts = "le_encode 4 (ts div 4294967296) @ le_encode 4 (ts mod 4294967296)"
  have m: "pm_len meta = length buf - rd_eth_header_len r" "pm_data meta = buf"
    "pm_header meta = ?ts @ le_encode 4 (pm_len meta) @ le_encode 4 u32_max"
    unfolding assms(1) readPacket_def Let_def using caplen_value [OF assms(2,3)] by simp_all
  have split: "take 4 (drop 8 (?ts @ x @ y)) = x" "take 4 (drop 12 (?ts @ x @ y)) = y" if "length x = 4" "length y = 4" for x y :: bytes
    using that by simp_all
  have "pm_len meta < 256 ^ 4" using m(1) assms(3) by simp
  then show "hdr_caplen (pm_header meta) = pm_len meta" "hdr_next (pm_header meta) = u32_max"
    unfolding hdr_caplen_def hdr_next_def m(3) split [OF length_le_encode length_le_encode] by (simp_all only: le_roundtrip) (simp add: le_decode_encode)
  show "length (pm_header meta) = 16" unfolding m(3) by simp
  show "rd_eth_header_len r + pm_len meta \<le> length (pm_data meta)" "length (packet_payload r meta) = pm_len meta"
    using m assms(2) by (simp_all add: packet_payload_def)
qed

text \<open>One packet that is not linked to another: the loop ends after its first round.\<close>

lemma readPackets_single:
  assumes ld: "pr_load rd cs (length buf div cs) (off div cs) \<lparr>pr_offsets = [off], pr_now = 0, pr_buffer = buf, pr_now_buffer = 0,
      pr_next_buffer = 0, pr_last_cell = u64_max, pr_out = []\<rparr> = Some (True, s1)"
    and s1: "pr_now s1 = 0" "pr_offsets s1 = [off]" "pr_out s1 = []"
    and fe: "pr_fetch rd cs junk (off mod cs) s1 = Some (Some (packet, u32_max, s2))"
    and s2: "pr_offsets s2 = [off]" "pr_out s2 = []"
  shows "readPackets (Suc n) rd cs junk buf [off] = Some [packet]"
proof -
  let ?s0 = "\<lparr>pr_offsets = [off], pr_now = 0, pr_buffer = buf, pr_now_buffer = 0, pr_next_buffer = 0,
      pr_last_cell = u64_max, pr_out = []\<rparr>"
  have "pr_round rd cs (length buf div cs) junk ?s0 = Some (True, s2\<lparr>pr_out := [packet], pr_now := 0 + 1\<rparr>)"
    using ld fe s2 by (simp add: pr_round_def)
  moreover have "pr_loop n rd cs sl junk s = Some s" if "pr_offsets s = [off]" "pr_now s = 1" for s sl
    using that by (cases n) simp_all
  ultimately show ?thesis using s2 by (simp add: readPackets_def)
qed

lemma two_prefixes:
  assumes "length j = n" and "length p = n" and "t \<le> n"
  shows "\<exists>p1. mwrite j 0 (take t p) = Some p1 \<and>
    mwrite p1 0 (take (n - t) p) = Some (take (max t (n - t)) p @ drop (max t (n - t)) j)"
proof -
  have w: "mwrite m 0 (take k p) = Some (take k p @ drop k m)" if "length m = n" "k \<le> n" for m k
    using that assms(2) by (simp add: mwrite_def)
  have "take (n - t) p @ drop (n - t) (take t p @ drop t j) = take (max t (n - t)) p @ drop (max t (n - t)) j"
  proof (cases "t \<le> n - t")
    case True
    then show ?thesis using assms by (simp add: max_def)
  next
    case False
    then have "take t p = take (n - t) p @ take (t - (n - t)) (drop (n - t) p)"
      using take_add [of "n - t" "t - (n - t)" p] by simp
    then show ?thesis using False assms by (simp add: max_def drop_take)
  qed
  then show ?thesis using w [of j t] w [of "take t p @ drop t j" "n - t"] assms by simp
qed

text \<open>The state of the reader after the first cell is loaded: the buffer begins with cell \<open>c0\<close>.\<close>

definition loaded :: "bytes \<Rightarrow> nat \<Rightarrow> nat \<Rightarrow> PacketReader \<Rightarrow> bool" where
  "loaded d cs c0 s \<longleftrightarrow> pr_now_buffer s = 0 \<and> pr_next_buffer s = 1 \<and> 2 * cs \<le> length (pr_buffer s) \<and> cs < U64 \<and>
     (\<forall>a n. a + n \<le> cs \<longrightarrow> mread (pr_buffer s) a n = mread d (c0 * cs + a) n)"

lemma load_next_cell:
  assumes s: "loaded d cs c0 s" and c1: "c1 * cs + cs \<le> length d"
  shows "\<exists>bs buf'. mread d (c1 * cs) cs = Some bs \<and> mwrite (pr_buffer s) cs bs = Some buf' \<and>
    (\<forall>a n. a + n \<le> cs \<longrightarrow> mread buf' a n = mread d (c0 * cs + a) n) \<and>
    (\<forall>a n. a + n \<le> cs \<longrightarrow> mread buf' (cs + a) n = mread d (c1 * cs + a) n)"
proof -
  obtain bs where bs: "mread d (c1 * cs) cs = Some bs" using c1 by (simp add: mread_def)
  have l: "length bs = cs" by (rule mread_length [OF bs])
  then obtain buf' where w: "mwrite (pr_buffer s) cs bs = Some buf'" using s by (auto simp: loaded_def mwrite_def)
  have "mread buf' a n = mread d (c0 * cs + a) n" if "a + n \<le> cs" for a n
    using mread_mwrite_disjoint [OF w, of a n] that s by (simp add: loaded_def)
  moreover have "mread buf' (cs + a) n = mread d (c1 * cs + a) n" if "a + n \<le> cs" for a n
    by (rule cell_in_buffer [OF bs w that])
  ultimately show ?thesis using bs w by blast
qed

lemma fetch_whole:
  assumes s: "loaded d cs c0 s" and fits: "w + 24 + len \<le> cs"
    and h: "length hdr = 16" "hdr_caplen hdr = len" "length payload = len"
    and d: "mread d (c0 * cs + w) (16 + len) = Some (hdr @ payload)"
  shows "pr_fetch rd cs junk w s = Some (Some (payload, hdr_next hdr, s))"
proof -
  have r: "mread (pr_buffer s) a n = mread d (c0 * cs + a) n" if "a + n \<le> cs" for a n
    using s that by (simp add: loaded_def)
  have 1: "mread (pr_buffer s) w 16 = Some hdr" using mread_part [OF d, of 0 16] r [of w 16] fits h by simp
  have 2: "mread (pr_buffer s) (w + 16) len = Some payload"
    using mread_part [OF d, of 16 len] r [of "w + 16" len] fits h by (simp add: add.assoc)
  show ?thesis using s fits 1 2 h(2) by (simp add: pr_fetch_def loaded_def)
qed

lemma fetch_header_split:
  assumes s: "loaded d cs c0 s" and w: "w + 8 \<le> cs" "cs < w + 24" and tmp: "tmp = cs - w - 8"
    and h: "length hdr = 16" "hdr_caplen hdr = len" "length payload = len"
    and c1: "c1 * cs + cs \<le> length d" "c1 < U64" and room: "16 - tmp + len \<le> cs"
    and d: "mread d (c0 * cs + w) (tmp + 8) = Some (take tmp hdr @ le_encode 8 c1)"
      "mread d (c1 * cs) (16 - tmp + len) = Some (drop tmp hdr @ payload)"
  shows "\<exists>buf'. pr_fetch (\<lambda>c. Some (mread d (c * cs) cs)) cs junk w s =
    Some (Some (payload, hdr_next hdr, s\<lparr>pr_buffer := buf'\<rparr>))"
proof -
  from load_next_cell [OF s c1(1)] obtain bs buf' where b: "mread d (c1 * cs) cs = Some bs"
    "mwrite (pr_buffer s) cs bs = Some buf'" "\<And>a n. a + n \<le> cs \<Longrightarrow> mread buf' a n = mread d (c0 * cs + a) n"
    "\<And>a n. a + n \<le> cs \<Longrightarrow> mread buf' (cs + a) n = mread d (c1 * cs + a) n" by blast
  have r: "mread (pr_buffer s) a n = mread d (c0 * cs + a) n" if "a + n \<le> cs" for a n
    using s that by (simp add: loaded_def)
  have t: "tmp < 16" "w + tmp = cs - 8" "8 \<le> cs" using w by (simp_all add: tmp)
  have cs: "cs < U64" using s by (simp add: loaded_def)
  have t2: "sub64 (sub64 cs w) 8 = tmp" using w cs by (simp add: tmp sub64_ge)
  have "mread d (c0 * cs + w + tmp) 8 = Some (le_encode 8 c1)" using mread_part [OF d(1), of tmp 8] t h by simp
  then have 1: "mread (pr_buffer s) (cs - 8) 8 = Some (le_encode 8 c1)"
    using r [of "cs - 8" 8] t by (simp add: add.assoc)
  have 2: "mread buf' w tmp = Some (take tmp hdr)"
    using mread_part [OF d(1), of 0 tmp] b(3) [of w tmp] w h t by (simp add: tmp)
  have 3: "mread buf' cs (16 - tmp) = Some (drop tmp hdr)"
    using mread_part [OF d(2), of 0 "16 - tmp"] b(4) [of 0 "16 - tmp"] room h by simp
  have 4: "mread buf' (cs + 16 - tmp) len = Some payload"
    using mread_part [OF d(2), of "16 - tmp" len] b(4) [of "16 - tmp" len] room h t by simp
  have c: "le_decode (le_encode 8 c1) = c1" using c1(2) by (intro le_roundtrip) simp
  show ?thesis using s w 1 2 3 4 c b(1,2) t2 h(2)
    by (intro exI [of _ buf']) (simp add: pr_fetch_def loaded_def not_le less_imp_le)
qed

lemma fetch_payload_split:
  assumes s: "loaded d cs c0 s" and w: "w + 24 \<le> cs" "cs < w + 24 + len" and t: "t = cs - w - 24"
    and h: "length hdr = 16" "hdr_caplen hdr = len" "length payload = len" "length (junk len) = len"
    and c1: "c1 * cs + cs \<le> length d" "c1 < U64" and room: "len \<le> cs"
    and d: "mread d (c0 * cs + w) (16 + t + 8) = Some (hdr @ take t payload @ le_encode 8 c1)"
      "mread d (c1 * cs) (len - t) = Some (take (len - t) payload)"
  shows "\<exists>buf'. pr_fetch (\<lambda>c. Some (mread d (c * cs) cs)) cs junk w s =
    Some (Some (take (max t (len - t)) payload @ drop (max t (len - t)) (junk len), hdr_next hdr, s\<lparr>pr_buffer := buf'\<rparr>))"
proof -
  from load_next_cell [OF s c1(1)] obtain bs buf' where b: "mread d (c1 * cs) cs = Some bs"
    "mwrite (pr_buffer s) cs bs = Some buf'" "\<And>a n. a + n \<le> cs \<Longrightarrow> mread buf' a n = mread d (c0 * cs + a) n"
    "\<And>a n. a + n \<le> cs \<Longrightarrow> mread buf' (cs + a) n = mread d (c1 * cs + a) n" by blast
  have r: "mread (pr_buffer s) a n = mread d (c0 * cs + a) n" if "a + n \<le> cs" for a n
    using s that by (simp add: loaded_def)
  have cs: "cs < U64" using s by (simp add: loaded_def)
  have tl: "t \<le> len" "w + 16 + t = cs - 8" using w by (simp_all add: t)
  have t2: "sub64 (sub64 (sub64 cs w) 8) 16 = t" "sub64 len t = len - t" using w cs room tl by (simp_all add: t sub64_ge)
  have 0: "mread (pr_buffer s) w 16 = Some hdr"
    using mread_part [OF d(1), of 0 16] r [of w 16] w h by simp
  have "mread d (c0 * cs + w + (16 + t)) 8 = Some (le_encode 8 c1)"
    using mread_part [OF d(1), of "16 + t" 8] h tl(1) by simp
  then have 1: "mread (pr_buffer s) (cs - 8) 8 = Some (le_encode 8 c1)"
    using r [of "cs - 8" 8] w tl by (simp add: add.assoc)
  have 2: "mread buf' (w + 16) t = Some (take t payload)"
    using mread_part [OF d(1), of 16 t] b(3) [of "w + 16" t] w h tl by (simp add: add.assoc)
  have 3: "mread buf' cs (len - t) = Some (take (len - t) payload)"
    using d(2) b(4) [of 0 "len - t"] room by simp
  from two_prefixes [OF h(4,3) tl(1)] obtain p1 where 4: "mwrite (junk len) 0 (take t payload) = Some p1"
    "mwrite p1 0 (take (len - t) payload) = Some (take (max t (len - t)) payload @ drop (max t (len - t)) (junk len))" by blast
  have c: "le_decode (le_encode 8 c1) = c1" using c1(2) by (intro le_roundtrip) simp
  show ?thesis using s w 0 1 2 3 4 c b(1,2) t2 h(2)
    by (intro exI [of _ buf']) (simp add: pr_fetch_def loaded_def not_le)
qed

section \<open>Combining sorted lists\<close>

lemma merge_intersect_inter: "sorted la \<Longrightarrow> sorted lb \<Longrightarrow> mset (merge_intersect la lb) = mset la \<inter># mset lb"
proof (induction la lb rule: merge_intersect.induct)
  case (1 a la b lb)
  have not: "x \<notin># mset ys" if "x < y" "sorted (y # ys)" for x y :: nat and ys
    using that by auto
  consider "a < b" | "b < a" | "a = b" by linarith
  then show ?case
  proof cases
    case 1
    then have "a \<notin># mset (b # lb)" using not [of a b lb] "1.prems" by auto
    then show ?thesis using 1 "1.IH"(1) "1.prems" by (simp add: inter_add_left1)
  next
    case 2
    then have "b \<notin># mset (a # la)" using not [of b a la] "1.prems" by auto
    then show ?thesis using 2 "1.IH"(2) "1.prems" by (simp add: inter_add_right1)
  next
    case 3
    then show ?thesis using "1.IH"(3) "1.prems" by simp
  qed
qed auto

lemma merge_join_Nil [simp]: "merge_join la [] = la"
  by (cases la) simp_all

lemma merge_join_union: "sorted la \<Longrightarrow> sorted lb \<Longrightarrow> mset (merge_join la lb) = mset la \<union># mset lb"
proof (induction la lb rule: merge_join.induct)
  case (1 a la b lb)
  have not: "x \<notin># mset ys" if "x < y" "sorted (y # ys)" for x y :: nat and ys
    using that by auto
  consider "a < b" | "b < a" | "a = b" by linarith
  then show ?case
  proof cases
    case 1
    then have "a \<notin># mset (b # lb)" using not [of a b lb] "1.prems" by auto
    then show ?thesis using 1 "1.IH"(1) "1.prems" by (simp add: sup_union_left1)
  next
    case 2
    then have "b \<notin># mset (a # la)" using not [of b a la] "1.prems" by auto
    then show ?thesis using 2 "1.IH"(2) "1.prems" by (simp add: sup_union_right1)
  next
    case 3
    then show ?thesis using "1.IH"(3) "1.prems" by (simp add: multiset_eq_iff)
  qed
qed auto

lemma merge_members: "set (merge_intersect la lb) \<subseteq> set la \<inter> set lb" "set (merge_join la lb) = set la \<union> set lb"
proof -
  show "set (merge_intersect la lb) \<subseteq> set la \<inter> set lb"
    by (induction la lb rule: merge_intersect.induct) (auto split: if_splits)
  show "set (merge_join la lb) = set la \<union> set lb"
    by (induction la lb rule: merge_join.induct) auto
qed

lemma merge_sorted:
  "sorted la \<Longrightarrow> sorted lb \<Longrightarrow> sorted (merge_intersect la lb)"
  "sorted la \<Longrightarrow> sorted lb \<Longrightarrow> sorted (merge_join la lb)"
proof -
  show "sorted (merge_intersect la lb)" if "sorted la" "sorted lb"
    using that
  proof (induction la lb rule: merge_intersect.induct)
    case (1 a la b lb)
    then show ?case using merge_members(1) [of la lb] by auto
  qed auto
  show "sorted (merge_join la lb)" if "sorted la" "sorted lb"
    using that
  proof (induction la lb rule: merge_join.induct)
    case (1 a la b lb)
    then show ?case by (auto simp: merge_members(2))
  qed auto
qed

lemma start_reader:
  assumes d: "length d = cells * cs" "c0 < cells" "0 < cs" "cells * cs < U64 div 2"
    and q: "2 * cs \<le> length qbuf" and w: "w < cs"
  shows "\<exists>s. pr_load (\<lambda>c. Some (mread d (c * cs) cs)) cs (length qbuf div cs) ((w + c0 * cs) div cs)
      \<lparr>pr_offsets = [w + c0 * cs], pr_now = 0, pr_buffer = qbuf, pr_now_buffer = 0,
       pr_next_buffer = 0, pr_last_cell = u64_max, pr_out = []\<rparr> = Some (True, s) \<and> loaded d cs c0 s \<and>
    pr_now s = 0 \<and> pr_offsets s = [w + c0 * cs] \<and> pr_out s = []"
proof -
  have "Suc c0 * cs \<le> cells * cs" using d(2) by (intro mult_le_mono1) simp
  then have le: "c0 * cs + cs \<le> length d" using d(1) by simp
  have cell: "(w + c0 * cs) div cs = c0" using w by simp
  have "c0 \<le> c0 * cs" "cs \<le> length d" using d(3) le by simp_all
  then have b: "c0 \<noteq> u64_max" "cs < U64" using le d(1,3,4) by linarith+
  have slots: "2 \<le> length qbuf div cs" using q d(3) by (simp add: less_eq_div_iff_mult_less_eq)
  obtain bs where bs: "mread d (c0 * cs) cs = Some bs" using le by (simp add: mread_def)
  then have "length bs = cs" by (rule mread_length)
  then obtain buf' where w: "mwrite qbuf 0 bs = Some buf'" using q by (auto simp: mwrite_def)
  have "mread buf' a n = mread d (c0 * cs + a) n" if "a + n \<le> cs" for a n
    using cell_in_buffer [OF bs w that] by simp
  then show ?thesis using bs w b slots q mwrite_length [OF w] unfolding cell
    by (simp add: pr_load_def loaded_def One_nat_def)
qed

lemma whole_packet_on_disk:
  assumes "length hdr = 16" and "apply_writes d [(hdr, off, idx), (payload, off + 16, flag)] = Some d'"
    and "off + 16 + length payload \<le> length d"
  shows "mread d' off (16 + length payload) = Some (hdr @ payload)" and "length d' = length d"
proof -
  let ?ws = "[(hdr, off, idx), (payload, off + 16, flag)]"
  have wb: "written_bytes ?ws = hdr @ payload" by (simp add: written_bytes_def)
  have "contiguous off ?ws" using assms(1) by simp
  from apply_contiguous [OF this, of d] assms have w: "mwrite d off (hdr @ payload) = Some d'"
    unfolding wb by simp
  show "mread d' off (16 + length payload) = Some (hdr @ payload)" using mread_mwrite_same [OF w] assms(1) by simp
  show "length d' = length d" by (rule mwrite_length [OF w])
qed

lemma cells_apart:
  "(a :: nat) \<noteq> b \<Longrightarrow> a * cs + cs \<le> b * cs \<or> b * cs + cs \<le> a * cs"
  using mult_le_mono1 [of "Suc a" b cs] mult_le_mono1 [of "Suc b" a cs] by (cases "a < b") auto

section \<open>Properties\<close>

text \<open>C4: a sorted block answers queries. After \<open>sortIndex\<close> of a range of port or IPv4 records, the
  binary search in the range returns, for every key, the values of exactly those records that were
  written with the key, each as often as it was written. The range search of sorted records
  returns the values with keys from the start key up to, but without, the end key.\<close>

theorem sorted_block_answers_queries:
  assumes ok: "ib_wf b" "std_sort_ok srt" "key_len \<in> {2, 4}" "len \<le> ib_buffer_size b"
      "start_pos mod ib_buffer_size b + len \<le> ib_buffer_size b + ib_block_size b"
    and pos: "N = ib_buffer_size b" "pos = start_pos mod N" "n = len div (key_len + 8)"
  shows "\<exists>b' vs. sortIndex srt b start_pos len key_len = Some (Inr b') \<and>
    binarySearch le_decode key_len (ring_read (ib_mem b') N pos len) len key [] = Some vs \<and>
    mset vs = image_mset (\<lambda>r. le_decode (drop key_len r))
      (filter_mset (\<lambda>r. record_key key_len r = key) (mset (chunks n (key_len + 8) (ring_read (ib_mem b) N pos len)))) \<and>
    (len < 4294967296 \<longrightarrow> (\<exists>ws. binarySearchRange le_decode key_len (ring_read (ib_mem b') N pos len) len key endKey = Some ws \<and>
       mset ws = image_mset (\<lambda>r. le_decode (drop key_len r))
         (filter_mset (\<lambda>r. key \<le> record_key key_len r \<and> record_key key_len r < endKey)
            (mset (chunks n (key_len + 8) (ring_read (ib_mem b) N pos len))))))"
proof -
  let ?sz = "key_len + 8" let ?old = "ring_read (ib_mem b) N pos len"
  obtain b' where b': "sortIndex srt b start_pos len key_len = Some (Inr b')"
    "mset (chunks n ?sz (ring_read (ib_mem b') N pos len)) = mset (chunks n ?sz ?old)"
    "sorted (map (record_key key_len) (chunks n ?sz (ring_read (ib_mem b') N pos len)))"
    using sortIndex_effect [OF ok(1,2) _ ok(4,5)] ok(3) pos by (auto simp: Let_def)
  let ?new = "ring_read (ib_mem b') N pos len"
  let ?rs = "chunks n ?sz ?new" and ?es = "entries le_decode key_len (chunks n ?sz ?new)"
  have le: "n * ?sz \<le> length ?new" by (simp add: pos(3))
  have sizes: "\<forall>r \<in> set ?rs. length r = ?sz" by (rule chunks_sizes [OF le])
  have cat: "concat ?rs @ drop (n * ?sz) ?new = ?new" unfolding chunks_concat [OF le] by simp
  have h: "holds_entries le_decode key_len ?new ?es"
    using holds_entries_concat [OF sizes, of le_decode "drop (n * ?sz) ?new"] unfolding cat .
  have srt: "sorted (map fst ?es)" using b'(3) by (simp add: entries_def o_def flip: record_key_def)
  have n: "len div ?sz = length ?es" by (simp add: entries_def chunks_length pos(3))
  have ms: "mset (map snd (filter (\<lambda>e. P (fst e)) ?es)) =
      image_mset (\<lambda>r. le_decode (drop key_len r)) (filter_mset (\<lambda>r. P (record_key key_len r)) (mset (chunks n ?sz ?old)))" for P
    by (simp add: entries_def filter_map o_def record_key_def flip: b'(2))
  have "binarySearchRange le_decode key_len ?new len key endKey =
      Some (map snd (filter (\<lambda>e. key \<le> fst e \<and> fst e < endKey) ?es))" if "len < 4294967296"
    using search_from [OF h srt, where lo = key and go = "\<lambda>k. \<not> k \<ge> endKey" and ret = "[]"] that n
    by (simp add: binarySearchRange_def not_le)
  then show ?thesis
    using b'(1) binarySearch_entries [OF h srt n, of key "[]"] ms [of "\<lambda>k. k = key"] ms [of "\<lambda>k. key \<le> k \<and> k < endKey"] by simp
qed

text \<open>C31: combining position lists. The intersection of two lists holds every position as often as both
  do, the union as often as one of them does, both sorted; duplicates are kept.\<close>

theorem positions_combined:
  "mset (intersect_pos la lb) = mset la \<inter># mset lb \<and> sorted (intersect_pos la lb) \<and>
   mset (join_pos la lb) = mset la \<union># mset lb \<and> sorted (join_pos la lb)"
  using merge_intersect_inter [of "sort la" "sort lb"] merge_join_union [of "sort la" "sort lb"]
    merge_sorted [of "sort la" "sort lb"]
  by (simp add: intersect_pos_def join_pos_def)

text \<open>C1: what a query reads back of a captured packet. When the writes of a packet have reached the
  disk, the reader that starts at the packet's offset returns its payload, whether the packet lies
  in one cell or its header was split by the end of the cell. When the end of the cell falls into
  the payload, both the writer and the reader place the second part at the wrong position, and the
  result is only a prefix of the payload, filled up with what the fresh memory held.\<close>

theorem captured_packet_read_back:
  assumes ok: "reader_ok r" and fits: "pm_len meta + 24 \<le> rd_cell_size r"
    and meta: "meta = readPacket r buf ts" "rd_eth_header_len r \<le> length buf" "length buf < 65536"
    and off: "getOffset r meta = (off, r1)"
    and ws: "packet_writes r1 next_cell meta off idx = Some (r2, next', ws)"
    and other: "rd_writeOffset r + pm_len meta + 24 \<le> rd_cell_size r \<or> rd_writeCell r2 \<noteq> rd_writeCell r"
    and disk: "length d = rd_disk_size r" "apply_writes d ws = Some d'"
    and reader: "cs = rd_cell_size r" "2 * cs \<le> length qbuf" "\<forall>n. length (junk n) = n" "0 < fuel"
    and k: "k = max (cs - rd_writeOffset r - 24) (pm_len meta - (cs - rd_writeOffset r - 24))"
  shows "readPackets fuel (\<lambda>c. Some (mread d' (c * cs) cs)) cs junk qbuf [off] =
    Some [if rd_writeOffset r + 24 \<le> cs \<and> cs < rd_writeOffset r + 24 + pm_len meta
          then take k (packet_payload r meta) @ drop k (junk (pm_len meta))
          else packet_payload r meta]"
proof -
  let ?w = "rd_writeOffset r" and ?c0 = "rd_writeCell r" and ?len = "pm_len meta" and ?pay = "packet_payload r meta"
    and ?h = "pm_header meta" and ?rd = "\<lambda>c. Some (mread d' (c * cs) cs)"
  note h = header_fields [OF meta]
  have r: "rd_disk_size r = rd_cell_num r * cs" "rd_disk_size r < U64 div 2" "?w + 8 \<le> cs" "?c0 < rd_cell_num r" "0 < cs"
    using ok by (simp_all add: reader_ok_def reader(1))
  have o: "off = ?w + ?c0 * cs" using off getOffset_value [OF ok fits] by (simp add: reader(1))
  have c0: "?c0 * cs + cs \<le> length d" using reader_arith(3) [OF ok r(4)] disk(1) by (simp add: reader(1))
  have d: "length d' = length d \<Longrightarrow> length d' = rd_cell_num r * cs" using disk(1) r(1) by simp
  obtain n where n: "fuel = Suc n" using reader(4) by (cases fuel) auto
  have w: "?w < cs" "off mod cs = ?w" using r(3) o by simp_all
  have go: "readPackets fuel ?rd cs junk qbuf [off] = Some [packet]"
    if l: "length d' = length d" and f: "\<And>s. loaded d' cs ?c0 s \<Longrightarrow> \<exists>buf'. pr_fetch ?rd cs junk ?w s =
      Some (Some (packet, hdr_next ?h, s\<lparr>pr_buffer := buf'\<rparr>))" for packet
  proof -
    from start_reader [OF d [OF l] r(4,5) _ reader(2) w(1)] r(1,2) obtain s where
      s: "pr_load ?rd cs (length qbuf div cs) (off div cs) \<lparr>pr_offsets = [off], pr_now = 0, pr_buffer = qbuf, pr_now_buffer = 0,
        pr_next_buffer = 0, pr_last_cell = u64_max, pr_out = []\<rparr> = Some (True, s)"
      "loaded d' cs ?c0 s" "pr_now s = 0" "pr_offsets s = [off]" "pr_out s = []" unfolding o by auto
    from f [OF s(2)] obtain buf' where "pr_fetch ?rd cs junk (off mod cs) s = Some (Some (packet, u32_max, s\<lparr>pr_buffer := buf'\<rparr>))"
      using h(3) w(2) by auto
    from readPackets_single [OF s(1,3,4,5) this] s(4,5) show ?thesis by (simp add: n)
  qed
  show ?thesis
  proof (cases "?w + ?len + 24 \<le> cs")
    case True
    then have wr: "ws = [(?h, off, idx), (?pay, off + 16, False)]"
      using packet_writes_value [OF ok fits h(4,1) off refl refl, of next_cell idx] ws by (simp add: reader(1))
    have room: "off + 16 + length ?pay \<le> length d" using True c0 h(5) by (simp add: o)
    note p = whole_packet_on_disk [OF h(1) disk(2) [unfolded wr] room]
    have "pr_fetch ?rd cs junk ?w s = Some (Some (?pay, hdr_next ?h, s))" if "loaded d' cs ?c0 s" for s
      by (rule fetch_whole [OF that _ h(1,2,5)]) (use True p(1) h(5) in \<open>simp_all add: o add.commute\<close>)
    then have "\<exists>buf'. pr_fetch ?rd cs junk ?w s = Some (Some (?pay, hdr_next ?h, s\<lparr>pr_buffer := buf'\<rparr>))"
      if "loaded d' cs ?c0 s" for s using that by (intro exI [of _ "pr_buffer s"]) simp
    from go [OF p(2) this] True show ?thesis by simp
  next
    case False
    let ?tmp = "cs - ?w - 8" and ?c1 = "rd_writeCell r2"
    note sp = packet_writes_split [OF ok fits h(4,1) off ws False [unfolded reader(1)] refl, folded reader(1)]
    have c1n: "?c1 < rd_cell_num r" using r(4) by (simp add: sp(2))
    have c1: "?c1 * cs + cs \<le> length d" using reader_arith(3) [OF ok c1n] disk(1) by (simp add: reader(1))
    have "?c1 \<le> ?c1 * cs" using r(5) by simp
    then have c1u: "?c1 < U64" using c1 disk(1) r(2) by linarith
    have ap: "?c0 * cs + cs \<le> ?c1 * cs \<or> ?c1 * cs + cs \<le> ?c0 * cs" using other False by (intro cells_apart) (auto simp: reader(1))
    have tl: "?tmp \<le> length ?pay + 16" using sp(4) h(5) by simp
    have part: "length ?pay + 16 - ?tmp \<le> cs" "off + ?tmp + 8 = ?c0 * cs + cs" using fits r(3) h(5) by (simp_all add: reader(1) o)
    have rooms: "off + ?tmp + 8 \<le> length d" "?c1 * cs + (length ?pay + 16 - ?tmp) \<le> length d"
      "off + ?tmp + 8 \<le> ?c1 * cs \<or> ?c1 * cs + (length ?pay + 16 - ?tmp) \<le> off"
      using part c0 c1 ap by (auto simp: o)
    note p = split_packet_on_disk [OF h(1) tl sp(1) _ disk(2) rooms, unfolded h(5)]
    have dl: "length d' = length d" "?c1 * cs + cs \<le> length d'" using p(3) c1 by simp_all
    show ?thesis
    proof (cases "?tmp < 16")
      case True
      have "\<exists>buf'. pr_fetch ?rd cs junk ?w s = Some (Some (?pay, hdr_next ?h, s\<lparr>pr_buffer := buf'\<rparr>))"
        if "loaded d' cs ?c0 s" for s
        by (rule fetch_header_split [OF that r(3) _ refl h(1,2,5) dl(2) c1u])
           (use True p part h in \<open>simp_all add: o ac_simps less_diff_conv2\<close>)
      from go [OF dl(1) this] True r(3) show ?thesis by (simp add: less_diff_conv2)
    next
      case F2: False
      let ?t = "cs - ?w - 24"
      have t: "?tmp = 16 + ?t" "?w + 24 \<le> cs" using F2 r(3) by simp_all
      have "\<exists>buf'. pr_fetch ?rd cs junk ?w s = Some (Some (take k ?pay @ drop k (junk ?len), hdr_next ?h, s\<lparr>pr_buffer := buf'\<rparr>))"
        if "loaded d' cs ?c0 s" for s
        unfolding k
        by (rule fetch_payload_split [where junk = junk and len = ?len, OF that t(2) _ refl h(1,2,5) _ dl(2) c1u])
           (use F2 False p fits h t reader(3) in \<open>simp_all add: o ac_simps reader(1)\<close>)
      from go [OF dl(1) this] False t(2) show ?thesis by simp
    qed
  qed
qed

section \<open>Witnesses\<close>

text \<open>Two port records: port 443 with the value 7 and port 80 with the value 9.\<close>

definition two_records :: bytes where
  "two_records = [187, 1, 7, 0, 0, 0, 0, 0, 0, 0, 80, 0, 9, 0, 0, 0, 0, 0, 0, 0]"

definition search_blocks :: IndexBlockBuffer where
  "search_blocks = example_index_blocks\<lparr>ib_mem := two_records @ replicate 60 0\<rparr>"

theorem sorted_block_answers_queries_witness:
  "\<exists>b'. sortIndex sort_by search_blocks 0 20 2 = Some (Inr b') \<and>
     binarySearch le_decode 2 (ring_read (ib_mem b') 64 0 20) 20 80 [] = Some [9]"
proof -
  have wf: "ib_wf search_blocks" using example_index_blocks_wf
    by (simp add: ib_wf_def search_blocks_def example_index_blocks_def two_records_def)
  have e: "64 = ib_buffer_size search_blocks" "0 = (0 :: nat) mod 64" "2 = (20 :: nat) div (2 + 8)" "ib_block_size search_blocks = 16"
    by (simp_all add: search_blocks_def example_index_blocks_def)
  have old: "chunks 2 (2 + 8) (ring_read (ib_mem search_blocks) 64 0 20) = [take 10 two_records, drop 10 two_records]"
    by (simp add: search_blocks_def two_records_def ring_read_def upt_rec numeral_2_eq_2 nth_append)
  have k: "record_key 2 (take 10 two_records) = 443" "record_key 2 (drop 10 two_records) = 80"
    "le_decode (drop 2 (drop 10 two_records)) = 9"
    by (simp_all add: record_key_def two_records_def One_nat_def)
  from sorted_block_answers_queries [OF wf sort_by_ok, of 2 20 0 64 0 2 80 443] e old k
  obtain b' vs where "sortIndex sort_by search_blocks 0 20 2 = Some (Inr b')"
    "binarySearch le_decode 2 (ring_read (ib_mem b') 64 0 20) 20 80 [] = Some vs" "mset vs = {#9#}" by auto
  then show ?thesis by auto
qed

lemma apply_writes_total:
  "\<forall>(bs, pos, flag) \<in> set ws. pos + length bs \<le> length d \<Longrightarrow> \<exists>d'. apply_writes d ws = Some d'"
proof (induction ws arbitrary: d)
  case (Cons w ws)
  obtain bs pos flag where w: "w = (bs, pos, flag)" by (cases w)
  with Cons.prems obtain d1 where d1: "mwrite d pos bs = Some d1" by (auto simp: mwrite_def)
  then have "length d1 = length d" by (rule mwrite_length)
  with Cons w d1 show ?case by auto
qed simp

text \<open>The header of this packet is split by the end of the cell.\<close>

theorem captured_packet_read_back_witness:
  "\<exists>r1 r2 next' ws d'. getOffset (example_reader 50) (readPacket (example_reader 50) example_packet 7) = (114, r1) \<and>
     packet_writes r1 5 (readPacket (example_reader 50) example_packet 7) 114 True = Some (r2, next', ws) \<and>
     apply_writes (replicate 1024 0) ws = Some d' \<and>
     readPackets 9 (\<lambda>c. Some (mread d' (c * 64) 64)) 64 (\<lambda>n. replicate n 0) (replicate 192 0) [114] = Some [drop 14 example_packet]"
proof -
  let ?r = "example_reader 50" and ?m = "readPacket (example_reader 50) example_packet 7"
  have ok: "reader_ok ?r" by (rule example_reader_ok) simp
  have pre: "pm_len ?m + 24 \<le> rd_cell_size ?r" "rd_eth_header_len ?r + pm_len ?m \<le> length (pm_data ?m)"
    "length (pm_header ?m) = 16" "rd_eth_header_len ?r \<le> length example_packet" "length example_packet < 65536"
    by (simp_all add: example_meta)
  obtain r1 where off: "getOffset ?r ?m = (114, r1)" using getOffset_value [OF ok pre(1)] by (simp add: example_meta)
  obtain r2 next' ws where ws: "packet_writes r1 5 ?m 114 True = Some (r2, next', ws)"
    using packet_writes_value [OF ok pre(1-3) off refl refl, of 5 True] by (simp add: example_meta)
  have split: "\<not> rd_writeOffset ?r + pm_len ?m + 24 \<le> rd_cell_size ?r" by (simp add: example_meta)
  note sp = packet_writes_split [OF ok pre(1-3) off ws split refl]
  have c: "rd_writeCell r2 = 5" using sp(2) by (simp add: example_meta)
  have "\<forall>(bs, pos, flag) \<in> set ws. pos + length bs \<le> length (replicate 1024 (0 :: byte))"
    using sp(1,5) unfolding c by (simp add: front_writes_def rest_writes_def example_meta)
  then obtain d' where d': "apply_writes (replicate 1024 0) ws = Some d'" using apply_writes_total by blast
  have other: "rd_writeOffset ?r + pm_len ?m + 24 \<le> rd_cell_size ?r \<or> rd_writeCell r2 \<noteq> rd_writeCell ?r"
    and len: "length (replicate 1024 (0 :: byte)) = rd_disk_size ?r" "64 = rd_cell_size ?r" "2 * 64 \<le> length (replicate 192 (0 :: byte))"
      "\<forall>n. length (replicate n (0 :: byte)) = n" "(0 :: nat) < 9"
    unfolding length_replicate c by (simp_all add: example_meta) (simp add: example_reader_def)
  have no: "\<not> (rd_writeOffset ?r + 24 \<le> 64 \<and> 64 < rd_writeOffset ?r + 24 + pm_len ?m)" by (simp add: example_meta)
  have "readPackets 9 (\<lambda>c. Some (mread d' (c * 64) 64)) 64 (\<lambda>n. replicate n 0) (replicate 192 0) [114] =
      Some [packet_payload ?r ?m]"
    using captured_packet_read_back [OF ok pre(1) refl pre(4,5) off ws other len(1) d' len(2-5) refl]
    unfolding if_not_P [OF no] .
  moreover have "packet_payload ?r ?m = drop 14 example_packet" by (simp add: packet_payload_def example_meta)
  ultimately show ?thesis using off ws d' by auto
qed

end
