(* ===== verification/QueryExpr.thy ===== *)
theory QueryExpr
  imports QuerySearch
begin

text \<open>
  The query language of \<^verbatim>\<open>dpdk_component/querier.cpp\<close>: the splitting of an expression into tokens, the
  checks of single tokens (the regular expressions are matched by derivatives), the two grammar
  checks, the evaluation of a token list with its two stacks, and the outer functions of the
  querier. Reading the last character of an empty string is undefined in C++; the character found
  there is the parameter \<open>junk\<close>. Taking the top of an empty stack is \<open>None\<close> in the grammar check and a
  fault of the evaluation.
\<close>

declare One_nat_def [simp del]

section \<open>Tokens\<close>

definition str_back :: "char \<Rightarrow> string \<Rightarrow> char" where
  "str_back junk s = (if s = [] then junk else last s)"

text \<open>The macro \<open>PUSH_TMP\<close>; \<open>None\<close> is its return of an empty list.\<close>

definition push_tmp :: "string list \<times> string \<Rightarrow> (string list \<times> string) option" where
  "push_tmp = (\<lambda>(exp_list, tmp).
     if tmp = [] then Some (exp_list, tmp)
     else if last tmp \<in> set ''=|&^'' then None
     else Some (exp_list @ [tmp], []))"

definition split_char :: "char \<Rightarrow> char \<Rightarrow> string list \<times> string \<Rightarrow> (string list \<times> string) option" where
  "split_char junk c s =
     (let op = str_back junk (snd s);
          s1 = (if c \<noteq> CHR ''='' \<and> op \<in> set ''!<>'' then (fst s @ [snd s], []) else s);
          op1 = str_back junk (snd s1)
      in if c = CHR '' '' then push_tmp s1
         else if c \<in> set ''(){}[],'' then do { (exp_list, tmp) \<leftarrow> push_tmp s1; Some (exp_list @ [tmp @ [c]], []) }
         else if c \<in> set ''!<>'' then do { (exp_list, tmp) \<leftarrow> push_tmp s1; Some (exp_list, tmp @ [c]) }
         else if c = CHR ''='' then
           (if op1 \<in> set ''!<>='' then Some (fst s1 @ [snd s1 @ [c]], [])
            else do { (exp_list, tmp) \<leftarrow> push_tmp s1; Some (exp_list, tmp @ [c]) })
         else if c \<in> set ''|&^'' then
           (if op1 = c then Some (fst s1 @ [snd s1 @ [c]], [])
            else do { (exp_list, tmp) \<leftarrow> push_tmp s1; Some (exp_list, tmp @ [c]) })
         else Some (fst s1, snd s1 @ [c]))"

fun split_chars :: "char \<Rightarrow> string \<Rightarrow> string list \<times> string \<Rightarrow> (string list \<times> string) option" where
  "split_chars junk [] s = push_tmp s"
| "split_chars junk (c # cs) s = do { s' \<leftarrow> split_char junk c s; split_chars junk cs s' }"

definition splitExpression :: "char \<Rightarrow> string \<Rightarrow> string list" where
  "splitExpression junk originExpression =
     (case split_chars junk originExpression ([], []) of None \<Rightarrow> [] | Some (exp_list, tmp) \<Rightarrow> exp_list)"

section \<open>Regular expressions\<close>

text \<open>\<open>std::regex_match\<close> tests whether the whole string is in the language of the expression.\<close>

datatype rx = Rx_none | Rx_eps | Rx_chars "char \<Rightarrow> bool" | Rx_alt rx rx | Rx_seq rx rx | Rx_star rx

fun rx_null :: "rx \<Rightarrow> bool" where
  "rx_null Rx_none = False"
| "rx_null Rx_eps = True"
| "rx_null (Rx_chars p) = False"
| "rx_null (Rx_alt r s) = (rx_null r \<or> rx_null s)"
| "rx_null (Rx_seq r s) = (rx_null r \<and> rx_null s)"
| "rx_null (Rx_star r) = True"

fun rx_deriv :: "char \<Rightarrow> rx \<Rightarrow> rx" where
  "rx_deriv c Rx_none = Rx_none"
| "rx_deriv c Rx_eps = Rx_none"
| "rx_deriv c (Rx_chars p) = (if p c then Rx_eps else Rx_none)"
| "rx_deriv c (Rx_alt r s) = Rx_alt (rx_deriv c r) (rx_deriv c s)"
| "rx_deriv c (Rx_seq r s) =
     (if rx_null r then Rx_alt (Rx_seq (rx_deriv c r) s) (rx_deriv c s) else Rx_seq (rx_deriv c r) s)"
| "rx_deriv c (Rx_star r) = Rx_seq (rx_deriv c r) (Rx_star r)"

definition regex_match :: "string \<Rightarrow> rx \<Rightarrow> bool" where
  "regex_match s r = rx_null (fold rx_deriv s r)"

definition rx_char :: "char \<Rightarrow> rx" where
  "rx_char c = Rx_chars (\<lambda>d. d = c)"

definition rx_class :: "string \<Rightarrow> rx" where
  "rx_class cs = Rx_chars (\<lambda>d. d \<in> set cs)"

definition rx_opt :: "rx \<Rightarrow> rx" where
  "rx_opt r = Rx_alt r Rx_eps"

fun rx_alts :: "rx list \<Rightarrow> rx" where
  "rx_alts [] = Rx_none"
| "rx_alts [r] = r"
| "rx_alts (r # rs) = Rx_alt r (rx_alts rs)"

fun rx_seqs :: "rx list \<Rightarrow> rx" where
  "rx_seqs [] = Rx_eps"
| "rx_seqs [r] = r"
| "rx_seqs (r # rs) = Rx_seq r (rx_seqs rs)"

text \<open>The repetition \<open>r{m,n}\<close>.\<close>

definition rx_rep :: "nat \<Rightarrow> nat \<Rightarrow> rx \<Rightarrow> rx" where
  "rx_rep m n r = rx_seqs (replicate m r @ replicate (n - m) (rx_opt r))"

definition rx_digit :: rx where
  "rx_digit = rx_class ''0123456789''"

definition rx_hex :: rx where
  "rx_hex = rx_class ''0123456789ABCDEFabcdef''"

definition rx_letter :: rx where
  "rx_letter = rx_class ''abcdefghijklmnopqrstuvwxyzABCDEFGHIJKLMNOPQRSTUVWXYZ''"

definition rx_space :: rx where
  "rx_space = Rx_chars is_space"

section \<open>Kinds of tokens\<close>

text \<open>The loop with its flags: a number, a dot, a sign has been seen; \<open>prev\<close> is the character before.\<close>

fun numeric_loop :: "char option \<Rightarrow> bool \<Rightarrow> bool \<Rightarrow> bool \<Rightarrow> string \<Rightarrow> bool" where
  "numeric_loop prev numSeen dotSeen signSeen [] = numSeen"
| "numeric_loop prev numSeen dotSeen signSeen (c # cs) =
     (if is_digit c then numeric_loop (Some c) True dotSeen signSeen cs
      else if c = CHR ''.'' then (if dotSeen then False else numeric_loop (Some c) numSeen True signSeen cs)
      else if c = CHR ''-'' then
        (if signSeen \<or> numSeen \<or> (dotSeen \<and> prev \<noteq> None \<and> prev \<noteq> Some (CHR ''.'')) then False
         else numeric_loop (Some c) numSeen dotSeen True cs)
      else False)"

definition isNumeric :: "string \<Rightarrow> bool" where
  "isNumeric s = numeric_loop None False False False s"

definition octet_rx :: rx where
  "octet_rx = rx_alts [rx_seqs [rx_char (CHR ''2''), rx_char (CHR ''5''), rx_class ''012345''],
     rx_seqs [rx_char (CHR ''2''), rx_class ''01234'', rx_digit],
     rx_seqs [rx_opt (rx_class ''01''), rx_digit, rx_opt rx_digit]]"

definition mask4_rx :: rx where
  "mask4_rx = rx_alts [rx_seqs [rx_char (CHR ''3''), rx_class ''012''], rx_seqs [rx_opt (rx_class ''12''), rx_digit]]"

definition isValidIPv4 :: "string \<Rightarrow> bool" where
  "isValidIPv4 ip = regex_match ip
     (rx_seqs [rx_rep 3 3 (Rx_seq octet_rx (rx_char (CHR ''.''))), octet_rx,
        rx_opt (Rx_seq (rx_char (CHR ''/'')) mask4_rx)])"

text \<open>The parts of the expression for IPv6 addresses: a group of hexadecimal digits, an embedded IPv4
  address, and the eight alternatives with seven, six, \<open>\<dots>\<close>, no groups before the gap.\<close>

definition group_rx :: rx where
  "group_rx = rx_rep 1 4 rx_hex"

definition cgroup_rx :: rx where
  "cgroup_rx = Rx_seq (rx_char (CHR '':'')) group_rx"

definition groupc_rx :: rx where
  "groupc_rx = Rx_seq group_rx (rx_char (CHR '':''))"

definition dec_octet_rx :: rx where
  "dec_octet_rx = rx_alts [rx_seqs [rx_char (CHR ''2''), rx_char (CHR ''5''), rx_class ''012345''],
     rx_seqs [rx_char (CHR ''2''), rx_class ''01234'', rx_digit],
     rx_seqs [rx_char (CHR ''1''), rx_digit, rx_digit],
     rx_seqs [rx_opt (rx_class ''123456789''), rx_digit]]"

definition dotted_rx :: rx where
  "dotted_rx = Rx_seq dec_octet_rx (rx_rep 3 3 (Rx_seq (rx_char (CHR ''.'')) dec_octet_rx))"

definition colon_rx :: rx where
  "colon_rx = rx_char (CHR '':'')"

definition ipv6_alternatives :: rx where
  "ipv6_alternatives = rx_alts [
     Rx_seq (rx_rep 7 7 groupc_rx) (Rx_alt group_rx colon_rx),
     Rx_seq (rx_rep 6 6 groupc_rx) (rx_alts [cgroup_rx, dotted_rx, colon_rx]),
     Rx_seq (rx_rep 5 5 groupc_rx) (rx_alts [rx_rep 1 2 cgroup_rx, Rx_seq colon_rx dotted_rx, colon_rx]),
     Rx_seq (rx_rep 4 4 groupc_rx) (rx_alts [rx_rep 1 3 cgroup_rx, rx_seqs [rx_opt cgroup_rx, colon_rx, dotted_rx], colon_rx]),
     Rx_seq (rx_rep 3 3 groupc_rx) (rx_alts [rx_rep 1 4 cgroup_rx, rx_seqs [rx_rep 0 2 cgroup_rx, colon_rx, dotted_rx], colon_rx]),
     Rx_seq (rx_rep 2 2 groupc_rx) (rx_alts [rx_rep 1 5 cgroup_rx, rx_seqs [rx_rep 0 3 cgroup_rx, colon_rx, dotted_rx], colon_rx]),
     Rx_seq (rx_rep 1 1 groupc_rx) (rx_alts [rx_rep 1 6 cgroup_rx, rx_seqs [rx_rep 0 4 cgroup_rx, colon_rx, dotted_rx], colon_rx]),
     Rx_seq colon_rx (rx_alts [rx_rep 1 7 cgroup_rx, rx_seqs [rx_rep 0 5 cgroup_rx, colon_rx, dotted_rx], colon_rx])]"

definition mask6_rx :: rx where
  "mask6_rx = rx_alts [rx_class ''123456789'', Rx_seq (rx_class ''123456789'') rx_digit,
     rx_alts [rx_seqs [rx_char (CHR ''1''), rx_class ''01'', rx_digit],
       rx_seqs [rx_char (CHR ''1''), rx_char (CHR ''2''), rx_class ''012345678'']]]"

definition isValidIPv6 :: "string \<Rightarrow> bool" where
  "isValidIPv6 ip = regex_match ip
     (Rx_star (rx_seqs [
        rx_seqs [Rx_star rx_space, ipv6_alternatives,
          rx_opt (Rx_seq (rx_char (CHR ''%''))
            (Rx_seq (Rx_chars (\<lambda>c. c \<noteq> CHR 0x0A \<and> c \<noteq> CHR 0x0D)) (Rx_star (Rx_chars (\<lambda>c. c \<noteq> CHR 0x0A \<and> c \<noteq> CHR 0x0D))))),
          Rx_star rx_space],
        rx_rep 0 1 (Rx_seq (rx_char (CHR ''/'')) mask6_rx)]))"

definition isValidMACAddress :: "string \<Rightarrow> bool" where
  "isValidMACAddress address = regex_match address
     (Rx_alt (Rx_seq (rx_rep 5 5 (Rx_seq (rx_rep 2 2 rx_hex) (rx_class '':-''))) (rx_rep 2 2 rx_hex)) (rx_rep 12 12 rx_hex))"

definition isBoolean :: "string \<Rightarrow> bool" where
  "isBoolean s \<longleftrightarrow> s = ''true'' \<or> s = ''false'' \<or> s = ''1'' \<or> s = ''0''"

definition isString :: "string \<Rightarrow> bool" where
  "isString s \<longleftrightarrow> length s \<ge> 2 \<and> hd s = CHR 0x22 \<and> last s = CHR 0x22"

definition isVar :: "string \<Rightarrow> bool" where
  "isVar str = regex_match str
     (let word = Rx_seq rx_letter (Rx_star (Rx_alt rx_letter rx_digit))
      in Rx_seq word (Rx_star (Rx_seq (rx_char (CHR ''.'')) word)))"

definition isValue :: "string \<Rightarrow> bool" where
  "isValue s \<longleftrightarrow> isNumeric s \<or> isValidIPv4 s \<or> isValidIPv6 s \<or> isValidMACAddress s \<or> isBoolean s \<or> isString s"

definition isSlice :: "string \<Rightarrow> bool" where
  "isSlice s = regex_match s
     (rx_seqs [Rx_star rx_digit, colon_rx, Rx_star rx_digit, rx_opt (Rx_seq colon_rx (Rx_star rx_digit))])"

section \<open>The grammar\<close>

datatype LastType = EMPTY | VAR | OP | CON | EXP | BRACKET | SQUARE_BRACKET | SLICE | IN | BRACE | VALUE | COMMA
  | LAST_TYPE_NUM

text \<open>One token: the outer option is the access to an empty stack, the inner one the answer false.\<close>

definition close_with :: "string list \<Rightarrow> LastType \<Rightarrow> LastType set \<Rightarrow> LastType \<Rightarrow> (string list \<times> LastType) option option" where
  "close_with stack lastType allowed next_type =
     (case stack of [] \<Rightarrow> None
      | opened # rest \<Rightarrow> Some (if opened \<noteq> ''('' \<and> lastType \<notin> allowed then None else Some (rest, next_type)))"

definition grammar_step :: "string \<Rightarrow> string list \<times> LastType \<Rightarrow> (string list \<times> LastType) option option" where
  "grammar_step s = (\<lambda>(stack, lastType).
     let need = (\<lambda>allowed stack' next_type. Some (if lastType \<in> allowed then Some (stack', next_type) else None)) in
     if s = ''!'' then need {EMPTY, CON, BRACKET} stack CON
     else if s = ''('' then need {EMPTY, CON, BRACKET} (s # stack) BRACKET
     else if s = ''{'' then need {IN} (s # stack) BRACE
     else if s = ''['' then need {VAR} (s # stack) SQUARE_BRACKET
     else if s = '')'' then close_with stack lastType {EXP, BRACKET} EXP
     else if s = ''}'' then close_with stack lastType {VALUE} EXP
     else if s = '']'' then close_with stack lastType {SLICE} VAR
     else if s \<in> {''=='', ''!='', ''>'', ''<'', ''>='', ''<='', ''contains''} then need {VAR} stack OP
     else if s \<in> {''||'', ''&&'', ''^^''} then need {VAR, EXP} stack CON
     else if s = ''in'' then need {VAR} stack IN
     else if s = '','' then need {VALUE} stack COMMA
     else if isSlice s then need {SQUARE_BRACKET} stack SLICE
     else if isVar s then need {EMPTY, CON, BRACKET} stack VAR
     else if isValue s then
       (if lastType = OP then Some (Some (stack, EXP)) else need {BRACE, COMMA} stack VALUE)
     else Some None)"

fun grammar_loop :: "string list \<Rightarrow> string list \<times> LastType \<Rightarrow> bool option" where
  "grammar_loop [] (stack, lastType) = Some (stack = [])"
| "grammar_loop (s # exp_list) state = do {
     r \<leftarrow> grammar_step s state;
     case r of None \<Rightarrow> Some False | Some state' \<Rightarrow> grammar_loop exp_list state' }"

definition grammarVerify :: "string list \<Rightarrow> bool option" where
  "grammarVerify exp_list = grammar_loop exp_list ([], EMPTY)"

fun simply_loop :: "nat \<Rightarrow> string list \<Rightarrow> bool" where
  "simply_loop exp_status [] = True"
| "simply_loop exp_status (s # exp_list) =
     (if isVar s then (if exp_status \<noteq> 0 then False else simply_loop 1 exp_list)
      else if s = ''=='' then (if exp_status \<noteq> 1 then False else simply_loop 2 exp_list)
      else if isValue s then (if exp_status \<noteq> 2 then False else simply_loop 0 exp_list)
      else if s \<in> {''('', '')'', ''||'', ''&&''} then (if exp_status \<noteq> 0 then False else simply_loop exp_status exp_list)
      else False)"

definition grammarVerifySimply :: "string list \<Rightarrow> bool" where
  "grammarVerifySimply exp_list = simply_loop 0 exp_list"

record QueryTree =
  qt_originExpression :: string
  qt_expList :: "string list"

definition inputExpression :: "char \<Rightarrow> QueryTree \<Rightarrow> string \<Rightarrow> (bool \<times> QueryTree) option" where
  "inputExpression junk t exp =
     (let t1 = t\<lparr>qt_originExpression := exp\<rparr>;
          exp_list = splitExpression junk exp
      in if exp_list = [] then Some (False, t1)
         else do {
           ok \<leftarrow> grammarVerify exp_list;
           if \<not> ok then Some (False, t1)
           else if \<not> grammarVerifySimply exp_list then Some (False, t1)
           else Some (True, t1\<lparr>qt_expList := exp_list\<rparr>) })"

section \<open>Evaluation\<close>

datatype search_fault = Empty_stack | Shift_out_of_range | Address_not_set | Bad_number conversion_error | Lookup_undefined

text \<open>The two lookups by key and by range; \<open>'q\<close> is the state of the querier.\<close>

record 'q lookups =
  lk_index :: "AtomKey \<Rightarrow> 'q \<Rightarrow> (Answer list \<times> 'q) option"
  lk_range :: "AtomKey \<Rightarrow> AtomKey \<Rightarrow> 'q \<Rightarrow> (Answer list \<times> 'q) option"

text \<open>\<open>aton\<close> is \<open>inet_aton\<close> followed by \<open>ntohl\<close>; when it fails, the variable stays without a value.\<close>

definition find_value :: "(string \<Rightarrow> nat option) \<Rightarrow> 'q lookups \<Rightarrow> nat \<Rightarrow> IndexType \<Rightarrow> string \<Rightarrow> 'q \<Rightarrow>
    search_fault + (Answer list \<times> 'q)" where
  "find_value aton lk wait_for_value cachePos s q =
     (let run = (\<lambda>r. case r of None \<Rightarrow> Inl Lookup_undefined | Some x \<Rightarrow> Inr x) in
      if wait_for_value = 2
      then (case stoul s of Inl e \<Rightarrow> Inl (Bad_number e)
        | Inr n \<Rightarrow> run (lk_index lk \<lparr>ak_cachePos = cachePos, ak_key = le_encode 2 (n mod 65536)\<rparr> q))
      else
        let split_pos = splitIP s in
        if split_pos = length s
        then (case aton s of None \<Rightarrow> Inl Address_not_set
          | Some ipv4 \<Rightarrow> run (lk_index lk \<lparr>ak_cachePos = cachePos, ak_key = le_encode 4 ipv4\<rparr> q))
        else
          (case aton (take split_pos s) of None \<Rightarrow> Inl Address_not_set
           | Some ipv4 \<Rightarrow>
               (case stoul (drop (split_pos + 1) s) of Inl e \<Rightarrow> Inl (Bad_number e)
                | Inr n \<Rightarrow>
                    let shift = (32 + 4294967296 - n mod 4294967296) mod 4294967296 in
                    if shift \<ge> 32 then Inl Shift_out_of_range
                    else
                      let maskBit = push_bit shift (- 1) :: 32 word;
                          s_key = word_of_nat ipv4 AND maskBit;
                          e_key = s_key + (- 1 - maskBit)
                      in run (lk_range lk \<lparr>ak_cachePos = cachePos, ak_key = le_encode 4 (unat s_key)\<rparr>
                                \<lparr>ak_cachePos = cachePos, ak_key = le_encode 4 (unat e_key)\<rparr> q))))"

record Search =
  se_before :: "Answer list list"
  se_ops :: "string list"
  se_left :: "Answer list"
  se_cachePos :: IndexType
  se_wait :: nat
  se_op :: string

definition combine :: "string \<Rightarrow> Answer list \<Rightarrow> Answer list \<Rightarrow> Answer list" where
  "combine op_now la lb = (if op_now = ''||'' then join_answers la lb else intersect_answers la lb)"

definition search_step :: "(string \<Rightarrow> nat option) \<Rightarrow> 'q lookups \<Rightarrow> string \<Rightarrow> Search \<Rightarrow> 'q \<Rightarrow> search_fault + (Search \<times> 'q)" where
  "search_step aton lk s st q =
     (if s = ''('' then
        Inr (st\<lparr>se_ops := se_op st # se_ops st, se_op := ''||'', se_before := se_left st # se_before st, se_left := []\<rparr>, q)
      else if s = ''srcip'' \<or> s = ''dstip'' then
        Inr (st\<lparr>se_cachePos := if s = ''srcip'' then SRCIP else DSTIP, se_wait := 1\<rparr>, q)
      else if s = ''srcport'' \<or> s = ''dstport'' then
        Inr (st\<lparr>se_cachePos := if s = ''srcport'' then SRCPORT else DSTPORT, se_wait := 2\<rparr>, q)
      else if s = ''=='' then Inr (st, q)
      else if s = ''&&'' \<or> s = ''||'' then Inr (st\<lparr>se_op := s\<rparr>, q)
      else if s = '')'' then
        (case (se_ops st, se_before st) of
           (op # ops, before # befores) \<Rightarrow>
             Inr (st\<lparr>se_op := op, se_ops := ops, se_before := befores, se_left := combine op before (se_left st)\<rparr>, q)
         | _ \<Rightarrow> Inl Empty_stack)
      else if se_wait st \<noteq> 0 then
        (case find_value aton lk (se_wait st) (se_cachePos st) s q of Inl e \<Rightarrow> Inl e
         | Inr (right, q') \<Rightarrow> Inr (st\<lparr>se_left := combine (se_op st) (se_left st) right\<rparr>, q'))
      else Inr (st, q))"

fun search_loop :: "(string \<Rightarrow> nat option) \<Rightarrow> 'q lookups \<Rightarrow> string list \<Rightarrow> Search \<Rightarrow> 'q \<Rightarrow> search_fault + (Search \<times> 'q)" where
  "search_loop aton lk [] st q = Inr (st, q)"
| "search_loop aton lk (s # exp_list) st q =
     (case search_step aton lk s st q of Inl e \<Rightarrow> Inl e
      | Inr (st', q') \<Rightarrow> search_loop aton lk exp_list st' q')"

text \<open>The index type of the key has no value before the first name is met; it is not used before.\<close>

definition search_start :: Search where
  "search_start = \<lparr>se_before = [], se_ops = [], se_left = [], se_cachePos = TOTAL_INDEX, se_wait = 0, se_op = ''||''\<rparr>"

definition searchExpression :: "(string \<Rightarrow> nat option) \<Rightarrow> 'q lookups \<Rightarrow> string list \<Rightarrow> 'q \<Rightarrow> search_fault + (Answer list \<times> 'q)" where
  "searchExpression aton lk exp_list q =
     (case search_loop aton lk exp_list search_start q of Inl e \<Rightarrow> Inl e | Inr (st, q') \<Rightarrow> Inr (se_left st, q'))"

section \<open>The querier\<close>

text \<open>What the lookups use: hash functions, bit store and disk metadata, the reads of the two agents, the
  sizes of their blocks, fresh memory, and the number of packets a query may read.\<close>

record QueryEnv =
  qe_h1 :: "bytes \<Rightarrow> nat"
  qe_h2 :: "nat \<Rightarrow> nat"
  qe_bitmap :: "BitMap option"
  qe_disk :: DiskBuffer
  qe_index_read :: "nat \<Rightarrow> nat \<Rightarrow> bytes option option"
  qe_data_read :: "nat \<Rightarrow> bytes option option"
  qe_readBlockSize :: nat
  qe_cellSize :: nat
  qe_junk :: "nat \<Rightarrow> bytes"
  qe_fuel :: nat

record Querier =
  qu_expression :: string
  qu_outputFilename :: string
  qu_startTime :: nat
  qu_endTime :: nat
  qu_packet_count :: nat
  qu_tree :: QueryTree
  qu_indexBuffer :: bytes
  qu_dataBuffer :: bytes
  qu_printed :: "bytes list"

text \<open>When memory cannot be allocated, the process exits: \<open>None\<close>.\<close>

definition Querier_new :: "bool \<Rightarrow> nat \<Rightarrow> nat \<Rightarrow> Querier option" where
  "Querier_new alloc_ok index_block_size data_block_size =
     (if \<not> alloc_ok then None else Some \<lparr>qu_expression = [], qu_outputFilename = [], qu_startTime = 0, qu_endTime = 0, qu_packet_count = 0,
      qu_tree = \<lparr>qt_originExpression = [], qt_expList = []\<rparr>, qu_indexBuffer = replicate (index_block_size * 2) 0,
      qu_dataBuffer = replicate (data_block_size * 3) 0, qu_printed = []\<rparr>)"

text \<open>The packets are printed; the list of answers stays empty.\<close>

definition getPointerByFlowMetaIndex :: "QueryEnv \<Rightarrow> AtomKey \<Rightarrow> Querier \<Rightarrow> (Answer list \<times> Querier) option" where
  "getPointerByFlowMetaIndex env key q = do {
     index_list \<leftarrow> getIndexRange (qe_h1 env) (qe_h2 env) (qe_bitmap env) (qe_disk env) key;
     (tmp, ibuf) \<leftarrow> getOffsetList (qe_index_read env) (qe_readBlockSize env) (qu_indexBuffer q) index_list key;
     s \<leftarrow> pr_loop (qe_fuel env) (qe_data_read env) (qe_cellSize env) (length (qu_dataBuffer q) div qe_cellSize env) (qe_junk env)
       \<lparr>pr_offsets = sort tmp, pr_now = 0, pr_buffer = qu_dataBuffer q, pr_now_buffer = 0, pr_next_buffer = 0,
        pr_last_cell = u64_max, pr_out = []\<rparr>;
     Some ([], q\<lparr>qu_indexBuffer := ibuf, qu_dataBuffer := pr_buffer s, qu_printed := qu_printed q @ pr_out s\<rparr>) }"

definition getPointerByFlowMetaRange :: "AtomKey \<Rightarrow> AtomKey \<Rightarrow> Querier \<Rightarrow> (Answer list \<times> Querier) option" where
  "getPointerByFlowMetaRange startKey endKey q = Some ([], q)"

definition querier_lookups :: "QueryEnv \<Rightarrow> Querier lookups" where
  "querier_lookups env = \<lparr>lk_index = getPointerByFlowMetaIndex env, lk_range = getPointerByFlowMetaRange\<rparr>"

definition decomposeExpression :: "char \<Rightarrow> Querier \<Rightarrow> (string list \<times> Querier) option" where
  "decomposeExpression junk q = do {
     (ok, t) \<leftarrow> inputExpression junk (qu_tree q) (qu_expression q);
     Some (if ok then qt_expList t else [], q\<lparr>qu_tree := t\<rparr>) }"

definition querier_input :: "string \<Rightarrow> string \<Rightarrow> string \<Rightarrow> string \<Rightarrow> Querier \<Rightarrow> conversion_error + Querier" where
  "querier_input expression outputFilename start_time end_time q =
     (let q1 = q\<lparr>qu_expression := expression, qu_outputFilename := outputFilename\<rparr> in
      case (if start_time \<noteq> [] then stollTime start_time else Inr 0) of Inl e \<Rightarrow> Inl e
      | Inr t1 \<Rightarrow>
          (case (if end_time \<noteq> [] then stollTime end_time else Inr u64_max) of Inl e \<Rightarrow> Inl e
           | Inr t2 \<Rightarrow> Inr (q1\<lparr>qu_startTime := t1, qu_endTime := t2\<rparr>)))"

definition runUnit :: "(string \<Rightarrow> nat option) \<Rightarrow> char \<Rightarrow> QueryEnv \<Rightarrow> Querier \<Rightarrow> (search_fault + (bool \<times> Querier)) option" where
  "runUnit aton junk env q = do {
     (exp_list, q1) \<leftarrow> decomposeExpression junk (q\<lparr>qu_packet_count := 0\<rparr>);
     if exp_list = [] then Some (Inr (False, q1))
     else Some (case searchExpression aton (querier_lookups env) exp_list q1 of Inl e \<Rightarrow> Inl e
       | Inr (flow_header_list, q2) \<Rightarrow> Inr (True, q2)) }"

text \<open>The loop of \<open>run\<close> over the lines of the input; at the end of the input it never leaves the loop.
  An exception or a fault ends it.\<close>

fun querier_run :: "(string \<Rightarrow> nat option) \<Rightarrow> char \<Rightarrow> QueryEnv \<Rightarrow> string list \<Rightarrow> Querier \<Rightarrow> (search_fault + Querier) option" where
  "querier_run aton junk env [] q = None"
| "querier_run aton junk env (expression # lines) q =
     (if expression = ''q'' then Some (Inr q)
      else case querier_input expression [] [] [] q of Inl e \<Rightarrow> Some (Inl (Bad_number e))
        | Inr q1 \<Rightarrow> do {
            r \<leftarrow> runUnit aton junk env q1;
            case r of Inl e \<Rightarrow> Some (Inl e) | Inr (ok, q2) \<Rightarrow> querier_run aton junk env lines q2 })"

section \<open>The splitting loses nothing\<close>

lemma push_tmp_concat: "push_tmp s = Some s' \<Longrightarrow> concat (fst s') @ snd s' = concat (fst s) @ snd s"
  by (auto simp: push_tmp_def split: prod.splits if_splits)

text \<open>The shape of a step, with the tests of the character as booleans.\<close>

lemma step_concat:
  assumes s1: "concat (fst s1) @ snd s1 = whole"
    and r: "(if blank then push_tmp s1
       else if bracket then do { (exp_list, tmp) \<leftarrow> push_tmp s1; Some (exp_list @ [tmp @ [c]], []) }
       else if compare then do { (exp_list, tmp) \<leftarrow> push_tmp s1; Some (exp_list, tmp @ [c]) }
       else if equals then
         (if ends1 then Some (fst s1 @ [snd s1 @ [c]], []) else do { (exp_list, tmp) \<leftarrow> push_tmp s1; Some (exp_list, tmp @ [c]) })
       else if connect then
         (if ends2 then Some (fst s1 @ [snd s1 @ [c]], []) else do { (exp_list, tmp) \<leftarrow> push_tmp s1; Some (exp_list, tmp @ [c]) })
       else Some (fst s1, snd s1 @ [c])) = Some s'"
  shows "concat (fst s') @ snd s' = whole @ (if blank then [] else [c])"
proof -
  have pushed: "concat exp_list @ tmp = whole" if "push_tmp s1 = Some (exp_list, tmp)" for exp_list tmp
    using push_tmp_concat [OF that] s1 by simp
  have grow: "concat (fst s') @ snd s' = whole @ [c]"
    if "do { (exp_list, tmp) \<leftarrow> push_tmp s1; Some (exp_list @ [tmp @ [c]], []) } = Some s' \<or>
        do { (exp_list, tmp) \<leftarrow> push_tmp s1; Some (exp_list, tmp @ [c]) } = Some s'"
    using that pushed by (cases "push_tmp s1") auto
  have "concat (fst s1) @ snd s1 @ [c] = whole @ [c]" using s1 by simp
  then have stay: "concat (fst s') @ snd s' = whole @ [c]"
    if "s' = (fst s1 @ [snd s1 @ [c]], []) \<or> s' = (fst s1, snd s1 @ [c])"
    using that by auto
  show ?thesis
  proof (cases blank)
    case True
    then show ?thesis using r push_tmp_concat [of s1 s'] s1 by simp
  next
    case False
    then show ?thesis using r grow stay by (simp split: if_split_asm)
  qed
qed

lemma split_char_concat:
  assumes "split_char junk c s = Some s'"
  shows "concat (fst s') @ snd s' = concat (fst s) @ snd s @ (if c = CHR '' '' then [] else [c])"
proof -
  let ?s1 = "if c \<noteq> CHR ''='' \<and> str_back junk (snd s) \<in> set ''!<>'' then (fst s @ [snd s], []) else s"
  have "concat (fst ?s1) @ snd ?s1 = concat (fst s) @ snd s" by simp
  from step_concat [OF this assms [unfolded split_char_def Let_def]] show ?thesis by (simp only: append_assoc)
qed

lemma split_chars_concat:
  "split_chars junk cs s = Some s' \<Longrightarrow> concat (fst s') @ snd s' = concat (fst s) @ snd s @ filter (\<lambda>c. c \<noteq> CHR '' '') cs \<and> snd s' = []"
proof (induction cs arbitrary: s)
  case Nil
  then show ?case using push_tmp_concat [of s s'] by (auto simp: push_tmp_def split: prod.splits if_splits)
next
  case (Cons c cs)
  then obtain s1 where s1: "split_char junk c s = Some s1" "split_chars junk cs s1 = Some s'"
    by (auto split: Option.bind_splits)
  from Cons.IH [OF s1(2)] split_char_concat [OF s1(1)] show ?case by auto
qed

text \<open>C14: the tokenizer loses nothing: unless the expression is rejected, its tokens put together are the
  expression without its blanks.\<close>

theorem tokens_make_expression:
  assumes "splitExpression junk e \<noteq> []"
  shows "concat (splitExpression junk e) = filter (\<lambda>c. c \<noteq> CHR '' '') e"
proof -
  from assms obtain exp_list tmp where s: "split_chars junk e ([], []) = Some (exp_list, tmp)"
    by (auto simp: splitExpression_def split: option.splits)
  from split_chars_concat [OF s] show ?thesis by (auto simp: splitExpression_def s)
qed

section \<open>Regular expressions and languages\<close>

fun rx_lang :: "rx \<Rightarrow> string set" where
  "rx_lang Rx_none = {}"
| "rx_lang Rx_eps = {[]}"
| "rx_lang (Rx_chars p) = {[c] | c. p c}"
| "rx_lang (Rx_alt r s) = rx_lang r \<union> rx_lang s"
| "rx_lang (Rx_seq r s) = {xs @ ys | xs ys. xs \<in> rx_lang r \<and> ys \<in> rx_lang s}"
| "rx_lang (Rx_star r) = {concat ws | ws. set ws \<subseteq> rx_lang r}"

lemma rx_null_lang: "rx_null r \<longleftrightarrow> [] \<in> rx_lang r"
proof (induction r)
  case (Rx_star r)
  show ?case by (auto intro!: exI [of _ "[]"])
qed auto

lemma rx_deriv_lang: "xs \<in> rx_lang (rx_deriv c r) \<longleftrightarrow> c # xs \<in> rx_lang r"
proof (induction r arbitrary: xs)
  case (Rx_seq r s)
  have "c # xs \<in> rx_lang (Rx_seq r s) \<longleftrightarrow>
      (\<exists>ys zs. xs = ys @ zs \<and> c # ys \<in> rx_lang r \<and> zs \<in> rx_lang s) \<or> ([] \<in> rx_lang r \<and> c # xs \<in> rx_lang s)"
    by (auto simp: Cons_eq_append_conv)
  then show ?case using Rx_seq by (auto simp: rx_null_lang)
next
  case (Rx_star r)
  show ?case
  proof
    assume "xs \<in> rx_lang (rx_deriv c (Rx_star r))"
    then obtain ys ws where "xs = ys @ concat ws" "c # ys \<in> rx_lang r" "set ws \<subseteq> rx_lang r"
      using Rx_star by auto
    then have "c # xs = concat ((c # ys) # ws)" "set ((c # ys) # ws) \<subseteq> rx_lang r" by simp_all
    then show "c # xs \<in> rx_lang (Rx_star r)" unfolding rx_lang.simps by blast
  next
    assume "c # xs \<in> rx_lang (Rx_star r)"
    then obtain ws where ws: "c # xs = concat ws" "set ws \<subseteq> rx_lang r" by auto
    have "\<exists>ys vs. xs = ys @ concat vs \<and> c # ys \<in> rx_lang r \<and> set vs \<subseteq> rx_lang r"
      using ws
    proof (induction ws)
      case (Cons w ws)
      then show ?case by (cases w) auto
    qed simp
    then show "xs \<in> rx_lang (rx_deriv c (Rx_star r))" using Rx_star by auto
  qed
qed auto

lemma regex_match_lang: "regex_match s r \<longleftrightarrow> s \<in> rx_lang r"
  unfolding regex_match_def by (induction s arbitrary: r) (simp_all add: rx_null_lang rx_deriv_lang)

section \<open>IPv4 addresses\<close>

definition dval :: "char \<Rightarrow> nat" where
  "dval c = of_char c - 48"

lemma digit_eq: "is_digit c \<Longrightarrow> c = d \<longleftrightarrow> is_digit d \<and> dval c = dval d"
proof -
  assume c: "is_digit c"
  have "(x = y) = (48 \<le> y \<and> y \<le> 57 \<and> x - 48 = y - 48)" if "48 \<le> x" "x \<le> 57" for x y :: nat
    using that by auto
  from this [of "of_char c" "of_char d"] c show "c = d \<longleftrightarrow> is_digit d \<and> dval c = dval d"
    by (simp add: is_digit_def dval_def)
qed

lemma digit_values: "is_digit (CHR ''0'')" "is_digit (CHR ''1'')" "is_digit (CHR ''2'')" "is_digit (CHR ''3'')" "is_digit (CHR ''4'')"
  "is_digit (CHR ''5'')" "is_digit (CHR ''6'')" "is_digit (CHR ''7'')" "is_digit (CHR ''8'')" "is_digit (CHR ''9'')"
  "dval (CHR ''0'') = 0" "dval (CHR ''1'') = 1" "dval (CHR ''2'') = 2" "dval (CHR ''3'') = 3" "dval (CHR ''4'') = 4"
  "dval (CHR ''5'') = 5" "dval (CHR ''6'') = 6" "dval (CHR ''7'') = 7" "dval (CHR ''8'') = 8" "dval (CHR ''9'') = 9"
  by (simp_all add: is_digit_def dval_def)

lemma dval_less: "is_digit c \<Longrightarrow> dval c \<le> 9"
  unfolding is_digit_def dval_def by linarith

text \<open>The classes of digits used in the expressions, as bounds of the digit.\<close>

lemma digit_classes:
  "c \<in> set ''0123456789'' \<longleftrightarrow> is_digit c" "c \<in> set ''012345'' \<longleftrightarrow> is_digit c \<and> dval c \<le> 5"
  "c \<in> set ''01234'' \<longleftrightarrow> is_digit c \<and> dval c \<le> 4" "c \<in> set ''012'' \<longleftrightarrow> is_digit c \<and> dval c \<le> 2"
  "c \<in> set ''01'' \<longleftrightarrow> is_digit c \<and> dval c \<le> 1" "c \<in> set ''12'' \<longleftrightarrow> is_digit c \<and> 1 \<le> dval c \<and> dval c \<le> 2"
proof -
  have all: "c \<in> set cs \<longleftrightarrow> is_digit c \<and> dval c \<in> dval ` set cs" if "\<forall>d \<in> set cs. is_digit d" for cs
  proof
    assume "c \<in> set cs"
    then show "is_digit c \<and> dval c \<in> dval ` set cs" using that by blast
  next
    assume "is_digit c \<and> dval c \<in> dval ` set cs"
    then obtain d where "d \<in> set cs" "is_digit c" "dval c = dval d" by blast
    then show "c \<in> set cs" using that digit_eq [of c d] by simp
  qed
  have n: "x \<le> 9 \<longleftrightarrow> x \<in> {0, 1, 2, 3, 4, 5, 6, 7, 8, 9}" "x \<le> 5 \<longleftrightarrow> x \<in> {0, 1, 2, 3, 4, 5}" "x \<le> 4 \<longleftrightarrow> x \<in> {0, 1, 2, 3, 4}"
    "x \<le> 2 \<longleftrightarrow> x \<in> {0, 1, 2}" "x \<le> 1 \<longleftrightarrow> x \<in> {0, 1}" "1 \<le> x \<and> x \<le> 2 \<longleftrightarrow> x \<in> {1, 2}" for x :: nat
    by auto
  show "c \<in> set ''0123456789'' \<longleftrightarrow> is_digit c"
    by (subst all) (use dval_less [of c] n(1) [of "dval c"] in \<open>auto simp: digit_values\<close>)
  show "c \<in> set ''012345'' \<longleftrightarrow> is_digit c \<and> dval c \<le> 5" "c \<in> set ''01234'' \<longleftrightarrow> is_digit c \<and> dval c \<le> 4"
    "c \<in> set ''012'' \<longleftrightarrow> is_digit c \<and> dval c \<le> 2" "c \<in> set ''01'' \<longleftrightarrow> is_digit c \<and> dval c \<le> 1"
    "c \<in> set ''12'' \<longleftrightarrow> is_digit c \<and> 1 \<le> dval c \<and> dval c \<le> 2"
    by (subst all, simp add: digit_values, simp add: digit_values, arith)+
qed

lemma rx_lang_basic:
  "s \<in> rx_lang (rx_char d) \<longleftrightarrow> s = [d]" "s \<in> rx_lang (rx_class cs) \<longleftrightarrow> (\<exists>c. s = [c] \<and> c \<in> set cs)"
  "s \<in> rx_lang (rx_opt r) \<longleftrightarrow> s \<in> rx_lang r \<or> s = []" "s \<in> rx_lang rx_digit \<longleftrightarrow> (\<exists>c. s = [c] \<and> is_digit c)"
  by (auto simp: rx_char_def rx_class_def rx_opt_def rx_digit_def digit_classes(1) simp del: list.set)

definition octet :: "string \<Rightarrow> bool" where
  "octet s \<longleftrightarrow> s \<noteq> [] \<and> length s \<le> 3 \<and> (\<forall>c \<in> set s. is_digit c) \<and> digits_value 0 s \<le> 255"

declare rx_lang.simps [simp del]

lemma seq_char:
  "s \<in> rx_lang (Rx_seq (rx_char d) r) \<longleftrightarrow> (\<exists>cs. s = d # cs \<and> cs \<in> rx_lang r)"
  "s \<in> rx_lang (Rx_seq (rx_class ds) r) \<longleftrightarrow> (\<exists>c cs. s = c # cs \<and> c \<in> set ds \<and> cs \<in> rx_lang r)"
  "s \<in> rx_lang (Rx_seq rx_digit r) \<longleftrightarrow> (\<exists>c cs. s = c # cs \<and> is_digit c \<and> cs \<in> rx_lang r)"
  "s \<in> rx_lang (Rx_seq (rx_opt q) r) \<longleftrightarrow> s \<in> rx_lang (Rx_seq q r) \<or> s \<in> rx_lang r"
proof -
  have one: "(\<exists>xs ys. s = xs @ ys \<and> (\<exists>c. xs = [c] \<and> P c) \<and> Q ys) \<longleftrightarrow> (\<exists>c cs. s = c # cs \<and> P c \<and> Q cs)" for P Q
    by (metis append_Cons append_Nil)
  show "s \<in> rx_lang (Rx_seq (rx_char d) r) \<longleftrightarrow> (\<exists>cs. s = d # cs \<and> cs \<in> rx_lang r)"
    using one [of "\<lambda>c. c = d" "\<lambda>cs. cs \<in> rx_lang r"] by (simp add: rx_lang.simps rx_lang_basic)
  show "s \<in> rx_lang (Rx_seq (rx_class ds) r) \<longleftrightarrow> (\<exists>c cs. s = c # cs \<and> c \<in> set ds \<and> cs \<in> rx_lang r)"
    "s \<in> rx_lang (Rx_seq rx_digit r) \<longleftrightarrow> (\<exists>c cs. s = c # cs \<and> is_digit c \<and> cs \<in> rx_lang r)"
    unfolding rx_lang.simps mem_Collect_eq rx_lang_basic one by (rule refl)+
  show "s \<in> rx_lang (Rx_seq (rx_opt q) r) \<longleftrightarrow> s \<in> rx_lang (Rx_seq q r) \<or> s \<in> rx_lang r"
    unfolding rx_lang.simps mem_Collect_eq rx_lang_basic by auto
qed

lemma octet_rx_lang: "s \<in> rx_lang octet_rx \<longleftrightarrow> octet s"
proof -
  have d2: "c = CHR ''2'' \<longleftrightarrow> is_digit c \<and> dval c = 2" and d5: "c = CHR ''5'' \<longleftrightarrow> is_digit c \<and> dval c = 5" for c
    using digit_eq [of "CHR ''2''" c] digit_eq [of "CHR ''5''" c] digit_values by auto
  have v: "of_char c - 48 = dval c" for c by (simp add: dval_def)
  note alts = octet_rx_def rx_alts.simps rx_seqs.simps rx_lang.simps(4) Un_iff seq_char rx_lang_basic digit_classes
  consider "s = []" | a where "s = [a]" | a b where "s = [a, b]" | a b c where "s = [a, b, c]"
    | a b c d cs where "s = a # b # c # d # cs"
    by (metis list.exhaust)
  then show ?thesis
  proof cases
    case (2 a)
    then show ?thesis using dval_less [of a] unfolding alts by (auto simp: octet_def v)
  next
    case (3 a b)
    then show ?thesis using dval_less [of a] dval_less [of b] unfolding alts by (auto simp: octet_def v)
  next
    case (4 a b c)
    have "s \<in> rx_lang octet_rx \<longleftrightarrow> is_digit a \<and> is_digit b \<and> is_digit c \<and>
        (dval a = 2 \<and> dval b = 5 \<and> dval c \<le> 5 \<or> dval a = 2 \<and> dval b \<le> 4 \<or> dval a \<le> 1)"
      unfolding 4 alts using d2 d5 by auto
    also have "\<dots> \<longleftrightarrow> octet s"
      unfolding 4 octet_def using dval_less [of a] dval_less [of b] dval_less [of c] by (auto simp: v)
    finally show ?thesis .
  qed (unfold alts octet_def, auto)
qed

text \<open>A mask: a number up to 32 without a leading zero.\<close>

definition mask_number :: "string \<Rightarrow> bool" where
  "mask_number s \<longleftrightarrow> s \<noteq> [] \<and> length s \<le> 2 \<and> (\<forall>c \<in> set s. is_digit c) \<and> digits_value 0 s \<le> 32 \<and>
     (length s = 2 \<longrightarrow> hd s \<noteq> CHR ''0'')"

lemma mask4_rx_lang: "s \<in> rx_lang mask4_rx \<longleftrightarrow> mask_number s"
proof -
  have d: "c = CHR ''3'' \<longleftrightarrow> is_digit c \<and> dval c = 3" "c = CHR ''0'' \<longleftrightarrow> is_digit c \<and> dval c = 0" for c
    using digit_eq [of "CHR ''3''" c] digit_eq [of "CHR ''0''" c] digit_values by auto
  have v: "of_char c - 48 = dval c" for c by (simp add: dval_def)
  note alts = mask4_rx_def rx_alts.simps rx_seqs.simps rx_lang.simps(4) Un_iff seq_char rx_lang_basic digit_classes
  consider "s = []" | a where "s = [a]" | a b where "s = [a, b]" | a b c cs where "s = a # b # c # cs"
    by (metis list.exhaust)
  then show ?thesis
  proof cases
    case (2 a)
    then show ?thesis using dval_less [of a] unfolding alts by (auto simp: mask_number_def v)
  next
    case (3 a b)
    have "s \<in> rx_lang mask4_rx \<longleftrightarrow> is_digit a \<and> is_digit b \<and> (dval a = 3 \<and> dval b \<le> 2 \<or> 1 \<le> dval a \<and> dval a \<le> 2)"
      unfolding 3 alts using d by auto
    also have "\<dots> \<longleftrightarrow> mask_number s"
      unfolding 3 mask_number_def using dval_less [of a] dval_less [of b] d(2) [of a] by (auto simp: v)
    finally show ?thesis .
  qed (unfold alts mask_number_def, auto)
qed

text \<open>C32: the addresses the check for IPv4 accepts are exactly four numbers up to 255 of one to three
  digits (leading zeros allowed), separated by dots, and optionally a mask from 0 to 32.\<close>

theorem ipv4_values:
  "isValidIPv4 s \<longleftrightarrow> (\<exists>a b c d m. s = a @ ''.'' @ b @ ''.'' @ c @ ''.'' @ d @ m \<and>
     octet a \<and> octet b \<and> octet c \<and> octet d \<and> (m = [] \<or> (\<exists>n. m = CHR ''/'' # n \<and> mask_number n)))"
proof -
  have dot: "rx_lang (Rx_seq octet_rx (rx_char (CHR ''.''))) = {a @ ''.'' | a. octet a}"
    by (auto simp: rx_lang.simps(5) rx_lang_basic octet_rx_lang)
  have rep: "rx_rep 3 3 r = rx_seqs [r, r, r]" for r by (simp add: rx_rep_def numeral_3_eq_3)
  have m: "s \<in> rx_lang (rx_opt (Rx_seq (rx_char (CHR ''/'')) mask4_rx)) \<longleftrightarrow> (s = [] \<or> (\<exists>n. s = CHR ''/'' # n \<and> mask_number n))" for s
    by (auto simp: rx_lang_basic seq_char mask4_rx_lang)
  have seq2: "s \<in> rx_lang (Rx_seq (Rx_seq octet_rx (rx_char (CHR ''.''))) r) \<longleftrightarrow>
      (\<exists>a t. s = a @ ''.'' @ t \<and> octet a \<and> t \<in> rx_lang r)" for s r
    unfolding rx_lang.simps(5) [of _ r] dot mem_Collect_eq by (auto; metis append_assoc append_Cons append_Nil)
  have seq3: "s \<in> rx_lang (Rx_seq (Rx_seq p q) r) \<longleftrightarrow> s \<in> rx_lang (Rx_seq p (Rx_seq q r))" for s p q r
    unfolding rx_lang.simps(5) mem_Collect_eq by (auto; metis append_assoc)
  have o: "s \<in> rx_lang (Rx_seq octet_rx r) \<longleftrightarrow> (\<exists>d t. s = d @ t \<and> octet d \<and> t \<in> rx_lang r)" for s r
    by (auto simp: rx_lang.simps(5) octet_rx_lang)
  show ?thesis
    unfolding isValidIPv4_def regex_match_lang rep rx_seqs.simps by (simp add: seq3 [of _ "Rx_seq octet_rx _"] seq2 o m) blast
qed

section \<open>Evaluation of a token list\<close>

text \<open>An expression as a tree: a comparison of a name with a value, or a group in parentheses; the list
  holds the connector before every term, that of the first term is not written.\<close>

datatype qterm = Q_atom string string | Q_group "(string \<times> qterm) list"

fun term_tokens :: "qterm \<Rightarrow> string list" and list_tokens :: "(string \<times> qterm) list \<Rightarrow> string list"
  and rest_tokens :: "(string \<times> qterm) list \<Rightarrow> string list" where
  "term_tokens (Q_atom x v) = [x, ''=='', v]"
| "term_tokens (Q_group ts) = ''('' # list_tokens ts @ ['')'']"
| "list_tokens [] = []"
| "list_tokens ((op, t) # ts) = term_tokens t @ rest_tokens ts"
| "rest_tokens [] = []"
| "rest_tokens ((op, t) # ts) = op # term_tokens t @ rest_tokens ts"

definition name_type :: "string \<Rightarrow> IndexType" where
  "name_type x = (if x = ''srcip'' then SRCIP else if x = ''dstip'' then DSTIP else if x = ''srcport'' then SRCPORT else DSTPORT)"

definition name_wait :: "string \<Rightarrow> nat" where
  "name_wait x = (if x = ''srcip'' \<or> x = ''dstip'' then 1 else 2)"

text \<open>The meaning of a tree: its terms are combined from left to right, starting from the empty list
  joined with the first one; the lookups run in the order of the text.\<close>

fun term_answers :: "(string \<Rightarrow> nat option) \<Rightarrow> 'q lookups \<Rightarrow> qterm \<Rightarrow> 'q \<Rightarrow> search_fault + (Answer list \<times> 'q)"
  and list_answers :: "(string \<Rightarrow> nat option) \<Rightarrow> 'q lookups \<Rightarrow> (string \<times> qterm) list \<Rightarrow> string option \<Rightarrow> Answer list \<Rightarrow> 'q \<Rightarrow>
    search_fault + (Answer list \<times> 'q)" where
  "term_answers aton lk (Q_atom x v) q = find_value aton lk (name_wait x) (name_type x) v q"
| "term_answers aton lk (Q_group ts) q = list_answers aton lk ts (Some ''||'') [] q"
| "list_answers aton lk [] first acc q = Inr (acc, q)"
| "list_answers aton lk ((op, t) # ts) first acc q =
     (case term_answers aton lk t q of Inl e \<Rightarrow> Inl e
      | Inr (a, q') \<Rightarrow> list_answers aton lk ts None (combine (case first of None \<Rightarrow> op | Some f \<Rightarrow> f) acc a) q')"

definition keyword :: "string \<Rightarrow> bool" where
  "keyword s \<longleftrightarrow> s \<in> {''('', '')'', ''=='', ''&&'', ''||'', ''srcip'', ''dstip'', ''srcport'', ''dstport''}"

fun term_ok :: "qterm \<Rightarrow> bool" and list_ok :: "(string \<times> qterm) list \<Rightarrow> bool" where
  "term_ok (Q_atom x v) \<longleftrightarrow> x \<in> {''srcip'', ''dstip'', ''srcport'', ''dstport''} \<and> \<not> keyword v"
| "term_ok (Q_group ts) \<longleftrightarrow> list_ok ts"
| "list_ok [] \<longleftrightarrow> True"
| "list_ok ((op, t) # ts) \<longleftrightarrow> op \<in> {''&&'', ''||''} \<and> term_ok t \<and> list_ok ts"

lemma search_step_simps:
  "search_step aton lk ''('' st q =
     Inr (st\<lparr>se_ops := se_op st # se_ops st, se_op := ''||'', se_before := se_left st # se_before st, se_left := []\<rparr>, q)"
  "search_step aton lk ''=='' st q = Inr (st, q)"
  "op \<in> {''&&'', ''||''} \<Longrightarrow> search_step aton lk op st q = Inr (st\<lparr>se_op := op\<rparr>, q)"
  "x \<in> {''srcip'', ''dstip'', ''srcport'', ''dstport''} \<Longrightarrow>
     search_step aton lk x st q = Inr (st\<lparr>se_cachePos := name_type x, se_wait := name_wait x\<rparr>, q)"
  "se_ops st = op # ops \<Longrightarrow> se_before st = before # befores \<Longrightarrow> search_step aton lk '')'' st q =
     Inr (st\<lparr>se_op := op, se_ops := ops, se_before := befores, se_left := combine op before (se_left st)\<rparr>, q)"
  "\<not> keyword v \<Longrightarrow> se_wait st \<noteq> 0 \<Longrightarrow> search_step aton lk v st q =
     (case find_value aton lk (se_wait st) (se_cachePos st) v q of Inl e \<Rightarrow> Inl e
      | Inr (right, q') \<Rightarrow> Inr (st\<lparr>se_left := combine (se_op st) (se_left st) right\<rparr>, q'))"
  by (auto simp: search_step_def name_type_def name_wait_def keyword_def)

text \<open>The two stacks return to what they were; the last connector, name and kind of value may differ.\<close>

lemma search_terms:
  shows "term_ok t \<Longrightarrow> \<exists>c w. \<forall>rest. search_loop aton lk (term_tokens t @ rest) st q =
      (case term_answers aton lk t q of Inl e \<Rightarrow> Inl e
       | Inr (a, q') \<Rightarrow> search_loop aton lk rest
           (st\<lparr>se_left := combine (se_op st) (se_left st) a, se_cachePos := c, se_wait := w\<rparr>) q')"
    and "list_ok ts \<Longrightarrow> first = None \<or> first = Some (se_op st) \<Longrightarrow> \<exists>c w p. \<forall>rest.
      search_loop aton lk ((if first = None then rest_tokens ts else list_tokens ts) @ rest) st q =
      (case list_answers aton lk ts first (se_left st) q of Inl e \<Rightarrow> Inl e
       | Inr (a, q') \<Rightarrow> search_loop aton lk rest (st\<lparr>se_left := a, se_cachePos := c, se_wait := w, se_op := p\<rparr>) q')"
proof (induction t and ts arbitrary: st q and first st q rule: term_ok_list_ok.induct)
  case (1 x v)
  then have "name_wait x \<noteq> 0" by (simp add: name_wait_def)
  then show ?case using 1
    by (intro exI [of _ "name_type x"] exI [of _ "name_wait x"])
       (cases st; auto simp: search_step_simps split: sum.splits)
next
  case (2 ts)
  let ?st = "st\<lparr>se_ops := se_op st # se_ops st, se_op := ''||'', se_before := se_left st # se_before st, se_left := []\<rparr>"
  from "2.IH" [of "Some ''||''" ?st q] "2.prems" obtain c w p where
    ih: "\<And>rest. search_loop aton lk (list_tokens ts @ rest) ?st q =
      (case list_answers aton lk ts (Some ''||'') [] q of Inl e \<Rightarrow> Inl e
       | Inr (a, q') \<Rightarrow> search_loop aton lk rest (?st\<lparr>se_left := a, se_cachePos := c, se_wait := w, se_op := p\<rparr>) q')"
    by auto
  show ?case
    by (intro exI [of _ c] exI [of _ w]) (auto simp: search_step_simps ih split: sum.splits, cases st, simp)
next
  case 3
  show ?case by (intro exI [of _ "se_cachePos st"] exI [of _ "se_wait st"] exI [of _ "se_op st"]) simp
next
  case (4 op t ts)
  let ?op = "case first of None \<Rightarrow> op | Some f \<Rightarrow> f"
  let ?st = "st\<lparr>se_op := ?op\<rparr>"
  have ok: "op \<in> {''&&'', ''||''}" "term_ok t" "list_ok ts" using "4.prems" by auto
  from "4.IH"(1) [OF ok(2), of ?st q] obtain c w where
    "\<forall>rest. search_loop aton lk (term_tokens t @ rest) ?st q =
      (case term_answers aton lk t q of Inl e \<Rightarrow> Inl e
       | Inr (a, q') \<Rightarrow> search_loop aton lk rest
           (?st\<lparr>se_left := combine (se_op ?st) (se_left ?st) a, se_cachePos := c, se_wait := w\<rparr>) q')" by blast
  then have t: "search_loop aton lk (term_tokens t @ rest) ?st q =
      (case term_answers aton lk t q of Inl e \<Rightarrow> Inl e
       | Inr (a, q') \<Rightarrow> search_loop aton lk rest (?st\<lparr>se_left := combine ?op (se_left st) a, se_cachePos := c, se_wait := w\<rparr>) q')"
    for rest by (simp cong: sum.case_cong)
  have s: "search_loop aton lk ((if first = None then rest_tokens ((op, t) # ts) else list_tokens ((op, t) # ts)) @ rest) st q =
      search_loop aton lk (term_tokens t @ rest_tokens ts @ rest) ?st q" for rest
    using "4.prems"(2) ok(1) by (auto simp: search_step_simps(3))
  show ?case
  proof (cases "term_answers aton lk t q")
    case (Inl e)
    then show ?thesis by (simp only: s t) simp
  next
    case (Inr r)
    obtain a q' where r: "r = (a, q')" by (cases r)
    let ?st2 = "?st\<lparr>se_left := combine ?op (se_left st) a, se_cachePos := c, se_wait := w\<rparr>"
    from "4.IH"(2) [OF ok(3), of None ?st2 q'] obtain c2 w2 p2 where
      "\<And>rest. search_loop aton lk (rest_tokens ts @ rest) ?st2 q' =
        (case list_answers aton lk ts None (combine ?op (se_left st) a) q' of Inl e \<Rightarrow> Inl e
         | Inr (a, q') \<Rightarrow> search_loop aton lk rest (?st2\<lparr>se_left := a, se_cachePos := c2, se_wait := w2, se_op := p2\<rparr>) q')"
      by auto
    then show ?thesis unfolding s t Inr r
      by (intro exI [of _ c2] exI [of _ w2] exI [of _ p2]) (simp add: Inr r cong: sum.case_cong)
  qed
qed

text \<open>C7: the search evaluates the expression as a tree. For the tokens of any expression of comparisons,
  connectors and nested groups, the loop with its two stacks gives what the evaluation of the tree
  gives, from left to right without precedence of \<open>&&\<close>, faults and the effects of the lookups
  included.\<close>

theorem search_evaluates_tree:
  assumes "list_ok ts"
  shows "searchExpression aton lk (list_tokens ts) q = list_answers aton lk ts (Some ''||'') [] q"
proof -
  have first: "Some ''||'' = None \<or> Some ''||'' = Some (se_op search_start)" by (simp add: search_start_def)
  from search_terms(2) [OF assms first, of aton lk q] obtain c w p where
    "\<forall>rest. search_loop aton lk ((if Some ''||'' = None then rest_tokens ts else list_tokens ts) @ rest) search_start q =
      (case list_answers aton lk ts (Some ''||'') (se_left search_start) q of Inl e \<Rightarrow> Inl e
       | Inr (a, q') \<Rightarrow> search_loop aton lk rest (search_start\<lparr>se_left := a, se_cachePos := c, se_wait := w, se_op := p\<rparr>) q')"
    by blast
  from spec [OF this, of "[]"] have "search_loop aton lk (list_tokens ts) search_start q =
      (case list_answers aton lk ts (Some ''||'') [] q of Inl e \<Rightarrow> Inl e
       | Inr (a, q') \<Rightarrow> Inr (search_start\<lparr>se_left := a, se_cachePos := c, se_wait := w, se_op := p\<rparr>, q'))"
    by (simp add: search_start_def cong: sum.case_cong)
  then show ?thesis by (simp add: searchExpression_def split: sum.splits)
qed

section \<open>Accepted expressions\<close>

text \<open>A necessary condition for the first character of a word.\<close>

fun rx_first :: "char \<Rightarrow> rx \<Rightarrow> bool" where
  "rx_first c Rx_none = False"
| "rx_first c Rx_eps = False"
| "rx_first c (Rx_chars p) = p c"
| "rx_first c (Rx_alt r s) = (rx_first c r \<or> rx_first c s)"
| "rx_first c (Rx_seq r s) = (rx_first c r \<or> rx_null r \<and> rx_first c s)"
| "rx_first c (Rx_star r) = rx_first c r"

lemma rx_first_lang: "c # xs \<in> rx_lang r \<Longrightarrow> rx_first c r"
proof (induction r arbitrary: xs)
  case (Rx_seq r s)
  then show ?case by (auto simp: rx_lang.simps Cons_eq_append_conv rx_null_lang)
next
  case (Rx_star r)
  from Rx_star.prems obtain ws where ws: "c # xs = concat ws" "set ws \<subseteq> rx_lang r" by (auto simp: rx_lang.simps)
  have "\<exists>ys. c # ys \<in> rx_lang r"
    using ws
  proof (induction ws)
    case (Cons w ws)
    then show ?case by (cases w) auto
  qed simp
  then show ?case using Rx_star.IH by auto
qed (auto simp: rx_lang.simps)

lemmas rx_defs = rx_rep_def rx_opt_def rx_char_def rx_class_def rx_digit_def rx_hex_def rx_letter_def rx_space_def is_space_def
  group_rx_def cgroup_rx_def groupc_rx_def dec_octet_rx_def dotted_rx_def colon_rx_def mask4_rx_def mask6_rx_def octet_rx_def
  numeral_eq_Suc One_nat_def

lemma rx_first_seqs: "rx_first c (rx_seqs rs) \<Longrightarrow> \<exists>r \<in> set rs. rx_first c r"
  by (induction rs rule: rx_seqs.induct) auto

lemma rx_first_alts: "rx_first c (rx_alts rs) \<longleftrightarrow> (\<exists>r \<in> set rs. rx_first c r)"
  by (induction rs rule: rx_alts.induct) auto

lemma rx_first_rep: "rx_first c (rx_rep m n r) \<Longrightarrow> rx_first c r"
  by (auto simp: rx_rep_def rx_opt_def dest!: rx_first_seqs split: if_splits)

definition bracket :: "char \<Rightarrow> bool" where
  "bracket c \<longleftrightarrow> c \<in> set ''{}[]''"

lemma brackets_first:
  assumes "bracket c"
  shows "\<not> rx_first c rx_digit" "\<not> rx_first c rx_hex" "\<not> rx_first c rx_letter" "\<not> rx_first c rx_space" "\<not> rx_first c colon_rx"
    "\<not> rx_first c (rx_char (CHR ''%''))" "\<not> rx_first c (rx_char (CHR ''/''))" "\<not> rx_first c octet_rx" "\<not> rx_first c dec_octet_rx"
  using assms unfolding bracket_def by (auto simp: rx_defs)

lemma brackets_first_groups:
  assumes "bracket c"
  shows "\<not> rx_first c group_rx" "\<not> rx_first c cgroup_rx" "\<not> rx_first c groupc_rx" "\<not> rx_first c dotted_rx"
    "\<not> rx_null (rx_char d)" "\<not> rx_null colon_rx" "\<not> rx_null groupc_rx" "\<not> rx_null dec_octet_rx" "\<not> rx_null octet_rx"
  using brackets_first [OF assms]
  by (auto simp: group_rx_def cgroup_rx_def groupc_rx_def dotted_rx_def rx_defs dest!: rx_first_rep)

lemma brackets_no_values:
  assumes "bracket c"
  shows "\<not> isVar [c]" "\<not> isValue [c]"
proof -
  note f = brackets_first [OF assms] brackets_first_groups [OF assms]
  have no: "regex_match [c] r \<Longrightarrow> rx_first c r" for r
    using rx_first_lang [of c "[]" r] by (simp add: regex_match_lang)
  show "\<not> isVar [c]"
    unfolding isVar_def Let_def using f by (auto dest!: no simp: rx_letter_def rx_class_def)
  have "\<not> isNumeric [c]"
    using assms by (auto simp: isNumeric_def is_digit_def bracket_def)
  moreover have "\<not> isValidIPv4 [c]"
    unfolding isValidIPv4_def using f by (auto simp: rx_rep_def rx_opt_def numeral_3_eq_3 dest!: no rx_first_seqs)
  moreover have "\<not> rx_first c ipv6_alternatives"
    using f by (auto simp: ipv6_alternatives_def rx_first_alts rx_opt_def dest!: rx_first_rep rx_first_seqs)
  then have "\<not> isValidIPv6 [c]"
    unfolding isValidIPv6_def using f by (auto dest!: no rx_first_seqs rx_first_rep simp: rx_opt_def)
  moreover have "\<not> isValidMACAddress [c]"
    unfolding isValidMACAddress_def using f
    by (auto dest!: no rx_first_rep) (auto simp: rx_rep_def rx_hex_def rx_class_def numeral_2_eq_2)
  moreover have "\<not> isBoolean [c]" "\<not> isString [c]" using assms by (auto simp: isBoolean_def isString_def bracket_def)
  ultimately show "\<not> isValue [c]" by (simp add: isValue_def)
qed

lemma simply_no_brackets: "simply_loop n (s # es) \<Longrightarrow> s \<noteq> ''{'' \<and> s \<noteq> ''}'' \<and> s \<noteq> ''['' \<and> s \<noteq> '']''"
proof -
  assume a: "simply_loop n (s # es)"
  have "s \<noteq> [c]" if "bracket c" for c
    using a brackets_no_values [OF that] that by (auto simp: bracket_def split: if_splits)
  then show ?thesis by (auto simp: bracket_def)
qed

lemma simply_tail: "simply_loop n (s # es) \<Longrightarrow> \<exists>m. simply_loop m es"
  by (auto split: if_splits)

lemma checks_keep_stack:
  "(if b1 then Some (if a1 then Some (st, t1) else None) else if b2 then Some (if a2 then Some (st, t2) else None)
    else if b3 then Some (if a3 then Some (st, t3) else None) else if b4 then Some (if a4 then Some (st, t4) else None)
    else if b5 then Some (if a5 then Some (st, t5) else None) else if b6 then Some (if a6 then Some (st, t6) else None)
    else if b7 then Some (if a7 then Some (st, t7) else None)
    else if b8 then (if a8 then Some (Some (st, t8)) else Some (if a9 then Some (st, t9) else None)) else Some None) =
   Some (Some (st', lt')) \<Longrightarrow> st' = st"
  by (simp split: if_split_asm)

lemma grammar_step_stack:
  assumes "grammar_step s (stack, lt) = Some (Some (stack', lt'))" and "s \<noteq> ''{'' \<and> s \<noteq> ''}'' \<and> s \<noteq> ''['' \<and> s \<noteq> '']''"
  shows "if s = ''('' then stack' = s # stack else if s = '')'' then stack \<noteq> [] \<and> stack' = tl stack else stack' = stack"
proof -
  consider (op) "s = ''(''" | (cl) "s = '')''" | (other) "s \<noteq> ''(''" "s \<noteq> '')''" by blast
  then show ?thesis
  proof cases
    case op
    then show ?thesis using assms(1) by (simp add: grammar_step_def split: if_split_asm)
  next
    case cl
    then show ?thesis using assms(1) by (auto simp: grammar_step_def close_with_def split: if_split_asm list.splits)
  next
    case other
    from assms(1) have "stack' = stack"
      unfolding grammar_step_def Let_def prod.case if_not_P [OF other(1)] if_not_P [OF other(2)]
        if_not_P [OF conjunct1 [OF assms(2)]] if_not_P [OF conjunct1 [OF conjunct2 [OF assms(2)]]]
        if_not_P [OF conjunct1 [OF conjunct2 [OF conjunct2 [OF assms(2)]]]]
        if_not_P [OF conjunct2 [OF conjunct2 [OF conjunct2 [OF assms(2)]]]]
      by (rule checks_keep_stack)
    then show ?thesis using other by simp
  qed
qed

lemma find_value_fault:
  fixes lk :: "'q lookups"
  shows "find_value aton lk w t v q \<noteq> Inl Empty_stack"
proof -
  have run: "(case r of None \<Rightarrow> Inl Lookup_undefined | Some x \<Rightarrow> Inr x) \<noteq> Inl Empty_stack" for r :: "(Answer list \<times> 'q) option"
    by (cases r) simp_all
  show ?thesis
    unfolding find_value_def Let_def
    by (simp only: run split: if_split sum.split option.split) (simp add: run)
qed

lemma search_step_stacks:
  assumes r: "search_step aton lk s st q = r" and len: "length (se_ops st) = n" "length (se_before st) = n"
    and close: "s = '')'' \<Longrightarrow> n > 0"
  shows "r \<noteq> Inl Empty_stack \<and> (\<forall>st' q'. r = Inr (st', q') \<longrightarrow>
    length (se_ops st') = (if s = ''('' then n + 1 else if s = '')'' then n - 1 else n) \<and> length (se_before st') = length (se_ops st'))"
proof (cases "s = ''('' \<or> s = '')''")
  case True
  then show ?thesis
  proof
    assume "s = ''(''"
    then show ?thesis using r len by (auto simp: search_step_def)
  next
    assume s: "s = '')''"
    with close len obtain op ops b bs where "se_ops st = op # ops" "se_before st = b # bs"
      by (cases "se_ops st"; cases "se_before st") auto
    then show ?thesis using s r len by (auto simp: search_step_def)
  qed
next
  case False
  show ?thesis
  proof (cases "s \<in> {''srcip'', ''dstip'', ''srcport'', ''dstport'', ''=='', ''&&'', ''||''}")
    case True
    then show ?thesis unfolding r [symmetric]
      by (elim insertE; simp add: search_step_def len)
  next
    case other: False
    have "r = (if se_wait st \<noteq> 0 then
        (case find_value aton lk (se_wait st) (se_cachePos st) s q of Inl e \<Rightarrow> Inl e
         | Inr (right, q') \<Rightarrow> Inr (st\<lparr>se_left := combine (se_op st) (se_left st) right\<rparr>, q'))
      else Inr (st, q))"
      using other False r by (simp add: search_step_def)
    then show ?thesis using False len find_value_fault [of aton lk "se_wait st" "se_cachePos st" s q]
      by (auto split: sum.splits if_splits)
  qed
qed

lemma grammar_search:
  assumes "grammar_loop es (stack, lt) = Some True" and "simply_loop n es"
    and "length (se_ops st) = length stack" "length (se_before st) = length stack"
  shows "search_loop aton lk es st q \<noteq> Inl Empty_stack"
  using assms
proof (induction es arbitrary: stack lt n st q)
  case (Cons s es)
  from Cons.prems(1) obtain stack' lt' where g: "grammar_step s (stack, lt) = Some (Some (stack', lt'))"
    "grammar_loop es (stack', lt') = Some True"
    by (auto split: Option.bind_splits option.splits)
  obtain m where m: "simply_loop m es" using simply_tail [OF Cons.prems(2)] by blast
  note shape = grammar_step_stack [OF g(1) simply_no_brackets [OF Cons.prems(2)]]
  have "s = '')'' \<Longrightarrow> length stack > 0" using shape by (auto split: if_splits)
  note st = search_step_stacks [where s = s and aton = aton and lk = lk and q = q, OF refl Cons.prems(3,4) this]
  show ?case
  proof (cases "search_step aton lk s st q")
    case (Inl e)
    then show ?thesis using st by simp
  next
    case (Inr r)
    obtain st' q' where r: "r = (st', q')" by (cases r)
    have "length (se_ops st') = length stack'" "length (se_before st') = length stack'"
      using st Inr r shape by (auto simp: One_nat_def split: if_splits)
    from Cons.IH [OF g(2) m this] show ?thesis using Inr r by simp
  qed
qed simp

text \<open>C8: an expression that passes both grammar checks never makes the search take the top of an empty
  stack, whatever the lookups answer; the stored tokens are those of the expression.\<close>

theorem accepted_search_is_safe:
  assumes "inputExpression junk t e = Some (True, t')"
  shows "searchExpression aton lk (qt_expList t') q \<noteq> Inl Empty_stack \<and> qt_expList t' = splitExpression junk e \<and> qt_expList t' \<noteq> []"
proof -
  from assms have a: "grammarVerify (splitExpression junk e) = Some True" "grammarVerifySimply (splitExpression junk e)"
    "qt_expList t' = splitExpression junk e" "splitExpression junk e \<noteq> []"
    by (auto simp: inputExpression_def Let_def split: if_splits Option.bind_splits)
  have "search_loop aton lk (qt_expList t') search_start q \<noteq> Inl Empty_stack"
    unfolding a(3) by (rule grammar_search [OF a(1) [unfolded grammarVerify_def] a(2) [unfolded grammarVerifySimply_def]])
      (simp_all add: search_start_def)
  then show ?thesis using a(3,4) by (auto simp: searchExpression_def split: sum.splits)
qed

text \<open>With the querier's own lookups every answer is empty, whatever the expression: the lookups print the
  packets and return no positions.\<close>

lemma find_value_source:
  assumes "find_value aton lk w t v q = Inr r"
  shows "(\<exists>key. lk_index lk key q = Some r) \<or> (\<exists>k1 k2. lk_range lk k1 k2 q = Some r)"
  using assms unfolding find_value_def Let_def
  by (simp only: split: if_split_asm sum.split_asm option.split_asm; blast)

lemma querier_answers_empty:
  assumes "searchExpression aton (querier_lookups env) es q = Inr (ans, q')"
  shows "ans = []"
proof -
  have c: "combine op [] [] = []" for op by (simp add: combine_def join_answers_def intersect_answers_def)
  have f: "fst r = []" if "find_value aton (querier_lookups env) w t v q = Inr r" for w t v q r
    using find_value_source [OF that]
    by (auto simp: querier_lookups_def getPointerByFlowMetaIndex_def getPointerByFlowMetaRange_def Option.bind_eq_Some_conv
        split: prod.split_asm)
  have step: "se_left st' = [] \<and> (\<forall>b \<in> set (se_before st'). b = [])"
    if r: "search_step aton (querier_lookups env) s st q = Inr (st', q')" and e: "se_left st = []" "\<forall>b \<in> set (se_before st). b = []"
    for s st q st' q'
  proof (cases "s \<in> {''('', '')'', ''srcip'', ''dstip'', ''srcport'', ''dstport'', ''=='', ''&&'', ''||''}")
    case True
    then show ?thesis
    proof (cases "s = '')''")
      case True
      then show ?thesis using r e c by (auto simp: search_step_def split: list.splits)
    next
      case False
      with \<open>s \<in> _\<close> show ?thesis
        by (elim insertE; use r e in \<open>auto simp: search_step_def\<close>)
    qed
  next
    case False
    then have *: "(if se_wait st \<noteq> 0 then
        (case find_value aton (querier_lookups env) (se_wait st) (se_cachePos st) s q of Inl e \<Rightarrow> Inl e
         | Inr (right, q') \<Rightarrow> Inr (st\<lparr>se_left := combine (se_op st) (se_left st) right\<rparr>, q'))
      else Inr (st, q)) = Inr (st', q')"
      using r by (simp add: search_step_def)
    show ?thesis
    proof (cases "find_value aton (querier_lookups env) (se_wait st) (se_cachePos st) s q")
      case (Inl x)
      then show ?thesis using * e by (auto split: if_split_asm)
    next
      case (Inr x)
      then show ?thesis using * e c f [OF Inr] by (cases x) (auto split: if_split_asm)
    qed
  qed
  have "se_left st' = []" if "search_loop aton (querier_lookups env) es st q = Inr (st', q')" "se_left st = []"
    "\<forall>b \<in> set (se_before st). b = []" for st' q' st q
    using that
  proof (induction es arbitrary: st q)
    case (Cons s es)
    show ?case
    proof (cases "search_step aton (querier_lookups env) s st q")
      case (Inl e)
      then show ?thesis using Cons.prems(1) by simp
    next
      case (Inr r)
      obtain st1 q1 where r: "r = (st1, q1)" by (cases r)
      then have "search_loop aton (querier_lookups env) es st1 q1 = Inr (st', q')" using Cons.prems(1) Inr by simp
      from Cons.IH [OF this] step [OF Inr [unfolded r] Cons.prems(2,3)] show ?thesis by blast
    qed
  qed simp
  then show ?thesis using assms by (auto simp: searchExpression_def search_start_def split: sum.splits)
qed

section \<open>Witnesses\<close>

theorem tokens_make_expression_witness:
  "concat (splitExpression (CHR 0x00) ''srcport == 80&&(dstport==443)'') = ''srcport==80&&(dstport==443)''"
proof -
  have "splitExpression (CHR 0x00) ''srcport == 80&&(dstport==443)'' \<noteq> []" by code_simp
  from tokens_make_expression [OF this] show ?thesis by simp
qed

definition count_lookups :: "nat lookups" where
  "count_lookups = \<lparr>lk_index = \<lambda>key n. Some ([\<lparr>ans_block_id = 0, ans_pointers = [n, n + 1]\<rparr>], n + 1),
     lk_range = \<lambda>key1 key2 n. Some ([], n)\<rparr>"

theorem search_evaluates_tree_witness:
  "searchExpression (\<lambda>_. None) count_lookups [''srcport'', ''=='', ''80'', ''&&'', ''('', ''dstport'', ''=='', ''443'', '')''] 5 =
     list_answers (\<lambda>_. None) count_lookups [(''||'', Q_atom ''srcport'' ''80''), (''&&'', Q_group [(''||'', Q_atom ''dstport'' ''443'')])]
       (Some ''||'') [] 5"
  using search_evaluates_tree [of "[(''||'', Q_atom ''srcport'' ''80''), (''&&'', Q_group [(''||'', Q_atom ''dstport'' ''443'')])]"]
  by (simp add: keyword_def)

lemma example_tokens: "isSlice ''srcport'' = False" "isVar ''srcport'' = True" "isSlice ''80'' = False" "isVar ''80'' = False"
  "isVar ''=='' = False"
  by code_simp+

lemma example_value: "isValue ''80'' = True"
proof -
  have "isNumeric ''80''" by code_simp
  then show ?thesis by (simp add: isValue_def)
qed

theorem accepted_search_is_safe_witness:
  "\<exists>t'. inputExpression (CHR 0x00) \<lparr>qt_originExpression = [], qt_expList = []\<rparr> ''srcport==80'' = Some (True, t') \<and>
     searchExpression (\<lambda>_. None) count_lookups (qt_expList t') 5 \<noteq> Inl Empty_stack"
proof -
  have sp: "splitExpression (CHR 0x00) ''srcport==80'' = [''srcport'', ''=='', ''80'']" by code_simp
  have g: "grammar_step ''srcport'' ([], EMPTY) = Some (Some ([], VAR))" "grammar_step ''=='' ([], VAR) = Some (Some ([], OP))"
    "grammar_step ''80'' ([], OP) = Some (Some ([], EXP))"
    by (simp_all add: grammar_step_def example_tokens example_value)
  have v: "grammarVerify [''srcport'', ''=='', ''80''] = Some True" by (simp add: grammarVerify_def g)
  have "simply_loop 2 [''80'']" "simply_loop 1 [''=='', ''80'']" "simply_loop 0 [''srcport'', ''=='', ''80'']"
    by (simp_all add: example_tokens example_value One_nat_def)
  then have "grammarVerifySimply [''srcport'', ''=='', ''80'']" by (simp only: grammarVerifySimply_def)
  with v have "inputExpression (CHR 0x00) \<lparr>qt_originExpression = [], qt_expList = []\<rparr> ''srcport==80'' =
      Some (True, \<lparr>qt_originExpression = ''srcport==80'', qt_expList = [''srcport'', ''=='', ''80'']\<rparr>)"
    unfolding inputExpression_def Let_def sp by simp
  from this conjunct1 [OF accepted_search_is_safe [OF this]] show ?thesis by (intro exI conjI)
qed

end
