(* ===== verification/SkipList.thy ===== *)
theory SkipList
  imports KeyTypes MemPool
begin

text \<open>
  The skip list of \<^verbatim>\<open>dpdk_lib/skipList.hpp\<close>, the index structure that the sorted blocks replaced
  and that the older buffers still use: nodes with a key, a value and one pointer per level, all
  reached from a head node. The nodes live in an explicit heap, a map from addresses to nodes with
  a counter for the next free address; a null pointer is \<open>None\<close>, an access through a null or
  dangling pointer or beyond the levels of a node is undefined (\<open>None\<close> as a result). A key is the
  byte string of its type (for the IPv6 four-tuple with its 4 bytes of padding); a list for an
  unsupported key length prints an error at every access and does nothing. The calls are run one
  after the other; a lock that is already taken is never released then. The level drawn by the
  random generator is an argument. Loops along pointers may run forever in a malformed list, so
  they are partial functions.
\<close>

declare One_nat_def [simp del]

section \<open>Nodes\<close>

record SkipListNode =
  sn_key :: bytes
  sn_value :: nat
  sn_next :: "nat option list"
  sn_mutex :: bool

record SkipList =
  sl_keyLen :: nat
  sl_valueLen :: nat
  sl_maxLevel :: nat
  sl_now_level :: nat
  sl_head :: "nat option"
  sl_nodeNum :: nat
  sl_nodes :: "nat \<Rightarrow> SkipListNode option"
  sl_fresh :: nat

definition SkipList_new :: SkipList where
  "SkipList_new = \<lparr>sl_keyLen = 0, sl_valueLen = 0, sl_maxLevel = 0, sl_now_level = 0, sl_head = None,
     sl_nodeNum = 0, sl_nodes = (\<lambda>p. None), sl_fresh = 0\<rparr>"

definition supported :: "nat \<Rightarrow> bool" where
  "supported key_len \<longleftrightarrow> key_len \<in> {1, 2, 4, 8, 12, 16, 40}"

definition node_at :: "SkipList \<Rightarrow> nat option \<Rightarrow> SkipListNode option" where
  "node_at sl node = do { p \<leftarrow> node; sl_nodes sl p }"

definition newNode :: "SkipList \<Rightarrow> bytes \<Rightarrow> nat \<Rightarrow> nat \<Rightarrow> (nat option \<times> SkipList) option" where
  "newNode sl key val level =
     (if supported (sl_keyLen sl)
      then if length key < sl_keyLen sl \<or> level \<ge> 2147483648 then None
        else Some (Some (sl_fresh sl),
          sl\<lparr>sl_nodes := (sl_nodes sl)(sl_fresh sl \<mapsto>
              \<lparr>sn_key = take (sl_keyLen sl) key, sn_value = val, sn_next = replicate level None, sn_mutex = False\<rparr>),
            sl_fresh := sl_fresh sl + 1\<rparr>)
      else Some (None, sl))"

definition deleteNode :: "SkipList \<Rightarrow> nat option \<Rightarrow> SkipList option" where
  "deleteNode sl node =
     (if supported (sl_keyLen sl)
      then case node of None \<Rightarrow> Some sl
        | Some p \<Rightarrow> do { nd \<leftarrow> sl_nodes sl p; Some (sl\<lparr>sl_nodes := (sl_nodes sl)(p := None)\<rparr>) }
      else Some sl)"

definition getNext :: "SkipList \<Rightarrow> nat option \<Rightarrow> nat \<Rightarrow> nat option option" where
  "getNext sl node level =
     (if supported (sl_keyLen sl) then do { nd \<leftarrow> node_at sl node; vec_get (sn_next nd) level }
      else Some None)"

definition putNext :: "SkipList \<Rightarrow> nat option \<Rightarrow> nat \<Rightarrow> nat option \<Rightarrow> SkipList option" where
  "putNext sl node level next =
     (if supported (sl_keyLen sl)
      then do {
        p \<leftarrow> node;
        nd \<leftarrow> sl_nodes sl p;
        l \<leftarrow> vec_set (sn_next nd) level next;
        Some (sl\<lparr>sl_nodes := (sl_nodes sl)(p \<mapsto> nd\<lparr>sn_next := l\<rparr>)\<rparr>) }
      else Some sl)"

fun clear_levels :: "SkipList \<Rightarrow> nat option \<Rightarrow> nat list \<Rightarrow> SkipList option" where
  "clear_levels sl node [] = Some sl"
| "clear_levels sl node (i # is) = do { sl' \<leftarrow> putNext sl node i None; clear_levels sl' node is }"

definition clearHead :: "SkipList \<Rightarrow> SkipList option" where
  "clearHead sl =
     (if sl_head sl = None then Some sl
      else if supported (sl_keyLen sl) then clear_levels sl (sl_head sl) [0..<sl_maxLevel sl]
      else Some sl)"

text \<open>For an unsupported key length the code returns an uninitialised value.\<close>

definition getValue :: "SkipList \<Rightarrow> nat option \<Rightarrow> nat option" where
  "getValue sl node =
     (if supported (sl_keyLen sl) then map_option sn_value (node_at sl node) else None)"

definition getKey :: "SkipList \<Rightarrow> nat option \<Rightarrow> bytes option" where
  "getKey sl node =
     (if supported (sl_keyLen sl) then map_option sn_key (node_at sl node) else Some [])"

text \<open>Keys are compared as the type of their length: the members of the four-tuples lie in the order
  destination port, source port, destination address, source address.\<close>

definition decode_quad4 :: "bytes \<Rightarrow> QuarTurpleIPv4" where
  "decode_quad4 bs = QuarTurpleIPv4 (word_of_nat (le_decode (take 2 bs))) (word_of_nat (le_decode (take 2 (drop 2 bs))))
     (word_of_nat (le_decode (take 4 (drop 4 bs)))) (word_of_nat (le_decode (take 4 (drop 8 bs))))"

definition decode_quad6 :: "bytes \<Rightarrow> QuarTurpleIPv6" where
  "decode_quad6 bs = QuarTurpleIPv6 (word_of_nat (le_decode (take 2 bs))) (word_of_nat (le_decode (take 2 (drop 2 bs))))
     (decode_ipv6 (drop 8 bs)) (decode_ipv6 (drop 24 bs))"

definition key_lt :: "nat \<Rightarrow> bytes \<Rightarrow> bytes \<Rightarrow> bool" where
  "key_lt key_len a b =
     (if key_len = 12 then quad4_lt (decode_quad4 a) (decode_quad4 b)
      else if key_len = 16 then ipv6_lt (decode_ipv6 a) (decode_ipv6 b)
      else if key_len = 40 then quad6_lt (decode_quad6 a) (decode_quad6 b)
      else le_decode (take key_len a) < le_decode (take key_len b))"

definition key_gt :: "nat \<Rightarrow> bytes \<Rightarrow> bytes \<Rightarrow> bool" where
  "key_gt key_len a b =
     (if key_len = 12 then quad4_gt (decode_quad4 a) (decode_quad4 b)
      else if key_len = 16 then ipv6_gt (decode_ipv6 a) (decode_ipv6 b)
      else if key_len = 40 then quad6_gt (decode_quad6 a) (decode_quad6 b)
      else le_decode (take key_len a) > le_decode (take key_len b))"

definition compareNodeKey :: "SkipList \<Rightarrow> nat option \<Rightarrow> bytes \<Rightarrow> int option" where
  "compareNodeKey sl node key =
     (if supported (sl_keyLen sl)
      then do {
        nd \<leftarrow> node_at sl node;
        if length key < sl_keyLen sl then None
        else Some (if key_lt (sl_keyLen sl) (sn_key nd) key then - 1
                   else if key_gt (sl_keyLen sl) (sn_key nd) key then 1 else 0) }
      else Some 0)"

definition compareNode :: "SkipList \<Rightarrow> nat option \<Rightarrow> nat option \<Rightarrow> int option" where
  "compareNode sl node other =
     (if supported (sl_keyLen sl)
      then do {
        nd \<leftarrow> node_at sl node;
        od \<leftarrow> node_at sl other;
        Some (if key_lt (sl_keyLen sl) (sn_key nd) (sn_key od) then - 1
              else if key_gt (sl_keyLen sl) (sn_key nd) (sn_key od) then 1 else 0) }
      else Some 0)"

definition set_mutex :: "SkipList \<Rightarrow> nat option \<Rightarrow> bool \<Rightarrow> SkipList option" where
  "set_mutex sl node locked = do {
     p \<leftarrow> node;
     nd \<leftarrow> sl_nodes sl p;
     Some (sl\<lparr>sl_nodes := (sl_nodes sl)(p \<mapsto> nd\<lparr>sn_mutex := locked\<rparr>)\<rparr>) }"

definition lockNode :: "SkipList \<Rightarrow> nat option \<Rightarrow> SkipList option" where
  "lockNode sl node =
     (if supported (sl_keyLen sl)
      then do { nd \<leftarrow> node_at sl node; if sn_mutex nd then None else set_mutex sl node True }
      else Some sl)"

definition unlockNode :: "SkipList \<Rightarrow> nat option \<Rightarrow> SkipList option" where
  "unlockNode sl node = (if supported (sl_keyLen sl) then set_mutex sl node False else Some sl)"

section \<open>Construction\<close>

definition sl_init :: "SkipList \<Rightarrow> nat \<Rightarrow> nat \<Rightarrow> nat \<Rightarrow> SkipList option" where
  "sl_init sl maxLvl keyLen valueLen = do {
     let sl1 = sl\<lparr>sl_maxLevel := maxLvl, sl_keyLen := keyLen, sl_valueLen := valueLen\<rparr>;
     (p, sl2) \<leftarrow> newNode sl1 (replicate keyLen 0) 0 maxLvl;
     Some (sl2\<lparr>sl_head := p\<rparr>) }"

definition addHead :: "SkipList \<Rightarrow> nat option \<Rightarrow> SkipList option" where
  "addHead sl head = (if sl_head sl \<noteq> None then Some sl else clearHead (sl\<lparr>sl_head := head\<rparr>))"

definition sl_clear :: "SkipList \<Rightarrow> SkipList option" where
  "sl_clear sl =
     (if sl_head sl = None then Some sl
      else do { sl1 \<leftarrow> clearHead sl; Some (sl1\<lparr>sl_nodeNum := 0\<rparr>) })"

definition SkipList_delete :: "SkipList \<Rightarrow> SkipList option" where
  "SkipList_delete sl =
     (if sl_head sl \<noteq> None then do { sl1 \<leftarrow> deleteNode sl (sl_head sl); Some (sl1\<lparr>sl_head := None\<rparr>) }
      else Some sl)"

section \<open>Insertion\<close>

text \<open>\<open>drawn\<close> is the 32-bit number that the code computes from the random number.\<close>

definition randomLevel :: "nat \<Rightarrow> nat \<Rightarrow> nat" where
  "randomLevel drawn max_level = (if drawn > max_level then max_level else drawn)"

text \<open>The inner loop of the searches: along one level as long as the next key is smaller.\<close>

partial_function (option) walk :: "SkipList \<Rightarrow> bytes \<Rightarrow> nat \<Rightarrow> nat option \<Rightarrow> nat option option" where
  "walk sl key i cur = do {
     nxt \<leftarrow> getNext sl cur i;
     if nxt = None then Some cur
     else do {
       c \<leftarrow> compareNodeKey sl nxt key;
       if c < 0 then walk sl key i nxt else Some cur } }"

fun search_update :: "SkipList \<Rightarrow> bytes \<Rightarrow> nat \<Rightarrow> nat option \<Rightarrow> nat option list \<Rightarrow> nat option list option" where
  "search_update sl key 0 cur update = Some update"
| "search_update sl key (Suc i) cur update = do {
     c \<leftarrow> walk sl key i cur;
     u \<leftarrow> vec_set update i c;
     search_update sl key i c u }"

partial_function (option) link_level :: "SkipList \<Rightarrow> bytes \<Rightarrow> nat option \<Rightarrow> nat \<Rightarrow> nat option \<Rightarrow> SkipList option" where
  "link_level sl key new i u = do {
     sl1 \<leftarrow> lockNode sl u;
     nxt \<leftarrow> getNext sl1 u i;
     smaller \<leftarrow> (if nxt = None then Some False else map_option (\<lambda>c. c < 0) (compareNodeKey sl1 nxt key));
     if smaller
     then do {
       sl2 \<leftarrow> unlockNode sl1 u;
       u' \<leftarrow> getNext sl2 u i;
       link_level sl2 key new i u' }
     else do {
       sl2 \<leftarrow> putNext sl1 new i nxt;
       sl3 \<leftarrow> putNext sl2 u i new;
       unlockNode sl3 u } }"

fun link_levels :: "SkipList \<Rightarrow> bytes \<Rightarrow> nat option \<Rightarrow> nat option list \<Rightarrow> nat list \<Rightarrow> SkipList option" where
  "link_levels sl key new update [] = Some sl"
| "link_levels sl key new update (i # is) = do {
     u \<leftarrow> vec_get update i;
     sl' \<leftarrow> link_level sl key new i u;
     link_levels sl' key new update is }"

definition raise_level :: "SkipList \<Rightarrow> nat \<Rightarrow> SkipList" where
  "raise_level sl newLevel = (if sl_now_level sl < newLevel then sl\<lparr>sl_now_level := newLevel\<rparr> else sl)"

definition sl_insert :: "SkipList \<Rightarrow> bytes \<Rightarrow> nat \<Rightarrow> nat \<Rightarrow> (bool \<times> SkipList) option" where
  "sl_insert sl key val drawn =
     (if length key \<noteq> sl_keyLen sl then Some (True, sl)
      else do {
        let sl1 = sl\<lparr>sl_nodeNum := add64 (sl_nodeNum sl) 1\<rparr>;
        let newLevel = randomLevel drawn (sl_maxLevel sl1);
        (new, sl2) \<leftarrow> newNode sl1 key val newLevel;
        let nowLevel = sl_now_level sl2;
        update \<leftarrow> search_update sl2 key (if nowLevel > newLevel then nowLevel else newLevel) (sl_head sl2)
                    (replicate (sl_maxLevel sl2) None);
        sl3 \<leftarrow> link_levels sl2 key new update [0..<newLevel];
        Some (True, raise_level sl3 newLevel) })"

section \<open>Queries\<close>

fun descend :: "SkipList \<Rightarrow> bytes \<Rightarrow> nat \<Rightarrow> nat option \<Rightarrow> nat option option" where
  "descend sl key 0 cur = Some cur"
| "descend sl key (Suc i) cur = do { c \<leftarrow> walk sl key i cur; descend sl key i c }"

text \<open>The loop over the nodes of level 0; the answers are 32-bit numbers.\<close>

partial_function (option) collect :: "SkipList \<Rightarrow> bytes \<Rightarrow> (nat option \<Rightarrow> bool option) \<Rightarrow> nat option \<Rightarrow> nat list option" where
  "collect sl first_key stop node =
     (if node = None then Some []
      else do {
        c \<leftarrow> compareNodeKey sl node first_key;
        if c < 0 then do { nxt \<leftarrow> getNext sl node 0; collect sl first_key stop nxt }
        else do {
          s \<leftarrow> stop node;
          if s then Some []
          else do {
            v \<leftarrow> getValue sl node;
            nxt \<leftarrow> getNext sl node 0;
            res \<leftarrow> collect sl first_key stop nxt;
            Some (v mod 4294967296 # res) } } })"

definition findByKey :: "SkipList \<Rightarrow> bytes \<Rightarrow> nat list option" where
  "findByKey sl key =
     (if sl_head sl = None then Some []
      else if length key \<noteq> sl_keyLen sl then Some []
      else do {
        cur \<leftarrow> descend sl key (sl_now_level sl) (sl_head sl);
        beginNode \<leftarrow> getNext sl cur 0;
        collect sl key (\<lambda>node. map_option (\<lambda>c. c > 0) (compareNodeKey sl node key)) beginNode })"

definition findByRange :: "SkipList \<Rightarrow> bytes \<Rightarrow> bytes \<Rightarrow> nat list option" where
  "findByRange sl first_key last_key =
     (if sl_head sl = None then Some []
      else if length first_key \<noteq> sl_keyLen sl \<or> length last_key \<noteq> sl_keyLen sl then Some []
      else do {
        cur \<leftarrow> descend sl first_key (sl_now_level sl) (sl_head sl);
        beginNode \<leftarrow> getNext sl cur 0;
        collect sl first_key (\<lambda>node. map_option (\<lambda>c. c \<ge> 0) (compareNodeKey sl node last_key)) beginNode })"

section \<open>Writing the list to the index buffer\<close>

text \<open>Every node is deleted once its successor has been reached; the answers of the buffer are
  ignored.\<close>

definition delete_last :: "SkipList \<Rightarrow> nat option \<Rightarrow> SkipList option" where
  "delete_last sl last_node =
     (if last_node \<noteq> sl_head sl \<and> last_node \<noteq> None then deleteNode sl last_node else Some sl)"

partial_function (option) write_nodes :: "nat \<Rightarrow> nat \<Rightarrow> SkipList \<Rightarrow> IndexBlockBuffer \<Rightarrow> nat \<Rightarrow> nat option \<Rightarrow> nat option \<Rightarrow>
    (SkipList \<times> IndexBlockBuffer) option" where
  "write_nodes thread_id disk_pos sl buffer offset last_node node =
     (if node = None then do { sl1 \<leftarrow> delete_last sl last_node; Some (sl1, buffer) }
      else do {
        sl1 \<leftarrow> delete_last sl last_node;
        key \<leftarrow> getKey sl1 node;
        key_bytes \<leftarrow> mread key 0 (sl_keyLen sl1);
        r1 \<leftarrow> ib_writeBlock buffer key_bytes (add64 disk_pos offset) thread_id;
        let offset1 = add64 offset (sl_keyLen sl1);
        val \<leftarrow> getValue sl1 node;
        value_bytes \<leftarrow> mread (le_encode 8 val) 0 (sl_valueLen sl1);
        r2 \<leftarrow> ib_writeBlock (snd r1) value_bytes (add64 disk_pos offset1) thread_id;
        let offset2 = add64 offset1 (sl_valueLen sl1);
        nxt \<leftarrow> getNext sl1 node 0;
        write_nodes thread_id disk_pos sl1 (snd r2) offset2 node nxt })"

definition writeNode :: "SkipList \<Rightarrow> IndexBlockBuffer \<Rightarrow> nat \<Rightarrow> nat \<Rightarrow> (SkipList \<times> IndexBlockBuffer) option" where
  "writeNode sl buffer thread_id disk_pos = do {
     node \<leftarrow> getNext sl (sl_head sl) 0;
     write_nodes thread_id disk_pos sl buffer 0 (sl_head sl) node }"

section \<open>Sorted lists of entries\<close>

text \<open>What the list stands for: its entries in the order of level 0. A new entry goes before the
  entries with an equal key.\<close>

fun sorted_insert :: "('k \<Rightarrow> 'k \<Rightarrow> bool) \<Rightarrow> 'k \<times> 'v \<Rightarrow> ('k \<times> 'v) list \<Rightarrow> ('k \<times> 'v) list" where
  "sorted_insert lt e [] = [e]"
| "sorted_insert lt e (x # xs) = (if lt (fst x) (fst e) then x # sorted_insert lt e xs else e # x # xs)"

locale weak_order =
  fixes lt :: "'k \<Rightarrow> 'k \<Rightarrow> bool"
  assumes lt_irrefl: "\<not> lt a a"
    and lt_trans: "lt a b \<Longrightarrow> lt b c \<Longrightarrow> lt a c"
    and not_lt_trans: "\<not> lt b a \<Longrightarrow> \<not> lt c b \<Longrightarrow> \<not> lt c a"
begin

lemma lt_asym: "lt a b \<Longrightarrow> \<not> lt b a"
  using lt_trans lt_irrefl by blast

lemma lt_less_trans: "lt a b \<Longrightarrow> \<not> lt c b \<Longrightarrow> lt a c"
  using not_lt_trans lt_trans by blast

lemma insert_split:
  "sorted_insert lt e xs = takeWhile (\<lambda>x. lt (fst x) (fst e)) xs @ e # dropWhile (\<lambda>x. lt (fst x) (fst e)) xs"
  by (induction xs) simp_all

lemma insert_sorted:
  "sorted_wrt (\<lambda>x y. \<not> lt (fst y) (fst x)) xs \<Longrightarrow> sorted_wrt (\<lambda>x y. \<not> lt (fst y) (fst x)) (sorted_insert lt e xs)"
proof (induction xs)
  case (Cons x xs)
  have sub: "set (sorted_insert lt e ys) = insert e (set ys)" for ys by (induction ys) auto
  show ?case
  proof (cases "lt (fst x) (fst e)")
    case True
    then have "\<not> lt (fst e) (fst x)" using lt_irrefl lt_trans by blast
    with True Cons show ?thesis by (simp add: sub)
  next
    case False
    then have "\<forall>y \<in> set xs. \<not> lt (fst y) (fst e)" using Cons.prems not_lt_trans by simp
    with False Cons.prems show ?thesis by simp
  qed
qed simp

lemma filter_insert:
  assumes same: "\<And>x y. P x \<Longrightarrow> P y \<Longrightarrow> \<not> lt (fst x) (fst y)"
  shows "filter P (sorted_insert lt e xs) = filter P (e # xs)"
  using same [of _ e] by (induction xs) auto

lemma smaller_prefix:
  "sorted_wrt (\<lambda>x y. \<not> lt y x) ks \<Longrightarrow> takeWhile (\<lambda>x. lt x k) ks = filter (\<lambda>x. lt x k) ks"
proof (induction ks)
  case (Cons x ks)
  have "filter (\<lambda>y. lt y k) ks = []" if "\<not> lt x k"
    using Cons.prems that not_lt_trans by (auto simp: filter_empty_conv)
  with Cons show ?case by auto
qed simp

lemma not_greater_prefix:
  "sorted_wrt (\<lambda>x y. \<not> lt y x) ks \<Longrightarrow> takeWhile (\<lambda>x. \<not> lt k x) ks = filter (\<lambda>x. \<not> lt k x) ks"
proof (induction ks)
  case (Cons x ks)
  have "lt k y" if "lt k x" "y \<in> set ks" for y
    using Cons.prems that(2) by (intro lt_less_trans [OF that(1)]) simp
  then have "filter (\<lambda>y. \<not> lt k y) ks = []" if "lt k x"
    using that by (simp add: filter_empty_conv)
  with Cons show ?case by (cases "lt k x") simp_all
qed simp

end

lemma quad4_lt_less: "quad4_lt a b \<longleftrightarrow> a < b" and quad6_lt_less: "quad6_lt c d \<longleftrightarrow> c < d"
  and ipv6_lt_less: "ipv6_lt x y \<longleftrightarrow> x < y"
  by (simp_all add: less_QuarTurpleIPv4_def less_QuarTurpleIPv6_def less_IPv6Address_def)

lemma key_gt_lt: "key_gt kl a b = key_lt kl b a"
  by (simp add: key_gt_def key_lt_def quad4_gt_lt quad6_gt_lt ipv6_gt_lt)

interpretation keys: weak_order "key_lt kl" for kl
  by unfold_locales (auto simp: key_lt_def quad4_lt_less quad6_lt_less ipv6_lt_less not_less split: if_split_asm)

section \<open>Chains of nodes\<close>

text \<open>The keys of addresses and ports are ordered as numbers.\<close>

lemma le_decode_inj: "length a = length b \<Longrightarrow> le_decode a = le_decode b \<Longrightarrow> a = b"
  by (metis le_encode_decode)

lemma key_lt_value:
  assumes "kl = 1 \<or> kl = 2 \<or> kl = 4 \<or> kl = 8 \<or> kl = 16" and "length a = kl" and "length b = kl"
  shows "key_lt kl a b \<longleftrightarrow> le_decode a < le_decode b"
proof (cases "kl = 16")
  case True
  then show ?thesis using assms(2,3) by (simp add: key_lt_def ipv6_lt_value decode_ipv6_value)
next
  case False
  then have "kl \<noteq> 12" "kl \<noteq> 40" using assms(1) by auto
  then show ?thesis using False assms(2,3) by (simp add: key_lt_def)
qed

lemma key_unordered:
  assumes "kl = 1 \<or> kl = 2 \<or> kl = 4 \<or> kl = 8 \<or> kl = 16" and "length a = kl" and "length b = kl"
  shows "\<not> key_lt kl a b \<and> \<not> key_lt kl b a \<longleftrightarrow> a = b"
  using key_lt_value [OF assms] key_lt_value [OF assms(1,3,2)] le_decode_inj [of a b] assms(2,3) by auto

definition first_of :: "'a list \<Rightarrow> 'a option" where
  "first_of xs = (case xs of [] \<Rightarrow> None | x # _ \<Rightarrow> Some x)"

lemma first_of_simps [simp]: "first_of [] = None" "first_of (x # xs) = Some x"
  by (simp_all add: first_of_def)

lemma first_of_append: "first_of (xs @ y # ys) = first_of (xs @ y # zs)"
  by (cases xs) simp_all

fun linked :: "('p \<Rightarrow> 'p option option) \<Rightarrow> 'p list \<Rightarrow> bool" where
  "linked nxt [] = True"
| "linked nxt (p # ps) \<longleftrightarrow> nxt p = Some (first_of ps) \<and> linked nxt ps"

lemma linked_suffix: "linked nxt (xs @ ys) \<Longrightarrow> linked nxt ys"
  by (induction xs) auto

lemma linked_next: "linked nxt (xs @ c # ys) \<Longrightarrow> nxt c = Some (first_of ys)"
  by (induction xs) auto

lemma linked_cong: "linked f ps \<Longrightarrow> (\<And>p. p \<in> set ps \<Longrightarrow> g p = f p) \<Longrightarrow> linked g ps"
  by (induction ps) auto

lemma linked_insert:
  assumes "linked f (xs @ c # zs)" and "distinct (xs @ c # zs)" and "n \<notin> set (xs @ c # zs)"
    and "\<And>p. g p = (if p = n then Some (first_of zs) else if p = c then Some (Some n) else f p)"
  shows "linked g (xs @ c # n # zs)"
  using assms(1-3)
proof (induction xs)
  case Nil
  then show ?case by (auto simp: assms(4) intro: linked_cong [of f])
next
  case (Cons x xs)
  have "first_of (xs @ c # n # zs) = first_of (xs @ c # zs)" by (rule first_of_append)
  with Cons show ?case by (auto simp: assms(4))
qed

text \<open>The pointer of a node at a level, its number of levels, its key and value.\<close>

definition next_at :: "SkipList \<Rightarrow> nat \<Rightarrow> nat \<Rightarrow> nat option option" where
  "next_at s i p = do { nd \<leftarrow> sl_nodes s p; vec_get (sn_next nd) i }"

definition levels_of :: "SkipList \<Rightarrow> nat \<Rightarrow> nat" where
  "levels_of s p = length (sn_next (the (sl_nodes s p)))"

definition entry_of :: "SkipList \<Rightarrow> nat \<Rightarrow> bytes \<times> nat" where
  "entry_of s p = (sn_key (the (sl_nodes s p)), sn_value (the (sl_nodes s p)))"

definition good_node :: "SkipList \<Rightarrow> nat \<Rightarrow> bool" where
  "good_node s p \<longleftrightarrow> (\<exists>nd. sl_nodes s p = Some nd \<and> \<not> sn_mutex nd \<and> length (sn_key nd) = sl_keyLen s)"

abbreviation smaller :: "SkipList \<Rightarrow> bytes \<Rightarrow> nat \<Rightarrow> bool" where
  "smaller s key p \<equiv> key_lt (sl_keyLen s) (fst (entry_of s p)) key"

text \<open>The list \<open>s\<close> with head \<open>h\<close> holds the nodes \<open>ns\<close> in this order.\<close>

definition sl_rep :: "SkipList \<Rightarrow> nat \<Rightarrow> nat list \<Rightarrow> bool" where
  "sl_rep s h ns \<longleftrightarrow>
     supported (sl_keyLen s) \<and> sl_head s = Some h \<and> 0 < sl_maxLevel s \<and> sl_maxLevel s < 2147483648 \<and>
     sl_now_level s \<le> sl_maxLevel s \<and> distinct (h # ns) \<and>
     (\<forall>p \<in> set (h # ns). good_node s p \<and> p < sl_fresh s) \<and>
     levels_of s h = sl_maxLevel s \<and> (\<forall>p \<in> set ns. 0 < levels_of s p \<and> levels_of s p \<le> sl_now_level s) \<and>
     (\<forall>i < sl_maxLevel s. linked (next_at s i) (h # filter (\<lambda>p. i < levels_of s p) ns)) \<and>
     sorted_wrt (\<lambda>x y. \<not> key_lt (sl_keyLen s) (fst y) (fst x)) (map (entry_of s) ns)"

lemma getNext_at: "supported (sl_keyLen s) \<Longrightarrow> getNext s (Some p) i = next_at s i p"
  by (simp add: getNext_def node_at_def next_at_def)

lemma compare_at:
  assumes "supported (sl_keyLen s)" and "good_node s p" and "length key = sl_keyLen s"
  shows "compareNodeKey s (Some p) key =
    Some (if smaller s key p then - 1 else if key_lt (sl_keyLen s) key (fst (entry_of s p)) then 1 else 0)"
  using assms by (auto simp: compareNodeKey_def node_at_def good_node_def entry_of_def key_gt_lt)

section \<open>Searching\<close>

lemma walk_spec:
  assumes "supported (sl_keyLen s)" and "length key = sl_keyLen s"
    and "linked (next_at s i) (p # ys @ zs)" and "\<forall>q \<in> set (ys @ zs). good_node s q"
    and "\<forall>q \<in> set ys. smaller s key q" and "\<forall>q \<in> set zs. \<not> smaller s key q"
  shows "walk s key i (Some p) = Some (Some (last (p # ys)))"
  using assms(3-6)
proof (induction ys arbitrary: p)
  case Nil
  then show ?case
    by (subst walk.simps) (cases zs; simp add: getNext_at assms(1,2) compare_at)
next
  case (Cons y ys)
  have "walk s key i (Some y) = Some (Some (last (y # ys)))" by (rule Cons.IH) (use Cons.prems in auto)
  with Cons.prems show ?case
    by (subst walk.simps) (simp add: getNext_at assms(1,2) compare_at)
qed

text \<open>The last node of a level that lies before a place of the list.\<close>

definition before_at :: "SkipList \<Rightarrow> nat \<Rightarrow> nat list \<Rightarrow> nat \<Rightarrow> nat" where
  "before_at s h B i = last (h # filter (\<lambda>p. i < levels_of s p) B)"

lemma before_at_split:
  obtains xs where "h # filter (\<lambda>p. i < levels_of s p) B = xs @ [before_at s h B i]"
  unfolding before_at_def by (metis append_butlast_last_id list.distinct(1))

lemma before_at_in: "before_at s h B i \<in> set (h # B)"
  unfolding before_at_def using last_in_set [of "h # filter (\<lambda>p. i < levels_of s p) B"] by auto

lemma walk_level:
  assumes "supported (sl_keyLen s)" and "length key = sl_keyLen s"
    and "linked (next_at s i) (h # filter (\<lambda>p. i < levels_of s p) (B @ A))" and "\<forall>q \<in> set (B @ A). good_node s q"
    and "\<forall>q \<in> set B. smaller s key q" and "\<forall>q \<in> set A. \<not> smaller s key q"
  shows "walk s key i (Some (before_at s h B (Suc i))) = Some (Some (before_at s h B i))"
proof -
  let ?l = "\<lambda>i. filter (\<lambda>p. i < levels_of s p)"
  have "before_at s h B (Suc i) \<in> set (h # ?l i B)"
    unfolding before_at_def using last_in_set [of "h # ?l (Suc i) B"] by auto
  then obtain xs ys where e: "h # ?l i B = xs @ before_at s h B (Suc i) # ys" by (meson split_list)
  have l: "linked (next_at s i) (before_at s h B (Suc i) # ys @ ?l i A)"
    by (rule linked_suffix [of _ xs])
      (use assms(3) arg_cong [OF e, of "\<lambda>l. l @ ?l i A"] in \<open>simp only: filter_append append_assoc append_Cons\<close>)
  have "set ys \<subseteq> set B"
  proof -
    from e have "set ys \<subseteq> set (?l i B)" by (cases xs) auto
    then show ?thesis by auto
  qed
  then have "walk s key i (Some (before_at s h B (Suc i))) = Some (Some (last (before_at s h B (Suc i) # ys)))"
    by (intro walk_spec [OF assms(1,2) l]) (use assms(4-6) in auto)
  moreover have "last (before_at s h B (Suc i) # ys) = before_at s h B i"
    using arg_cong [OF e, of last] by (simp only: before_at_def last_appendR list.distinct(2)) simp
  ultimately show ?thesis by (simp only:)
qed

lemma search_spec:
  assumes "supported (sl_keyLen s)" and "length key = sl_keyLen s"
    and "\<forall>i < hi. linked (next_at s i) (h # filter (\<lambda>p. i < levels_of s p) (B @ A))" and "\<forall>q \<in> set (B @ A). good_node s q"
    and "\<forall>q \<in> set B. smaller s key q" and "\<forall>q \<in> set A. \<not> smaller s key q"
  shows "descend s key hi (Some (before_at s h B hi)) = Some (Some (before_at s h B 0))"
    and "hi \<le> length update \<Longrightarrow> \<exists>u. search_update s key hi (Some (before_at s h B hi)) update = Some u \<and>
      length u = length update \<and> (\<forall>i < hi. u ! i = Some (before_at s h B i)) \<and> (\<forall>i < length u. hi \<le> i \<longrightarrow> u ! i = update ! i)"
  using assms(3)
proof (induction hi arbitrary: update)
  case (Suc i)
  have w: "walk s key i (Some (before_at s h B (Suc i))) = Some (Some (before_at s h B i))"
    if "\<forall>k < Suc i. linked (next_at s k) (h # filter (\<lambda>p. k < levels_of s p) (B @ A))"
    using walk_level [OF assms(1,2) _ assms(4-6)] that by blast
  {
    case 1
    show ?case using Suc.IH(1) 1 w [OF 1] by simp
  next
    case 2
    note w = w [OF 2(2)]
    from 2 obtain u where "search_update s key i (Some (before_at s h B i)) (update[i := Some (before_at s h B i)]) = Some u"
      "length u = length update" "\<forall>k < i. u ! k = Some (before_at s h B k)"
      "\<forall>k < length u. i \<le> k \<longrightarrow> u ! k = update[i := Some (before_at s h B i)] ! k"
      using Suc.IH(2) [of "update[i := Some (before_at s h B i)]"] by auto
    then show ?case using 2 by (auto simp: w vec_set_in less_Suc_eq)
  }
qed simp_all

section \<open>Linking a node\<close>

text \<open>Two states with the same nodes up to their pointers.\<close>

definition same_nodes :: "SkipList \<Rightarrow> SkipList \<Rightarrow> bool" where
  "same_nodes s s' \<longleftrightarrow> s' = s\<lparr>sl_nodes := sl_nodes s'\<rparr> \<and>
     (\<forall>p. map_option (\<lambda>nd. (sn_key nd, sn_value nd, length (sn_next nd), sn_mutex nd)) (sl_nodes s' p) =
          map_option (\<lambda>nd. (sn_key nd, sn_value nd, length (sn_next nd), sn_mutex nd)) (sl_nodes s p))"

lemma same_nodes_fields:
  assumes "same_nodes s s'"
  shows "sl_keyLen s' = sl_keyLen s" "sl_valueLen s' = sl_valueLen s" "sl_maxLevel s' = sl_maxLevel s"
    "sl_now_level s' = sl_now_level s" "sl_head s' = sl_head s" "sl_nodeNum s' = sl_nodeNum s" "sl_fresh s' = sl_fresh s"
proof -
  obtain x where e: "s' = s\<lparr>sl_nodes := x\<rparr>" using assms unfolding same_nodes_def by blast
  show "sl_keyLen s' = sl_keyLen s" "sl_valueLen s' = sl_valueLen s" "sl_maxLevel s' = sl_maxLevel s"
    "sl_now_level s' = sl_now_level s" "sl_head s' = sl_head s" "sl_nodeNum s' = sl_nodeNum s" "sl_fresh s' = sl_fresh s"
    unfolding e by simp_all
qed

lemma same_nodes_at:
  assumes "same_nodes s s'" and "good_node s p"
  shows "good_node s' p" "levels_of s' p = levels_of s p" "entry_of s' p = entry_of s p"
proof -
  from assms(2) obtain nd where nd: "sl_nodes s p = Some nd" "\<not> sn_mutex nd" "length (sn_key nd) = sl_keyLen s"
    by (auto simp: good_node_def)
  from assms(1) have "map_option (\<lambda>nd. (sn_key nd, sn_value nd, length (sn_next nd), sn_mutex nd)) (sl_nodes s' p)
    = Some (sn_key nd, sn_value nd, length (sn_next nd), sn_mutex nd)"
    by (simp add: same_nodes_def nd(1))
  then obtain nd' where "sl_nodes s' p = Some nd'" "sn_key nd' = sn_key nd" "sn_value nd' = sn_value nd"
    "length (sn_next nd') = length (sn_next nd)" "sn_mutex nd' = sn_mutex nd"
    by (auto simp: map_option_eq_Some)
  then show "good_node s' p" "levels_of s' p = levels_of s p" "entry_of s' p = entry_of s p"
    using nd same_nodes_fields(1) [OF assms(1)] by (simp_all add: good_node_def levels_of_def entry_of_def)
qed

lemma same_nodes_trans: "same_nodes s s' \<Longrightarrow> same_nodes s' s'' \<Longrightarrow> same_nodes s s''"
  unfolding same_nodes_def by (cases s; cases s'; cases s'') auto

lemma link_level_spec:
  assumes "supported (sl_keyLen s)" and "length key = sl_keyLen s" and "good_node s n" "good_node s c" "n \<noteq> c"
    and "i < levels_of s n" "next_at s i c = Some z" and "\<forall>q. z = Some q \<longrightarrow> good_node s q \<and> \<not> smaller s key q"
  shows "\<exists>s'. link_level s key (Some n) i (Some c) = Some s' \<and>
    (do { s1 \<leftarrow> putNext s (Some n) i z; putNext s1 (Some c) i (Some n) }) = Some s' \<and> same_nodes s s' \<and>
    (\<forall>j p. next_at s' j p = (if j = i \<and> p = n then Some z else if j = i \<and> p = c then Some (Some n) else next_at s j p))"
proof -
  from assms(3,4) obtain nn nc where n: "sl_nodes s n = Some nn" "sl_nodes s c = Some nc" "\<not> sn_mutex nc" "\<not> sn_mutex nn"
    by (auto simp: good_node_def)
  have l: "i < length (sn_next nn)" "i < length (sn_next nc)" "sn_next nc ! i = z"
    using assms(6,7) n by (auto simp: levels_of_def next_at_def vec_get_Some)
  let ?s1 = "s\<lparr>sl_nodes := (sl_nodes s)(c \<mapsto> nc\<lparr>sn_mutex := True\<rparr>)\<rparr>"
  let ?s' = "s\<lparr>sl_nodes := (sl_nodes s)(n \<mapsto> nn\<lparr>sn_next := (sn_next nn)[i := z]\<rparr>,
    c \<mapsto> nc\<lparr>sn_next := (sn_next nc)[i := Some n]\<rparr>)\<rparr>"
  have lock: "lockNode s (Some c) = Some ?s1"
    using n(2,3) by (simp add: lockNode_def set_mutex_def node_at_def assms(1))
  have at: "getNext ?s1 (Some c) i = Some z"
    using l by (simp add: getNext_def node_at_def assms(1) vec_get_in)
  have cmp: "(if z = None then Some False else map_option (\<lambda>k. k < 0) (compareNodeKey ?s1 z key)) = Some False"
  proof (cases z)
    case (Some q)
    with assms(8) obtain nq where "sl_nodes s q = Some nq" "\<not> key_lt (sl_keyLen s) (sn_key nq) key"
      by (auto simp: good_node_def entry_of_def)
    then show ?thesis using Some n(2) assms(1,2) by (auto simp: compareNodeKey_def node_at_def)
  qed simp
  have "link_level s key (Some n) i (Some c) = Some ?s'"
    using n l assms(5) unfolding link_level.simps [of s] lock
    by (simp add: at cmp putNext_def unlockNode_def set_mutex_def assms(1) vec_set_in)
      (cases s; cases nc; auto intro!: ext)
  moreover have "(do { s1 \<leftarrow> putNext s (Some n) i z; putNext s1 (Some c) i (Some n) }) = Some ?s'"
    using n l assms(5) by (simp add: putNext_def assms(1) vec_set_in)
  moreover have "same_nodes s ?s'" using n by (auto simp: same_nodes_def)
  moreover have "\<forall>j p. next_at ?s' j p = (if j = i \<and> p = n then Some z else if j = i \<and> p = c then Some (Some n) else next_at s j p)"
    using n l assms(5) by (auto simp: next_at_def vec_get_def nth_list_update)
  ultimately show ?thesis by blast
qed

text \<open>The levels \<open>is\<close> can be linked: \<open>u\<close> holds the nodes \<open>c i\<close> after which the node \<open>n\<close> comes, and \<open>z i\<close>
  their successors.\<close>

definition link_ready :: "SkipList \<Rightarrow> bytes \<Rightarrow> nat \<Rightarrow> nat option list \<Rightarrow> (nat \<Rightarrow> nat) \<Rightarrow> (nat \<Rightarrow> nat option) \<Rightarrow> nat list \<Rightarrow> bool" where
  "link_ready s key n u c z is \<longleftrightarrow> supported (sl_keyLen s) \<and> length key = sl_keyLen s \<and> good_node s n \<and> distinct is \<and>
     (\<forall>i \<in> set is. vec_get u i = Some (Some (c i)) \<and> good_node s (c i) \<and> n \<noteq> c i \<and> i < levels_of s n \<and>
        next_at s i (c i) = Some (z i) \<and> (\<forall>q. z i = Some q \<longrightarrow> good_node s q \<and> \<not> smaller s key q))"

lemma link_ready_step:
  assumes "link_ready s key n u c z (i # is)"
  shows "\<exists>s'. link_level s key (Some n) i (Some (c i)) = Some s' \<and>
    (do { s1 \<leftarrow> putNext s (Some n) i (z i); putNext s1 (Some (c i)) i (Some n) }) = Some s' \<and> same_nodes s s' \<and>
    (\<forall>j p. next_at s' j p = (if j = i \<and> p = n then Some (z i) else if j = i \<and> p = c i then Some (Some n) else next_at s j p)) \<and>
    link_ready s' key n u c z is"
proof -
  from assms link_level_spec [of s key n "c i" i "z i"] obtain s1 where
    s1: "link_level s key (Some n) i (Some (c i)) = Some s1"
      "(do { s1 \<leftarrow> putNext s (Some n) i (z i); putNext s1 (Some (c i)) i (Some n) }) = Some s1" "same_nodes s s1"
      "\<forall>j p. next_at s1 j p = (if j = i \<and> p = n then Some (z i) else if j = i \<and> p = c i then Some (Some n) else next_at s j p)"
    by (auto simp: link_ready_def)
  have "link_ready s1 key n u c z is"
    using assms same_nodes_at [OF s1(3)] same_nodes_fields(1) [OF s1(3)] s1(4) by (auto simp: link_ready_def)
  with s1 show ?thesis by blast
qed

lemma link_levels_spec:
  assumes "link_ready s key n u c z is"
  shows "\<exists>s'. link_levels s key (Some n) u is = Some s' \<and> same_nodes s s' \<and>
    (\<forall>j p. next_at s' j p = (if j \<in> set is \<and> p = n then Some (z j) else if j \<in> set is \<and> p = c j then Some (Some n) else next_at s j p))"
  using assms
proof (induction "is" arbitrary: s)
  case Nil
  then show ?case by (simp add: same_nodes_def)
next
  case (Cons i "is")
  from link_ready_step [OF Cons.prems] obtain s1 where
    s1: "link_level s key (Some n) i (Some (c i)) = Some s1" "same_nodes s s1"
      "\<forall>j p. next_at s1 j p = (if j = i \<and> p = n then Some (z i) else if j = i \<and> p = c i then Some (Some n) else next_at s j p)"
      "link_ready s1 key n u c z is" by blast
  from Cons.IH [OF s1(4)] obtain s' where "link_levels s1 key (Some n) u is = Some s'" "same_nodes s1 s'"
    "\<forall>j p. next_at s' j p = (if j \<in> set is \<and> p = n then Some (z j) else if j \<in> set is \<and> p = c j then Some (Some n) else next_at s1 j p)"
    by blast
  then show ?case using Cons.prems s1 same_nodes_trans [OF s1(2)] by (auto simp: link_ready_def)
qed

section \<open>Insertion is insertion into the sorted list\<close>

lemma raise_level_frame:
  "sl_nodes (raise_level s L) = sl_nodes s" "sl_keyLen (raise_level s L) = sl_keyLen s" "sl_head (raise_level s L) = sl_head s"
  "sl_maxLevel (raise_level s L) = sl_maxLevel s" "sl_fresh (raise_level s L) = sl_fresh s"
  "sl_valueLen (raise_level s L) = sl_valueLen s" "sl_nodeNum (raise_level s L) = sl_nodeNum s"
  "sl_now_level (raise_level s L) = max (sl_now_level s) L"
  "next_at (raise_level s L) = next_at s" "levels_of (raise_level s L) = levels_of s"
  "entry_of (raise_level s L) = entry_of s" "good_node (raise_level s L) = good_node s"
  by (auto simp: raise_level_def next_at_def levels_of_def entry_of_def good_node_def fun_eq_iff)

lemma newNode_spec:
  assumes "supported (sl_keyLen s)" and "length key = sl_keyLen s" and "L < 2147483648"
  obtains s2 where "newNode s key v L = Some (Some (sl_fresh s), s2)"
    "sl_keyLen s2 = sl_keyLen s" "sl_head s2 = sl_head s" "sl_maxLevel s2 = sl_maxLevel s" "sl_fresh s2 = sl_fresh s + 1"
    "sl_valueLen s2 = sl_valueLen s" "sl_nodeNum s2 = sl_nodeNum s" "sl_now_level s2 = sl_now_level s"
    "good_node s2 (sl_fresh s)" "levels_of s2 (sl_fresh s) = L" "entry_of s2 (sl_fresh s) = (key, v)"
    "\<And>i. next_at s2 i (sl_fresh s) = (if i < L then Some None else None)"
    "\<And>p. p \<noteq> sl_fresh s \<Longrightarrow> sl_nodes s2 p = sl_nodes s p"
  using assms by (force simp: newNode_def good_node_def levels_of_def entry_of_def next_at_def vec_get_def)

lemma other_node:
  assumes "sl_nodes s2 p = sl_nodes s p" and "sl_keyLen s2 = sl_keyLen s"
  shows "good_node s2 p = good_node s p" "levels_of s2 p = levels_of s p" "entry_of s2 p = entry_of s p" "next_at s2 i p = next_at s i p"
  using assms by (simp_all add: good_node_def levels_of_def entry_of_def next_at_def)

lemma link_new_node:
  assumes rep: "sl_rep s h (B @ A)" and key: "length key = sl_keyLen s" and L: "0 < L" "L \<le> sl_maxLevel s"
    and B: "\<forall>q \<in> set B. smaller s key q" and A: "\<forall>q \<in> set A. \<not> smaller s key q"
    and s2: "sl_keyLen s2 = sl_keyLen s" "sl_head s2 = sl_head s" "sl_maxLevel s2 = sl_maxLevel s" "sl_now_level s2 = sl_now_level s"
      "good_node s2 (sl_fresh s)" "levels_of s2 (sl_fresh s) = L" "\<And>p. p \<noteq> sl_fresh s \<Longrightarrow> sl_nodes s2 p = sl_nodes s p"
  shows "\<exists>u s3 z. search_update s2 key (max (sl_now_level s) L) (Some h) (replicate (sl_maxLevel s) None) = Some u \<and>
    link_levels s2 key (Some (sl_fresh s)) u [0..<L] = Some s3 \<and> same_nodes s2 s3 \<and>
    link_ready s2 key (sl_fresh s) u (before_at s2 h B) z [0..<L] \<and>
    (\<forall>i < L. linked (next_at s3 i) (h # filter (\<lambda>p. i < levels_of s p) B @ sl_fresh s # filter (\<lambda>p. i < levels_of s p) A)) \<and>
    (\<forall>i p. L \<le> i \<longrightarrow> next_at s3 i p = next_at s2 i p)"
proof -
  let ?n = "sl_fresh s" let ?hi = "max (sl_now_level s) L" let ?c = "before_at s2 h B"
  let ?z = "\<lambda>i. first_of (filter (\<lambda>p. i < levels_of s p) A)"
  have r: "supported (sl_keyLen s)" "sl_now_level s \<le> sl_maxLevel s" "?n \<notin> set (h # B @ A)" "distinct (h # B @ A)"
    "\<forall>p \<in> set (h # B @ A). good_node s p" "\<forall>p \<in> set (B @ A). levels_of s p \<le> sl_now_level s"
    "\<forall>i < sl_maxLevel s. linked (next_at s i) (h # filter (\<lambda>p. i < levels_of s p) (B @ A))"
    "levels_of s h = sl_maxLevel s"
    using rep unfolding sl_rep_def by auto
  have old: "good_node s2 p = good_node s p" "levels_of s2 p = levels_of s p" "entry_of s2 p = entry_of s p"
    "next_at s2 i p = next_at s i p" if "p \<in> set (h # B @ A)" for p i
    using other_node [OF s2(7) s2(1)] that r(3) by metis+
  have lv: "filter (\<lambda>p. i < levels_of s2 p) B = filter (\<lambda>p. i < levels_of s p) B"
    "filter (\<lambda>p. i < levels_of s2 p) A = filter (\<lambda>p. i < levels_of s p) A" for i
    using old(2) by (auto intro: filter_cong)
  have linked2: "\<forall>i < ?hi. linked (next_at s2 i) (h # filter (\<lambda>p. i < levels_of s2 p) (B @ A))"
  proof (intro allI impI)
    fix i assume "i < ?hi"
    with r(2) L have "linked (next_at s i) (h # filter (\<lambda>p. i < levels_of s p) (B @ A))" using r(7) by auto
    then show "linked (next_at s2 i) (h # filter (\<lambda>p. i < levels_of s2 p) (B @ A))"
      unfolding filter_append lv by (rule linked_cong) (use old(4) in auto)
  qed
  have "filter (\<lambda>p. ?hi < levels_of s2 p) B = []" unfolding lv using r(6) by (auto simp: filter_empty_conv) (metis UnI1 leD)
  then have top: "?c ?hi = h" by (simp add: before_at_def)
  obtain u where u: "search_update s2 key ?hi (Some h) (replicate (sl_maxLevel s) None) = Some u"
    "length u = sl_maxLevel s" "\<forall>i < ?hi. u ! i = Some (?c i)"
    using search_spec(2) [of s2 key ?hi h B A "replicate (sl_maxLevel s) None"] r(1,2,5) s2(1) key linked2 old A B L
    unfolding top by auto
  have ci: "?c i \<in> set (h # B)" for i by (rule before_at_in)
  have cn: "next_at s2 i (?c i) = Some (?z i)" if "i < L" for i
  proof -
    obtain xs where "h # filter (\<lambda>p. i < levels_of s2 p) B = xs @ [?c i]" by (rule before_at_split)
    then have "h # filter (\<lambda>p. i < levels_of s2 p) (B @ A) = xs @ ?c i # filter (\<lambda>p. i < levels_of s2 p) A" by simp
    with linked2 that show ?thesis unfolding lv by (metis linked_next max.strict_coboundedI2)
  qed
  have ready: "link_ready s2 key ?n u ?c ?z [0..<L]"
    unfolding link_ready_def
  proof (intro conjI ballI allI impI)
    have zA: "q \<in> set A" if "?z i = Some q" for i q
      using that by (auto simp: first_of_def filter_eq_Cons_iff split: list.splits)
    fix i assume "i \<in> set [0..<L]"
    then have i: "i < L" by simp
    then have "i < length u" "i < ?hi" using L u(2) by auto
    then show "vec_get u i = Some (Some (?c i))" using u(3) by (simp add: vec_get_in)
    have ci': "?c i \<in> set (h # B @ A)" using ci [of i] by auto
    then show "good_node s2 (?c i)" using old(1) r(5) by blast
    show "?n \<noteq> ?c i" using ci' r(3) by metis
    show "i < levels_of s2 ?n" using s2(6) i by simp
    show "next_at s2 i (?c i) = Some (?z i)" by (rule cn [OF i])
    fix q assume "?z i = Some q"
    from zA [OF this] show "good_node s2 q" "\<not> smaller s2 key q" using old(1,3) r(5) A s2(1) by auto
  qed (use r(1) s2 key in simp_all)
  from link_levels_spec [OF this] obtain s3 where s3: "link_levels s2 key (Some ?n) u [0..<L] = Some s3" "same_nodes s2 s3"
    "\<forall>i p. next_at s3 i p = (if i \<in> set [0..<L] \<and> p = ?n then Some (?z i)
      else if i \<in> set [0..<L] \<and> p = ?c i then Some (Some ?n) else next_at s2 i p)" by blast
  have "linked (next_at s3 i) (h # filter (\<lambda>p. i < levels_of s p) B @ ?n # filter (\<lambda>p. i < levels_of s p) A)" if "i < L" for i
  proof -
    obtain xs where xs: "h # filter (\<lambda>p. i < levels_of s2 p) B = xs @ [?c i]" by (rule before_at_split)
    have e: "h # filter (\<lambda>p. i < levels_of s p) (B @ A) = xs @ ?c i # filter (\<lambda>p. i < levels_of s p) A"
      using xs by (simp add: lv)
    have "linked (next_at s2 i) (xs @ ?c i # filter (\<lambda>p. i < levels_of s p) A)"
      using linked2 that unfolding e [symmetric] filter_append lv by (metis max.strict_coboundedI2)
    moreover have "distinct (h # filter (\<lambda>p. i < levels_of s p) (B @ A))" "?n \<notin> set (h # filter (\<lambda>p. i < levels_of s p) (B @ A))"
      using r(3,4) by auto
    ultimately have "linked (next_at s3 i) (xs @ ?c i # ?n # filter (\<lambda>p. i < levels_of s p) A)"
      using s3(3) that unfolding e by (intro linked_insert [of "next_at s2 i"]) auto
    moreover have "h # filter (\<lambda>p. i < levels_of s p) B @ ?n # filter (\<lambda>p. i < levels_of s p) A
        = xs @ ?c i # ?n # filter (\<lambda>p. i < levels_of s p) A"
      using arg_cong [OF xs, of "\<lambda>l. l @ ?n # filter (\<lambda>p. i < levels_of s p) A"] by (simp add: lv)
    ultimately show ?thesis by (simp only:)
  qed
  with u(1) s3 ready show ?thesis by (intro exI [of _ u] exI [of _ s3] exI [of _ ?z]) auto
qed

lemma sl_init_rep:
  assumes "supported kl" and "0 < maxLvl" and "maxLvl < 2147483648"
  shows "\<exists>s. sl_init SkipList_new maxLvl kl vl = Some s \<and> sl_rep s 0 [] \<and> sl_keyLen s = kl \<and> sl_valueLen s = vl \<and>
    sl_maxLevel s = maxLvl \<and> sl_nodeNum s = 0"
  using assms by (auto simp: sl_init_def SkipList_new_def newNode_def sl_rep_def good_node_def levels_of_def next_at_def vec_get_in)

lemma parted:
  assumes "sl_rep s h ns"
  shows "\<forall>q \<in> set (takeWhile (smaller s key) ns). smaller s key q" "\<forall>q \<in> set (dropWhile (smaller s key) ns). \<not> smaller s key q"
proof -
  show "\<forall>q \<in> set (takeWhile (smaller s key) ns). smaller s key q" by (auto dest: set_takeWhileD)
  have "sorted_wrt (\<lambda>x y. \<not> key_lt (sl_keyLen s) (fst y) (fst x)) (map (entry_of s) (dropWhile (smaller s key) ns))"
    using assms sorted_wrt_append [of _ "map (entry_of s) (takeWhile (smaller s key) ns)"]
    unfolding sl_rep_def by (metis map_append takeWhile_dropWhile_id)
  then show "\<forall>q \<in> set (dropWhile (smaller s key) ns). \<not> smaller s key q"
  proof (cases "dropWhile (smaller s key) ns")
    case (Cons a as)
    assume "sorted_wrt (\<lambda>x y. \<not> key_lt (sl_keyLen s) (fst y) (fst x)) (map (entry_of s) (dropWhile (smaller s key) ns))"
    then have "\<forall>q \<in> set as. \<not> key_lt (sl_keyLen s) (fst (entry_of s q)) (fst (entry_of s a))" by (simp add: Cons)
    moreover have "\<not> smaller s key a" using hd_dropWhile [of "smaller s key" ns] Cons by simp
    ultimately show ?thesis unfolding Cons using keys.not_lt_trans by auto
  next
    case Nil
    then show ?thesis by (simp only: list.set(1) ball_empty)
  qed
qed

lemma entries_parted:
  "map (entry_of s) (takeWhile (smaller s key) ns) @ (key, v) # map (entry_of s) (dropWhile (smaller s key) ns)
     = sorted_insert (key_lt (sl_keyLen s)) (key, v) (map (entry_of s) ns)"
  by (simp add: keys.insert_split takeWhile_map dropWhile_map comp_def)

text \<open>The state after the levels have been linked represents the longer list.\<close>

lemma rep_linked:
  assumes rep: "sl_rep s h (B @ A)" and L: "0 < L" "L \<le> sl_maxLevel s"
    and B: "\<forall>q \<in> set B. smaller s key q" and A: "\<forall>q \<in> set A. \<not> smaller s key q"
    and s2: "sl_keyLen s2 = sl_keyLen s" "sl_head s2 = sl_head s" "sl_maxLevel s2 = sl_maxLevel s" "sl_now_level s2 = sl_now_level s"
      "sl_fresh s2 = sl_fresh s + 1" "good_node s2 (sl_fresh s)" "levels_of s2 (sl_fresh s) = L" "entry_of s2 (sl_fresh s) = (key, v)"
      "\<And>p. p \<noteq> sl_fresh s \<Longrightarrow> sl_nodes s2 p = sl_nodes s p"
    and s3: "same_nodes s2 s3" "\<forall>i p. L \<le> i \<longrightarrow> next_at s3 i p = next_at s2 i p"
      "\<forall>i < L. linked (next_at s3 i) (h # filter (\<lambda>p. i < levels_of s p) B @ sl_fresh s # filter (\<lambda>p. i < levels_of s p) A)"
  shows "sl_rep (raise_level s3 L) h (B @ sl_fresh s # A)"
    and "map (entry_of s3) (B @ sl_fresh s # A) = sorted_insert (key_lt (sl_keyLen s)) (key, v) (map (entry_of s) (B @ A))"
proof -
  let ?n = "sl_fresh s"
  have r: "?n \<notin> set (h # B @ A)" "\<forall>p \<in> set (h # B @ A). good_node s p" "\<forall>p \<in> set (h # B @ A). p < ?n"
    "\<forall>p \<in> set (B @ A). 0 < levels_of s p \<and> levels_of s p \<le> sl_now_level s" "levels_of s h = sl_maxLevel s"
    using rep unfolding sl_rep_def by auto
  have at: "good_node s3 p" "levels_of s3 p = (if p = ?n then L else levels_of s p)"
    "entry_of s3 p = (if p = ?n then (key, v) else entry_of s p)" if "p \<in> set (h # B @ ?n # A)" for p
  proof -
    have g: "good_node s2 p" using that r(2) s2(6) other_node(1) [OF s2(9) s2(1), of p] by auto
    show "good_node s3 p" "levels_of s3 p = (if p = ?n then L else levels_of s p)"
      "entry_of s3 p = (if p = ?n then (key, v) else entry_of s p)"
      using same_nodes_at [OF s3(1) g] other_node [OF s2(9) s2(1), of p] s2(7,8) by auto
  qed
  have split: "takeWhile (smaller s key) (B @ A) = B" "dropWhile (smaller s key) (B @ A) = A"
    using B A by (simp_all add: takeWhile_append dropWhile_append)
      (cases A; simp)+
  have "map (entry_of s3) (B @ ?n # A) = map (entry_of s) B @ (key, v) # map (entry_of s) A"
    using at(3) r(1) by auto
  then show e: "map (entry_of s3) (B @ ?n # A) = sorted_insert (key_lt (sl_keyLen s)) (key, v) (map (entry_of s) (B @ A))"
    using entries_parted [of s key "B @ A" v] unfolding split by simp
  have f: "filter (\<lambda>p. i < levels_of s3 p) (B @ ?n # A) = filter (\<lambda>p. i < levels_of s p) B @
      (if i < L then [?n] else []) @ filter (\<lambda>p. i < levels_of s p) A" for i
  proof -
    have "levels_of s3 p = levels_of s p" if "p \<in> set B \<union> set A" for p
      using at(2) [of p] r(1) that by (auto split: if_splits)
    then have "filter (\<lambda>p. i < levels_of s3 p) B = filter (\<lambda>p. i < levels_of s p) B"
      "filter (\<lambda>p. i < levels_of s3 p) A = filter (\<lambda>p. i < levels_of s p) A"
      by (auto intro!: filter_cong)
    then show ?thesis using at(2) by simp
  qed
  have "linked (next_at s3 i) (h # filter (\<lambda>p. i < levels_of s3 p) (B @ ?n # A))" if "i < sl_maxLevel s" for i
  proof (cases "i < L")
    case True
    then show ?thesis using s3(3) unfolding f by simp
  next
    case False
    have "linked (next_at s i) (h # filter (\<lambda>p. i < levels_of s p) (B @ A))" using rep that unfolding sl_rep_def by blast
    then have "linked (next_at s3 i) (h # filter (\<lambda>p. i < levels_of s p) (B @ A))"
    proof (rule linked_cong)
      fix p assume "p \<in> set (h # filter (\<lambda>p. i < levels_of s p) (B @ A))"
      then have "p \<noteq> ?n" using r(1) by auto
      then show "next_at s3 i p = next_at s i p" using s3(2) False other_node(4) [OF s2(9) s2(1)] by simp
    qed
    then show ?thesis unfolding f using False by simp
  qed
  moreover have "sorted_wrt (\<lambda>x y. \<not> key_lt (sl_keyLen s) (fst y) (fst x)) (map (entry_of s3) (B @ ?n # A))"
    unfolding e by (rule keys.insert_sorted) (use rep in \<open>simp add: sl_rep_def\<close>)
  moreover have "\<forall>p \<in> set (h # B @ ?n # A). good_node s3 p \<and> p < ?n + 1"
  proof
    fix p assume p: "p \<in> set (h # B @ ?n # A)"
    then have "p < ?n + 1" using r(3) by (auto simp: less_Suc_eq simp flip: Suc_eq_plus1)
    with at(1) [OF p] show "good_node s3 p \<and> p < ?n + 1" by blast
  qed
  moreover have "\<forall>p \<in> set (B @ ?n # A). 0 < levels_of s3 p \<and> levels_of s3 p \<le> max (sl_now_level s) L"
  proof
    fix p assume p: "p \<in> set (B @ ?n # A)"
    then show "0 < levels_of s3 p \<and> levels_of s3 p \<le> max (sl_now_level s) L"
      using at(2) [of p] r(4) L(1) by (auto simp: le_max_iff_disj split: if_splits)
  qed
  moreover have "levels_of s3 h = sl_maxLevel s" using at(2) [of h] r(1,5) by auto
  ultimately show "sl_rep (raise_level s3 L) h (B @ ?n # A)"
    using rep L r(1) unfolding sl_rep_def by (simp add: raise_level_frame same_nodes_fields [OF s3(1)] s2)
qed

text \<open>The steps of an insertion after the node count has been raised.\<close>

lemma insert_steps:
  assumes rep: "sl_rep s h ns" and key: "length key = sl_keyLen s" and L: "0 < L" "L \<le> sl_maxLevel s"
    and t: "t = s\<lparr>sl_nodeNum := cnt\<rparr>"
  shows "\<exists>n s2 u s3 c z. newNode t key v L = Some (Some n, s2) \<and>
    search_update s2 key (if sl_now_level s2 > L then sl_now_level s2 else L) (sl_head s2) (replicate (sl_maxLevel s2) None) = Some u \<and>
    link_levels s2 key (Some n) u [0..<L] = Some s3 \<and> link_ready s2 key n u c z [0..<L] \<and>
    (\<exists>ns'. sl_rep (raise_level s3 L) h ns' \<and>
      map (entry_of (raise_level s3 L)) ns' = sorted_insert (key_lt (sl_keyLen s)) (key, v) (map (entry_of s) ns) \<and>
      sl_keyLen (raise_level s3 L) = sl_keyLen s \<and> sl_valueLen (raise_level s3 L) = sl_valueLen s \<and>
      sl_nodeNum (raise_level s3 L) = cnt)"
proof -
  let ?B = "takeWhile (smaller t key) ns" let ?A = "dropWhile (smaller t key) ns" let ?n = "sl_fresh t"
  have same: "next_at t = next_at s" "levels_of t = levels_of s" "entry_of t = entry_of s" "good_node t = good_node s"
    by (simp_all add: t next_at_def levels_of_def entry_of_def good_node_def fun_eq_iff)
  have rep_t: "sl_rep t h (?B @ ?A)" and kt: "length key = sl_keyLen t"
    using rep key unfolding sl_rep_def same by (simp_all add: t)
  have lev: "supported (sl_keyLen t)" "L \<le> sl_maxLevel t" "L < 2147483648" "sl_head t = Some h"
    using rep_t L unfolding sl_rep_def t by auto
  note parts = parted [OF rep_t, of key, unfolded takeWhile_dropWhile_id]
  obtain s2 where s2: "newNode t key v L = Some (Some ?n, s2)"
    "sl_keyLen s2 = sl_keyLen t" "sl_head s2 = sl_head t" "sl_maxLevel s2 = sl_maxLevel t" "sl_fresh s2 = ?n + 1"
    "sl_valueLen s2 = sl_valueLen t" "sl_nodeNum s2 = sl_nodeNum t" "sl_now_level s2 = sl_now_level t"
    "good_node s2 ?n" "levels_of s2 ?n = L" "entry_of s2 ?n = (key, v)" "\<And>p. p \<noteq> ?n \<Longrightarrow> sl_nodes s2 p = sl_nodes t p"
    using newNode_spec [OF lev(1) kt lev(3)] by metis
  from link_new_node [OF rep_t kt L(1) lev(2) parts s2(2-4,8,9,10,12)] obtain u s3 z where
    s3: "search_update s2 key (max (sl_now_level t) L) (Some h) (replicate (sl_maxLevel t) None) = Some u"
      "link_levels s2 key (Some ?n) u [0..<L] = Some s3" "same_nodes s2 s3"
      "link_ready s2 key ?n u (before_at s2 h ?B) z [0..<L]"
      "\<forall>i < L. linked (next_at s3 i) (h # filter (\<lambda>p. i < levels_of t p) ?B @ ?n # filter (\<lambda>p. i < levels_of t p) ?A)"
      "\<forall>i p. L \<le> i \<longrightarrow> next_at s3 i p = next_at s2 i p"
    by blast
  have "search_update s2 key (if sl_now_level s2 > L then sl_now_level s2 else L) (sl_head s2) (replicate (sl_maxLevel s2) None) = Some u"
    using s3(1) s2(3,4,8) lev(4) by (simp add: max_def not_less split: if_splits)
  moreover note rep_linked [OF rep_t L(1) lev(2) parts s2(2-4,8,5,9,10,11,12) s3(3,6,5)]
  ultimately show ?thesis using s2(1) s3(2,4)
    by (intro exI [of _ ?n] exI [of _ s2] exI [of _ u] exI [of _ s3] exI [of _ "before_at s2 h ?B"] exI [of _ z]
          exI [of _ "?B @ ?n # ?A"] conjI)
      (simp_all add: raise_level_frame same_nodes_fields [OF s3(3)] s2 same, simp_all add: t)
qed

lemma sl_insert_spec:
  assumes rep: "sl_rep s h ns" and key: "length key = sl_keyLen s" and d: "0 < drawn"
  shows "\<exists>s' ns'. sl_insert s key v drawn = Some (True, s') \<and> sl_rep s' h ns' \<and>
    map (entry_of s') ns' = sorted_insert (key_lt (sl_keyLen s)) (key, v) (map (entry_of s) ns) \<and>
    sl_keyLen s' = sl_keyLen s \<and> sl_valueLen s' = sl_valueLen s \<and> sl_nodeNum s' = add64 (sl_nodeNum s) 1"
proof -
  define t where "t = s\<lparr>sl_nodeNum := add64 (sl_nodeNum s) 1\<rparr>"
  define L where "L = randomLevel drawn (sl_maxLevel t)"
  have "0 < L" "L \<le> sl_maxLevel s" using rep d unfolding sl_rep_def L_def randomLevel_def t_def by auto
  from insert_steps [OF rep key this t_def, of v] obtain n s2 u s3 where
    st: "newNode t key v L = Some (Some n, s2)"
      "search_update s2 key (if sl_now_level s2 > L then sl_now_level s2 else L) (sl_head s2) (replicate (sl_maxLevel s2) None) = Some u"
      "link_levels s2 key (Some n) u [0..<L] = Some s3"
    and r: "\<exists>ns'. sl_rep (raise_level s3 L) h ns' \<and>
      map (entry_of (raise_level s3 L)) ns' = sorted_insert (key_lt (sl_keyLen s)) (key, v) (map (entry_of s) ns) \<and>
      sl_keyLen (raise_level s3 L) = sl_keyLen s \<and> sl_valueLen (raise_level s3 L) = sl_valueLen s \<and>
      sl_nodeNum (raise_level s3 L) = add64 (sl_nodeNum s) 1"
    by blast
  have "sl_insert s key v drawn = Some (True, raise_level s3 L)"
    using key st by (simp add: sl_insert_def Let_def t_def [symmetric] L_def [symmetric] split: if_splits)
  with r show ?thesis by blast
qed

section \<open>Queries read the sorted list\<close>

lemma collect_spec:
  assumes "supported (sl_keyLen s)" and "length first_key = sl_keyLen s" and "linked (next_at s 0) ns"
    and "\<forall>p \<in> set ns. good_node s p \<and> \<not> smaller s first_key p \<and> stop (Some p) = Some (st p)"
  shows "collect s first_key stop (first_of ns)
    = Some (map (\<lambda>p. snd (entry_of s p) mod 4294967296) (takeWhile (\<lambda>p. \<not> st p) ns))"
  using assms(3,4)
proof (induction ns)
  case Nil
  then show ?case by (simp add: collect.simps)
next
  case (Cons p ns)
  then obtain nd where nd: "sl_nodes s p = Some nd" by (auto simp: good_node_def)
  have c: "compareNodeKey s (Some p) first_key \<bind> f = f (if key_lt (sl_keyLen s) first_key (fst (entry_of s p)) then 1 else 0)" for f :: "int \<Rightarrow> nat list option"
    using compare_at [OF assms(1) _ assms(2), of p] Cons.prems by simp
  have v: "getValue s (Some p) = Some (snd (entry_of s p))" "getNext s (Some p) 0 = Some (first_of ns)"
    using Cons.prems nd assms(1) by (simp_all add: getValue_def node_at_def entry_of_def getNext_at)
  from Cons have ih: "collect s first_key stop (first_of ns)
    = Some (map (\<lambda>p. snd (entry_of s p) mod 4294967296) (takeWhile (\<lambda>p. \<not> st p) ns))" by simp
  show ?case using Cons.prems by (subst collect.simps) (simp add: c v ih)
qed

lemma descend_spec:
  assumes rep: "sl_rep s h ns" and key: "length key = sl_keyLen s"
  shows "(do { cur \<leftarrow> descend s key (sl_now_level s) (sl_head s); getNext s cur 0 })
      = Some (first_of (dropWhile (smaller s key) ns))"
    and "linked (next_at s 0) (dropWhile (smaller s key) ns)"
proof -
  let ?B = "takeWhile (smaller s key) ns" let ?A = "dropWhile (smaller s key) ns"
  have r: "supported (sl_keyLen s)" "sl_head s = Some h" "\<forall>p \<in> set ns. good_node s p" "0 < sl_maxLevel s"
    "\<forall>p \<in> set ns. 0 < levels_of s p \<and> levels_of s p \<le> sl_now_level s" "sl_now_level s \<le> sl_maxLevel s"
    "\<forall>i < sl_maxLevel s. linked (next_at s i) (h # filter (\<lambda>p. i < levels_of s p) (?B @ ?A))"
    using rep unfolding sl_rep_def by simp_all
  have all: "filter (\<lambda>p. 0 < levels_of s p) ?B = ?B" "filter (\<lambda>p. 0 < levels_of s p) ns = ns"
    using r(5) by (auto simp: filter_id_conv dest: set_takeWhileD)
  have "filter (\<lambda>p. sl_now_level s < levels_of s p) ?B = []"
    using r(5) by (auto simp: filter_empty_conv not_less dest: set_takeWhileD)
  then have top: "before_at s h ?B (sl_now_level s) = h" by (simp add: before_at_def)
  have "descend s key (sl_now_level s) (Some (before_at s h ?B (sl_now_level s))) = Some (Some (before_at s h ?B 0))"
    by (rule search_spec(1) [OF r(1) key _ _ parted [OF rep, of key]]) (use r(3,6,7) in auto)
  then have d: "descend s key (sl_now_level s) (sl_head s) = Some (Some (before_at s h ?B 0))" unfolding top r(2) .
  obtain xs where xs: "h # ?B = xs @ [before_at s h ?B 0]" using before_at_split [of h 0 s ?B] all(1) by auto
  have "linked (next_at s 0) (h # filter (\<lambda>p. 0 < levels_of s p) (?B @ ?A))" using r(4,7) by blast
  then have "linked (next_at s 0) (h # ?B @ ?A)" unfolding takeWhile_dropWhile_id all(2) .
  also have "h # ?B @ ?A = xs @ before_at s h ?B 0 # ?A" using arg_cong [OF xs, of "\<lambda>l. l @ ?A"] by simp
  finally have l: "linked (next_at s 0) (xs @ before_at s h ?B 0 # ?A)" .
  from linked_next [OF l] show "(do { cur \<leftarrow> descend s key (sl_now_level s) (sl_head s); getNext s cur 0 }) = Some (first_of ?A)"
    by (simp add: d getNext_at r(1))
  from linked_suffix [OF l] show "linked (next_at s 0) ?A" by simp
qed

lemma query_spec:
  assumes rep: "sl_rep s h ns" and key: "length first_key = sl_keyLen s"
    and stop: "\<And>p. good_node s p \<Longrightarrow> stop (Some p) = Some (\<not> P (entry_of s p))"
    and part: "takeWhile P (map (entry_of s) (dropWhile (smaller s first_key) ns)) = filter P (map (entry_of s) (dropWhile (smaller s first_key) ns))"
  shows "(do { cur \<leftarrow> descend s first_key (sl_now_level s) (sl_head s); b \<leftarrow> getNext s cur 0; collect s first_key stop b })
    = Some (map (\<lambda>e. snd e mod 4294967296)
        (filter (\<lambda>e. \<not> key_lt (sl_keyLen s) (fst e) first_key \<and> P e) (map (entry_of s) ns)))"
proof -
  let ?A = "dropWhile (smaller s first_key) ns"
  have r: "supported (sl_keyLen s)" "\<forall>p \<in> set ns. good_node s p" using rep unfolding sl_rep_def by auto
  have "collect s first_key stop (first_of ?A) = Some (map (\<lambda>p. snd (entry_of s p) mod 4294967296) (takeWhile (\<lambda>p. P (entry_of s p)) ?A))"
  proof -
    have "\<forall>p \<in> set ?A. good_node s p \<and> \<not> smaller s first_key p \<and> stop (Some p) = Some (\<not> P (entry_of s p))"
      using parted(2) [OF rep, of first_key] r(2) stop set_dropWhileD by metis
    from collect_spec [OF r(1) key descend_spec(2) [OF rep key] this] show ?thesis by simp
  qed
  moreover have "map (\<lambda>p. snd (entry_of s p) mod 4294967296) (takeWhile (\<lambda>p. P (entry_of s p)) ?A)
      = map (\<lambda>e. snd e mod 4294967296) (filter P (map (entry_of s) ?A))"
    using arg_cong [OF part, of "map (\<lambda>e. snd e mod 4294967296)"] by (simp add: takeWhile_map comp_def)
  moreover have "filter P (map (entry_of s) ?A) = filter (\<lambda>e. \<not> key_lt (sl_keyLen s) (fst e) first_key \<and> P e) (map (entry_of s) ns)"
  proof -
    have "filter (\<lambda>e. \<not> key_lt (sl_keyLen s) (fst e) first_key \<and> P e) (map (entry_of s) (takeWhile (smaller s first_key) ns)) = []"
      by (auto simp: filter_empty_conv dest: set_takeWhileD)
    moreover have "filter (\<lambda>e. \<not> key_lt (sl_keyLen s) (fst e) first_key \<and> P e) (map (entry_of s) ?A) = filter P (map (entry_of s) ?A)"
    proof (rule filter_cong [OF refl])
      fix e assume "e \<in> set (map (entry_of s) ?A)"
      then obtain p where "p \<in> set ?A" "e = entry_of s p" unfolding set_map by (rule imageE)
      with parted(2) [OF rep, of first_key] show "(\<not> key_lt (sl_keyLen s) (fst e) first_key \<and> P e) = P e" by blast
    qed
    ultimately show ?thesis
      using arg_cong [OF takeWhile_dropWhile_id [of "smaller s first_key" ns], of
        "\<lambda>l. filter (\<lambda>e. \<not> key_lt (sl_keyLen s) (fst e) first_key \<and> P e) (map (entry_of s) l)"]
      by (simp only: map_append filter_append append_Nil)
  qed
  moreover obtain cur where "descend s first_key (sl_now_level s) (sl_head s) = Some cur" "getNext s cur 0 = Some (first_of ?A)"
    using descend_spec(1) [OF rep key] unfolding bind_eq_Some_conv by blast
  ultimately show ?thesis by (simp only: bind.bind_lunit)
qed

lemma sorted_tail:
  assumes "sl_rep s h ns"
  shows "sorted_wrt (\<lambda>x y. \<not> key_lt (sl_keyLen s) y x) (map fst (map (entry_of s) (dropWhile (smaller s key) ns)))"
proof -
  have "sorted_wrt (\<lambda>x y. \<not> key_lt (sl_keyLen s) (fst y) (fst x))
      (map (entry_of s) (takeWhile (smaller s key) ns) @ map (entry_of s) (dropWhile (smaller s key) ns))"
    using assms unfolding sl_rep_def by (simp flip: map_append)
  then show ?thesis by (simp add: sorted_wrt_append sorted_wrt_map)
qed

lemma prefix_of_keys: "takeWhile Q (map fst es) = filter Q (map fst es) \<Longrightarrow> takeWhile (\<lambda>e. Q (fst e)) es = filter (\<lambda>e. Q (fst e)) es"
proof (induction es)
  case (Cons e es)
  then show ?case by (cases "Q (fst e)") (simp_all add: filter_map comp_def)
qed simp

lemma findByKey_spec:
  assumes rep: "sl_rep s h ns" and key: "length key = sl_keyLen s"
  shows "findByKey s key = Some (map (\<lambda>e. snd e mod 4294967296)
    (filter (\<lambda>e. \<not> key_lt (sl_keyLen s) (fst e) key \<and> \<not> key_lt (sl_keyLen s) key (fst e)) (map (entry_of s) ns)))"
proof -
  have r: "supported (sl_keyLen s)" "sl_head s = Some h" using rep unfolding sl_rep_def by auto
  have "map_option (\<lambda>c. c > 0) (compareNodeKey s (Some p) key) = Some (\<not> \<not> key_lt (sl_keyLen s) key (fst (entry_of s p)))"
    if "good_node s p" for p
    using compare_at [OF r(1) that key] keys.lt_asym by auto
  from query_spec [OF rep key, where P = "\<lambda>e. \<not> key_lt (sl_keyLen s) key (fst e)", OF this
    prefix_of_keys [OF keys.not_greater_prefix [OF sorted_tail [OF rep]]]]
  show ?thesis using key r(2) by (simp add: findByKey_def)
qed

lemma findByRange_spec:
  assumes rep: "sl_rep s h ns" and key: "length first_key = sl_keyLen s" "length last_key = sl_keyLen s"
  shows "findByRange s first_key last_key = Some (map (\<lambda>e. snd e mod 4294967296)
    (filter (\<lambda>e. \<not> key_lt (sl_keyLen s) (fst e) first_key \<and> key_lt (sl_keyLen s) (fst e) last_key) (map (entry_of s) ns)))"
proof -
  have r: "supported (sl_keyLen s)" "sl_head s = Some h" using rep unfolding sl_rep_def by auto
  have "map_option (\<lambda>c. c \<ge> 0) (compareNodeKey s (Some p) last_key) = Some (\<not> key_lt (sl_keyLen s) (fst (entry_of s p)) last_key)"
    if "good_node s p" for p
    using compare_at [OF r(1) that key(2)] by auto
  from query_spec [OF rep key(1), where P = "\<lambda>e. key_lt (sl_keyLen s) (fst e) last_key", OF this
    prefix_of_keys [OF keys.smaller_prefix [OF sorted_tail [OF rep]]]]
  show ?thesis using key r(2) by (simp add: findByRange_def)
qed

section \<open>Writing the list out\<close>

definition record_of :: "bytes \<times> nat \<Rightarrow> bytes" where
  "record_of e = fst e @ le_encode 8 (snd e)"

lemma good_node_values:
  assumes "supported (sl_keyLen s)" and "good_node s p"
  shows "getKey s (Some p) = Some (fst (entry_of s p))" "getValue s (Some p) = Some (snd (entry_of s p))"
    "length (fst (entry_of s p)) = sl_keyLen s"
  using assms by (auto simp: getKey_def getValue_def node_at_def entry_of_def good_node_def)

lemma delete_last_spec:
  assumes "supported (sl_keyLen s)" and "sl_head s = Some h" and "q = h \<or> good_node s q"
  shows "delete_last s (Some q) = Some (if q = h then s else s\<lparr>sl_nodes := (sl_nodes s)(q := None)\<rparr>)"
  using assms by (auto simp: delete_last_def deleteNode_def good_node_def)

lemma without_node:
  fixes s :: SkipList
  assumes "s1 = (if q = h then s else s\<lparr>sl_nodes := (sl_nodes s)(q := None)\<rparr>)" and "p \<noteq> q"
  shows "good_node s1 p = good_node s p" "entry_of s1 p = entry_of s p" "next_at s1 i p = next_at s i p"
  using assms by (simp_all add: good_node_def entry_of_def next_at_def)

lemma write_nodes_spec:
  assumes "supported (sl_keyLen s)" "sl_valueLen s = 8" "sl_head s = Some h"
    and "linked (next_at s 0) ns" "\<forall>p \<in> set ns. good_node s p" "distinct ns" "h \<notin> set ns"
    and "q = h \<or> good_node s q" "q \<notin> set ns"
    and "ib_wf b" "th < length (ib_write_ids b)" "N = ib_buffer_size b" "pos + N < U64"
    and "R = concat (map record_of (map (entry_of s) ns))" "l + length R \<le> N"
    and "\<forall>off len. off + len \<le> l + length R \<longrightarrow> ib_admits b (pos + off) len"
  shows "\<exists>m b'. write_nodes th pos s b l (Some q) (first_of ns) = Some (s\<lparr>sl_nodes := m\<rparr>, b') \<and>
    ring_read (ib_mem b') N (pos mod N) (l + length R) = ring_read (ib_mem b) N (pos mod N) l @ R \<and>
    (\<forall>p. m p = (if p \<in> set ns \<or> p = q \<and> q \<noteq> h then None else sl_nodes s p))"
  using assms
proof (induction ns arbitrary: s b l q R)
  case Nil
  let ?m = "if q = h then sl_nodes s else (sl_nodes s)(q := None)"
  have "write_nodes th pos s b l (Some q) (first_of []) = Some (s\<lparr>sl_nodes := ?m\<rparr>, b)"
    using delete_last_spec [OF Nil.prems(1,3,8)] by (subst write_nodes.simps) simp
  then show ?case using Nil.prems(14) by (intro exI [of _ ?m] exI [of _ b]) simp
next
  case (Cons p ns)
  define s1 where "s1 = (if q = h then s else s\<lparr>sl_nodes := (sl_nodes s)(q := None)\<rparr>)"
  note w = without_node [OF s1_def]
  have pq: "p \<noteq> q" "\<forall>p' \<in> set ns. p' \<noteq> q" using Cons.prems(9) by auto
  have s1: "sl_keyLen s1 = sl_keyLen s" "sl_valueLen s1 = 8" "sl_head s1 = Some h" "supported (sl_keyLen s1)"
    using Cons.prems(1-3) by (simp_all add: s1_def)
  let ?e = "entry_of s p" let ?kl = "sl_keyLen s" and ?R' = "concat (map record_of (map (entry_of s1) ns))"
  have g: "good_node s1 p" "next_at s1 0 p = Some (first_of ns)" "entry_of s1 p = ?e" using w [OF pq(1)] Cons.prems(4,5) by simp_all
  note v = good_node_values [OF s1(4) g(1), unfolded g(3) s1(1)]
  have R: "R = fst ?e @ le_encode 8 (snd ?e) @ ?R'" "length R = ?kl + 8 + length ?R'"
    using Cons.prems(14) w(2) pq(2) v(3) by (simp_all add: record_of_def cong: map_cong)
  have small: "l + ?kl + 8 + length ?R' \<le> N" using Cons.prems(15) R(2) by simp
  have pl: "add64 pos l = pos + l" "add64 l ?kl = l + ?kl" "add64 pos (l + ?kl) = pos + (l + ?kl)" "add64 (l + ?kl) 8 = l + ?kl + 8"
    using small Cons.prems(13) by (simp_all add: add64_small)
  from ib_write_extend [OF Cons.prems(10,11), of l "fst ?e" pos] small v(3) Cons.prems(12,16) R(2) obtain b1 where
    b1: "ib_writeBlock b (fst ?e) (pos + l) th = Some (True, b1)" "ib_wf b1" "length (ib_write_ids b1) = length (ib_write_ids b)"
      "ib_buffer_size b1 = N" "\<forall>q l. ib_admits b1 q l = ib_admits b q l"
      "ring_read (ib_mem b1) N (pos mod N) (l + ?kl) = ring_read (ib_mem b) N (pos mod N) l @ fst ?e"
    by auto
  from ib_write_extend [OF b1(2), of th "l + ?kl" "le_encode 8 (snd ?e)" pos] b1(3-5) Cons.prems(11,16) small R(2) obtain b2 where
    b2: "ib_writeBlock b1 (le_encode 8 (snd ?e)) (pos + (l + ?kl)) th = Some (True, b2)" "ib_wf b2"
      "length (ib_write_ids b2) = length (ib_write_ids b)" "ib_buffer_size b2 = N" "\<forall>q l. ib_admits b2 q l = ib_admits b q l"
      "ring_read (ib_mem b2) N (pos mod N) (l + ?kl + 8) = ring_read (ib_mem b1) N (pos mod N) (l + ?kl) @ le_encode 8 (snd ?e)"
    by auto
  have "\<exists>m b'. write_nodes th pos s1 b2 (l + ?kl + 8) (Some p) (first_of ns) = Some (s1\<lparr>sl_nodes := m\<rparr>, b') \<and>
    ring_read (ib_mem b') N (pos mod N) (l + ?kl + 8 + length ?R') = ring_read (ib_mem b2) N (pos mod N) (l + ?kl + 8) @ ?R' \<and>
    (\<forall>p'. m p' = (if p' \<in> set ns \<or> p' = p \<and> p \<noteq> h then None else sl_nodes s1 p'))"
  proof (rule Cons.IH [OF s1(4,2,3)])
    have "linked (next_at s 0) ns" using Cons.prems(4) by simp
    then show "linked (next_at s1 0) ns" by (rule linked_cong) (use w(3) pq(2) in blast)
    show "\<forall>p \<in> set ns. good_node s1 p" using w(1) pq(2) Cons.prems(5) by simp
    show "th < length (ib_write_ids b2)" using b2(3) Cons.prems(11) by simp
    show "\<forall>off len. off + len \<le> l + ?kl + 8 + length ?R' \<longrightarrow> ib_admits b2 (pos + off) len"
      using b2(5) Cons.prems(16) R(2) by simp
  qed (use Cons.prems(6,7,13) g b2(2,4) small in simp_all)
  then obtain m b' where m: "write_nodes th pos s1 b2 (l + ?kl + 8) (Some p) (first_of ns) = Some (s1\<lparr>sl_nodes := m\<rparr>, b')"
    "ring_read (ib_mem b') N (pos mod N) (l + ?kl + 8 + length ?R') = ring_read (ib_mem b2) N (pos mod N) (l + ?kl + 8) @ ?R'"
    "\<forall>p'. m p' = (if p' \<in> set ns \<or> p' = p \<and> p \<noteq> h then None else sl_nodes s1 p')"
    by blast
  have "write_nodes th pos s b l (Some q) (Some p) = Some (s\<lparr>sl_nodes := m\<rparr>, b')"
    using delete_last_spec [OF Cons.prems(1,3,8), folded s1_def] v s1 b1(1) b2(1) m(1) g(2)
    by (subst write_nodes.simps) (simp add: pl mread_def getNext_at, simp add: s1_def)
  moreover have "\<forall>p'. m p' = (if p' \<in> set (p # ns) \<or> p' = q \<and> q \<noteq> h then None else sl_nodes s p')"
    using m(3) Cons.prems(7) by (auto simp: s1_def)
  ultimately show ?case using m(2) b1(6) b2(6) R by (auto simp: add.assoc)
qed

lemma clear_levels_spec:
  assumes "supported (sl_keyLen s)" and "sl_nodes s h = Some nd" and "\<forall>i \<in> set is. i < length (sn_next nd)"
  shows "\<exists>nd'. clear_levels s (Some h) is = Some (s\<lparr>sl_nodes := (sl_nodes s)(h \<mapsto> nd')\<rparr>) \<and>
    sn_key nd' = sn_key nd \<and> sn_mutex nd' = sn_mutex nd \<and> length (sn_next nd') = length (sn_next nd) \<and>
    (\<forall>i < length (sn_next nd). sn_next nd' ! i = (if i \<in> set is then None else sn_next nd ! i))"
  using assms
proof (induction "is" arbitrary: s nd)
  case Nil
  then have "(sl_nodes s)(h \<mapsto> nd) = sl_nodes s" by (simp add: fun_upd_idem)
  then show ?case by (intro exI [of _ nd]) simp
next
  case (Cons i "is")
  let ?nd = "nd\<lparr>sn_next := (sn_next nd)[i := None]\<rparr>"
  let ?s = "s\<lparr>sl_nodes := (sl_nodes s)(h \<mapsto> ?nd)\<rparr>"
  have p: "putNext s (Some h) i None = Some ?s" using Cons.prems by (simp add: putNext_def vec_set_in)
  have "\<exists>nd'. clear_levels ?s (Some h) is = Some (?s\<lparr>sl_nodes := (sl_nodes ?s)(h \<mapsto> nd')\<rparr>) \<and>
    sn_key nd' = sn_key ?nd \<and> sn_mutex nd' = sn_mutex ?nd \<and> length (sn_next nd') = length (sn_next ?nd) \<and>
    (\<forall>k < length (sn_next ?nd). sn_next nd' ! k = (if k \<in> set is then None else sn_next ?nd ! k))"
    by (rule Cons.IH) (use Cons.prems in simp_all)
  then obtain nd' where nd': "clear_levels ?s (Some h) is = Some (?s\<lparr>sl_nodes := (sl_nodes ?s)(h \<mapsto> nd')\<rparr>)"
    "sn_key nd' = sn_key nd" "sn_mutex nd' = sn_mutex nd" "length (sn_next nd') = length (sn_next nd)"
    "\<forall>k < length (sn_next nd). sn_next nd' ! k = (if k \<in> set is then None else (sn_next nd)[i := None] ! k)"
    by auto
  have l: "(if k \<in> set is then None else (sn_next nd)[i := None] ! k) = (if k \<in> set (i # is) then None else sn_next nd ! k)"
    if "k < length (sn_next nd)" for k
    using that by (auto simp: nth_list_update)
  have c: "clear_levels s (Some h) (i # is) = Some (s\<lparr>sl_nodes := (sl_nodes s)(h \<mapsto> nd')\<rparr>)"
    using nd'(1) by (simp add: p)
  have n: "\<forall>k < length (sn_next nd). sn_next nd' ! k = (if k \<in> set (i # is) then None else sn_next nd ! k)"
    using nd'(5) l by simp
  show ?case by (rule exI [of _ nd']) (intro conjI c nd'(2-4) n)
qed

text \<open>Clearing needs only the head node: what the other nodes were does not matter.\<close>

lemma sl_clear_spec:
  assumes "supported (sl_keyLen s)" "sl_head s = Some h" "0 < sl_maxLevel s" "sl_maxLevel s < 2147483648"
    and "sl_now_level s \<le> sl_maxLevel s" "good_node s h" "h < sl_fresh s" "levels_of s h = sl_maxLevel s"
  shows "\<exists>s'. sl_clear s = Some s' \<and> sl_rep s' h [] \<and> sl_keyLen s' = sl_keyLen s \<and> sl_nodeNum s' = 0"
proof -
  from assms(6) obtain nd where nd: "sl_nodes s h = Some nd" "\<not> sn_mutex nd" "length (sn_key nd) = sl_keyLen s"
    by (auto simp: good_node_def)
  from clear_levels_spec [OF assms(1) nd(1), of "[0..<sl_maxLevel s]"] assms(8) nd(1) obtain nd' where
    c: "clear_levels s (Some h) [0..<sl_maxLevel s] = Some (s\<lparr>sl_nodes := (sl_nodes s)(h \<mapsto> nd')\<rparr>)"
      "sn_key nd' = sn_key nd" "sn_mutex nd' = sn_mutex nd" "length (sn_next nd') = sl_maxLevel s"
      "\<forall>i < sl_maxLevel s. sn_next nd' ! i = None"
    by (auto simp: levels_of_def)
  have "sl_clear s = Some (s\<lparr>sl_nodes := (sl_nodes s)(h \<mapsto> nd'), sl_nodeNum := 0\<rparr>)"
    using assms(1,2) c(1) by (simp add: sl_clear_def clearHead_def)
  then show ?thesis using assms nd c
    by (auto simp: sl_rep_def good_node_def levels_of_def next_at_def vec_get_in)
qed

section \<open>Histories\<close>

text \<open>A sequence of insertions of a key and a value, each with the level number drawn for it.\<close>

fun sl_inserts :: "SkipList \<Rightarrow> (bytes \<times> nat \<times> nat) list \<Rightarrow> SkipList option" where
  "sl_inserts sl [] = Some sl"
| "sl_inserts sl ((key, v, drawn) # ops) = do { (ok, sl') \<leftarrow> sl_insert sl key v drawn; sl_inserts sl' ops }"

definition sorted_entries :: "nat \<Rightarrow> (bytes \<times> nat \<times> nat) list \<Rightarrow> (bytes \<times> nat) list" where
  "sorted_entries kl ops = fold (\<lambda>(key, v, drawn). sorted_insert (key_lt kl) (key, v)) ops []"

definition ops_ok :: "nat \<Rightarrow> (bytes \<times> nat \<times> nat) list \<Rightarrow> bool" where
  "ops_ok kl ops \<longleftrightarrow> (\<forall>(key, v, drawn) \<in> set ops. length key = kl \<and> 0 < drawn)"

lemma sl_inserts_spec:
  assumes "sl_rep s h ns" and "ops_ok (sl_keyLen s) ops" and "sl_nodeNum s < U64"
  shows "\<exists>s' ns'. sl_inserts s ops = Some s' \<and> sl_rep s' h ns' \<and>
    map (entry_of s') ns' = fold (\<lambda>(key, v, drawn). sorted_insert (key_lt (sl_keyLen s)) (key, v)) ops (map (entry_of s) ns) \<and>
    sl_keyLen s' = sl_keyLen s \<and> sl_valueLen s' = sl_valueLen s \<and> sl_nodeNum s' = (sl_nodeNum s + length ops) mod U64"
  using assms
proof (induction ops arbitrary: s ns)
  case Nil
  then show ?case by auto
next
  case (Cons op ops)
  obtain key v drawn where op: "op = (key, v, drawn)" by (cases op)
  from Cons.prems(2) op have k: "length key = sl_keyLen s" "0 < drawn" "ops_ok (sl_keyLen s) ops" by (auto simp: ops_ok_def)
  from sl_insert_spec [OF Cons.prems(1) k(1,2), of v] obtain s1 ns1 where
    s1: "sl_insert s key v drawn = Some (True, s1)" "sl_rep s1 h ns1"
      "map (entry_of s1) ns1 = sorted_insert (key_lt (sl_keyLen s)) (key, v) (map (entry_of s) ns)"
      "sl_keyLen s1 = sl_keyLen s" "sl_valueLen s1 = sl_valueLen s" "sl_nodeNum s1 = add64 (sl_nodeNum s) 1"
    by blast
  from Cons.IH [OF s1(2)] k(3) s1(4,6) obtain s' ns' where
    s': "sl_inserts s1 ops = Some s'" "sl_rep s' h ns'"
      "map (entry_of s') ns' = fold (\<lambda>(key, v, drawn). sorted_insert (key_lt (sl_keyLen s)) (key, v)) ops (map (entry_of s1) ns1)"
      "sl_keyLen s' = sl_keyLen s1" "sl_valueLen s' = sl_valueLen s1" "sl_nodeNum s' = (sl_nodeNum s1 + length ops) mod U64"
    by auto
  have "(sl_nodeNum s1 + length ops) mod U64 = (sl_nodeNum s + length (op # ops)) mod U64"
    using s1(6) by (simp add: add64_def mod_simps One_nat_def)
  with s' s1 op show ?case by (intro exI [of _ s'] exI [of _ ns']) simp
qed

lemma fold_sorted:
  fixes es :: "(bytes \<times> nat) list"
  assumes "sorted_wrt (\<lambda>x y. \<not> key_lt kl (fst y) (fst x)) es"
  shows "sorted_wrt (\<lambda>x y. \<not> key_lt kl (fst y) (fst x)) (fold (\<lambda>(key, v, drawn). sorted_insert (key_lt kl) (key, v)) ops es)"
    and "mset (fold (\<lambda>(key, v, drawn). sorted_insert (key_lt kl) (key, v)) ops es) = mset es + mset (map (\<lambda>(key, v, drawn). (key, v)) ops)"
proof -
  have ms: "mset (sorted_insert lt e xs) = add_mset e (mset xs)" for lt and e :: "bytes \<times> nat" and xs
    by (induction xs) auto
  show "mset (fold (\<lambda>(key, v, drawn). sorted_insert (key_lt kl) (key, v)) ops es) = mset es + mset (map (\<lambda>(key, v, drawn). (key, v)) ops)"
    by (induction ops arbitrary: es) (auto simp: ms)
  show "sorted_wrt (\<lambda>x y. \<not> key_lt kl (fst y) (fst x)) (fold (\<lambda>(key, v, drawn). sorted_insert (key_lt kl) (key, v)) ops es)"
    using assms by (induction ops arbitrary: es) (auto intro: keys.insert_sorted)
qed

lemma filter_same_key:
  assumes "P = (\<lambda>e :: bytes \<times> nat. \<not> key_lt kl (fst e) key \<and> \<not> key_lt kl key (fst e))"
  shows "filter P (fold (\<lambda>(key, v, drawn). sorted_insert (key_lt kl) (key, v)) ops es)
    = filter P (map (\<lambda>(key, v, drawn). (key, v)) (rev ops) @ es)"
proof (induction ops arbitrary: es)
  case (Cons op ops)
  obtain k v d where op: "op = (k, v, d)" by (cases op)
  have "\<not> key_lt kl (fst x) (fst y)" if "P x" "P y" for x y
    using that unfolding assms by (meson keys.not_lt_trans)
  from keys.filter_insert [of P kl, OF this] have "filter P (sorted_insert (key_lt kl) (k, v) es) = filter P ((k, v) # es)" .
  with Cons [of "sorted_insert (key_lt kl) (k, v) es"] show ?case by (simp add: op)
qed simp

section \<open>Properties\<close>

text \<open>C18: the skip list is a sorted list. After any sequence of insertions, whatever levels are drawn, the
  node count is the number of insertions, a query for a key gives the values inserted under the
  key, the newest first, and a query for a range the values of the keys that are at least the
  first and below the last, in the order of the sorted list; all reduced to 32 bits, as the code
  does. No call fails or runs forever.\<close>

theorem skip_list_is_sorted_list:
  assumes "supported kl" and "0 < maxLvl" and "maxLvl < 2147483648" and "ops_ok kl ops"
  shows "\<exists>s0 s. sl_init SkipList_new maxLvl kl vl = Some s0 \<and> sl_inserts s0 ops = Some s \<and>
    sl_nodeNum s = length ops mod U64 \<and>
    (\<forall>key. length key = kl \<longrightarrow> findByKey s key = Some (map (\<lambda>(k, v, d). v mod 4294967296)
       (filter (\<lambda>(k, v, d). \<not> key_lt kl k key \<and> \<not> key_lt kl key k) (rev ops)))) \<and>
    (\<forall>lo hi. length lo = kl \<and> length hi = kl \<longrightarrow> findByRange s lo hi = Some (map (\<lambda>(k, v). v mod 4294967296)
       (filter (\<lambda>(k, v). \<not> key_lt kl k lo \<and> key_lt kl k hi) (sorted_entries kl ops)))) \<and>
    sorted_wrt (\<lambda>x y. \<not> key_lt kl (fst y) (fst x)) (sorted_entries kl ops) \<and>
    mset (sorted_entries kl ops) = mset (map (\<lambda>(k, v, d). (k, v)) ops)"
proof -
  from sl_init_rep [OF assms(1-3), of vl] obtain s0 where
    s0: "sl_init SkipList_new maxLvl kl vl = Some s0" "sl_rep s0 0 []" "sl_keyLen s0 = kl" "sl_nodeNum s0 = 0" by blast
  from sl_inserts_spec [OF s0(2), of ops, unfolded s0(3,4)] assms(4) obtain s ns where
    s: "sl_inserts s0 ops = Some s" "sl_rep s 0 ns" "map (entry_of s) ns = sorted_entries kl ops"
      "sl_keyLen s = kl" "sl_nodeNum s = length ops mod U64"
    by (auto simp: sorted_entries_def)
  have "findByKey s key = Some (map (\<lambda>(k, v, d). v mod 4294967296)
       (filter (\<lambda>(k, v, d). \<not> key_lt kl k key \<and> \<not> key_lt kl key k) (rev ops)))" if "length key = kl" for key
  proof -
    have e: "(\<lambda>(k, v, d). v mod 4294967296) = (\<lambda>x :: bytes \<times> nat \<times> nat. fst (snd x) mod 4294967296)"
      "(\<lambda>(k, v, d). \<not> key_lt kl k key \<and> \<not> key_lt kl key k) = (\<lambda>x :: bytes \<times> nat \<times> nat. \<not> key_lt kl (fst x) key \<and> \<not> key_lt kl key (fst x))"
      by (auto simp: fun_eq_iff)
    show ?thesis unfolding e
      using findByKey_spec [OF s(2), of key] that s(3,4) filter_same_key [OF refl, of kl key ops "[]"]
      by (simp add: sorted_entries_def filter_map comp_def case_prod_beta)
  qed
  moreover have "findByRange s lo hi = Some (map (\<lambda>(k, v). v mod 4294967296)
       (filter (\<lambda>(k, v). \<not> key_lt kl k lo \<and> key_lt kl k hi) (sorted_entries kl ops)))" if "length lo = kl" "length hi = kl" for lo hi
    unfolding case_prod_unfold using findByRange_spec [OF s(2), of lo hi] that s(3,4) by simp
  moreover have "sorted_wrt (\<lambda>x y. \<not> key_lt kl (fst y) (fst x)) (sorted_entries kl ops)"
    "mset (sorted_entries kl ops) = mset (map (\<lambda>(k, v, d). (k, v)) ops)"
    using fold_sorted [of kl "[]" ops] by (simp_all add: sorted_entries_def)
  ultimately show ?thesis using s0(1) s(1,5) by blast
qed

text \<open>C33: writing the list out. When the index buffer stands for the disk blocks of the target range, the
  records of the list (key and 64-bit value) lie at the target position, sorted, and clearing the
  list afterwards gives an empty list that works as before, though all its nodes are gone.\<close>

theorem written_list_is_sorted:
  assumes "supported kl" and "0 < maxLvl" and "maxLvl < 2147483648" and "ops_ok kl ops"
    and buf: "ib_wf b" "th < length (ib_write_ids b)" "pos + ib_buffer_size b < U64"
    and len: "len = (kl + 8) * length ops" "len \<le> ib_buffer_size b"
    and own: "\<forall>off l. off + l \<le> len \<longrightarrow> ib_admits b (pos + off) l"
  shows "\<exists>s0 s s1 b' s2. sl_init SkipList_new maxLvl kl 8 = Some s0 \<and> sl_inserts s0 ops = Some s \<and>
    writeNode s b th pos = Some (s1, b') \<and>
    ring_read (ib_mem b') (ib_buffer_size b) (pos mod ib_buffer_size b) len = concat (map record_of (sorted_entries kl ops)) \<and>
    sl_clear s1 = Some s2 \<and> sl_nodeNum s2 = 0 \<and> (\<forall>key. length key = kl \<longrightarrow> findByKey s2 key = Some [])"
proof -
  from sl_init_rep [OF assms(1-3), of 8] obtain s0 where
    s0: "sl_init SkipList_new maxLvl kl 8 = Some s0" "sl_rep s0 0 []" "sl_keyLen s0 = kl" "sl_valueLen s0 = 8" "sl_nodeNum s0 = 0" by blast
  from sl_inserts_spec [OF s0(2), of ops, unfolded s0(3-5)] assms(4) obtain s ns where
    s: "sl_inserts s0 ops = Some s" "sl_rep s 0 ns" "map (entry_of s) ns = sorted_entries kl ops" "sl_keyLen s = kl" "sl_valueLen s = 8"
    by (auto simp: sorted_entries_def)
  let ?R = "concat (map record_of (sorted_entries kl ops))"
  have r: "supported (sl_keyLen s)" "sl_head s = Some 0" "\<forall>p \<in> set ns. good_node s p" "distinct ns" "0 \<notin> set ns"
    "good_node s 0" "0 < sl_fresh s" "levels_of s 0 = sl_maxLevel s" "0 < sl_maxLevel s" "sl_maxLevel s < 2147483648"
    "sl_now_level s \<le> sl_maxLevel s" "\<forall>p \<in> set ns. 0 < levels_of s p"
    "\<forall>i < sl_maxLevel s. linked (next_at s i) (0 # filter (\<lambda>p. i < levels_of s p) ns)"
    using s(2) unfolding sl_rep_def by auto
  have "filter (\<lambda>p. 0 < levels_of s p) ns = ns" using r(12) by (simp add: filter_id_conv)
  with r(9,13) have l: "next_at s 0 0 = Some (first_of ns)" "linked (next_at s 0) ns" by force+
  have "length ns = length ops" using arg_cong [OF s(3), of length] arg_cong [OF fold_sorted(2) [of kl "[]" ops], of size]
    by (simp add: sorted_entries_def)
  moreover have "length ?R = (kl + 8) * length ns" unfolding s(3) [symmetric] using r(1,3) s(4)
    by (induction ns) (auto simp: record_of_def good_node_values(3))
  ultimately have len': "length ?R = len" using len(1) by simp
  obtain m b' where m: "write_nodes th pos s b 0 (Some 0) (first_of ns) = Some (s\<lparr>sl_nodes := m\<rparr>, b')"
    "ring_read (ib_mem b') (ib_buffer_size b) (pos mod ib_buffer_size b) (0 + length ?R)
       = ring_read (ib_mem b) (ib_buffer_size b) (pos mod ib_buffer_size b) 0 @ ?R"
    "\<forall>p. m p = (if p \<in> set ns \<or> p = 0 \<and> (0 :: nat) \<noteq> 0 then None else sl_nodes s p)"
    using write_nodes_spec [OF r(1) s(5) r(2) l(2) r(3,4,5) _ r(5) buf(1,2) refl buf(3), of ?R 0] len(2) len' own s(3) by auto
  let ?s1 = "s\<lparr>sl_nodes := m\<rparr>"
  have "good_node ?s1 0" "levels_of ?s1 0 = sl_maxLevel s" using r(5,6,8) m(3) by (simp_all add: good_node_def levels_of_def)
  with sl_clear_spec [of ?s1 0] r s(4) obtain s2 where s2: "sl_clear ?s1 = Some s2" "sl_rep s2 0 []" "sl_keyLen s2 = kl" "sl_nodeNum s2 = 0"
    by auto
  have "writeNode s b th pos = Some (?s1, b')" using m(1) l(1) r(1,2) by (simp add: writeNode_def getNext_at)
  moreover have "\<forall>key. length key = kl \<longrightarrow> findByKey s2 key = Some []" using findByKey_spec [OF s2(2)] s2(3) by simp
  ultimately show ?thesis using s0(1) s(1) s2 m(2) len' by (auto simp: ring_read_def)
qed

section \<open>Witnesses\<close>

lemma example_keys:
  "key_lt 2 [1, 0] [3, 0]" "\<not> key_lt 2 [3, 0] [1, 0]" "\<not> key_lt 2 [1, 0] [1, 0]" "\<not> key_lt 2 [3, 0] [3, 0]"
  by (simp_all add: key_lt_def)

theorem skip_list_is_sorted_list_witness:
  "\<exists>s0 s. sl_init SkipList_new 4 2 8 = Some s0 \<and>
     sl_inserts s0 [([1, 0], 10, 1), ([3, 0], 30, 2), ([1, 0], 11, 7)] = Some s \<and>
     findByKey s [1, 0] = Some [11, 10] \<and> findByKey s [3, 0] = Some [30] \<and> findByRange s [1, 0] [3, 0] = Some [11, 10]"
proof -
  let ?ops = "[([1, 0], 10, 1), ([3, 0], 30, 2), ([1, 0], 11, 7)] :: (bytes \<times> nat \<times> nat) list"
  have ok: "supported 2" "ops_ok 2 ?ops" by (simp_all add: supported_def ops_ok_def)
  have e: "sorted_entries 2 ?ops = [([1, 0], 11), ([1, 0], 10), ([3, 0], 30)]"
    by (simp add: sorted_entries_def example_keys)
  have k: "length [1, 0 :: byte] = 2" "length [3, 0 :: byte] = 2" by simp_all
  from skip_list_is_sorted_list [OF ok(1) _ _ ok(2), of 4 8] obtain s0 s where s:
    "sl_init SkipList_new 4 2 8 = Some s0" "sl_inserts s0 ?ops = Some s"
    "\<And>key. length key = 2 \<Longrightarrow> findByKey s key = Some (map (\<lambda>(k, v, d). v mod 4294967296)
       (filter (\<lambda>(k, v, d). \<not> key_lt 2 k key \<and> \<not> key_lt 2 key k) (rev ?ops)))"
    "\<And>lo hi. length lo = 2 \<and> length hi = 2 \<Longrightarrow> findByRange s lo hi = Some (map (\<lambda>(k, v). v mod 4294967296)
       (filter (\<lambda>(k, v). \<not> key_lt 2 k lo \<and> key_lt 2 k hi) (sorted_entries 2 ?ops)))"
    by auto
  from s(3) [OF k(1)] s(3) [OF k(2)] s(4) [OF conjI, OF k] have
    "findByKey s [1, 0] = Some [11, 10]" "findByKey s [3, 0] = Some [30]" "findByRange s [1, 0] [3, 0] = Some [11, 10]"
    by (simp_all add: e example_keys)
  with s(1,2) show ?thesis by blast
qed

theorem written_list_is_sorted_witness:
  "\<exists>s0 s s1 b'. sl_init SkipList_new 4 2 8 = Some s0 \<and> sl_inserts s0 [([3, 0], 30, 2), ([1, 0], 10, 1)] = Some s \<and>
     writeNode s example_index_blocks 0 0 = Some (s1, b') \<and>
     ring_read (ib_mem b') 64 0 20 = [1, 0] @ le_encode 8 10 @ [3, 0] @ le_encode 8 30"
proof -
  let ?ops = "[([3, 0], 30, 2), ([1, 0], 10, 1)] :: (bytes \<times> nat \<times> nat) list"
  have ok: "supported 2" "ops_ok 2 ?ops" by (simp_all add: supported_def ops_ok_def)
  have b: "0 < length (ib_write_ids example_index_blocks)" "ib_buffer_size example_index_blocks = 64"
    by (simp_all add: example_index_blocks_def)
  have e: "sorted_entries 2 ?ops = [([1, 0], 10), ([3, 0], 30)]" by (simp add: sorted_entries_def example_keys)
  have own: "\<forall>off l. off + l \<le> 20 \<longrightarrow> ib_admits example_index_blocks (0 + off) l"
  proof (intro allI impI)
    fix off l :: nat assume "off + l \<le> 20"
    then have "off div 16 = 0 \<or> off div 16 = 1" by auto
    then show "ib_admits example_index_blocks (0 + off) l"
      by (auto simp: ib_admits_def ib_owner_def example_index_blocks_def Let_def)
  qed
  from written_list_is_sorted [OF ok(1) _ _ ok(2) example_index_blocks_wf b(1), of 4 0 20] own show ?thesis
    unfolding b(2) e by (auto simp: record_of_def)
qed

end
