(* ===== verification/SkipListUnlock.thy ===== *)
theory SkipListUnlock
  imports SkipList
begin

text \<open>
  The second skip list, \<^verbatim>\<open>dpdk_lib/skipListUnlock.hpp\<close>: the same nodes and the same helper
  functions as \<open>SkipList\<close> without the locks, with a limit on the number of nodes, levels drawn by
  tossing coins, a destructor that walks the list, and two functions that write the list to a
  string. Its operations are related to those of \<open>SkipList\<close>, so that the results about the
  sorted list carry over.
\<close>

declare One_nat_def [simp del]

section \<open>Construction and destruction\<close>

text \<open>The numbers \<open>rand()\<close> returns are an argument; the level is drawn once a number is odd or the
  limit is reached.\<close>

fun level_loop :: "nat \<Rightarrow> nat list \<Rightarrow> nat \<Rightarrow> nat option" where
  "level_loop max_level [] lvl = None"
| "level_loop max_level (r # rands) lvl =
     (if r mod 2 = 0 \<and> lvl < max_level then level_loop max_level rands (lvl + 1) else Some lvl)"

definition ul_randomLevel :: "SkipList \<Rightarrow> nat list \<Rightarrow> nat option" where
  "ul_randomLevel sl rands = level_loop (sl_maxLevel sl) rands 1"

definition ul_new :: "nat \<Rightarrow> nat \<Rightarrow> nat \<Rightarrow> SkipList option" where
  "ul_new maxLvl keyLen valueLen = sl_init SkipList_new maxLvl keyLen valueLen"

partial_function (option) delete_from :: "SkipList \<Rightarrow> nat option \<Rightarrow> SkipList option" where
  "delete_from sl node =
     (if node = None then Some sl
      else do {
        node_tmp \<leftarrow> getNext sl node 0;
        sl' \<leftarrow> deleteNode sl node;
        delete_from sl' node_tmp })"

definition ul_delete :: "SkipList \<Rightarrow> SkipList option" where
  "ul_delete sl = delete_from sl (sl_head sl)"

section \<open>Insertion and queries\<close>

fun ul_link :: "SkipList \<Rightarrow> nat option \<Rightarrow> nat option list \<Rightarrow> nat list \<Rightarrow> SkipList option" where
  "ul_link sl new update [] = Some sl"
| "ul_link sl new update (i # is) = do {
     u \<leftarrow> vec_get update i;
     nxt \<leftarrow> getNext sl u i;
     sl1 \<leftarrow> putNext sl new i nxt;
     sl2 \<leftarrow> putNext sl1 u i new;
     ul_link sl2 new update is }"

definition ul_insert :: "SkipList \<Rightarrow> bytes \<Rightarrow> nat \<Rightarrow> nat \<Rightarrow> nat list \<Rightarrow> (bool \<times> SkipList) option" where
  "ul_insert sl key val maxNode rands =
     (if length key \<noteq> sl_keyLen sl then Some (True, sl)
      else do {
        let now_node_num = sl_nodeNum sl;
        let sl1 = sl\<lparr>sl_nodeNum := add64 (sl_nodeNum sl) 1\<rparr>;
        if now_node_num > maxNode then Some (False, sl1\<lparr>sl_nodeNum := sub64 (sl_nodeNum sl1) 1\<rparr>)
        else do {
          newLevel \<leftarrow> ul_randomLevel sl1 rands;
          (new, sl2) \<leftarrow> newNode sl1 key val newLevel;
          let nowLevel = sl_now_level sl2;
          update \<leftarrow> search_update sl2 key (if nowLevel > newLevel then nowLevel else newLevel) (sl_head sl2)
                      (replicate (sl_maxLevel sl2) None);
          sl3 \<leftarrow> ul_link sl2 new update [0..<newLevel];
          Some (True, if sl_now_level sl3 < newLevel then sl3\<lparr>sl_now_level := newLevel\<rparr> else sl3) } })"

definition ul_findByKey :: "SkipList \<Rightarrow> bytes \<Rightarrow> nat list option" where
  "ul_findByKey sl key =
     (if length key \<noteq> sl_keyLen sl then Some []
      else do {
        cur \<leftarrow> descend sl key (sl_now_level sl) (sl_head sl);
        beginNode \<leftarrow> getNext sl cur 0;
        collect sl key (\<lambda>node. map_option (\<lambda>c. c > 0) (compareNodeKey sl node key)) beginNode })"

definition ul_findByRange :: "SkipList \<Rightarrow> bytes \<Rightarrow> bytes \<Rightarrow> nat list option" where
  "ul_findByRange sl first_key last_key =
     (if length first_key \<noteq> sl_keyLen sl \<or> length last_key \<noteq> sl_keyLen sl then Some []
      else do {
        cur \<leftarrow> descend sl first_key (sl_now_level sl) (sl_head sl);
        beginNode \<leftarrow> getNext sl cur 0;
        collect sl first_key (\<lambda>node. map_option (\<lambda>c. c \<ge> 0) (compareNodeKey sl node last_key)) beginNode })"

section \<open>The list as a string\<close>

partial_function (option) output_nodes :: "SkipList \<Rightarrow> bytes \<Rightarrow> nat \<Rightarrow> nat option \<Rightarrow> bytes option" where
  "output_nodes sl data offset node =
     (if node = None then Some data
      else do {
        key \<leftarrow> getKey sl node;
        key_bytes \<leftarrow> mread key 0 (sl_keyLen sl);
        data1 \<leftarrow> mwrite data offset key_bytes;
        val \<leftarrow> getValue sl node;
        value_bytes \<leftarrow> mread (le_encode 8 val) 0 (sl_valueLen sl);
        data2 \<leftarrow> mwrite data1 (offset + sl_keyLen sl) value_bytes;
        nxt \<leftarrow> getNext sl node 0;
        output_nodes sl data2 (offset + sl_keyLen sl + sl_valueLen sl) nxt })"

definition outputToChar :: "SkipList \<Rightarrow> bytes option" where
  "outputToChar sl = do {
     node \<leftarrow> getNext sl (sl_head sl) 0;
     output_nodes sl (replicate (mul64 (sl_nodeNum sl) ((sl_keyLen sl + sl_valueLen sl) mod 4294967296)) 0) 0 node }"

text \<open>The compact form lists each key once with the number of its first value; the running number
  has 32 bits.\<close>

partial_function (option) compact_nodes :: "SkipList \<Rightarrow> bytes \<Rightarrow> bytes \<Rightarrow> nat \<Rightarrow> bytes \<Rightarrow> nat option \<Rightarrow> (bytes \<times> bytes) option" where
  "compact_nodes sl data values offset last_key node =
     (if node = None then Some (data, values)
      else do {
        key \<leftarrow> getKey sl node;
        let (data', last') = (if last_key \<noteq> key then (data @ key @ le_encode 4 offset, key) else (data, last_key));
        val \<leftarrow> getValue sl node;
        value_bytes \<leftarrow> mread (le_encode 8 val) 0 (sl_valueLen sl);
        values' \<leftarrow> mwrite values (offset * sl_valueLen sl mod 4294967296) value_bytes;
        nxt \<leftarrow> getNext sl node 0;
        compact_nodes sl data' values' ((offset + 1) mod 4294967296) last' nxt })"

definition outputToCharCompact :: "SkipList \<Rightarrow> bytes option" where
  "outputToCharCompact sl = do {
     node \<leftarrow> getNext sl (sl_head sl) 0;
     (data, values) \<leftarrow> compact_nodes sl (le_encode 8 (sl_nodeNum sl))
                         (replicate (mul64 (sl_nodeNum sl) (sl_valueLen sl)) 0) 0 [] node;
     Some (data @ values) }"

section \<open>The two lists agree\<close>

lemma level_loop_bounds: "level_loop m rands lvl = Some L \<Longrightarrow> lvl \<le> m \<Longrightarrow> lvl \<le> L \<and> L \<le> m"
proof (induction rands arbitrary: lvl)
  case (Cons r rands)
  show ?case
  proof (cases "r mod 2 = 0 \<and> lvl < m")
    case True
    then have "lvl + 1 \<le> L \<and> L \<le> m" by (intro Cons.IH) (use Cons.prems in auto)
    then show ?thesis by simp
  next
    case False
    then show ?thesis using Cons.prems by auto
  qed
qed simp

lemma ul_link_same:
  assumes "link_ready s key n u c z is"
  shows "ul_link s (Some n) u is = link_levels s key (Some n) u is"
  using assms
proof (induction "is" arbitrary: s)
  case (Cons i "is")
  from link_ready_step [OF Cons.prems] obtain s' where
    s': "link_level s key (Some n) i (Some (c i)) = Some s'"
      "(do { s1 \<leftarrow> putNext s (Some n) i (z i); putNext s1 (Some (c i)) i (Some n) }) = Some s'" "link_ready s' key n u c z is" by blast
  have "vec_get u i = Some (Some (c i))" "getNext s (Some (c i)) i = Some (z i)"
    using Cons.prems by (auto simp: link_ready_def getNext_at)
  with s' Cons.IH [OF s'(3)] show ?case by (auto simp: bind_eq_Some_conv)
qed simp

text \<open>C34: insertion without locks. On a well-formed list below its limit the unlocked insertion does what
  the locked one does with the level drawn; above the limit it answers false and changes nothing.
  The queries of the two lists are the same.\<close>

theorem unlocked_list_agrees:
  assumes rep: "sl_rep s h ns" and key: "length key = sl_keyLen s" and r: "ul_randomLevel s rands = Some L"
    and n: "sl_nodeNum s < U64"
  shows "ul_insert s key v maxNode rands =
      (if sl_nodeNum s > maxNode then Some (False, s) else sl_insert s key v L) \<and>
    ul_findByKey s k = findByKey s k \<and> ul_findByRange s lo hi = findByRange s lo hi"
proof -
  have head: "sl_head s = Some h" "0 < sl_maxLevel s" using rep by (simp_all add: sl_rep_def)
  have q: "ul_findByKey s k = findByKey s k" "ul_findByRange s lo hi = findByRange s lo hi"
    by (simp_all add: ul_findByKey_def findByKey_def ul_findByRange_def findByRange_def head)
  have L: "0 < L" "L \<le> sl_maxLevel s" using level_loop_bounds [of "sl_maxLevel s" rands 1 L] r head(2) by (auto simp: ul_randomLevel_def)
  define t where "t = s\<lparr>sl_nodeNum := add64 (sl_nodeNum s) 1\<rparr>"
  from insert_steps [OF rep key L t_def, of v] obtain n s2 u s3 c z where
    st: "newNode t key v L = Some (Some n, s2)"
      "search_update s2 key (if sl_now_level s2 > L then sl_now_level s2 else L) (sl_head s2) (replicate (sl_maxLevel s2) None) = Some u"
      "link_levels s2 key (Some n) u [0..<L] = Some s3" "link_ready s2 key n u c z [0..<L]"
    by blast
  have m: "randomLevel L (sl_maxLevel t) = L" "ul_randomLevel t rands = Some L"
    using L r by (simp_all add: randomLevel_def t_def ul_randomLevel_def)
  have undo: "t\<lparr>sl_nodeNum := sub64 (sl_nodeNum t) 1\<rparr> = s"
    using n by (simp add: t_def add64_def sub64_def mod_simps)
  have "sl_insert s key v L = Some (True, raise_level s3 L)"
    using key st(1-3) m(1) by (simp add: sl_insert_def Let_def t_def [symmetric] split: if_splits)
  moreover have "ul_insert s key v maxNode rands =
      (if sl_nodeNum s > maxNode then Some (False, s) else Some (True, raise_level s3 L))"
    using key st(1,2) st(3) [folded ul_link_same [OF st(4)]] m(2) undo
    by (simp add: ul_insert_def Let_def t_def [symmetric] raise_level_def split: if_splits)
  ultimately show ?thesis using q by simp
qed

section \<open>What the strings hold\<close>

lemma head_chain:
  assumes "sl_rep s h ns"
  shows "next_at s 0 h = Some (first_of ns)" "linked (next_at s 0) ns"
proof -
  have "\<forall>i < sl_maxLevel s. linked (next_at s i) (h # filter (\<lambda>p. i < levels_of s p) ns)" "0 < sl_maxLevel s"
    "\<forall>p \<in> set ns. 0 < levels_of s p" using assms unfolding sl_rep_def by auto
  then have "linked (next_at s 0) (h # filter (\<lambda>p. 0 < levels_of s p) ns)" "filter (\<lambda>p. 0 < levels_of s p) ns = ns"
    by (blast, simp add: filter_id_conv)
  then show "next_at s 0 h = Some (first_of ns)" "linked (next_at s 0) ns" by simp_all
qed

lemma length_records:
  assumes "supported (sl_keyLen s)" and "\<forall>p \<in> set ns. good_node s p"
  shows "length (concat (map record_of (map (entry_of s) ns))) = (sl_keyLen s + 8) * length ns"
  using assms by (induction ns) (auto simp: record_of_def good_node_values(3))

lemma output_nodes_spec:
  assumes "supported (sl_keyLen s)" "sl_valueLen s = 8" "linked (next_at s 0) ns" "\<forall>p \<in> set ns. good_node s p"
    and "length data = (sl_keyLen s + 8) * length ns"
  shows "output_nodes s (front @ data) (length front) (first_of ns) = Some (front @ concat (map record_of (map (entry_of s) ns)))"
  using assms(3-5)
proof (induction ns arbitrary: front data)
  case Nil
  then show ?case by (simp add: output_nodes.simps)
next
  case (Cons p ns)
  let ?e = "entry_of s p" let ?kl = "sl_keyLen s"
  note v = good_node_values [OF assms(1), of p]
  have g: "good_node s p" "next_at s 0 p = Some (first_of ns)" "linked (next_at s 0) ns" using Cons.prems(1,2) by simp_all
  have d: "length data = ?kl + 8 + (?kl + 8) * length ns" using Cons.prems(3) by simp
  have w1: "mwrite (front @ data) (length front) (fst ?e) = Some (front @ fst ?e @ drop ?kl data)"
    using d v(3) [OF g(1)] by (simp add: mwrite_def)
  have w2: "mwrite (front @ fst ?e @ drop ?kl data) (length front + ?kl) (le_encode 8 (snd ?e))
      = Some (front @ fst ?e @ le_encode 8 (snd ?e) @ drop (?kl + 8) data)"
    using d v(3) [OF g(1)] by (simp add: mwrite_def add.commute)
  have "output_nodes s ((front @ record_of ?e) @ drop (?kl + 8) data) (length (front @ record_of ?e)) (first_of ns)
      = Some ((front @ record_of ?e) @ concat (map record_of (map (entry_of s) ns)))"
    by (rule Cons.IH) (use g(3) Cons.prems(2) d in simp_all)
  then show ?case using v [OF g(1)] g(1,2) w1 w2
    by (subst output_nodes.simps) (simp add: mread_def getNext_at assms(1,2) record_of_def add.assoc)
qed

lemma outputToChar_spec:
  assumes rep: "sl_rep s h ns" and vl: "sl_valueLen s = 8" and n: "sl_nodeNum s = length ns" "(sl_keyLen s + 8) * length ns < U64"
  shows "outputToChar s = Some (concat (map record_of (map (entry_of s) ns)))"
proof -
  have r: "supported (sl_keyLen s)" "sl_head s = Some h" "\<forall>p \<in> set ns. good_node s p" using rep unfolding sl_rep_def by auto
  then have k: "(sl_keyLen s + 8) mod 4294967296 = sl_keyLen s + 8" by (auto simp: supported_def)
  show ?thesis
    using output_nodes_spec [OF r(1) vl head_chain(2) [OF rep] r(3), of "replicate ((sl_keyLen s + 8) * length ns) 0" "[]"] n
    by (simp add: outputToChar_def getNext_at r head_chain(1) [OF rep] vl k mul64_small mult.commute)
qed

text \<open>The compact form: each key once, with the number of its first value.\<close>

fun key_table :: "nat \<Rightarrow> bytes \<Rightarrow> (bytes \<times> nat) list \<Rightarrow> bytes" where
  "key_table i last_key [] = []"
| "key_table i last_key (e # es) =
     (if last_key \<noteq> fst e then fst e @ le_encode 4 i @ key_table (i + 1) (fst e) es else key_table (i + 1) last_key es)"

lemma compact_nodes_spec:
  assumes "supported (sl_keyLen s)" "sl_valueLen s = 8" "linked (next_at s 0) ns" "\<forall>p \<in> set ns. good_node s p"
    and "length vals = 8 * length ns" and "length front = 8 * i" and "8 * (i + length ns) < 4294967296"
  shows "compact_nodes s data (front @ vals) i last_key (first_of ns) =
    Some (data @ key_table i last_key (map (entry_of s) ns), front @ concat (map (\<lambda>e. le_encode 8 (snd e)) (map (entry_of s) ns)))"
  using assms(3-7)
proof (induction ns arbitrary: front vals i last_key data)
  case Nil
  then show ?case by (simp add: compact_nodes.simps)
next
  case (Cons p ns)
  let ?e = "entry_of s p"
  note v = good_node_values [OF assms(1), of p]
  have g: "good_node s p" "next_at s 0 p = Some (first_of ns)" "linked (next_at s 0) ns" using Cons.prems(1,2) by simp_all
  let ?d = "if last_key \<noteq> fst ?e then data @ fst ?e @ le_encode 4 i else data" and ?l = "if last_key \<noteq> fst ?e then fst ?e else last_key"
  have off: "i * 8 mod 4294967296 = length front" "(i + 1) mod 4294967296 = i + 1" using Cons.prems(4,5) by simp_all
  have w: "mwrite (front @ vals) (length front) (le_encode 8 (snd ?e)) = Some ((front @ le_encode 8 (snd ?e)) @ drop 8 vals)"
    using Cons.prems(3) by (simp add: mwrite_def)
  have ih: "compact_nodes s ?d ((front @ le_encode 8 (snd ?e)) @ drop 8 vals) (i + 1) ?l (first_of ns) =
    Some (?d @ key_table (i + 1) ?l (map (entry_of s) ns),
      (front @ le_encode 8 (snd ?e)) @ concat (map (\<lambda>e. le_encode 8 (snd e)) (map (entry_of s) ns)))"
    by (rule Cons.IH) (use g(3) Cons.prems in simp_all)
  have "compact_nodes s data (front @ vals) i last_key (Some p)
    = compact_nodes s ?d ((front @ le_encode 8 (snd ?e)) @ drop 8 vals) (i + 1) ?l (first_of ns)"
    using v [OF g(1)] g(1,2) w off by (subst compact_nodes.simps) (simp add: mread_def getNext_at assms(1,2))
  then show ?case using ih by (simp add: comp_def)
qed

text \<open>The strings written from a list. The plain form is the records in order; the compact form is the
  number of nodes, then each key that differs from the one before it with the number of its first
  value, then the values in order.\<close>

lemma strings_hold_the_list:
  assumes rep: "sl_rep s h ns" and vl: "sl_valueLen s = 8" and n: "sl_nodeNum s = length ns" "(sl_keyLen s + 8) * length ns < 4294967296"
  shows "outputToChar s = Some (concat (map record_of (map (entry_of s) ns))) \<and>
    outputToCharCompact s = Some (le_encode 8 (length ns) @ key_table 0 [] (map (entry_of s) ns) @
      concat (map (\<lambda>e. le_encode 8 (snd e)) (map (entry_of s) ns)))"
proof -
  have r: "supported (sl_keyLen s)" "sl_head s = Some h" "\<forall>p \<in> set ns. good_node s p" using rep unfolding sl_rep_def by auto
  have plain: "outputToChar s = Some (concat (map record_of (map (entry_of s) ns)))"
    by (rule outputToChar_spec [OF rep vl n(1)]) (use n(2) in simp)
  have "8 * length ns < 4294967296" using n(2) by (simp add: add_mult_distrib)
  then show ?thesis using plain
    using compact_nodes_spec [OF r(1) vl head_chain(2) [OF rep] r(3), of "replicate (8 * length ns) 0" "[]" 0] n
    by (simp add: outputToCharCompact_def getNext_at r head_chain(1) [OF rep] vl mul64_small mult.commute)
qed

section \<open>Witnesses\<close>

theorem unlocked_list_agrees_witness:
  "\<exists>s. ul_new 4 2 8 = Some s \<and> ul_insert s [1, 0] 7 100 [2, 5] = sl_insert s [1, 0] 7 2 \<and>
     ul_findByKey s [1, 0] = findByKey s [1, 0]"
proof -
  from sl_init_rep [of 2 4 8] obtain s where
    s: "ul_new 4 2 8 = Some s" "sl_rep s 0 []" "sl_keyLen s = 2" "sl_maxLevel s = 4" "sl_nodeNum s = 0"
    by (auto simp: supported_def ul_new_def)
  have "ul_randomLevel s [2, 5] = Some 2" using s(4) by (simp add: ul_randomLevel_def)
  from unlocked_list_agrees [OF s(2) _ this, of "[1, 0]" 7 100 "[1, 0]"] s show ?thesis by auto
qed

lemma strings_hold_the_list_example:
  "\<exists>s0 s. sl_init SkipList_new 4 2 8 = Some s0 \<and> sl_inserts s0 [([3, 0], 30, 2), ([1, 0], 10, 1)] = Some s \<and>
     outputToChar s = Some ([1, 0] @ le_encode 8 10 @ [3, 0] @ le_encode 8 30) \<and>
     outputToCharCompact s = Some (le_encode 8 2 @ [1, 0] @ le_encode 4 0 @ [3, 0] @ le_encode 4 1 @ le_encode 8 10 @ le_encode 8 30)"
proof -
  let ?ops = "[([3, 0], 30, 2), ([1, 0], 10, 1)] :: (bytes \<times> nat \<times> nat) list"
  from sl_init_rep [of 2 4 8] obtain s0 where
    s0: "sl_init SkipList_new 4 2 8 = Some s0" "sl_rep s0 0 []" "sl_keyLen s0 = 2" "sl_valueLen s0 = 8" "sl_nodeNum s0 = 0"
    by (auto simp: supported_def)
  have "ops_ok 2 ?ops" by (simp add: ops_ok_def)
  with sl_inserts_spec [OF s0(2), of ?ops, unfolded s0(3-5)] obtain s ns where
    s: "sl_inserts s0 ?ops = Some s" "sl_rep s 0 ns" "map (entry_of s) ns = [([1, 0], 10), ([3, 0], 30)]"
      "sl_keyLen s = 2" "sl_valueLen s = 8" "sl_nodeNum s = 2"
    by (auto simp: example_keys)
  have l: "length ns = 2" using arg_cong [OF s(3), of length] by simp
  from strings_hold_the_list [OF s(2,5)] l s have "outputToChar s = Some ([1, 0] @ le_encode 8 10 @ [3, 0] @ le_encode 8 30)"
    "outputToCharCompact s = Some (le_encode 8 2 @ [1, 0] @ le_encode 4 0 @ [3, 0] @ le_encode 4 1 @ le_encode 8 10 @ le_encode 8 30)"
    by (simp_all add: record_of_def)
  with s0(1) s(1) show ?thesis by blast
qed

end
