(* ===== verification/StringBloom.thy ===== *)
theory StringBloom
  imports BitMapStore
begin

text \<open>
  The Bloom filter over strings of \<^verbatim>\<open>dpdk_lib/bloomFilter.hpp\<close>. The bits lie in a string; the hash function of
  the standard library is a parameter. An empty string of bits makes the reduction of the hash undefined.
\<close>

declare One_nat_def [simp del]

record BloomFilter =
  bitArray :: bytes
  bf_k :: nat

definition BloomFilter_new :: "nat \<Rightarrow> nat \<Rightarrow> BloomFilter" where
  "BloomFilter_new len k = \<lparr>bitArray = replicate len 0, bf_k = k\<rparr>"

definition BloomFilter_of :: "bytes \<Rightarrow> nat \<Rightarrow> nat \<Rightarrow> BloomFilter option" where
  "BloomFilter_of data len k = map_option (\<lambda>bs. \<lparr>bitArray = bs, bf_k = k\<rparr>) (mread data 0 len)"

definition setBit :: "bytes \<Rightarrow> nat \<Rightarrow> bytes option" where
  "setBit bits i = do { b \<leftarrow> vec_get bits (i div 8); vec_set bits (i div 8) (b OR push_bit (i mod 8) 1) }"

definition getBit :: "bytes \<Rightarrow> nat \<Rightarrow> bool option" where
  "getBit bits i = map_option (\<lambda>b. (b AND push_bit (i mod 8) 1) \<noteq> 0) (vec_get bits (i div 8))"

definition bf_hash :: "(bytes \<Rightarrow> nat) \<Rightarrow> bytes \<Rightarrow> nat \<Rightarrow> nat" where
  "bf_hash h element i = add64 (h element) (mul64 i 1540483477)"

definition bf_index :: "(bytes \<Rightarrow> nat) \<Rightarrow> bytes \<Rightarrow> bytes \<Rightarrow> nat \<Rightarrow> nat option" where
  "bf_index h bits element i =
     (if mul64 (length bits) 8 = 0 then None else Some (bf_hash h element i mod mul64 (length bits) 8))"

fun bf_insert_loop :: "(bytes \<Rightarrow> nat) \<Rightarrow> bytes \<Rightarrow> nat list \<Rightarrow> bytes \<Rightarrow> bytes option" where
  "bf_insert_loop h element [] bits = Some bits"
| "bf_insert_loop h element (i # is) bits = do {
     n \<leftarrow> bf_index h bits element i;
     bits' \<leftarrow> setBit bits n;
     bf_insert_loop h element is bits' }"

definition bf_insert :: "(bytes \<Rightarrow> nat) \<Rightarrow> BloomFilter \<Rightarrow> bytes \<Rightarrow> BloomFilter option" where
  "bf_insert h f element = map_option (\<lambda>bits. f\<lparr>bitArray := bits\<rparr>) (bf_insert_loop h element [0..<bf_k f] (bitArray f))"

fun bf_contains_loop :: "(bytes \<Rightarrow> nat) \<Rightarrow> bytes \<Rightarrow> nat list \<Rightarrow> bytes \<Rightarrow> bool option" where
  "bf_contains_loop h element [] bits = Some True"
| "bf_contains_loop h element (i # is) bits = do {
     n \<leftarrow> bf_index h bits element i;
     b \<leftarrow> getBit bits n;
     if b then bf_contains_loop h element is bits else Some False }"

definition bf_contains :: "(bytes \<Rightarrow> nat) \<Rightarrow> BloomFilter \<Rightarrow> bytes \<Rightarrow> bool option" where
  "bf_contains h f element = bf_contains_loop h element [0..<bf_k f] (bitArray f)"

fun bf_inserts :: "(bytes \<Rightarrow> nat) \<Rightarrow> bytes list \<Rightarrow> BloomFilter \<Rightarrow> BloomFilter option" where
  "bf_inserts h [] f = Some f"
| "bf_inserts h (x # xs) f = do { f' \<leftarrow> bf_insert h f x; bf_inserts h xs f' }"

section \<open>The bits that are set\<close>

definition bits_on :: "bytes \<Rightarrow> nat set" where
  "bits_on bits = {i. i < length bits * 8 \<and> bit (bits ! (i div 8)) (i mod 8)}"

definition bf_pos :: "(bytes \<Rightarrow> nat) \<Rightarrow> nat \<Rightarrow> bytes \<Rightarrow> nat \<Rightarrow> nat" where
  "bf_pos h len element i = bf_hash h element i mod (len * 8)"

lemma getBit_on: "i < length bits * 8 \<Longrightarrow> getBit bits i = Some (i \<in> bits_on bits)"
  by (simp only: getBit_def vec_get_in less_mult_imp_div_less option.map and_push_bit_one) (simp add: bits_on_def)

lemma setBit_on:
  assumes "i < length bits * 8"
  shows "\<exists>bits'. setBit bits i = Some bits' \<and> length bits' = length bits \<and> bits_on bits' = insert i (bits_on bits)"
proof -
  let ?b = "bits[i div 8 := bits ! (i div 8) OR push_bit (i mod 8) 1]"
  have d: "i div 8 < length bits" using assms by (simp add: less_mult_imp_div_less)
  have "setBit bits i = Some ?b" using d by (simp add: setBit_def vec_get_def vec_set_def)
  moreover have "bits_on ?b = insert i (bits_on bits)"
  proof (intro set_eqI)
    fix j
    have eq: "j = i \<longleftrightarrow> j div 8 = i div 8 \<and> j mod 8 = i mod 8" by (metis div_mult_mod_eq)
    have dj: "j div 8 < length bits" if "j < length bits * 8" using that by (simp add: less_mult_imp_div_less)
    show "j \<in> bits_on ?b \<longleftrightarrow> j \<in> insert i (bits_on bits)"
      using assms d dj eq by (cases "j div 8 = i div 8") (auto simp: bits_on_def bit_or_iff bit_push_bit_iff)
  qed
  ultimately show ?thesis by auto
qed

lemma bf_index_pos:
  assumes "bits \<noteq> []" and "length bits * 8 < U64"
  shows "bf_index h bits element i = Some (bf_pos h (length bits) element i)" and "bf_pos h (length bits) element i < length bits * 8"
  using assms by (simp_all add: bf_index_def bf_pos_def mul64_small)

lemma bf_insert_loop_on:
  "bits \<noteq> [] \<Longrightarrow> length bits * 8 < U64 \<Longrightarrow> \<exists>bits'. bf_insert_loop h element is bits = Some bits' \<and> length bits' = length bits \<and>
     bits_on bits' = bf_pos h (length bits) element ` set is \<union> bits_on bits"
proof (induction "is" arbitrary: bits)
  case (Cons i "is")
  from setBit_on [OF bf_index_pos(2) [OF Cons.prems]] obtain b1 where b1: "setBit bits (bf_pos h (length bits) element i) = Some b1"
    "length b1 = length bits" "bits_on b1 = insert (bf_pos h (length bits) element i) (bits_on bits)" by blast
  have "b1 \<noteq> []" "length b1 * 8 < U64" using b1(2) Cons.prems by auto
  from Cons.IH [OF this] show ?case using bf_index_pos(1) [OF Cons.prems] b1 by auto
qed simp

lemma bf_contains_loop_on:
  "bits \<noteq> [] \<Longrightarrow> length bits * 8 < U64 \<Longrightarrow>
     bf_contains_loop h element is bits = Some (bf_pos h (length bits) element ` set is \<subseteq> bits_on bits)"
  by (induction "is") (simp_all add: bf_index_pos getBit_on)

lemma bf_inserts_on:
  "bitArray f \<noteq> [] \<Longrightarrow> length (bitArray f) * 8 < U64 \<Longrightarrow> \<exists>f'. bf_inserts h xs f = Some f' \<and> bf_k f' = bf_k f \<and>
     length (bitArray f') = length (bitArray f) \<and>
     bits_on (bitArray f') = (\<Union>x \<in> set xs. bf_pos h (length (bitArray f)) x ` {..<bf_k f}) \<union> bits_on (bitArray f)"
proof (induction xs arbitrary: f)
  case (Cons x xs)
  from bf_insert_loop_on [OF Cons.prems, of h x "[0..<bf_k f]"] obtain b1 where b1:
    "bf_insert_loop h x [0..<bf_k f] (bitArray f) = Some b1" "length b1 = length (bitArray f)"
    "bits_on b1 = bf_pos h (length (bitArray f)) x ` {0..<bf_k f} \<union> bits_on (bitArray f)" by auto
  let ?f = "f\<lparr>bitArray := b1\<rparr>"
  have i: "bf_insert h f x = Some ?f" by (simp add: bf_insert_def b1(1))
  have "bitArray ?f \<noteq> []" "length (bitArray ?f) * 8 < U64" using b1(2) Cons.prems by auto
  from Cons.IH [OF this] show ?case using i b1(2,3) by (auto simp: atLeast0LessThan)
qed simp

text \<open>The Bloom filter over strings answers exactly by the bits of the inserted elements. For every hash function, every filter with at
  least one byte and every list of insertions, all of them succeed, and an element is reported exactly when each of its \<open>k\<close> bits is a
  bit of some inserted element; so no inserted element is ever missed.\<close>

lemma string_bloom_exact:
  assumes "0 < len" and "len * 8 < U64"
  shows "\<exists>f. bf_inserts h xs (BloomFilter_new len k) = Some f \<and>
    bf_contains h f y = Some (\<forall>i < k. \<exists>x \<in> set xs. \<exists>j < k. bf_pos h len y i = bf_pos h len x j) \<and>
    (y \<in> set xs \<longrightarrow> bf_contains h f y = Some True)"
proof -
  let ?f = "BloomFilter_new len k"
  have ne: "bitArray ?f \<noteq> []" "length (bitArray ?f) * 8 < U64" using assms by (simp_all add: BloomFilter_new_def)
  have off: "bits_on (bitArray ?f) = {}" by (auto simp: bits_on_def BloomFilter_new_def less_mult_imp_div_less)
  from bf_inserts_on [OF ne, of h xs] obtain f where f: "bf_inserts h xs ?f = Some f" "bf_k f = k" "length (bitArray f) = len"
    "bits_on (bitArray f) = (\<Union>x \<in> set xs. bf_pos h len x ` {..<k})" unfolding off by (auto simp: BloomFilter_new_def)
  have "bitArray f \<noteq> []" "length (bitArray f) * 8 < U64" using f(3) assms by auto
  then have c: "bf_contains h f y = Some (bf_pos h len y ` {..<k} \<subseteq> bits_on (bitArray f))"
    by (simp add: bf_contains_def bf_contains_loop_on f(2,3) atLeast0LessThan)
  have "bf_pos h len y ` {..<k} \<subseteq> bits_on (bitArray f) \<longleftrightarrow> (\<forall>i < k. \<exists>x \<in> set xs. \<exists>j < k. bf_pos h len y i = bf_pos h len x j)"
    unfolding f(4) by (auto simp: image_iff Bex_def)
  moreover have "y \<in> set xs \<longrightarrow> bf_pos h len y ` {..<k} \<subseteq> bits_on (bitArray f)" unfolding f(4) by auto
  ultimately show ?thesis using f(1) c by auto
qed

lemma string_bloom_exact_example:
  "\<exists>f. bf_inserts (\<lambda>x. unat (hd x)) [[7], [9]] (BloomFilter_new 4 3) = Some f \<and> bf_contains (\<lambda>x. unat (hd x)) f [9] = Some True"
  using string_bloom_exact [of 4 "\<lambda>x. unat (hd x)" "[[7], [9]]" 3 "[9]"] by auto

end
