(* ===== verification/SkipListLayers.thy ===== *)
theory SkipListLayers
  imports SkipListUnlock StringBloom
begin

text \<open>
  The compressed output of \<^verbatim>\<open>dpdk_lib/skipListUnlock.hpp\<close>: the keys of the sorted list become a tree in layers.
  A key is cut into slices, the most significant first; layer \<open>i\<close> is a string of entries, each a slice and a
  32-bit number: where the children begin in the next layer, or on the last layer the number of the first value. An entry with
  one key below it holds the number of the value directly, marked by the highest bit, and the entries below
  are dropped. The two functions of the code differ only in the length of a slice, one or four bytes.
\<close>

declare One_nat_def [simp del]

section \<open>Writing the layers\<close>

record Layers =
  ly_layers :: "bytes list"
  ly_counts :: "nat list"
  ly_values :: bytes
  ly_value_offset :: nat
  ly_new_pre :: bool
  ly_last_key :: bytes
  ly_filter :: BloomFilter

text \<open>The 32-bit number at the end of a layer; there is none in an empty string.\<close>

definition last_offset :: "bytes \<Rightarrow> nat option" where
  "last_offset layer = (if length layer < 4 then None else map_option le_decode (mread layer (length layer - 4) 4))"

text \<open>Shortening a string by more than its length would be an error of the standard library.\<close>

fun drop_last_entries :: "nat \<Rightarrow> nat list \<Rightarrow> bytes list \<Rightarrow> bytes list option" where
  "drop_last_entries w [] layers = Some layers"
| "drop_last_entries w (j # js) layers = do {
     l \<leftarrow> vec_get layers j;
     if length l < w + 4 then None
     else drop_last_entries w js (layers[j := take (length l - (w + 4)) l]) }"

text \<open>The last entry of layer \<open>i\<close> has one key below it.\<close>

definition collapse :: "nat \<Rightarrow> nat \<Rightarrow> bytes list \<Rightarrow> bytes list option" where
  "collapse w i layers = do {
     bottom \<leftarrow> vec_get layers (length layers - 1);
     off \<leftarrow> last_offset bottom;
     layer \<leftarrow> vec_get layers i;
     if length layer < 4 then None
     else do {
       layer' \<leftarrow> mwrite layer (length layer - 4) (le_encode 4 ((2147483648 + off) mod 4294967296));
       drop_last_entries w [i + 1..<length layers] (layers[i := layer']) } }"

definition add_entry :: "nat \<Rightarrow> nat \<Rightarrow> nat \<Rightarrow> nat \<Rightarrow> bytes \<Rightarrow> bytes list \<Rightarrow> bytes list option" where
  "add_entry w value_len value_offset i pre layers = do {
     layer \<leftarrow> vec_get layers i;
     offset \<leftarrow> (if i = length layers - 1 then (if value_len = 0 then None else Some (value_offset div value_len))
                else map_option (\<lambda>l. length l div (w + 4)) (vec_get layers (i + 1)));
     Some (layers[i := layer @ pre @ le_encode 4 offset]) }"

text \<open>One slice of a key. As long as the slices are those of the key before, only the count is raised.\<close>

definition slice_step :: "nat \<Rightarrow> nat \<Rightarrow> nat \<Rightarrow> bytes \<Rightarrow> nat \<Rightarrow> bytes list \<times> nat list \<times> bool \<Rightarrow> (bytes list \<times> nat list \<times> bool) option" where
  "slice_step w value_len value_offset key i s =
     (case s of (layers, counts, new_pre) \<Rightarrow> do {
        let n = length layers;
        pre \<leftarrow> mread key (w * (n - i - 1)) w;
        layer \<leftarrow> vec_get layers i;
        count \<leftarrow> vec_get counts i;
        same \<leftarrow> (if new_pre then Some False
                 else if length layer < w + 4 then None
                 else map_option (\<lambda>last_pre. last_pre = pre) (mread layer (length layer - (w + 4)) w));
        if same then Some (layers, counts[i := (count + 1) mod 4294967296], new_pre)
        else do {
          (layers, counts) \<leftarrow> (if count = 1 \<and> i \<noteq> n - 1
             then map_option (\<lambda>ls. (ls, take (i + 1) counts @ replicate (n - (i + 1)) 0)) (collapse w i layers)
             else Some (layers, counts));
          layers \<leftarrow> add_entry w value_len value_offset i pre layers;
          Some (layers, counts[i := 1], True) } })"

fun slices_loop :: "nat \<Rightarrow> nat \<Rightarrow> nat \<Rightarrow> bytes \<Rightarrow> nat list \<Rightarrow> bytes list \<times> nat list \<times> bool \<Rightarrow> (bytes list \<times> nat list \<times> bool) option" where
  "slices_loop w value_len value_offset key [] s = Some s"
| "slices_loop w value_len value_offset key (i # is) s = do {
     s' \<leftarrow> slice_step w value_len value_offset key i s;
     slices_loop w value_len value_offset key is s' }"

definition put_value :: "nat \<Rightarrow> nat \<Rightarrow> Layers \<Rightarrow> Layers option" where
  "put_value value_len val s = do {
     value_bytes \<leftarrow> mread (le_encode 8 val) 0 value_len;
     values \<leftarrow> mwrite (ly_values s) (ly_value_offset s) value_bytes;
     Some (s\<lparr>ly_values := values, ly_value_offset := (ly_value_offset s + value_len) mod 4294967296, ly_new_pre := False\<rparr>) }"

text \<open>The loop over the slices counts with eight bits, so it does not end for more than 255 layers.\<close>

definition layers_node :: "(bytes \<Rightarrow> nat) \<Rightarrow> nat \<Rightarrow> nat \<Rightarrow> bytes \<Rightarrow> nat \<Rightarrow> Layers \<Rightarrow> Layers option" where
  "layers_node h w value_len key val s =
     (if key = ly_last_key s then put_value value_len val s
      else do {
        filt \<leftarrow> bf_insert h (ly_filter s) key;
        if length (ly_layers s) > 255 then None
        else do {
          (layers, counts, new_pre) \<leftarrow> slices_loop w value_len (ly_value_offset s) key [0..<length (ly_layers s)]
                                         (ly_layers s, ly_counts s, ly_new_pre s);
          put_value value_len val (s\<lparr>ly_last_key := key, ly_filter := filt, ly_layers := layers, ly_counts := counts\<rparr>) } })"

partial_function (option) layers_nodes :: "(bytes \<Rightarrow> nat) \<Rightarrow> nat \<Rightarrow> SkipList \<Rightarrow> Layers \<Rightarrow> nat option \<Rightarrow> Layers option" where
  "layers_nodes h w sl s node =
     (if node = None then Some s
      else do {
        key \<leftarrow> getKey sl node;
        val \<leftarrow> getValue sl node;
        s' \<leftarrow> layers_node h w (sl_valueLen sl) key val s;
        nxt \<leftarrow> getNext sl node 0;
        layers_nodes h w sl s' nxt })"

fun close_last :: "nat \<Rightarrow> nat list \<Rightarrow> nat list \<Rightarrow> bytes list \<Rightarrow> bytes list option" where
  "close_last w counts [] layers = Some layers"
| "close_last w counts (i # is) layers = do {
     count \<leftarrow> vec_get counts i;
     if count = 1 \<and> i \<noteq> length layers - 1 then collapse w i layers else close_last w counts is layers }"

text \<open>The count of nodes, the bits of the filter, the lengths of the layers, the layers and the values.\<close>

definition output_layers :: "(bytes \<Rightarrow> nat) \<Rightarrow> nat \<Rightarrow> SkipList \<Rightarrow> bytes option" where
  "output_layers h w sl = do {
     let n = sl_keyLen sl div w;
     let s = \<lparr>ly_layers = replicate n [], ly_counts = replicate n 0, ly_values = replicate (mul64 (sl_nodeNum sl) (sl_valueLen sl)) 0,
              ly_value_offset = 0, ly_new_pre = True, ly_last_key = [], ly_filter = BloomFilter_new (sl_nodeNum sl) 3\<rparr>;
     node \<leftarrow> getNext sl (sl_head sl) 0;
     s \<leftarrow> layers_nodes h w sl s node;
     if n > 255 then None
     else do {
       layers \<leftarrow> close_last w (ly_counts s) [0..<n] (ly_layers s);
       Some (le_encode 4 (sl_nodeNum sl) @ bitArray (ly_filter s) @ concat (map (\<lambda>l. le_encode 4 (length l)) layers) @
         concat layers @ ly_values s) } }"

definition outputToCharCompressedInt :: "(bytes \<Rightarrow> nat) \<Rightarrow> SkipList \<Rightarrow> bytes option" where
  "outputToCharCompressedInt h sl = output_layers h 4 sl"

definition outputToCharCompressed :: "(bytes \<Rightarrow> nat) \<Rightarrow> SkipList \<Rightarrow> bytes option" where
  "outputToCharCompressed h sl = output_layers h 1 sl"

section \<open>Towers of entries\<close>

text \<open>The layers as lists of entries, with the count of keys below the last entry of each. A key is the list of its slices, its
  value the number \<open>v\<close> of its first value.\<close>

type_synonym entry = "bytes \<times> nat"
type_synonym tower = "(entry list \<times> nat) list"

abbreviation marked :: nat where "marked \<equiv> 2147483648"

definition marked_last :: "entry list \<Rightarrow> nat \<Rightarrow> entry list" where
  "marked_last es v = butlast es @ [(fst (last es), marked + v)]"

definition bottom_value :: "tower \<Rightarrow> nat" where
  "bottom_value L = snd (last (fst (last L)))"

definition popped :: "tower \<Rightarrow> tower" where
  "popped L = map (\<lambda>(es, c). (butlast es, 0)) L"

fun tower_add :: "nat \<Rightarrow> bool \<Rightarrow> bytes list \<Rightarrow> tower \<Rightarrow> tower" where
  "tower_add v new [] T = T"
| "tower_add v new (x # xs) [] = []"
| "tower_add v new (x # xs) ((es, c) # L) =
     (if \<not> new \<and> fst (last es) = x then (es, c + 1) # tower_add v False xs L
      else let es' = (if c = 1 \<and> L \<noteq> [] then marked_last es (bottom_value L) else es);
               L' = (if c = 1 \<and> L \<noteq> [] then popped L else L)
           in (es' @ [(x, if L' = [] then v else length (fst (hd L')))], 1) # tower_add v True xs L')"

fun tower_close :: "tower \<Rightarrow> entry list list" where
  "tower_close [] = []"
| "tower_close ((es, c) # L) =
     (if c = 1 \<and> L \<noteq> [] then marked_last es (bottom_value L) # map fst (popped L) else es # tower_close L)"

text \<open>The search for a key: the first entry with its slice, from where the children of the entry above begin.\<close>

fun seek :: "entry list list \<Rightarrow> nat \<Rightarrow> bytes list \<Rightarrow> nat option" where
  "seek (es # L) start (x # xs) =
     (case find (\<lambda>e. fst e = x) (drop start es) of None \<Rightarrow> None
      | Some e \<Rightarrow> if snd e \<ge> marked then Some (snd e - marked)
                  else if L = [] then Some (snd e) else seek L (snd e) xs)"
| "seek L start xs = None"

abbreviation old_part :: "tower \<Rightarrow> entry list list" where
  "old_part T \<equiv> map (\<lambda>x. butlast (fst x)) T"

text \<open>Searches survive when layers are extended.\<close>

definition extends :: "entry list list \<Rightarrow> entry list list \<Rightarrow> bool" where
  "extends L L' \<longleftrightarrow> list_all2 (\<lambda>es es'. \<exists>r. es' = es @ r) L L'"

lemma find_append: "find P xs = Some e \<Longrightarrow> find P (xs @ ys) = Some e"
  by (induction xs) auto

lemma find_split: "find P xs = None \<longleftrightarrow> (\<forall>x \<in> set xs. \<not> P x)"
  by (auto simp: find_None_iff)

lemma seek_extends: "seek L start xs = Some v \<Longrightarrow> extends L L' \<Longrightarrow> seek L' start xs = Some v"
proof (induction L start xs arbitrary: L' rule: seek.induct)
  case (1 es L start x xs)
  from 1(3) obtain r L1 where L': "L' = (es @ r) # L1" "extends L L1"
    by (auto simp: extends_def list_all2_Cons1)
  from 1(2) obtain e where e: "find (\<lambda>e. fst e = x) (drop start es) = Some e" by (auto split: option.splits)
  have f: "find (\<lambda>e. fst e = x) (drop start es @ drop (start - length es) r) = Some e" by (rule find_append [OF e])
  have "L1 = [] \<longleftrightarrow> L = []" using L'(2) by (auto simp: extends_def)
  then show ?case using 1(1) [OF e _ _ _ L'(2)] 1(2) by (simp add: L'(1) e f split: if_splits)
qed simp_all

lemma extends_refl [simp]: "extends L L"
  by (simp add: extends_def list_all2_refl)

lemma extends_Cons: "extends (es # L) (es' # L') \<longleftrightarrow> (\<exists>r. es' = es @ r) \<and> extends L L'"
  by (simp add: extends_def)

section \<open>What a tower holds\<close>

text \<open>The keys \<open>K\<close> of one group with their values: those whose first slice is the one of the last entry go on below it, the
  others are found without the last entries. The last key is \<open>ys\<close> with value \<open>vl\<close>.\<close>

definition below :: "bytes \<Rightarrow> (bytes list \<times> nat) list \<Rightarrow> (bytes list \<times> nat) list" where
  "below y K = map (\<lambda>k. (tl (fst k), snd k)) (filter (\<lambda>k. hd (fst k) = y) K)"

fun tower_holds :: "tower \<Rightarrow> nat \<Rightarrow> bytes list \<Rightarrow> nat \<Rightarrow> (bytes list \<times> nat) list \<Rightarrow> bool" where
  "tower_holds [] start ys vl K \<longleftrightarrow> ys = [] \<and> (\<forall>k \<in> set K. k = ([], vl))"
| "tower_holds ((es, c) # L) start [] vl K \<longleftrightarrow> False"
| "tower_holds ((es, c) # L) start (y # ys) vl K \<longleftrightarrow>
     start < length es \<and> fst (last es) = y \<and> y \<notin> fst ` set (drop start (butlast es)) \<and> snd (last es) < marked \<and>
     (L = [] \<longrightarrow> snd (last es) = vl) \<and> (\<forall>e \<in> set (drop start es). \<exists>k \<in> set K. hd (fst k) = fst e) \<and>
     (\<forall>k \<in> set K. fst k \<noteq> []) \<and> (y # ys, vl) \<in> set K \<and>
     (\<forall>k \<in> set K. hd (fst k) \<noteq> y \<longrightarrow> seek (old_part ((es, c) # L)) start (fst k) = Some (snd k)) \<and>
     c = length (below y K) \<and> tower_holds L (snd (last es)) ys vl (below y K)"

lemma below_in: "k \<in> set K \<Longrightarrow> hd (fst k) = y \<Longrightarrow> (tl (fst k), snd k) \<in> set (below y K)"
  by (auto simp: below_def)

lemma bottom_of_holds: "tower_holds T start ys vl K \<Longrightarrow> T \<noteq> [] \<Longrightarrow> bottom_value T = vl"
proof (induction T start ys vl K rule: tower_holds.induct)
  case (3 es c L start y ys vl K)
  then show ?case by (cases L) (auto simp: bottom_value_def)
qed simp_all

lemma last_found:
  fixes es :: "entry list"
  assumes "start < length es" and "fst (last es) \<notin> fst ` set (drop start (butlast es))"
  shows "find (\<lambda>e. fst e = fst (last es)) (drop start es) = Some (last es)"
    and "find (\<lambda>e. fst e = fst (last es)) (drop start (butlast es @ e' # r)) = (if fst e' = fst (last es) then Some e' else find (\<lambda>e. fst e = fst (last es)) r)"
proof -
  have ne: "es \<noteq> []" using assms(1) by auto
  have none: "find (\<lambda>e. fst e = fst (last es)) (drop start (butlast es)) = None"
    unfolding find_None_iff using assms(2) by (auto simp: image_iff)
  have f: "find P xs = None \<Longrightarrow> find P (xs @ ys) = find P ys" for P and xs ys :: "entry list" by (induction xs) auto
  have z: "start - length (butlast es) = 0" using assms(1) by simp
  show 2: "find (\<lambda>e. fst e = fst (last es)) (drop start (butlast es @ e' # r)) = (if fst e' = fst (last es) then Some e' else find (\<lambda>e. fst e = fst (last es)) r)" for e' r
    unfolding drop_append z f [OF none] by simp
  show "find (\<lambda>e. fst e = fst (last es)) (drop start es) = Some (last es)"
    using 2 [of "last es" "[]"] append_butlast_last_id [OF ne] by simp
qed

lemma old_extends: "extends (old_part T) (map fst T)"
proof -
  have "\<exists>r. es = butlast es @ r" for es :: "entry list" by (cases "es = []") (auto intro: append_butlast_last_id [symmetric])
  then show ?thesis by (auto simp: extends_def list.rel_map list_all2_same)
qed

lemma holds_seek:
  "tower_holds T start ys vl K \<Longrightarrow> T \<noteq> [] \<Longrightarrow> k \<in> set K \<Longrightarrow> seek (map fst T) start (fst k) = Some (snd k)"
proof (induction T start ys vl K arbitrary: k rule: tower_holds.induct)
  case (3 es c L start y ys vl K)
  have h: "start < length es" "fst (last es) = y" "y \<notin> fst ` set (drop start (butlast es))" "snd (last es) < marked"
    "L = [] \<longrightarrow> snd (last es) = vl" "\<forall>k \<in> set K. fst k \<noteq> []" "tower_holds L (snd (last es)) ys vl (below y K)"
    "\<forall>k \<in> set K. hd (fst k) \<noteq> y \<longrightarrow> seek (old_part ((es, c) # L)) start (fst k) = Some (snd k)" using "3.prems"(1) by auto
  show ?case
  proof (cases "hd (fst k) = y")
    case False
    then have "seek (old_part ((es, c) # L)) start (fst k) = Some (snd k)" using h(8) "3.prems"(3) by blast
    then show ?thesis by (rule seek_extends [OF _ old_extends])
  next
    case True
    obtain xs where xs: "fst k = y # xs" using True h(6) "3.prems"(3) by (cases "fst k") auto
    have f: "find (\<lambda>e. fst e = y) (drop start es) = Some (last es)" using last_found(1) [OF h(1)] h(2,3) by simp
    have b: "(xs, snd k) \<in> set (below y K)" using below_in [OF "3.prems"(3) True] xs by simp
    show ?thesis
    proof (cases "L = []")
      case True
      then show ?thesis using h(4,5,7) b f xs by auto
    next
      case False
      then show ?thesis using "3.IH" [OF h(7) False b] f xs h(4) by simp
    qed
  qed
qed simp_all

section \<open>Adding a key\<close>

lemma tower_add_length: "length xs = length T \<Longrightarrow> length (tower_add v new xs T) = length T"
  by (induction v new xs T rule: tower_add.induct) (simp_all add: Let_def popped_def)

lemma tower_add_other:
  "new \<or> fst (last es) \<noteq> x \<Longrightarrow> tower_add v new (x # xs) ((es, c) # L) = tower_add v True (x # xs) ((es, c) # L)"
  by auto

lemma marked_last_length: "es \<noteq> [] \<Longrightarrow> length (marked_last es v) = length es"
  and marked_last_fst: "es \<noteq> [] \<Longrightarrow> map fst (marked_last es v) = map fst es"
  by (cases es rule: rev_cases; simp add: marked_last_def)+

lemma marked_last_extends: "\<exists>r. marked_last es v = butlast es @ r"
  by (simp add: marked_last_def)

lemma butlast_extends: "\<exists>r. (es :: entry list) = butlast es @ r"
  by (cases "es = []") (auto intro: append_butlast_last_id [symmetric])

lemma popped_add:
  "\<forall>x \<in> set T. snd x = 0 \<Longrightarrow> length xs = length T \<Longrightarrow> old_part (tower_add v True xs T) = map fst T"
proof (induction T arbitrary: xs)
  case (Cons a T)
  then show ?case by (cases a; cases xs) auto
qed simp

lemma popped_parts: "map fst (popped L) = old_part L" "popped L = [] \<longleftrightarrow> L = []" "\<forall>x \<in> set (popped L). snd x = 0"
  "length (popped L) = length L"
  by (auto simp: popped_def)

lemma add_extends: "length xs = length T \<Longrightarrow> extends (old_part T) (old_part (tower_add v new xs T))"
proof (induction v new xs T rule: tower_add.induct)
  case (3 v new x xs es c L)
  show ?case
  proof (cases "\<not> new \<and> fst (last es) = x")
    case True
    then show ?thesis using "3.IH"(1) "3.prems" by (simp add: extends_Cons)
  next
    case other: False
    show ?thesis
    proof (cases "c = 1 \<and> L \<noteq> []")
      case True
      have "old_part (tower_add v True xs (popped L)) = old_part L"
        using popped_add [OF popped_parts(3)] "3.prems" popped_parts(1,4) by simp
      then show ?thesis unfolding tower_add.simps if_not_P [OF other] using True marked_last_extends by (simp add: extends_Cons Let_def)
    next
      case False
      then show ?thesis unfolding tower_add.simps if_not_P [OF other]
        using "3.IH"(2) [OF other refl refl] "3.prems" butlast_extends by (auto simp: extends_Cons Let_def)
    qed
  qed
qed simp_all

text \<open>After the last entries have been closed, every key of the group is found in the old part.\<close>

lemma new_keeps_old:
  "tower_holds T start ys vl K \<Longrightarrow> T \<noteq> [] \<Longrightarrow> length xs = length T \<Longrightarrow> k \<in> set K \<Longrightarrow>
   seek (old_part (tower_add v True xs T)) start (fst k) = Some (snd k)"
proof (induction T start ys vl K arbitrary: xs k rule: tower_holds.induct)
  case (3 es c L start y ys vl K)
  have h: "start < length es" "fst (last es) = y" "y \<notin> fst ` set (drop start (butlast es))" "snd (last es) < marked"
    "L = [] \<longrightarrow> snd (last es) = vl" "\<forall>k \<in> set K. fst k \<noteq> []" "tower_holds L (snd (last es)) ys vl (below y K)"
    "\<forall>k \<in> set K. hd (fst k) \<noteq> y \<longrightarrow> seek (old_part ((es, c) # L)) start (fst k) = Some (snd k)"
    "c = length (below y K)" "(y # ys, vl) \<in> set K" using "3.prems"(1) by auto
  obtain x xs' where xs: "xs = x # xs'" "length xs' = length L" using "3.prems"(3) by (cases xs) auto
  show ?case
  proof (cases "hd (fst k) = y")
    case False
    then have "seek (old_part ((es, c) # L)) start (fst k) = Some (snd k)" using h(8) "3.prems"(4) by blast
    then show ?thesis by (rule seek_extends [OF _ add_extends [OF "3.prems"(3)]])
  next
    case True
    obtain zs where zs: "fst k = y # zs" using True h(6) "3.prems"(4) by (cases "fst k") auto
    have b: "(zs, snd k) \<in> set (below y K)" using below_in [OF "3.prems"(4) True] zs by simp
    show ?thesis
    proof (cases "c = 1 \<and> L \<noteq> []")
      case closed: True
      have "(ys, vl) \<in> set (below y K)" using below_in [OF h(10)] by simp
      moreover obtain a b where "below y K = [(a, b)]" using closed h(9) by (metis length_0_conv length_Suc_conv One_nat_def surj_pair)
      ultimately have v: "snd k = vl" using b by simp
      have bv: "bottom_value L = vl" using bottom_of_holds [OF h(7)] closed by simp
      have "find (\<lambda>e. fst e = y) (drop start (marked_last es vl)) = Some (y, marked + vl)"
        using last_found(2) [OF h(1), of "(y, marked + vl)" "[]"] h(2,3) by (simp add: marked_last_def)
      then show ?thesis using closed xs(1) zs v bv by (simp add: Let_def)
    next
      case False
      have f: "find (\<lambda>e. fst e = y) (drop start es) = Some (last es)" using last_found(1) [OF h(1)] h(2,3) by simp
      have e: "old_part (tower_add v True xs ((es, c) # L)) = es # old_part (tower_add v True xs' L)"
        using False xs(1) by (auto simp: Let_def)
      show ?thesis
      proof (cases "L = []")
        case True
        then show ?thesis unfolding e using h(4,5,7) b f zs xs(2) by auto
      next
        case ne: False
        then have "old_part (tower_add v True xs' L) \<noteq> []" using tower_add_length [OF xs(2)] by (metis length_0_conv length_map)
        then show ?thesis unfolding e using "3.IH" [OF h(7) ne xs(2) b] f zs h(4) by simp
      qed
    qed
  qed
qed simp_all

text \<open>No layer has too many entries, and an entry with one key exists.\<close>

definition tower_small :: "nat \<Rightarrow> tower \<Rightarrow> bool" where
  "tower_small n T \<longleftrightarrow> (\<forall>x \<in> set T. length (fst x) \<le> n \<and> snd x \<le> n \<and> (snd x = 1 \<longrightarrow> fst x \<noteq> []))"

lemma tower_small_Cons: "tower_small n ((es, c) # L) \<longleftrightarrow> length es \<le> n \<and> c \<le> n \<and> (c = 1 \<longrightarrow> es \<noteq> []) \<and> tower_small n L"
  by (auto simp: tower_small_def)

lemma popped_small: "tower_small n L \<Longrightarrow> tower_small n (popped L)"
  by (auto simp: tower_small_def popped_def)

lemma tower_small_mono: "tower_small n T \<Longrightarrow> n \<le> m \<Longrightarrow> tower_small m T"
  by (fastforce simp: tower_small_def)

lemma add_small: "tower_small n T \<Longrightarrow> new \<or> (\<forall>x \<in> set T. fst x \<noteq> []) \<Longrightarrow> tower_small (n + 1) (tower_add v new xs T)"
proof (induction v new xs T rule: tower_add.induct)
  case (1 v new T)
  then show ?case using tower_small_mono [OF 1(1)] by simp
next
  case (2 v new x xs)
  show ?case by (simp add: tower_small_def)
next
  case (3 v new x xs es c L)
  have s: "length es \<le> n" "c \<le> n" "c = 1 \<longrightarrow> es \<noteq> []" "tower_small n L" using "3.prems" by (simp_all add: tower_small_Cons)
  show ?case
  proof (cases "\<not> new \<and> fst (last es) = x")
    case True
    then show ?thesis using "3.IH"(1) [OF True s(4)] s "3.prems"(2) by (auto simp: tower_small_Cons)
  next
    case other: False
    show ?thesis
      unfolding tower_add.simps if_not_P [OF other]
      using "3.IH"(2) [OF other refl refl] s popped_small [OF s(4)] by (auto simp: tower_small_Cons Let_def marked_last_length)
  qed
qed

text \<open>A new key is alone on the layers where it starts.\<close>

lemma new_key_holds:
  "length xs = length T \<Longrightarrow> v < marked \<Longrightarrow> tower_small n T \<Longrightarrow> n < marked \<Longrightarrow> T \<noteq> [] \<longrightarrow> start = length (fst (hd T)) \<Longrightarrow>
   tower_holds (tower_add v True xs T) start xs v [(xs, v)]"
proof (induction xs arbitrary: T start)
  case (Cons x xs)
  obtain es c L where T: "T = (es, c) # L" "length xs = length L" using Cons.prems(1) by (cases T) auto
  have s: "length es \<le> n" "c = 1 \<longrightarrow> es \<noteq> []" "tower_small n L" using Cons.prems(3) by (simp_all add: T tower_small_Cons)
  define es' where "es' = (if c = 1 \<and> L \<noteq> [] then marked_last es (bottom_value L) else es)"
  define L' where "L' = (if c = 1 \<and> L \<noteq> [] then popped L else L)"
  let ?o = "if L' = [] then v else length (fst (hd L'))"
  have l: "length es' = length es" "length xs = length L'" "tower_small n L'" using s T(2) popped_small [OF s(3)]
    by (auto simp: es'_def L'_def marked_last_length popped_parts)
  have e: "tower_add v True (x # xs) T = (es' @ [(x, ?o)], 1) # tower_add v True xs L'"
    by (simp add: T(1) es'_def L'_def Let_def)
  have o: "?o < marked"
  proof (cases L')
    case Nil
    then show ?thesis using Cons.prems(2) by simp
  next
    case (Cons a M)
    then show ?thesis using l(3) Cons.prems(4) by (cases a) (simp add: tower_small_Cons)
  qed
  have r: "tower_holds (tower_add v True xs L') ?o xs v [(xs, v)]"
    by (rule Cons.IH) (use l Cons.prems in auto)
  have n: "tower_add v True xs L' = [] \<longleftrightarrow> L' = []" using tower_add_length [OF l(2)] by (metis length_0_conv)
  have b: "below x [(x # xs, v)] = [(xs, v)]" by (simp add: below_def)
  have st: "start = length es" using Cons.prems(5) T(1) by simp
  show ?case unfolding e using o r n l(1) st by (simp add: b One_nat_def)
qed simp

text \<open>The new key \<open>xs\<close> leaves the last key \<open>ys\<close> at a slice that no key of the group has there.\<close>

fun leaves :: "bytes list \<Rightarrow> bytes list \<Rightarrow> bytes list list \<Rightarrow> bool" where
  "leaves (y # ys) (x # xs) Z = (if x = y then leaves ys xs (map tl (filter (\<lambda>z. hd z = y) Z)) else x \<notin> hd ` set Z)"
| "leaves ys xs Z = False"

lemma below_keys: "map fst (below y K) = map tl (filter (\<lambda>z. hd z = y) (map fst K))"
  by (induction K) (auto simp: below_def)

lemma below_append: "below y (K @ [(x # xs, v)]) = below y K @ (if x = y then [(xs, v)] else [])"
  by (simp add: below_def)

lemma below_none: "x \<notin> hd ` set (map fst K) \<Longrightarrow> below x K = []"
  by (auto simp: below_def filter_empty_conv)

lemma drop_fst_cover: "map fst es' = map fst es \<Longrightarrow> fst ` set (drop start es') = fst ` set (drop start es)"
  by (metis drop_map list.set_map)

lemma tower_add_holds:
  "tower_holds T start ys vl K \<Longrightarrow> length xs = length T \<Longrightarrow> leaves ys xs (map fst K) \<Longrightarrow> v < marked \<Longrightarrow> tower_small n T \<Longrightarrow> n < marked \<Longrightarrow>
   tower_holds (tower_add v False xs T) start xs v (K @ [(xs, v)])"
proof (induction T start ys vl K arbitrary: xs rule: tower_holds.induct)
  case (3 es c L start y ys vl K)
  have h: "start < length es" "fst (last es) = y" "y \<notin> fst ` set (drop start (butlast es))" "snd (last es) < marked"
    "\<forall>e \<in> set (drop start es). \<exists>k \<in> set K. hd (fst k) = fst e" "\<forall>k \<in> set K. fst k \<noteq> []" "tower_holds L (snd (last es)) ys vl (below y K)"
    "\<forall>k \<in> set K. hd (fst k) \<noteq> y \<longrightarrow> seek (old_part ((es, c) # L)) start (fst k) = Some (snd k)"
    "c = length (below y K)" using "3.prems"(1) by auto
  obtain x xs' where xs: "xs = x # xs'" "length xs' = length L" using "3.prems"(2) by (cases xs) auto
  have s: "tower_small n L" "es \<noteq> []" using "3.prems"(5) h(1) by (auto simp: tower_small_Cons)
  show ?case
  proof (cases "x = y")
    case True
    have lv: "leaves ys xs' (map fst (below y K))" using "3.prems"(3) xs True by (simp add: below_keys)
    have "L \<noteq> []" using lv xs(2) h(7) by (cases L) auto
    note ih = "3.IH" [OF h(7) xs(2) lv "3.prems"(4) s(1) "3.prems"(6)]
    have e: "tower_add v False xs ((es, c) # L) = (es, c + 1) # tower_add v False xs' L" using xs(1) True h(2) by simp
    have old: "seek (old_part ((es, c + 1) # tower_add v False xs' L)) start (fst k) = Some (snd k)" if "k \<in> set K" "hd (fst k) \<noteq> y" for k
      using seek_extends [OF _ add_extends [OF "3.prems"(2)]] h(8) that unfolding e [symmetric] by blast
    have ne: "tower_add v False xs' L \<noteq> []" using tower_add_length [OF xs(2)] \<open>L \<noteq> []\<close> by (metis length_0_conv)
    show ?thesis unfolding e using h(1-6,9) old ih ne xs(1) True by (simp add: below_append One_nat_def)
  next
    case False
    have nx: "x \<notin> hd ` set (map fst K)" using "3.prems"(3) xs False by simp
    define es' where "es' = (if c = 1 \<and> L \<noteq> [] then marked_last es (bottom_value L) else es)"
    define L' where "L' = (if c = 1 \<and> L \<noteq> [] then popped L else L)"
    let ?o = "if L' = [] then v else length (fst (hd L'))"
    have l: "length es' = length es" "map fst es' = map fst es" "length xs' = length L'" "tower_small n L'"
      using s xs(2) popped_small [OF s(1)] by (auto simp: es'_def L'_def marked_last_length marked_last_fst popped_parts)
    have e: "tower_add v False xs ((es, c) # L) = (es' @ [(x, ?o)], 1) # tower_add v True xs' L'"
      using False h(2) by (simp add: xs(1) es'_def L'_def Let_def)
    have e': "tower_add v False xs ((es, c) # L) = tower_add v True xs ((es, c) # L)" using False h(2) by (simp add: xs(1))
    have o: "?o < marked"
    proof (cases L')
      case Nil
      then show ?thesis using "3.prems"(4) by simp
    next
      case (Cons a M)
      then show ?thesis using l(4) "3.prems"(6) by (cases a) (simp add: tower_small_Cons)
    qed
    have r: "tower_holds (tower_add v True xs' L') ?o xs' v [(xs', v)]"
      by (rule new_key_holds [OF l(3) "3.prems"(4) l(4) "3.prems"(6)]) simp
    have m: "tower_add v True xs' L' = [] \<longleftrightarrow> L' = []" using tower_add_length [OF l(3)] by (metis length_0_conv)
    have cover: "fst ` set (drop start es') = fst ` set (drop start es)" by (rule drop_fst_cover [OF l(2)])
    have nin: "x \<notin> fst ` set (drop start es')"
    proof
      assume "x \<in> fst ` set (drop start es')"
      then obtain e where "e \<in> set (drop start es)" "fst e = x" unfolding cover by auto
      then obtain k where "k \<in> set K" "hd (fst k) = x" using h(5) by auto
      then show False using nx by (auto simp: image_iff)
    qed
    have cov: "\<exists>k \<in> set K. hd (fst k) = fst e" if "e \<in> set (drop start es')" for e
    proof -
      have "fst e \<in> fst ` set (drop start es)" using that cover by blast
      then obtain e0 where "e0 \<in> set (drop start es)" "fst e0 = fst e" by auto
      then show ?thesis using h(5) by metis
    qed
    have old: "seek (old_part ((es' @ [(x, ?o)], 1) # tower_add v True xs' L')) start (fst k) = Some (snd k)" if "k \<in> set K" for k
    proof -
      have "seek (old_part (tower_add v True xs ((es, c) # L))) start (fst k) = Some (snd k)"
        by (rule new_keeps_old [OF "3.prems"(1) _ "3.prems"(2) that]) simp
      then show ?thesis unfolding e' [symmetric] e by simp
    qed
    have b: "below x (K @ [(xs, v)]) = [(xs', v)]" using below_none [OF nx] by (simp add: xs(1) below_append)
    have st: "start < length (es' @ [(x, ?o)])" "fst (last (es' @ [(x, ?o)])) = x" "snd (last (es' @ [(x, ?o)])) = ?o" using h(1) l(1) by simp_all
    have d: "drop start (butlast (es' @ [(x, ?o)])) = drop start es'" "drop start (es' @ [(x, ?o)]) = drop start es' @ [(x, ?o)]"
      using h(1) l(1) by simp_all
    have last_one: "tower_add v True xs' L' = [] \<longrightarrow> ?o = v" using m by simp
    have covered: "\<forall>e \<in> set (drop start es' @ [(x, ?o)]). \<exists>k \<in> set (K @ [(xs, v)]). hd (fst k) = fst e"
      using cov by (auto simp: xs(1))
    have found: "\<forall>k \<in> set (K @ [(xs, v)]). hd (fst k) \<noteq> x \<longrightarrow>
        seek (old_part ((es' @ [(x, ?o)], 1) # tower_add v True xs' L')) start (fst k) = Some (snd k)"
      using old by (auto simp: xs(1))
    have some: "\<forall>k \<in> set (K @ [(xs, v)]). fst k \<noteq> []" "(x # xs', v) \<in> set (K @ [(xs, v)])" using h(6) by (simp_all add: xs(1))
    have one: "1 = length [(xs', v)]" by (simp add: One_nat_def)
    have "tower_holds ((es' @ [(x, ?o)], 1) # tower_add v True xs' L') start (x # xs') v (K @ [(xs, v)])"
      unfolding tower_holds.simps d st b
      by (intro conjI) (rule st(1) refl nin o last_one covered some found one r)+
    then show ?thesis unfolding e unfolding xs(1) .
  qed
qed simp_all

lemma close_extends: "extends (old_part T) (tower_close T)"
proof (induction T rule: tower_close.induct)
  case (2 es c L)
  show ?case using 2 marked_last_extends butlast_extends by (auto simp: extends_Cons popped_parts)
qed simp

text \<open>When the last key has been closed too, every key is found with its value.\<close>

lemma close_seek:
  "tower_holds T start ys vl K \<Longrightarrow> T \<noteq> [] \<Longrightarrow> k \<in> set K \<Longrightarrow> seek (tower_close T) start (fst k) = Some (snd k)"
proof (induction T start ys vl K arbitrary: k rule: tower_holds.induct)
  case (3 es c L start y ys vl K)
  have h: "start < length es" "fst (last es) = y" "y \<notin> fst ` set (drop start (butlast es))" "snd (last es) < marked"
    "L = [] \<longrightarrow> snd (last es) = vl" "\<forall>k \<in> set K. fst k \<noteq> []" "tower_holds L (snd (last es)) ys vl (below y K)"
    "\<forall>k \<in> set K. hd (fst k) \<noteq> y \<longrightarrow> seek (old_part ((es, c) # L)) start (fst k) = Some (snd k)"
    "c = length (below y K)" "(y # ys, vl) \<in> set K" using "3.prems"(1) by auto
  show ?case
  proof (cases "hd (fst k) = y")
    case False
    then have "seek (old_part ((es, c) # L)) start (fst k) = Some (snd k)" using h(8) "3.prems"(3) by blast
    then show ?thesis by (rule seek_extends [OF _ close_extends])
  next
    case True
    obtain zs where zs: "fst k = y # zs" using True h(6) "3.prems"(3) by (cases "fst k") auto
    have b: "(zs, snd k) \<in> set (below y K)" using below_in [OF "3.prems"(3) True] zs by simp
    show ?thesis
    proof (cases "c = 1 \<and> L \<noteq> []")
      case closed: True
      have "(ys, vl) \<in> set (below y K)" using below_in [OF h(10)] by simp
      moreover obtain a b where "below y K = [(a, b)]" using closed h(9) by (metis length_0_conv length_Suc_conv One_nat_def surj_pair)
      ultimately have v: "snd k = vl" using b by simp
      have bv: "bottom_value L = vl" using bottom_of_holds [OF h(7)] closed by simp
      have "find (\<lambda>e. fst e = y) (drop start (marked_last es vl)) = Some (y, marked + vl)"
        using last_found(2) [OF h(1), of "(y, marked + vl)" "[]"] h(2,3) by (simp add: marked_last_def)
      then show ?thesis using closed zs v bv by simp
    next
      case False
      have f: "find (\<lambda>e. fst e = y) (drop start es) = Some (last es)" using last_found(1) [OF h(1)] h(2,3) by simp
      show ?thesis
      proof (cases "L = []")
        case True
        then show ?thesis using h(4,5,7) b f zs by auto
      next
        case ne: False
        then have "tower_close L \<noteq> []" by (cases L) (auto split: if_splits)
        moreover have "tower_close ((es, c) # L) = es # tower_close L" using False by auto
        ultimately show ?thesis using "3.IH" [OF h(7) ne b] f zs h(4) by simp
      qed
    qed
  qed
qed simp_all

section \<open>Sorted keys\<close>

fun slices_value :: "bytes list \<Rightarrow> nat" where
  "slices_value [] = 0"
| "slices_value (x # xs) = le_decode x * 256 ^ length (concat xs) + slices_value xs"

definition sliced :: "nat \<Rightarrow> nat \<Rightarrow> bytes list \<Rightarrow> bool" where
  "sliced w n xs \<longleftrightarrow> length xs = n \<and> (\<forall>x \<in> set xs. length x = w)"

lemma slices_value_less: "slices_value xs < 256 ^ length (concat xs)"
proof (induction xs)
  case (Cons x xs)
  have "le_decode x + 1 \<le> 256 ^ length x" using le_decode_bound [of x] by simp
  then have "(le_decode x + 1) * 256 ^ length (concat xs) \<le> 256 ^ length x * 256 ^ length (concat xs)" by (rule mult_le_mono1)
  then have "le_decode x * 256 ^ length (concat xs) + 256 ^ length (concat xs) \<le> 256 ^ (length x + length (concat xs))"
    by (simp only: power_add add_mult_distrib mult_1)
  then show ?case using Cons by simp
qed simp

lemma sliced_length: "sliced w n xs \<Longrightarrow> length (concat xs) = n * w"
  unfolding sliced_def by (induction xs arbitrary: n) auto

lemma value_head:
  assumes "sliced w n xs" and "sliced w n ys" and "a * 256 ^ length (concat xs) + slices_value xs \<le> b * 256 ^ length (concat ys) + slices_value ys"
  shows "a \<le> b"
proof (rule ccontr)
  assume "\<not> a \<le> b"
  let ?B = "(256::nat) ^ (n * w)"
  have "(b + 1) * ?B \<le> a * ?B" using \<open>\<not> a \<le> b\<close> by (intro mult_le_mono1) simp
  then have "b * ?B + ?B \<le> a * ?B" by (simp only: add_mult_distrib mult_1)
  then show False using assms(3) slices_value_less [of ys] by (simp only: sliced_length [OF assms(1)] sliced_length [OF assms(2)])
qed

lemma sorted_leaves:
  "sliced w n ys \<Longrightarrow> sliced w n xs \<Longrightarrow> \<forall>z \<in> set Z. sliced w n z \<and> slices_value z \<le> slices_value ys \<Longrightarrow> slices_value ys < slices_value xs \<Longrightarrow>
   leaves ys xs Z"
proof (induction ys arbitrary: xs Z n)
  case Nil
  then show ?case by (auto simp: sliced_def)
next
  case (Cons y ys)
  obtain m where m: "n = m + 1" using Cons.prems(1) by (cases n) (auto simp: sliced_def)
  obtain x xs' where xs: "xs = x # xs'" using Cons.prems(2) m by (cases xs) (auto simp: sliced_def)
  have sl: "sliced w m ys" "sliced w m xs'" "length x = w" "length y = w" using Cons.prems(1,2) m by (auto simp: sliced_def xs One_nat_def)
  have parts: "\<exists>t. z = hd z # t \<and> tl z = t \<and> sliced w m t \<and> length (hd z) = w" if "z \<in> set Z" for z
    using Cons.prems(3) that m by (cases z) (force simp: sliced_def One_nat_def)+
  show ?case
  proof (cases "x = y")
    case True
    have "\<forall>z \<in> set (map tl (filter (\<lambda>z. hd z = y) Z)). sliced w m z \<and> slices_value z \<le> slices_value ys"
    proof (intro ballI)
      fix t assume "t \<in> set (map tl (filter (\<lambda>z. hd z = y) Z))"
      then obtain z where z: "z \<in> set Z" "hd z = y" "t = tl z" by auto
      from parts [OF z(1)] have p: "z = y # t" "sliced w m t" using z by auto
      have "slices_value (y # t) \<le> slices_value (y # ys)" using Cons.prems(3) z(1) p(1) by blast
      then show "sliced w m t \<and> slices_value t \<le> slices_value ys"
        using p(2) sliced_length [OF p(2)] sliced_length [OF sl(1)] by simp
    qed
    moreover have "slices_value ys < slices_value xs'" using Cons.prems(4) True sliced_length [OF sl(1)] sliced_length [OF sl(2)] by (simp add: xs)
    ultimately show ?thesis using Cons.IH [OF sl(1,2)] True by (simp add: xs)
  next
    case False
    have "le_decode y \<le> le_decode x" using value_head [OF sl(1,2), of "le_decode y" "le_decode x"] Cons.prems(4) by (simp add: xs)
    moreover have "le_decode y \<noteq> le_decode x" using le_encode_decode [of x] le_encode_decode [of y] sl(3,4) False by metis
    ultimately have lt: "le_decode y < le_decode x" by simp
    have "hd z \<noteq> x" if "z \<in> set Z" for z
    proof -
      from parts [OF that] obtain t where t: "z = hd z # t" "sliced w m t" by auto
      have "slices_value (hd z # t) \<le> slices_value (y # ys)" using Cons.prems(3) that t(1) by metis
      then have "le_decode (hd z) \<le> le_decode y" using value_head [OF t(2) sl(1)] by simp
      then show ?thesis using lt by auto
    qed
    then show ?thesis using False by (auto simp: xs)
  qed
qed

lemma holds_nonempty: "tower_holds T start ys vl K \<Longrightarrow> x \<in> set T \<Longrightarrow> fst x \<noteq> []"
  by (induction T start ys vl K rule: tower_holds.induct) auto

section \<open>Slices of keys\<close>

definition key_slices :: "nat \<Rightarrow> nat \<Rightarrow> bytes \<Rightarrow> bytes list" where
  "key_slices w n key = map (\<lambda>i. take w (drop (w * (n - i - 1)) key)) [0..<n]"

lemma slice_inside: "(i :: nat) < n \<Longrightarrow> w * (n - i - 1) + w \<le> w * n"
proof -
  assume "i < n"
  then have "n - i = (n - i - 1) + 1" by simp
  then have "w * (n - i - 1) + w = w * (n - i)" by (metis add_mult_distrib2 mult.right_neutral)
  then show "w * (n - i - 1) + w \<le> w * n" by simp
qed

lemma key_slices_step:
  assumes "length key = w * (n + 1)"
  shows "key_slices w (n + 1) key = drop (w * n) key # key_slices w n (take (w * n) key)"
proof -
  have u: "[0..<n + 1] = 0 # map Suc [0..<n]" by (simp add: map_Suc_upt upt_conv_Cons One_nat_def)
  have t: "take w (drop (w * (n - i - 1)) key) = take w (drop (w * (n - i - 1)) (take (w * n) key))" if "i < n" for i
    using slice_inside [OF that, of w] by (simp add: drop_take min_absorb1)
  have "map (\<lambda>i. take w (drop (w * (n - i - 1)) key)) [0..<n] = map (\<lambda>i. take w (drop (w * (n - i - 1)) (take (w * n) key))) [0..<n]"
    by (rule map_cong [OF refl]) (use t in simp)
  then show ?thesis using assms by (simp only: key_slices_def u list.map map_map comp_def) (simp add: One_nat_def)
qed

lemma key_slices_value:
  "length key = w * n \<Longrightarrow> sliced w n (key_slices w n key) \<and> slices_value (key_slices w n key) = le_decode key"
proof (induction n arbitrary: key)
  case 0
  then show ?case by (simp add: key_slices_def sliced_def)
next
  case (Suc n)
  have l: "length key = w * (n + 1)" using Suc.prems by (simp add: One_nat_def)
  have t: "length (take (w * n) key) = w * n" using l by simp
  note ih = Suc.IH [OF t]
  have c: "length (concat (key_slices w n (take (w * n) key))) = w * n" using sliced_length [of w n] ih by (simp add: mult.commute)
  have "le_decode key = le_decode (take (w * n) key @ drop (w * n) key)" by simp
  also have "\<dots> = le_decode (take (w * n) key) + 256 ^ (w * n) * le_decode (drop (w * n) key)" unfolding le_decode_append using t by simp
  finally have v: "le_decode key = le_decode (take (w * n) key) + 256 ^ (w * n) * le_decode (drop (w * n) key)" .
  have "key_slices w (Suc n) key = drop (w * n) key # key_slices w n (take (w * n) key)" using key_slices_step [OF l] by (simp add: One_nat_def)
  then show ?case using ih c v l by (simp add: sliced_def ac_simps add_mult_distrib2)
qed

section \<open>The strings of a tower\<close>

definition entry_bytes :: "entry \<Rightarrow> bytes" where
  "entry_bytes e = fst e @ le_encode 4 (snd e)"

definition layer_bytes :: "entry list \<Rightarrow> bytes" where
  "layer_bytes es = concat (map entry_bytes es)"

abbreviation strings :: "tower \<Rightarrow> bytes list" where
  "strings T \<equiv> map (\<lambda>x. layer_bytes (fst x)) T"

definition wide :: "nat \<Rightarrow> entry list \<Rightarrow> bool" where
  "wide w es \<longleftrightarrow> (\<forall>e \<in> set es. length (fst e) = w)"

lemma layer_length: "wide w es \<Longrightarrow> length (layer_bytes es) = (w + 4) * length es"
  by (induction es) (simp_all add: layer_bytes_def entry_bytes_def wide_def)

lemma layer_last:
  assumes "es \<noteq> []"
  shows "layer_bytes es = layer_bytes (butlast es) @ fst (last es) @ le_encode 4 (snd (last es))"
  using append_butlast_last_id [OF assms, symmetric] by (metis layer_bytes_def entry_bytes_def concat_append concat.simps append_Nil2 list.map map_append)

lemma last_offset_layer: "es \<noteq> [] \<Longrightarrow> last_offset (layer_bytes es) = Some (snd (last es) mod 4294967296)"
  by (simp add: last_offset_def layer_last mread_def le_decode_encode)

lemma last_slice_layer:
  assumes "es \<noteq> []" and "wide w es"
  shows "mread (layer_bytes es) (length (layer_bytes es) - (w + 4)) w = Some (fst (last es))" and "w + 4 \<le> length (layer_bytes es)"
proof -
  have "length (fst (last es)) = w" using assms by (simp add: wide_def)
  then show "mread (layer_bytes es) (length (layer_bytes es) - (w + 4)) w = Some (fst (last es))" "w + 4 \<le> length (layer_bytes es)"
    by (simp_all add: layer_last [OF assms(1)] mread_def)
qed

lemma mark_layer:
  assumes "es \<noteq> []" and "marked + v < 4294967296"
  shows "mwrite (layer_bytes es) (length (layer_bytes es) - 4) (le_encode 4 (marked + v)) = Some (layer_bytes (marked_last es v))"
  by (simp add: layer_last [OF assms(1)] mwrite_def) (simp add: marked_last_def layer_bytes_def entry_bytes_def)

lemma pop_layer:
  assumes "es \<noteq> []" and "wide w es"
  shows "take (length (layer_bytes es) - (w + 4)) (layer_bytes es) = layer_bytes (butlast es)"
proof -
  have "length (fst (last es)) = w" using assms by (simp add: wide_def)
  then show ?thesis by (simp add: layer_last [OF assms(1)])
qed

lemma drop_entries_tower:
  "\<forall>x \<in> set L. fst x \<noteq> [] \<and> wide w (fst x) \<Longrightarrow> drop_last_entries w [length front..<length front + length L] (front @ strings L) = Some (front @ strings (popped L))"
proof (induction L arbitrary: front)
  case (Cons a L)
  have ne: "fst a \<noteq> []" "wide w (fst a)" using Cons.prems by simp_all
  have u: "[length front..<length front + length (a # L)] = length front # [length (front @ [layer_bytes (butlast (fst a))])..<length (front @ [layer_bytes (butlast (fst a))]) + length L]"
  proof -
    have "length front < length front + length (a # L)" by simp
    from upt_conv_Cons [OF this] show ?thesis by (simp only: length_append list.size) simp
  qed
  have g: "vec_get (front @ strings (a # L)) (length front) = Some (layer_bytes (fst a))" by (simp add: vec_get_def nth_append)
  have up: "(front @ strings (a # L))[length front := layer_bytes (butlast (fst a))] = (front @ [layer_bytes (butlast (fst a))]) @ strings L" by simp
  have ih: "drop_last_entries w [length (front @ [layer_bytes (butlast (fst a))])..<length (front @ [layer_bytes (butlast (fst a))]) + length L]
      ((front @ [layer_bytes (butlast (fst a))]) @ strings L) = Some ((front @ [layer_bytes (butlast (fst a))]) @ strings (popped L))"
    by (rule Cons.IH) (use Cons.prems in simp)
  have b: "\<not> length (layer_bytes (fst a)) < w + 4" using last_slice_layer(2) [OF ne] by simp
  have "strings (popped (a # L)) = layer_bytes (butlast (fst a)) # strings (popped L)" by (cases a) (simp add: popped_def)
  then show ?case unfolding u drop_last_entries.simps g bind.bind_lunit if_not_P [OF b] pop_layer [OF ne] up using ih by simp
qed (simp add: popped_def)

lemma collapse_tower:
  assumes "L \<noteq> []" and "es \<noteq> []" and "\<forall>x \<in> set L. fst x \<noteq> [] \<and> wide w (fst x)" and "bottom_value L < marked"
  shows "collapse w (length front) (front @ layer_bytes es # strings L) = Some (front @ layer_bytes (marked_last es (bottom_value L)) # strings (popped L))"
proof -
  let ?all = "front @ layer_bytes es # strings L"
  have last: "?all ! (length ?all - 1) = layer_bytes (fst (last L))"
    using assms(1) by (simp add: nth_append last_conv_nth One_nat_def nth_Cons')
  have g: "vec_get ?all (length ?all - 1) = Some (layer_bytes (fst (last L)))" "vec_get ?all (length front) = Some (layer_bytes es)"
    using last by (simp_all add: vec_get_def nth_append)
  have ne: "fst (last L) \<noteq> []" using assms(1,3) by simp
  have off: "last_offset (layer_bytes (fst (last L))) = Some (bottom_value L)"
    using last_offset_layer [OF ne] assms(4) by (simp add: bottom_value_def)
  have l4: "\<not> length (layer_bytes es) < 4" by (simp add: layer_last [OF assms(2)])
  have m: "(marked + bottom_value L) mod 4294967296 = marked + bottom_value L" using assms(4) by simp
  have w: "mwrite (layer_bytes es) (length (layer_bytes es) - 4) (le_encode 4 (marked + bottom_value L)) = Some (layer_bytes (marked_last es (bottom_value L)))"
    by (rule mark_layer [OF assms(2)]) (use assms(4) in simp)
  let ?f = "front @ [layer_bytes (marked_last es (bottom_value L))]"
  have u: "[length front + 1..<length ?all] = [length ?f..<length ?f + length L]" "?all[length front := layer_bytes (marked_last es (bottom_value L))] = ?f @ strings L"
    by (simp_all add: One_nat_def)
  show ?thesis
    unfolding collapse_def g bind.bind_lunit off if_not_P [OF l4] m w u drop_entries_tower [OF assms(3)] by simp
qed

text \<open>What is needed to run the loop over the slices on a tower.\<close>

fun tower_ready :: "nat \<Rightarrow> tower \<Rightarrow> bool" where
  "tower_ready w [] \<longleftrightarrow> True"
| "tower_ready w ((es, c) # L) \<longleftrightarrow> wide w es \<and> c + 1 < 4294967296 \<and>
     (c = 1 \<and> L \<noteq> [] \<longrightarrow> es \<noteq> [] \<and> (\<forall>x \<in> set L. fst x \<noteq> []) \<and> bottom_value L < marked) \<and> tower_ready w L"

lemma ready_wide: "tower_ready w T \<Longrightarrow> x \<in> set T \<Longrightarrow> wide w (fst x)"
  by (induction w T rule: tower_ready.induct) auto

lemma wide_butlast: "wide w es \<Longrightarrow> wide w (butlast es)"
  by (auto simp: wide_def dest: in_set_butlastD)

lemma ready_popped: "tower_ready w L \<Longrightarrow> tower_ready w (popped L)"
  by (induction w L rule: tower_ready.induct) (auto simp: popped_def wide_butlast)

text \<open>The step for one slice changes one layer as the tower does.\<close>

lemma slice_step_tower:
  assumes r: "tower_ready w ((es, c) # L)" and len: "length fc = length front"
    and pre: "mread key (w * (length L)) w = Some x" and ne: "new \<or> es \<noteq> []"
  defines "st \<equiv> (front @ layer_bytes es # strings L, fc @ c # map snd L, new)"
    and "es' \<equiv> (if c = 1 \<and> L \<noteq> [] then marked_last es (bottom_value L) else es)" and "L' \<equiv> (if c = 1 \<and> L \<noteq> [] then popped L else L)"
  shows "slice_step w 8 (8 * v) key (length front) st =
    (if \<not> new \<and> fst (last es) = x then Some (front @ layer_bytes es # strings L, fc @ (c + 1) # map snd L, new)
     else Some (front @ layer_bytes (es' @ [(x, if L' = [] then v else length (fst (hd L')))]) # strings L', fc @ 1 # map snd L', True))"
proof -
  let ?n = "length (front @ layer_bytes es # strings L)"
  have w: "wide w es" "c + 1 < 4294967296" "tower_ready w L" using r by simp_all
  have i: "?n - length front - 1 = length L" "length front \<noteq> ?n - 1 \<longleftrightarrow> L \<noteq> []" by auto
  have g: "vec_get (front @ layer_bytes es # strings L) (length front) = Some (layer_bytes es)"
    "vec_get (fc @ c # map snd L) (length front) = Some c" using len by (simp_all add: vec_get_def nth_append)
  have same: "(if new then Some False else if length (layer_bytes es) < w + 4 then None
      else map_option (\<lambda>last_pre. last_pre = x) (mread (layer_bytes es) (length (layer_bytes es) - (w + 4)) w)) = Some (\<not> new \<and> fst (last es) = x)"
    using last_slice_layer [OF _ w(1)] ne by auto
  have cl: "(if c = 1 \<and> length front \<noteq> ?n - 1
      then map_option (\<lambda>ls. (ls, take (length front + 1) (fc @ c # map snd L) @ replicate (?n - (length front + 1)) 0)) (collapse w (length front) (front @ layer_bytes es # strings L))
      else Some (front @ layer_bytes es # strings L, fc @ c # map snd L)) = Some (front @ layer_bytes es' # strings L', fc @ c # map snd L')"
  proof (cases "c = 1 \<and> L \<noteq> []")
    case True
    have "\<forall>x \<in> set L. fst x \<noteq> [] \<and> wide w (fst x)" using r True ready_wide [OF w(3)] by auto
    then have "collapse w (length front) (front @ layer_bytes es # strings L) = Some (front @ layer_bytes (marked_last es (bottom_value L)) # strings (popped L))"
      using collapse_tower [of L es w front] r True by auto
    moreover have "map snd (popped L) = replicate (length L) 0" by (induction L) (auto simp: popped_def)
    ultimately show ?thesis using True len i(2) by (simp add: es'_def L'_def One_nat_def)
  next
    case False
    then show ?thesis using i(2) by (auto simp: es'_def L'_def)
  qed
  have add: "add_entry w 8 (8 * v) (length front) x (front @ layer_bytes es' # strings L') =
    Some (front @ layer_bytes (es' @ [(x, if L' = [] then v else length (fst (hd L')))]) # strings L')"
  proof (cases L')
    case Nil
    then show ?thesis by (simp add: add_entry_def vec_get_def nth_append layer_bytes_def entry_bytes_def)
  next
    case (Cons a M)
    have "tower_ready w L'" using ready_popped [OF w(3)] w(3) by (simp add: L'_def)
    then have "length (layer_bytes (fst a)) div (w + 4) = length (fst a)" using layer_length [of w "fst a"] ready_wide [of w L' a] Cons by simp
    then show ?thesis using Cons by (simp add: add_entry_def vec_get_def nth_append layer_bytes_def entry_bytes_def One_nat_def)
  qed
  have m: "(c + 1) mod 4294967296 = c + 1" using w(2) by simp
  have up: "(fc @ c # map snd L)[length front := c + 1] = fc @ (c + 1) # map snd L" "(fc @ c # map snd L')[length front := 1] = fc @ 1 # map snd L'"
    using len by (metis list_update_length)+
  show ?thesis
    unfolding slice_step_def st_def prod.case Let_def i(1) pre g bind.bind_lunit same cl add up m by simp
qed

lemma upt_front: "[length front..<length front + length (a # L)] = length front # [length (front @ [z])..<length (front @ [z]) + length L]"
proof -
  have "length front < length front + length (a # L)" by simp
  from upt_conv_Cons [OF this] show ?thesis by (simp only: length_append list.size) simp
qed

lemma slices_loop_tower:
  "tower_ready w T \<Longrightarrow> length fc = length front \<Longrightarrow> length xs = length T \<Longrightarrow>
   \<forall>j < length T. mread key (w * (length T - j - 1)) w = Some (xs ! j) \<Longrightarrow> new \<or> (\<forall>x \<in> set T. fst x \<noteq> []) \<Longrightarrow>
   \<exists>new'. slices_loop w 8 (8 * v) key [length front..<length front + length T] (front @ strings T, fc @ map snd T, new) =
     Some (front @ strings (tower_add v new xs T), fc @ map snd (tower_add v new xs T), new')"
proof (induction xs arbitrary: T front fc new)
  case (Cons x xs)
  obtain es c L where T: "T = (es, c) # L" "length xs = length L" using Cons.prems(3) by (cases T) auto
  have pre: "mread key (w * length L) w = Some x" using Cons.prems(4) [rule_format, of 0] T by simp
  have pre': "\<forall>j < length L. mread key (w * (length L - j - 1)) w = Some (xs ! j)"
  proof (intro allI impI)
    fix j assume "j < length L"
    then show "mread key (w * (length L - j - 1)) w = Some (xs ! j)" using Cons.prems(4) [rule_format, of "Suc j"] T by (simp add: One_nat_def)
  qed
  have r: "tower_ready w ((es, c) # L)" "tower_ready w L" using Cons.prems(1) T by simp_all
  have ne: "new \<or> es \<noteq> []" using Cons.prems(5) T by auto
  note st = slice_step_tower [OF r(1) Cons.prems(2) pre ne, of v]
  have cons: "front @ strings ((es, c) # L) = front @ layer_bytes es # strings L" "fc @ map snd ((es, c) # L) = fc @ c # map snd L" by simp_all
  show ?case
  proof (cases "\<not> new \<and> fst (last es) = x")
    case True
    have "\<exists>new'. slices_loop w 8 (8 * v) key [length (front @ [layer_bytes es])..<length (front @ [layer_bytes es]) + length L]
        ((front @ [layer_bytes es]) @ strings L, (fc @ [c + 1]) @ map snd L, False) =
      Some ((front @ [layer_bytes es]) @ strings (tower_add v False xs L), (fc @ [c + 1]) @ map snd (tower_add v False xs L), new')"
      by (rule Cons.IH [OF r(2) _ T(2) pre']) (use Cons.prems(2,5) True T in auto)
    then show ?thesis
      unfolding T(1) upt_front [of front _ _ "layer_bytes es"] slices_loop.simps cons st if_P [OF True] bind.bind_lunit tower_add.simps
      using True by simp
  next
    case other: False
    define es' where "es' = (if c = 1 \<and> L \<noteq> [] then marked_last es (bottom_value L) else es)"
    define L' where "L' = (if c = 1 \<and> L \<noteq> [] then popped L else L)"
    let ?l = "layer_bytes (es' @ [(x, if L' = [] then v else length (fst (hd L')))])"
    have l: "length L' = length L" "tower_ready w L'" using r(2) ready_popped [OF r(2)] by (simp_all add: L'_def popped_parts)
    have "\<exists>new'. slices_loop w 8 (8 * v) key [length (front @ [?l])..<length (front @ [?l]) + length L'] ((front @ [?l]) @ strings L', (fc @ [1]) @ map snd L', True) =
      Some ((front @ [?l]) @ strings (tower_add v True xs L'), (fc @ [1]) @ map snd (tower_add v True xs L'), new')"
      by (rule Cons.IH [OF l(2)]) (use Cons.prems(2) T(2) l(1) pre' in auto)
    moreover have "tower_add v new (x # xs) ((es, c) # L) = (es' @ [(x, if L' = [] then v else length (fst (hd L')))], 1) # tower_add v True xs L'"
      unfolding tower_add.simps if_not_P [OF other] Let_def es'_def L'_def ..
    ultimately show ?thesis
      unfolding T(1) upt_front [of front _ _ ?l] slices_loop.simps cons st [folded es'_def L'_def] if_not_P [OF other] bind.bind_lunit using l(1) by simp
  qed
qed simp

lemma close_last_tower:
  "tower_ready w T \<Longrightarrow> length fc = length front \<Longrightarrow>
   close_last w (fc @ map snd T) [length front..<length front + length T] (front @ strings T) = Some (front @ map layer_bytes (tower_close T))"
proof (induction T arbitrary: front fc)
  case (Cons a L)
  obtain es c where a: "a = (es, c)" by (cases a)
  have g: "vec_get (fc @ map snd (a # L)) (length front) = Some c" using Cons.prems(2) a by (simp add: vec_get_def nth_append)
  have i: "length front \<noteq> length (front @ strings (a # L)) - 1 \<longleftrightarrow> L \<noteq> []" by auto
  have r: "tower_ready w L" using Cons.prems(1) a by simp
  show ?case
  proof (cases "c = 1 \<and> L \<noteq> []")
    case True
    have "\<forall>x \<in> set L. fst x \<noteq> [] \<and> wide w (fst x)" using Cons.prems(1) a True ready_wide [OF r] by auto
    then have "collapse w (length front) (front @ layer_bytes es # strings L) = Some (front @ layer_bytes (marked_last es (bottom_value L)) # strings (popped L))"
      using collapse_tower [of L es w front] Cons.prems(1) a True by auto
    then show ?thesis unfolding upt_front [of front a L "[]"] close_last.simps g bind.bind_lunit i using True a by (simp add: comp_def)
  next
    case False
    have "close_last w ((fc @ [c]) @ map snd L) [length (front @ [layer_bytes es])..<length (front @ [layer_bytes es]) + length L] ((front @ [layer_bytes es]) @ strings L) =
        Some ((front @ [layer_bytes es]) @ map layer_bytes (tower_close L))"
      by (rule Cons.IH [OF r]) (use Cons.prems(2) in simp)
    then show ?thesis unfolding upt_front [of front a L "layer_bytes es"] close_last.simps g bind.bind_lunit i using False a by auto
  qed
qed simp

lemma add_wide: "\<forall>x \<in> set T. wide w (fst x) \<Longrightarrow> \<forall>x \<in> set xs. length x = w \<Longrightarrow> \<forall>x \<in> set T. fst x \<noteq> [] \<or> snd x \<noteq> 1 \<Longrightarrow>
   \<forall>x \<in> set (tower_add v new xs T). wide w (fst x)"
proof (induction v new xs T rule: tower_add.induct)
  case (3 v new x xs es c L)
  have w: "wide w es" "\<forall>x \<in> set L. wide w (fst x)" "\<forall>x \<in> set xs. length x = w" "length x = w" "\<forall>x \<in> set L. fst x \<noteq> [] \<or> snd x \<noteq> 1" using "3.prems" by auto
  show ?case
  proof (cases "\<not> new \<and> fst (last es) = x")
    case True
    then show ?thesis using "3.IH"(1) [OF True w(2,3,5)] w(1) by auto
  next
    case other: False
    define es' where "es' = (if c = 1 \<and> L \<noteq> [] then marked_last es (bottom_value L) else es)"
    define L' where "L' = (if c = 1 \<and> L \<noteq> [] then popped L else L)"
    have "wide w es'"
    proof (cases "c = 1 \<and> L \<noteq> []")
      case True
      then have "es \<noteq> []" using "3.prems"(3) by auto
      then have "last es \<in> set es" by simp
      then show ?thesis using True w(1) wide_butlast [OF w(1)] by (auto simp: es'_def marked_last_def wide_def)
    next
      case False
      then show ?thesis using w(1) unfolding es'_def if_not_P [OF False] by simp
    qed
    moreover have "\<forall>x \<in> set (tower_add v True xs L'). wide w (fst x)"
    proof (rule "3.IH"(2) [OF other es'_def L'_def _ w(3)])
      have "\<forall>x \<in> set (popped L). wide w (fst x) \<and> snd x = 0" using w(2) wide_butlast by (auto simp: popped_def)
      then show "\<forall>x \<in> set L'. wide w (fst x)" "\<forall>x \<in> set L'. fst x \<noteq> [] \<or> snd x \<noteq> 1" using w(2,5) unfolding L'_def by auto
    qed
    moreover have "tower_add v new (x # xs) ((es, c) # L) = (es' @ [(x, if L' = [] then v else length (fst (hd L')))], 1) # tower_add v True xs L'"
      unfolding tower_add.simps if_not_P [OF other] Let_def es'_def L'_def ..
    ultimately show ?thesis using w(4) by (auto simp: wide_def)
  qed
qed simp_all

lemma holds_value: "tower_holds T start ys vl K \<Longrightarrow> T \<noteq> [] \<Longrightarrow> vl < marked"
proof (induction T start ys vl K rule: tower_holds.induct)
  case (3 es c L start y ys vl K)
  then show ?case by (cases L) auto
qed simp_all

lemma holds_ready:
  "tower_holds T start ys vl K \<Longrightarrow> tower_small m T \<Longrightarrow> m + 1 < 4294967296 \<Longrightarrow> \<forall>x \<in> set T. wide w (fst x) \<Longrightarrow> tower_ready w T"
proof (induction T start ys vl K rule: tower_holds.induct)
  case (3 es c L start y ys vl K)
  have h: "tower_holds L (snd (last es)) ys vl (below y K)" "es \<noteq> []" using "3.prems"(1) by auto
  have s: "tower_small m L" "c \<le> m" using "3.prems"(2) by (simp_all add: tower_small_Cons)
  have "bottom_value L < marked" if "L \<noteq> []" using bottom_of_holds [OF h(1) that] holds_value [OF h(1) that] by simp
  then show ?case using "3.IH" [OF h(1) s(1) "3.prems"(3)] "3.prems"(3,4) h(2) s(2) holds_nonempty [OF h(1)] by auto
qed simp_all

section \<open>The list behind the string\<close>

text \<open>The tower after some keys: empty layers before the first, then the keys \<open>K\<close> with \<open>last_key\<close> the last of them.\<close>

definition tower_good :: "nat \<Rightarrow> nat \<Rightarrow> nat \<Rightarrow> bool \<Rightarrow> bytes \<Rightarrow> tower \<Rightarrow> (bytes list \<times> nat) list \<Rightarrow> bool" where
  "tower_good w n m new last_key T K \<longleftrightarrow> length T = n \<and> tower_small m T \<and> (\<forall>x \<in> set T. wide w (fst x)) \<and>
     (if new then T = replicate n ([], 0) \<and> K = [] \<and> last_key = []
      else length last_key = w * n \<and> (\<exists>vl. tower_holds T 0 (key_slices w n last_key) vl K) \<and>
        (\<forall>k \<in> set K. sliced w n (fst k) \<and> slices_value (fst k) \<le> le_decode last_key))"

lemma good_ready:
  assumes "tower_good w n m new last_key T K" and "m < marked"
  shows "tower_ready w T" and "new \<or> (\<forall>x \<in> set T. fst x \<noteq> [])" and "\<forall>x \<in> set T. fst x \<noteq> [] \<or> snd x \<noteq> 1"
proof -
  have e: "tower_ready w (replicate n ([], 0))" by (induction n) (simp_all add: wide_def)
  show "tower_ready w T" using assms e holds_ready [of T 0 _ _ K m w] by (auto simp: tower_good_def split: if_splits)
  show "new \<or> (\<forall>x \<in> set T. fst x \<noteq> [])"
  proof (cases new)
    case False
    then obtain ys vl where "tower_holds T 0 ys vl K" using assms(1) by (auto simp: tower_good_def)
    then show ?thesis using holds_nonempty by blast
  qed simp
  show "\<forall>x \<in> set T. fst x \<noteq> [] \<or> snd x \<noteq> 1" using assms(1) by (auto simp: tower_good_def tower_small_def)
qed

lemma good_add:
  assumes g: "tower_good w n m new last_key T K" and key: "length key = w * n" and n: "0 < n" and m: "m < marked" "v < marked"
    and less: "\<not> new \<longrightarrow> le_decode last_key < le_decode key"
  shows "tower_good w n (m + 1) False key (tower_add v new (key_slices w n key) T) (K @ [(key_slices w n key, v)])"
proof -
  let ?xs = "key_slices w n key" let ?T = "tower_add v new ?xs T"
  note sl = key_slices_value [OF key]
  have p: "length T = n" "tower_small m T" "\<forall>x \<in> set T. wide w (fst x)" using g by (simp_all add: tower_good_def)
  have l: "length ?xs = length T" using sl p(1) by (simp add: sliced_def)
  have "\<forall>x \<in> set ?xs. length x = w" using sl by (simp add: sliced_def)
  note w = add_wide [OF p(3) this good_ready(3) [OF g m(1)], of v new]
  note s = add_small [OF p(2) good_ready(2) [OF g m(1)], of v ?xs]
  have "(\<exists>vl. tower_holds ?T 0 ?xs vl (K @ [(?xs, v)])) \<and> (\<forall>k \<in> set (K @ [(?xs, v)]). sliced w n (fst k) \<and> slices_value (fst k) \<le> le_decode key)"
  proof (cases new)
    case True
    then have e: "T = replicate n ([], 0)" "K = []" using g by (simp_all add: tower_good_def)
    have "tower_holds (tower_add v True ?xs T) 0 ?xs v [(?xs, v)]" by (rule new_key_holds [OF l m(2) p(2) m(1)]) (use e n in simp)
    then show ?thesis using True e(2) sl by auto
  next
    case False
    obtain vl where h: "tower_holds T 0 (key_slices w n last_key) vl K" "length last_key = w * n"
      "\<forall>k \<in> set K. sliced w n (fst k) \<and> slices_value (fst k) \<le> le_decode last_key" using g False by (auto simp: tower_good_def)
    note sl' = key_slices_value [OF h(2)]
    have "leaves (key_slices w n last_key) ?xs (map fst K)"
      by (rule sorted_leaves [of w n]) (use sl sl' h(3) less False in auto)
    from tower_add_holds [OF h(1) l this m(2) p(2) m(1)] have "tower_holds ?T 0 ?xs v (K @ [(?xs, v)])" using False by simp
    then show ?thesis using h(3) sl less False by fastforce
  qed
  then show ?thesis using w s tower_add_length [OF l] p(1) key by (simp add: tower_good_def)
qed

text \<open>Every key with the number of its first value.\<close>

fun key_starts :: "nat \<Rightarrow> bytes \<Rightarrow> (bytes \<times> nat) list \<Rightarrow> (bytes \<times> nat) list" where
  "key_starts i last_key [] = []"
| "key_starts i last_key (e # es) =
     (if fst e = last_key then key_starts (i + 1) last_key es else (fst e, i) # key_starts (i + 1) (fst e) es)"

lemma layers_nodes_good:
  assumes "supported (sl_keyLen s)" "sl_valueLen s = 8" "sl_keyLen s = w * n" "0 < n" "n \<le> 255" "0 < w"
    and "linked (next_at s 0) ns" "\<forall>p \<in> set ns. good_node s p" and "length vals = 8 * length ns" and "length front = 8 * i"
    and "8 * (i + length ns) < 4294967296" and "m + length ns < marked" and "tower_good w n m new last_key T K"
    and "sorted_wrt (\<lambda>x y. le_decode (fst x) \<le> le_decode (fst y)) (map (entry_of s) ns)"
    and "\<not> new \<longrightarrow> (\<forall>p \<in> set ns. le_decode last_key \<le> le_decode (fst (entry_of s p)))"
    and "bf_inserts h (map fst (key_starts i last_key (map (entry_of s) ns))) f = Some f'"
  shows "\<exists>T' last_key' new'. layers_nodes h w s \<lparr>ly_layers = strings T, ly_counts = map snd T, ly_values = front @ vals,
      ly_value_offset = 8 * i, ly_new_pre = new, ly_last_key = last_key, ly_filter = f\<rparr> (first_of ns) =
    Some \<lparr>ly_layers = strings T', ly_counts = map snd T', ly_values = front @ concat (map (\<lambda>e. le_encode 8 (snd e)) (map (entry_of s) ns)),
      ly_value_offset = 8 * (i + length ns), ly_new_pre = new', ly_last_key = last_key', ly_filter = f'\<rparr> \<and>
    tower_good w n (m + length ns) new' last_key' T'
      (K @ map (\<lambda>k. (key_slices w n (fst k), snd k)) (key_starts i last_key (map (entry_of s) ns)))"
  using assms(7-16)
proof (induction ns arbitrary: front vals i m new last_key T K f)
  case Nil
  then show ?case by (intro exI [of _ T] exI [of _ last_key] exI [of _ new]) (simp add: layers_nodes.simps)
next
  case (Cons p ns)
  let ?e = "entry_of s p"
  note v = good_node_values [OF assms(1), of p]
  have g: "good_node s p" "next_at s 0 p = Some (first_of ns)" "linked (next_at s 0) ns" using Cons.prems(1,2) by simp_all
  have kl: "length (fst ?e) = w * n" using v(3) [OF g(1)] assms(3) by simp
  have off: "(8 * i + 8) mod 4294967296 = 8 * (i + 1)" using Cons.prems(5) by simp
  have wr: "mwrite (front @ vals) (8 * i) (le_encode 8 (snd ?e)) = Some ((front @ le_encode 8 (snd ?e)) @ drop 8 vals)"
    using Cons.prems(3,4) by (simp add: mwrite_def)
  have put: "put_value 8 (snd ?e) \<lparr>ly_layers = strings T1, ly_counts = map snd T1, ly_values = front @ vals, ly_value_offset = 8 * i,
      ly_new_pre = new1, ly_last_key = lk, ly_filter = f1\<rparr> = Some \<lparr>ly_layers = strings T1, ly_counts = map snd T1,
      ly_values = (front @ le_encode 8 (snd ?e)) @ drop 8 vals, ly_value_offset = 8 * (i + 1), ly_new_pre = False, ly_last_key = lk, ly_filter = f1\<rparr>"
    for T1 new1 lk f1 using wr off by (simp add: put_value_def mread_def)
  have run: "layers_nodes h w s st (Some p) = do { s' \<leftarrow> layers_node h w 8 (fst ?e) (snd ?e) st; layers_nodes h w s s' (first_of ns) }" for st
    using v [OF g(1)] g(2) by (subst layers_nodes.simps) (simp add: getNext_at assms(1,2))
  let ?vals = "front @ vals" and ?vals' = "(front @ le_encode 8 (snd ?e)) @ drop 8 vals"
  have lens: "length (drop 8 vals) = 8 * length ns" "length (front @ le_encode 8 (snd ?e)) = 8 * (i + 1)" "8 * (i + 1 + length ns) < 4294967296"
    using Cons.prems(3-5) by simp_all
  have srt: "sorted_wrt (\<lambda>x y. le_decode (fst x) \<le> le_decode (fst y)) (map (entry_of s) ns)" "\<forall>q \<in> set ns. le_decode (fst ?e) \<le> le_decode (fst (entry_of s q))"
    using Cons.prems(8) by simp_all
  have ns: "\<forall>p \<in> set ns. good_node s p" using Cons.prems(2) by simp
  show ?case
  proof (cases "fst ?e = last_key")
    case True
    have nn: "\<not> new" using Cons.prems(7) True kl assms(4,6) by (auto simp: tower_good_def split: if_splits)
    have gd: "tower_good w n (m + 1) False last_key T K" using Cons.prems(7) nn tower_small_mono [of m T "m + 1"] by (simp add: tower_good_def)
    have st: "layers_node h w 8 (fst ?e) (snd ?e) \<lparr>ly_layers = strings T, ly_counts = map snd T, ly_values = ?vals, ly_value_offset = 8 * i,
        ly_new_pre = new, ly_last_key = last_key, ly_filter = f\<rparr> = Some \<lparr>ly_layers = strings T, ly_counts = map snd T,
        ly_values = ?vals', ly_value_offset = 8 * (i + 1), ly_new_pre = False, ly_last_key = last_key, ly_filter = f\<rparr>"
      using put True by (simp add: layers_node_def)
    have mm: "m + 1 + length ns < marked" using Cons.prems(6) by simp
    have le: "\<not> False \<longrightarrow> (\<forall>p \<in> set ns. le_decode last_key \<le> le_decode (fst (entry_of s p)))" using srt(2) True by simp
    have bf: "bf_inserts h (map fst (key_starts (i + 1) last_key (map (entry_of s) ns))) f = Some f'" using Cons.prems(10) True by simp
    from Cons.IH [OF g(3) ns lens mm gd srt(1) le bf] st True show ?thesis by (simp add: run) (simp add: ac_simps One_nat_def)
  next
    case False
    let ?T = "tower_add i new (key_slices w n (fst ?e)) T"
    have lt: "le_decode last_key < le_decode (fst ?e)" if "\<not> new"
    proof -
      have "length last_key = length (fst ?e)" using Cons.prems(7) that kl by (simp add: tower_good_def)
      then have "le_decode last_key \<noteq> le_decode (fst ?e)" using le_decode_inj False by metis
      then show ?thesis using Cons.prems(9) that by (simp add: le_neq_implies_less)
    qed
    have mm: "m < marked" "i < marked" "m + 1 + length ns < marked" using Cons.prems(5,6) by simp_all
    have gd: "tower_good w n (m + 1) False (fst ?e) ?T (K @ [(key_slices w n (fst ?e), i)])"
      by (rule good_add [OF Cons.prems(7) kl assms(4) mm(1,2)]) (use lt in simp)
    obtain f1 where f1: "bf_insert h f (fst ?e) = Some f1" "bf_inserts h (map fst (key_starts (i + 1) (fst ?e) (map (entry_of s) ns))) f1 = Some f'"
      using Cons.prems(10) False by (auto simp: bind_eq_Some_conv)
    have lT: "length T = n" using Cons.prems(7) by (simp add: tower_good_def)
    have xs: "length (key_slices w n (fst ?e)) = length T" by (simp add: key_slices_def lT)
    have rd: "\<forall>j < length T. mread (fst ?e) (w * (length T - j - 1)) w = Some (key_slices w n (fst ?e) ! j)"
      using kl slice_inside [of _ n w] by (auto simp: lT key_slices_def mread_def)
    from slices_loop_tower [OF good_ready(1) [OF Cons.prems(7) mm(1)] _ xs rd good_ready(2) [OF Cons.prems(7) mm(1)], of "[]" "[]" i]
    obtain new1 where lp: "slices_loop w 8 (8 * i) (fst ?e) [0..<length T] (strings T, map snd T, new) = Some (strings ?T, map snd ?T, new1)" by auto
    have st: "layers_node h w 8 (fst ?e) (snd ?e) \<lparr>ly_layers = strings T, ly_counts = map snd T, ly_values = ?vals, ly_value_offset = 8 * i,
        ly_new_pre = new, ly_last_key = last_key, ly_filter = f\<rparr> = Some \<lparr>ly_layers = strings ?T, ly_counts = map snd ?T,
        ly_values = ?vals', ly_value_offset = 8 * (i + 1), ly_new_pre = False, ly_last_key = fst ?e, ly_filter = f1\<rparr>"
      using put [of ?T] False f1(1) lp lT assms(5) by (simp add: layers_node_def)
    have le: "\<not> False \<longrightarrow> (\<forall>p \<in> set ns. le_decode (fst ?e) \<le> le_decode (fst (entry_of s p)))" using srt(2) by simp
    from Cons.IH [OF g(3) ns lens mm(3) gd srt(1) le f1(2)] st False show ?thesis by (simp add: run) (simp add: ac_simps One_nat_def)
  qed
qed

lemma key_starts_first:
  "e \<in> set es \<Longrightarrow> fst e \<noteq> last_key \<Longrightarrow> (fst e, i + length (takeWhile (\<lambda>x. fst x \<noteq> fst e) es)) \<in> set (key_starts i last_key es)"
proof (induction es arbitrary: i last_key)
  case (Cons a es)
  then show ?case using Cons.IH [of last_key "i + 1"] Cons.IH [of "fst a" "i + 1"] by (auto simp: One_nat_def)
qed simp

lemma key_starts_keys: "fst ` set (key_starts i last_key es) \<subseteq> fst ` set es"
  by (induction i last_key es rule: key_starts.induct) auto

lemma bloom_finds:
  assumes "0 < len" and "len * 8 < U64"
  shows "\<exists>f. bf_inserts h xs (BloomFilter_new len k) = Some f \<and> (\<forall>y \<in> set xs. bf_contains h f y = Some True)"
proof -
  have each: "\<exists>f. bf_inserts h xs (BloomFilter_new len k) = Some f \<and> (y \<in> set xs \<longrightarrow> bf_contains h f y = Some True)" for y
    using string_bloom_exact [OF assms, of h xs k y] by (elim exE conjE) (intro exI conjI)
  then obtain f where "bf_inserts h xs (BloomFilter_new len k) = Some f" by blast
  then show ?thesis using each by auto
qed

lemma close_length: "length (tower_close T) = length T"
  by (induction T rule: tower_close.induct) (auto simp: popped_def)

lemma output_layers_spec:
  assumes rep: "sl_rep s hd_node ns" and vl: "sl_valueLen s = 8" and num: "sl_nodeNum s = length ns" "8 * length ns < 4294967296"
    and kl: "sl_keyLen s = 1 \<or> sl_keyLen s = 2 \<or> sl_keyLen s = 4 \<or> sl_keyLen s = 8 \<or> sl_keyLen s = 16" and w: "0 < w" "w dvd sl_keyLen s"
  shows "\<exists>filt T. output_layers h w s = Some (le_encode 4 (length ns) @ bitArray filt @ concat (map (\<lambda>es. le_encode 4 (length (layer_bytes es))) T) @
      concat (map layer_bytes T) @ concat (map (\<lambda>e. le_encode 8 (snd e)) (map (entry_of s) ns))) \<and> length T = sl_keyLen s div w \<and>
    (\<forall>e \<in> set (map (entry_of s) ns). bf_contains h filt (fst e) = Some True \<and>
       seek T 0 (key_slices w (sl_keyLen s div w) (fst e)) = Some (length (takeWhile (\<lambda>x. fst x \<noteq> fst e) (map (entry_of s) ns))))"
proof -
  let ?n = "sl_keyLen s div w" let ?es = "map (entry_of s) ns" let ?ks = "key_starts 0 [] ?es"
  have r: "supported (sl_keyLen s)" "sl_head s = Some hd_node" "\<forall>p \<in> set ns. good_node s p" using rep unfolding sl_rep_def by auto
  have k16: "0 < sl_keyLen s" "sl_keyLen s \<le> 16" using kl by auto
  have wn: "sl_keyLen s = w * ?n" using w(2) by simp
  have "?n \<le> 16" using k16(2) div_le_dividend le_trans by blast
  moreover have "?n \<noteq> 0"
  proof
    assume "?n = 0"
    then have "w * ?n = 0" by simp
    then show False using wn k16(1) by linarith
  qed
  ultimately have n: "sl_keyLen s = w * ?n" "0 < ?n" "?n \<le> 255" "sl_keyLen s > 0" using wn k16(1) by simp_all
  have len: "length (fst (entry_of s p)) = sl_keyLen s" if "p \<in> set ns" for p using r(3) that good_node_values(3) [OF r(1)] by simp
  have filled: "fst e \<noteq> []" if m: "e \<in> set ?es" for e
  proof -
    obtain p where "p \<in> set ns" "e = entry_of s p" using m by auto
    then have "length (fst e) = sl_keyLen s" using len by simp
    then show ?thesis using n(4) by auto
  qed
  have srt: "sorted_wrt (\<lambda>x y. le_decode (fst x) \<le> le_decode (fst y)) ?es"
  proof -
    have "sorted_wrt (\<lambda>x y. \<not> key_lt (sl_keyLen s) (fst y) (fst x)) ?es" using rep unfolding sl_rep_def by blast
    then show ?thesis by (rule sorted_wrt_mono_rel [rotated]) (use len key_lt_value [OF kl] in auto)
  qed
  obtain filt where f: "bf_inserts h (map fst ?ks) (BloomFilter_new (length ns) 3) = Some filt"
    "\<forall>e \<in> set ?es. bf_contains h filt (fst e) = Some True"
  proof (cases "ns = []")
    case True
    then show ?thesis using that [of "BloomFilter_new 0 3"] by simp
  next
    case False
    have "0 < length ns" "length ns * 8 < U64" using False num(2) by simp_all
    then obtain f where ff: "bf_inserts h (map fst ?ks) (BloomFilter_new (length ns) 3) = Some f"
      "\<forall>y \<in> set (map fst ?ks). bf_contains h f y = Some True" using bloom_finds by blast
    have "fst e \<in> set (map fst ?ks)" if "e \<in> set ?es" for e
    proof -
      from imageI [OF key_starts_first [OF that filled [OF that], of 0], of fst] show ?thesis by simp
    qed
    then show ?thesis using that [OF ff(1)] ff(2) by blast
  qed
  have e: "tower_good w ?n 0 True [] (replicate ?n ([], 0)) []" by (auto simp: tower_good_def tower_small_def wide_def)
  have st: "strings (replicate ?n ([], 0)) = replicate ?n []" "map snd (replicate ?n ([] :: entry list, 0 :: nat)) = replicate ?n 0" by (simp_all add: layer_bytes_def)
  obtain T last_key new where T: "layers_nodes h w s \<lparr>ly_layers = replicate ?n [], ly_counts = replicate ?n 0, ly_values = replicate (8 * length ns) 0,
      ly_value_offset = 0, ly_new_pre = True, ly_last_key = [], ly_filter = BloomFilter_new (length ns) 3\<rparr> (first_of ns) =
    Some \<lparr>ly_layers = strings T, ly_counts = map snd T, ly_values = concat (map (\<lambda>e. le_encode 8 (snd e)) ?es),
      ly_value_offset = 8 * length ns, ly_new_pre = new, ly_last_key = last_key, ly_filter = filt\<rparr>"
    "tower_good w ?n (length ns) new last_key T (map (\<lambda>k. (key_slices w ?n (fst k), snd k)) ?ks)"
    using layers_nodes_good [OF r(1) vl n(1-3) w(1) head_chain(2) [OF rep] r(3) _ _ _ _ e srt _ f(1), where front = "[]" and vals = "replicate (8 * length ns) 0"]
      num(2) unfolding st by (simp add: comp_def) blast
  have m: "length ns < marked" using num(2) by simp
  have cl: "close_last w (map snd T) [0..<?n] (strings T) = Some (map layer_bytes (tower_close T))"
    using close_last_tower [OF good_ready(1) [OF T(2) m], of "[]" "[]"] T(2) by (simp add: tower_good_def)
  have nn: "\<not> ?n > 255" "mul64 (length ns) 8 = 8 * length ns" using n(3) num(2) by (simp_all add: mul64_small mult.commute)
  have out: "output_layers h w s = Some (le_encode 4 (length ns) @ bitArray filt @ concat (map (\<lambda>es. le_encode 4 (length (layer_bytes es))) (tower_close T)) @
      concat (map layer_bytes (tower_close T)) @ concat (map (\<lambda>e. le_encode 8 (snd e)) ?es))"
    using T(1) cl nn by (simp add: output_layers_def Let_def getNext_at r head_chain(1) [OF rep] vl num(1) comp_def)
  have "seek (tower_close T) 0 (key_slices w ?n (fst x)) = Some (length (takeWhile (\<lambda>y. fst y \<noteq> fst x) ?es))" if x: "x \<in> set ?es" for x
  proof -
    note k = key_starts_first [OF x filled [OF x], of 0]
    have in_K: "(key_slices w ?n (fst x), length (takeWhile (\<lambda>y. fst y \<noteq> fst x) ?es)) \<in> set (map (\<lambda>k. (key_slices w ?n (fst k), snd k)) ?ks)"
      using imageI [OF k, of "\<lambda>k. (key_slices w ?n (fst k), snd k)"] by simp
    then have "\<not> new" using T(2) by (auto simp: tower_good_def)
    then obtain vl' where h: "tower_holds T 0 (key_slices w ?n last_key) vl' (map (\<lambda>k. (key_slices w ?n (fst k), snd k)) ?ks)" "length T = ?n"
      using T(2) by (auto simp: tower_good_def)
    have "T \<noteq> []" using h(2) n(2) by auto
    from close_seek [OF h(1) this in_K] show ?thesis by simp
  qed
  then show ?thesis using out f(2) close_length [of T] T(2) by (intro exI [of _ filt] exI [of _ "tower_close T"]) (simp add: tower_good_def)
qed

section \<open>Property\<close>

text \<open>The string with filter \<open>filt\<close> and layers \<open>T\<close>, and what can be found in it: every key is in the filter, and the search through
  the layers gives the number of its first value.\<close>

definition tree_string :: "BloomFilter \<Rightarrow> entry list list \<Rightarrow> (bytes \<times> nat) list \<Rightarrow> bytes" where
  "tree_string filt T es = le_encode 4 (length es) @ bitArray filt @ concat (map (\<lambda>l. le_encode 4 (length (layer_bytes l))) T) @
     concat (map layer_bytes T) @ concat (map (\<lambda>e. le_encode 8 (snd e)) es)"

definition tree_finds :: "(bytes \<Rightarrow> nat) \<Rightarrow> nat \<Rightarrow> nat \<Rightarrow> BloomFilter \<Rightarrow> entry list list \<Rightarrow> (bytes \<times> nat) list \<Rightarrow> bool" where
  "tree_finds h w n filt T es \<longleftrightarrow> length T = n \<and> (\<forall>e \<in> set es. bf_contains h filt (fst e) = Some True \<and>
     seek T 0 (key_slices w n (fst e)) = Some (length (takeWhile (\<lambda>x. fst x \<noteq> fst e) es)))"

text \<open>C20: the compressed strings can be searched. For a list with the keys of ports or addresses, both outputs return: the number of
  nodes, the bits of a filter, the layers with their lengths, and the values in order. Every key of the list is
  reported by the filter, and the search through the layers, slice by slice from where the entry before points to,
  arrives at the number of its first value, though entries with one key below them have been cut off.\<close>

theorem compressed_string_searchable:
  assumes rep: "sl_rep s p ns" and vl: "sl_valueLen s = 8" and num: "sl_nodeNum s = length ns" "8 * length ns < 4294967296"
    and kl: "sl_keyLen s = 1 \<or> sl_keyLen s = 2 \<or> sl_keyLen s = 4 \<or> sl_keyLen s = 8 \<or> sl_keyLen s = 16"
  shows "(\<exists>filt T. outputToCharCompressed h s = Some (tree_string filt T (map (entry_of s) ns)) \<and>
      tree_finds h 1 (sl_keyLen s) filt T (map (entry_of s) ns)) \<and>
    (4 \<le> sl_keyLen s \<longrightarrow> (\<exists>filt T. outputToCharCompressedInt h s = Some (tree_string filt T (map (entry_of s) ns)) \<and>
      tree_finds h 4 (sl_keyLen s div 4) filt T (map (entry_of s) ns)))"
proof -
  have out: "\<exists>filt T. output_layers h w s = Some (tree_string filt T (map (entry_of s) ns)) \<and> tree_finds h w (sl_keyLen s div w) filt T (map (entry_of s) ns)"
    if "0 < w" "w dvd sl_keyLen s" for w
    using output_layers_spec [OF rep vl num kl that, of h] unfolding tree_string_def tree_finds_def by simp
  have "4 dvd sl_keyLen s" if "4 \<le> sl_keyLen s" using kl that by auto
  then show ?thesis using out [of 1] out [of 4] by (simp add: outputToCharCompressed_def outputToCharCompressedInt_def)
qed

lemma compressed_string_searchable_witness:
  "\<exists>s0 s filt T. sl_init SkipList_new 4 2 8 = Some s0 \<and> sl_inserts s0 [([3, 0], 30, 2), ([1, 0], 10, 1)] = Some s \<and>
     outputToCharCompressed (\<lambda>_. 7) s = Some (tree_string filt T [([1, 0], 10), ([3, 0], 30)]) \<and> seek T 0 [[0], [3]] = Some 1"
proof -
  let ?ops = "[([3, 0], 30, 2), ([1, 0], 10, 1)] :: (bytes \<times> nat \<times> nat) list"
  from sl_init_rep [of 2 4 8] obtain s0 where
    s0: "sl_init SkipList_new 4 2 8 = Some s0" "sl_rep s0 0 []" "sl_keyLen s0 = 2" "sl_valueLen s0 = 8" "sl_nodeNum s0 = 0"
    by (auto simp: supported_def)
  have "ops_ok 2 ?ops" by (simp add: ops_ok_def)
  with sl_inserts_spec [OF s0(2), of ?ops, unfolded s0(3-5)] obtain s ns where
    s: "sl_inserts s0 ?ops = Some s" "sl_rep s 0 ns" "map (entry_of s) ns = [([1, 0], 10), ([3, 0], 30)]"
      "sl_keyLen s = 2" "sl_valueLen s = 8" "sl_nodeNum s = 2"
    by (auto simp: example_keys)
  have l: "length ns = 2" using arg_cong [OF s(3), of length] by simp
  from compressed_string_searchable [OF s(2,5), of "\<lambda>_. 7"] s(4,6) l obtain filt T where
    f: "outputToCharCompressed (\<lambda>_. 7) s = Some (tree_string filt T [([1, 0], 10), ([3, 0], 30)])" "tree_finds (\<lambda>_. 7) 1 2 filt T [([1, 0], 10), ([3, 0], 30)]"
    unfolding s(3) by auto
  have "key_slices 1 2 [3, 0] = [[0], [3]]" by (simp add: key_slices_def upt_rec numeral_2_eq_2 One_nat_def)
  then have "seek T 0 [[0], [3]] = Some 1" using f(2) by (simp add: tree_finds_def One_nat_def)
  then show ?thesis using s0(1) s(1) f(1) by blast
qed

end
