(* ===== verification/ZOrder.thy ===== *)
theory ZOrder
  imports KeyTypes FlowAggregate
begin

text \<open>
  The Z-order codes of \<^verbatim>\<open>dpdk_lib/zOrderTree.hpp\<close>: the addresses and ports of a flow are read as two
  numbers of 48 bits whose bits are interleaved into a code of 96 bits, kept as three words. The
  lemmas state the code as a number: its operators compare the number, a suffix is one of its
  hexadecimal digits, and a digit holds two bits of each of the two numbers.
\<close>

declare One_nat_def [simp del]

section \<open>The code\<close>

datatype ZOrderIPv4 = ZOrderIPv4 (zlow: "32 word") (zmid: "32 word") (zhigh: "32 word")

definition interleave_loop :: "nat \<Rightarrow> 'a::len word \<Rightarrow> 'b::len word" where
  "interleave_loop width x =
     fold (\<lambda>i result. result OR push_bit (2 * i) (drop_bit i (ucast x AND push_bit i 1))) [0..<width] 0"

definition interleaveBits16 :: "16 word \<Rightarrow> 32 word" where
  "interleaveBits16 = interleave_loop (2 * 8)"

definition interleaveBits32 :: "32 word \<Rightarrow> 64 word" where
  "interleaveBits32 = interleave_loop (4 * 8)"

definition computeZOrder16 :: "16 word \<Rightarrow> 16 word \<Rightarrow> 32 word" where
  "computeZOrder16 x y = push_bit 1 (interleaveBits16 x) OR interleaveBits16 y"

definition computeZOrder32 :: "32 word \<Rightarrow> 32 word \<Rightarrow> 64 word" where
  "computeZOrder32 x y = push_bit 1 (interleaveBits32 x) OR interleaveBits32 y"

definition zorder_of :: "32 word \<Rightarrow> 32 word \<Rightarrow> 16 word \<Rightarrow> 16 word \<Rightarrow> ZOrderIPv4" where
  "zorder_of src dst sport dport =
     (let tmp = computeZOrder32 src dst
      in ZOrderIPv4 (computeZOrder16 sport dport) (ucast (tmp AND 0xffffffff)) (ucast (drop_bit (4 * 8) tmp)))"

text \<open>The constructor reads four bytes of the address strings; \<open>c_str\<close> ends with a zero byte.\<close>

definition ZOrderIPv4_new :: "FlowMetadata \<Rightarrow> ZOrderIPv4 option" where
  "ZOrderIPv4_new meta = do {
     src \<leftarrow> mread (sourceAddress meta @ [0]) 0 4;
     dst \<leftarrow> mread (destinationAddress meta @ [0]) 0 4;
     Some (zorder_of (word_of_nat (le_decode src)) (word_of_nat (le_decode dst))
       (sourcePort meta) (destinationPort meta)) }"

definition getSuffix :: "ZOrderIPv4 \<Rightarrow> nat \<Rightarrow> nat" where
  "getSuffix z k =
     (if k < 8 then unat (drop_bit (k * 4) (zlow z) AND 15)
      else if k < 16 then unat (drop_bit ((k - 8) * 4) (zmid z) AND 15)
      else if k \<ge> 24 then 0
      else unat (drop_bit ((k - 16) * 4) (zhigh z) AND 15))"

definition prefixCompare :: "ZOrderIPv4 \<Rightarrow> ZOrderIPv4 \<Rightarrow> nat \<Rightarrow> bool" where
  "prefixCompare z other k =
     (if k < 8 then zhigh z = zhigh other \<and> zmid z = zmid other \<and> (zlow z XOR zlow other) < push_bit (k * 4) 1
      else if k < 16 then zhigh z = zhigh other \<and> (zmid z XOR zmid other) < push_bit ((k - 8) * 4) 1
      else if k \<ge> 24 then True
      else (zhigh z XOR zhigh other) < push_bit ((k - 16) * 4) 1)"

definition zorder_lt :: "ZOrderIPv4 \<Rightarrow> ZOrderIPv4 \<Rightarrow> bool" where
  "zorder_lt z other =
     (if zhigh z < zhigh other then True else if zhigh z > zhigh other then False
      else if zmid z < zmid other then True else if zmid z > zmid other then False
      else zlow z < zlow other)"

definition zorder_gt :: "ZOrderIPv4 \<Rightarrow> ZOrderIPv4 \<Rightarrow> bool" where
  "zorder_gt z other =
     (if zhigh z > zhigh other then True else if zhigh z < zhigh other then False
      else if zmid z > zmid other then True else if zmid z < zmid other then False
      else zlow z > zlow other)"

definition zorder_eq :: "ZOrderIPv4 \<Rightarrow> ZOrderIPv4 \<Rightarrow> bool" where
  "zorder_eq z other \<longleftrightarrow> zhigh z = zhigh other \<and> zmid z = zmid other \<and> zlow z = zlow other"

definition zorder_ne :: "ZOrderIPv4 \<Rightarrow> ZOrderIPv4 \<Rightarrow> bool" where
  "zorder_ne z other \<longleftrightarrow> \<not> zorder_eq z other"

definition zorder_le :: "ZOrderIPv4 \<Rightarrow> ZOrderIPv4 \<Rightarrow> bool" where
  "zorder_le z other \<longleftrightarrow> \<not> zorder_gt z other"

definition zorder_ge :: "ZOrderIPv4 \<Rightarrow> ZOrderIPv4 \<Rightarrow> bool" where
  "zorder_ge z other \<longleftrightarrow> \<not> zorder_lt z other"

section \<open>The code as a number\<close>

definition zval :: "ZOrderIPv4 \<Rightarrow> nat" where
  "zval z = unat (zlow z) + 2 ^ 32 * unat (zmid z) + 2 ^ 64 * unat (zhigh z)"

lemma unat32_less: "unat (w :: 32 word) < 2 ^ 32"
  using unsigned_less [of w] by simp

lemma bit32_less: "bit (w :: 32 word) n \<Longrightarrow> n < 32"
  using bit_imp_le_length [of w n] by simp

lemma bit_zval:
  "bit (zval z) n \<longleftrightarrow> (if n < 32 then bit (zlow z) n else if n < 64 then bit (zmid z) (n - 32) else bit (zhigh z) (n - 64))"
proof -
  have e: "zval z = unat (zlow z) + 2 ^ 32 * (unat (zmid z) + 2 ^ 32 * unat (zhigh z))" by (simp add: zval_def)
  show ?thesis unfolding e bit_shifted_add [OF unat32_less] by (cases "n < 32"; cases "n < 64") (simp_all add: bit_unsigned_iff less_diff_conv2)
qed

lemma zval_bound: "zval z < 2 ^ 96"
proof -
  have "bit (zval z) n \<longleftrightarrow> bit (take_bit 96 (zval z)) n" for n
    by (auto simp: bit_take_bit_iff bit_zval dest: bit_imp_le_length)
  then have "take_bit 96 (zval z) = zval z" by (intro bit_eqI) auto
  then show ?thesis by (simp only: take_bit_nat_eq_self_iff)
qed

lemma zval_inj: "zval a = zval b \<Longrightarrow> a = b"
proof -
  assume "zval a = zval b"
  then have "bit (zval a) n = bit (zval b) n" for n by simp
  note b = this [unfolded bit_zval]
  have "zlow a = zlow b" 
  proof (rule bit_word_eqI)
    fix n assume "n < LENGTH(32)"
    then show "bit (zlow a) n = bit (zlow b) n" using b [of n] by simp
  qed
  moreover have "zmid a = zmid b"
  proof (rule bit_word_eqI)
    fix n assume "n < LENGTH(32)"
    then show "bit (zmid a) n = bit (zmid b) n" using b [of "n + 32"] by simp
  qed
  moreover have "zhigh a = zhigh b"
  proof (rule bit_word_eqI)
    fix n assume "n < LENGTH(32)"
    then show "bit (zhigh a) n = bit (zhigh b) n" using b [of "n + 64"] by simp
  qed
  ultimately show ?thesis by (cases a; cases b) simp
qed

lemma and15: "w AND 15 = take_bit 4 (w :: 32 word)"
  by (simp add: take_bit_eq_mask mask_eq_exp_minus_1)

lemma getSuffix_digit: "getSuffix z k = zval z div 16 ^ k mod 16"
proof -
  have p: "(16::nat) ^ k = 2 ^ (k * 4)" by (simp add: power_mult mult.commute [of k 4])
  have e: "(k - 8) * 4 = k * 4 - 32" "(k - 16) * 4 = k * 4 - 64" by auto
  have "bit (getSuffix z k) n \<longleftrightarrow> bit (take_bit 4 (drop_bit (k * 4) (zval z))) n" for n
  proof -
    show ?thesis
      by (auto simp: getSuffix_def e bit_take_bit_iff bit_drop_bit_eq bit_zval bit_unsigned_iff and15 add.commute
          dest: bit32_less)
  qed
  then have "getSuffix z k = take_bit 4 (drop_bit (k * 4) (zval z))" by (intro bit_eqI) auto
  then show ?thesis by (simp add: p drop_bit_eq_div take_bit_eq_mod)
qed

lemma xor_below_iff:
  "(a XOR b) < push_bit k (1 :: 32 word) \<longleftrightarrow> drop_bit k a = drop_bit k b" if "k < 32"
proof -
  have "unat (push_bit k (1 :: 32 word)) = take_bit 32 (2 ^ k)"
    unfolding unsigned_push_bit_eq by simp
  then have p: "unat (push_bit k (1 :: 32 word)) = 2 ^ k"
    using that by (simp add: take_bit_nat_eq_self_iff)
  have "(a XOR b) < push_bit k 1 \<longleftrightarrow> unat (a XOR b) < 2 ^ k"
    unfolding word_less_nat_alt p ..
  also have "\<dots> \<longleftrightarrow> drop_bit k (unat (a XOR b)) = 0"
    by (simp add: drop_bit_eq_div div_eq_0_iff)
  also have "\<dots> \<longleftrightarrow> unat (drop_bit k (a XOR b)) = 0"
    by (simp only: unsigned_drop_bit_eq take_bit_nat_eq_self [OF unsigned_less])
  also have "\<dots> \<longleftrightarrow> drop_bit k a XOR drop_bit k b = 0"
    by (simp only: unsigned_eq_0_iff drop_bit_xor)
  also have "\<dots> \<longleftrightarrow> drop_bit k a = drop_bit k b"
    by (auto simp: bit_eq_iff bit_xor_iff)
  finally show ?thesis .
qed

lemma drop_bit_same: "bit v (k + m) = bit w (k + m)" if "drop_bit k v = drop_bit k (w :: 32 word)"
proof -
  have "bit (drop_bit k v) m = bit (drop_bit k w) m" using that by simp
  then show ?thesis by (simp add: bit_drop_bit_eq)
qed

lemma drop_zval:
  "drop_bit n (zval a) = drop_bit n (zval b) \<longleftrightarrow>
     (if n < 32 then zhigh a = zhigh b \<and> zmid a = zmid b \<and> drop_bit n (zlow a) = drop_bit n (zlow b)
      else if n < 64 then zhigh a = zhigh b \<and> drop_bit (n - 32) (zmid a) = drop_bit (n - 32) (zmid b)
      else drop_bit (n - 64) (zhigh a) = drop_bit (n - 64) (zhigh b))" (is "?l \<longleftrightarrow> ?r")
proof
  assume r: ?r
  have c: "n < 32 \<or> 32 \<le> n \<and> n < 64 \<or> 64 \<le> n" by auto
  show ?l
  proof (rule bit_eqI)
    fix m
    have "bit (zmid a) (n - 32 + m) = bit (zmid b) (n - 32 + m)" if "32 \<le> n" "n < 64"
      by (rule drop_bit_same) (use r that in simp)
    moreover have "bit (zhigh a) (n - 64 + m) = bit (zhigh b) (n - 64 + m)" if "64 \<le> n"
      by (rule drop_bit_same) (use r that in simp)
    moreover have "bit (zlow a) (n + m) = bit (zlow b) (n + m)" if "n < 32"
      by (rule drop_bit_same) (use r that in simp)
    ultimately show "bit (drop_bit n (zval a)) m = bit (drop_bit n (zval b)) m"
      using r c by (auto simp: bit_drop_bit_eq bit_zval)
  qed
next
  assume ?l
  then have q: "bit (drop_bit n (zval a)) (m - n) = bit (drop_bit n (zval b)) (m - n)" for m by simp
  have e: "n \<le> m \<Longrightarrow> bit (zval a) m = bit (zval b) m" for m using q [of m] by (simp add: bit_drop_bit_eq)
  note b = e [unfolded bit_zval]
  have h: "zhigh a = zhigh b" if "n < 64" 
  proof (rule bit_word_eqI)
    fix m assume "m < LENGTH(32)"
    then show "bit (zhigh a) m = bit (zhigh b) m" using b [of "m + 64"] that by simp
  qed
  have m: "zmid a = zmid b" if "n < 32" 
  proof (rule bit_word_eqI)
    fix m assume "m < LENGTH(32)"
    then show "bit (zmid a) m = bit (zmid b) m" using b [of "m + 32"] that by simp
  qed
  have "drop_bit n (zlow a) = drop_bit n (zlow b)" if "n < 32"
  proof (rule bit_word_eqI)
    fix m assume "m < LENGTH(32)"
    then show "bit (drop_bit n (zlow a)) m = bit (drop_bit n (zlow b)) m"
      using b [of "n + m"] bit32_less [of "zlow a" "n + m"] bit32_less [of "zlow b" "n + m"]
      by (auto simp: bit_drop_bit_eq split: if_splits)
  qed
  moreover have "drop_bit (n - 32) (zmid a) = drop_bit (n - 32) (zmid b)" if "32 \<le> n"
  proof (rule bit_word_eqI)
    fix m assume "m < LENGTH(32)"
    then show "bit (drop_bit (n - 32) (zmid a)) m = bit (drop_bit (n - 32) (zmid b)) m"
      using b [of "n + m"] that by (auto simp: bit_drop_bit_eq dest: bit_imp_le_length split: if_splits)
  qed
  moreover have "drop_bit (n - 64) (zhigh a) = drop_bit (n - 64) (zhigh b)" if "64 \<le> n"
  proof (rule bit_word_eqI)
    fix m assume "m < LENGTH(32)"
    then show "bit (drop_bit (n - 64) (zhigh a)) m = bit (drop_bit (n - 64) (zhigh b)) m"
      using b [of "n + m"] that by (auto simp: bit_drop_bit_eq dest: bit_imp_le_length split: if_splits)
  qed
  ultimately show ?r using h m by auto
qed

lemma prefixCompare_digits: "prefixCompare a b k \<longleftrightarrow> zval a div 16 ^ k = zval b div 16 ^ k"
proof -
  have p: "(16::nat) ^ k = 2 ^ (4 * k)" by (simp add: power_mult)
  have z: "k \<ge> 24 \<Longrightarrow> zval z < 2 ^ (4 * k)" for z
    by (rule less_le_trans [OF zval_bound power_increasing]) simp_all
  have "drop_bit (4 * k) (zval a) = drop_bit (4 * k) (zval b) \<longleftrightarrow> prefixCompare a b k"
  proof (cases "k \<ge> 24")
    case True
    then show ?thesis using z [of a] z [of b] by (simp add: prefixCompare_def drop_bit_eq_div)
  next
    case False
    have "4 * k < 32 \<longleftrightarrow> k < 8" "4 * k < 64 \<longleftrightarrow> k < 16" "4 * k - 32 = (k - 8) * 4" "4 * k - 64 = (k - 16) * 4" by auto
    then show ?thesis using False
      by (simp add: prefixCompare_def drop_zval xor_below_iff mult.commute del: push_bit_of_1)
  qed
  then show ?thesis by (simp add: p drop_bit_eq_div)
qed

section \<open>The operators\<close>

lemma three_words_less:
  fixes a b c a' b' c' :: nat
  assumes "a < 2 ^ 32" "b < 2 ^ 32" "a' < 2 ^ 32" "b' < 2 ^ 32"
  shows "a + 2 ^ 32 * b + 2 ^ 64 * c < a' + 2 ^ 32 * b' + 2 ^ 64 * c' \<longleftrightarrow> c < c' \<or> c = c' \<and> (b < b' \<or> b = b' \<and> a < a')"
  using assms by (cases c c' rule: linorder_cases; cases b b' rule: linorder_cases) auto

lemma zorder_lt_zval: "zorder_lt a b \<longleftrightarrow> zval a < zval b"
  unfolding zval_def three_words_less [OF unat32_less unat32_less unat32_less unat32_less]
  by (auto simp: zorder_lt_def word_less_nat_alt word_unat_eq_iff)

lemma zorder_gt_lt: "zorder_gt a b = zorder_lt b a"
  by (auto simp: zorder_gt_def zorder_lt_def)

lemma zorder_eq_eq: "zorder_eq a b \<longleftrightarrow> a = b"
  by (cases a; cases b) (auto simp: zorder_eq_def)

instantiation ZOrderIPv4 :: linorder
begin
definition less_ZOrderIPv4 :: "ZOrderIPv4 \<Rightarrow> ZOrderIPv4 \<Rightarrow> bool" where
  "less_ZOrderIPv4 = zorder_lt"
definition less_eq_ZOrderIPv4 :: "ZOrderIPv4 \<Rightarrow> ZOrderIPv4 \<Rightarrow> bool" where
  "less_eq_ZOrderIPv4 = zorder_le"
instance
  by standard
     (auto simp: less_ZOrderIPv4_def less_eq_ZOrderIPv4_def zorder_lt_zval zorder_le_def zorder_gt_lt intro: zval_inj)
end

lemma zval_less: "a < b \<longleftrightarrow> zval a < zval b" and zval_le: "a \<le> b \<longleftrightarrow> zval a \<le> zval b"
  by (auto simp: less_ZOrderIPv4_def less_eq_ZOrderIPv4_def zorder_lt_zval zorder_le_def zorder_gt_lt)

section \<open>The interleaving\<close>

lemma bit_interleave_loop:
  assumes "2 * width \<le> LENGTH('b::len)" and "width \<le> LENGTH('a::len)"
  shows "bit (interleave_loop width (x :: 'a word) :: 'b word) n \<longleftrightarrow> n < 2 * width \<and> even n \<and> bit x (n div 2)"
proof -
  let ?f = "\<lambda>i result. result OR push_bit (2 * i) (drop_bit i (ucast x AND push_bit i 1))"
  have one: "bit (push_bit (2 * i) (drop_bit i (ucast x AND push_bit i 1)) :: 'b word) n \<longleftrightarrow> n = 2 * i \<and> bit x i"
    if "i < width" for i n
    using that assms by (auto simp: bit_push_bit_iff bit_drop_bit_eq bit_and_iff bit_unsigned_iff bit_exp_iff)
  have "bit (fold ?f [0..<k] 0 :: 'b word) n \<longleftrightarrow> n < 2 * k \<and> even n \<and> bit x (n div 2)" if "k \<le> width" for k n
    using that
  proof (induction k)
    case (Suc k)
    have "bit (fold ?f [0..<Suc k] 0 :: 'b word) n \<longleftrightarrow>
        (n < 2 * k \<and> even n \<and> bit x (n div 2)) \<or> (n = 2 * k \<and> bit x k)"
      using Suc one [of k n] by (simp add: bit_or_iff)
    moreover have "n < 2 * Suc k \<and> even n \<longleftrightarrow> n < 2 * k \<and> even n \<or> n = 2 * k" by presburger
    ultimately show ?case by auto
  qed simp
  then show ?thesis by (simp add: interleave_loop_def)
qed

lemma bit_computeZOrder16:
  "bit (computeZOrder16 x y) n \<longleftrightarrow> (if even n then bit y (n div 2) else bit x (n div 2))"
  using bit_imp_le_length [of x "n div 2"] bit_imp_le_length [of y "n div 2"]
  by (cases n) (auto simp: computeZOrder16_def interleaveBits16_def bit_or_iff bit_push_bit_iff bit_interleave_loop
      less_Suc_eq elim!: evenE oddE)

lemma bit_computeZOrder32:
  "bit (computeZOrder32 x y) n \<longleftrightarrow> (if even n then bit y (n div 2) else bit x (n div 2))"
  using bit_imp_le_length [of x "n div 2"] bit_imp_le_length [of y "n div 2"]
  by (cases n) (auto simp: computeZOrder32_def interleaveBits32_def bit_or_iff bit_push_bit_iff bit_interleave_loop
      less_Suc_eq elim!: evenE oddE)

section \<open>Coordinates and digits\<close>

definition coord :: "16 word \<Rightarrow> 32 word \<Rightarrow> nat" where
  "coord port address = unat port + 2 ^ 16 * unat address"

lemma bit_coord: "bit (coord port address) n \<longleftrightarrow> (if n < 16 then bit port n else bit address (n - 16))"
proof -
  have "unat port < 2 ^ 16" using unsigned_less [of port] by simp
  then show ?thesis unfolding coord_def by (simp only: bit_shifted_add bit_unsigned_iff possible_bit_nat simp_thms)
qed

lemma coord_inj: "coord p a = coord q b \<longleftrightarrow> p = q \<and> a = b"
proof
  assume "coord p a = coord q b"
  then have "bit (coord p a) n = bit (coord q b) n" for n by simp
  note b = this [unfolded bit_coord]
  have "p = q"
  proof (rule bit_word_eqI)
    fix n assume "n < LENGTH(16)"
    then show "bit p n = bit q n" using b [of n] by simp
  qed
  moreover have "a = b"
  proof (rule bit_word_eqI)
    fix n assume "n < LENGTH(32)"
    then show "bit a n = bit b n" using b [of "n + 16"] by simp
  qed
  ultimately show "p = q \<and> a = b" ..
qed simp

lemma bit_zorder_of:
  "bit (zval (zorder_of src dst sport dport)) n \<longleftrightarrow>
     (if even n then bit (coord dport dst) (n div 2) else bit (coord sport src) (n div 2))"
proof -
  have m: "bit (0xffffffff :: 64 word) k \<longleftrightarrow> k < 32" for k
  proof -
    have "(0xffffffff :: 64 word) = mask 32" by (simp add: mask_eq_exp_minus_1)
    then show ?thesis by (simp only: bit_mask_iff) auto
  qed
  let ?z = "computeZOrder32 src dst"
  have h: "bit (ucast (drop_bit 32 ?z) :: 32 word) k \<longleftrightarrow> bit ?z (k + 32)" for k
    using bit_imp_le_length [of ?z "k + 32"] by (auto simp: bit_unsigned_iff bit_drop_bit_eq add.commute)
  have l: "bit (ucast (?z AND 0xffffffff) :: 32 word) k \<longleftrightarrow> k < 32 \<and> bit ?z k" for k
    by (simp only: bit_unsigned_iff bit_and_iff m) auto
  have d: "(n - 32) div 2 = n div 2 - 16" "even (n - 32) = even n" if "32 \<le> n" for n :: nat
    using that by auto
  show ?thesis
    unfolding bit_zval zorder_of_def Let_def ZOrderIPv4.sel bit_computeZOrder16 bit_coord
    by (cases "n < 64") (auto simp: h l bit_computeZOrder32 d)
qed

definition decodeZOrder :: "nat \<Rightarrow> nat \<times> nat" where
  "decodeZOrder v =
     fold (\<lambda>i (x, y). (x OR drop_bit (i + 1) (v AND push_bit (2 * i + 1) 1), y OR drop_bit i (v AND push_bit (2 * i) 1)))
       [0..<4] (0, 0)"

definition getPrefix :: "nat \<Rightarrow> nat \<Rightarrow> nat" where
  "getPrefix level v = drop_bit (level * 2) v AND 3"

lemma getPrefix_digit: "getPrefix level v = v div 4 ^ level mod 4"
proof -
  have p: "(4::nat) ^ level = 2 ^ (level * 2)" by (simp add: power_mult mult.commute [of level 2])
  have "w AND 3 = w mod 4" for w :: nat using and_exp_eq_0_iff_not_bit [of w] take_bit_eq_mask [of 2 w]
    by (simp add: take_bit_eq_mod mask_eq_exp_minus_1)
  then show ?thesis by (simp add: getPrefix_def p drop_bit_eq_div)
qed

lemma decode_small:
  assumes "d < 16"
  shows "decodeZOrder d = (d div 2 mod 2 + 2 * (d div 8), d mod 2 + 2 * (d div 4 mod 2))"
proof -
  have "d \<in> set [0..<16]" using assms by simp
  moreover have "\<forall>d \<in> set [0..<16]. decodeZOrder d = (d div 2 mod 2 + 2 * (d div 8), d mod 2 + 2 * (d div 4 mod 2))"
    by code_simp
  ultimately show ?thesis by blast
qed

lemma div_bit: "(v :: nat) div 2 ^ k mod 2 = of_bool (bit v k)"
  by (simp add: bit_iff_odd mod_2_eq_odd)

lemma hex_digit_bits:
  fixes w :: nat
  shows "w mod 16 mod 2 = w mod 2" and "w mod 16 div 2 mod 2 = w div 2 mod 2"
    and "w mod 16 div 4 mod 2 = w div 4 mod 2" and "w mod 16 div 8 = w div 8 mod 2"
proof -
  have k: "w mod 16 div 2 ^ k mod 2 = w div 2 ^ k mod 2" if "k < 4" for k
  proof -
    have "w mod 16 = take_bit 4 w" by (simp add: take_bit_eq_mod)
    then show ?thesis unfolding div_bit using that by (simp only: bit_take_bit_iff) simp
  qed
  show "w mod 16 mod 2 = w mod 2" using k [of 0] by simp
  show "w mod 16 div 2 mod 2 = w div 2 mod 2" using k [of 1] by simp
  show "w mod 16 div 4 mod 2 = w div 4 mod 2" using k [of 2] by simp
  have "w mod 16 div 8 < 2" by (simp add: less_mult_imp_div_less)
  then have "w mod 16 div 8 = w mod 16 div 8 mod 2" by (rule mod_less [symmetric])
  also have "\<dots> = w div 8 mod 2" using k [of 3] by simp
  finally show "w mod 16 div 8 = w div 8 mod 2" .
qed

lemma decode_digit:
  fixes v :: nat
  shows "decodeZOrder (v div 16 ^ l mod 16) =
    (of_bool (bit v (4 * l + 1)) + 2 * of_bool (bit v (4 * l + 3)), of_bool (bit v (4 * l)) + 2 * of_bool (bit v (4 * l + 2)))"
proof -
  let ?w = "v div 16 ^ l"
  have p: "(16::nat) ^ l = 2 ^ (4 * l)" by (simp add: power_mult)
  have b: "bit v (4 * l + k) = odd (?w div 2 ^ k)" for k by (simp add: bit_iff_odd p power_add div_mult2_eq)
  note d = hex_digit_bits [of ?w]
  have o: "bit v (4 * l) = odd ?w" using b [of 0] by simp
  have "decodeZOrder (?w mod 16) = (?w div 2 mod 2 + 2 * (?w div 8 mod 2), ?w mod 2 + 2 * (?w div 4 mod 2))"
    unfolding decode_small [of "?w mod 16", simplified] d ..
  then show ?thesis using b [of 1] b [of 2] b [of 3] o by (simp add: mod_2_eq_odd)
qed

lemma coordinate_digit: "(x :: nat) div 4 ^ l mod 4 = of_bool (bit x (2 * l)) + 2 * of_bool (bit x (2 * l + 1))"
proof -
  let ?u = "x div 4 ^ l"
  have p: "(4::nat) ^ l = 2 ^ (2 * l)" by (simp add: power_mult)
  have b: "bit x (2 * l + k) = odd (?u div 2 ^ k)" for k by (simp add: bit_iff_odd p power_add div_mult2_eq)
  have "?u mod 4 = ?u mod 2 + 2 * (?u div 2 mod 2)" using mod_mult2_eq [of ?u 2 2] by simp
  then show ?thesis using b [of 0] b [of 1] by (simp add: mod_2_eq_odd)
qed

text \<open>A digit of the code holds a digit of base four of each coordinate.\<close>

lemma decode_zorder_of:
  "decodeZOrder (zval (zorder_of src dst sport dport) div 16 ^ l mod 16) =
     (coord sport src div 4 ^ l mod 4, coord dport dst div 4 ^ l mod 4)"
proof -
  have d: "(4 * l + 1) div 2 = 2 * l" "(4 * l + 3) div 2 = 2 * l + 1" "4 * l div 2 = 2 * l" "(4 * l + 2) div 2 = 2 * l + 1" by auto
  show ?thesis unfolding decode_digit coordinate_digit by (simp add: bit_zorder_of d One_nat_def)
qed

lemma coord_bound: "coord p a < 4 ^ 24"
proof -
  have "unat p < 2 ^ 16" "unat a < 2 ^ 32" using unsigned_less [of p] unsigned_less [of a] by simp_all
  then show ?thesis by (simp add: coord_def)
qed

lemma digits_determine:
  assumes "\<forall>l < n. (x :: nat) div 4 ^ l mod 4 = y div 4 ^ l mod 4" and "x < 4 ^ n" and "y < 4 ^ n"
  shows "x = y"
  using assms
proof (induction n arbitrary: x y)
  case (Suc n)
  have "x div 4 = y div 4"
  proof (rule Suc.IH)
    show "\<forall>l < n. x div 4 div 4 ^ l mod 4 = y div 4 div 4 ^ l mod 4"
      using Suc.prems(1) by (auto simp flip: div_mult2_eq power_Suc)
  qed (use Suc.prems(2,3) in \<open>simp_all add: less_mult_imp_div_less mult.commute\<close>)
  moreover have "x mod 4 = y mod 4" using Suc.prems(1) [rule_format, of 0] by simp
  ultimately show ?case by (metis div_mod_pair_inj)
qed simp

end
