(* ===== verification/ZOrderTree.thy ===== *)
theory ZOrderTree
  imports ZOrder
begin

text \<open>
  The search tree over Z-order codes of \<^verbatim>\<open>dpdk_lib/zOrderTree.hpp\<close>. The nodes of all levels lie in
  one vector, the lowest level first and the root last; a node has a 32-bit offset for each
  hexadecimal digit, zero for no child and one more than the position of the child otherwise. The
  theorems state that a search gives the positions of the points whose digits lie, level by
  level, between those of the bounds, which is the point itself when both bounds are its
  coordinates.
\<close>

declare One_nat_def [simp del]

section \<open>The tree\<close>

record ZOrderIPv4Meta =
  zorder :: ZOrderIPv4
  zvalue :: nat

record ZOrderTreeNode =
  node_prefix :: nat
  offsets :: "nat list"

definition ZOrderTreeNode_new :: "nat \<Rightarrow> ZOrderTreeNode" where
  "ZOrderTreeNode_new p = \<lparr>node_prefix = p, offsets = replicate 16 0\<rparr>"

record ZOrderTreeIPv4 =
  tree_buffer_size :: nat
  tree_max_level :: nat
  tree_buffer :: "ZOrderTreeNode list"
  tree_data :: "ZOrderIPv4Meta list"

text \<open>\<open>max_level\<close> has no value before \<open>buildTree\<close> and is not read then, since the buffer is empty.\<close>

definition ZOrderTreeIPv4_new :: "ZOrderIPv4Meta list \<Rightarrow> ZOrderTreeIPv4" where
  "ZOrderTreeIPv4_new data = \<lparr>tree_buffer_size = 0, tree_max_level = 0, tree_buffer = [], tree_data = data\<rparr>"

text \<open>The body of the loops over the data and over the nodes of the level below: point \<open>r\<close> stands for the
  entry at position \<open>p\<close>, which becomes the child \<open>d\<close> of the last node or of a new one.\<close>

type_synonym level_state = "ZOrderTreeNode list \<times> nat list \<times> nat"

definition set_offset :: "ZOrderTreeNode list \<Rightarrow> nat \<Rightarrow> nat \<Rightarrow> nat \<Rightarrow> ZOrderTreeNode list option" where
  "set_offset buf k d v = do {
     node \<leftarrow> vec_get buf k;
     offs \<leftarrow> vec_set (offsets node) d (v mod 4294967296);
     vec_set buf k (node\<lparr>offsets := offs\<rparr>) }"

definition tree_add :: "ZOrderIPv4Meta list \<Rightarrow> nat \<Rightarrow> nat \<Rightarrow> nat \<Rightarrow> nat \<Rightarrow> nat \<Rightarrow> level_state \<Rightarrow> level_state option" where
  "tree_add data level off r d p = (\<lambda>(buf, left, j). do {
     point \<leftarrow> vec_get data r;
     let suffix = getSuffix (zorder point) level;
     same \<leftarrow> (if j = 0 then Some False
       else do {
         l \<leftarrow> vec_get left (j - 1);
         other \<leftarrow> vec_get data l;
         Some (prefixCompare (zorder point) (zorder other) level) });
     let (buf, left, j) = (if same then (buf, left, j) else (buf @ [ZOrderTreeNode_new suffix], left @ [r], j + 1));
     buf' \<leftarrow> set_offset buf (off + j - 1) d (p + 1);
     Some (buf', left, j) })"

fun level_loop :: "ZOrderIPv4Meta list \<Rightarrow> nat \<Rightarrow> nat \<Rightarrow> nat \<Rightarrow> nat list \<Rightarrow> nat \<Rightarrow> level_state \<Rightarrow> level_state option" where
  "level_loop data level off begin_pos [] i st = Some st"
| "level_loop data level off begin_pos (r # rs) i (buf, left, j) = do {
     child \<leftarrow> vec_get buf (begin_pos + i);
     st \<leftarrow> tree_add data level off r (node_prefix child) (begin_pos + i) (buf, left, j);
     level_loop data level off begin_pos rs (i + 1) st }"

function buildTreeLevel :: "ZOrderTreeIPv4 \<Rightarrow> nat list \<Rightarrow> nat \<Rightarrow> nat \<Rightarrow> ZOrderTreeIPv4 option" where
  "buildTreeLevel t left begin_pos level =
     (if level > 24 then Some t
      else if left = [] then Some t
      else do {
        let now_offset = length (tree_buffer t);
        (buf, new_left, j) \<leftarrow> level_loop (tree_data t) level now_offset begin_pos left 0 (tree_buffer t, [], 0);
        buildTreeLevel (t\<lparr>tree_buffer := buf, tree_buffer_size := length buf, tree_max_level := level\<rparr>) new_left now_offset (level + 1) })"
  by pat_completeness auto
termination
  by (relation "measure (\<lambda>(_, _, _, level). 25 - level)") (auto simp: One_nat_def)

fun data_loop :: "ZOrderIPv4Meta list \<Rightarrow> nat list \<Rightarrow> level_state \<Rightarrow> level_state option" where
  "data_loop data [] st = Some st"
| "data_loop data (i # is) st = do {
     point \<leftarrow> vec_get data i;
     st' \<leftarrow> tree_add data 1 0 i (getSuffix (zorder point) 0) i st;
     data_loop data is st' }"

text \<open>The 32-bit loop counter never reaches a larger number of points.\<close>

definition buildTree :: "ZOrderTreeIPv4 \<Rightarrow> ZOrderTreeIPv4 option" where
  "buildTree t =
     (if length (tree_data t) \<ge> 4294967296 then None
      else do {
        (buf, left, j) \<leftarrow> data_loop (tree_data t) [0..<length (tree_data t)] (tree_buffer t, [], 0);
        t' \<leftarrow> buildTreeLevel (t\<lparr>tree_buffer := buf, tree_buffer_size := length buf, tree_max_level := 1\<rparr>) left 0 2;
        Some (t'\<lparr>tree_buffer_size := length (tree_buffer t')\<rparr>) })"

section \<open>The search\<close>

record board =
  x_min :: nat
  y_min :: nat
  x_max :: nat
  y_max :: nat

definition isInRectangle :: "nat \<Rightarrow> nat \<Rightarrow> board \<Rightarrow> bool" where
  "isInRectangle x y b \<longleftrightarrow> x_min b \<le> x \<and> x \<le> x_max b \<and> y_min b \<le> y \<and> y \<le> y_max b"

definition board_prefix :: "nat \<Rightarrow> board \<Rightarrow> board" where
  "board_prefix level b = \<lparr>x_min = getPrefix level (x_min b), y_min = getPrefix level (y_min b),
     x_max = getPrefix level (x_max b), y_max = getPrefix level (y_max b)\<rparr>"

fun search_children :: "(nat \<Rightarrow> nat list option) \<Rightarrow> board \<Rightarrow> nat list \<Rightarrow> nat list \<Rightarrow> nat list option" where
  "search_children below pre offs [] = Some []"
| "search_children below pre offs (i # is) = do {
     offset \<leftarrow> vec_get offs i;
     found \<leftarrow> (if offset = 0 then Some []
       else let (x, y) = decodeZOrder i in
         if \<not> isInRectangle x y pre then Some [] else below (offset - 1));
     rest \<leftarrow> search_children below pre offs is;
     Some (found @ rest) }"

fun search_node :: "ZOrderTreeNode list \<Rightarrow> board \<Rightarrow> nat \<Rightarrow> nat \<Rightarrow> nat list option" where
  "search_node buf b 0 p = do {
     node \<leftarrow> vec_get buf p;
     search_children (\<lambda>i. Some [i]) (board_prefix 0 b) (offsets node) [0..<16] }"
| "search_node buf b (Suc level) p = do {
     node \<leftarrow> vec_get buf p;
     search_children (search_node buf b level) (board_prefix (Suc level) b) (offsets node) [0..<16] }"

definition zorder_search :: "ZOrderTreeIPv4 \<Rightarrow> nat \<Rightarrow> nat \<Rightarrow> nat \<Rightarrow> nat \<Rightarrow> nat list option" where
  "zorder_search t xmin ymin xmax ymax =
     (if tree_buffer_size t = 0 then Some []
      else search_node (tree_buffer t) \<lparr>x_min = xmin, y_min = ymin, x_max = xmax, y_max = ymax\<rparr>
        (tree_max_level t - 1) (tree_buffer_size t - 1))"

section \<open>What a node covers\<close>

definition code_at :: "ZOrderIPv4Meta list \<Rightarrow> nat \<Rightarrow> nat" where
  "code_at data i = zval (zorder (data ! i))"

fun node_ok :: "ZOrderIPv4Meta list \<Rightarrow> ZOrderTreeNode list \<Rightarrow> nat \<Rightarrow> nat \<Rightarrow> nat \<Rightarrow> bool" where
  "node_ok data buf 0 p g \<longleftrightarrow> p < length data \<and> code_at data p = g \<and> (\<forall>i < length data. code_at data i = g \<longrightarrow> i \<le> p)"
| "node_ok data buf (Suc L) p g \<longleftrightarrow> p < length buf \<and> length (offsets (buf ! p)) = 16 \<and>
     (\<forall>d < 16. if \<exists>i < length data. code_at data i div 16 ^ L = 16 * g + d
        then offsets (buf ! p) ! d \<noteq> 0 \<and> node_ok data buf L (offsets (buf ! p) ! d - 1) (16 * g + d)
        else offsets (buf ! p) ! d = 0)"

lemma node_ok_append: "node_ok data buf L p g \<Longrightarrow> node_ok data (buf @ new) L p g"
  by (induction L arbitrary: p g) (auto simp: nth_append)

definition digit_in :: "board \<Rightarrow> nat \<Rightarrow> nat \<Rightarrow> bool" where
  "digit_in b l code = (let (x, y) = decodeZOrder (code div 16 ^ l mod 16) in isInRectangle x y (board_prefix l b))"

definition last_at :: "ZOrderIPv4Meta list \<Rightarrow> nat \<Rightarrow> bool" where
  "last_at data i \<longleftrightarrow> i < length data \<and> (\<forall>j < length data. code_at data j = code_at data i \<longrightarrow> j \<le> i)"

definition hits :: "ZOrderIPv4Meta list \<Rightarrow> board \<Rightarrow> nat \<Rightarrow> nat \<Rightarrow> nat set" where
  "hits data b L g = {i. last_at data i \<and> code_at data i div 16 ^ L = g \<and> (\<forall>l < L. digit_in b l (code_at data i))}"

lemma hits_disjoint: "g \<noteq> h \<Longrightarrow> hits data b L g \<inter> hits data b L h = {}"
  by (auto simp: hits_def)

lemma code_child: "(c :: nat) div 16 ^ Suc L = g \<longleftrightarrow> (\<exists>d < 16. c div 16 ^ L = 16 * g + d)"
proof -
  have "c div 16 ^ Suc L = c div 16 ^ L div 16" by (simp only: div_mult2_eq power_Suc2)
  moreover have "w div 16 = g \<longleftrightarrow> (\<exists>d < 16. w = 16 * g + d)" for w :: nat
  proof
    assume "w div 16 = g"
    then have "w mod 16 < 16 \<and> w = 16 * g + w mod 16" by auto
    then show "\<exists>d < 16. w = 16 * g + d" by blast
  qed auto
  ultimately show ?thesis by simp
qed

definition child_in :: "board \<Rightarrow> nat \<Rightarrow> nat \<Rightarrow> bool" where
  "child_in b L d = (let (x, y) = decodeZOrder d in isInRectangle x y (board_prefix L b))"

lemma hits_Suc: "hits data b (Suc L) g = (\<Union>d \<in> {d. d < 16 \<and> child_in b L d}. hits data b L (16 * g + d))"
proof -
  have "digit_in b L c \<longleftrightarrow> child_in b L d" if "c div 16 ^ L = 16 * g + d" "d < 16" for c d
    using that by (simp add: digit_in_def child_in_def)
  then show ?thesis unfolding hits_def code_child less_Suc_eq by fastforce
qed

lemma search_children_finds:
  assumes "\<forall>d \<in> set ds. d < length offs \<and> (if offs ! d = 0 then H d = {} else
      (child_in b L d \<longrightarrow> (\<exists>xs. below (offs ! d - 1) = Some xs \<and> distinct xs \<and> set xs = H d)))"
    and "distinct ds" and "\<forall>d \<in> set ds. \<forall>e \<in> set ds. d \<noteq> e \<longrightarrow> H d \<inter> H e = {}"
  shows "\<exists>xs. search_children below (board_prefix L b) offs ds = Some xs \<and> distinct xs \<and>
    set xs = (\<Union>d \<in> {d \<in> set ds. child_in b L d}. H d)"
  using assms
proof (induction ds)
  case (Cons d ds)
  then obtain ys where ys: "search_children below (board_prefix L b) offs ds = Some ys" "distinct ys"
    "set ys = (\<Union>d \<in> {d \<in> set ds. child_in b L d}. H d)" by fastforce
  have o: "vec_get offs d = Some (offs ! d)" using Cons.prems(1) by (simp add: vec_get_in)
  have disj: "H d \<inter> set ys = {}" using Cons.prems(2,3) ys(3) by auto
  have split: "(\<Union>e \<in> {e \<in> set (d # ds). child_in b L e}. H e) = (if child_in b L d then H d else {}) \<union> set ys"
    unfolding ys(3) by auto
  have "\<exists>xs. (if offs ! d = 0 then Some [] else let (x, y) = decodeZOrder d in
      if \<not> isInRectangle x y (board_prefix L b) then Some [] else below (offs ! d - 1)) = Some xs \<and> distinct xs \<and>
      set xs = (if child_in b L d then H d else {})"
    using Cons.prems(1) by (auto simp: child_in_def split: prod.split if_splits)
  then obtain xs where "(if offs ! d = 0 then Some [] else let (x, y) = decodeZOrder d in
      if \<not> isInRectangle x y (board_prefix L b) then Some [] else below (offs ! d - 1)) = Some xs" "distinct xs"
      "set xs = (if child_in b L d then H d else {})" by blast
  then show ?case unfolding split using ys(1,2) disj o by simp
qed simp

lemma node_search:
  assumes "node_ok data buf (Suc L) p g"
  shows "\<exists>xs. search_node buf b L p = Some xs \<and> distinct xs \<and> set xs = hits data b (Suc L) g"
  using assms
proof (induction L arbitrary: p g)
  case 0
  let ?offs = "offsets (buf ! p)"
  have "\<exists>xs. search_children (\<lambda>i. Some [i]) (board_prefix 0 b) ?offs [0..<16] = Some xs \<and> distinct xs \<and>
      set xs = (\<Union>d \<in> {d \<in> set [0..<16]. child_in b 0 d}. hits data b 0 (16 * g + d))"
  proof (rule search_children_finds)
    show "\<forall>d \<in> set [0..<16]. d < length ?offs \<and> (if ?offs ! d = 0 then hits data b 0 (16 * g + d) = {} else
        (child_in b 0 d \<longrightarrow> (\<exists>xs. Some [?offs ! d - 1] = Some xs \<and> distinct xs \<and> set xs = hits data b 0 (16 * g + d))))"
    proof
      fix d :: nat assume "d \<in> set [0..<16]"
      then have d: "d < 16" by simp
      from 0 d have l: "d < length ?offs" by simp
      from 0 d have n: "if \<exists>i < length data. code_at data i = 16 * g + d
          then ?offs ! d \<noteq> 0 \<and> node_ok data buf 0 (?offs ! d - 1) (16 * g + d) else ?offs ! d = 0"
        unfolding node_ok.simps power_0 div_by_1 by blast
      have "hits data b 0 (16 * g + d) = {i. last_at data i \<and> code_at data i = 16 * g + d}" by (simp add: hits_def)
      then show "d < length ?offs \<and> (if ?offs ! d = 0 then hits data b 0 (16 * g + d) = {} else
        (child_in b 0 d \<longrightarrow> (\<exists>xs. Some [?offs ! d - 1] = Some xs \<and> distinct xs \<and> set xs = hits data b 0 (16 * g + d))))"
        using n l by (auto simp: last_at_def split: if_splits intro: le_antisym)
    qed
  qed (auto simp: hits_def)
  then show ?case using 0 by (simp add: hits_Suc vec_get_in)
next
  case (Suc L)
  let ?offs = "offsets (buf ! p)"
  have "\<exists>xs. search_children (search_node buf b L) (board_prefix (Suc L) b) ?offs [0..<16] = Some xs \<and> distinct xs \<and>
      set xs = (\<Union>d \<in> {d \<in> set [0..<16]. child_in b (Suc L) d}. hits data b (Suc L) (16 * g + d))"
  proof (rule search_children_finds)
    show "\<forall>d \<in> set [0..<16]. d < length ?offs \<and> (if ?offs ! d = 0 then hits data b (Suc L) (16 * g + d) = {} else
        (child_in b (Suc L) d \<longrightarrow>
          (\<exists>xs. search_node buf b L (?offs ! d - 1) = Some xs \<and> distinct xs \<and> set xs = hits data b (Suc L) (16 * g + d))))"
    proof
      fix d :: nat assume "d \<in> set [0..<16]"
      then have d: "d < 16" by simp
      from Suc.prems d have l: "d < length ?offs" by simp
      from Suc.prems d have n: "if \<exists>i < length data. code_at data i div 16 ^ Suc L = 16 * g + d
          then ?offs ! d \<noteq> 0 \<and> node_ok data buf (Suc L) (?offs ! d - 1) (16 * g + d) else ?offs ! d = 0"
        unfolding node_ok.simps(2) [of _ _ "Suc L"] by blast
      have "hits data b (Suc L) (16 * g + d) = {}" if "?offs ! d = 0"
        using n that by (auto simp only: hits_def last_at_def split: if_splits)
      moreover have "node_ok data buf (Suc L) (?offs ! d - 1) (16 * g + d)" if "?offs ! d \<noteq> 0"
        using n that by (simp only: split: if_splits)
      ultimately show "d < length ?offs \<and> (if ?offs ! d = 0 then hits data b (Suc L) (16 * g + d) = {} else
        (child_in b (Suc L) d \<longrightarrow>
          (\<exists>xs. search_node buf b L (?offs ! d - 1) = Some xs \<and> distinct xs \<and> set xs = hits data b (Suc L) (16 * g + d))))"
        using l Suc.IH by auto
    qed
  qed (auto simp: hits_def)
  then show ?case using Suc.prems by (simp add: hits_Suc [of _ _ "Suc L"] vec_get_in)
qed

section \<open>One pass over a level\<close>

text \<open>The pass over entries \<open>kps\<close>, each a code without its last digits and a position, has made a node for
  every group of codes that differ in the last digit only.\<close>

definition grp :: "ZOrderIPv4Meta list \<Rightarrow> nat \<Rightarrow> nat \<Rightarrow> nat" where
  "grp data L r = code_at data r div 16 ^ L"

definition child_of :: "(nat \<times> nat) list \<Rightarrow> nat \<Rightarrow> nat" where
  "child_of kps c = (case map_of (rev kps) c of None \<Rightarrow> 0 | Some p \<Rightarrow> p + 1)"

definition node_is :: "(nat \<times> nat) list \<Rightarrow> ZOrderTreeNode \<Rightarrow> nat \<Rightarrow> bool" where
  "node_is kps node g \<longleftrightarrow> node_prefix node = g mod 16 \<and> length (offsets node) = 16 \<and>
     (\<forall>d < 16. offsets node ! d = child_of kps (16 * g + d))"

definition level_inv :: "ZOrderIPv4Meta list \<Rightarrow> nat \<Rightarrow> ZOrderTreeNode list \<Rightarrow> (nat \<times> nat) list \<Rightarrow> nat set \<Rightarrow> level_state \<Rightarrow> bool" where
  "level_inv data L base kps gs = (\<lambda>(buf, left, j). j = length left \<and> length buf = length base + j \<and>
     take (length base) buf = base \<and> (\<forall>r \<in> set left. r < length data) \<and> sorted_wrt (<) (map (grp data L) left) \<and>
     grp data L ` set left = gs \<and> (\<forall>k < j. node_is kps (buf ! (length base + k)) (grp data L (left ! k))))"

lemma child_of_snoc: "child_of (kps @ [(c, p)]) x = (if x = c then p + 1 else child_of kps x)"
  by (simp add: child_of_def)

lemma set_offset_in:
  "k < length buf \<Longrightarrow> d < length (offsets (buf ! k)) \<Longrightarrow>
     set_offset buf k d v = Some (buf[k := (buf ! k)\<lparr>offsets := (offsets (buf ! k))[d := v mod 4294967296]\<rparr>])"
  by (simp add: set_offset_def vec_get_in vec_set_in)

lemma node_is_new: "\<forall>x \<in> set kps. fst x div 16 \<noteq> g \<Longrightarrow> node_is kps (ZOrderTreeNode_new (g mod 16)) g"
proof -
  assume a: "\<forall>x \<in> set kps. fst x div 16 \<noteq> g"
  have "map_of (rev kps) (16 * g + d) = None" if "d < 16" for d
    unfolding map_of_eq_None_iff using a that by auto
  then show ?thesis by (simp add: node_is_def ZOrderTreeNode_new_def child_of_def)
qed

lemma node_is_other: "node_is kps node g \<Longrightarrow> g \<noteq> c div 16 \<Longrightarrow> node_is (kps @ [(c, p)]) node g"
  by (auto simp: node_is_def child_of_snoc)

lemma node_is_set:
  assumes "node_is kps node (c div 16)"
  shows "node_is (kps @ [(c, p)]) (node\<lparr>offsets := (offsets node)[c mod 16 := p + 1]\<rparr>) (c div 16)"
proof -
  have "16 * (c div 16) + d = c \<longleftrightarrow> d = c mod 16" if "d < 16" for d
    using that mult_div_mod_eq [of 16 c] by (intro iffI; linarith)
  then show ?thesis using assms by (auto simp: node_is_def child_of_snoc nth_list_update)
qed

text \<open>First the node is found or made, then its offset is set.\<close>

lemma level_inv_grow:
  assumes inv: "level_inv data L base kps gs (buf, left, j)" and r: "r < length data" and new: "\<forall>g \<in> gs. g < grp data L r"
    and k: "\<forall>x \<in> set kps. fst x div 16 \<in> gs"
  shows "level_inv data L base kps (insert (grp data L r) gs)
    (buf @ [ZOrderTreeNode_new (grp data L r mod 16)], left @ [r], j + 1)"
proof -
  have i: "j = length left" "length buf = length base + j" "take (length base) buf = base" "\<forall>r \<in> set left. r < length data"
    "sorted_wrt (<) (map (grp data L) left)" "grp data L ` set left = gs"
    "\<forall>k < j. node_is kps (buf ! (length base + k)) (grp data L (left ! k))"
    using inv by (simp_all add: level_inv_def)
  have n: "node_is kps (ZOrderTreeNode_new (grp data L r mod 16)) (grp data L r)"
    by (rule node_is_new) (use new k in force)
  have "node_is kps ((buf @ [ZOrderTreeNode_new (grp data L r mod 16)]) ! (length base + m)) (grp data L ((left @ [r]) ! m))"
    if "m < j + 1" for m
    using i(1,2,7) n that by (cases "m = j") (auto simp: nth_append)
  then show ?thesis using i new r by (auto simp: level_inv_def sorted_wrt_append)
qed

lemma level_inv_set:
  assumes inv: "level_inv data L base kps gs (buf, left, j)" and j: "0 < j" "grp data L (left ! (j - 1)) = c div 16"
    and p: "p + 1 < 4294967296"
  shows "\<exists>buf'. set_offset buf (length base + j - 1) (c mod 16) (p + 1) = Some buf' \<and>
    level_inv data L base (kps @ [(c, p)]) gs (buf', left, j)"
proof -
  have i: "j = length left" "length buf = length base + j" "take (length base) buf = base" "\<forall>r \<in> set left. r < length data"
    "sorted_wrt (<) (map (grp data L) left)" "grp data L ` set left = gs"
    "\<forall>k < j. node_is kps (buf ! (length base + k)) (grp data L (left ! k))"
    using inv by (simp_all add: level_inv_def)
  let ?k = "length base + j - 1"
  let ?node = "(buf ! ?k)\<lparr>offsets := (offsets (buf ! ?k))[c mod 16 := p + 1]\<rparr>"
  have last: "?k = length base + (j - 1)" "j - 1 < j" using j(1) by simp_all
  have n: "node_is kps (buf ! ?k) (c div 16)" unfolding last(1) j(2) [symmetric] by (rule i(7) [rule_format, OF last(2)])
  have s: "set_offset buf ?k (c mod 16) (p + 1) = Some (buf[?k := ?node])"
    using n p j(1) i(2) by (simp add: set_offset_in node_is_def)
  have "node_is (kps @ [(c, p)]) (buf[?k := ?node] ! (length base + m)) (grp data L (left ! m))" if m: "m < j" for m
  proof (cases "m = j - 1")
    case True
    have "length base + m = ?k" using True j(1) by simp
    then have "buf[?k := ?node] ! (length base + m) = ?node"
      by (simp only:) (rule nth_list_update_eq, use i(2) j(1) in simp)
    then show ?thesis unfolding True j(2) using node_is_set [OF n, of p] by (simp only:)
  next
    case False
    then have "m < j - 1" using m by simp
    then have "map (grp data L) left ! m < map (grp data L) left ! (j - 1)"
      using i(1) by (intro sorted_wrt_nth_less [OF i(5)]) simp_all
    then have "grp data L (left ! m) \<noteq> c div 16" using i(1) j(2) m by simp
    moreover have "buf[?k := ?node] ! (length base + m) = buf ! (length base + m)"
      by (rule nth_list_update_neq) (use \<open>m < j - 1\<close> in simp)
    ultimately show ?thesis using node_is_other i(7) m by (simp only: not_False_eq_True)
  qed
  then have "\<forall>m < j. node_is (kps @ [(c, p)]) (buf[?k := ?node] ! (length base + m)) (grp data L (left ! m))" by blast
  moreover have "take (length base) (buf[?k := ?node]) = base" using i(3) j(1) by (simp add: take_update_cancel)
  ultimately have "level_inv data L base (kps @ [(c, p)]) gs (buf[?k := ?node], left, j)"
    unfolding level_inv_def prod.case using i(1,2,4,5,6) by (simp only: length_list_update simp_thms)
  with s show ?thesis by blast
qed

declare buildTreeLevel.simps [simp del]

lemma tree_add_eq:
  assumes "r < length data"
    and "(if j = 0 then Some False
       else do { l \<leftarrow> vec_get left (j - 1); other \<leftarrow> vec_get data l;
         Some (prefixCompare (zorder (data ! r)) (zorder other) level) }) = Some same"
  shows "tree_add data level off r d p (buf, left, j) =
    (let (b, l, k) = (if same then (buf, left, j)
       else (buf @ [ZOrderTreeNode_new (getSuffix (zorder (data ! r)) level)], left @ [r], j + 1))
     in do { buf' \<leftarrow> set_offset b (off + k - 1) d (p + 1); Some (buf', l, k) })"
  unfolding tree_add_def prod.case vec_get_in [OF assms(1)] Option.bind.simps Let_def assms(2) ..

lemma tree_add_step:
  assumes inv: "level_inv data (Suc L) base kps ((\<lambda>x. fst x div 16) ` set kps) (buf, left, j)"
    and r: "r < length data" and c: "c = grp data L r" and le: "\<forall>x \<in> set kps. fst x \<le> c" and p: "p + 1 < 4294967296"
  shows "\<exists>st. tree_add data (Suc L) (length base) r (c mod 16) p (buf, left, j) = Some st \<and>
    level_inv data (Suc L) base (kps @ [(c, p)]) ((\<lambda>x. fst x div 16) ` set (kps @ [(c, p)])) st"
proof -
  let ?gs = "(\<lambda>x. fst x div 16) ` set kps"
  have g: "grp data (Suc L) r = c div 16" by (simp only: c grp_def div_mult2_eq power_Suc2)
  have i: "j = length left" "grp data (Suc L) ` set left = ?gs" "\<forall>r \<in> set left. r < length data"
    "sorted_wrt (<) (map (grp data (Suc L)) left)"
    using inv by (simp_all add: level_inv_def)
  have suf: "getSuffix (zorder (data ! r)) (Suc L) = c div 16 mod 16"
    using g by (simp add: getSuffix_digit grp_def code_at_def)
  let ?same = "j \<noteq> 0 \<and> grp data (Suc L) (left ! (j - 1)) = c div 16"
  have same: "(if j = 0 then Some False
       else do { l \<leftarrow> vec_get left (j - 1); other \<leftarrow> vec_get data l;
         Some (prefixCompare (zorder (data ! r)) (zorder other) (Suc L)) }) = Some ?same"
  proof (cases "j = 0")
    case False
    then have "left ! (j - 1) < length data" using i(1,3) by simp
    then show ?thesis using False i(1) g
      by (auto simp: vec_get_in prefixCompare_digits grp_def code_at_def)
  qed simp
  show ?thesis
  proof (cases ?same)
    case True
    then have j: "0 < j" "grp data (Suc L) (left ! (j - 1)) = c div 16" by simp_all
    have "left ! (j - 1) \<in> set left" using j(1) i(1) by simp
    then have "c div 16 \<in> ?gs" unfolding i(2) [symmetric] j(2) [symmetric] by blast
    then have "(\<lambda>x. fst x div 16) ` set (kps @ [(c, p)]) = ?gs" by auto
    then show ?thesis
      using level_inv_set [OF inv j p] True unfolding tree_add_eq [OF r same] by auto
  next
    case False
    have less: "h < c div 16" if "h \<in> ?gs" for h
    proof -
      have up: "h' \<le> c div 16" if "h' \<in> ?gs" for h' using that le by (auto intro: div_le_mono)
      from that obtain k where k: "k < j" "h = grp data (Suc L) (left ! k)"
        unfolding i(2) [symmetric] i(1) by (auto simp: in_set_conv_nth)
      have "left ! (j - 1) \<in> set left" using k(1) i(1) by simp
      then have "grp data (Suc L) (left ! (j - 1)) \<le> c div 16" using up unfolding i(2) [symmetric] by blast
      then have l: "grp data (Suc L) (left ! (j - 1)) < c div 16" using False k(1) by auto
      show ?thesis
      proof (cases "k = j - 1")
        case False
        then have "map (grp data (Suc L)) left ! k < map (grp data (Suc L)) left ! (j - 1)"
          using i(1) k(1) by (intro sorted_wrt_nth_less [OF i(4)]) simp_all
        then show ?thesis using l k i(1) by simp
      qed (use l k in simp)
    qed
    have grown: "level_inv data (Suc L) base kps (insert (c div 16) ?gs)
        (buf @ [ZOrderTreeNode_new (c div 16 mod 16)], left @ [r], j + 1)"
      using level_inv_grow [OF inv r] less by (auto simp: g)
    have "(\<lambda>x. fst x div 16) ` set (kps @ [(c, p)]) = insert (c div 16) ?gs" by auto
    moreover have "0 < j + 1" "grp data (Suc L) ((left @ [r]) ! (j + 1 - 1)) = c div 16" using i(1) g by (simp_all add: One_nat_def)
    ultimately show ?thesis
      using level_inv_set [OF grown _ _ p, of c] False unfolding tree_add_eq [OF r same] suf by auto
  qed
qed

section \<open>All levels\<close>

definition key_groups :: "(nat \<times> nat) list \<Rightarrow> nat set" where
  "key_groups kps = (\<lambda>x. fst x div 16) ` set kps"

definition sorted_data :: "ZOrderIPv4Meta list \<Rightarrow> bool" where
  "sorted_data data \<longleftrightarrow> (\<forall>i j. i \<le> j \<longrightarrow> j < length data \<longrightarrow> code_at data i \<le> code_at data j)"

lemma data_loop_inv:
  assumes "sorted_data data" and "length data < 4294967296"
    and "level_inv data 1 [] kps (key_groups kps) st" and "kps = map (\<lambda>i. (code_at data i, i)) [0..<k]" and "k \<le> length data"
  shows "\<exists>st'. data_loop data [k..<length data] st = Some st' \<and>
    level_inv data 1 [] (map (\<lambda>i. (code_at data i, i)) [0..<length data]) (key_groups (map (\<lambda>i. (code_at data i, i)) [0..<length data])) st'"
  using assms(3-)
proof (induction "length data - k" arbitrary: k kps st)
  case (Suc n)
  then have k: "k < length data" by simp
  obtain buf left j where st: "st = (buf, left, j)" by (cases st)
  have "\<exists>st'. tree_add data (Suc 0) (length ([] :: ZOrderTreeNode list)) k (code_at data k mod 16) k (buf, left, j) = Some st' \<and>
      level_inv data (Suc 0) [] (kps @ [(code_at data k, k)]) ((\<lambda>x. fst x div 16) ` set (kps @ [(code_at data k, k)])) st'"
  proof (rule tree_add_step)
    show "level_inv data (Suc 0) [] kps ((\<lambda>x. fst x div 16) ` set kps) (buf, left, j)"
      using Suc.prems(1) by (simp add: st key_groups_def One_nat_def)
    show "\<forall>x \<in> set kps. fst x \<le> code_at data k"
      using assms(1) k unfolding Suc.prems(2) sorted_data_def by auto
  qed (use k assms(2) in \<open>simp_all add: grp_def\<close>)
  then obtain st' where s: "tree_add data 1 0 k (getSuffix (zorder (data ! k)) 0) k st = Some st'"
    "level_inv data 1 [] (map (\<lambda>i. (code_at data i, i)) [0..<Suc k]) (key_groups (map (\<lambda>i. (code_at data i, i)) [0..<Suc k])) st'"
    by (auto simp: st Suc.prems(2) key_groups_def getSuffix_digit code_at_def One_nat_def)
  have "\<exists>st2. data_loop data [Suc k..<length data] st' = Some st2 \<and>
    level_inv data 1 [] (map (\<lambda>i. (code_at data i, i)) [0..<length data]) (key_groups (map (\<lambda>i. (code_at data i, i)) [0..<length data])) st2"
    by (rule Suc.hyps(1) [OF _ s(2) refl]) (use Suc.hyps(2) k in simp_all)
  then show ?case using s(1) k by (simp add: upt_conv_Cons vec_get_in)
qed simp

text \<open>The nodes of one level: they stand for the different codes without their last \<open>L\<close> digits, in order.\<close>

definition level_done :: "ZOrderIPv4Meta list \<Rightarrow> nat \<Rightarrow> ZOrderTreeNode list \<Rightarrow> nat \<Rightarrow> nat list \<Rightarrow> bool" where
  "level_done data L buf begin_pos left \<longleftrightarrow> length buf = begin_pos + length left \<and> (\<forall>r \<in> set left. r < length data) \<and>
     sorted_wrt (<) (map (grp data L) left) \<and> grp data L ` set left = grp data L ` {..<length data} \<and>
     (\<forall>k < length left. node_prefix (buf ! (begin_pos + k)) = grp data L (left ! k) mod 16 \<and>
        node_ok data buf L (begin_pos + k) (grp data L (left ! k)))"

lemma level_inv_done:
  assumes inv: "level_inv data (Suc L) base kps (key_groups kps) (buf, left, j)"
    and keys: "fst ` set kps = grp data L ` {..<length data}"
    and below: "\<And>c p. map_of (rev kps) c = Some p \<Longrightarrow> node_ok data base L p c"
  shows "level_done data (Suc L) buf (length base) left" and "j = length left"
proof -
  have i: "j = length left" "length buf = length base + j" "take (length base) buf = base" "\<forall>r \<in> set left. r < length data"
    "sorted_wrt (<) (map (grp data (Suc L)) left)" "grp data (Suc L) ` set left = key_groups kps"
    "\<forall>k < j. node_is kps (buf ! (length base + k)) (grp data (Suc L) (left ! k))"
    using inv by (simp_all add: level_inv_def)
  have "key_groups kps = (\<lambda>c. c div 16) ` (fst ` set kps)" by (auto simp: key_groups_def)
  also have "\<dots> = grp data (Suc L) ` {..<length data}"
    unfolding keys image_image grp_def by (simp only: div_mult2_eq power_Suc2)
  finally have g: "grp data (Suc L) ` set left = grp data (Suc L) ` {..<length data}" using i(6) by simp
  have "node_ok data buf (Suc L) (length base + k) (grp data (Suc L) (left ! k))" if k: "k < length left" for k
  proof -
    let ?node = "buf ! (length base + k)" and ?g = "grp data (Suc L) (left ! k)"
    have n: "length (offsets ?node) = 16" "\<forall>d < 16. offsets ?node ! d = child_of kps (16 * ?g + d)"
      using i(1,7) k by (simp_all add: node_is_def)
    have "if \<exists>i < length data. code_at data i div 16 ^ L = 16 * ?g + d
        then offsets ?node ! d \<noteq> 0 \<and> node_ok data buf L (offsets ?node ! d - 1) (16 * ?g + d)
        else offsets ?node ! d = 0" if d: "d < 16" for d
    proof -
      have m: "(\<exists>i < length data. code_at data i div 16 ^ L = 16 * ?g + d) \<longleftrightarrow> map_of (rev kps) (16 * ?g + d) \<noteq> None"
      proof -
        have "(\<exists>i < length data. code_at data i div 16 ^ L = 16 * ?g + d) \<longleftrightarrow> 16 * ?g + d \<in> grp data L ` {..<length data}"
          unfolding image_iff grp_def [of data L] by (simp only: Bex_def lessThan_iff eq_commute)
        also have "\<dots> \<longleftrightarrow> map_of (rev kps) (16 * ?g + d) \<noteq> None"
          unfolding keys [symmetric] map_of_eq_None_iff by simp
        finally show ?thesis .
      qed
      show ?thesis
      proof (cases "map_of (rev kps) (16 * ?g + d)")
        case None
        then show ?thesis using m n(2) d by (simp add: child_of_def)
      next
        case (Some p)
        have "node_ok data (take (length base) buf @ drop (length base) buf) L p (16 * ?g + d)"
          unfolding i(3) by (rule node_ok_append) (rule below [OF Some])
        then show ?thesis using m n(2) d Some by (simp add: child_of_def)
      qed
    qed
    then show ?thesis using n(1) k i(1,2) by simp
  qed
  moreover have "node_prefix (buf ! (length base + k)) = grp data (Suc L) (left ! k) mod 16" if "k < length left" for k
    using i(1,7) that by (simp add: node_is_def)
  ultimately show "level_done data (Suc L) buf (length base) left"
    using i(1,2,4,5) g unfolding level_done_def by (simp del: node_ok.simps)
  show "j = length left" by (rule i(1))
qed

definition level_keys :: "ZOrderIPv4Meta list \<Rightarrow> nat \<Rightarrow> nat \<Rightarrow> nat list \<Rightarrow> nat \<Rightarrow> (nat \<times> nat) list" where
  "level_keys data L begin_pos left i = map (\<lambda>k. (grp data L (left ! k), begin_pos + k)) [0..<i]"

lemma level_loop_inv:
  assumes d: "level_done data L base begin_pos left" and b: "length base < 4294967296"
    and "level_inv data (Suc L) base (level_keys data L begin_pos left i) (key_groups (level_keys data L begin_pos left i)) st"
    and "i \<le> length left"
  shows "\<exists>st'. level_loop data (Suc L) (length base) begin_pos (drop i left) i st = Some st' \<and>
    level_inv data (Suc L) base (level_keys data L begin_pos left (length left)) (key_groups (level_keys data L begin_pos left (length left))) st'"
  using assms(3-)
proof (induction "length left - i" arbitrary: i st)
  case (Suc n)
  then have i: "i < length left" by simp
  obtain buf new j where st: "st = (buf, new, j)" by (cases st)
  let ?c = "grp data L (left ! i)" and ?kps = "level_keys data L begin_pos left i"
  have base: "length base = begin_pos + length left" "\<forall>r \<in> set left. r < length data" "sorted_wrt (<) (map (grp data L) left)"
    "\<forall>k < length left. node_prefix (base ! (begin_pos + k)) = grp data L (left ! k) mod 16"
    using d by (simp_all add: level_done_def)
  have buf: "length buf = length base + j" "take (length base) buf = base" using Suc.prems(1) by (simp_all add: st level_inv_def)
  have "take (length base) buf ! (begin_pos + i) = buf ! (begin_pos + i)" by (rule nth_take) (use base(1) i in simp)
  then have e: "base ! (begin_pos + i) = buf ! (begin_pos + i)" unfolding buf(2) .
  have pre: "node_prefix (buf ! (begin_pos + i)) = ?c mod 16" unfolding e [symmetric] using base(4) i by blast
  have snoc: "level_keys data L begin_pos left (Suc i) = ?kps @ [(?c, begin_pos + i)]" by (simp add: level_keys_def)
  have "\<exists>st'. tree_add data (Suc L) (length base) (left ! i) (?c mod 16) (begin_pos + i) (buf, new, j) = Some st' \<and>
      level_inv data (Suc L) base (?kps @ [(?c, begin_pos + i)]) ((\<lambda>x. fst x div 16) ` set (?kps @ [(?c, begin_pos + i)])) st'"
  proof (rule tree_add_step)
    show "level_inv data (Suc L) base ?kps ((\<lambda>x. fst x div 16) ` set ?kps) (buf, new, j)"
      using Suc.prems(1) by (simp add: st key_groups_def)
    have "map (grp data L) left ! k < map (grp data L) left ! i" if "k < i" for k
      by (rule sorted_wrt_nth_less [OF base(3)]) (use that i in simp_all)
    then show "\<forall>x \<in> set ?kps. fst x \<le> ?c" using i by (auto simp: level_keys_def less_imp_le)
  qed (use i base b in simp_all)
  then obtain st' where s: "tree_add data (Suc L) (length base) (left ! i) (?c mod 16) (begin_pos + i) st = Some st'"
    "level_inv data (Suc L) base (level_keys data L begin_pos left (Suc i)) (key_groups (level_keys data L begin_pos left (Suc i))) st'"
    unfolding st snoc key_groups_def by blast
  have "\<exists>st2. level_loop data (Suc L) (length base) begin_pos (drop (Suc i) left) (Suc i) st' = Some st2 \<and>
    level_inv data (Suc L) base (level_keys data L begin_pos left (length left)) (key_groups (level_keys data L begin_pos left (length left))) st2"
    by (rule Suc.hyps(1) [OF _ s(2)]) (use Suc.hyps(2) i in simp_all)
  moreover have "drop i left = left ! i # drop (Suc i) left" using i by (simp add: Cons_nth_drop_Suc)
  moreover have "vec_get buf (begin_pos + i) = Some (buf ! (begin_pos + i))" using buf(1) base(1) i by (simp add: vec_get_in)
  ultimately show ?case using s(1) pre by (simp add: st One_nat_def)
qed (simp add: One_nat_def)

declare node_ok.simps(2) [simp del]

lemma groups_mono: "sorted_wrt (<) (map (grp data L) left) \<Longrightarrow> grp data L ` set left = grp data L ` {..<length data} \<Longrightarrow>
    length left \<le> length data"
proof -
  assume a: "sorted_wrt (<) (map (grp data L) left)" "grp data L ` set left = grp data L ` {..<length data}"
  have "distinct (map (grp data L) left)" using a(1) strict_sorted_iff by blast
  then have "length left = card (grp data L ` {..<length data})"
    using distinct_card [of "map (grp data L) left"] a(2) by simp
  also have "\<dots> \<le> card {..<length data}" by (rule card_image_le) simp
  finally show ?thesis by simp
qed

lemma level_done_lengths:
  assumes "level_done data L buf begin_pos left"
  shows "length left \<le> length data" and "length buf = begin_pos + length left"
proof -
  have "sorted_wrt (<) (map (grp data L) left)" "grp data L ` set left = grp data L ` {..<length data}"
    "length buf = begin_pos + length left"
    using assms by (simp_all add: level_done_def)
  then show "length left \<le> length data" "length buf = begin_pos + length left" using groups_mono by blast+
qed

lemma next_level:
  assumes d: "level_done data L base begin_pos left" and b: "length base < 4294967296"
  shows "\<exists>buf new. level_loop data (Suc L) (length base) begin_pos left 0 (base, [], 0) = Some (buf, new, length new) \<and>
    level_done data (Suc L) buf (length base) new"
proof -
  have base: "length base = begin_pos + length left" "grp data L ` set left = grp data L ` {..<length data}"
    "\<forall>k < length left. node_ok data base L (begin_pos + k) (grp data L (left ! k))"
    using d by (simp_all add: level_done_def)
  have "level_inv data (Suc L) base (level_keys data L begin_pos left 0) (key_groups (level_keys data L begin_pos left 0)) (base, [], 0)"
    by (simp add: level_inv_def level_keys_def key_groups_def)
  from level_loop_inv [OF d b this] obtain buf new j where l:
    "level_loop data (Suc L) (length base) begin_pos left 0 (base, [], 0) = Some (buf, new, j)"
    "level_inv data (Suc L) base (level_keys data L begin_pos left (length left)) (key_groups (level_keys data L begin_pos left (length left))) (buf, new, j)"
    by auto
  have keys: "fst ` set (level_keys data L begin_pos left (length left)) = grp data L ` {..<length data}"
  proof -
    have "map fst (level_keys data L begin_pos left (length left)) = map (grp data L) left"
      by (rule nth_equalityI) (simp_all add: level_keys_def)
    then show ?thesis unfolding base(2) [symmetric] by (metis list.set_map)
  qed
  have below: "node_ok data base L p c" if "map_of (rev (level_keys data L begin_pos left (length left))) c = Some p" for c p
    using map_of_SomeD [OF that] base(3) by (auto simp: level_keys_def)
  from level_inv_done [OF l(2) keys below] l(1) show ?thesis by blast
qed

lemma build_levels:
  assumes "level_done (tree_data t) L (tree_buffer t) begin_pos left" and "L \<le> 24" and "tree_data t \<noteq> []" and "tree_max_level t = L"
    and "length (tree_buffer t) \<le> L * length (tree_data t)" and "24 * length (tree_data t) < 4294967296"
  shows "\<exists>t' begin' left'. buildTreeLevel t left begin_pos (L + 1) = Some t' \<and> tree_data t' = tree_data t \<and> tree_max_level t' = 24 \<and>
    level_done (tree_data t) 24 (tree_buffer t') begin' left'"
  using assms
proof (induction "24 - L" arbitrary: L t left begin_pos)
  case 0
  then have "L = 24" by simp
  with 0 show ?case by (subst buildTreeLevel.simps) auto
next
  case (Suc n)
  let ?data = "tree_data t" and ?base = "tree_buffer t"
  have "L < 24" using Suc.hyps(2) by simp
  then have "L * length ?data \<le> 24 * length ?data" by (intro mult_le_mono1) simp
  with Suc.prems(5,6) have b: "length ?base < 4294967296" by linarith
  from next_level [OF Suc.prems(1) b] obtain buf new where n:
    "level_loop ?data (Suc L) (length ?base) begin_pos left 0 (?base, [], 0) = Some (buf, new, length new)"
    "level_done ?data (Suc L) buf (length ?base) new" by blast
  have len: "length buf \<le> Suc L * length ?data" using Suc.prems(5) level_done_lengths [OF n(2)] by simp
  have "grp ?data L ` set left = grp ?data L ` {..<length ?data}" using Suc.prems(1) by (simp add: level_done_def)
  moreover have "0 \<in> {..<length ?data}" using Suc.prems(3) by simp
  ultimately have left: "left \<noteq> []" by (metis empty_iff image_is_empty list.set(1))
  let ?t = "t\<lparr>tree_buffer := buf, tree_buffer_size := length buf, tree_max_level := Suc L\<rparr>"
  have "\<exists>t' begin' left'. buildTreeLevel ?t new (length ?base) (Suc L + 1) = Some t' \<and> tree_data t' = tree_data ?t \<and> tree_max_level t' = 24 \<and>
    level_done (tree_data ?t) 24 (tree_buffer t') begin' left'"
    by (rule Suc.hyps(1)) (use Suc n(2) len in simp_all)
  moreover have "buildTreeLevel t left begin_pos (L + 1) = buildTreeLevel ?t new (length ?base) (Suc L + 1)"
    using left \<open>L < 24\<close> n(1) by (subst buildTreeLevel.simps) (simp add: One_nat_def)
  ultimately show ?case by simp
qed

lemma code_top: "code_at data i div 16 ^ 24 = 0"
proof -
  have "code_at data i < 16 ^ 24" unfolding code_at_def by (rule less_le_trans [OF zval_bound]) simp
  then show ?thesis by (rule div_less)
qed

lemma buildTree_ok:
  assumes s: "sorted_data data" and n: "data \<noteq> []" and b: "24 * length data < 4294967296"
  shows "\<exists>t. buildTree (ZOrderTreeIPv4_new data) = Some t \<and> tree_max_level t = 24 \<and>
    tree_buffer_size t = length (tree_buffer t) \<and> tree_buffer t \<noteq> [] \<and>
    node_ok data (tree_buffer t) 24 (length (tree_buffer t) - 1) 0"
proof -
  let ?t = "ZOrderTreeIPv4_new data" and ?kps = "map (\<lambda>i. (code_at data i, i)) [0..<length data]"
  have l: "length data < 4294967296" using b by simp
  have "level_inv data 1 [] [] (key_groups []) ([], [], 0)" by (simp add: level_inv_def key_groups_def)
  from data_loop_inv [OF s l this, of 0] obtain buf left j where d:
    "data_loop data [0..<length data] ([], [], 0) = Some (buf, left, j)"
    "level_inv data (Suc 0) [] ?kps (key_groups ?kps) (buf, left, j)"
    by (auto simp: One_nat_def)
  have keys: "fst ` set ?kps = grp data 0 ` {..<length data}" by (auto simp: grp_def image_image)
  have below: "node_ok data [] 0 p c" if m: "map_of (rev ?kps) c = Some p" for c p
  proof -
    have "i \<le> p" if "i < k" "code_at data i = c" "map_of (rev (map (\<lambda>i. (code_at data i, i)) [0..<k])) c = Some p" for i k
      using that by (induction k) (auto simp: less_Suc_eq split: if_splits)
    then show ?thesis using map_of_SomeD [OF m] m by auto
  qed
  from level_inv_done [OF d(2) keys below] have dn: "level_done data (Suc 0) buf 0 left" by simp
  let ?t1 = "?t\<lparr>tree_buffer := buf, tree_buffer_size := length buf, tree_max_level := 1\<rparr>"
  have len1: "length buf \<le> Suc 0 * length data" using level_done_lengths [OF dn] by simp
  have "\<exists>t' begin' left'. buildTreeLevel ?t1 left 0 (Suc 0 + 1) = Some t' \<and> tree_data t' = tree_data ?t1 \<and> tree_max_level t' = 24 \<and>
      level_done (tree_data ?t1) 24 (tree_buffer t') begin' left'"
    by (intro build_levels) (use dn n b len1 in \<open>simp_all add: ZOrderTreeIPv4_new_def One_nat_def del: node_ok.simps buildTreeLevel.simps\<close>)
  then obtain t' begin' left' where t: "buildTreeLevel ?t1 left 0 2 = Some t'" "tree_max_level t' = 24"
    "level_done data 24 (tree_buffer t') begin' left'"
    unfolding Suc_1 [unfolded One_nat_def, symmetric] by (auto simp: ZOrderTreeIPv4_new_def One_nat_def numeral_2_eq_2)
  have z: "grp data 24 i = 0" for i unfolding grp_def by (rule code_top)
  have "left' \<noteq> []" using t(3) n by (auto simp: level_done_def lessThan_empty_iff)
  moreover have "length left' \<le> 1"
  proof (rule ccontr)
    assume "\<not> length left' \<le> 1"
    then have "map (grp data 24) left' ! 0 < map (grp data 24) left' ! 1"
      using t(3) by (intro sorted_wrt_nth_less [of "(<)"]) (simp_all add: level_done_def One_nat_def)
    then show False using \<open>\<not> length left' \<le> 1\<close> z by simp
  qed
  ultimately have one: "length left' = 1" by (cases left') (simp_all add: One_nat_def)
  then have len: "length (tree_buffer t') = begin' + 1" using t(3) by (simp add: level_done_def)
  have "node_ok data (tree_buffer t') 24 (begin' + 0) (grp data 24 (left' ! 0))"
    using t(3) one unfolding level_done_def by simp
  then have root: "node_ok data (tree_buffer t') 24 (length (tree_buffer t') - 1) 0" unfolding len z by simp
  have "buildTree ?t = Some (t'\<lparr>tree_buffer_size := length (tree_buffer t')\<rparr>)"
    using d(1) t(1) l by (simp add: buildTree_def ZOrderTreeIPv4_new_def)
  moreover have "tree_buffer t' \<noteq> []" using len by auto
  ultimately show ?thesis using t(2) root by simp
qed

lemma search_built:
  assumes "sorted_data data" and "24 * length data < 4294967296"
  shows "\<exists>t xs. buildTree (ZOrderTreeIPv4_new data) = Some t \<and> zorder_search t xmin ymin xmax ymax = Some xs \<and> distinct xs \<and>
    set xs = {i. last_at data i \<and>
      (\<forall>l < 24. digit_in \<lparr>x_min = xmin, y_min = ymin, x_max = xmax, y_max = ymax\<rparr> l (code_at data i))}"
proof (cases "data = []")
  case True
  have "buildTree (ZOrderTreeIPv4_new []) = Some (ZOrderTreeIPv4_new []\<lparr>tree_max_level := 1\<rparr>)"
    by (simp add: buildTree_def ZOrderTreeIPv4_new_def buildTreeLevel.simps)
  then show ?thesis using True by (simp add: zorder_search_def ZOrderTreeIPv4_new_def last_at_def)
next
  case False
  let ?b = "\<lparr>x_min = xmin, y_min = ymin, x_max = xmax, y_max = ymax\<rparr>"
  from buildTree_ok [OF assms(1) False assms(2)] obtain t where t: "buildTree (ZOrderTreeIPv4_new data) = Some t" "tree_max_level t = 24"
    "tree_buffer_size t = length (tree_buffer t)" "tree_buffer t \<noteq> []"
    "node_ok data (tree_buffer t) (Suc 23) (length (tree_buffer t) - 1) 0" by auto
  from node_search [OF t(5), of ?b] obtain xs where "search_node (tree_buffer t) ?b 23 (length (tree_buffer t) - 1) = Some xs"
    "distinct xs" "set xs = hits data ?b 24 0" by auto
  moreover have "hits data ?b 24 0 = {i. last_at data i \<and> (\<forall>l < 24. digit_in ?b l (code_at data i))}"
    unfolding hits_def code_top by simp
  ultimately show ?thesis using t by (simp add: zorder_search_def One_nat_def)
qed

section \<open>Properties\<close>

text \<open>A point of a flow is its coordinates: port and address of either end.\<close>

type_synonym flow_point = "32 word \<times> 32 word \<times> 16 word \<times> 16 word"

definition point_of :: "flow_point \<Rightarrow> ZOrderIPv4" where
  "point_of = (\<lambda>(src, dst, sport, dport). zorder_of src dst sport dport)"

definition point_x :: "flow_point \<Rightarrow> nat" where
  "point_x = (\<lambda>(src, dst, sport, dport). coord sport src)"

definition point_y :: "flow_point \<Rightarrow> nat" where
  "point_y = (\<lambda>(src, dst, sport, dport). coord dport dst)"

definition digits_between :: "nat \<Rightarrow> nat \<Rightarrow> nat \<Rightarrow> bool" where
  "digits_between lo v hi \<longleftrightarrow> (\<forall>l < 24. lo div 4 ^ l mod 4 \<le> v div 4 ^ l mod 4 \<and> v div 4 ^ l mod 4 \<le> hi div 4 ^ l mod 4)"

lemma digit_in_between:
  "digit_in b l (zval (point_of p)) \<longleftrightarrow>
     x_min b div 4 ^ l mod 4 \<le> point_x p div 4 ^ l mod 4 \<and> point_x p div 4 ^ l mod 4 \<le> x_max b div 4 ^ l mod 4 \<and>
     y_min b div 4 ^ l mod 4 \<le> point_y p div 4 ^ l mod 4 \<and> point_y p div 4 ^ l mod 4 \<le> y_max b div 4 ^ l mod 4"
  by (cases p) (simp add: digit_in_def point_of_def point_x_def point_y_def decode_zorder_of isInRectangle_def board_prefix_def
      getPrefix_digit)

lemma between_same: "x < 4 ^ 24 \<Longrightarrow> v < 4 ^ 24 \<Longrightarrow> digits_between v x v \<longleftrightarrow> x = v"
proof
  assume "x < 4 ^ 24" "v < 4 ^ 24" "digits_between v x v"
  then show "x = v" by (intro digits_determine [of 24]) (auto simp: digits_between_def intro: le_antisym)
qed (simp add: digits_between_def)

lemma point_bounds: "point_x p < 4 ^ 24" "point_y p < 4 ^ 24"
  by (cases p; simp only: point_x_def point_y_def prod.case coord_bound)+

lemma point_eq: "point_x p = point_x q \<and> point_y p = point_y q \<longleftrightarrow> p = q"
  by (cases p; cases q) (auto simp: point_x_def point_y_def coord_inj)

lemma point_of_inj: "zval (point_of p) = zval (point_of q) \<longleftrightarrow> p = q"
proof
  assume e: "zval (point_of p) = zval (point_of q)"
  have b: "bit (zval (point_of p)) n \<longleftrightarrow> (if even n then bit (point_y p) (n div 2) else bit (point_x p) (n div 2))" for n p
    by (cases p) (simp add: point_of_def point_x_def point_y_def bit_zorder_of)
  have "bit (point_y p) n = bit (point_y q) n" for n using b [of p "2 * n"] b [of q "2 * n"] e by simp
  moreover have "bit (point_x p) n = bit (point_x q) n" for n using b [of p "2 * n + 1"] b [of q "2 * n + 1"] e by (simp add: One_nat_def)
  ultimately show "p = q" by (simp flip: point_eq add: bit_eq_iff)
qed simp

lemma search_points:
  assumes z: "map zorder data = map point_of ps" and s: "sorted (map zorder data)" and b: "24 * length data < 4294967296"
  shows "\<exists>t xs. buildTree (ZOrderTreeIPv4_new data) = Some t \<and> zorder_search t xmin ymin xmax ymax = Some xs \<and> distinct xs \<and>
    set xs = {i. i < length ps \<and> (\<forall>j < length ps. ps ! j = ps ! i \<longrightarrow> j \<le> i) \<and>
      digits_between xmin (point_x (ps ! i)) xmax \<and> digits_between ymin (point_y (ps ! i)) ymax}"
proof -
  have l: "length data = length ps" using z by (rule map_eq_imp_length_eq)
  have c: "code_at data i = zval (point_of (ps ! i))" if "i < length ps" for i
  proof -
    have "map zorder data ! i = map point_of ps ! i" by (simp only: z)
    then show ?thesis using that l by (simp add: code_at_def)
  qed
  have "sorted_data data"
    unfolding sorted_data_def
  proof (intro allI impI)
    fix i j assume ij: "i \<le> j" "j < length data"
    have "map zorder data ! i \<le> map zorder data ! j" by (rule sorted_nth_mono [OF s ij(1)]) (use ij(2) in simp)
    then show "code_at data i \<le> code_at data j" using ij by (simp add: code_at_def zval_le)
  qed
  from search_built [OF this b, of xmin ymin xmax ymax] obtain t xs where t: "buildTree (ZOrderTreeIPv4_new data) = Some t"
    "zorder_search t xmin ymin xmax ymax = Some xs" "distinct xs"
    "set xs = {i. last_at data i \<and> (\<forall>l < 24. digit_in \<lparr>x_min = xmin, y_min = ymin, x_max = xmax, y_max = ymax\<rparr> l (code_at data i))}"
    by blast
  have "last_at data i \<longleftrightarrow> i < length ps \<and> (\<forall>j < length ps. ps ! j = ps ! i \<longrightarrow> j \<le> i)" for i
    using c by (auto simp: last_at_def l point_of_inj)
  moreover have "(\<forall>l < 24. digit_in \<lparr>x_min = xmin, y_min = ymin, x_max = xmax, y_max = ymax\<rparr> l (code_at data i)) \<longleftrightarrow>
      digits_between xmin (point_x (ps ! i)) xmax \<and> digits_between ymin (point_y (ps ! i)) ymax" if "i < length ps" for i
    unfolding c [OF that] digit_in_between digits_between_def by auto
  ultimately have "set xs = {i. i < length ps \<and> (\<forall>j < length ps. ps ! j = ps ! i \<longrightarrow> j \<le> i) \<and>
      digits_between xmin (point_x (ps ! i)) xmax \<and> digits_between ymin (point_y (ps ! i)) ymax}"
    unfolding t(4) by auto
  with t(1-3) show ?thesis by blast
qed

text \<open>C23: for sorted points, a search gives the position of each different point, once, whose coordinates
  lie between the bounds in every digit of base four.\<close>

theorem zorder_search_digits:
  assumes "map zorder data = map point_of ps" and "sorted (map zorder data)" and "24 * length data < 4294967296"
  shows "\<exists>t xs. buildTree (ZOrderTreeIPv4_new data) = Some t \<and> zorder_search t xmin ymin xmax ymax = Some xs \<and> distinct xs \<and>
    set xs = {i. i < length ps \<and> (\<forall>j < length ps. ps ! j = ps ! i \<longrightarrow> j \<le> i) \<and>
      digits_between xmin (point_x (ps ! i)) xmax \<and> digits_between ymin (point_y (ps ! i)) ymax}"
  by (rule search_points [OF assms])

text \<open>A search for the coordinates of a flow finds exactly the last entry of this flow, or nothing when
  the flow is not in the tree.\<close>

lemma zorder_search_point:
  assumes "map zorder data = map point_of ps" and "sorted (map zorder data)" and "24 * length data < 4294967296"
  shows "\<exists>t xs. buildTree (ZOrderTreeIPv4_new data) = Some t \<and>
    zorder_search t (point_x p) (point_y p) (point_x p) (point_y p) = Some xs \<and>
    (if p \<in> set ps then \<exists>i. xs = [i] \<and> i < length ps \<and> ps ! i = p \<and> p \<notin> set (drop (i + 1) ps) else xs = [])"
proof -
  from search_points [OF assms, of "point_x p" "point_y p" "point_x p" "point_y p"] obtain t xs where t:
    "buildTree (ZOrderTreeIPv4_new data) = Some t" "zorder_search t (point_x p) (point_y p) (point_x p) (point_y p) = Some xs"
    "distinct xs" "set xs = {i. i < length ps \<and> (\<forall>j < length ps. ps ! j = ps ! i \<longrightarrow> j \<le> i) \<and>
      digits_between (point_x p) (point_x (ps ! i)) (point_x p) \<and> digits_between (point_y p) (point_y (ps ! i)) (point_y p)}"
    by blast
  then have xs: "set xs = {i. i < length ps \<and> ps ! i = p \<and> (\<forall>j < length ps. ps ! j = p \<longrightarrow> j \<le> i)}"
    using point_eq by (auto simp: between_same [OF point_bounds(1) point_bounds(1)] between_same [OF point_bounds(2) point_bounds(2)])
  have "if p \<in> set ps then \<exists>i. xs = [i] \<and> i < length ps \<and> ps ! i = p \<and> p \<notin> set (drop (i + 1) ps) else xs = []"
  proof (cases "p \<in> set ps")
    case True
    let ?i = "Max {i. i < length ps \<and> ps ! i = p}"
    have f: "finite {i. i < length ps \<and> ps ! i = p}" by simp
    have "{i. i < length ps \<and> ps ! i = p} \<noteq> {}" using True by (auto simp: in_set_conv_nth)
    from Max_in [OF f this] have i: "?i < length ps" "ps ! ?i = p" by simp_all
    have m: "j \<le> ?i" if "j < length ps" "ps ! j = p" for j using that by (intro Max_ge [OF f]) simp
    have "set xs = {?i}" unfolding xs using i m by (auto intro: le_antisym)
    with t(3) have "xs = [?i]" using distinct_card [OF t(3)] by (cases xs; cases "tl xs") auto
    moreover have "p \<notin> set (drop (?i + 1) ps)"
    proof
      assume "p \<in> set (drop (?i + 1) ps)"
      then obtain k where "k < length ps - (?i + 1)" "ps ! (?i + 1 + k) = p" by (auto simp: in_set_conv_nth)
      with m [of "?i + 1 + k"] have "?i + 1 + k \<le> ?i" by linarith
      then show False by (simp add: One_nat_def)
    qed
    ultimately show ?thesis using True i by auto
  next
    case False
    then have "set xs = {}" unfolding xs by auto
    then show ?thesis using False by simp
  qed
  with t(1,2) show ?thesis by blast
qed

text \<open>An example: three entries, two of them of the same flow.\<close>

definition example_points :: "flow_point list" where
  "example_points = [(0, 0, 0, 0), (0, 0, 0, 0), (0, 0, 6, 7)]"

definition example_data :: "ZOrderIPv4Meta list" where
  "example_data = map (\<lambda>p. \<lparr>zorder = point_of p, zvalue = 0\<rparr>) example_points"

lemma example_sorted: "map zorder example_data = map point_of example_points" "sorted (map zorder example_data)"
  "24 * length example_data < 4294967296"
proof -
  have "bit (zval (zorder_of 0 0 0 0)) n \<longleftrightarrow> bit (0 :: nat) n" for n by (simp add: bit_zorder_of coord_def)
  then have "zval (zorder_of 0 0 0 0) = 0" by (simp only: bit_eq_iff) simp
  then show "sorted (map zorder example_data)"
    by (simp add: example_data_def example_points_def point_of_def zval_le)
qed (simp_all add: example_data_def example_points_def)

lemma digits_to_seven: "v \<le> 7 \<Longrightarrow> digits_between 0 v 7"
  unfolding digits_between_def
proof (intro allI impI)
  fix l :: nat assume v: "v \<le> 7"
  consider "l = 0" | "l = 1" | "2 \<le> l" by linarith
  then show "0 div 4 ^ l mod 4 \<le> v div 4 ^ l mod 4 \<and> v div 4 ^ l mod 4 \<le> 7 div 4 ^ l mod 4"
  proof cases
    case 3
    then have "(4::nat) ^ 2 \<le> 4 ^ l" by (intro power_increasing) simp_all
    then show ?thesis using v by simp
  qed (use v in auto)
qed

lemma zorder_search_digits_witness:
  "\<exists>t xs. buildTree (ZOrderTreeIPv4_new example_data) = Some t \<and> zorder_search t 0 0 7 7 = Some xs \<and> distinct xs \<and> set xs = {1, 2}"
proof -
  let ?ok = "\<lambda>i. (\<forall>j < length example_points. example_points ! j = example_points ! i \<longrightarrow> j \<le> i) \<and>
    digits_between 0 (point_x (example_points ! i)) 7 \<and> digits_between 0 (point_y (example_points ! i)) 7"
  have "point_x p \<le> 7 \<and> point_y p \<le> 7" if "p \<in> set example_points" for p
    using that by (auto simp: example_points_def point_x_def point_y_def coord_def)
  then have d: "digits_between 0 (point_x (example_points ! i)) 7 \<and> digits_between 0 (point_y (example_points ! i)) 7"
    if "i < length example_points" for i using that digits_to_seven by simp
  have "{i. i < length example_points \<and> ?ok i} =
      {i. i < length example_points \<and> (\<forall>j < length example_points. example_points ! j = example_points ! i \<longrightarrow> j \<le> i)}"
    using d by blast
  also have "\<dots> = {1, 2}" by (auto simp: example_points_def less_Suc_eq nth_Cons' One_nat_def)
  finally show ?thesis using zorder_search_digits [OF example_sorted, of 0 0 7 7] by (simp only:)
qed

lemma zorder_search_point_example:
  "\<exists>t i. buildTree (ZOrderTreeIPv4_new example_data) = Some t \<and> zorder_search t 6 7 6 7 = Some [i] \<and>
     example_points ! i = (0, 0, 6, 7)"
proof -
  have "point_x (0, 0, 6, 7) = 6" "point_y (0, 0, 6, 7) = 7" "(0, 0, 6, 7) \<in> set example_points"
    by (simp_all add: point_x_def point_y_def coord_def example_points_def)
  with zorder_search_point [OF example_sorted, of "(0, 0, 6, 7)"] show ?thesis by auto
qed

text \<open>The bounds are compared digit by digit and not as numbers: when the last digit of the lower bound is
  larger than that of the upper bound, nothing is found.\<close>

lemma range_search_empty:
  assumes "map zorder data = map point_of ps" and "sorted (map zorder data)" and "24 * length data < 4294967296"
  shows "\<exists>t. buildTree (ZOrderTreeIPv4_new data) = Some t \<and> zorder_search t 1 ymin 4 ymax = Some []"
proof -
  have "\<not> digits_between 1 v 4" for v
  proof
    assume "digits_between 1 v 4"
    from this [unfolded digits_between_def, rule_format, of 0] have "1 \<le> v mod 4" "v mod 4 \<le> 0" by auto
    then show False by linarith
  qed
  with search_points [OF assms, of 1 ymin 4 ymax] show ?thesis by fastforce
qed

end
