(* ===== verification/RingPools.thy ===== *)
theory RingPools
  imports Prelude
begin

text \<open>
  Two rings in which every slot carries a flag: the pointer ring of
  \<^verbatim>\<open>dpdk_lib/pointerRingBuffer.hpp\<close> and the pool of memory blocks of
  \<^verbatim>\<open>baseline/flosis/lib/pointerRingPool.hpp\<close>. Both take the next position from a 64-bit counter
  before they look at the flag of the slot. The calls are run one after the other, so a wait for
  another thread never ends and is \<open>None\<close>, as is a division by a zero capacity or an access
  through an array that was not allocated (an empty list here).
\<close>

declare One_nat_def [simp del]

section \<open>The pointer ring\<close>

record 'a PointerRingBuffer =
  prb_capacity :: nat
  prb_writePos :: nat
  prb_readPos :: nat
  prb_pointers :: "'a option list option"
  prb_signal :: "bool list"
  prb_stop :: bool

definition PointerRingBuffer_new :: "nat \<Rightarrow> 'a PointerRingBuffer" where
  "PointerRingBuffer_new cap =
     (if (cap AND ((cap + u32_max) mod 4294967296)) \<noteq> 0
      then \<lparr>prb_capacity = cap, prb_writePos = 0, prb_readPos = 0, prb_pointers = None, prb_signal = [], prb_stop = False\<rparr>
      else \<lparr>prb_capacity = cap, prb_writePos = 0, prb_readPos = 0, prb_pointers = Some (replicate cap None),
            prb_signal = replicate cap False, prb_stop = False\<rparr>)"

definition prb_put :: "'a PointerRingBuffer \<Rightarrow> 'a option \<Rightarrow> (bool \<times> 'a PointerRingBuffer) option" where
  "prb_put q data =
     (case prb_pointers q of None \<Rightarrow> Some (False, q)
      | Some ps \<Rightarrow>
          if prb_capacity q = 0 then None
          else do {
            let pos = prb_writePos q mod prb_capacity q;
            let q1 = q\<lparr>prb_writePos := add64 (prb_writePos q) 1\<rparr>;
            taken \<leftarrow> vec_get (prb_signal q1) pos;
            if taken then None
            else do {
              ps' \<leftarrow> vec_set ps pos data;
              sg \<leftarrow> vec_set (prb_signal q1) pos True;
              Some (True, q1\<lparr>prb_pointers := Some ps', prb_signal := sg\<rparr>) } })"

definition prb_get :: "'a PointerRingBuffer \<Rightarrow> ('a option \<times> 'a PointerRingBuffer) option" where
  "prb_get q =
     (case prb_pointers q of None \<Rightarrow> Some (None, q)
      | Some ps \<Rightarrow>
          if prb_capacity q = 0 then None
          else do {
            let pos = prb_readPos q mod prb_capacity q;
            let q1 = q\<lparr>prb_readPos := add64 (prb_readPos q) 1\<rparr>;
            there \<leftarrow> vec_get (prb_signal q1) pos;
            if \<not> there then (if prb_stop q1 then Some (None, q1) else None)
            else do {
              data \<leftarrow> vec_get ps pos;
              sg \<leftarrow> vec_set (prb_signal q1) pos False;
              Some (data, q1\<lparr>prb_signal := sg\<rparr>) } })"

definition prb_initSucceed :: "'a PointerRingBuffer \<Rightarrow> bool" where
  "prb_initSucceed q \<longleftrightarrow> prb_pointers q \<noteq> None"

definition prb_asynchronousStop :: "'a PointerRingBuffer \<Rightarrow> 'a PointerRingBuffer" where
  "prb_asynchronousStop q = q\<lparr>prb_stop := True\<rparr>"

section \<open>The pool of blocks\<close>

text \<open>A block is its address in the memory of the pool.\<close>

record PointerRingPool =
  rp_mem_size :: nat
  rp_block_size :: nat
  rp_block_count :: nat
  rp_alloPos :: nat
  rp_freePos :: nat
  rp_mem_pool :: bytes
  rp_blocks :: "nat list"
  rp_signal :: "bool list"

datatype pool_error = Pool_mmap_failed

text \<open>\<open>isPowerOfTwo\<close> takes a 32-bit argument, so only the low half of the count is tested.\<close>

definition isPowerOfTwo :: "nat \<Rightarrow> bool" where
  "isPowerOfTwo count = (let n = count mod 4294967296 in n AND ((n + u32_max) mod 4294967296) = 0)"

definition PointerRingPool_new :: "bytes option \<Rightarrow> nat \<Rightarrow> nat \<Rightarrow> (pool_error + PointerRingPool) option" where
  "PointerRingPool_new mmap_result mem_size block_size =
     (if block_size = 0 then None
      else
        let count = mem_size div block_size;
            p = \<lparr>rp_mem_size = mem_size, rp_block_size = block_size, rp_block_count = count, rp_alloPos = 0,
                 rp_freePos = 0, rp_mem_pool = [], rp_blocks = [], rp_signal = []\<rparr>
        in if \<not> isPowerOfTwo count then Some (Inr p)
           else case mmap_result of None \<Rightarrow> Some (Inl Pool_mmap_failed)
             | Some m \<Rightarrow> Some (Inr (p\<lparr>rp_mem_pool := m, rp_blocks := map (\<lambda>i. i * block_size) [0..<count],
                  rp_signal := replicate count True\<rparr>)))"

definition rp_free :: "PointerRingPool \<Rightarrow> nat option \<Rightarrow> (bool \<times> PointerRingPool) option" where
  "rp_free p block =
     (case block of None \<Rightarrow> Some (False, p)
      | Some blk \<Rightarrow>
          if rp_block_count p = 0 then None
          else do {
            let pos = rp_freePos p mod rp_block_count p;
            let p1 = p\<lparr>rp_freePos := add64 (rp_freePos p) 1\<rparr>;
            idle \<leftarrow> vec_get (rp_signal p1) pos;
            if idle then Some (False, p1)
            else do {
              bs \<leftarrow> vec_set (rp_blocks p1) pos blk;
              sg \<leftarrow> vec_set (rp_signal p1) pos True;
              Some (True, p1\<lparr>rp_blocks := bs, rp_signal := sg\<rparr>) } })"

definition rp_allocate :: "PointerRingPool \<Rightarrow> (nat option \<times> PointerRingPool) option" where
  "rp_allocate p =
     (if rp_block_count p = 0 then None
      else do {
        let pos = rp_alloPos p mod rp_block_count p;
        let p1 = p\<lparr>rp_alloPos := add64 (rp_alloPos p) 1\<rparr>;
        idle \<leftarrow> vec_get (rp_signal p1) pos;
        if \<not> idle then Some (None, p1)
        else do {
          data \<leftarrow> vec_get (rp_blocks p1) pos;
          sg \<leftarrow> vec_set (rp_signal p1) pos False;
          Some (Some data, p1\<lparr>rp_signal := sg\<rparr>) } })"

text \<open>The callers repeat the call until it gives a block. The slots come round, so after as many calls as
  there are slots without a block there is none, and the loop never ends when no other thread
  frees one.\<close>

fun allocate_try :: "nat \<Rightarrow> PointerRingPool \<Rightarrow> (nat \<times> PointerRingPool) option" where
  "allocate_try 0 p = None"
| "allocate_try (Suc n) p = do {
     (block, p') \<leftarrow> rp_allocate p;
     case block of Some b \<Rightarrow> Some (b, p') | None \<Rightarrow> allocate_try n p' }"

definition allocate_wait :: "PointerRingPool \<Rightarrow> (nat \<times> PointerRingPool) option" where
  "allocate_wait p = allocate_try (rp_block_count p) p"

section \<open>The ring as a queue\<close>

definition prb_at :: "'a PointerRingBuffer \<Rightarrow> nat \<Rightarrow> nat" where
  "prb_at q i = (prb_readPos q + i) mod prb_capacity q"

text \<open>The ring holds the values \<open>xs\<close>: the flags are set exactly in their slots.\<close>

definition prb_holds :: "'a PointerRingBuffer \<Rightarrow> 'a option list \<Rightarrow> bool" where
  "prb_holds q xs \<longleftrightarrow> (\<exists>ps. prb_pointers q = Some ps \<and> 0 < prb_capacity q \<and> prb_capacity q dvd U64 \<and>
     length ps = prb_capacity q \<and> length (prb_signal q) = prb_capacity q \<and> length xs \<le> prb_capacity q \<and>
     prb_writePos q = add64 (prb_readPos q) (length xs) \<and>
     (\<forall>i < prb_capacity q. prb_signal q ! prb_at q i \<longleftrightarrow> i < length xs) \<and>
     (\<forall>i < length xs. ps ! prb_at q i = xs ! i))"

lemma at_inj:
  assumes "(r + i) mod c = (r + j) mod c" and "i < c" and "j < (c :: nat)"
  shows "i = j"
proof -
  have "(int r + int i) mod int c = (int r + int j) mod int c" using assms(1) by (metis of_nat_add of_nat_mod)
  then have "int i mod int c = int j mod int c" by (simp add: mod_eq_dvd_iff)
  with assms(2,3) show ?thesis by simp
qed

lemma prb_put_holds:
  assumes h: "prb_holds q xs" and room: "length xs < prb_capacity q"
  shows "\<exists>q'. prb_put q x = Some (True, q') \<and> prb_holds q' (xs @ [x])"
proof -
  let ?c = "prb_capacity q"
  from h obtain ps where p: "prb_pointers q = Some ps" "0 < ?c" "?c dvd U64" "length ps = ?c" "length (prb_signal q) = ?c"
    "prb_writePos q = add64 (prb_readPos q) (length xs)"
    "\<forall>i < ?c. prb_signal q ! prb_at q i \<longleftrightarrow> i < length xs" "\<forall>i < length xs. ps ! prb_at q i = xs ! i"
    by (auto simp: prb_holds_def)
  have pos: "add64 (prb_readPos q) (length xs) mod ?c = prb_at q (length xs)" by (simp add: add64_mod p(3) prb_at_def)
  have lt: "prb_at q i < ?c" for i using p(2) by (simp add: prb_at_def)
  have inj: "prb_at q i = prb_at q j \<longleftrightarrow> i = j" if "i < ?c" "j < ?c" for i j
    using at_inj [OF _ that, of "prb_readPos q"] by (auto simp: prb_at_def)
  let ?q' = "q\<lparr>prb_writePos := add64 (prb_writePos q) 1, prb_pointers := Some (ps[prb_at q (length xs) := x]),
     prb_signal := (prb_signal q)[prb_at q (length xs) := True]\<rparr>"
  have "prb_put q x = Some (True, ?q')"
    using p room lt [of "length xs"] by (simp add: prb_put_def Let_def p(6) pos vec_get_in vec_set_in)
  moreover have "prb_at ?q' = prb_at q" by (simp add: prb_at_def fun_eq_iff)
  then have "prb_holds ?q' (xs @ [x])"
    using p room lt inj unfolding prb_holds_def
    by (auto simp: nth_list_update nth_append less_Suc_eq add64_assoc One_nat_def)
  ultimately show ?thesis by blast
qed

lemma prb_get_holds:
  assumes h: "prb_holds q (x # xs)"
  shows "\<exists>q'. prb_get q = Some (x, q') \<and> prb_holds q' xs"
proof -
  let ?c = "prb_capacity q"
  from h obtain ps where p: "prb_pointers q = Some ps" "0 < ?c" "?c dvd U64" "length ps = ?c" "length (prb_signal q) = ?c"
    "Suc (length xs) \<le> ?c" "prb_writePos q = add64 (prb_readPos q) (Suc (length xs))"
    "\<forall>i < ?c. prb_signal q ! prb_at q i \<longleftrightarrow> i < Suc (length xs)" "\<forall>i < Suc (length xs). ps ! prb_at q i = (x # xs) ! i"
    by (auto simp: prb_holds_def)
  have lt: "prb_at q i < ?c" for i using p(2) by (simp add: prb_at_def)
  have inj: "prb_at q i = prb_at q j \<longleftrightarrow> i = j" if "i < ?c" "j < ?c" for i j
    using at_inj [OF _ that, of "prb_readPos q"] by (auto simp: prb_at_def)
  have zero: "prb_readPos q mod ?c = prb_at q 0" by (simp add: prb_at_def)
  let ?q' = "q\<lparr>prb_readPos := add64 (prb_readPos q) 1, prb_signal := (prb_signal q)[prb_at q 0 := False]\<rparr>"
  have "prb_get q = Some (x, ?q')"
    using p lt [of 0] by (simp add: prb_get_def Let_def zero vec_get_in vec_set_in)
  moreover have at: "prb_at ?q' i = prb_at q (Suc i)" for i
    using p(3) by (simp add: prb_at_def add64_def) (metis add64_def add64_mod add.commute add_Suc_right mod_add_right_eq plus_1_eq_Suc)
  have wrap: "prb_at q ?c = prb_at q 0" by (simp add: prb_at_def)
  have sig: "(prb_signal q)[prb_at q 0 := False] ! prb_at q (Suc i) \<longleftrightarrow> i < length xs" if "i < ?c" for i
  proof (cases "Suc i = ?c")
    case True
    then show ?thesis using p(5,6) lt [of 0] wrap by simp
  next
    case False
    then have "Suc i < ?c" using that by simp
    then show ?thesis using p(2,5,8) inj [of 0 "Suc i"] lt by (simp add: nth_list_update)
  qed
  have "prb_holds ?q' xs"
    unfolding prb_holds_def at using p sig
    by (auto simp: add64_assoc One_nat_def)
  ultimately show ?thesis by blast
qed

text \<open>After \<open>asynchronousStop\<close>, which the flow engine calls in its constructor, looking into the empty ring
  moves the read position: the next value put is not seen by the next \<open>get\<close>.\<close>

lemma empty_get_skips_value:
  "let q = prb_asynchronousStop (PointerRingBuffer_new 4) in
   \<exists>q1 q2 q3. prb_get q = Some (None, q1) \<and> prb_put q1 (Some x) = Some (True, q2) \<and> prb_get q2 = Some (None, q3)"
proof -
  have r: "replicate 4 y = [y, y, y, y]" for y :: 'b by (simp add: numeral_eq_Suc)
  have n: "PointerRingBuffer_new 4 = \<lparr>prb_capacity = 4, prb_writePos = 0, prb_readPos = 0,
      prb_pointers = Some [None, None, None, None], prb_signal = [False, False, False, False], prb_stop = False\<rparr>"
    by (simp add: PointerRingBuffer_new_def r)
  show ?thesis
    unfolding n prb_asynchronousStop_def Let_def
    by (simp add: prb_get_def prb_put_def Let_def vec_get_def vec_set_def add64_def)
qed

section \<open>The pool never hands out a block twice\<close>

definition idle :: "PointerRingPool \<Rightarrow> nat set" where
  "idle p = {i. i < rp_block_count p \<and> rp_signal p ! i}"

text \<open>\<open>used\<close> is the set of blocks that callers hold: the blocks in idle slots are other ones, all
  different, and lie inside the memory without overlap.\<close>

definition block_ok :: "PointerRingPool \<Rightarrow> nat \<Rightarrow> bool" where
  "block_ok p b \<longleftrightarrow> rp_block_size p dvd b \<and> b + rp_block_size p \<le> length (rp_mem_pool p)"

definition pool_safe :: "PointerRingPool \<Rightarrow> nat set \<Rightarrow> bool" where
  "pool_safe p used \<longleftrightarrow> 0 < rp_block_count p \<and> 0 < rp_block_size p \<and>
     length (rp_blocks p) = rp_block_count p \<and> length (rp_signal p) = rp_block_count p \<and>
     inj_on (\<lambda>i. rp_blocks p ! i) (idle p) \<and> (\<lambda>i. rp_blocks p ! i) ` idle p \<inter> used = {} \<and>
     (\<forall>i \<in> idle p. block_ok p (rp_blocks p ! i)) \<and> (\<forall>b \<in> used. block_ok p b)"

lemma pool_new_safe:
  assumes "PointerRingPool_new (Some m) mem_size block_size = Some (Inr p)" and "isPowerOfTwo (mem_size div block_size)"
    and "0 < block_size" and "block_size \<le> mem_size" and "length m = mem_size"
  shows "pool_safe p {}" and "rp_block_size p = block_size" and "length (rp_mem_pool p) = mem_size"
proof -
  have "i * block_size + block_size \<le> mem_size" if "i < mem_size div block_size" for i
  proof -
    from that have "Suc i * block_size \<le> mem_size div block_size * block_size" by (intro mult_le_mono1) simp
    also have "\<dots> \<le> mem_size" by simp
    finally show ?thesis by simp
  qed
  moreover have "0 < mem_size div block_size" using assms(3,4) by (simp add: div_greater_zero_iff)
  ultimately show "pool_safe p {}" "rp_block_size p = block_size" "length (rp_mem_pool p) = mem_size"
    using assms by (auto simp: PointerRingPool_new_def Let_def pool_safe_def idle_def block_ok_def inj_on_def)
qed

lemma rp_allocate_safe:
  assumes s: "pool_safe p used" and a: "rp_allocate p = Some (r, p')"
  shows "pool_safe p' (set_option r \<union> used)" and "set_option r \<inter> used = {}"
    and "rp_mem_pool p' = rp_mem_pool p" and "rp_block_size p' = rp_block_size p" and "rp_block_count p' = rp_block_count p"
proof -
  let ?pos = "rp_alloPos p mod rp_block_count p"
  have l: "0 < rp_block_count p" "length (rp_blocks p) = rp_block_count p" "length (rp_signal p) = rp_block_count p"
    using s by (simp_all add: pool_safe_def)
  have pos: "?pos < rp_block_count p" using l(1) by simp
  have "pool_safe p' (set_option r \<union> used) \<and> set_option r \<inter> used = {} \<and>
        rp_mem_pool p' = rp_mem_pool p \<and> rp_block_size p' = rp_block_size p \<and> rp_block_count p' = rp_block_count p"
  proof (cases "rp_signal p ! ?pos")
    case True
    then have e: "r = Some (rp_blocks p ! ?pos)"
      "p' = p\<lparr>rp_alloPos := add64 (rp_alloPos p) 1, rp_signal := (rp_signal p)[?pos := False]\<rparr>"
      using a l pos by (auto simp: rp_allocate_def Let_def vec_get_in vec_set_in)
    have i: "idle p' = idle p - {?pos}" and m: "?pos \<in> idle p"
      using True pos l by (auto simp: idle_def e(2) nth_list_update)
    have "rp_blocks p ! ?pos \<notin> used" using s m by (auto simp: pool_safe_def)
    moreover have "rp_blocks p ! ?pos \<notin> (\<lambda>i. rp_blocks p ! i) ` (idle p - {?pos})"
      using s m unfolding pool_safe_def inj_on_def by blast
    ultimately show "pool_safe p' (set_option r \<union> used) \<and> set_option r \<inter> used = {} \<and>
        rp_mem_pool p' = rp_mem_pool p \<and> rp_block_size p' = rp_block_size p \<and> rp_block_count p' = rp_block_count p"
      using s m unfolding pool_safe_def i by (auto simp: e block_ok_def intro: inj_on_diff)
  next
    case False
    then have e: "r = None" "p' = p\<lparr>rp_alloPos := add64 (rp_alloPos p) 1\<rparr>"
      using a l pos by (auto simp: rp_allocate_def Let_def vec_get_in)
    have "idle p' = idle p" by (simp add: idle_def e(2))
    then show "pool_safe p' (set_option r \<union> used) \<and> set_option r \<inter> used = {} \<and>
        rp_mem_pool p' = rp_mem_pool p \<and> rp_block_size p' = rp_block_size p \<and> rp_block_count p' = rp_block_count p"
      using s by (simp add: pool_safe_def e block_ok_def)
  qed
  then show "pool_safe p' (set_option r \<union> used)" "set_option r \<inter> used = {}"
    "rp_mem_pool p' = rp_mem_pool p" "rp_block_size p' = rp_block_size p" "rp_block_count p' = rp_block_count p" by simp_all
qed

lemma rp_free_safe:
  assumes s: "pool_safe p used" and b: "b \<in> used" and f: "rp_free p (Some b) = Some (ok, p')"
  shows "pool_safe p' (used - {b})" and "rp_mem_pool p' = rp_mem_pool p" and "rp_block_size p' = rp_block_size p"
proof -
  let ?pos = "rp_freePos p mod rp_block_count p"
  have l: "0 < rp_block_count p" "length (rp_blocks p) = rp_block_count p" "length (rp_signal p) = rp_block_count p"
    using s by (simp_all add: pool_safe_def)
  have pos: "?pos < rp_block_count p" using l(1) by simp
  have "pool_safe p' (used - {b}) \<and> rp_mem_pool p' = rp_mem_pool p \<and> rp_block_size p' = rp_block_size p"
  proof (cases "rp_signal p ! ?pos")
    case True
    then have e: "p' = p\<lparr>rp_freePos := add64 (rp_freePos p) 1\<rparr>"
      using f l pos by (auto simp: rp_free_def Let_def vec_get_in)
    have "idle p' = idle p" by (simp add: idle_def e)
    then show "pool_safe p' (used - {b}) \<and> rp_mem_pool p' = rp_mem_pool p \<and> rp_block_size p' = rp_block_size p"
      using s by (auto simp: pool_safe_def e block_ok_def)
  next
    case False
    then have e: "p' = p\<lparr>rp_freePos := add64 (rp_freePos p) 1, rp_blocks := (rp_blocks p)[?pos := b],
        rp_signal := (rp_signal p)[?pos := True]\<rparr>"
      using f l pos by (auto simp: rp_free_def Let_def vec_get_in vec_set_in)
    have i: "idle p' = insert ?pos (idle p)" "?pos \<notin> idle p"
      using False pos l by (auto simp: idle_def e nth_list_update)
    have at: "rp_blocks p' ! k = (if k = ?pos then b else rp_blocks p ! k)" if "k \<in> idle p'" for k
      using that pos l by (auto simp: e nth_list_update)
    have "b \<notin> (\<lambda>i. rp_blocks p ! i) ` idle p" "block_ok p b" using s b by (auto simp: pool_safe_def)
    then have "inj_on (\<lambda>k. rp_blocks p' ! k) (idle p')" "(\<lambda>k. rp_blocks p' ! k) ` idle p' = insert b ((\<lambda>i. rp_blocks p ! i) ` idle p)"
      using s i(2) at unfolding i(1) by (auto simp: pool_safe_def inj_on_def image_iff)
    moreover have fields: "rp_block_count p' = rp_block_count p" "rp_block_size p' = rp_block_size p"
      "rp_mem_pool p' = rp_mem_pool p" "length (rp_blocks p') = rp_block_count p" "length (rp_signal p') = rp_block_count p"
      using l by (simp_all add: e)
    moreover have "\<forall>k \<in> idle p'. block_ok p' (rp_blocks p' ! k)"
    proof
      fix k assume k: "k \<in> idle p'"
      show "block_ok p' (rp_blocks p' ! k)"
        using at [OF k] k s \<open>block_ok p b\<close> by (auto simp: i(1) pool_safe_def block_ok_def fields split: if_split_asm)
    qed
    moreover have "\<forall>c \<in> used - {b}. block_ok p' c" using s by (auto simp: pool_safe_def block_ok_def fields)
    ultimately show "pool_safe p' (used - {b}) \<and> rp_mem_pool p' = rp_mem_pool p \<and> rp_block_size p' = rp_block_size p"
      using s by (auto simp: pool_safe_def)
  qed
  then show "pool_safe p' (used - {b})" "rp_mem_pool p' = rp_mem_pool p" "rp_block_size p' = rp_block_size p" by simp_all
qed

lemma pool_calls_defined:
  assumes "pool_safe p used"
  shows "rp_allocate p \<noteq> None" and "rp_free p block \<noteq> None"
proof -
  have l: "0 < rp_block_count p" "length (rp_blocks p) = rp_block_count p" "length (rp_signal p) = rp_block_count p"
    using assms by (simp_all add: pool_safe_def)
  have pos: "n mod rp_block_count p < rp_block_count p" for n using l(1) by simp
  show "rp_allocate p \<noteq> None" using l pos by (simp add: rp_allocate_def Let_def vec_get_in vec_set_in)
  show "rp_free p block \<noteq> None" using l pos by (cases block) (auto simp: rp_free_def Let_def vec_get_in vec_set_in)
qed

lemma allocate_wait_safe:
  assumes "pool_safe p used" and "allocate_wait p = Some (b, p')"
  shows "pool_safe p' (insert b used)" and "b \<notin> used" and "block_ok p b"
    and "rp_mem_pool p' = rp_mem_pool p" and "rp_block_size p' = rp_block_size p"
proof -
  have "pool_safe p' (insert b used) \<and> b \<notin> used \<and> rp_mem_pool p' = rp_mem_pool p \<and> rp_block_size p' = rp_block_size p"
    if "pool_safe q used" "allocate_try n q = Some (b, p')" "rp_mem_pool q = rp_mem_pool p" "rp_block_size q = rp_block_size p" for n q
    using that
  proof (induction n arbitrary: q)
    case (Suc n)
    then obtain r q' where a: "rp_allocate q = Some (r, q')" by (auto simp: bind_eq_Some_conv)
    note s = rp_allocate_safe [OF Suc.prems(1) a]
    show ?case
    proof (cases r)
      case None
      then show ?thesis using Suc.IH [of q'] Suc.prems s a by simp
    next
      case (Some x)
      then show ?thesis using Suc.prems s a by simp
    qed
  qed simp
  from this [OF assms(1) assms(2) [unfolded allocate_wait_def]]
  show "pool_safe p' (insert b used)" "b \<notin> used" "rp_mem_pool p' = rp_mem_pool p" "rp_block_size p' = rp_block_size p" by auto
  then show "block_ok p b" by (auto simp: pool_safe_def block_ok_def)
qed

text \<open>As long as a slot is idle the loop of the callers ends: it comes to every slot.\<close>

lemma rp_allocate_idle:
  assumes s: "pool_safe p used"
  shows "if rp_alloPos p mod rp_block_count p \<in> idle p
    then \<exists>b p'. rp_allocate p = Some (Some b, p') \<and> idle p' = idle p - {rp_alloPos p mod rp_block_count p} \<and>
      rp_block_count p' = rp_block_count p
    else \<exists>p'. rp_allocate p = Some (None, p') \<and> idle p' = idle p \<and> rp_block_count p' = rp_block_count p \<and>
      rp_alloPos p' = add64 (rp_alloPos p) 1"
proof -
  have l: "0 < rp_block_count p" "length (rp_blocks p) = rp_block_count p" "length (rp_signal p) = rp_block_count p"
    using s by (simp_all add: pool_safe_def)
  have pos: "rp_alloPos p mod rp_block_count p < rp_block_count p" using l(1) by simp
  show ?thesis
  proof (cases "rp_signal p ! (rp_alloPos p mod rp_block_count p)")
    case True
    then have "rp_alloPos p mod rp_block_count p \<in> idle p" using pos by (simp add: idle_def)
    with True l pos show ?thesis
      by (auto simp: rp_allocate_def Let_def vec_get_in vec_set_in idle_def nth_list_update)
  next
    case False
    with l pos show ?thesis by (auto simp: rp_allocate_def Let_def vec_get_in idle_def)
  qed
qed

lemma allocate_wait_total:
  assumes s: "pool_safe p used" and c: "rp_block_count p dvd U64" and i: "idle p \<noteq> {}"
  shows "\<exists>b p'. allocate_wait p = Some (b, p') \<and> card (idle p') + 1 = card (idle p) \<and> rp_block_count p' = rp_block_count p"
proof -
  let ?c = "rp_block_count p"
  have fin: "finite (idle p)" by (simp add: idle_def)
  have "\<exists>b p'. allocate_try n q = Some (b, p') \<and> card (idle p') + 1 = card (idle p) \<and> rp_block_count p' = ?c"
    if "pool_safe q used" "rp_block_count q = ?c" "idle q = idle p" "k < n" "(rp_alloPos q + k) mod ?c \<in> idle p" for q n k
    using that
  proof (induction n arbitrary: q k)
    case (Suc n)
    note step = rp_allocate_idle [OF Suc.prems(1), unfolded Suc.prems(2,3)]
    show ?case
    proof (cases "rp_alloPos q mod ?c \<in> idle p")
      case True
      from step True obtain b q' where "rp_allocate q = Some (Some b, q')" "idle q' = idle p - {rp_alloPos q mod ?c}"
        "rp_block_count q' = ?c" by auto
      moreover have "card (idle p - {rp_alloPos q mod ?c}) + 1 = card (idle p)"
        using True fin card_Suc_Diff1 [OF fin True] by (simp add: One_nat_def)
      ultimately show ?thesis by simp
    next
      case False
      from step False obtain q' where q: "rp_allocate q = Some (None, q')" "idle q' = idle p" "rp_block_count q' = ?c"
        "rp_alloPos q' = add64 (rp_alloPos q) 1" by auto
      have "k \<noteq> 0" using False Suc.prems(5) by (metis add.right_neutral)
      have "(add64 (rp_alloPos q) 1 + (k - 1)) mod ?c = (rp_alloPos q + k) mod ?c"
      proof -
        have "(add64 (rp_alloPos q) 1 + (k - 1)) mod ?c = (add64 (rp_alloPos q) 1 mod ?c + (k - 1)) mod ?c" by (simp add: mod_simps)
        also have "\<dots> = (rp_alloPos q + 1 + (k - 1)) mod ?c" unfolding add64_mod [OF c] by (simp add: mod_simps)
        finally show ?thesis using \<open>k \<noteq> 0\<close> by simp
      qed
      moreover have "pool_safe q' used" using rp_allocate_safe(1) [OF Suc.prems(1) q(1)] by simp
      ultimately show ?thesis using Suc.IH [of q' "k - 1"] Suc.prems(4,5) q \<open>k \<noteq> 0\<close> by simp
    qed
  qed simp
  moreover obtain j where j: "j \<in> idle p" using i by blast
  moreover have "j < ?c" using j by (simp add: idle_def)
  then have "(rp_alloPos p + (j + (?c - rp_alloPos p mod ?c)) mod ?c) mod ?c = j"
  proof -
    have "(rp_alloPos p + (j + (?c - rp_alloPos p mod ?c)) mod ?c) mod ?c = (rp_alloPos p mod ?c + (j + (?c - rp_alloPos p mod ?c))) mod ?c"
      by (simp add: mod_simps)
    also have "rp_alloPos p mod ?c + (j + (?c - rp_alloPos p mod ?c)) = j + ?c"
      using mod_less_divisor [of ?c "rp_alloPos p"] \<open>j < ?c\<close> by linarith
    finally show ?thesis using \<open>j < ?c\<close> by simp
  qed
  moreover have "(j + (?c - rp_alloPos p mod ?c)) mod ?c < ?c" using \<open>j < ?c\<close> by simp
  ultimately show ?thesis using s unfolding allocate_wait_def by metis
qed

text \<open>A history of one user of the pool: taking a block, or giving back the \<open>n\<close>-th of those held.\<close>

datatype pool_use = Take | Give nat

fun use_pool :: "pool_use list \<Rightarrow> PointerRingPool \<Rightarrow> nat list \<Rightarrow> (PointerRingPool \<times> nat list) option" where
  "use_pool [] p held = Some (p, held)"
| "use_pool (Take # us) p held = do {
     (r, p') \<leftarrow> rp_allocate p;
     use_pool us p' (case r of None \<Rightarrow> held | Some b \<Rightarrow> b # held) }"
| "use_pool (Give n # us) p held =
     (if n < length held
      then do { (ok, p') \<leftarrow> rp_free p (Some (held ! n)); use_pool us p' (take n held @ drop (Suc n) held) }
      else use_pool us p held)"

lemma use_pool_safe:
  assumes "pool_safe p (set held)" and "distinct held"
  shows "\<exists>p' held'. use_pool us p held = Some (p', held') \<and> pool_safe p' (set held') \<and> distinct held' \<and>
    rp_mem_pool p' = rp_mem_pool p \<and> rp_block_size p' = rp_block_size p"
  using assms
proof (induction us arbitrary: p held)
  case (Cons u us)
  show ?case
  proof (cases u)
    case Take
    from pool_calls_defined(1) [OF Cons.prems(1)] obtain r q where q: "rp_allocate p = Some (r, q)" by auto
    note s = rp_allocate_safe [OF Cons.prems(1) q]
    have "pool_safe q (set (case r of None \<Rightarrow> held | Some b \<Rightarrow> b # held))" "distinct (case r of None \<Rightarrow> held | Some b \<Rightarrow> b # held)"
      using s(1,2) Cons.prems(2) by (cases r; simp)+
    from Cons.IH [OF this] show ?thesis using Take q s(3,4) by simp
  next
    case (Give n)
    show ?thesis
    proof (cases "n < length held")
      case True
      from pool_calls_defined(2) [OF Cons.prems(1)] obtain ok q where q: "rp_free p (Some (held ! n)) = Some (ok, q)" by fastforce
      note s = rp_free_safe [OF Cons.prems(1) _ q]
      have h: "held = take n held @ held ! n # drop (Suc n) held" by (rule id_take_nth_drop [OF True])
      then have "distinct (take n held @ held ! n # drop (Suc n) held)" using Cons.prems(2) by simp
      then have d: "distinct (take n held @ drop (Suc n) held)" "set held - {held ! n} = set (take n held @ drop (Suc n) held)"
        by (simp, subst h, auto)
      have "held ! n \<in> set held" using True by simp
      with s d(2) have k: "pool_safe q (set (take n held @ drop (Suc n) held))" "rp_mem_pool q = rp_mem_pool p"
        "rp_block_size q = rp_block_size p" by auto
      from Cons.IH [OF k(1) d(1)] show ?thesis using Give True q k(2,3) by simp
    next
      case False
      then show ?thesis using Give Cons by simp
    qed
  qed
qed simp

section \<open>Properties\<close>

text \<open>C35: the pool never hands out a block that is still held. For every history of taking and giving back,
  also when allocations failed or a block given back was refused, the blocks held are all
  different, aligned and inside the memory; no call is undefined.\<close>

theorem pool_blocks_disjoint:
  assumes "PointerRingPool_new (Some m) mem_size block_size = Some (Inr p)" and "isPowerOfTwo (mem_size div block_size)"
    and "0 < block_size" and "block_size \<le> mem_size" and "length m = mem_size"
  shows "\<exists>p' held. use_pool us p [] = Some (p', held) \<and> distinct held \<and>
    (\<forall>b \<in> set held. block_size dvd b \<and> b + block_size \<le> mem_size)"
proof -
  note n = pool_new_safe [OF assms]
  from use_pool_safe [of p "[]" us] n show ?thesis by (fastforce simp: pool_safe_def block_ok_def)
qed

lemma pool_blocks_disjoint_witness:
  "\<exists>p. PointerRingPool_new (Some (replicate 32 0)) 32 8 = Some (Inr p) \<and>
     (\<exists>p' held. use_pool [Take, Take, Give 1, Take, Take, Take] p [] = Some (p', held) \<and> distinct held \<and>
       (\<forall>b \<in> set held. 8 dvd b \<and> b + 8 \<le> 32))"
proof -
  obtain p where p: "PointerRingPool_new (Some (replicate 32 0)) 32 8 = Some (Inr p)"
    by (simp add: PointerRingPool_new_def isPowerOfTwo_def)
  moreover have "isPowerOfTwo (32 div 8)" by (simp add: isPowerOfTwo_def)
  ultimately show ?thesis
    using pool_blocks_disjoint [of "replicate 32 0" 32 8 p "[Take, Take, Give 1, Take, Take, Take]"] by simp
qed

end
