(* ===== verification/FlosisBuffers.thy ===== *)
theory FlosisBuffers
  imports RingPools FlowAggregate
begin

text \<open>
  The buffers of the baseline in \<^verbatim>\<open>baseline/flosis/lib\<close>: an aggregate (\<^verbatim>\<open>aggBuffer.hpp\<close>) is a list of
  blocks of the common pool that is written at its end, a flow buffer (\<^verbatim>\<open>flowbuffer.hpp\<close>) keeps the
  packets of a flow as five aggregates, one for each column, and a write buffer (\<^verbatim>\<open>wbuffer.hpp\<close>)
  collects finished aggregates into blocks for the dumper. The lists of chunks belong to one aggregate
  and are lists of block addresses here; the bytes lie in the memory of the pool.
\<close>

declare One_nat_def [simp del]

section \<open>Aggregates\<close>

record AggBuffer =
  ag_chunks :: "nat list"
  ag_block_len :: nat
  ag_total_len :: nat

definition AggBuffer_new :: "PointerRingPool \<Rightarrow> (AggBuffer \<times> PointerRingPool) option" where
  "AggBuffer_new p = do {
     (block, p') \<leftarrow> allocate_wait p;
     Some (\<lparr>ag_chunks = [block], ag_block_len = rp_block_size p', ag_total_len = 0\<rparr>, p') }"

definition pool_write :: "PointerRingPool \<Rightarrow> nat \<Rightarrow> bytes \<Rightarrow> PointerRingPool option" where
  "pool_write p pos bs = do { m \<leftarrow> mwrite (rp_mem_pool p) pos bs; Some (p\<lparr>rp_mem_pool := m\<rparr>) }"

definition ag_write :: "PointerRingPool \<Rightarrow> AggBuffer \<Rightarrow> bytes \<Rightarrow> (bool \<times> AggBuffer \<times> PointerRingPool) option" where
  "ag_write p b bs =
     (if ag_block_len b = 0 \<or> ag_chunks b = [] then None
      else
        let len = length bs; write_pos = ag_total_len b mod ag_block_len b; tail = last (ag_chunks b)
        in if add64 write_pos len < ag_block_len b
           then do {
             p \<leftarrow> pool_write p (tail + write_pos) bs;
             Some (True, b\<lparr>ag_total_len := add64 (ag_total_len b) len\<rparr>, p) }
           else do {
             p \<leftarrow> pool_write p (tail + write_pos) (take (ag_block_len b - write_pos) bs);
             (block, p) \<leftarrow> allocate_wait p;
             p \<leftarrow> (if add64 write_pos len \<noteq> ag_block_len b
               then pool_write p block (drop (ag_block_len b - write_pos) bs) else Some p);
             Some (True, b\<lparr>ag_chunks := ag_chunks b @ [block], ag_total_len := add64 (ag_total_len b) len\<rparr>, p) })"

fun ag_delete :: "PointerRingPool \<Rightarrow> nat list \<Rightarrow> PointerRingPool option" where
  "ag_delete p [] = Some p"
| "ag_delete p (c # cs) = do { (ok, p') \<leftarrow> rp_free p (Some c); ag_delete p' cs }"

text \<open>Every chunk is copied to the start of the destination.\<close>

fun ag_output_loop :: "PointerRingPool \<Rightarrow> nat \<Rightarrow> nat list \<Rightarrow> nat \<Rightarrow> bytes \<Rightarrow> bytes option" where
  "ag_output_loop p block_len [] remaining dest = Some dest"
| "ag_output_loop p block_len (c # cs) remaining dest =
     (if remaining = 0 then Some dest
      else do {
        let to_write = (if remaining < block_len then remaining else block_len);
        bs \<leftarrow> mread (rp_mem_pool p) c to_write;
        dest' \<leftarrow> mwrite dest 0 bs;
        ag_output_loop p block_len cs (remaining - to_write) dest' })"

definition ag_output :: "PointerRingPool \<Rightarrow> AggBuffer \<Rightarrow> bytes \<Rightarrow> bytes option" where
  "ag_output p b dest = ag_output_loop p (ag_block_len b) (ag_chunks b) (ag_total_len b) dest"

section \<open>What an aggregate holds\<close>

definition block_at :: "PointerRingPool \<Rightarrow> nat \<Rightarrow> bytes" where
  "block_at p c = take (rp_block_size p) (drop c (rp_mem_pool p))"

definition content :: "PointerRingPool \<Rightarrow> AggBuffer \<Rightarrow> bytes" where
  "content p b = take (ag_total_len b) (concat (map (block_at p) (ag_chunks b)))"

definition agg_ok :: "PointerRingPool \<Rightarrow> AggBuffer \<Rightarrow> bool" where
  "agg_ok p b \<longleftrightarrow> 0 < rp_block_size p \<and> 2 * rp_block_size p \<le> U64 \<and> ag_block_len b = rp_block_size p \<and>
     length (ag_chunks b) = ag_total_len b div rp_block_size p + 1 \<and> distinct (ag_chunks b) \<and>
     (\<forall>c \<in> set (ag_chunks b). block_ok p c) \<and> ag_total_len b < U64"

lemma length_block_at: "block_ok p c \<Longrightarrow> length (block_at p c) = rp_block_size p"
  by (auto simp: block_ok_def block_at_def)

lemma block_apart:
  assumes "block_ok p c" and "block_ok p d" and "c \<noteq> d"
  shows "c + rp_block_size p \<le> d \<or> d + rp_block_size p \<le> c"
proof -
  let ?s = "rp_block_size p"
  obtain i where i: "c = i * ?s" using assms(1) unfolding block_ok_def by (metis dvdE mult.commute)
  obtain j where j: "d = j * ?s" using assms(2) unfolding block_ok_def by (metis dvdE mult.commute)
  note ij = i j
  have "Suc i \<le> j \<or> Suc j \<le> i" using assms(3) ij by (cases i j rule: linorder_cases) auto
  then have "Suc i * ?s \<le> j * ?s \<or> Suc j * ?s \<le> i * ?s" using mult_le_mono1 by blast
  then show ?thesis by (simp add: ij add.commute)
qed

lemma pool_write_block:
  assumes b: "block_ok p c" and l: "off + length bs \<le> rp_block_size p"
  shows "\<exists>p'. pool_write p (c + off) bs = Some p' \<and> (\<exists>m. p' = p\<lparr>rp_mem_pool := m\<rparr> \<and> length m = length (rp_mem_pool p)) \<and>
    block_at p' c = take off (block_at p c) @ bs @ drop (off + length bs) (block_at p c) \<and>
    (\<forall>d. block_ok p d \<longrightarrow> d \<noteq> c \<longrightarrow> block_at p' d = block_at p d)"
proof -
  let ?m = "rp_mem_pool p" and ?s = "rp_block_size p"
  have c: "c + ?s \<le> length ?m" using b by (simp add: block_ok_def)
  then have "c + off + length bs \<le> length ?m" using l by simp
  then obtain m' where m: "mwrite ?m (c + off) bs = Some m'" by (simp add: mwrite_def)
  have len: "length m' = length ?m" by (rule mwrite_length [OF m])
  have "take ?s (drop c m') = take off (take ?s (drop c ?m)) @ bs @ drop (off + length bs) (take ?s (drop c ?m))"
  proof (rule nth_equalityI)
    fix i assume "i < length (take ?s (drop c m'))"
    then have i: "i < ?s" "c + i < length ?m" using len by auto
    then show "take ?s (drop c m') ! i = (take off (take ?s (drop c ?m)) @ bs @ drop (off + length bs) (take ?s (drop c ?m))) ! i"
      using mwrite_nth [OF m i(2)] l len c by (auto simp: nth_append min_def drop_take)
  qed (use c l len in auto)
  moreover have "take ?s (drop d m') = take ?s (drop d ?m)" if "block_ok p d" "d \<noteq> c" for d
  proof -
    have d: "d + ?s \<le> c + off \<or> c + off + length bs \<le> d" using block_apart [OF b that(1)] that(2) l by auto
    have "mread m' d ?s = mread ?m d ?s" by (rule mread_mwrite_disjoint [OF m d])
    then show ?thesis using that(1) len by (auto simp: mread_def block_ok_def)
  qed
  ultimately show ?thesis using m len by (auto simp: pool_write_def block_at_def)
qed

lemma block_ok_same: "rp_block_size p' = rp_block_size p \<Longrightarrow> length (rp_mem_pool p') = length (rp_mem_pool p) \<Longrightarrow>
    block_ok p' c = block_ok p c"
  by (simp add: block_ok_def)

lemma concat_blocks_length: "\<forall>c \<in> set cs. block_ok p c \<Longrightarrow> length (concat (map (block_at p) cs)) = length cs * rp_block_size p"
  by (induction cs) (simp_all add: length_block_at)

text \<open>The content of an aggregate: all blocks but the last one, and the filled part of the last one.\<close>

lemma content_split:
  assumes "agg_ok p b"
  obtains cs t where "ag_chunks b = cs @ [t]" and "t \<notin> set cs" and "length cs = ag_total_len b div rp_block_size p"
    and "content p b = concat (map (block_at p) cs) @ take (ag_total_len b mod rp_block_size p) (block_at p t)"
proof -
  let ?s = "rp_block_size p" and ?n = "ag_total_len b"
  have "length (ag_chunks b) = ?n div ?s + 1" using assms by (simp add: agg_ok_def)
  then obtain cs t where c: "ag_chunks b = cs @ [t]" by (cases "ag_chunks b" rule: rev_exhaust) auto
  have l: "length cs = ?n div ?s" using assms c by (simp add: agg_ok_def)
  have "length (concat (map (block_at p) cs)) = ?n div ?s * ?s"
    using concat_blocks_length [of cs p] assms c l by (simp add: agg_ok_def)
  then have "content p b = concat (map (block_at p) cs) @ take (?n mod ?s) (block_at p t)"
    by (simp add: content_def c minus_div_mult_eq_mod)
  with that c l assms show thesis by (auto simp: agg_ok_def)
qed

lemma content_cong:
  assumes "agg_ok p b" and "rp_block_size p' = rp_block_size p" and "length (rp_mem_pool p') = length (rp_mem_pool p)"
    and "\<forall>c \<in> set (ag_chunks b). block_at p' c = block_at p c"
  shows "agg_ok p' b" and "content p' b = content p b"
  using assms by (auto simp: agg_ok_def content_def block_ok_def cong: map_cong)

section \<open>Writing appends\<close>

text \<open>How a step of one aggregate changes the pool: more blocks are in use, the others stay as they are.\<close>

definition pool_grows :: "PointerRingPool \<Rightarrow> nat set \<Rightarrow> PointerRingPool \<Rightarrow> nat set \<Rightarrow> nat \<Rightarrow> bool" where
  "pool_grows p used p' used' n \<longleftrightarrow> pool_safe p' used' \<and> used \<subseteq> used' \<and> rp_block_size p' = rp_block_size p \<and>
     length (rp_mem_pool p') = length (rp_mem_pool p) \<and> rp_block_count p' = rp_block_count p \<and>
     card (idle p) \<le> card (idle p') + n"

lemma pool_grows_trans:
  "pool_grows p u p' u' n \<Longrightarrow> pool_grows p' u' p'' u'' m \<Longrightarrow> pool_grows p u p'' u'' (n + m)"
  by (auto simp: pool_grows_def)

lemma pool_write_safe:
  assumes "pool_safe p used" and "p' = p\<lparr>rp_mem_pool := m\<rparr>" and "length m = length (rp_mem_pool p)"
  shows "pool_grows p used p' used 0"
  using assms by (auto simp: pool_grows_def pool_safe_def idle_def block_ok_def inj_on_def)

lemma allocate_grows:
  assumes s: "pool_safe p used" and c: "rp_block_count p dvd U64" and i: "idle p \<noteq> {}"
  shows "\<exists>b p'. allocate_wait p = Some (b, p') \<and> b \<notin> used \<and> block_ok p' b \<and> pool_grows p used p' (insert b used) 1 \<and>
    rp_mem_pool p' = rp_mem_pool p"
proof -
  from allocate_wait_total [OF assms] obtain b p' where a: "allocate_wait p = Some (b, p')" "card (idle p') + 1 = card (idle p)"
    "rp_block_count p' = rp_block_count p" by blast
  note f = allocate_wait_safe [OF s a(1)]
  have "block_ok p' b" using f(3-5) by (simp add: block_ok_def)
  then show ?thesis using a f by (auto simp: pool_grows_def)
qed

lemma block_at_same: "rp_mem_pool p' = rp_mem_pool p \<Longrightarrow> rp_block_size p' = rp_block_size p \<Longrightarrow> block_at p' c = block_at p c"
  by (simp add: block_at_def)

text \<open>The data fits behind the end of the last block.\<close>

lemma ag_write_inside:
  assumes s: "pool_safe p used" and ok: "agg_ok p b" and sub: "set (ag_chunks b) \<subseteq> used"
    and fits: "ag_total_len b mod rp_block_size p + length bs < rp_block_size p" and tot: "ag_total_len b + length bs < U64"
  shows "\<exists>b' p'. ag_write p b bs = Some (True, b', p') \<and> pool_grows p used p' used 0 \<and> agg_ok p' b' \<and>
    ag_chunks b' = ag_chunks b \<and> content p' b' = content p b @ bs \<and> ag_total_len b' = ag_total_len b + length bs \<and>
    (\<forall>c \<in> used - set (ag_chunks b). block_at p' c = block_at p c)"
proof -
  let ?s = "rp_block_size p" and ?n = "ag_total_len b"
  let ?r = "?n mod ?s"
  from content_split [OF ok] obtain cs t where c: "ag_chunks b = cs @ [t]" "t \<notin> set cs" "length cs = ?n div ?s"
    "content p b = concat (map (block_at p) cs) @ take ?r (block_at p t)" by blast
  have a: "0 < ?s" "2 * ?s \<le> U64" "ag_block_len b = ?s" "\<forall>c \<in> set (ag_chunks b). block_ok p c" "distinct (ag_chunks b)"
    "length (ag_chunks b) = ?n div ?s + 1"
    using ok by (simp_all add: agg_ok_def)
  have used: "\<forall>c \<in> used. block_ok p c" using s by (simp add: pool_safe_def)
  have t: "block_ok p t" using a(4) c(1) by simp
  have "?r + length bs \<le> ?s" using fits by simp
  from pool_write_block [OF t this] obtain p' m where p: "pool_write p (t + ?r) bs = Some p'" "p' = p\<lparr>rp_mem_pool := m\<rparr>"
    "length m = length (rp_mem_pool p)" "block_at p' t = take ?r (block_at p t) @ bs @ drop (?r + length bs) (block_at p t)"
    "\<forall>d. block_ok p d \<longrightarrow> d \<noteq> t \<longrightarrow> block_at p' d = block_at p d" by blast
  let ?b = "b\<lparr>ag_total_len := ?n + length bs\<rparr>"
  have "?r + length bs < U64" using fits a(2) by linarith
  then have w: "ag_write p b bs = Some (True, ?b, p')"
    using fits a(1,3) c(1) p(1) tot by (simp add: ag_write_def Let_def add64_small)
  have e: "?n + length bs = ?n div ?s * ?s + (?r + length bs)" by simp
  have "(?n div ?s * ?s + (?r + length bs)) div ?s = ?n div ?s" using fits a(1) by (subst div_mult_self3) simp_all
  then have d: "(?n + length bs) div ?s = ?n div ?s" by (simp only: e [symmetric])
  have md: "(?n + length bs) mod ?s = ?r + length bs" using mod_add_left_eq [of ?n ?s "length bs"] fits by simp
  have ok': "agg_ok p' ?b"
    using a tot d p(2,3) by (simp add: agg_ok_def block_ok_def)
  from content_split [OF ok'] obtain cs' t' where c': "ag_chunks ?b = cs' @ [t']"
    "content p' ?b = concat (map (block_at p') cs') @ take (ag_total_len ?b mod rp_block_size p') (block_at p' t')" by blast
  have e': "cs' = cs" "t' = t" using c'(1) c(1) by simp_all
  have old: "map (block_at p') cs = map (block_at p) cs" using p(5) a(4) c(1,2) by auto
  have new: "take (?r + length bs) (block_at p' t) = take ?r (block_at p t) @ bs"
  proof -
    have "length (take ?r (block_at p t)) = ?r" using length_block_at [OF t] a(1) by simp
    then show ?thesis unfolding p(4) by simp
  qed
  have "ag_total_len ?b mod rp_block_size p' = ?r + length bs" using p(2) md by simp
  then have "content p' ?b = content p b @ bs"
    unfolding c'(2) c(4) e' old by (simp only: new append_assoc)
  moreover have "pool_grows p used p' used 0" by (rule pool_write_safe [OF s p(2,3)])
  moreover have "\<forall>c \<in> used - set (ag_chunks b). block_at p' c = block_at p c" using p(5) used c(1) by auto
  ultimately show ?thesis using w ok' by simp
qed

text \<open>The data reaches the end of the block: its rest goes to a new block.\<close>

lemma ag_write_crossing:
  assumes s: "pool_safe p used" and dvd: "rp_block_count p dvd U64" and idle: "idle p \<noteq> {}"
    and ok: "agg_ok p b" and sub: "set (ag_chunks b) \<subseteq> used" and small: "length bs \<le> rp_block_size p"
    and over: "rp_block_size p \<le> ag_total_len b mod rp_block_size p + length bs" and tot: "ag_total_len b + length bs < U64"
  shows "\<exists>b' p' k. ag_write p b bs = Some (True, b', p') \<and> k \<notin> used \<and> pool_grows p used p' (insert k used) 1 \<and> agg_ok p' b' \<and>
    ag_chunks b' = ag_chunks b @ [k] \<and> content p' b' = content p b @ bs \<and> ag_total_len b' = ag_total_len b + length bs \<and>
    (\<forall>c \<in> used - set (ag_chunks b). block_at p' c = block_at p c)"
proof -
  let ?s = "rp_block_size p" and ?n = "ag_total_len b"
  let ?r = "?n mod ?s"
  let ?fst = "take (?s - ?r) bs" and ?snd = "drop (?s - ?r) bs"
  from content_split [OF ok] obtain cs t where c: "ag_chunks b = cs @ [t]" "t \<notin> set cs" "length cs = ?n div ?s"
    "content p b = concat (map (block_at p) cs) @ take ?r (block_at p t)" by blast
  have a: "0 < ?s" "2 * ?s \<le> U64" "ag_block_len b = ?s" "\<forall>c \<in> set (ag_chunks b). block_ok p c" "distinct (ag_chunks b)"
    "length (ag_chunks b) = ?n div ?s + 1"
    using ok by (simp_all add: agg_ok_def)
  have used: "\<forall>c \<in> used. block_ok p c" using s by (simp add: pool_safe_def)
  have t: "block_ok p t" "t \<in> used" using a(4) c(1) sub by auto
  have r: "?r < ?s" using a(1) by simp
  have lf: "length ?fst = ?s - ?r" using over by simp
  have "?r + length ?fst \<le> ?s" using lf r by simp
  from pool_write_block [OF t(1) this] obtain p1 m where p1: "pool_write p (t + ?r) ?fst = Some p1" "p1 = p\<lparr>rp_mem_pool := m\<rparr>"
    "length m = length (rp_mem_pool p)" "block_at p1 t = take ?r (block_at p t) @ ?fst @ drop (?r + length ?fst) (block_at p t)"
    "\<forall>d. block_ok p d \<longrightarrow> d \<noteq> t \<longrightarrow> block_at p1 d = block_at p d" by blast
  have g1: "pool_grows p used p1 used 0" by (rule pool_write_safe [OF s p1(2,3)])
  have s1: "pool_safe p1 used" "rp_block_count p1 dvd U64" "idle p1 \<noteq> {}"
    using g1 dvd idle p1(2) by (auto simp: pool_grows_def idle_def)
  from allocate_grows [OF s1] obtain k p2 where p2: "allocate_wait p1 = Some (k, p2)" "k \<notin> used" "block_ok p2 k"
    "pool_grows p1 used p2 (insert k used) 1" "rp_mem_pool p2 = rp_mem_pool p1" by blast
  have sz: "rp_block_size p1 = ?s" "rp_block_size p2 = ?s" using g1 p2(4) by (simp_all add: pool_grows_def)
  have at2: "block_at p2 d = block_at p1 d" for d by (rule block_at_same) (use p2(5) sz in simp_all)
  have ls: "0 + length ?snd \<le> rp_block_size p2" using small r sz by simp
  from pool_write_block [OF p2(3) ls] obtain p3 m3 where p3: "pool_write p2 (k + 0) ?snd = Some p3" "p3 = p2\<lparr>rp_mem_pool := m3\<rparr>"
    "length m3 = length (rp_mem_pool p2)" "block_at p3 k = take 0 (block_at p2 k) @ ?snd @ drop (0 + length ?snd) (block_at p2 k)"
    "\<forall>d. block_ok p2 d \<longrightarrow> d \<noteq> k \<longrightarrow> block_at p3 d = block_at p2 d" by blast
  have g3: "pool_grows p2 (insert k used) p3 (insert k used) 0"
    by (rule pool_write_safe [OF _ p3(2,3)]) (use p2(4) in \<open>simp add: pool_grows_def\<close>)
  have g: "pool_grows p used p3 (insert k used) 1"
    using pool_grows_trans [OF g1 pool_grows_trans [OF p2(4) g3]] by simp
  let ?b = "b\<lparr>ag_chunks := ag_chunks b @ [k], ag_total_len := ?n + length bs\<rparr>"
  have small': "?r + length bs < U64" using small r a(2) by linarith
  have "(if ?r + length bs \<noteq> ?s then pool_write p2 k ?snd else Some p2) = Some p3"
  proof (cases "?r + length bs = ?s")
    case True
    then have "?snd = []" using over by simp
    then show ?thesis using True p3(1) p2(3) by (auto simp: pool_write_def mwrite_def block_ok_def split: if_splits)
  qed (use p3(1) in simp)
  then have w: "ag_write p b bs = Some (True, ?b, p3)"
    using over a(1,3) c(1) p1(1) p2(1) tot small'
    by (cases "?r + length bs = ?s") (simp_all add: ag_write_def Let_def add64_small)
  have e: "?n + length bs = (?r + length bs - ?s) + (?n div ?s + 1) * ?s" using over by (simp add: add_mult_distrib)
  have lt: "?r + length bs - ?s < ?s" using small r by linarith
  have d: "(?n + length bs) div ?s = ?n div ?s + 1" unfolding e using lt by (subst div_mult_self1) simp_all
  have md: "(?n + length bs) mod ?s = ?r + length bs - ?s" unfolding e using lt by (subst mod_mult_self1) simp
  have sz3: "rp_block_size p3 = ?s" "length (rp_mem_pool p3) = length (rp_mem_pool p)" using g by (simp_all add: pool_grows_def)
  have k3: "block_ok p3 k" using p2(3) p3(2,3) by (simp add: block_ok_def)
  have nk: "k \<notin> set (ag_chunks b)" using p2(2) sub by auto
  have ok': "agg_ok p3 ?b"
    using a tot d nk k3 sz3 by (auto simp: agg_ok_def block_ok_def)
  from content_split [OF ok'] obtain cs' t' where c': "ag_chunks ?b = cs' @ [t']"
    "content p3 ?b = concat (map (block_at p3) cs') @ take (ag_total_len ?b mod rp_block_size p3) (block_at p3 t')" by blast
  have e': "cs' = cs @ [t]" "t' = k" using c'(1) c(1) by simp_all
  have ok2: "block_ok p2 d" if "block_ok p d" for d
    using that sz(2) p2(5) p1(2,3) by (simp add: block_ok_def)
  have keep: "block_at p3 d = block_at p1 d" if "d \<in> used" for d
    using p3(5) ok2 used that p2(2) at2 by metis
  have keep': "block_at p3 d = block_at p d" if "d \<in> used" "d \<noteq> t" for d
    using keep [OF that(1)] p1(5) used that by simp
  have "d \<in> used \<and> d \<noteq> t" if "d \<in> set cs" for d using that c(1,2) sub by auto
  then have old: "map (block_at p3) cs = map (block_at p) cs" using keep' by simp
  have tail: "block_at p3 t = take ?r (block_at p t) @ ?fst"
    unfolding keep [OF t(2)] p1(4) using lf r length_block_at [OF t(1)] by simp
  have new: "take (?r + length bs - ?s) (block_at p3 k) = ?snd"
  proof -
    have "?r + length bs - ?s = length ?snd" using over r by simp
    then show ?thesis unfolding p3(4) by simp
  qed
  have "ag_total_len ?b mod rp_block_size p3 = ?r + length bs - ?s" using sz3 md by simp
  then have "content p3 ?b = content p b @ bs"
    unfolding c'(2) c(4) e' map_append old by (simp add: tail new)
  moreover have "\<forall>c \<in> used - set (ag_chunks b). block_at p3 c = block_at p c"
    using keep' c(1) by auto
  ultimately show ?thesis using w g ok' p2(2) by (intro exI [of _ ?b] exI [of _ p3] exI [of _ k]) simp
qed

lemma ag_write_appends:
  assumes s: "pool_safe p used" and dvd: "rp_block_count p dvd U64" and idle: "idle p \<noteq> {}"
    and ok: "agg_ok p b" and sub: "set (ag_chunks b) \<subseteq> used" and small: "length bs \<le> rp_block_size p"
    and tot: "ag_total_len b + length bs < U64"
  shows "\<exists>b' p' used'. ag_write p b bs = Some (True, b', p') \<and> pool_grows p used p' used' 1 \<and> agg_ok p' b' \<and>
    set (ag_chunks b') = set (ag_chunks b) \<union> (used' - used) \<and> content p' b' = content p b @ bs \<and>
    ag_total_len b' = ag_total_len b + length bs \<and> (\<forall>c \<in> used - set (ag_chunks b). block_at p' c = block_at p c)"
proof (cases "ag_total_len b mod rp_block_size p + length bs < rp_block_size p")
  case True
  from ag_write_inside [OF s ok sub True tot] obtain b' p' where "ag_write p b bs = Some (True, b', p')"
    "pool_grows p used p' used 0" "agg_ok p' b'" "ag_chunks b' = ag_chunks b" "content p' b' = content p b @ bs"
    "ag_total_len b' = ag_total_len b + length bs" "\<forall>c \<in> used - set (ag_chunks b). block_at p' c = block_at p c" by blast
  then show ?thesis by (intro exI [of _ b'] exI [of _ p'] exI [of _ used]) (simp add: pool_grows_def)
next
  case False
  then have "rp_block_size p \<le> ag_total_len b mod rp_block_size p + length bs" by simp
  from ag_write_crossing [OF s dvd idle ok sub small this tot] obtain b' p' k where "ag_write p b bs = Some (True, b', p')"
    "k \<notin> used" "pool_grows p used p' (insert k used) 1" "agg_ok p' b'" "ag_chunks b' = ag_chunks b @ [k]"
    "content p' b' = content p b @ bs" "ag_total_len b' = ag_total_len b + length bs"
    "\<forall>c \<in> used - set (ag_chunks b). block_at p' c = block_at p c" by blast
  then show ?thesis by (intro exI [of _ b'] exI [of _ p'] exI [of _ "insert k used"]) auto
qed

section \<open>Flow buffers\<close>

text \<open>\<open>header\<close> and \<open>data\<close> are positions in the memory of the packet, \<open>None\<close> the null pointer.\<close>

record ParsedPacket =
  is_upstream :: bool
  pk_data :: "nat option"
  data_length :: nat
  pk_header :: "nat option"
  header_length :: nat
  timestamp :: nat
  is_fin :: bool
  is_rst :: bool

record FlowBuffer =
  packet_count :: nat
  last_update_time :: nat
  timestamp_buffer :: AggBuffer
  length_buffer :: AggBuffer
  header_buffer :: AggBuffer
  upstream_data_buffer :: AggBuffer
  downstream_data_buffer :: AggBuffer
  fin_seen :: bool
  rst_seen :: bool
  count_after_fin :: nat
  finished :: bool

text \<open>The constructor leaves \<open>last_update_time\<close> and \<open>finished\<close> as they are in the memory: two arguments here.\<close>

definition FlowBuffer_new :: "nat \<Rightarrow> bool \<Rightarrow> PointerRingPool \<Rightarrow> (FlowBuffer \<times> PointerRingPool) option" where
  "FlowBuffer_new time0 finished0 p = do {
     (ts, p) \<leftarrow> AggBuffer_new p;
     (len, p) \<leftarrow> AggBuffer_new p;
     (hd, p) \<leftarrow> AggBuffer_new p;
     (up, p) \<leftarrow> AggBuffer_new p;
     (down, p) \<leftarrow> AggBuffer_new p;
     Some (\<lparr>packet_count = 0, last_update_time = time0, timestamp_buffer = ts, length_buffer = len, header_buffer = hd,
       upstream_data_buffer = up, downstream_data_buffer = down, fin_seen = False, rst_seen = False, count_after_fin = 0,
       finished = finished0\<rparr>, p) }"

text \<open>The members are destroyed in the reverse order.\<close>

definition FlowBuffer_delete :: "PointerRingPool \<Rightarrow> FlowBuffer \<Rightarrow> PointerRingPool option" where
  "FlowBuffer_delete p f = do {
     p \<leftarrow> ag_delete p (ag_chunks (downstream_data_buffer f));
     p \<leftarrow> ag_delete p (ag_chunks (upstream_data_buffer f));
     p \<leftarrow> ag_delete p (ag_chunks (header_buffer f));
     p \<leftarrow> ag_delete p (ag_chunks (length_buffer f));
     ag_delete p (ag_chunks (timestamp_buffer f)) }"

definition read_at :: "bytes \<Rightarrow> nat option \<Rightarrow> nat \<Rightarrow> bytes option" where
  "read_at m pos len = (case pos of None \<Rightarrow> (if len = 0 then Some [] else None) | Some i \<Rightarrow> mread m i len)"

definition append_packet :: "bytes \<Rightarrow> PointerRingPool \<Rightarrow> FlowBuffer \<Rightarrow> ParsedPacket \<Rightarrow> (bool \<times> FlowBuffer \<times> PointerRingPool) option" where
  "append_packet m p f k = do {
     (ok, ts, p) \<leftarrow> ag_write p (timestamp_buffer f) (le_encode 8 (timestamp k));
     if \<not> ok then Some (False, f\<lparr>timestamp_buffer := ts\<rparr>, p) else do {
     (ok, len, p) \<leftarrow> ag_write p (length_buffer f) (le_encode 2 (data_length k));
     if \<not> ok then Some (False, f\<lparr>timestamp_buffer := ts, length_buffer := len\<rparr>, p) else do {
     header \<leftarrow> read_at m (pk_header k) (header_length k);
     (ok, hd, p) \<leftarrow> ag_write p (header_buffer f) header;
     if \<not> ok then Some (False, f\<lparr>timestamp_buffer := ts, length_buffer := len, header_buffer := hd\<rparr>, p) else do {
     payload \<leftarrow> read_at m (pk_data k) (data_length k);
     (ok, up, p) \<leftarrow> (if is_upstream k then ag_write p (upstream_data_buffer f) payload else Some (True, upstream_data_buffer f, p));
     if \<not> ok
     then Some (False, f\<lparr>timestamp_buffer := ts, length_buffer := len, header_buffer := hd, upstream_data_buffer := up\<rparr>, p)
     else do {
     (ok, down, p) \<leftarrow> ag_write p (downstream_data_buffer f) payload;
     let f = f\<lparr>timestamp_buffer := ts, length_buffer := len, header_buffer := hd, upstream_data_buffer := up,
       downstream_data_buffer := down\<rparr>;
     if \<not> ok then Some (False, f, p)
     else
       let fin = fin_seen f \<or> is_fin k
       in Some (True, f\<lparr>packet_count := add64 (packet_count f) 1, last_update_time := timestamp k, fin_seen := fin,
            rst_seen := rst_seen f \<or> is_rst k,
            count_after_fin := (if fin then (count_after_fin f + 1) mod 4294967296 else count_after_fin f)\<rparr>, p) }}}}}"

definition is_finished :: "FlowBuffer \<Rightarrow> bool" where
  "is_finished f \<longleftrightarrow> (fin_seen f \<and> count_after_fin f \<ge> 4) \<or> rst_seen f \<or> finished f"

definition threshold_finished :: "FlowBuffer \<Rightarrow> nat \<Rightarrow> nat \<Rightarrow> bool" where
  "threshold_finished f threshold ts \<longleftrightarrow> ts \<ge> add64 threshold (last_update_time f)"

definition set_finished :: "FlowBuffer \<Rightarrow> FlowBuffer" where
  "set_finished f = f\<lparr>finished := True\<rparr>"

definition set_flags :: "FlowBuffer \<Rightarrow> bool \<Rightarrow> bool \<Rightarrow> nat \<Rightarrow> FlowBuffer" where
  "set_flags f fin rst count = f\<lparr>fin_seen := fin, rst_seen := rst, count_after_fin := count\<rparr>"

definition get_totol_length :: "FlowBuffer \<Rightarrow> nat" where
  "get_totol_length f =
     add64 (add64 (add64 (add64 (add64 (ag_total_len (timestamp_buffer f)) (ag_total_len (length_buffer f)))
       (ag_total_len (header_buffer f))) (ag_total_len (upstream_data_buffer f))) (ag_total_len (downstream_data_buffer f))) 8
     mod 4294967296"

section \<open>Several aggregates\<close>

text \<open>All aggregates of a system, of one flow or of several: no block belongs to two of them.\<close>

definition aggs_ok :: "PointerRingPool \<Rightarrow> nat set \<Rightarrow> AggBuffer list \<Rightarrow> bool" where
  "aggs_ok p used bs \<longleftrightarrow> pool_safe p used \<and> rp_block_count p dvd U64 \<and>
     (\<forall>b \<in> set bs. agg_ok p b \<and> set (ag_chunks b) \<subseteq> used) \<and>
     (\<forall>i < length bs. \<forall>j < length bs. i \<noteq> j \<longrightarrow> set (ag_chunks (bs ! i)) \<inter> set (ag_chunks (bs ! j)) = {})"

lemma aggs_write:
  assumes ok: "aggs_ok p used bs" and idle: "0 < card (idle p)" and i: "i < length bs" and small: "length d \<le> rp_block_size p"
    and tot: "ag_total_len (bs ! i) + length d < U64"
  shows "\<exists>b' p' used'. ag_write p (bs ! i) d = Some (True, b', p') \<and> pool_grows p used p' used' 1 \<and> aggs_ok p' used' (bs[i := b']) \<and>
    map (content p') (bs[i := b']) = (map (content p) bs)[i := content p (bs ! i) @ d] \<and>
    ag_total_len b' = ag_total_len (bs ! i) + length d"
proof -
  have b: "agg_ok p (bs ! i)" "set (ag_chunks (bs ! i)) \<subseteq> used" "pool_safe p used" "rp_block_count p dvd U64"
    using ok i by (simp_all add: aggs_ok_def)
  have ne: "idle p \<noteq> {}" using idle by auto
  from ag_write_appends [OF b(3,4) ne b(1,2) small tot] obtain b' p' used' where w: "ag_write p (bs ! i) d = Some (True, b', p')"
    "pool_grows p used p' used' 1" "agg_ok p' b'" "set (ag_chunks b') = set (ag_chunks (bs ! i)) \<union> (used' - used)"
    "content p' b' = content p (bs ! i) @ d" "ag_total_len b' = ag_total_len (bs ! i) + length d"
    "\<forall>c \<in> used - set (ag_chunks (bs ! i)). block_at p' c = block_at p c" by blast
  have g: "pool_safe p' used'" "used \<subseteq> used'" "rp_block_size p' = rp_block_size p" "length (rp_mem_pool p') = length (rp_mem_pool p)"
    "rp_block_count p' = rp_block_count p"
    using w(2) by (simp_all add: pool_grows_def)
  have other: "agg_ok p' (bs ! j) \<and> content p' (bs ! j) = content p (bs ! j)" if "j < length bs" "j \<noteq> i" for j
  proof -
    have "set (ag_chunks (bs ! j)) \<inter> set (ag_chunks (bs ! i)) = {}" "agg_ok p (bs ! j)" "set (ag_chunks (bs ! j)) \<subseteq> used"
      using ok that i by (simp_all add: aggs_ok_def)
    then have "agg_ok p (bs ! j)" "set (ag_chunks (bs ! j)) \<subseteq> used - set (ag_chunks (bs ! i))" by auto
    then show ?thesis using content_cong [of p "bs ! j" p'] w(7) g(3,4) by blast
  qed
  have "aggs_ok p' used' (bs[i := b'])"
    unfolding aggs_ok_def
  proof (intro conjI ballI allI impI)
    fix b assume "b \<in> set (bs[i := b'])"
    then obtain j where j: "j < length bs" "b = bs[i := b'] ! j" by (metis in_set_conv_nth length_list_update)
    have "agg_ok p' b \<and> set (ag_chunks b) \<subseteq> used'"
    proof (cases "j = i")
      case True
      then show ?thesis using j w(3,4) g(2) b(2) by auto
    next
      case False
      have "set (ag_chunks (bs ! j)) \<subseteq> used" using ok j(1) by (simp add: aggs_ok_def)
      then show ?thesis using False j other [of j] g(2) by auto
    qed
    then show "agg_ok p' b" "set (ag_chunks b) \<subseteq> used'" by simp_all
  next
    fix j l assume jl: "j < length (bs[i := b'])" "l < length (bs[i := b'])" "j \<noteq> l"
    have sub: "set (ag_chunks (bs ! k)) \<subseteq> used" if "k < length bs" for k using ok that by (simp add: aggs_ok_def)
    have dis: "set (ag_chunks (bs ! k)) \<inter> set (ag_chunks (bs ! k')) = {}" if "k < length bs" "k' < length bs" "k \<noteq> k'" for k k'
      using ok that by (simp add: aggs_ok_def)
    have one: "set (ag_chunks b') \<inter> set (ag_chunks (bs ! k)) = {}" if "k < length bs" "k \<noteq> i" for k
      using w(4) dis [OF i that(1)] that(2) sub [OF that(1)] by auto
    show "set (ag_chunks (bs[i := b'] ! j)) \<inter> set (ag_chunks (bs[i := b'] ! l)) = {}"
    proof (cases "j = i")
      case True
      then show ?thesis using jl one [of l] by (simp add: nth_list_update)
    next
      case j: False
      show ?thesis
      proof (cases "l = i")
        case True
        have "set (ag_chunks (bs ! j)) \<inter> set (ag_chunks b') = {}" using one [of j] j jl(1) by (simp add: Int_commute)
        then show ?thesis using True j jl by simp
      qed (use j jl dis [of j l] in simp)
    qed
  qed (use g b in simp_all)
  moreover have "map (content p') (bs[i := b']) = (map (content p) bs)[i := content p (bs ! i) @ d]"
  proof (rule nth_equalityI)
    fix k assume "k < length (map (content p') (bs[i := b']))"
    then have k: "k < length bs" by simp
    show "map (content p') (bs[i := b']) ! k = ((map (content p) bs)[i := content p (bs ! i) @ d]) ! k"
      using k other [of k] w(5) by (cases "k = i") simp_all
  qed simp
  ultimately show ?thesis using w(1,2,6) by blast
qed

lemma aggs_write_at:
  assumes "aggs_ok p used (xs @ b # ys)" and "0 < card (idle p)" and "length d \<le> rp_block_size p" and "ag_total_len b + length d < U64"
  shows "\<exists>b' p' used'. ag_write p b d = Some (True, b', p') \<and> pool_grows p used p' used' 1 \<and> aggs_ok p' used' (xs @ b' # ys) \<and>
    map (content p') xs = map (content p) xs \<and> content p' b' = content p b @ d \<and> map (content p') ys = map (content p) ys \<and>
    ag_total_len b' = ag_total_len b + length d"
proof -
  from aggs_write [OF assms(1,2), of "length xs" d] assms(3,4) obtain b' p' used' where
    "ag_write p b d = Some (True, b', p')" "pool_grows p used p' used' 1" "aggs_ok p' used' (xs @ b' # ys)"
    "map (content p') (xs @ b' # ys) = map (content p) xs @ (content p b @ d) # map (content p) ys"
    "ag_total_len b' = ag_total_len b + length d"
    using list_update_length [of "map (content p) xs"] by (auto simp del: map_eq_conv)
  then show ?thesis by auto
qed

definition fb_aggs :: "FlowBuffer \<Rightarrow> AggBuffer list" where
  "fb_aggs f = [timestamp_buffer f, length_buffer f, header_buffer f, upstream_data_buffer f, downstream_data_buffer f]"

definition packet_columns :: "ParsedPacket \<Rightarrow> bytes \<Rightarrow> bytes \<Rightarrow> bytes list" where
  "packet_columns k header payload =
     [le_encode 8 (timestamp k), le_encode 2 (data_length k), header, if is_upstream k then payload else [], payload]"

definition after_packet :: "FlowBuffer \<Rightarrow> ParsedPacket \<Rightarrow> FlowBuffer" where
  "after_packet f k = f\<lparr>packet_count := add64 (packet_count f) 1, last_update_time := timestamp k,
     fin_seen := fin_seen f \<or> is_fin k, rst_seen := rst_seen f \<or> is_rst k,
     count_after_fin := (if fin_seen f \<or> is_fin k then (count_after_fin f + 1) mod 4294967296 else count_after_fin f)\<rparr>"

lemma append_packet_ok:
  assumes ok: "aggs_ok p used (fb_aggs f @ others)" and idle: "5 \<le> card (idle p)"
    and h: "read_at m (pk_header k) (header_length k) = Some header" and d: "read_at m (pk_data k) (data_length k) = Some payload"
    and room: "\<forall>b \<in> set (fb_aggs f). ag_total_len b + rp_block_size p < U64" and s: "8 \<le> rp_block_size p"
    and sh: "length header \<le> rp_block_size p" and sd: "length payload \<le> rp_block_size p"
  shows "\<exists>f' p' used'. append_packet m p f k = Some (True, f', p') \<and> pool_grows p used p' used' 5 \<and>
    aggs_ok p' used' (fb_aggs f' @ others) \<and> map (content p') others = map (content p) others \<and>
    map (content p') (fb_aggs f') = map2 (@) (map (content p) (fb_aggs f)) (packet_columns k header payload) \<and>
    map ag_total_len (fb_aggs f') = map2 (+) (map ag_total_len (fb_aggs f)) (map length (packet_columns k header payload)) \<and>
    (\<exists>a b c d e. f' = after_packet (f\<lparr>timestamp_buffer := a, length_buffer := b, header_buffer := c,
      upstream_data_buffer := d, downstream_data_buffer := e\<rparr>) k)"
proof -
  let ?s = "rp_block_size p"
  let ?A = "timestamp_buffer f" and ?B = "length_buffer f" and ?C = "header_buffer f" and ?D = "upstream_data_buffer f"
    and ?E = "downstream_data_buffer f"
  have t: "ag_total_len ?A + ?s < U64" "ag_total_len ?B + ?s < U64" "ag_total_len ?C + ?s < U64" "ag_total_len ?D + ?s < U64"
    "ag_total_len ?E + ?s < U64" using room by (simp_all add: fb_aggs_def)
  have l: "[?A, ?B, ?C, ?D, ?E] @ others = fb_aggs f @ others" by (simp add: fb_aggs_def)
  have a0: "aggs_ok p used ([] @ ?A # [?B, ?C, ?D, ?E] @ others)" using ok by (simp add: fb_aggs_def)
  from aggs_write_at [OF a0, of "le_encode 8 (timestamp k)"] idle s t obtain a p1 u1 where w1:
    "ag_write p ?A (le_encode 8 (timestamp k)) = Some (True, a, p1)" "pool_grows p used p1 u1 1"
    "aggs_ok p1 u1 ([] @ a # [?B, ?C, ?D, ?E] @ others)" "content p1 a = content p ?A @ le_encode 8 (timestamp k)"
    "map (content p1) ([?B, ?C, ?D, ?E] @ others) = map (content p) ([?B, ?C, ?D, ?E] @ others)"
    "ag_total_len a = ag_total_len ?A + 8" by auto
  have z1: "rp_block_size p1 = ?s" "4 \<le> card (idle p1)" using w1(2) idle by (simp_all add: pool_grows_def)
  have a1: "aggs_ok p1 u1 ([a] @ ?B # [?C, ?D, ?E] @ others)" using w1(3) by simp
  from aggs_write_at [OF a1, of "le_encode 2 (data_length k)"] z1 s t obtain b p2 u2 where w2:
    "ag_write p1 ?B (le_encode 2 (data_length k)) = Some (True, b, p2)" "pool_grows p1 u1 p2 u2 1"
    "aggs_ok p2 u2 ([a] @ b # [?C, ?D, ?E] @ others)" "map (content p2) [a] = map (content p1) [a]"
    "content p2 b = content p1 ?B @ le_encode 2 (data_length k)"
    "map (content p2) ([?C, ?D, ?E] @ others) = map (content p1) ([?C, ?D, ?E] @ others)"
    "ag_total_len b = ag_total_len ?B + 2" by auto
  have z2: "rp_block_size p2 = ?s" "3 \<le> card (idle p2)" using w2(2) z1 by (simp_all add: pool_grows_def)
  have a2: "aggs_ok p2 u2 ([a, b] @ ?C # [?D, ?E] @ others)" using w2(3) by simp
  from aggs_write_at [OF a2, of header] z2 s sh t obtain c p3 u3 where w3:
    "ag_write p2 ?C header = Some (True, c, p3)" "pool_grows p2 u2 p3 u3 1"
    "aggs_ok p3 u3 ([a, b] @ c # [?D, ?E] @ others)" "map (content p3) [a, b] = map (content p2) [a, b]"
    "content p3 c = content p2 ?C @ header" "map (content p3) ([?D, ?E] @ others) = map (content p2) ([?D, ?E] @ others)"
    "ag_total_len c = ag_total_len ?C + length header" by auto
  have z3: "rp_block_size p3 = ?s" "2 \<le> card (idle p3)" using w3(2) z2 by (simp_all add: pool_grows_def)
  let ?up = "if is_upstream k then payload else []"
  have a3: "aggs_ok p3 u3 ([a, b, c] @ ?D # [?E] @ others)" using w3(3) by simp
  have "\<exists>d p4 u4. (if is_upstream k then ag_write p3 ?D payload else Some (True, ?D, p3)) = Some (True, d, p4) \<and> pool_grows p3 u3 p4 u4 1 \<and>
    aggs_ok p4 u4 ([a, b, c] @ d # [?E] @ others) \<and> map (content p4) [a, b, c] = map (content p3) [a, b, c] \<and>
    content p4 d = content p3 ?D @ ?up \<and> map (content p4) ([?E] @ others) = map (content p3) ([?E] @ others) \<and>
    ag_total_len d = ag_total_len ?D + length ?up"
  proof (cases "is_upstream k")
    case True
    from aggs_write_at [OF a3, of payload] z3 sd t True show ?thesis by simp
  next
    case False
    then show ?thesis using a3 by (intro exI [of _ ?D] exI [of _ p3] exI [of _ u3]) (simp add: pool_grows_def aggs_ok_def)
  qed
  then obtain d p4 u4 where w4: "(if is_upstream k then ag_write p3 ?D payload else Some (True, ?D, p3)) = Some (True, d, p4)"
    "pool_grows p3 u3 p4 u4 1" "aggs_ok p4 u4 ([a, b, c] @ d # [?E] @ others)" "map (content p4) [a, b, c] = map (content p3) [a, b, c]"
    "content p4 d = content p3 ?D @ ?up" "map (content p4) ([?E] @ others) = map (content p3) ([?E] @ others)"
    "ag_total_len d = ag_total_len ?D + length ?up" by (elim exE conjE) (rule that; assumption)
  have z4: "rp_block_size p4 = ?s" "1 \<le> card (idle p4)" using w4(2) z3 by (simp_all add: pool_grows_def)
  have a4: "aggs_ok p4 u4 ([a, b, c, d] @ ?E # others)" using w4(3) by simp
  from aggs_write_at [OF a4, of payload] z4 sd t obtain e p5 u5 where w5:
    "ag_write p4 ?E payload = Some (True, e, p5)" "pool_grows p4 u4 p5 u5 1"
    "aggs_ok p5 u5 ([a, b, c, d] @ e # others)" "map (content p5) [a, b, c, d] = map (content p4) [a, b, c, d]"
    "content p5 e = content p4 ?E @ payload" "map (content p5) others = map (content p4) others"
    "ag_total_len e = ag_total_len ?E + length payload" by auto
  let ?f = "after_packet (f\<lparr>timestamp_buffer := a, length_buffer := b, header_buffer := c,
      upstream_data_buffer := d, downstream_data_buffer := e\<rparr>) k"
  have run: "append_packet m p f k = Some (True, ?f, p5)"
    unfolding append_packet_def w1(1) w2(1) w3(1) w4(1) w5(1) h d Option.bind.simps prod.case
    by (simp only: after_packet_def Let_def not_True_eq_False if_False)
  have "pool_grows p used p5 u5 (1 + (1 + (1 + (1 + 1))))"
    by (intro pool_grows_trans [OF w1(2)] pool_grows_trans [OF w2(2)] pool_grows_trans [OF w3(2)] pool_grows_trans [OF w4(2)] w5(2))
  moreover have aggs: "fb_aggs ?f = [a, b, c, d, e]" by (simp add: fb_aggs_def after_packet_def)
  moreover have "map (content p5) (fb_aggs ?f) = map2 (@) (map (content p) (fb_aggs f)) (packet_columns k header payload)"
    unfolding aggs using w1(4,5) w2(4-6) w3(4-6) w4(4-6) w5(4-6) by (simp add: fb_aggs_def packet_columns_def)
  moreover have "map (content p5) others = map (content p) others"
    using w1(5) w2(6) w3(6) w4(6) w5(6) by simp
  moreover have "map ag_total_len (fb_aggs ?f) = map2 (+) (map ag_total_len (fb_aggs f)) (map length (packet_columns k header payload))"
    unfolding aggs using w1(6) w2(7) w3(7) w4(7) w5(7) by (simp add: fb_aggs_def packet_columns_def)
  ultimately show ?thesis using run w5(3)
    by (intro exI [of _ ?f] exI [of _ p5] exI [of _ u5] conjI exI [of _ a] exI [of _ b] exI [of _ c] exI [of _ d] exI [of _ e])
      (simp_all add: aggs)
qed

lemma agg_new_ok:
  assumes ok: "aggs_ok p used bs" and idle: "0 < card (idle p)" and s: "0 < rp_block_size p" "2 * rp_block_size p \<le> U64"
  shows "\<exists>b p' used'. AggBuffer_new p = Some (b, p') \<and> pool_grows p used p' used' 1 \<and> aggs_ok p' used' (bs @ [b]) \<and>
    content p' b = [] \<and> ag_total_len b = 0 \<and> map (content p') bs = map (content p) bs"
proof -
  have p: "pool_safe p used" "rp_block_count p dvd U64" using ok by (simp_all add: aggs_ok_def)
  have "idle p \<noteq> {}" using idle by auto
  from allocate_grows [OF p this] obtain c p' where a: "allocate_wait p = Some (c, p')" "c \<notin> used" "block_ok p' c"
    "pool_grows p used p' (insert c used) 1" "rp_mem_pool p' = rp_mem_pool p" by blast
  let ?b = "\<lparr>ag_chunks = [c], ag_block_len = rp_block_size p', ag_total_len = 0\<rparr>"
  have sz: "rp_block_size p' = rp_block_size p" "rp_block_count p' = rp_block_count p" using a(4) by (simp_all add: pool_grows_def)
  have at: "block_at p' d = block_at p d" for d by (rule block_at_same [OF a(5) sz(1)])
  have old: "agg_ok p' b \<and> content p' b = content p b \<and> set (ag_chunks b) \<subseteq> used" if "b \<in> set bs" for b
    using that ok content_cong [of p b p'] sz(1) a(5) at by (simp add: aggs_ok_def)
  have b: "agg_ok p' ?b" using s sz a(3) by (simp add: agg_ok_def)
  have "aggs_ok p' (insert c used) (bs @ [?b])"
    unfolding aggs_ok_def
  proof (intro conjI ballI allI impI)
    fix x assume "x \<in> set (bs @ [?b])"
    then show "agg_ok p' x" "set (ag_chunks x) \<subseteq> insert c used" using b old [of x] by auto
  next
    fix i j assume ij: "i < length (bs @ [?b])" "j < length (bs @ [?b])" "i \<noteq> j"
    have sub: "c \<notin> set (ag_chunks (bs ! k))" if "k < length bs" for k using old [of "bs ! k"] that a(2) by auto
    have dis: "set (ag_chunks (bs ! k)) \<inter> set (ag_chunks (bs ! l)) = {}" if "k < length bs" "l < length bs" "k \<noteq> l" for k l
      using ok that by (simp add: aggs_ok_def)
    show "set (ag_chunks ((bs @ [?b]) ! i)) \<inter> set (ag_chunks ((bs @ [?b]) ! j)) = {}"
      using ij sub [of i] sub [of j] dis [of i j] by (auto simp: nth_append split: if_splits)
  qed (use a(4) p sz in \<open>simp_all add: pool_grows_def\<close>)
  moreover have "map (content p') bs = map (content p) bs" using old by simp
  ultimately show ?thesis using a(1,4) by (auto simp: AggBuffer_new_def content_def)
qed

text \<open>A flow from its first packet on.\<close>

lemma replicate_five: "replicate 5 x = [x, x, x, x, x]"
  by (simp add: numeral_eq_Suc)

lemma flow_new_ok:
  assumes ok: "aggs_ok p used bs" and idle: "5 \<le> card (idle p)" and s: "0 < rp_block_size p" "2 * rp_block_size p \<le> U64"
  shows "\<exists>f p' used'. FlowBuffer_new time0 finished0 p = Some (f, p') \<and> pool_grows p used p' used' 5 \<and>
    aggs_ok p' used' (bs @ fb_aggs f) \<and> map (content p') (fb_aggs f) = replicate 5 [] \<and> map ag_total_len (fb_aggs f) = replicate 5 0"
proof -
  from agg_new_ok [OF ok _ s] idle obtain a p1 u1 where w1: "AggBuffer_new p = Some (a, p1)" "pool_grows p used p1 u1 1"
    "aggs_ok p1 u1 (bs @ [a])" "content p1 a = []" "ag_total_len a = 0" by auto
  have z1: "rp_block_size p1 = rp_block_size p" "4 \<le> card (idle p1)" using w1(2) idle by (simp_all add: pool_grows_def)
  from agg_new_ok [OF w1(3)] z1 s obtain b p2 u2 where w2: "AggBuffer_new p1 = Some (b, p2)" "pool_grows p1 u1 p2 u2 1"
    "aggs_ok p2 u2 (bs @ [a, b])" "content p2 b = []" "ag_total_len b = 0" "content p2 a = content p1 a" by auto
  have z2: "rp_block_size p2 = rp_block_size p" "3 \<le> card (idle p2)" using w2(2) z1 by (simp_all add: pool_grows_def)
  from agg_new_ok [OF w2(3)] z2 s obtain c p3 u3 where w3: "AggBuffer_new p2 = Some (c, p3)" "pool_grows p2 u2 p3 u3 1"
    "aggs_ok p3 u3 (bs @ [a, b, c])" "content p3 c = []" "ag_total_len c = 0" "content p3 a = content p2 a" "content p3 b = content p2 b" by auto
  have z3: "rp_block_size p3 = rp_block_size p" "2 \<le> card (idle p3)" using w3(2) z2 by (simp_all add: pool_grows_def)
  from agg_new_ok [OF w3(3)] z3 s obtain d p4 u4 where w4: "AggBuffer_new p3 = Some (d, p4)" "pool_grows p3 u3 p4 u4 1"
    "aggs_ok p4 u4 (bs @ [a, b, c, d])" "content p4 d = []" "ag_total_len d = 0" "content p4 a = content p3 a" "content p4 b = content p3 b"
    "content p4 c = content p3 c" by auto
  have z4: "rp_block_size p4 = rp_block_size p" "1 \<le> card (idle p4)" using w4(2) z3 by (simp_all add: pool_grows_def)
  from agg_new_ok [OF w4(3)] z4 s obtain e p5 u5 where w5: "AggBuffer_new p4 = Some (e, p5)" "pool_grows p4 u4 p5 u5 1"
    "aggs_ok p5 u5 (bs @ [a, b, c, d, e])" "content p5 e = []" "ag_total_len e = 0" "content p5 a = content p4 a" "content p5 b = content p4 b"
    "content p5 c = content p4 c" "content p5 d = content p4 d" by auto
  have "pool_grows p used p5 u5 (1 + (1 + (1 + (1 + 1))))"
    by (intro pool_grows_trans [OF w1(2)] pool_grows_trans [OF w2(2)] pool_grows_trans [OF w3(2)] pool_grows_trans [OF w4(2)] w5(2))
  then show ?thesis using w1 w2 w3 w4 w5 by (auto simp: FlowBuffer_new_def fb_aggs_def numeral_eq_Suc)
qed

definition header_bytes :: "bytes \<times> ParsedPacket \<Rightarrow> bytes" where
  "header_bytes = (\<lambda>(m, k). case read_at m (pk_header k) (header_length k) of None \<Rightarrow> [] | Some bs \<Rightarrow> bs)"

definition payload_bytes :: "bytes \<times> ParsedPacket \<Rightarrow> bytes" where
  "payload_bytes = (\<lambda>(m, k). case read_at m (pk_data k) (data_length k) of None \<Rightarrow> [] | Some bs \<Rightarrow> bs)"

definition packet_fits :: "nat \<Rightarrow> bytes \<times> ParsedPacket \<Rightarrow> bool" where
  "packet_fits block = (\<lambda>(m, k). read_at m (pk_header k) (header_length k) \<noteq> None \<and> read_at m (pk_data k) (data_length k) \<noteq> None \<and>
     header_length k \<le> block \<and> data_length k \<le> block)"

definition flow_columns :: "(bytes \<times> ParsedPacket) list \<Rightarrow> bytes list" where
  "flow_columns ks = [concat (map (\<lambda>(m, k). le_encode 8 (timestamp k)) ks), concat (map (\<lambda>(m, k). le_encode 2 (data_length k)) ks),
     concat (map header_bytes ks), concat (map (\<lambda>(m, k). if is_upstream k then payload_bytes (m, k) else []) ks),
     concat (map payload_bytes ks)]"

fun append_packets :: "(bytes \<times> ParsedPacket) list \<Rightarrow> PointerRingPool \<Rightarrow> FlowBuffer \<Rightarrow> (FlowBuffer \<times> PointerRingPool) option" where
  "append_packets [] p f = Some (f, p)"
| "append_packets ((m, k) # ks) p f = do { (_, f', p') \<leftarrow> append_packet m p f k; append_packets ks p' f' }"

lemma read_at_length: "read_at m pos len = Some bs \<Longrightarrow> length bs = len"
  by (auto simp: read_at_def mread_Some split: option.splits if_splits)

lemma append_packets_ok:
  assumes "aggs_ok p used (fb_aggs f)" and "5 * length ks \<le> card (idle p)" and "\<forall>k \<in> set ks. packet_fits (rp_block_size p) k"
    and "8 \<le> rp_block_size p" and "\<forall>b \<in> set (fb_aggs f). ag_total_len b + length ks * rp_block_size p < U64"
  shows "\<exists>f' p' used'. append_packets ks p f = Some (f', p') \<and> aggs_ok p' used' (fb_aggs f') \<and>
    map (content p') (fb_aggs f') = map2 (@) (map (content p) (fb_aggs f)) (flow_columns ks)"
  using assms
proof (induction ks arbitrary: p used f)
  case Nil
  then show ?case by (auto simp: fb_aggs_def flow_columns_def)
next
  case (Cons mk ks)
  obtain m k where mk: "mk = (m, k)" by (cases mk)
  from Cons.prems(3) mk obtain hd pl where r: "read_at m (pk_header k) (header_length k) = Some hd"
    "read_at m (pk_data k) (data_length k) = Some pl" "header_length k \<le> rp_block_size p" "data_length k \<le> rp_block_size p"
    by (auto simp: packet_fits_def)
  note l = read_at_length [OF r(1)] read_at_length [OF r(2)]
  have ok: "aggs_ok p used (fb_aggs f @ [])" using Cons.prems(1) by simp
  have "\<forall>b \<in> set (fb_aggs f). ag_total_len b + rp_block_size p < U64" using Cons.prems(5) by fastforce
  from append_packet_ok [OF ok _ r(1,2) this Cons.prems(4)] Cons.prems(2) r(3,4) l obtain f1 p1 u1 where s:
    "append_packet m p f k = Some (True, f1, p1)" "pool_grows p used p1 u1 5" "aggs_ok p1 u1 (fb_aggs f1)"
    "map (content p1) (fb_aggs f1) = map2 (@) (map (content p) (fb_aggs f)) (packet_columns k hd pl)"
    "map ag_total_len (fb_aggs f1) = map2 (+) (map ag_total_len (fb_aggs f)) (map length (packet_columns k hd pl))"
    by auto
  have g: "rp_block_size p1 = rp_block_size p" "card (idle p) \<le> card (idle p1) + 5" using s(2) by (simp_all add: pool_grows_def)
  have "\<forall>b \<in> set (fb_aggs f1). ag_total_len b + length ks * rp_block_size p1 < U64"
    using s(5) Cons.prems(4,5) r(3,4) l g(1) by (auto simp: fb_aggs_def packet_columns_def)
  with Cons.IH [OF s(3)] Cons.prems(2-4) g obtain f' p' used' where q: "append_packets ks p1 f1 = Some (f', p')"
    "aggs_ok p' used' (fb_aggs f')" "map (content p') (fb_aggs f') = map2 (@) (map (content p1) (fb_aggs f1)) (flow_columns ks)"
    by auto
  have "map2 (@) (map2 (@) (map (content p) (fb_aggs f)) (packet_columns k hd pl)) (flow_columns ks) =
      map2 (@) (map (content p) (fb_aggs f)) (flow_columns (mk # ks))"
    by (simp add: fb_aggs_def packet_columns_def flow_columns_def mk header_bytes_def payload_bytes_def r(1,2))
  with s(1,4) q show ?case by (intro exI [of _ f'] exI [of _ p'] exI [of _ used']) (simp add: mk)
qed

section \<open>The write buffer\<close>

record WBuffer =
  wb_buffer_size :: nat
  wb_block_size :: nat
  wb_block_count :: nat
  wb_buffer :: bytes
  wb_signal :: "bool list"
  writingBlock :: nat
  writePos :: nat
  readingBlock :: nat
  wb_stop :: bool

datatype wbuffer_error = Wbuffer_mmap_failed

definition WBuffer_new :: "bytes option \<Rightarrow> nat \<Rightarrow> nat \<Rightarrow> (wbuffer_error + WBuffer) option" where
  "WBuffer_new mmap_result buffer_size block_size =
     (if block_size = 0 then None
      else case mmap_result of None \<Rightarrow> Some (Inl Wbuffer_mmap_failed)
        | Some m \<Rightarrow> Some (Inr \<lparr>wb_buffer_size = buffer_size, wb_block_size = block_size, wb_block_count = buffer_size div block_size,
            wb_buffer = m, wb_signal = replicate (buffer_size div block_size) False, writingBlock = 0, writePos = 0,
            readingBlock = 0, wb_stop = False\<rparr>))"

lemma fill_decreases:
  assumes "wp < bs" and "\<not> add64 wp tw < bs"
  shows "sub64 tw (sub64 bs wp) < tw"
proof -
  have "bs < U64" using assms(2) add64_less [of wp tw] by linarith
  then have x: "sub64 bs wp = bs - wp" using assms(1) by (simp add: sub64_ge)
  have t: "bs - wp \<le> tw"
  proof (rule ccontr)
    assume "\<not> bs - wp \<le> tw"
    then have "wp + tw < bs" by linarith
    then have "add64 wp tw = wp + tw" using \<open>bs < U64\<close> by (simp add: add64_small)
    then show False using assms(2) \<open>wp + tw < bs\<close> by simp
  qed
  show ?thesis
  proof (cases "tw < U64")
    case True
    then show ?thesis unfolding x using t assms(1) by (simp add: sub64_ge)
  qed (use sub64_less [of tw "bs - wp"] in \<open>unfold x, linarith\<close>)
qed

text \<open>The loop over the block boundaries. Each round copies from the start of the chunk again. A wait for the
  signal of the next block ends only when another thread clears it, which no code does.\<close>

definition wb_next_block :: "PointerRingPool \<Rightarrow> nat \<Rightarrow> WBuffer \<Rightarrow> WBuffer option" where
  "wb_next_block p chunk w = do {
     bs \<leftarrow> mread (rp_mem_pool p) chunk (sub64 (wb_block_size w) (writePos w));
     m \<leftarrow> mwrite (wb_buffer w) (writingBlock w * wb_block_size w + writePos w) bs;
     wait \<leftarrow> vec_get (wb_signal w) ((writingBlock w + 1) mod wb_block_count w);
     if wait then None
     else do {
       sg \<leftarrow> vec_set (wb_signal w) (writingBlock w) True;
       Some (w\<lparr>wb_buffer := m, wb_signal := sg, writingBlock := (writingBlock w + 1) mod wb_block_count w, writePos := 0\<rparr>) } }"

lemma wb_next_block_Some:
  "wb_next_block p chunk w = Some w' \<longleftrightarrow> (\<exists>bs m sg. mread (rp_mem_pool p) chunk (sub64 (wb_block_size w) (writePos w)) = Some bs \<and>
     mwrite (wb_buffer w) (writingBlock w * wb_block_size w + writePos w) bs = Some m \<and>
     vec_get (wb_signal w) ((writingBlock w + 1) mod wb_block_count w) = Some False \<and>
     vec_set (wb_signal w) (writingBlock w) True = Some sg \<and>
     w' = w\<lparr>wb_buffer := m, wb_signal := sg, writingBlock := (writingBlock w + 1) mod wb_block_count w, writePos := 0\<rparr>)"
  by (auto simp: wb_next_block_def bind_eq_Some_conv split: if_splits)

function wb_fill :: "PointerRingPool \<Rightarrow> nat \<Rightarrow> WBuffer \<Rightarrow> nat \<Rightarrow> nat \<Rightarrow> (WBuffer \<times> nat \<times> nat) option" where
  "wb_fill p chunk w to_write remaining =
     (if wb_block_size w = 0 \<or> wb_block_count w = 0 then None
      else if add64 (writePos w) to_write < wb_block_size w then Some (w, to_write, remaining)
      else case wb_next_block p chunk w of None \<Rightarrow> None
        | Some w' \<Rightarrow> wb_fill p chunk w' (sub64 to_write (sub64 (wb_block_size w) (writePos w)))
            (sub64 remaining (sub64 (wb_block_size w) (writePos w))))"
  by pat_completeness auto

termination
  by (relation "inv_image (less_than <*lex*> less_than)
      (\<lambda>(p, chunk, w, to_write, remaining). (if writePos w < wb_block_size w then 0 else 1, to_write))")
    (auto simp: wb_next_block_Some fill_decreases)

declare wb_fill.simps [simp del]

fun wb_put_loop :: "PointerRingPool \<Rightarrow> nat \<Rightarrow> nat list \<Rightarrow> nat \<Rightarrow> WBuffer \<Rightarrow> WBuffer option" where
  "wb_put_loop p block_len [] remaining w = Some w"
| "wb_put_loop p block_len (c # cs) remaining w =
     (if remaining = 0 then Some w
      else do {
        (w, to_write, remaining) \<leftarrow> wb_fill p c w (if remaining < block_len then remaining else block_len) remaining;
        w \<leftarrow> (if to_write \<noteq> 0
          then do {
            bs \<leftarrow> mread (rp_mem_pool p) c to_write;
            m \<leftarrow> mwrite (wb_buffer w) (writingBlock w * wb_block_size w + writePos w) bs;
            Some (w\<lparr>wb_buffer := m\<rparr>) }
          else Some w);
        wb_put_loop p block_len cs (sub64 remaining to_write) (w\<lparr>writePos := add64 (writePos w) to_write\<rparr>) })"

definition wb_put :: "PointerRingPool \<Rightarrow> WBuffer \<Rightarrow> AggBuffer \<Rightarrow> WBuffer option" where
  "wb_put p w b = wb_put_loop p (ag_block_len b) (ag_chunks b) (ag_total_len b) w"

text \<open>The result of \<open>get\<close> is the position of the block in the buffer.\<close>

definition wb_get :: "WBuffer \<Rightarrow> (nat \<times> WBuffer) option" where
  "wb_get w = do {
     ready \<leftarrow> vec_get (wb_signal w) (readingBlock w);
     if \<not> ready \<and> \<not> wb_stop w then None
     else Some (readingBlock w * wb_block_size w, w\<lparr>readingBlock := add64 (readingBlock w) 1\<rparr>) }"

definition wb_asynchronousStop :: "WBuffer \<Rightarrow> WBuffer" where
  "wb_asynchronousStop w = w\<lparr>wb_stop := True\<rparr>"

section \<open>Putting into the write buffer\<close>

text \<open>The blocks already filled are the first ones, and the writer never comes back to the first block: the
  buffer is filled once, whatever the readers do.\<close>

definition wb_once :: "WBuffer \<Rightarrow> bool" where
  "wb_once w \<longleftrightarrow> 2 \<le> wb_block_count w \<and> length (wb_signal w) = wb_block_count w \<and> writingBlock w < wb_block_count w \<and>
     (\<forall>i < wb_block_count w. wb_signal w ! i \<longleftrightarrow> i < writingBlock w)"

text \<open>What the writer may change.\<close>

definition wb_step :: "WBuffer \<Rightarrow> WBuffer \<Rightarrow> bool" where
  "wb_step w w' \<longleftrightarrow> wb_once w' \<and> writingBlock w \<le> writingBlock w' \<and> wb_block_count w' = wb_block_count w \<and>
     wb_block_size w' = wb_block_size w \<and> readingBlock w' = readingBlock w \<and> wb_stop w' = wb_stop w \<and>
     length (wb_buffer w') = length (wb_buffer w)"

lemma wb_step_refl: "wb_once w \<Longrightarrow> wb_step w w"
  by (simp add: wb_step_def)

lemma wb_step_trans: "wb_step u v \<Longrightarrow> wb_step v w \<Longrightarrow> wb_step u w"
  by (auto simp: wb_step_def)

lemma next_block_once:
  assumes "wb_once w" and "wb_next_block p chunk w = Some w'"
  shows "wb_step w w'"
proof -
  let ?c = "wb_block_count w" and ?i = "writingBlock w"
  have w: "2 \<le> ?c" "length (wb_signal w) = ?c" "?i < ?c" "\<forall>i < ?c. wb_signal w ! i \<longleftrightarrow> i < ?i"
    using assms(1) by (simp_all add: wb_once_def)
  from assms(2) obtain bs m sg where n: "mwrite (wb_buffer w) (?i * wb_block_size w + writePos w) bs = Some m"
    "vec_get (wb_signal w) ((?i + 1) mod ?c) = Some False" "vec_set (wb_signal w) ?i True = Some sg"
    "w' = w\<lparr>wb_buffer := m, wb_signal := sg, writingBlock := (?i + 1) mod ?c, writePos := 0\<rparr>"
    by (auto simp: wb_next_block_Some)
  have "?i + 1 \<noteq> ?c"
  proof
    assume "?i + 1 = ?c"
    then have "\<not> wb_signal w ! 0" using n(2) by (simp add: vec_get_Some)
    moreover have "0 < ?i" using \<open>?i + 1 = ?c\<close> w(1) by simp
    ultimately show False using w(4) w(1) by auto
  qed
  then have "?i + 1 < ?c" using w(3) by simp
  then show ?thesis
    using w n mwrite_length [OF n(1)] by (auto simp: wb_step_def wb_once_def vec_set_Some nth_list_update less_Suc_eq)
qed

lemma wb_fill_once:
  "wb_once w \<Longrightarrow> wb_fill p c w tw rem = Some (w', tw', rem') \<Longrightarrow> wb_step w w'"
proof (induction p c w tw rem rule: wb_fill.induct)
  case (1 p c w tw rem)
  show ?case
  proof (cases "add64 (writePos w) tw < wb_block_size w")
    case True
    with 1(2,3) show ?thesis by (subst (asm) wb_fill.simps) (auto simp: wb_step_refl split: if_splits)
  next
    case False
    from 1(3) False obtain v where s: "\<not> (wb_block_size w = 0 \<or> wb_block_count w = 0)" "wb_next_block p c w = Some v"
      "wb_fill p c v (sub64 tw (sub64 (wb_block_size w) (writePos w))) (sub64 rem (sub64 (wb_block_size w) (writePos w))) = Some (w', tw', rem')"
      by (subst (asm) wb_fill.simps) (auto split: if_splits option.splits)
    have st: "wb_step w v" by (rule next_block_once [OF 1(2) s(2)])
    then have "wb_once v" by (simp add: wb_step_def)
    from wb_step_trans [OF st 1(1) [OF s(1) False s(2) this s(3)]] show ?thesis .
  qed
qed

lemma wb_put_once: "wb_once w \<Longrightarrow> wb_put_loop p bl cs rem w = Some w' \<Longrightarrow> wb_step w w'"
proof (induction cs arbitrary: rem w)
  case (Cons c cs)
  show ?case
  proof (cases "rem = 0")
    case True
    then show ?thesis using Cons.prems by (simp add: wb_step_refl)
  next
    case False
    with Cons.prems(2) obtain w1 tw rem1 w2 where f: "wb_fill p c w (if rem < bl then rem else bl) rem = Some (w1, tw, rem1)"
      "(if tw \<noteq> 0 then do { bs \<leftarrow> mread (rp_mem_pool p) c tw;
          m \<leftarrow> mwrite (wb_buffer w1) (writingBlock w1 * wb_block_size w1 + writePos w1) bs; Some (w1\<lparr>wb_buffer := m\<rparr>) }
        else Some w1) = Some w2"
      "wb_put_loop p bl cs (sub64 rem1 tw) (w2\<lparr>writePos := add64 (writePos w2) tw\<rparr>) = Some w'"
      by (auto simp: bind_eq_Some_conv)
    note a = wb_fill_once [OF Cons.prems(1) f(1)]
    from f(2) have b: "w2 = w1 \<or> (\<exists>m. w2 = w1\<lparr>wb_buffer := m\<rparr> \<and> length m = length (wb_buffer w1))"
      by (auto simp: bind_eq_Some_conv mwrite_length split: if_splits)
    have "wb_step w (w2\<lparr>writePos := add64 (writePos w2) tw\<rparr>)"
      using a b by (auto simp: wb_step_def wb_once_def)
    moreover have "wb_step (w2\<lparr>writePos := add64 (writePos w2) tw\<rparr>) w'"
      by (rule Cons.IH [OF _ f(3)]) (use calculation in \<open>simp add: wb_step_def\<close>)
    ultimately show ?thesis by (rule wb_step_trans)
  qed
qed (simp add: wb_step_refl)

text \<open>As long as the end of the block is not reached, the content of the aggregate is appended.\<close>

lemma wb_put_within_loop:
  assumes "\<forall>c \<in> set cs. block_ok p c" and "rem \<le> length cs * rp_block_size p" and "0 < rp_block_size p"
    and "writePos w + rem < wb_block_size w" and "wb_block_size w \<le> U64" and "0 < wb_block_count w"
    and "mwrite (wb_buffer w) (writingBlock w * wb_block_size w + writePos w) (take rem (concat (map (block_at p) cs))) = Some m"
  shows "wb_put_loop p (rp_block_size p) cs rem w = Some (w\<lparr>wb_buffer := m, writePos := writePos w + rem\<rparr>)"
  using assms
proof (induction cs arbitrary: rem w)
  case Nil
  then show ?case by (simp add: mwrite_def split: if_splits)
next
  case (Cons c cs)
  show ?case
  proof (cases "rem = 0")
    case True
    then show ?thesis using Cons.prems(7) by (simp add: mwrite_def split: if_splits)
  next
    case False
    let ?tw = "if rem < rp_block_size p then rem else rp_block_size p"
    let ?at = "writingBlock w * wb_block_size w + writePos w"
    have tw: "?tw \<le> rem" "?tw \<le> rp_block_size p" "0 < ?tw" using False Cons.prems(3) by auto
    have l: "length (block_at p c) = rp_block_size p" using Cons.prems(1) by (simp add: length_block_at)
    have "take rem (concat (map (block_at p) (c # cs))) = take ?tw (block_at p c) @ take (rem - ?tw) (concat (map (block_at p) cs))"
      using l by simp
    then have "mwrite (wb_buffer w) ?at (take ?tw (block_at p c) @ take (rem - ?tw) (concat (map (block_at p) cs))) = Some m"
      using Cons.prems(7) by (simp only:)
    moreover have "length (take ?tw (block_at p c)) = ?tw" using l tw(2) by simp
    ultimately have "\<exists>m1. mwrite (wb_buffer w) ?at (take ?tw (block_at p c)) = Some m1 \<and>
        mwrite m1 (?at + ?tw) (take (rem - ?tw) (concat (map (block_at p) cs))) = Some m"
      by (simp only: mwrite_append bind_eq_Some_conv)
    then obtain m1 where m: "mwrite (wb_buffer w) ?at (take ?tw (block_at p c)) = Some m1"
      "mwrite m1 (?at + ?tw) (take (rem - ?tw) (concat (map (block_at p) cs))) = Some m" by (elim exE conjE)
    have small: "writePos w + ?tw < wb_block_size w" "writePos w + ?tw < U64" using Cons.prems(4,5) tw(1) by linarith+
    have f: "wb_fill p c w ?tw rem = Some (w, ?tw, rem)"
      using small Cons.prems(6) by (subst wb_fill.simps) (simp add: add64_small)
    have "c + rp_block_size p \<le> length (rp_mem_pool p)" using Cons.prems(1) by (simp add: block_ok_def)
    then have r: "mread (rp_mem_pool p) c ?tw = Some (take ?tw (block_at p c))" using tw(2) by (simp add: mread_def block_at_def min_def)
    have s: "sub64 rem ?tw = rem - ?tw" using tw(1) Cons.prems(4,5) by (intro sub64_ge) linarith+
    let ?w = "w\<lparr>wb_buffer := m1, writePos := writePos w + ?tw\<rparr>"
    have "wb_put_loop p (rp_block_size p) cs (rem - ?tw) ?w =
        Some (?w\<lparr>wb_buffer := m, writePos := writePos ?w + (rem - ?tw)\<rparr>)"
    proof (rule Cons.IH)
      show "rem - ?tw \<le> length cs * rp_block_size p" using Cons.prems(2) by auto
    qed (use Cons.prems tw m(2) in \<open>simp_all add: add.assoc\<close>)
    moreover have "wb_put_loop p (rp_block_size p) (c # cs) rem w = wb_put_loop p (rp_block_size p) cs (rem - ?tw) ?w"
      using f r m(1) s False tw(3) small(2) by (simp add: add64_small)
    ultimately show ?thesis using tw(1) by simp
  qed
qed

lemma wb_put_within:
  assumes ok: "agg_ok p b" and fits: "writePos w + ag_total_len b < wb_block_size w" "wb_block_size w \<le> U64" "0 < wb_block_count w"
    and m: "mwrite (wb_buffer w) (writingBlock w * wb_block_size w + writePos w) (content p b) = Some m"
  shows "wb_put p w b = Some (w\<lparr>wb_buffer := m, writePos := writePos w + ag_total_len b\<rparr>)"
proof -
  have "ag_total_len b \<le> length (ag_chunks b) * rp_block_size p"
  proof -
    have "ag_total_len b < (ag_total_len b div rp_block_size p + 1) * rp_block_size p"
      using dividend_less_div_times [of "rp_block_size p" "ag_total_len b"] ok
      by (simp add: agg_ok_def distrib_right add.commute)
    then show ?thesis using ok by (simp add: agg_ok_def)
  qed
  then show ?thesis
    using wb_put_within_loop [of "ag_chunks b" p "ag_total_len b" w m] ok fits m
    by (simp add: wb_put_def agg_ok_def content_def)
qed

text \<open>A history of the write buffer.\<close>

datatype wb_op = Wb_put PointerRingPool AggBuffer | Wb_get | Wb_stop

fun wb_run :: "wb_op list \<Rightarrow> WBuffer \<Rightarrow> WBuffer option" where
  "wb_run [] w = Some w"
| "wb_run (Wb_put p b # ops) w = do { w' \<leftarrow> wb_put p w b; wb_run ops w' }"
| "wb_run (Wb_get # ops) w = do { (_, w') \<leftarrow> wb_get w; wb_run ops w' }"
| "wb_run (Wb_stop # ops) w = wb_run ops (wb_asynchronousStop w)"

lemma wb_run_once: "wb_once w \<Longrightarrow> wb_run ops w = Some w' \<Longrightarrow> wb_once w' \<and> wb_block_count w' = wb_block_count w"
proof (induction ops arbitrary: w)
  case (Cons op ops)
  show ?case
  proof (cases op)
    case (Wb_put p b)
    with Cons.prems(2) obtain v where v: "wb_put p w b = Some v" "wb_run ops v = Some w'" by (auto simp: bind_eq_Some_conv)
    have "wb_step w v" using wb_put_once [OF Cons.prems(1)] v(1) by (simp add: wb_put_def)
    with Cons.IH [OF _ v(2)] show ?thesis by (simp add: wb_step_def)
  next
    case Wb_get
    with Cons.prems(2) obtain r v where v: "wb_get w = Some (r, v)" "wb_run ops v = Some w'" by (auto simp: bind_eq_Some_conv)
    then have "wb_once v" "wb_block_count v = wb_block_count w"
      using Cons.prems(1) by (auto simp: wb_get_def wb_once_def bind_eq_Some_conv split: if_splits)
    with Cons.IH [OF _ v(2)] show ?thesis by simp
  next
    case Wb_stop
    with Cons.prems Cons.IH [of "wb_asynchronousStop w"] show ?thesis by (simp add: wb_asynchronousStop_def wb_once_def)
  qed
qed simp

section \<open>Properties\<close>

text \<open>C36: a flow buffer made from a fresh pool and given any list of packets holds, in its five columns, the
  timestamps, the lengths, the headers, the upstream data and the data of all packets, each in order and
  without a gap at the block boundaries.\<close>

theorem flow_buffer_columns:
  assumes "PointerRingPool_new (Some m) mem_size block = Some (Inr p)" and "isPowerOfTwo (mem_size div block)"
    and "mem_size div block dvd U64" and "8 \<le> block" and "length m = mem_size" and "mem_size < U64"
    and "\<forall>k \<in> set ks. packet_fits block k" and "5 + 5 * length ks \<le> mem_size div block"
  shows "\<exists>f p1 f' p'. FlowBuffer_new time0 finished0 p = Some (f, p1) \<and> append_packets ks p1 f = Some (f', p') \<and>
    map (content p') (fb_aggs f') = flow_columns ks"
proof -
  let ?n = "mem_size div block"
  have "?n \<noteq> 0" using assms(8) by simp
  then have bs: "0 < block" "block \<le> mem_size" by (auto simp: div_eq_0_iff)
  note new = pool_new_safe [OF assms(1,2) bs assms(5)]
  have p: "rp_block_count p = ?n" "idle p = {..<?n}"
    using assms(1,2) bs by (auto simp: PointerRingPool_new_def Let_def idle_def)
  have "5 * block \<le> ?n * block" using assms(8) by (intro mult_le_mono1) simp
  also have "\<dots> \<le> mem_size" by simp
  finally have big: "2 * block \<le> U64" using assms(6) by simp
  have ok: "aggs_ok p {} []" using new(1) p(1) assms(3) by (simp add: aggs_ok_def)
  from flow_new_ok [OF ok, of time0 finished0] p(2) assms(8) new(2) bs(1) big obtain f p1 u1 where f:
    "FlowBuffer_new time0 finished0 p = Some (f, p1)" "pool_grows p {} p1 u1 5" "aggs_ok p1 u1 (fb_aggs f)"
    "map (content p1) (fb_aggs f) = replicate 5 []" "map ag_total_len (fb_aggs f) = replicate 5 0" by auto
  have g: "rp_block_size p1 = block" "5 * length ks \<le> card (idle p1)"
    using f(2) new(2) p(2) assms(8) by (simp_all add: pool_grows_def)
  have "length ks * block \<le> ?n * block" using assms(8) by (intro mult_le_mono1) simp
  also have "\<dots> \<le> mem_size" by simp
  finally have "length ks * block < U64" using assms(6) by simp
  then have "\<forall>b \<in> set (fb_aggs f). ag_total_len b + length ks * rp_block_size p1 < U64"
    using f(5) g(1) by (simp add: fb_aggs_def replicate_five)
  from append_packets_ok [OF f(3) g(2) _ _ this] g(1) assms(4,7) obtain f' p' where q: "append_packets ks p1 f = Some (f', p')"
    "map (content p') (fb_aggs f') = map2 (@) (map (content p1) (fb_aggs f)) (flow_columns ks)" by auto
  have "map2 (@) (map (content p1) (fb_aggs f)) (flow_columns ks) = flow_columns ks"
    unfolding f(4) by (simp add: flow_columns_def replicate_five)
  with f(1) q show ?thesis by auto
qed

definition sample_parsed :: "bytes \<times> ParsedPacket" where
  "sample_parsed = ([1, 2, 3, 4, 5, 6], \<lparr>is_upstream = False, pk_data = Some 4, data_length = 2, pk_header = Some 0, header_length = 4,
     timestamp = 9, is_fin = False, is_rst = False\<rparr>)"

lemma flow_buffer_columns_witness:
  "\<exists>p f p1 f' p'. PointerRingPool_new (Some (replicate 128 0)) 128 8 = Some (Inr p) \<and> FlowBuffer_new 0 False p = Some (f, p1) \<and>
     append_packets [sample_parsed, sample_parsed] p1 f = Some (f', p') \<and>
     content p' (header_buffer f') = [1, 2, 3, 4, 1, 2, 3, 4] \<and> content p' (upstream_data_buffer f') = [] \<and>
     content p' (downstream_data_buffer f') = [5, 6, 5, 6]"
proof -
  have two: "isPowerOfTwo (128 div 8)" by (simp add: isPowerOfTwo_def)
  then obtain p where p: "PointerRingPool_new (Some (replicate 128 0)) 128 8 = Some (Inr p)"
    by (simp add: PointerRingPool_new_def Let_def)
  have e: "read_at (fst sample_parsed) (pk_header (snd sample_parsed)) (header_length (snd sample_parsed)) = Some [1, 2, 3, 4]"
    "read_at (fst sample_parsed) (pk_data (snd sample_parsed)) (data_length (snd sample_parsed)) = Some [5, 6]"
    by (simp_all add: sample_parsed_def read_at_def mread_def)
  have fits: "\<forall>k \<in> set [sample_parsed, sample_parsed]. packet_fits 8 k"
    using e by (simp add: packet_fits_def sample_parsed_def)
  from flow_buffer_columns [OF p two _ _ _ _ fits, of 0 False] obtain f p1 f' p' where
    "FlowBuffer_new 0 False p = Some (f, p1)" "append_packets [sample_parsed, sample_parsed] p1 f = Some (f', p')"
    "map (content p') (fb_aggs f') = flow_columns [sample_parsed, sample_parsed]" by auto
  then show ?thesis using p e
    by (auto simp: fb_aggs_def flow_columns_def header_bytes_def payload_bytes_def sample_parsed_def)
qed

text \<open>C37: the write buffer is filled once. Whatever is put, read or stopped, the blocks that were handed to
  the reader are the first ones, the writer is behind all of them and the last block is never handed over,
  because nothing clears a signal; a call of \<open>put\<close> that would need one more block does not return.\<close>

theorem wbuffer_filled_once:
  assumes "WBuffer_new (Some m) buffer_size block_size = Some (Inr w0)" and "2 \<le> buffer_size div block_size"
    and "wb_run ops w0 = Some w"
  shows "writingBlock w < buffer_size div block_size \<and>
    (\<forall>i < buffer_size div block_size. wb_signal w ! i \<longleftrightarrow> i < writingBlock w) \<and> \<not> wb_signal w ! (buffer_size div block_size - 1)"
proof -
  have w0: "wb_once w0" "wb_block_count w0 = buffer_size div block_size"
    using assms(1,2) by (auto simp: WBuffer_new_def wb_once_def split: if_splits)
  from wb_run_once [OF w0(1) assms(3)] w0(2) have "wb_once w" "wb_block_count w = buffer_size div block_size" by simp_all
  then show ?thesis using assms(2) by (auto simp: wb_once_def)
qed

lemma wbuffer_filled_once_witness:
  "\<exists>w0 w. WBuffer_new (Some (replicate 8 0)) 8 4 = Some (Inr w0) \<and>
     wb_run [Wb_put \<lparr>rp_mem_size = 2, rp_block_size = 2, rp_block_count = 1, rp_alloPos = 0, rp_freePos = 0, rp_mem_pool = [7, 8],
       rp_blocks = [0], rp_signal = [True]\<rparr> \<lparr>ag_chunks = [0], ag_block_len = 2, ag_total_len = 1\<rparr>, Wb_stop] w0 = Some w \<and>
     \<not> wb_signal w ! 1"
proof -
  let ?p = "\<lparr>rp_mem_size = 2, rp_block_size = 2, rp_block_count = 1, rp_alloPos = 0, rp_freePos = 0, rp_mem_pool = [7, 8],
       rp_blocks = [0], rp_signal = [True]\<rparr> :: PointerRingPool"
  let ?b = "\<lparr>ag_chunks = [0], ag_block_len = 2, ag_total_len = 1\<rparr> :: AggBuffer"
  obtain w0 where w0: "WBuffer_new (Some (replicate 8 0)) 8 4 = Some (Inr w0)" by (simp add: WBuffer_new_def)
  then have e: "writePos w0 = 0" "wb_block_size w0 = 4" "writingBlock w0 = 0" "length (wb_buffer w0) = 8" "wb_block_count w0 = 2"
    by (auto simp: WBuffer_new_def)
  have ok: "agg_ok ?p ?b" by (simp add: agg_ok_def block_ok_def One_nat_def)
  have "content ?p ?b = [7]" by (simp add: content_def block_at_def One_nat_def)
  then obtain m where "mwrite (wb_buffer w0) (writingBlock w0 * wb_block_size w0 + writePos w0) (content ?p ?b) = Some m"
    using e by (simp add: mwrite_def)
  from wb_put_within [OF ok _ _ _ this] e obtain v where "wb_put ?p w0 ?b = Some v" by auto
  then obtain w where "wb_run [Wb_put ?p ?b, Wb_stop] w0 = Some w" by simp
  with wbuffer_filled_once [OF w0 _ this] w0 show ?thesis by (auto simp: One_nat_def)
qed

end
