(* ===== verification/FlosisEngine.thy ===== *)
theory FlosisEngine
  imports FlosisBuffers PacketWriter "HOL-Library.Multiset"
begin

text \<open>
  The threads of the baseline in \<^verbatim>\<open>baseline/flosis/component\<close>: the flow engine
  (\<^verbatim>\<open>engine.cpp\<close>) parses a packet, finds the buffer of its flow in either direction and hands a
  finished buffer to the write buffer, the checker (\<^verbatim>\<open>checker.cpp\<close>) announces flows that were idle
  for too long, and the dumper (\<^verbatim>\<open>dumper.cpp\<close>) writes blocks to the disk. The flow map is a map from
  flows to their buffers; where the code iterates over it, the order is an argument.
\<close>

declare One_nat_def [simp del]

section \<open>State\<close>

record FlowEngine =
  fe_eth_header_len :: nat
  fe_len_threshold :: nat
  fe_time_threshold :: nat
  fe_flow_map :: "FlowMetadata \<rightharpoonup> FlowBuffer"
  fe_wbuffer :: WBuffer
  fe_pool :: PointerRingPool
  fe_ring :: "(FlowMetadata \<times> FlowBuffer) PointerRingBuffer"
  fe_stop :: bool

definition FlowEngine_new :: "nat \<Rightarrow> nat \<Rightarrow> nat \<Rightarrow> (FlowMetadata \<rightharpoonup> FlowBuffer) \<Rightarrow> WBuffer \<Rightarrow> PointerRingPool \<Rightarrow>
    (FlowMetadata \<times> FlowBuffer) PointerRingBuffer \<Rightarrow> FlowEngine" where
  "FlowEngine_new eth len_threshold time_threshold flows w p rb =
     \<lparr>fe_eth_header_len = eth, fe_len_threshold = len_threshold, fe_time_threshold = time_threshold, fe_flow_map = flows,
      fe_wbuffer = w, fe_pool = p, fe_ring = prb_asynchronousStop rb, fe_stop = True\<rparr>"

section \<open>Parsing\<close>

text \<open>\<open>m\<close> is the memory of the packet from its first byte on, \<open>len\<close> the length of the packet in it. The result of the
  last packet is an argument, since some members are only set for some packets. A \<open>char\<close> is signed, so
  its shift to the right keeps the sign.\<close>

definition tcp_header_length :: "byte \<Rightarrow> nat" where
  "tcp_header_length b = nat ((sint b div 16 * 4) mod 256)"

definition no_packet :: "ParsedPacket \<Rightarrow> ParsedPacket" where
  "no_packet k = k\<lparr>pk_header := None, pk_data := None\<rparr>"

definition with_lengths :: "nat \<Rightarrow> nat \<Rightarrow> ParsedPacket \<Rightarrow> ParsedPacket" where
  "with_lengths eth len k =
     (let k = k\<lparr>pk_header := Some eth, pk_data := Some (eth + header_length k)\<rparr>
      in if header_length k > len mod 65536
         then k\<lparr>header_length := len mod 65536, data_length := 0\<rparr>
         else k\<lparr>data_length := len mod 65536 - header_length k\<rparr>)"

definition l4_fields :: "bytes \<Rightarrow> nat \<Rightarrow> nat \<Rightarrow> ParsedPacket \<Rightarrow> (nat \<times> ParsedPacket) option" where
  "l4_fields m protocol l4 k =
     (if protocol = 6
      then do {
        flags \<leftarrow> vec_get m (l4 + 13);
        off \<leftarrow> vec_get m (l4 + 12);
        Some (tcp_header_length off, k\<lparr>is_fin := (flags AND 1 \<noteq> 0), is_rst := (flags AND 4 \<noteq> 0)\<rparr>) }
      else Some (8, k))"

definition fe_readPacket :: "nat \<Rightarrow> bytes \<Rightarrow> nat \<Rightarrow> nat \<Rightarrow> ParsedPacket \<Rightarrow> FlowMetadata \<Rightarrow> (ParsedPacket \<times> FlowMetadata) option" where
  "fe_readPacket eth m len ts k meta =
     (let k = k\<lparr>timestamp := ts, pk_header := Some 0\<rparr>; at = mread m;
          port = (\<lambda>pos. map_option (\<lambda>bs. word_of_nat (byte_swap 2 (le_decode bs))) (at pos 2));
          quad = (\<lambda>pos. map_option (\<lambda>bs. swap_endianness (le_decode bs)) (at pos 8)) in do {
      b0 \<leftarrow> vec_get m eth;
      let version = unat b0 div 16;
      if version = 4
      then do {
        protocol \<leftarrow> map_option unat (vec_get m (eth + 9));
        if protocol \<noteq> 6 \<and> protocol \<noteq> 17 then Some (no_packet k, meta)
        else do {
          let ihl = unat b0 mod 16 * 4;
          src \<leftarrow> at (eth + 12) 4;
          dst \<leftarrow> at (eth + 16) 4;
          sport \<leftarrow> port (eth + ihl);
          dport \<leftarrow> port (eth + ihl + 2);
          (l4_length, k) \<leftarrow> l4_fields m protocol (eth + ihl) k;
          Some (with_lengths eth len (k\<lparr>header_length := ihl + l4_length\<rparr>),
            \<lparr>sourceAddress = le_encode 4 (byte_swap 4 (le_decode src)), destinationAddress = le_encode 4 (byte_swap 4 (le_decode dst)),
             sourcePort = sport, destinationPort = dport\<rparr>) } }
      else if version = 6
      then do {
        protocol \<leftarrow> map_option unat (vec_get m (eth + 6));
        if protocol \<noteq> 6 \<and> protocol \<noteq> 17 then Some (no_packet k, meta)
        else do {
          sport \<leftarrow> port (eth + 40);
          dport \<leftarrow> port (eth + 42);
          slow \<leftarrow> quad (eth + 16);
          shigh \<leftarrow> quad (eth + 8);
          dlow \<leftarrow> quad (eth + 32);
          dhigh \<leftarrow> quad (eth + 24);
          (l4_length, k) \<leftarrow> l4_fields m protocol (eth + 40) k;
          Some (with_lengths eth len (k\<lparr>header_length := 40 + l4_length\<rparr>),
            \<lparr>sourceAddress = le_encode 8 slow @ le_encode 8 shigh, destinationAddress = le_encode 8 dlow @ le_encode 8 dhigh,
             sourcePort = sport, destinationPort = dport\<rparr>) } }
      else Some (no_packet k, meta) })"

section \<open>The flow map\<close>

definition reverse_flow :: "FlowMetadata \<Rightarrow> FlowMetadata" where
  "reverse_flow f = \<lparr>sourceAddress = destinationAddress f, destinationAddress = sourceAddress f,
     sourcePort = destinationPort f, destinationPort = sourcePort f\<rparr>"

text \<open>The buffer under which a packet is found: its flow, the direction of the packet and the buffer.\<close>

definition find_flow :: "(FlowMetadata \<rightharpoonup> FlowBuffer) \<Rightarrow> FlowMetadata \<Rightarrow> (FlowMetadata \<times> bool \<times> FlowBuffer) option" where
  "find_flow flows meta =
     (case flows meta of Some b \<Rightarrow> Some (meta, True, b)
      | None \<Rightarrow> (case flows (reverse_flow meta) of Some b \<Rightarrow> Some (reverse_flow meta, False, b) | None \<Rightarrow> None))"

text \<open>The arguments \<open>time0\<close> and \<open>finished0\<close> are what a new buffer finds in its uninitialised members. The
  result is the buffer to be written out, if any. A new buffer whose first packet is refused is deleted.\<close>

definition new_flow :: "nat \<Rightarrow> bool \<Rightarrow> bytes \<Rightarrow> PointerRingPool \<Rightarrow> (FlowBuffer \<Rightarrow> FlowBuffer) \<Rightarrow> ParsedPacket \<Rightarrow>
    (FlowBuffer option \<times> PointerRingPool) option" where
  "new_flow time0 finished0 m p flags k = do {
     (b, p) \<leftarrow> FlowBuffer_new time0 finished0 p;
     (ok, b, p) \<leftarrow> append_packet m p (flags b) k;
     if ok then Some (Some b, p) else do { p \<leftarrow> FlowBuffer_delete p b; Some (None, p) } }"

definition writePacketToMap :: "nat \<Rightarrow> bool \<Rightarrow> bytes \<Rightarrow> FlowEngine \<Rightarrow> ParsedPacket \<Rightarrow> FlowMetadata \<Rightarrow> (FlowBuffer option \<times> FlowEngine) option" where
  "writePacketToMap time0 finished0 m e k meta =
     (let flows = fe_flow_map e; p = fe_pool e in
      case find_flow flows meta of
        None \<Rightarrow> do {
          (b, p) \<leftarrow> new_flow time0 finished0 m p (\<lambda>b. b) (k\<lparr>is_upstream := True\<rparr>);
          Some (None, e\<lparr>fe_pool := p, fe_flow_map := (case b of None \<Rightarrow> flows | Some b \<Rightarrow> flows(meta \<mapsto> b))\<rparr>) }
      | Some (key, up, buffer) \<Rightarrow>
          let k = k\<lparr>is_upstream := up\<rparr> in
          if (get_totol_length buffer + data_length k + header_length k) mod 4294967296 < fe_len_threshold e \<and>
             \<not> is_finished buffer \<and> \<not> threshold_finished buffer (fe_time_threshold e) (timestamp k)
          then do {
            (ok, b, p) \<leftarrow> append_packet m p buffer k;
            if is_finished b then Some (Some b, e\<lparr>fe_pool := p, fe_flow_map := flows(key := None)\<rparr>)
            else Some (None, e\<lparr>fe_pool := p, fe_flow_map := flows(key \<mapsto> b)\<rparr>) }
          else do {
            (b, p) \<leftarrow> new_flow time0 finished0 m p
              (\<lambda>b. if \<not> is_finished buffer then set_flags b (fin_seen buffer) (rst_seen buffer) (count_after_fin buffer) else b)
              (k\<lparr>is_upstream := True\<rparr>);
            case b of None \<Rightarrow> Some (None, e\<lparr>fe_pool := p\<rparr>)
            | Some b \<Rightarrow> Some (Some buffer, e\<lparr>fe_pool := p, fe_flow_map := flows(key \<mapsto> b)\<rparr>) })"

section \<open>Writing out and the main loop\<close>

fun put_all :: "PointerRingPool \<Rightarrow> AggBuffer list \<Rightarrow> WBuffer \<Rightarrow> WBuffer option" where
  "put_all p [] w = Some w"
| "put_all p (b # bs) w = do { w' \<leftarrow> wb_put p w b; put_all p bs w' }"

definition writeFlowtoWBuffer :: "FlowEngine \<Rightarrow> FlowBuffer \<Rightarrow> FlowEngine option" where
  "writeFlowtoWBuffer e b = do {
     w \<leftarrow> put_all (fe_pool e) [timestamp_buffer b, length_buffer b, header_buffer b, upstream_data_buffer b, downstream_data_buffer b]
       (fe_wbuffer e);
     p \<leftarrow> FlowBuffer_delete (fe_pool e) b;
     Some (e\<lparr>fe_wbuffer := w, fe_pool := p\<rparr>) }"

text \<open>A received packet: its memory, its length, the time and what a new buffer would find in its memory.\<close>

record rx_packet =
  rx_memory :: bytes
  rx_len :: nat
  rx_ts :: nat
  rx_time0 :: nat
  rx_finished0 :: bool

definition engine_packet :: "rx_packet \<Rightarrow> FlowEngine \<times> ParsedPacket \<times> FlowMetadata \<Rightarrow> (FlowEngine \<times> ParsedPacket \<times> FlowMetadata) option" where
  "engine_packet r = (\<lambda>(e, k, meta). do {
     (k, meta) \<leftarrow> fe_readPacket (fe_eth_header_len e) (rx_memory r) (rx_len r) (rx_ts r) k meta;
     if pk_header k = None \<or> pk_data k = None then Some (e, k, meta)
     else do {
       (out, e) \<leftarrow> writePacketToMap (rx_time0 r) (rx_finished0 r) (rx_memory r) e k meta;
       e \<leftarrow> (case out of None \<Rightarrow> Some e | Some b \<Rightarrow> writeFlowtoWBuffer e b);
       Some (e, no_packet k, meta) } })"

fun engine_packets :: "rx_packet list \<Rightarrow> FlowEngine \<times> ParsedPacket \<times> FlowMetadata \<Rightarrow> (FlowEngine \<times> ParsedPacket \<times> FlowMetadata) option" where
  "engine_packets [] s = Some s"
| "engine_packets (r # rs) s = do { s' \<leftarrow> engine_packet r s; engine_packets rs s' }"

text \<open>The loop over the announcements of the checker. A flow that is still in the map is only reported; for one
  that is not, the end iterator is erased, which is undefined. Every round takes a value from the ring, so
  one round more than its capacity is enough.\<close>

fun engine_announced :: "nat \<Rightarrow> FlowEngine \<Rightarrow> FlowEngine option" where
  "engine_announced 0 e = None"
| "engine_announced (Suc n) e = do {
     (kv, rb) \<leftarrow> prb_get (fe_ring e);
     let e = e\<lparr>fe_ring := rb\<rparr>;
     case kv of None \<Rightarrow> Some e
     | Some (key, b) \<Rightarrow> if fe_flow_map e key \<noteq> None then engine_announced n e else None }"

definition engine_burst :: "rx_packet list \<Rightarrow> FlowEngine \<times> ParsedPacket \<times> FlowMetadata \<Rightarrow> (FlowEngine \<times> ParsedPacket \<times> FlowMetadata) option" where
  "engine_burst rs s = do {
     (e, k, meta) \<leftarrow> engine_packets rs s;
     e \<leftarrow> engine_announced (prb_capacity (fe_ring e) + 1) e;
     Some (e, k, meta) }"

text \<open>After the stop all flows are written out, in the order of the map.\<close>

fun engine_finish :: "FlowMetadata list \<Rightarrow> FlowEngine \<Rightarrow> FlowEngine option" where
  "engine_finish [] e = Some e"
| "engine_finish (key # keys) e = do {
     b \<leftarrow> fe_flow_map e key;
     e' \<leftarrow> writeFlowtoWBuffer e b;
     engine_finish keys e' }"

definition fe_asynchronousStop :: "FlowEngine \<Rightarrow> FlowEngine" where
  "fe_asynchronousStop e = e\<lparr>fe_stop := True\<rparr>"

section \<open>Checker and dumper\<close>

fun checker_check :: "nat \<Rightarrow> nat \<Rightarrow> FlowMetadata list \<Rightarrow> (FlowMetadata \<rightharpoonup> FlowBuffer) \<Rightarrow> (FlowMetadata \<times> FlowBuffer) PointerRingBuffer \<Rightarrow>
    ((FlowMetadata \<rightharpoonup> FlowBuffer) \<times> (FlowMetadata \<times> FlowBuffer) PointerRingBuffer) option" where
  "checker_check threshold ts [] flows rb = Some (flows, rb)"
| "checker_check threshold ts (key # keys) flows rb = do {
     b \<leftarrow> flows key;
     if threshold_finished b threshold ts
     then do {
       (_, rb') \<leftarrow> prb_put rb (Some (key, set_finished b));
       checker_check threshold ts keys (flows(key \<mapsto> set_finished b)) rb' }
     else checker_check threshold ts keys flows rb }"

record Dumper =
  du_offset :: nat
  du_capacity :: nat
  du_write_place :: nat
  du_stop :: bool

datatype dump_error = Dump_write_failed

definition Dumper_new :: "nat \<Rightarrow> nat \<Rightarrow> Dumper" where
  "Dumper_new offset cap = \<lparr>du_offset = offset, du_capacity = cap, du_write_place = 0, du_stop = True\<rparr>"

text \<open>The write request \<open>(position, size)\<close> goes to the system, whose answer is an argument.\<close>

definition dump :: "bool \<Rightarrow> Dumper \<Rightarrow> nat \<Rightarrow> (dump_error + ((nat \<times> nat) \<times> Dumper)) option" where
  "dump write_ok d n =
     (if \<not> write_ok then Some (Inl Dump_write_failed)
      else if du_capacity d = 0 then None
      else Some (Inr ((add64 (du_offset d) (du_write_place d), n),
        d\<lparr>du_write_place := add64 (du_write_place d) n mod du_capacity d\<rparr>)))"

section \<open>All buffers of the engine\<close>

text \<open>Whether aggregates share no block does not depend on their order.\<close>

lemma pairwise_distinct_concat:
  "(\<forall>b \<in> set bs. distinct (f b)) \<Longrightarrow>
     (\<forall>i < length bs. \<forall>j < length bs. i \<noteq> j \<longrightarrow> set (f (bs ! i)) \<inter> set (f (bs ! j)) = {}) \<longleftrightarrow> distinct (concat (map f bs))"
proof (induction bs)
  case (Cons b bs)
  have sym: "set (f (bs ! i)) \<inter> set (f b) = set (f b) \<inter> set (f (bs ! i))" for i by blast
  have "(\<forall>i < length (b # bs). \<forall>j < length (b # bs). i \<noteq> j \<longrightarrow> set (f ((b # bs) ! i)) \<inter> set (f ((b # bs) ! j)) = {}) \<longleftrightarrow>
      (\<forall>j < length bs. set (f b) \<inter> set (f (bs ! j)) = {}) \<and>
      (\<forall>i < length bs. \<forall>j < length bs. i \<noteq> j \<longrightarrow> set (f (bs ! i)) \<inter> set (f (bs ! j)) = {})"
    unfolding list.size add_Suc_right add_0_right All_less_Suc2
    by (simp add: sym imp_conjR all_conj_distrib)
  also have "(\<forall>j < length bs. set (f b) \<inter> set (f (bs ! j)) = {}) \<longleftrightarrow> set (f b) \<inter> set (concat (map f bs)) = {}"
  proof -
    have "(\<forall>j < length bs. set (f b) \<inter> set (f (bs ! j)) = {}) \<longleftrightarrow> (\<forall>x \<in> set bs. set (f b) \<inter> set (f x) = {})"
      by (simp add: all_set_conv_all_nth)
    then show ?thesis by auto
  qed
  finally show ?case using Cons by auto
qed simp

lemma aggs_ok_mset:
  assumes "aggs_ok p used bs" and "mset bs = mset cs"
  shows "aggs_ok p used cs"
proof -
  have s: "set bs = set cs" by (rule mset_eq_setD [OF assms(2)])
  have d: "\<forall>b \<in> set bs. distinct (ag_chunks b)" using assms(1) by (simp add: aggs_ok_def agg_ok_def)
  have m: "mset (concat (map ag_chunks xs)) = (\<Sum>b \<in># mset xs. mset (ag_chunks b))" for xs
    by (induction xs) simp_all
  have "mset (concat (map ag_chunks bs)) = mset (concat (map ag_chunks cs))"
    unfolding m assms(2) ..
  then have "distinct (concat (map ag_chunks bs)) = distinct (concat (map ag_chunks cs))"
    by (rule mset_eq_imp_distinct_iff)
  then show ?thesis
    using assms(1) pairwise_distinct_concat [of bs ag_chunks] pairwise_distinct_concat [of cs ag_chunks] d s
    unfolding aggs_ok_def by simp
qed

definition live :: "(FlowMetadata \<rightharpoonup> FlowBuffer) \<Rightarrow> FlowBuffer list \<Rightarrow> FlowBuffer multiset" where
  "live flows outs = image_mset (\<lambda>k. the (flows k)) (mset_set (dom flows)) + mset outs"

definition one_direction :: "(FlowMetadata \<rightharpoonup> FlowBuffer) \<Rightarrow> bool" where
  "one_direction flows \<longleftrightarrow> (\<forall>k \<in> dom flows. reverse_flow k \<in> dom flows \<longrightarrow> reverse_flow k = k)"

lemma reverse_reverse [simp]: "reverse_flow (reverse_flow k) = k"
  by (simp add: reverse_flow_def)

lemma one_direction_new:
  "one_direction flows \<Longrightarrow> flows meta = None \<Longrightarrow> flows (reverse_flow meta) = None \<Longrightarrow> one_direction (flows(meta \<mapsto> b))"
  unfolding one_direction_def by (auto simp: domIff)

lemma one_direction_same: "one_direction flows \<Longrightarrow> key \<in> dom flows \<Longrightarrow> one_direction (flows(key \<mapsto> b))"
  by (simp add: one_direction_def insert_absorb)

lemma one_direction_erase: "one_direction flows \<Longrightarrow> one_direction (flows(key := None))"
  by (auto simp: one_direction_def)

lemma live_new: "finite (dom flows) \<Longrightarrow> meta \<notin> dom flows \<Longrightarrow> live (flows(meta \<mapsto> b)) outs = add_mset b (live flows outs)"
proof -
  assume a: "finite (dom flows)" "meta \<notin> dom flows"
  have "image_mset (\<lambda>k. the ((flows(meta \<mapsto> b)) k)) (mset_set (dom flows)) = image_mset (\<lambda>k. the (flows k)) (mset_set (dom flows))"
    by (rule image_mset_cong) (use a in auto)
  then show ?thesis using a by (simp add: live_def)
qed

lemma live_split:
  assumes "finite (dom flows)" and "flows key = Some b"
  shows "live flows outs = add_mset b (live (flows(key := None)) outs)"
proof -
  have "flows = (flows(key := None))(key \<mapsto> b)" using assms(2) by auto
  then show ?thesis using live_new [of "flows(key := None)" key b outs] assms by (simp add: domIff)
qed

lemma live_update:
  "finite (dom flows) \<Longrightarrow> live (flows(key \<mapsto> b')) outs = add_mset b' (live (flows(key := None)) outs)"
  using live_new [of "flows(key := None)" key b' outs] by simp

lemma live_out: "live flows (outs @ [b]) = add_mset b (live flows outs)"
  by (simp add: live_def)

section \<open>One packet\<close>

definition fs_ok :: "nat \<Rightarrow> PointerRingPool \<Rightarrow> FlowBuffer list \<Rightarrow> nat \<Rightarrow> bool" where
  "fs_ok free p fs n \<longleftrightarrow> (\<exists>used. aggs_ok p used (concat (map fb_aggs fs))) \<and> free \<le> card (idle p) \<and>
     8 \<le> rp_block_size p \<and> 2 * rp_block_size p \<le> U64 \<and>
     (\<forall>f \<in> set fs. \<forall>b \<in> set (fb_aggs f). ag_total_len b \<le> n * rp_block_size p) \<and>
     (\<Sum>f\<leftarrow>fs. packet_count f) = n"

lemma fs_ok_mset: "fs_ok free p fs n \<Longrightarrow> mset fs = mset gs \<Longrightarrow> fs_ok free p gs n"
proof -
  assume a: "fs_ok free p fs n" "mset fs = mset gs"
  have m: "mset (concat (map fb_aggs xs)) = (\<Sum>b \<in># mset xs. mset (fb_aggs b))" for xs by (induction xs) simp_all
  have "mset (concat (map fb_aggs fs)) = mset (concat (map fb_aggs gs))" unfolding m a(2) ..
  moreover have "(\<Sum>f\<leftarrow>fs. packet_count f) = (\<Sum>f\<leftarrow>gs. packet_count f)"
  proof -
    have "(\<Sum>f\<leftarrow>xs. packet_count f) = (\<Sum>f \<in># mset xs. packet_count f)" for xs :: "FlowBuffer list" by (induction xs) simp_all
    then show ?thesis by (simp only: a(2))
  qed
  ultimately show ?thesis
    using a(1) aggs_ok_mset mset_eq_setD [OF a(2)] unfolding fs_ok_def by metis
qed

lemma append_in_list:
  assumes ok: "fs_ok free p (f # fs) n" and free: "5 \<le> free" and fits: "packet_fits (rp_block_size p) (m, k)"
    and small: "(n + 1) * rp_block_size p < U64"
  shows "\<exists>f' p'. append_packet m p f k = Some (True, f', p') \<and> fs_ok (free - 5) p' (f' # fs) (n + 1) \<and>
    rp_block_size p' = rp_block_size p"
proof -
  let ?s = "rp_block_size p"
  from ok obtain used where o: "aggs_ok p used (fb_aggs f @ concat (map fb_aggs fs))" "free \<le> card (idle p)" "8 \<le> ?s" "2 * ?s \<le> U64"
    "\<forall>g \<in> set (f # fs). \<forall>b \<in> set (fb_aggs g). ag_total_len b \<le> n * ?s" "(\<Sum>g\<leftarrow>f # fs. packet_count g) = n"
    by (auto simp: fs_ok_def)
  from fits obtain hd pl where r: "read_at m (pk_header k) (header_length k) = Some hd" "read_at m (pk_data k) (data_length k) = Some pl"
    "header_length k \<le> ?s" "data_length k \<le> ?s"
    by (auto simp: packet_fits_def)
  note l = read_at_length [OF r(1)] read_at_length [OF r(2)]
  have room: "\<forall>b \<in> set (fb_aggs f). ag_total_len b + ?s < U64"
  proof
    fix b assume "b \<in> set (fb_aggs f)"
    then have "ag_total_len b + ?s \<le> (n + 1) * ?s" using o(5) by (simp add: distrib_right)
    then show "ag_total_len b + ?s < U64" using small by simp
  qed
  have idle: "5 \<le> card (idle p)" using o(2) free by simp
  have sh: "length hd \<le> ?s" "length pl \<le> ?s" using l r(3,4) by simp_all
  from append_packet_ok [OF o(1) idle r(1,2) room o(3) sh] obtain f' p' u where a: "append_packet m p f k = Some (True, f', p')"
    "pool_grows p used p' u 5" "aggs_ok p' u (fb_aggs f' @ concat (map fb_aggs fs))"
    "map ag_total_len (fb_aggs f') = map2 (+) (map ag_total_len (fb_aggs f)) (map length (packet_columns k hd pl))"
    "\<exists>a b c d e. f' = after_packet (f\<lparr>timestamp_buffer := a, length_buffer := b, header_buffer := c, upstream_data_buffer := d,
       downstream_data_buffer := e\<rparr>) k" by (elim exE conjE) (rule that; blast)
  have g: "rp_block_size p' = ?s" "free - 5 \<le> card (idle p')" using a(2) o(2) by (auto simp: pool_grows_def)
  have "packet_count f \<le> n" using o(6) by simp
  then have "packet_count f + 1 \<le> n + 1" by simp
  also have "\<dots> \<le> (n + 1) * ?s" using o(3) by simp
  finally have "packet_count f + 1 < U64" using small by simp
  then have c: "packet_count f' = packet_count f + 1" using a(5) by (auto simp: after_packet_def add64_small)
  have old: "ag_total_len b \<le> n * ?s" if "b \<in> set (fb_aggs f)" for b using o(5) that by auto
  have "\<forall>b \<in> set (fb_aggs f'). ag_total_len b \<le> (n + 1) * ?s"
  proof -
    have "ag_total_len (timestamp_buffer f) \<le> n * ?s" "ag_total_len (length_buffer f) \<le> n * ?s" "ag_total_len (header_buffer f) \<le> n * ?s"
      "ag_total_len (upstream_data_buffer f) \<le> n * ?s" "ag_total_len (downstream_data_buffer f) \<le> n * ?s"
      by (rule old, simp add: fb_aggs_def)+
    then show ?thesis using a(4) o(3) r(3,4) l by (auto simp: fb_aggs_def packet_columns_def distrib_right)
  qed
  moreover have "\<forall>g \<in> set fs. \<forall>b \<in> set (fb_aggs g). ag_total_len b \<le> (n + 1) * ?s"
  proof (intro ballI)
    fix g b assume "g \<in> set fs" "b \<in> set (fb_aggs g)"
    then have "ag_total_len b \<le> n * ?s" using o(5) by simp
    also have "\<dots> \<le> (n + 1) * ?s" by simp
    finally show "ag_total_len b \<le> (n + 1) * ?s" .
  qed
  ultimately have "fs_ok (free - 5) p' (f' # fs) (n + 1)"
    using a(3) g o(3,4,6) c by (auto simp: fs_ok_def)
  then show ?thesis using a(1) g(1) by blast
qed

lemma new_in_list:
  assumes ok: "fs_ok free p fs n" and free: "10 \<le> free" and fits: "packet_fits (rp_block_size p) (m, k)"
    and small: "(n + 1) * rp_block_size p < U64" and flags: "\<And>b. fb_aggs (flags b) = fb_aggs b \<and> packet_count (flags b) = packet_count b"
  shows "\<exists>f p'. new_flow time0 finished0 m p flags k = Some (Some f, p') \<and> fs_ok (free - 10) p' (f # fs) (n + 1) \<and>
    rp_block_size p' = rp_block_size p"
proof -
  let ?s = "rp_block_size p"
  from ok obtain used where o: "aggs_ok p used (concat (map fb_aggs fs))" "free \<le> card (idle p)" "8 \<le> ?s" "2 * ?s \<le> U64"
    "\<forall>g \<in> set fs. \<forall>b \<in> set (fb_aggs g). ag_total_len b \<le> n * ?s" "(\<Sum>g\<leftarrow>fs. packet_count g) = n"
    by (auto simp: fs_ok_def)
  have pre: "5 \<le> card (idle p)" "0 < ?s" using o(2,3) free by simp_all
  from flow_new_ok [OF o(1) pre o(4), of time0 finished0] obtain f p1 u where f: "FlowBuffer_new time0 finished0 p = Some (f, p1)"
    "pool_grows p used p1 u 5" "aggs_ok p1 u (concat (map fb_aggs fs) @ fb_aggs f)" "map ag_total_len (fb_aggs f) = replicate 5 0" by blast
  have g: "rp_block_size p1 = ?s" "free - 5 \<le> card (idle p1)" using f(2) o(2) by (auto simp: pool_grows_def)
  have "packet_count f = 0" using f(1) by (auto simp: FlowBuffer_new_def bind_eq_Some_conv)
  have perm: "aggs_ok p1 u (concat (map fb_aggs (flags f # fs)))" by (rule aggs_ok_mset [OF f(3)]) (simp add: flags)
  have "\<forall>b \<in> set (fb_aggs f). ag_total_len b = 0" using f(4) by (simp add: fb_aggs_def replicate_five)
  then have "fs_ok (free - 5) p1 (flags f # fs) n"
    using perm g o(3-6) \<open>packet_count f = 0\<close> flags [of f] unfolding fs_ok_def by auto
  moreover have "5 \<le> free - 5" using free by linarith
  ultimately have "fs_ok (free - 5) p1 (flags f # fs) n" "5 \<le> free - 5" by blast+
  from append_in_list [OF this, of m k] fits small g(1) obtain f' p' where "append_packet m p1 (flags f) k = Some (True, f', p')"
    "fs_ok (free - 5 - 5) p' (f' # fs) (n + 1)" "rp_block_size p' = ?s" by auto
  then show ?thesis using f(1) by (simp add: new_flow_def)
qed

section \<open>A sequence of packets\<close>

text \<open>Parsed packets with the memory they lie in; \<open>outs\<close> are the buffers handed out so far.\<close>

record map_packet =
  mp_memory :: bytes
  mp_packet :: ParsedPacket
  mp_meta :: FlowMetadata
  mp_time0 :: nat
  mp_finished0 :: bool

fun map_packets :: "map_packet list \<Rightarrow> FlowEngine \<Rightarrow> FlowBuffer list \<Rightarrow> (FlowEngine \<times> FlowBuffer list) option" where
  "map_packets [] e outs = Some (e, outs)"
| "map_packets (r # rs) e outs = do {
     (out, e') \<leftarrow> writePacketToMap (mp_time0 r) (mp_finished0 r) (mp_memory r) e (mp_packet r) (mp_meta r);
     map_packets rs e' (case out of None \<Rightarrow> outs | Some b \<Rightarrow> outs @ [b]) }"

definition engine_ok :: "nat \<Rightarrow> FlowEngine \<Rightarrow> FlowBuffer list \<Rightarrow> nat \<Rightarrow> bool" where
  "engine_ok free e outs n \<longleftrightarrow> finite (dom (fe_flow_map e)) \<and> one_direction (fe_flow_map e) \<and>
     (\<exists>fs. mset fs = live (fe_flow_map e) outs \<and> fs_ok free (fe_pool e) fs n)"

lemma engine_okI:
  "mset fs = live (fe_flow_map e) outs \<Longrightarrow> finite (dom (fe_flow_map e)) \<Longrightarrow> one_direction (fe_flow_map e) \<Longrightarrow>
    fs_ok free (fe_pool e) fs n \<Longrightarrow> engine_ok free e outs n"
  unfolding engine_ok_def by blast

lemma is_upstream_fits: "packet_fits s (m, k\<lparr>is_upstream := u\<rparr>) = packet_fits s (m, k)"
  by (simp add: packet_fits_def)

lemma fs_ok_less: "fs_ok free p fs n \<Longrightarrow> fewer \<le> free \<Longrightarrow> fs_ok fewer p fs n"
  by (auto simp: fs_ok_def)

lemma write_step:
  assumes ok: "engine_ok free e outs n" and free: "10 \<le> free" and fits: "packet_fits (rp_block_size (fe_pool e)) (m, k)"
    and small: "(n + 1) * rp_block_size (fe_pool e) < U64"
  shows "\<exists>out e'. writePacketToMap time0 finished0 m e k meta = Some (out, e') \<and>
    engine_ok (free - 10) e' (case out of None \<Rightarrow> outs | Some b \<Rightarrow> outs @ [b]) (n + 1) \<and>
    rp_block_size (fe_pool e') = rp_block_size (fe_pool e) \<and> fe_len_threshold e' = fe_len_threshold e"
proof -
  let ?flows = "fe_flow_map e" and ?p = "fe_pool e"
  from ok obtain fs where f: "finite (dom ?flows)" "one_direction ?flows" "mset fs = live ?flows outs" "fs_ok free ?p fs n"
    by (auto simp: engine_ok_def)
  have five: "5 \<le> free" using free by simp
  show ?thesis
  proof (cases "find_flow ?flows meta")
    case None
    then have m: "?flows meta = None" "?flows (reverse_flow meta) = None" by (auto simp: find_flow_def split: option.splits)
    let ?k = "k\<lparr>is_upstream := True\<rparr>"
    from new_in_list [OF f(4) free, of m ?k "\<lambda>b. b" time0 finished0] fits small is_upstream_fits obtain b p' where b:
      "new_flow time0 finished0 m ?p (\<lambda>b. b) ?k = Some (Some b, p')" "fs_ok (free - 10) p' (b # fs) (n + 1)"
      "rp_block_size p' = rp_block_size ?p" by auto
    have "mset (b # fs) = live (?flows(meta \<mapsto> b)) outs" using f(1,3) m(1) by (simp add: live_new domIff)
    then have "engine_ok (free - 10) (e\<lparr>fe_pool := p', fe_flow_map := ?flows(meta \<mapsto> b)\<rparr>) outs (n + 1)"
      by (intro engine_okI [where fs = "b # fs"]) (use f(1) one_direction_new [OF f(2) m] b(2) in simp_all)
    then show ?thesis using None b(1,3) by (simp add: writePacketToMap_def Let_def)
  next
    case (Some x)
    then obtain key up b where x: "find_flow ?flows meta = Some (key, up, b)" by (cases x) auto
    then have key: "?flows key = Some b" by (auto simp: find_flow_def split: option.splits)
    have dom_key: "key \<in> dom ?flows" using key by blast
    let ?rest = "live (?flows(key := None)) outs"
    have sp: "live ?flows outs = add_mset b ?rest" by (rule live_split [OF f(1) key])
    obtain gs where gs: "mset gs = ?rest" using ex_mset by blast
    have perm: "fs_ok free ?p (b # gs) n" by (rule fs_ok_mset [OF f(4)]) (simp add: f(3) sp gs)
    let ?k = "k\<lparr>is_upstream := up\<rparr>"
    let ?append = "(get_totol_length b + data_length ?k + header_length ?k) mod 4294967296 < fe_len_threshold e \<and>
      \<not> is_finished b \<and> \<not> threshold_finished b (fe_time_threshold e) (timestamp ?k)"
    show ?thesis
    proof (cases ?append)
      case True
      from append_in_list [OF perm five, of m ?k] fits small is_upstream_fits obtain b' p' where a:
        "append_packet m ?p b ?k = Some (True, b', p')" "fs_ok (free - 5) p' (b' # gs) (n + 1)" "rp_block_size p' = rp_block_size ?p" by auto
      have ok': "fs_ok (free - 10) p' (b' # gs) (n + 1)" by (rule fs_ok_less [OF a(2)]) simp
      have run: "writePacketToMap time0 finished0 m e k meta =
          (if is_finished b' then Some (Some b', e\<lparr>fe_pool := p', fe_flow_map := ?flows(key := None)\<rparr>)
           else Some (None, e\<lparr>fe_pool := p', fe_flow_map := ?flows(key \<mapsto> b')\<rparr>))"
        using True a(1) x by (simp add: writePacketToMap_def Let_def)
      have "mset (b' # gs) = live (?flows(key := None)) (outs @ [b'])" by (simp add: gs live_out)
      then have "engine_ok (free - 10) (e\<lparr>fe_pool := p', fe_flow_map := ?flows(key := None)\<rparr>) (outs @ [b']) (n + 1)"
        by (intro engine_okI [where fs = "b' # gs"]) (use f(1) one_direction_erase [OF f(2)] ok' in simp_all)
      moreover have "mset (b' # gs) = live (?flows(key \<mapsto> b')) outs" by (simp only: mset.simps gs live_update [OF f(1)])
      then have "engine_ok (free - 10) (e\<lparr>fe_pool := p', fe_flow_map := ?flows(key \<mapsto> b')\<rparr>) outs (n + 1)"
        by (intro engine_okI [where fs = "b' # gs"]) (use f(1) one_direction_same [OF f(2) dom_key] ok' in simp_all)
      ultimately show ?thesis using run a(3) by simp
    next
      case False
      let ?flags = "\<lambda>c. if \<not> is_finished b then set_flags c (fin_seen b) (rst_seen b) (count_after_fin b) else c"
      have fl: "fb_aggs (?flags c) = fb_aggs c \<and> packet_count (?flags c) = packet_count c" for c
        by (simp add: set_flags_def fb_aggs_def)
      let ?k' = "?k\<lparr>is_upstream := True\<rparr>"
      from new_in_list [OF perm free, of m ?k' ?flags time0 finished0] fits small is_upstream_fits fl obtain c p' where c:
        "new_flow time0 finished0 m ?p ?flags ?k' = Some (Some c, p')" "fs_ok (free - 10) p' (c # b # gs) (n + 1)"
        "rp_block_size p' = rp_block_size ?p" by auto
      have run: "writePacketToMap time0 finished0 m e k meta = Some (Some b, e\<lparr>fe_pool := p', fe_flow_map := ?flows(key \<mapsto> c)\<rparr>)"
        unfolding writePacketToMap_def Let_def x option.case prod.case if_not_P [OF False] c(1) Option.bind.simps ..
      have "mset (c # b # gs) = live (?flows(key \<mapsto> c)) (outs @ [b])"
        by (simp only: mset.simps gs live_update [OF f(1)] live_out add_mset_commute)
      then have "engine_ok (free - 10) (e\<lparr>fe_pool := p', fe_flow_map := ?flows(key \<mapsto> c)\<rparr>) (outs @ [b]) (n + 1)"
        by (intro engine_okI [where fs = "c # b # gs"]) (use f(1) one_direction_same [OF f(2) dom_key] c(2) in simp_all)
      then show ?thesis using run c(3) by simp
    qed
  qed
qed

section \<open>From an empty map\<close>

lemma map_packets_ok:
  "engine_ok free e outs n \<Longrightarrow> 10 * length rs \<le> free \<Longrightarrow>
   \<forall>r \<in> set rs. packet_fits (rp_block_size (fe_pool e)) (mp_memory r, mp_packet r) \<Longrightarrow>
   (n + length rs) * rp_block_size (fe_pool e) < U64 \<Longrightarrow>
   \<exists>e' outs'. map_packets rs e outs = Some (e', outs') \<and> engine_ok (free - 10 * length rs) e' outs' (n + length rs)"
proof (induction rs arbitrary: free e outs n)
  case (Cons r rs)
  let ?s = "rp_block_size (fe_pool e)"
  have "(n + 1) * ?s \<le> (n + length (r # rs)) * ?s" by (intro mult_le_mono1) (simp add: One_nat_def)
  then have small: "(n + 1) * ?s < U64" using Cons.prems(4) by linarith
  have free: "10 \<le> free" using Cons.prems(2) by simp
  have fits: "packet_fits ?s (mp_memory r, mp_packet r)" using Cons.prems(3) by simp
  from write_step [OF Cons.prems(1) free fits small, of "mp_time0 r" "mp_finished0 r" "mp_meta r"] obtain out e1 where w:
    "writePacketToMap (mp_time0 r) (mp_finished0 r) (mp_memory r) e (mp_packet r) (mp_meta r) = Some (out, e1)"
    "engine_ok (free - 10) e1 (case out of None \<Rightarrow> outs | Some b \<Rightarrow> outs @ [b]) (n + 1)"
    "rp_block_size (fe_pool e1) = ?s" by blast
  have "10 * length rs \<le> free - 10" using Cons.prems(2) by simp
  moreover have "\<forall>r \<in> set rs. packet_fits (rp_block_size (fe_pool e1)) (mp_memory r, mp_packet r)" using Cons.prems(3) w(3) by simp
  moreover have "(n + 1 + length rs) * rp_block_size (fe_pool e1) < U64" using Cons.prems(4) w(3) by (simp add: One_nat_def)
  ultimately have "\<exists>e' outs'. map_packets rs e1 (case out of None \<Rightarrow> outs | Some b \<Rightarrow> outs @ [b]) = Some (e', outs') \<and>
      engine_ok (free - 10 - 10 * length rs) e' outs' (n + 1 + length rs)"
    by (rule Cons.IH [OF w(2)])
  then show ?case using w(1) by (simp add: One_nat_def)
qed simp

lemma engine_ok_count:
  assumes "engine_ok free e outs n"
  shows "(\<Sum>k \<in> dom (fe_flow_map e). packet_count (the (fe_flow_map e k))) + (\<Sum>b\<leftarrow>outs. packet_count b) = n"
proof -
  from assms obtain fs where f: "mset fs = live (fe_flow_map e) outs" "(\<Sum>f\<leftarrow>fs. packet_count f) = n"
    by (auto simp: engine_ok_def fs_ok_def)
  have sum: "(\<Sum>f\<leftarrow>xs. packet_count f) = (\<Sum>f \<in># mset xs. packet_count f)" for xs :: "FlowBuffer list" by (induction xs) simp_all
  show ?thesis using f(2) unfolding sum f(1) by (simp add: live_def sum_unfold_sum_mset image_mset.compositionality comp_def)
qed

lemma fresh_engine_ok:
  assumes pool: "PointerRingPool_new (Some m) mem_size block = Some (Inr p)" and two: "isPowerOfTwo (mem_size div block)"
    and n: "mem_size div block dvd U64" "2 \<le> mem_size div block" and sizes: "8 \<le> block" "length m = mem_size" "mem_size < U64"
    and e: "fe_pool e = p" "fe_flow_map e = Map.empty"
  shows "engine_ok (mem_size div block) e [] 0" and "rp_block_size p = block"
proof -
  let ?n = "mem_size div block"
  have bs: "0 < block" "block \<le> mem_size" using n(2) sizes(1) by (auto simp: div_eq_0_iff not_less [symmetric])
  note new = pool_new_safe [OF pool two bs sizes(2)]
  show "rp_block_size p = block" by (rule new(2))
  have p: "rp_block_count p = ?n" "idle p = {..<?n}"
    using pool two bs by (auto simp: PointerRingPool_new_def Let_def idle_def)
  have "2 * block \<le> ?n * block" using n(2) by (intro mult_le_mono1)
  also have "\<dots> \<le> mem_size" by simp
  finally have big: "2 * block \<le> U64" using sizes(3) by simp
  have "aggs_ok p {} []" using new(1) p(1) n(1) by (simp add: aggs_ok_def)
  then have "fs_ok ?n p [] 0" using p(2) new(2) big sizes(1) by (auto simp: fs_ok_def)
  then show "engine_ok ?n e [] 0"
    by (intro engine_okI [where fs = "[]"]) (use e in \<open>simp_all add: live_def one_direction_def\<close>)
qed

text \<open>C22: The flow engine loses no packet. From an empty map and a fresh pool with ten blocks for each packet, packets whose parts fit
  into blocks are all stored: none makes the engine stop, the packets counted by the buffers of the map and
  by the buffers handed out for writing sum up to the number of packets, and no flow is in the map
  in both directions.\<close>

theorem engine_conserves_packets:
  assumes "PointerRingPool_new (Some m) mem_size block = Some (Inr p)" and "isPowerOfTwo (mem_size div block)"
    and "mem_size div block dvd U64" and "8 \<le> block" and "length m = mem_size" and "mem_size < U64"
    and "fe_pool e = p" and "fe_flow_map e = Map.empty"
    and "\<forall>r \<in> set rs. packet_fits block (mp_memory r, mp_packet r)" and "2 + 10 * length rs \<le> mem_size div block"
  shows "\<exists>e' outs. map_packets rs e [] = Some (e', outs) \<and>
    (\<Sum>k \<in> dom (fe_flow_map e'). packet_count (the (fe_flow_map e' k))) + (\<Sum>b\<leftarrow>outs. packet_count b) = length rs \<and>
    (\<forall>k \<in> dom (fe_flow_map e'). reverse_flow k \<in> dom (fe_flow_map e') \<longrightarrow> reverse_flow k = k)"
proof -
  let ?n = "mem_size div block"
  have n: "2 \<le> ?n" "10 * length rs \<le> ?n" using assms(10) by simp_all
  note fresh = fresh_engine_ok [OF assms(1-3) n(1) assms(4-8)]
  have "length rs * block \<le> ?n * block" using n(2) by (intro mult_le_mono1) simp
  also have "\<dots> \<le> mem_size" by simp
  finally have small: "(0 + length rs) * rp_block_size (fe_pool e) < U64" using assms(6,7) fresh(2) by simp
  have fits: "\<forall>r \<in> set rs. packet_fits (rp_block_size (fe_pool e)) (mp_memory r, mp_packet r)" using assms(7,9) fresh(2) by simp
  from map_packets_ok [OF fresh(1) n(2) fits small] obtain e' outs where
    r: "map_packets rs e [] = Some (e', outs)" "engine_ok (?n - 10 * length rs) e' outs (0 + length rs)" by blast
  then have "one_direction (fe_flow_map e')" by (simp add: engine_ok_def)
  then show ?thesis using r(1) engine_ok_count [OF r(2)] by (simp add: one_direction_def)
qed

definition example_meta :: FlowMetadata where
  "example_meta = \<lparr>sourceAddress = [1, 2, 3, 4], destinationAddress = [5, 6, 7, 8], sourcePort = 10, destinationPort = 20\<rparr>"

definition example_map_packet :: "FlowMetadata \<Rightarrow> map_packet" where
  "example_map_packet meta = \<lparr>mp_memory = fst sample_parsed, mp_packet = snd sample_parsed, mp_meta = meta, mp_time0 = 0, mp_finished0 = False\<rparr>"

lemma engine_conserves_packets_witness:
  "\<exists>p e e' outs. PointerRingPool_new (Some (replicate 256 0)) 256 8 = Some (Inr p) \<and> fe_pool e = p \<and>
     map_packets [example_map_packet example_meta, example_map_packet (reverse_flow example_meta)] e [] = Some (e', outs) \<and>
     (\<Sum>k \<in> dom (fe_flow_map e'). packet_count (the (fe_flow_map e' k))) + (\<Sum>b\<leftarrow>outs. packet_count b) = 2"
proof -
  have two: "isPowerOfTwo (256 div 8)" by (simp add: isPowerOfTwo_def)
  then obtain p where p: "PointerRingPool_new (Some (replicate 256 0)) 256 8 = Some (Inr p)"
    by (simp add: PointerRingPool_new_def Let_def)
  obtain e :: FlowEngine where e: "fe_pool e = p" "fe_flow_map e = Map.empty"
    using FlowEngine.select_convs(4,6) by metis
  let ?rs = "[example_map_packet example_meta, example_map_packet (reverse_flow example_meta)]"
  have fits: "\<forall>r \<in> set ?rs. packet_fits 8 (mp_memory r, mp_packet r)"
    by (simp add: packet_fits_def sample_parsed_def example_map_packet_def read_at_def mread_def)
  from engine_conserves_packets [OF p two _ _ _ _ e fits] obtain e' outs where "map_packets ?rs e [] = Some (e', outs)"
    "(\<Sum>k \<in> dom (fe_flow_map e'). packet_count (the (fe_flow_map e' k))) + (\<Sum>b\<leftarrow>outs. packet_count b) = length ?rs" by auto
  then show ?thesis using p e(1) by (intro exI [of _ p] exI [of _ e] exI [of _ e'] exI [of _ outs]) simp
qed

end
