(* ===== verification/TrieTrees.thy ===== *)
theory TrieTrees
  imports Prelude
begin

text \<open>
  The two prefix trees of \<^verbatim>\<open>dpdk_lib/binaryTree.hpp\<close> and \<^verbatim>\<open>dpdk_lib/TrieTree.hpp\<close>, both with 256 children for a
  node and lists of values at a fixed depth. The second one keeps the list of a key at the first node that
  has no other key below it and moves it down when a second key arrives. A child is a node or, after
  a cast, a list of values; using the one as the other is the result \<open>None\<close>. The trees are built but
  never searched by the program; they are compared by the lists a walk along a key arrives at.
\<close>

declare One_nat_def [simp del]

section \<open>Lists of values\<close>

datatype ValueList = ValueList (vl_key: bytes) (vl_values: "nat list")

fun vl_insert :: "ValueList \<Rightarrow> nat \<Rightarrow> ValueList" where
  "vl_insert (ValueList key vs) value = ValueList key (vs @ [value])"

lemma vl_insert_parts [simp]: "vl_key (vl_insert vl v) = vl_key vl" "vl_values (vl_insert vl v) = vl_values vl @ [v]"
  by (cases vl; simp)+

section \<open>The plain tree\<close>

datatype BinaryNode = BinaryNode (bn_layer: nat) (bn_children: "BinaryChild option list")
  and BinaryChild = Bin_values ValueList | Bin_node BinaryNode

definition BinaryNode_new :: "nat \<Rightarrow> BinaryNode" where
  "BinaryNode_new l = BinaryNode l (replicate 256 None)"

record BinaryTree =
  bt_maxLayer :: nat
  bt_keyLen :: nat
  bt_nodeNum :: nat
  bt_root :: BinaryNode

definition BinaryTree_new :: "nat \<Rightarrow> nat \<Rightarrow> BinaryTree" where
  "BinaryTree_new max_layer key_len =
     \<lparr>bt_maxLayer = max_layer, bt_keyLen = key_len, bt_nodeNum = 0, bt_root = BinaryNode_new 0\<rparr>"

text \<open>The walk of an insertion along the bytes of the key; \<open>layer\<close> is the number of bytes already used.\<close>

fun bin_walk :: "nat \<Rightarrow> bytes \<Rightarrow> nat \<Rightarrow> nat \<Rightarrow> bytes \<Rightarrow> BinaryNode \<Rightarrow> BinaryNode option" where
  "bin_walk ml key v layer [] t = Some t"
| "bin_walk ml key v layer (c # cs) (BinaryNode l ch) =
     (let layer = layer + 1; uc = unat c in
      if layer = ml
      then (case ch ! uc of
          None \<Rightarrow> Some (BinaryNode l (ch[uc := Some (Bin_values (ValueList key [v]))]))
        | Some (Bin_values vl) \<Rightarrow> Some (BinaryNode l (ch[uc := Some (Bin_values (vl_insert vl v))]))
        | Some (Bin_node _) \<Rightarrow> None)
      else do {
        child \<leftarrow> (case ch ! uc of None \<Rightarrow> Some (BinaryNode_new layer) | Some (Bin_node t) \<Rightarrow> Some t | Some (Bin_values _) \<Rightarrow> None);
        child' \<leftarrow> bin_walk ml key v layer cs child;
        Some (BinaryNode l (ch[uc := Some (Bin_node child')])) })"

definition bin_insert :: "BinaryTree \<Rightarrow> bytes \<Rightarrow> nat \<Rightarrow> (bool \<times> BinaryTree) option" where
  "bin_insert t key v =
     (if length key \<noteq> bt_keyLen t then Some (True, t)
      else do {
        root \<leftarrow> bin_walk (bt_maxLayer t) key v 0 key (bt_root t);
        Some (True, t\<lparr>bt_nodeNum := add64 (bt_nodeNum t) 1, bt_root := root\<rparr>) })"

section \<open>The compressed tree\<close>

datatype TrieNode =
    TrieNode (tn_layer: nat) (tn_children: "TrieChild option list") (tn_childrenNum: nat) (tn_onlyChild: nat)
  and TrieChild = Trie_values ValueList | Trie_node TrieNode

definition TrieNode_new :: "nat \<Rightarrow> TrieNode" where
  "TrieNode_new l = TrieNode l (replicate 256 None) 0 0"

record TrieTree =
  tt_maxLayer :: nat
  tt_keyLen :: nat
  tt_nodeNum :: nat
  tt_root :: TrieNode

definition TrieTree_new :: "nat \<Rightarrow> nat \<Rightarrow> TrieTree" where
  "TrieTree_new max_layer key_len =
     \<lparr>tt_maxLayer = max_layer, tt_keyLen = key_len, tt_nodeNum = 0, tt_root = TrieNode_new 0\<rparr>"

text \<open>The list of the only child, as the code casts it.\<close>

definition only_values :: "TrieChild option list \<Rightarrow> nat \<Rightarrow> ValueList option" where
  "only_values ch only = (case ch ! only of Some (Trie_values vl) \<Rightarrow> Some vl | _ \<Rightarrow> None)"

text \<open>A new node with a list moved down to it. Reading a string at its length gives the zero byte, reading
  further is undefined.\<close>

definition moved_down :: "nat \<Rightarrow> ValueList \<Rightarrow> TrieChild option" where
  "moved_down layer vl =
     (if layer > length (vl_key vl) then None
      else let key_c = (if layer = length (vl_key vl) then 0 else unat (vl_key vl ! layer))
        in Some (Trie_node (TrieNode layer ((replicate 256 None)[key_c := Some (Trie_values vl)]) 1 key_c)))"

fun trie_walk :: "nat \<Rightarrow> bytes \<Rightarrow> nat \<Rightarrow> nat \<Rightarrow> bytes \<Rightarrow> TrieNode \<Rightarrow> TrieNode option" where
  "trie_walk ml key v layer [] t = Some t"
| "trie_walk ml key v layer (c # cs) (TrieNode l ch num only) =
     (let layer = layer + 1; uc = unat c;
          descend = (\<lambda>ch num. case ch ! uc of
              Some (Trie_node t) \<Rightarrow> map_option (\<lambda>t'. TrieNode l (ch[uc := Some (Trie_node t')]) num only) (trie_walk ml key v layer cs t)
            | _ \<Rightarrow> None) in
      if layer = ml \<or> num = 0
      then (case ch ! uc of
          None \<Rightarrow> Some (TrieNode l (ch[uc := Some (Trie_values (ValueList key [v]))]) (num + 1) (if num + 1 = 1 then uc else only))
        | Some (Trie_values vl) \<Rightarrow> Some (TrieNode l (ch[uc := Some (Trie_values (vl_insert vl v))]) num only)
        | Some (Trie_node _) \<Rightarrow> None)
      else if ch ! uc = None
      then
        if num = 1
        then do {
          vl \<leftarrow> only_values ch only;
          if vl_key vl = key then Some (TrieNode l (ch[only := Some (Trie_values (vl_insert vl v))]) num only)
          else do {
            down \<leftarrow> moved_down layer vl;
            descend (ch[only := Some down, uc := Some (Trie_node (TrieNode_new layer))]) (num + 1) } }
        else descend (ch[uc := Some (Trie_node (TrieNode_new layer))]) (num + 1)
      else if num = 1
      then do {
        vl \<leftarrow> only_values ch only;
        if vl_key vl = key then Some (TrieNode l (ch[only := Some (Trie_values (vl_insert vl v))]) num only)
        else do {
          down \<leftarrow> moved_down layer vl;
          descend (ch[only := Some down]) (num + 1) } }
      else descend ch num)"

definition trie_insert :: "TrieTree \<Rightarrow> bytes \<Rightarrow> nat \<Rightarrow> (bool \<times> TrieTree) option" where
  "trie_insert t key v =
     (if length key \<noteq> tt_keyLen t then Some (True, t)
      else do {
        root \<leftarrow> trie_walk (tt_maxLayer t) key v 0 key (tt_root t);
        Some (True, t\<lparr>tt_nodeNum := add64 (tt_nodeNum t) 1, tt_root := root\<rparr>) })"

text \<open>The destructors. Below the last layer every child is deleted as a node, even if it is a list of
  values, which is undefined.\<close>

fun bin_destroy :: "nat \<Rightarrow> BinaryNode \<Rightarrow> bool" where
  "bin_destroy ml (BinaryNode l ch) = (l = ml \<or> (\<forall>c \<in> set ch. case c of None \<Rightarrow> True
     | Some (Bin_values _) \<Rightarrow> False | Some (Bin_node t) \<Rightarrow> bin_destroy ml t))"

fun trie_destroy :: "nat \<Rightarrow> TrieNode \<Rightarrow> bool" where
  "trie_destroy ml (TrieNode l ch num only) = (l = ml \<or> (\<forall>c \<in> set ch. case c of None \<Rightarrow> True
     | Some (Trie_values _) \<Rightarrow> False | Some (Trie_node t) \<Rightarrow> trie_destroy ml t))"

section \<open>What the trees hold\<close>

text \<open>The list a walk along a key arrives at, if it is the list of the key.\<close>

definition values_for :: "nat \<Rightarrow> bytes \<Rightarrow> ValueList \<Rightarrow> nat list" where
  "values_for ml key vl = (if take ml (vl_key vl) = take ml key then vl_values vl else [])"

fun bin_find :: "nat \<Rightarrow> bytes \<Rightarrow> bytes \<Rightarrow> BinaryNode \<Rightarrow> nat list" where
  "bin_find ml key [] t = []"
| "bin_find ml key (c # cs) (BinaryNode l ch) =
     (case ch ! unat c of None \<Rightarrow> [] | Some (Bin_values vl) \<Rightarrow> values_for ml key vl | Some (Bin_node t) \<Rightarrow> bin_find ml key cs t)"

fun trie_find :: "nat \<Rightarrow> bytes \<Rightarrow> bytes \<Rightarrow> TrieNode \<Rightarrow> nat list" where
  "trie_find ml key [] t = []"
| "trie_find ml key (c # cs) (TrieNode l ch num only) =
     (case ch ! unat c of None \<Rightarrow> [] | Some (Trie_values vl) \<Rightarrow> values_for ml key vl | Some (Trie_node t) \<Rightarrow> trie_find ml key cs t)"

text \<open>The shape of a node that is reached by the prefix \<open>p\<close>, with \<open>n\<close> layers of nodes below it. The lists below
  the child \<open>c\<close> have keys that go on with \<open>c\<close>.\<close>

definition list_at :: "nat \<Rightarrow> bytes \<Rightarrow> nat \<Rightarrow> ValueList \<Rightarrow> bool" where
  "list_at ml p c vl \<longleftrightarrow> ml \<le> length (vl_key vl) \<and> take (length p + 1) (vl_key vl) = p @ [word_of_nat c]"

fun bin_ok :: "nat \<Rightarrow> nat \<Rightarrow> bytes \<Rightarrow> BinaryNode \<Rightarrow> bool" where
  "bin_ok ml 0 p (BinaryNode l ch) = (length ch = 256 \<and> (\<forall>c < 256. case ch ! c of None \<Rightarrow> True
     | Some (Bin_values vl) \<Rightarrow> list_at ml p c vl | Some (Bin_node _) \<Rightarrow> False))"
| "bin_ok ml (Suc n) p (BinaryNode l ch) = (length ch = 256 \<and> (\<forall>c < 256. case ch ! c of None \<Rightarrow> True
     | Some (Bin_values _) \<Rightarrow> False | Some (Bin_node t) \<Rightarrow> bin_ok ml n (p @ [word_of_nat c]) t))"

fun trie_ok :: "nat \<Rightarrow> nat \<Rightarrow> bytes \<Rightarrow> TrieNode \<Rightarrow> bool" where
  "trie_ok ml 0 p (TrieNode l ch num only) = (length ch = 256 \<and> (\<forall>c < 256. case ch ! c of None \<Rightarrow> True
     | Some (Trie_values vl) \<Rightarrow> list_at ml p c vl | Some (Trie_node _) \<Rightarrow> False))"
| "trie_ok ml (Suc n) p (TrieNode l ch num only) = (length ch = 256 \<and>
     (if num = 0 then \<forall>c < 256. ch ! c = None
      else if num = 1 then only < 256 \<and> (\<exists>vl. ch ! only = Some (Trie_values vl) \<and> list_at ml p only vl) \<and>
        (\<forall>c < 256. c \<noteq> only \<longrightarrow> ch ! c = None)
      else \<forall>c < 256. case ch ! c of None \<Rightarrow> True | Some (Trie_values _) \<Rightarrow> False
        | Some (Trie_node t) \<Rightarrow> trie_ok ml n (p @ [word_of_nat c]) t))"

section \<open>Insertion into the plain tree\<close>

lemma key_step:
  assumes "length p < length key" and "take (length p) key = p"
  shows "drop (length p) key = key ! length p # drop (length p + 1) key"
    and "take (length p + 1) key = p @ [key ! length p]"
proof -
  show "drop (length p) key = key ! length p # drop (length p + 1) key"
    using Cons_nth_drop_Suc [OF assms(1)] by (simp add: One_nat_def)
  show "take (length p + 1) key = p @ [key ! length p]"
    using take_Suc_conv_app_nth [OF assms(1)] assms(2) by (simp add: One_nat_def)
qed

lemma byte_less: "unat (c :: byte) < 256"
  using unsigned_less [of c] by simp

text \<open>How the insertion of \<open>(key, v)\<close> changes the lists found below a node.\<close>

definition adds :: "nat \<Rightarrow> bytes \<Rightarrow> nat \<Rightarrow> bytes \<Rightarrow> (bytes \<Rightarrow> nat list) \<Rightarrow> (bytes \<Rightarrow> nat list) \<Rightarrow> bool" where
  "adds ml key v p f g \<longleftrightarrow> (\<forall>k. ml \<le> length k \<longrightarrow> take (length p) k = p \<longrightarrow>
     g k = f k @ (if take ml k = take ml key then [v] else []))"

text \<open>It is enough to look at the child in whose direction the key goes.\<close>

lemma adds_step:
  assumes key: "length p < ml" "ml \<le> length key" "take (length p) key = p"
    and other: "\<And>k. ml \<le> length k \<Longrightarrow> take (length p) k = p \<Longrightarrow> k ! length p \<noteq> key ! length p \<Longrightarrow> g k = f k"
    and same: "\<And>k. ml \<le> length k \<Longrightarrow> take (length p + 1) k = p @ [key ! length p] \<Longrightarrow>
      g k = f k @ (if take ml k = take ml key then [v] else [])"
  shows "adds ml key v p f g"
  unfolding adds_def
proof (intro allI impI)
  fix k assume k: "ml \<le> length k" "take (length p) k = p"
  have lk: "length p < length k" using k(1) key(1) by simp
  show "g k = f k @ (if take ml k = take ml key then [v] else [])"
  proof (cases "k ! length p = key ! length p")
    case True
    then show ?thesis using same [OF k(1)] key_step(2) [OF lk k(2)] by simp
  next
    case False
    then have "take ml k \<noteq> take ml key" using key(1) by (metis nth_take)
    then show ?thesis using other [OF k False] by simp
  qed
qed

lemma bin_find_at:
  "length p < length k \<Longrightarrow> take (length p) k = p \<Longrightarrow> bin_find ml k (drop (length p) k) (BinaryNode l ch) =
     (case ch ! unat (k ! length p) of None \<Rightarrow> [] | Some (Bin_values vl) \<Rightarrow> values_for ml k vl
      | Some (Bin_node t) \<Rightarrow> bin_find ml k (drop (length p + 1) k) t)"
  by (simp only: key_step(1) bin_find.simps)

lemma list_at_insert [simp]: "list_at ml p c (vl_insert vl v) = list_at ml p c vl"
  by (simp add: list_at_def)

lemma list_at_new: "ml \<le> length key \<Longrightarrow> length p < length key \<Longrightarrow> take (length p) key = p \<Longrightarrow>
    list_at ml p (unat (key ! length p)) (ValueList key vs)"
  using key_step(2) [of p key] by (simp add: list_at_def)

text \<open>At the last layer the list of the child is the list of the prefix.\<close>

lemma last_layer: "ml = length p + 1 \<Longrightarrow> list_at ml p c vl \<Longrightarrow> take ml (vl_key vl) = p @ [word_of_nat c]"
  by (simp add: list_at_def)

lemma length_snoc: "length (p @ [c]) = length p + 1"
  by (simp add: One_nat_def)

lemma nth_other: "c \<noteq> d \<Longrightarrow> ch[unat (c :: byte) := x] ! unat d = ch ! unat d"
  using word_unat_eq_iff [of c d] by simp

lemma nth_same: "length ch = 256 \<Longrightarrow> ch[unat (c :: byte) := x] ! unat c = x"
  by (simp add: byte_less)

text \<open>A key below a prefix, one byte further.\<close>

lemma longer_prefix:
  assumes "length p < length k" and "take (length p + 1) k = p @ [c]"
  shows "take (length p) k = p" and "k ! length p = c"
  using assms by (auto simp: take_Suc_conv_app_nth One_nat_def)

lemma bin_new_ok: "bin_ok ml n p (BinaryNode_new l)"
  by (cases n) (simp_all add: BinaryNode_new_def)

lemma bin_find_new [simp]: "bin_find ml k cs (BinaryNode_new l) = []"
  by (cases cs) (simp_all add: BinaryNode_new_def byte_less)

lemma bin_walk_ok:
  "bin_ok ml n p t \<Longrightarrow> ml = length p + n + 1 \<Longrightarrow> ml \<le> length key \<Longrightarrow> take (length p) key = p \<Longrightarrow>
   \<exists>t'. bin_walk ml key v (length p) (drop (length p) key) t = Some t' \<and> bin_ok ml n p t' \<and>
     adds ml key v p (\<lambda>k. bin_find ml k (drop (length p) k) t) (\<lambda>k. bin_find ml k (drop (length p) k) t')"
proof (induction n arbitrary: p t)
  case 0
  obtain l ch where t: "t = BinaryNode l ch" by (cases t)
  let ?c = "key ! length p"
  have ch: "length ch = 256" "\<forall>c < 256. case ch ! c of None \<Rightarrow> True | Some (Bin_values vl) \<Rightarrow> list_at ml p c vl | Some (Bin_node _) \<Rightarrow> False"
    using 0(1) by (simp_all add: t)
  have lk: "length p < length key" "length p < ml" using 0(2,3) by simp_all
  note d = key_step(1) [OF lk(1) 0(4)]
  have at: "case ch ! unat ?c of None \<Rightarrow> True | Some (Bin_values vl) \<Rightarrow> list_at ml p (unat ?c) vl | Some (Bin_node _) \<Rightarrow> False"
    using ch(2) byte_less by blast
  let ?new = "case ch ! unat ?c of Some (Bin_values vl) \<Rightarrow> vl_insert vl v | _ \<Rightarrow> ValueList key [v]"
  let ?t' = "BinaryNode l (ch[unat ?c := Some (Bin_values ?new)])"
  have walk: "bin_walk ml key v (length p) (drop (length p) key) t = Some ?t'"
    using at 0(2) unfolding d t by (auto split: option.splits BinaryChild.splits)
  have new: "list_at ml p (unat ?c) ?new"
    using at list_at_new [OF 0(3) lk(1) 0(4)] by (auto split: option.splits BinaryChild.splits)
  then have ok: "bin_ok ml 0 p ?t'"
    using ch by (auto simp: nth_list_update byte_less)
  have "adds ml key v p (\<lambda>k. bin_find ml k (drop (length p) k) t) (\<lambda>k. bin_find ml k (drop (length p) k) ?t')"
  proof (rule adds_step [OF lk(2) 0(3,4)])
    fix k assume k: "ml \<le> length k" "take (length p) k = p" "k ! length p \<noteq> ?c"
    then have "length p < length k" using lk by simp
    then show "bin_find ml k (drop (length p) k) ?t' = bin_find ml k (drop (length p) k) t"
      using k(2,3) by (simp add: bin_find_at t nth_other)
  next
    fix k assume k: "ml \<le> length k" "take (length p + 1) k = p @ [?c]"
    then have l: "length p < length k" "take (length p) k = p" using lk by (auto simp: take_Suc_conv_app_nth One_nat_def)
    have "take ml k = p @ [?c]" "take ml key = p @ [?c]" using k(2) key_step(2) [OF lk(1) 0(4)] 0(2) by simp_all
    moreover have "k ! length p = ?c" using k(2) l(1) by (simp add: take_Suc_conv_app_nth One_nat_def)
    ultimately show "bin_find ml k (drop (length p) k) ?t' =
        bin_find ml k (drop (length p) k) t @ (if take ml k = take ml key then [v] else [])"
      using at l ch(1) 0(2) byte_less
      by (auto simp: bin_find_at t values_for_def list_at_def split: option.splits BinaryChild.splits)
  qed
  then show ?case using walk ok by blast
next
  case (Suc n)
  obtain l ch where t: "t = BinaryNode l ch" by (cases t)
  let ?c = "key ! length p"
  have ch: "length ch = 256" "\<forall>c < 256. case ch ! c of None \<Rightarrow> True | Some (Bin_values _) \<Rightarrow> False
      | Some (Bin_node t) \<Rightarrow> bin_ok ml n (p @ [word_of_nat c]) t"
    using Suc.prems(1) by (simp_all add: t)
  have lk: "length p < length key" "length p < ml" using Suc.prems(2,3) by simp_all
  note d = key_step [OF lk(1) Suc.prems(4)]
  let ?child = "case ch ! unat ?c of Some (Bin_node t) \<Rightarrow> t | _ \<Rightarrow> BinaryNode_new (length p + 1)"
  have at: "case ch ! unat ?c of None \<Rightarrow> True | Some (Bin_values _) \<Rightarrow> False | Some (Bin_node t) \<Rightarrow> bin_ok ml n (p @ [?c]) t"
    using ch(2) [rule_format, OF byte_less, of ?c] by (simp split: option.splits BinaryChild.splits)
  then have child: "bin_ok ml n (p @ [?c]) ?child" by (auto simp: bin_new_ok split: option.splits BinaryChild.splits)
  have ml: "ml = length (p @ [?c]) + n + 1" "take (length (p @ [?c])) key = p @ [?c]"
    using Suc.prems(2) d(2) by (simp_all add: One_nat_def)
  from Suc.IH [OF child ml(1) Suc.prems(3) ml(2)] obtain t1 where t1: "bin_walk ml key v (length p + 1) (drop (length p + 1) key) ?child = Some t1"
    "bin_ok ml n (p @ [?c]) t1" "adds ml key v (p @ [?c]) (\<lambda>k. bin_find ml k (drop (length p + 1) k) ?child)
      (\<lambda>k. bin_find ml k (drop (length p + 1) k) t1)"
    unfolding length_snoc by blast
  let ?t' = "BinaryNode l (ch[unat ?c := Some (Bin_node t1)])"
  have "length p + 1 \<noteq> ml" using Suc.prems(2) by simp
  then have walk: "bin_walk ml key v (length p) (drop (length p) key) t = Some ?t'"
    using at t1(1) unfolding d(1) t by (auto split: option.splits BinaryChild.splits)
  have "case ch[unat ?c := Some (Bin_node t1)] ! c of None \<Rightarrow> True | Some (Bin_values _) \<Rightarrow> False
      | Some (Bin_node t) \<Rightarrow> bin_ok ml n (p @ [word_of_nat c]) t" if "c < 256" for c
    using that ch t1(2) by (cases "c = unat ?c") (simp_all add: nth_list_update)
  then have ok: "bin_ok ml (Suc n) p ?t'" using ch(1) by simp
  have "adds ml key v p (\<lambda>k. bin_find ml k (drop (length p) k) t) (\<lambda>k. bin_find ml k (drop (length p) k) ?t')"
  proof (rule adds_step [OF lk(2) Suc.prems(3,4)])
    fix k assume k: "ml \<le> length k" "take (length p) k = p" "k ! length p \<noteq> ?c"
    then have "length p < length k" using lk by simp
    then show "bin_find ml k (drop (length p) k) ?t' = bin_find ml k (drop (length p) k) t"
      using k(2,3) by (simp add: bin_find_at t nth_other)
  next
    fix k assume k: "ml \<le> length k" "take (length p + 1) k = p @ [?c]"
    have l: "length p < length k" using k(1) lk by simp
    note e = longer_prefix [OF l k(2)]
    have "bin_find ml k (drop (length p) k) t = bin_find ml k (drop (length p + 1) k) ?child"
      using at e(2) by (auto simp: bin_find_at [OF l e(1)] t split: option.splits BinaryChild.splits)
    moreover have "bin_find ml k (drop (length p) k) ?t' = bin_find ml k (drop (length p + 1) k) t1"
      by (simp add: bin_find_at [OF l e(1)] e(2) nth_same [OF ch(1)])
    ultimately show "bin_find ml k (drop (length p) k) ?t' =
        bin_find ml k (drop (length p) k) t @ (if take ml k = take ml key then [v] else [])"
      using t1(3) k by (simp add: adds_def One_nat_def)
  qed
  then show ?case using walk ok by blast
qed

section \<open>Insertion into the compressed tree\<close>

lemma trie_find_at:
  "length p < length k \<Longrightarrow> take (length p) k = p \<Longrightarrow> trie_find ml k (drop (length p) k) (TrieNode l ch num only) =
     (case ch ! unat (k ! length p) of None \<Rightarrow> [] | Some (Trie_values vl) \<Rightarrow> values_for ml k vl
      | Some (Trie_node t) \<Rightarrow> trie_find ml k (drop (length p + 1) k) t)"
  by (simp only: key_step(1) trie_find.simps)

lemma trie_new_ok: "trie_ok ml n p (TrieNode_new l)"
  by (cases n) (simp_all add: TrieNode_new_def)

lemma trie_find_new [simp]: "trie_find ml k cs (TrieNode_new l) = []"
  by (cases cs) (simp_all add: TrieNode_new_def byte_less)

lemma list_atE: "list_at ml p c vl \<Longrightarrow> c < 256 \<Longrightarrow> length p < ml \<Longrightarrow>
    take (length p) (vl_key vl) = p \<and> unat (vl_key vl ! length p) = c"
  using longer_prefix [of p "vl_key vl" "word_of_nat c"] by (auto simp: list_at_def unat_of_nat)

text \<open>Moving a list down changes no lookup.\<close>

lemma moved_down_ok:
  assumes vl: "list_at ml p c vl" and c: "c < 256" and ml: "ml = length p + Suc n + 1"
  shows "\<exists>s. moved_down (length p + 1) vl = Some (Trie_node s) \<and> trie_ok ml n (p @ [word_of_nat c]) s \<and>
    (\<forall>k. ml \<le> length k \<longrightarrow> take (length p + 1) k = p @ [word_of_nat c] \<longrightarrow>
       trie_find ml k (drop (length p + 1) k) s = values_for ml k vl)"
proof -
  let ?q = "p @ [word_of_nat c] :: bytes" and ?d = "vl_key vl ! (length p + 1)"
  have q: "length ?q < length (vl_key vl)" "take (length ?q) (vl_key vl) = ?q" "ml \<le> length (vl_key vl)"
    using vl ml by (simp_all add: list_at_def One_nat_def)
  let ?s = "TrieNode (length p + 1) ((replicate 256 None)[unat ?d := Some (Trie_values vl)]) 1 (unat ?d)"
  have m: "moved_down (length p + 1) vl = Some (Trie_node ?s)"
    using q(1) by (simp add: moved_down_def Let_def One_nat_def)
  have at: "list_at ml ?q (unat ?d) vl"
    using key_step(2) [OF q(1,2)] q(3) by (simp add: list_at_def One_nat_def)
  then have ok: "trie_ok ml n ?q ?s"
    by (cases n) (auto simp: byte_less nth_list_update)
  have "trie_find ml k (drop (length p + 1) k) ?s = values_for ml k vl"
    if k: "ml \<le> length k" "take (length p + 1) k = ?q" for k
  proof -
    have l: "length ?q < length k" "take (length ?q) k = ?q" using k ml by (simp_all add: One_nat_def)
    have "values_for ml k vl = []" if "k ! length ?q \<noteq> ?d"
    proof -
      have "take ml k \<noteq> take ml (vl_key vl)" using that ml by (metis One_nat_def add_Suc_right add.right_neutral length_append_singleton less_add_Suc1 nth_take add_Suc)
      then show ?thesis by (auto simp: values_for_def)
    qed
    then have "trie_find ml k (drop (length ?q) k) ?s = values_for ml k vl"
      unfolding trie_find_at [OF l]
      by (cases "k ! length ?q = ?d") (simp_all add: byte_less nth_other nth_same One_nat_def)
    then show ?thesis by (simp add: One_nat_def)
  qed
  then show ?thesis using m ok by blast
qed

lemma trie_children:
  assumes "trie_ok ml (Suc n) p (TrieNode l ch num only)" and "num \<noteq> 0" and "num \<noteq> 1"
  shows "length ch = 256" and "case ch ! unat c of None \<Rightarrow> True | Some (Trie_values _) \<Rightarrow> False
    | Some (Trie_node t) \<Rightarrow> trie_ok ml n (p @ [c]) t"
proof -
  have "length ch = 256" and a: "\<forall>c < 256. case ch ! c of None \<Rightarrow> True | Some (Trie_values _) \<Rightarrow> False
      | Some (Trie_node t) \<Rightarrow> trie_ok ml n (p @ [word_of_nat c]) t"
    using assms by simp_all
  show "length ch = 256" by fact
  show "case ch ! unat c of None \<Rightarrow> True | Some (Trie_values _) \<Rightarrow> False | Some (Trie_node t) \<Rightarrow> trie_ok ml n (p @ [c]) t"
    using a [rule_format, OF byte_less, of c] by (simp split: option.splits TrieChild.splits)
qed

text \<open>The step from a node with several children to one of them.\<close>

lemma trie_descend:
  assumes ok: "trie_ok ml (Suc n) p (TrieNode l ch num only)" "num \<noteq> 0" "num \<noteq> 1"
    and key: "ml = length p + Suc n + 1" "ml \<le> length key" "take (length p) key = p"
    and child: "ch ! unat (key ! length p) = Some (Trie_node s)"
    and adds: "adds ml key v (p @ [key ! length p]) (\<lambda>k. trie_find ml k (drop (length p + 1) k) s) (\<lambda>k. trie_find ml k (drop (length p + 1) k) s')"
    and s': "trie_ok ml n (p @ [key ! length p]) s'"
  defines "t' \<equiv> TrieNode l (ch[unat (key ! length p) := Some (Trie_node s')]) num only"
  shows "trie_ok ml (Suc n) p t'" and "adds ml key v p (\<lambda>k. trie_find ml k (drop (length p) k) (TrieNode l ch num only))
    (\<lambda>k. trie_find ml k (drop (length p) k) t')"
proof -
  let ?c = "key ! length p"
  have len: "length ch = 256" by (rule trie_children(1) [OF ok])
  have lk: "length p < ml" using key(1) by simp
  have "case (ch[unat ?c := Some (Trie_node s')]) ! c of None \<Rightarrow> True | Some (Trie_values _) \<Rightarrow> False
      | Some (Trie_node t) \<Rightarrow> trie_ok ml n (p @ [word_of_nat c]) t" if "c < 256" for c
    using that ok s' len by (cases "c = unat ?c") (simp_all add: nth_list_update)
  then show "trie_ok ml (Suc n) p t'" using ok(2,3) len by (simp add: t'_def)
  show "adds ml key v p (\<lambda>k. trie_find ml k (drop (length p) k) (TrieNode l ch num only)) (\<lambda>k. trie_find ml k (drop (length p) k) t')"
  proof (rule adds_step [OF lk key(2,3)])
    fix k assume k: "ml \<le> length k" "take (length p) k = p" "k ! length p \<noteq> ?c"
    then have "length p < length k" using lk by simp
    then show "trie_find ml k (drop (length p) k) t' = trie_find ml k (drop (length p) k) (TrieNode l ch num only)"
      using k(2,3) by (simp add: trie_find_at t'_def nth_other)
  next
    fix k assume k: "ml \<le> length k" "take (length p + 1) k = p @ [?c]"
    have l: "length p < length k" using k(1) lk by simp
    note e = longer_prefix [OF l k(2)]
    show "trie_find ml k (drop (length p) k) t' =
        trie_find ml k (drop (length p) k) (TrieNode l ch num only) @ (if take ml k = take ml key then [v] else [])"
      using adds k child by (simp add: adds_def One_nat_def t'_def trie_find_at [OF l e(1)] e(2) nth_same [OF len])
  qed
qed

text \<open>What the code does before it goes down: afterwards the node has a node as child for the key and finds what
  it found before.\<close>

lemma walk_new_child:
  assumes "layer + 1 \<noteq> ml" and "ch ! unat c = None" and "only_values ch only = Some vl" and "vl_key vl \<noteq> key"
    and "moved_down (layer + 1) vl = Some down" and "length ch = 256"
  shows "trie_walk ml key v layer (c # cs) (TrieNode l ch 1 only) =
    map_option (\<lambda>s'. TrieNode l (ch[only := Some down, unat c := Some (Trie_node s')]) 2 only)
      (trie_walk ml key v (layer + 1) cs (TrieNode_new (layer + 1)))"
  using assms by (simp add: Let_def byte_less)

lemma trie_prepare:
  assumes ok: "trie_ok ml (Suc n) p (TrieNode l ch num only)" and num: "num \<noteq> 0"
    and key: "ml = length p + Suc n + 1" "ml \<le> length key" "take (length p) key = p"
    and no_list: "num = 1 \<longrightarrow> (\<forall>vl. ch ! only = Some (Trie_values vl) \<longrightarrow> vl_key vl \<noteq> key)"
  shows "\<exists>ch' num' s. ch' ! unat (key ! length p) = Some (Trie_node s) \<and> trie_ok ml n (p @ [key ! length p]) s \<and>
    num' \<noteq> 0 \<and> num' \<noteq> 1 \<and> trie_ok ml (Suc n) p (TrieNode l ch' num' only) \<and>
    (\<forall>k. ml \<le> length k \<longrightarrow> take (length p) k = p \<longrightarrow> trie_find ml k (drop (length p) k) (TrieNode l ch' num' only) =
       trie_find ml k (drop (length p) k) (TrieNode l ch num only)) \<and>
    trie_walk ml key v (length p) (drop (length p) key) (TrieNode l ch num only) =
      map_option (\<lambda>s'. TrieNode l (ch'[unat (key ! length p) := Some (Trie_node s')]) num' only)
        (trie_walk ml key v (length p + 1) (drop (length p + 1) key) s)"
proof (cases "num = 1")
  case False
  note c = trie_children(1) [OF ok num False] trie_children(2) [OF ok num False, of "key ! length p"]
  have lk: "length p < length key" "length p + 1 \<noteq> ml" using key by simp_all
  note d = key_step [OF lk(1) key(3)]
  show ?thesis
  proof (cases "ch ! unat (key ! length p)")
    case None
    let ?ch = "ch[unat (key ! length p) := Some (Trie_node (TrieNode_new (length p + 1)))]"
    have at: "case ?ch ! c of None \<Rightarrow> True | Some (Trie_values _) \<Rightarrow> False
        | Some (Trie_node t) \<Rightarrow> trie_ok ml n (p @ [word_of_nat c]) t" if "c < 256" for c
      using that ok num False c(1) by (cases "c = unat (key ! length p)") (simp_all add: nth_list_update trie_new_ok)
    have ok': "trie_ok ml (Suc n) p (TrieNode l ?ch (num + 1) only)"
      using at c(1) num False by simp
    have find: "trie_find ml k (drop (length p) k) (TrieNode l ?ch (num + 1) only) = trie_find ml k (drop (length p) k) (TrieNode l ch num only)"
      if "ml \<le> length k" "take (length p) k = p" for k
    proof -
      have l: "length p < length k" using that(1) key(1) by simp
      show ?thesis
        by (cases "k ! length p = key ! length p") (simp_all add: trie_find_at [OF l that(2)] None nth_same [OF c(1)] nth_other)
    qed
    have "?ch ! unat (key ! length p) = Some (Trie_node (TrieNode_new (length p + 1)))" by (rule nth_same [OF c(1)])
    then show ?thesis using num False lk(2) None ok' find trie_new_ok
      by (intro exI [of _ ?ch] exI [of _ "num + 1"] exI [of _ "TrieNode_new (length p + 1)"]) (simp add: d(1) Let_def)
  next
    case (Some x)
    then obtain s where s: "x = Trie_node s" "trie_ok ml n (p @ [key ! length p]) s" using c(2) by (cases x) auto
    then show ?thesis using num False lk(2) Some ok
      by (intro exI [of _ ch] exI [of _ num] exI [of _ s]) (simp add: d(1) Let_def)
  qed
next
  case True
  let ?uc = "unat (key ! length p)"
  have lk: "length p < length key" "length p + 1 \<noteq> ml" "length p < ml" using key by simp_all
  note d = key_step [OF lk(1) key(3)]
  obtain vl where vl: "ch ! only = Some (Trie_values vl)" "list_at ml p only vl" "only < 256" "\<forall>c < 256. c \<noteq> only \<longrightarrow> ch ! c = None"
    "length ch = 256" using ok True by auto
  have not_key: "vl_key vl \<noteq> key" using no_list True vl(1) by blast
  have o: "only_values ch only = Some vl" by (simp add: only_values_def vl(1))
  from moved_down_ok [OF vl(2,3) key(1)] obtain s where s: "moved_down (length p + 1) vl = Some (Trie_node s)"
    "trie_ok ml n (p @ [word_of_nat only]) s"
    "\<forall>k. ml \<le> length k \<longrightarrow> take (length p + 1) k = p @ [word_of_nat only] \<longrightarrow> trie_find ml k (drop (length p + 1) k) s = values_for ml k vl"
    by blast
  let ?new = "Trie_node (TrieNode_new (length p + 1))"
  let ?ch = "if only = ?uc then ch[only := Some (Trie_node s)] else ch[only := Some (Trie_node s), ?uc := Some ?new]"
  let ?s = "if only = ?uc then s else TrieNode_new (length p + 1)"
  have len: "length ?ch = 256" using vl(5) by simp
  have at_only: "?ch ! only = Some (Trie_node s)" using vl(3,5) by simp
  have rest: "?ch ! c = (if c = ?uc then Some ?new else None)" if "c < 256" "c \<noteq> only" for c
    using that vl(4,5) by (simp add: nth_list_update)
  have at: "case ?ch ! c of None \<Rightarrow> True | Some (Trie_values _) \<Rightarrow> False
      | Some (Trie_node t) \<Rightarrow> trie_ok ml n (p @ [word_of_nat c]) t" if "c < 256" for c
    using that s(2) at_only rest [OF that] by (cases "c = only") (simp_all add: trie_new_ok)
  have ok': "trie_ok ml (Suc n) p (TrieNode l ?ch (num + 1) only)"
    using at len True by (simp del: if_split_asm)
  have find: "trie_find ml k (drop (length p) k) (TrieNode l ?ch (num + 1) only) = trie_find ml k (drop (length p) k) (TrieNode l ch num only)"
    if k: "ml \<le> length k" "take (length p) k = p" for k
  proof -
    have l: "length p < length k" using k(1) lk(3) by simp
    note f = trie_find_at [OF l k(2)] and t = key_step(2) [OF l k(2)]
    show ?thesis
    proof (cases "unat (k ! length p) = only")
      case True
      then have "take (length p + 1) k = p @ [word_of_nat only]" using t by (simp add: True [symmetric])
      then show ?thesis unfolding f True at_only vl(1) using s(3) k(1) by simp
    next
      case False
      have n: "ch ! unat (k ! length p) = None" using vl(4) byte_less False by blast
      show ?thesis unfolding f rest [OF byte_less False] n by simp
    qed
  qed
  have child: "?ch ! ?uc = Some (Trie_node ?s)" using vl(3,5) byte_less by simp
  have s_ok: "trie_ok ml n (p @ [key ! length p]) ?s" using s(2) trie_new_ok by auto
  have uc: "ch ! ?uc = None \<longleftrightarrow> only \<noteq> ?uc" using vl(1,4) byte_less by auto
  have walk: "trie_walk ml key v (length p) (drop (length p) key) (TrieNode l ch num only) =
      map_option (\<lambda>s'. TrieNode l (?ch[?uc := Some (Trie_node s')]) (num + 1) only) (trie_walk ml key v (length p + 1) (drop (length p + 1) key) ?s)"
  proof (cases "only = ?uc")
    case eq: True
    have ne: "(ch ! ?uc = None) = False" using uc eq by blast
    show ?thesis
      using True lk(2) not_key o s(1) vl(3,5) byte_less unfolding d(1) eq by (simp add: Let_def ne)
  next
    case False
    then have n: "ch ! ?uc = None" using uc by blast
    let ?two = "ch[only := Some (Trie_node s), ?uc := Some ?new]"
    have ch': "?ch = ?two" "?s = TrieNode_new (length p + 1)" using False by simp_all
    have two': "(1::nat) + 1 = 2" by simp
    show ?thesis
      unfolding d(1) ch' True two' walk_new_child [OF lk(2) n o not_key s(1) vl(5)] list_update_overwrite ..
  qed
  have n: "num + 1 \<noteq> 0" "num + 1 \<noteq> 1" using True by simp_all
  show ?thesis
    by (intro exI conjI allI impI) (rule child s_ok n ok' find walk | assumption)+
qed


text \<open>An insertion that ends at a list of the node itself.\<close>

lemma trie_put:
  fixes v :: nat
  assumes ok: "length ch = 256" "case ch ! unat (key ! length p) of None \<Rightarrow> True | Some (Trie_values vl) \<Rightarrow> list_at ml p (unat (key ! length p)) vl
      | Some (Trie_node _) \<Rightarrow> False"
    and key: "length p < ml" "ml \<le> length key" "take (length p) key = p"
    and same: "ml = length p + 1 \<or> ch ! unat (key ! length p) = None \<or> (\<exists>vs. ch ! unat (key ! length p) = Some (Trie_values (ValueList key vs)))"
  defines "vl' \<equiv> (case ch ! unat (key ! length p) of Some (Trie_values vl) \<Rightarrow> vl_insert vl v | _ \<Rightarrow> ValueList key [v])"
  shows "list_at ml p (unat (key ! length p)) vl'"
    and "adds ml key v p (\<lambda>k. trie_find ml k (drop (length p) k) (TrieNode l ch num only))
      (\<lambda>k. trie_find ml k (drop (length p) k) (TrieNode l (ch[unat (key ! length p) := Some (Trie_values vl')]) num' only'))"
proof -
  let ?c = "key ! length p"
  have lk: "length p < length key" using key(1,2) by simp
  show "list_at ml p (unat ?c) vl'"
    using ok(2) list_at_new [OF key(2) lk key(3)] by (auto simp: vl'_def split: option.splits TrieChild.splits)
  show "adds ml key v p (\<lambda>k. trie_find ml k (drop (length p) k) (TrieNode l ch num only))
      (\<lambda>k. trie_find ml k (drop (length p) k) (TrieNode l (ch[unat ?c := Some (Trie_values vl')]) num' only'))"
  proof (rule adds_step [OF key])
    fix k assume k: "ml \<le> length k" "take (length p) k = p" "k ! length p \<noteq> ?c"
    then have "length p < length k" using key(1) by simp
    then show "trie_find ml k (drop (length p) k) (TrieNode l (ch[unat ?c := Some (Trie_values vl')]) num' only') =
        trie_find ml k (drop (length p) k) (TrieNode l ch num only)"
      using k(2,3) by (simp add: trie_find_at nth_other)
  next
    fix k assume k: "ml \<le> length k" "take (length p + 1) k = p @ [?c]"
    have l: "length p < length k" using k(1) key(1) by simp
    note e = longer_prefix [OF l k(2)]
    have f: "trie_find ml k (drop (length p) k) (TrieNode l (ch[unat ?c := Some (Trie_values vl')]) num' only') = values_for ml k vl'"
      by (simp add: trie_find_at [OF l e(1)] e(2) nth_same [OF ok(1)])
    have "values_for ml k vl' = trie_find ml k (drop (length p) k) (TrieNode l ch num only) @ (if take ml k = take ml key then [v] else [])"
    proof (cases "ch ! unat ?c")
      case None
      then show ?thesis by (auto simp: trie_find_at [OF l e(1)] e(2) vl'_def values_for_def)
    next
      case (Some x)
      then obtain vl where vl: "x = Trie_values vl" "list_at ml p (unat ?c) vl" using ok(2) by (cases x) auto
      have "take ml (vl_key vl) = take ml key"
        using same
      proof
        assume "ml = length p + 1"
        then show ?thesis using vl(2) key_step(2) [OF lk key(3)] by (simp add: list_at_def)
      next
        assume "ch ! unat ?c = None \<or> (\<exists>vs. ch ! unat ?c = Some (Trie_values (ValueList key vs)))"
        then show ?thesis using Some vl(1) by auto
      qed
      then show ?thesis using Some vl(1) by (auto simp: trie_find_at [OF l e(1)] e(2) vl'_def values_for_def)
    qed
    then show "trie_find ml k (drop (length p) k) (TrieNode l (ch[unat ?c := Some (Trie_values vl')]) num' only') =
        trie_find ml k (drop (length p) k) (TrieNode l ch num only) @ (if take ml k = take ml key then [v] else [])"
      by (simp only: f)
  qed
qed

lemma trie_walk_ok:
  "trie_ok ml n p t \<Longrightarrow> ml = length p + n + 1 \<Longrightarrow> ml \<le> length key \<Longrightarrow> take (length p) key = p \<Longrightarrow>
   \<exists>t'. trie_walk ml key v (length p) (drop (length p) key) t = Some t' \<and> trie_ok ml n p t' \<and>
     adds ml key v p (\<lambda>k. trie_find ml k (drop (length p) k) t) (\<lambda>k. trie_find ml k (drop (length p) k) t')"
proof (induction n arbitrary: p t)
  case 0
  obtain l ch num only where t: "t = TrieNode l ch num only" by (cases t)
  let ?c = "key ! length p"
  have ch: "length ch = 256" "\<forall>c < 256. case ch ! c of None \<Rightarrow> True | Some (Trie_values vl) \<Rightarrow> list_at ml p c vl | Some (Trie_node _) \<Rightarrow> False"
    using 0(1) by (simp_all add: t)
  have lk: "length p < length key" "length p < ml" "ml = length p + 1" using 0(2,3) by simp_all
  note d = key_step(1) [OF lk(1) 0(4)]
  have at: "case ch ! unat ?c of None \<Rightarrow> True | Some (Trie_values vl) \<Rightarrow> list_at ml p (unat ?c) vl | Some (Trie_node _) \<Rightarrow> False"
    using ch(2) byte_less by blast
  let ?new = "case ch ! unat ?c of Some (Trie_values vl) \<Rightarrow> vl_insert vl v | _ \<Rightarrow> ValueList key [v]"
  note put = trie_put [OF ch(1) at lk(2) 0(3,4) disjI1 [OF lk(3)], of v]
  have "\<exists>num' only'. trie_walk ml key v (length p) (drop (length p) key) t =
      Some (TrieNode l (ch[unat ?c := Some (Trie_values ?new)]) num' only')"
    using at lk(3) unfolding d t by (auto simp: Let_def split: option.splits TrieChild.splits)
  moreover have "case ch[unat ?c := Some (Trie_values ?new)] ! c of None \<Rightarrow> True | Some (Trie_values vl) \<Rightarrow> list_at ml p c vl
      | Some (Trie_node _) \<Rightarrow> False" if "c < 256" for c
    using that ch put(1) by (cases "c = unat ?c") (simp_all add: nth_list_update)
  then have "trie_ok ml 0 p (TrieNode l (ch[unat ?c := Some (Trie_values ?new)]) num' only')" for num' only'
    using ch(1) by simp
  ultimately show ?case using put(2) unfolding t by blast
next
  case (Suc n)
  obtain l ch num only where t: "t = TrieNode l ch num only" by (cases t)
  let ?c = "key ! length p"
  note ok = Suc.prems(1) [unfolded t]
  have lk: "length p < length key" "length p < ml" "length p + 1 \<noteq> ml" using Suc.prems(2,3) by simp_all
  have ml: "ml = length p + Suc n + 1" using Suc.prems(2) by simp
  note d = key_step [OF lk(1) Suc.prems(4)]
  consider (empty) "num = 0" | (list) vs where "num = 1" "ch ! only = Some (Trie_values (ValueList key vs))"
    | (down) "num \<noteq> 0" "num = 1 \<longrightarrow> (\<forall>vl. ch ! only = Some (Trie_values vl) \<longrightarrow> vl_key vl \<noteq> key)"
    by (metis ValueList.exhaust_sel zero_neq_one)
  then show ?case
  proof cases
    case empty
    then have ch: "length ch = 256" "\<forall>c < 256. ch ! c = None" using ok by simp_all
    then have n: "ch ! unat ?c = None" using byte_less by blast
    let ?t' = "TrieNode l (ch[unat ?c := Some (Trie_values (ValueList key [v]))]) 1 (unat ?c)"
    have walk: "trie_walk ml key v (length p) (drop (length p) key) t = Some ?t'"
      using empty n unfolding d(1) t by (simp add: Let_def)
    note put = trie_put [OF ch(1) _ lk(2) Suc.prems(3,4) disjI2 [OF disjI1 [OF n]], of v]
    have "list_at ml p (unat ?c) (ValueList key [v])" using put(1) n by simp
    then have "trie_ok ml (Suc n) p ?t'" using ch byte_less by (simp add: nth_list_update)
    moreover have "adds ml key v p (\<lambda>k. trie_find ml k (drop (length p) k) t) (\<lambda>k. trie_find ml k (drop (length p) k) ?t')"
      using put(2) n unfolding t by simp
    ultimately show ?thesis using walk by blast
  next
    case list
    then have o: "only < 256" "list_at ml p only (ValueList key vs)" "length ch = 256" "\<forall>c < 256. c \<noteq> only \<longrightarrow> ch ! c = None"
      using ok by auto
    have c: "unat ?c = only" using list_atE [OF o(2,1) lk(2)] by simp
    let ?t' = "TrieNode l (ch[unat ?c := Some (Trie_values (vl_insert (ValueList key vs) v))]) num only"
    have n: "ch ! unat ?c = Some (Trie_values (ValueList key vs))" using list(2) c by simp
    have walk: "trie_walk ml key v (length p) (drop (length p) key) t = Some ?t'"
      using list(1) n c lk(3) unfolding d(1) t by (simp add: Let_def only_values_def)
    note put = trie_put [OF o(3) _ lk(2) Suc.prems(3,4) disjI2 [OF disjI2], of v]
    have "list_at ml p only (vl_insert (ValueList key vs) v)" using o(2) unfolding list_at_insert .
    then have "trie_ok ml (Suc n) p ?t'" using o(1,3,4) list(1) c by (simp add: nth_list_update)
    moreover have "adds ml key v p (\<lambda>k. trie_find ml k (drop (length p) k) t) (\<lambda>k. trie_find ml k (drop (length p) k) ?t')"
      using put(2) n o(2) c unfolding t by simp
    ultimately show ?thesis using walk by blast
  next
    case down
    from trie_prepare [OF ok down(1) ml Suc.prems(3,4) down(2), of v] obtain ch' num' s where s:
      "ch' ! unat ?c = Some (Trie_node s)" "trie_ok ml n (p @ [?c]) s" "num' \<noteq> 0" "num' \<noteq> 1"
      "trie_ok ml (Suc n) p (TrieNode l ch' num' only)"
      "\<forall>k. ml \<le> length k \<longrightarrow> take (length p) k = p \<longrightarrow> trie_find ml k (drop (length p) k) (TrieNode l ch' num' only) =
        trie_find ml k (drop (length p) k) t"
      "trie_walk ml key v (length p) (drop (length p) key) t =
        map_option (\<lambda>s'. TrieNode l (ch'[unat ?c := Some (Trie_node s')]) num' only)
          (trie_walk ml key v (length p + 1) (drop (length p + 1) key) s)"
      unfolding t by blast
    have q: "ml = length (p @ [?c]) + n + 1" "take (length (p @ [?c])) key = p @ [?c]"
      using Suc.prems(2) d(2) by (simp_all add: One_nat_def)
    from Suc.IH [OF s(2) q(1) Suc.prems(3) q(2)] obtain s' where s':
      "trie_walk ml key v (length p + 1) (drop (length p + 1) key) s = Some s'" "trie_ok ml n (p @ [?c]) s'"
      "adds ml key v (p @ [?c]) (\<lambda>k. trie_find ml k (drop (length p + 1) k) s) (\<lambda>k. trie_find ml k (drop (length p + 1) k) s')"
      unfolding length_snoc by blast
    note r = trie_descend [OF s(5,3,4) ml Suc.prems(3,4) s(1) s'(3,2)]
    have "adds ml key v p (\<lambda>k. trie_find ml k (drop (length p) k) t)
        (\<lambda>k. trie_find ml k (drop (length p) k) (TrieNode l (ch'[unat ?c := Some (Trie_node s')]) num' only))"
      using r(2) s(6) by (simp add: adds_def)
    then show ?thesis using r(1) s(7) s'(1) by simp
  qed
qed

section \<open>Properties\<close>

fun bin_inserts :: "(bytes \<times> nat) list \<Rightarrow> BinaryTree \<Rightarrow> BinaryTree option" where
  "bin_inserts [] t = Some t"
| "bin_inserts ((key, v) # xs) t = do { (_, t') \<leftarrow> bin_insert t key v; bin_inserts xs t' }"

fun trie_inserts :: "(bytes \<times> nat) list \<Rightarrow> TrieTree \<Rightarrow> TrieTree option" where
  "trie_inserts [] t = Some t"
| "trie_inserts ((key, v) # xs) t = do { (_, t') \<leftarrow> trie_insert t key v; trie_inserts xs t' }"

text \<open>The values whose key has the right length and agrees with \<open>k\<close> on the indexed bytes, in the order of insertion.\<close>

definition inserted :: "nat \<Rightarrow> nat \<Rightarrow> bytes \<Rightarrow> (bytes \<times> nat) list \<Rightarrow> nat list" where
  "inserted ml kl k xs = map snd (filter (\<lambda>(key, v). length key = kl \<and> take ml key = take ml k) xs)"

definition trie_good :: "TrieTree \<Rightarrow> bool" where
  "trie_good t \<longleftrightarrow> 0 < tt_maxLayer t \<and> tt_maxLayer t \<le> tt_keyLen t \<and> trie_ok (tt_maxLayer t) (tt_maxLayer t - 1) [] (tt_root t)"

definition bin_good :: "BinaryTree \<Rightarrow> bool" where
  "bin_good t \<longleftrightarrow> 0 < bt_maxLayer t \<and> bt_maxLayer t \<le> bt_keyLen t \<and> bin_ok (bt_maxLayer t) (bt_maxLayer t - 1) [] (bt_root t)"

lemma trie_insert_good:
  assumes "trie_good t"
  shows "\<exists>t'. trie_insert t key v = Some (True, t') \<and> trie_good t' \<and> tt_maxLayer t' = tt_maxLayer t \<and> tt_keyLen t' = tt_keyLen t \<and>
    (\<forall>k. length k = tt_keyLen t \<longrightarrow> trie_find (tt_maxLayer t) k k (tt_root t') =
      trie_find (tt_maxLayer t) k k (tt_root t) @ inserted (tt_maxLayer t) (tt_keyLen t) k [(key, v)])"
proof (cases "length key = tt_keyLen t")
  case True
  let ?ml = "tt_maxLayer t"
  have g: "0 < ?ml" "?ml \<le> length key" "trie_ok ?ml (?ml - 1) [] (tt_root t)" using assms True by (simp_all add: trie_good_def)
  have ml: "?ml = length ([] :: bytes) + (?ml - 1) + 1" using g(1) by simp
  have e: "take (length ([] :: bytes)) key = []" by simp
  from trie_walk_ok [OF g(3) ml g(2) e, of v] obtain r where r: "trie_walk ?ml key v 0 key (tt_root t) = Some r"
    "trie_ok ?ml (?ml - 1) [] r" "adds ?ml key v [] (\<lambda>k. trie_find ?ml k k (tt_root t)) (\<lambda>k. trie_find ?ml k k r)" by auto
  then show ?thesis using True assms
    by (auto simp: trie_insert_def trie_good_def adds_def inserted_def)
next
  case False
  then show ?thesis using assms by (auto simp: trie_insert_def inserted_def)
qed

lemma bin_insert_good:
  assumes "bin_good t"
  shows "\<exists>t'. bin_insert t key v = Some (True, t') \<and> bin_good t' \<and> bt_maxLayer t' = bt_maxLayer t \<and> bt_keyLen t' = bt_keyLen t \<and>
    (\<forall>k. length k = bt_keyLen t \<longrightarrow> bin_find (bt_maxLayer t) k k (bt_root t') =
      bin_find (bt_maxLayer t) k k (bt_root t) @ inserted (bt_maxLayer t) (bt_keyLen t) k [(key, v)])"
proof (cases "length key = bt_keyLen t")
  case True
  let ?ml = "bt_maxLayer t"
  have g: "0 < ?ml" "?ml \<le> length key" "bin_ok ?ml (?ml - 1) [] (bt_root t)" using assms True by (simp_all add: bin_good_def)
  have ml: "?ml = length ([] :: bytes) + (?ml - 1) + 1" using g(1) by simp
  have e: "take (length ([] :: bytes)) key = []" by simp
  from bin_walk_ok [OF g(3) ml g(2) e, of v] obtain r where r: "bin_walk ?ml key v 0 key (bt_root t) = Some r"
    "bin_ok ?ml (?ml - 1) [] r" "adds ?ml key v [] (\<lambda>k. bin_find ?ml k k (bt_root t)) (\<lambda>k. bin_find ?ml k k r)" by auto
  then show ?thesis using True assms
    by (auto simp: bin_insert_def bin_good_def adds_def inserted_def)
next
  case False
  then show ?thesis using assms by (auto simp: bin_insert_def inserted_def)
qed

lemma inserted_Cons: "inserted ml kl k (x # xs) = inserted ml kl k [x] @ inserted ml kl k xs"
  by (simp add: inserted_def split: prod.splits)

lemma trie_inserts_good:
  "trie_good t \<Longrightarrow> \<exists>t'. trie_inserts xs t = Some t' \<and> trie_good t' \<and>
    (\<forall>k. length k = tt_keyLen t \<longrightarrow> trie_find (tt_maxLayer t) k k (tt_root t') =
      trie_find (tt_maxLayer t) k k (tt_root t) @ inserted (tt_maxLayer t) (tt_keyLen t) k xs)"
proof (induction xs arbitrary: t)
  case (Cons x xs)
  obtain key v where x: "x = (key, v)" by (cases x)
  from trie_insert_good [OF Cons.prems, of key v] obtain t1 where t1: "trie_insert t key v = Some (True, t1)" "trie_good t1"
    "tt_maxLayer t1 = tt_maxLayer t" "tt_keyLen t1 = tt_keyLen t"
    "\<forall>k. length k = tt_keyLen t \<longrightarrow> trie_find (tt_maxLayer t) k k (tt_root t1) =
      trie_find (tt_maxLayer t) k k (tt_root t) @ inserted (tt_maxLayer t) (tt_keyLen t) k [(key, v)]" by blast
  from Cons.IH [OF t1(2)] show ?case using t1 by (auto simp: x inserted_Cons [of _ _ _ _ xs])
qed (simp add: inserted_def)

lemma bin_inserts_good:
  "bin_good t \<Longrightarrow> \<exists>t'. bin_inserts xs t = Some t' \<and> bin_good t' \<and>
    (\<forall>k. length k = bt_keyLen t \<longrightarrow> bin_find (bt_maxLayer t) k k (bt_root t') =
      bin_find (bt_maxLayer t) k k (bt_root t) @ inserted (bt_maxLayer t) (bt_keyLen t) k xs)"
proof (induction xs arbitrary: t)
  case (Cons x xs)
  obtain key v where x: "x = (key, v)" by (cases x)
  from bin_insert_good [OF Cons.prems, of key v] obtain t1 where t1: "bin_insert t key v = Some (True, t1)" "bin_good t1"
    "bt_maxLayer t1 = bt_maxLayer t" "bt_keyLen t1 = bt_keyLen t"
    "\<forall>k. length k = bt_keyLen t \<longrightarrow> bin_find (bt_maxLayer t) k k (bt_root t1) =
      bin_find (bt_maxLayer t) k k (bt_root t) @ inserted (bt_maxLayer t) (bt_keyLen t) k [(key, v)]" by blast
  from Cons.IH [OF t1(2)] show ?case using t1 by (auto simp: x inserted_Cons [of _ _ _ _ xs])
qed (simp add: inserted_def)

text \<open>C21: the two prefix trees hold the same. For trees not deeper than the keys are long, every sequence of insertions
  is accepted by both, never takes a node for a list or a list for a node, and a walk along a key of the right length
  arrives, in both, at the values inserted under the keys of the right length that agree with it on the
  indexed bytes, in the order of insertion.\<close>

theorem compressed_trie_agrees:
  assumes "0 < max_layer" and "max_layer \<le> key_len" and "length k = key_len"
  shows "\<exists>t b. trie_inserts xs (TrieTree_new max_layer key_len) = Some t \<and> bin_inserts xs (BinaryTree_new max_layer key_len) = Some b \<and>
    trie_find max_layer k k (tt_root t) = inserted max_layer key_len k xs \<and>
    bin_find max_layer k k (bt_root b) = inserted max_layer key_len k xs"
proof -
  have t: "trie_good (TrieTree_new max_layer key_len)" using assms by (simp add: trie_good_def TrieTree_new_def trie_new_ok)
  have b: "bin_good (BinaryTree_new max_layer key_len)" using assms by (simp add: bin_good_def BinaryTree_new_def bin_new_ok)
  from trie_inserts_good [OF t, of xs] bin_inserts_good [OF b, of xs] show ?thesis
    using assms(3) by (auto simp: TrieTree_new_def BinaryTree_new_def)
qed

lemma compressed_trie_agrees_witness:
  "\<exists>t b. trie_inserts [([1, 2], 10), ([1, 3], 20), ([1, 2], 30)] (TrieTree_new 2 2) = Some t \<and>
     bin_inserts [([1, 2], 10), ([1, 3], 20), ([1, 2], 30)] (BinaryTree_new 2 2) = Some b \<and>
     trie_find 2 [1, 2] [1, 2] (tt_root t) = [10, 30] \<and> bin_find 2 [1, 2] [1, 2] (bt_root b) = [10, 30]"
  using compressed_trie_agrees [of 2 2 "[1, 2]" "[([1, 2], 10), ([1, 3], 20), ([1, 2], 30)]"]
  by (simp add: inserted_def)

text \<open>A tree that is deeper than its keys are long loses values: the second of two keys that differ in their last byte
  is not stored. And no tree with a value can be destroyed.\<close>

lemma deep_trie_loses_value:
  "trie_inserts [([1, 2], 10), ([1, 3], 20)] (TrieTree_new 3 2) \<noteq> None \<and>
   map_option (\<lambda>t. trie_find 3 [1, 3] [1, 3] (tt_root t)) (trie_inserts [([1, 2], 10), ([1, 3], 20)] (TrieTree_new 3 2)) = Some []"
  by (simp add: trie_insert_def TrieTree_new_def TrieNode_new_def moved_down_def only_values_def nth_list_update Let_def values_for_def)

lemma list_not_destroyed:
  "i < length ch \<Longrightarrow> l \<noteq> ml \<Longrightarrow> ch ! i = Some (Trie_values vl) \<Longrightarrow> \<not> trie_destroy ml (TrieNode l ch num only)"
  "i < length bh \<Longrightarrow> l \<noteq> ml \<Longrightarrow> bh ! i = Some (Bin_values vl) \<Longrightarrow> \<not> bin_destroy ml (BinaryNode l bh)"
  by (auto simp: in_set_conv_nth intro!: bexI [of _ "Some (Trie_values vl)"] bexI [of _ "Some (Bin_values vl)"])

lemma destroying_a_trie:
  "map_option (\<lambda>t. trie_destroy 2 (tt_root t)) (trie_inserts [([1, 2], 10)] (TrieTree_new 2 2)) = Some False \<and>
   map_option (\<lambda>t. bin_destroy 2 (bt_root t)) (bin_inserts [([1, 2], 10)] (BinaryTree_new 2 2)) = Some False"
proof -
  let ?t = "TrieNode 0 ((replicate 256 None)[1 := Some (Trie_values (ValueList [1, 2] [10]))]) 1 1"
  let ?b1 = "BinaryNode 1 ((replicate 256 None)[2 := Some (Bin_values (ValueList [1, 2] [10]))])"
  let ?b = "BinaryNode 0 ((replicate 256 None)[1 := Some (Bin_node ?b1)])"
  have "\<not> trie_destroy 2 ?t" by (rule list_not_destroyed(1) [of 1]) simp_all
  moreover have "\<not> bin_destroy 2 ?b1" by (rule list_not_destroyed(2) [of 2]) simp_all
  moreover have "Some (Bin_node ?b1) \<in> set ((replicate 256 None)[1 := Some (Bin_node ?b1)])" by (rule set_update_memI) simp
  then have "\<not> bin_destroy 2 ?b1 \<Longrightarrow> \<not> bin_destroy 2 ?b" by force
  ultimately show ?thesis
    by (simp add: trie_insert_def TrieTree_new_def TrieNode_new_def bin_insert_def BinaryTree_new_def BinaryNode_new_def Let_def)
qed

end
