(* ===== verification/TagTable.thy ===== *)
theory TagTable
  imports FlowAggregate
begin

text \<open>
  The table of tag values of \<^verbatim>\<open>dpdk_lib/tagAggregator.hpp\<close>. For every tag there is a map from flows to the values
  collected for the flow; depending on the kind of the tag the values are summed up, their maximum or
  minimum is kept, or every new value is listed.
\<close>

declare One_nat_def [simp del]

record TagAttr =
  ta_values :: "nat list"
  ta_beginOffset :: nat
  ta_agg :: nat

type_synonym TagAggregator = "(FlowMetadata \<rightharpoonup> TagAttr) list"

definition TagAggregator_new :: "nat \<Rightarrow> TagAggregator" where
  "TagAggregator_new n = replicate n Map.empty"

definition tag_sum :: "nat \<Rightarrow> nat \<Rightarrow> nat" where
  "tag_sum ori value = add64 ori value"

definition tag_max :: "nat \<Rightarrow> nat \<Rightarrow> nat" where
  "tag_max ori value = (if value > ori then value else ori)"

definition tag_min :: "nat \<Rightarrow> nat \<Rightarrow> nat" where
  "tag_min ori value = (if value < ori then value else ori)"

text \<open>\<open>contain\<close> adds a value that is not yet there and says whether it did.\<close>

definition tag_contain :: "nat list \<Rightarrow> nat \<Rightarrow> bool \<times> nat list" where
  "tag_contain oris value = (if value \<in> set oris then (False, oris) else (True, oris @ [value]))"

definition with_front :: "(nat \<Rightarrow> nat) \<Rightarrow> TagAttr \<Rightarrow> TagAttr option" where
  "with_front f a = (case ta_values a of [] \<Rightarrow> None | v # vs \<Rightarrow> Some (a\<lparr>ta_values := f v # vs\<rparr>))"

text \<open>The update of an entry, with the value returned at once, if any.\<close>

definition tag_update :: "TagAttr \<Rightarrow> nat \<Rightarrow> nat \<Rightarrow> (TagAttr \<times> (nat \<times> nat) option) option" where
  "tag_update a agg value =
     (if agg = 2 then map_option (\<lambda>a. (a, None)) (with_front (\<lambda>v. tag_sum v value) a)
      else if agg = 4 then map_option (\<lambda>a. (a, None)) (with_front (\<lambda>v. tag_max v value) a)
      else if agg = 5 then map_option (\<lambda>a. (a, None)) (with_front (\<lambda>v. tag_min v value) a)
      else if agg = 6
      then (case tag_contain (ta_values a) value of
          (added, vs) \<Rightarrow> Some (a\<lparr>ta_values := vs\<rparr>, if added then Some (ta_beginOffset a, value) else None))
      else Some (a, Some (u64_max, value)))"

definition addTag :: "TagAggregator \<Rightarrow> FlowMetadata \<Rightarrow> nat \<Rightarrow> nat \<Rightarrow> nat \<Rightarrow> nat \<Rightarrow> nat \<Rightarrow> ((nat \<times> nat) \<times> TagAggregator) option" where
  "addTag t meta tag_id tag_agg value offset last_offset = do {
     m \<leftarrow> vec_get t tag_id;
     case m meta of
       None \<Rightarrow> do {
         t' \<leftarrow> vec_set t tag_id (m(meta \<mapsto> \<lparr>ta_values = [value], ta_beginOffset = offset, ta_agg = tag_agg\<rparr>));
         Some ((if tag_agg = 6 then offset else u64_max, value), t') }
     | Some a \<Rightarrow> do {
         (a, ret) \<leftarrow> tag_update a tag_agg value;
         case ret of
           Some r \<Rightarrow> do { t' \<leftarrow> vec_set t tag_id (m(meta \<mapsto> a)); Some (r, t') }
         | None \<Rightarrow>
             if last_offset = u64_max \<and> tag_agg \<noteq> 6
             then do {
               front \<leftarrow> vec_get (ta_values a) 0;
               t' \<leftarrow> vec_set t tag_id (m(meta \<mapsto> a\<lparr>ta_beginOffset := offset\<rparr>));
               Some ((ta_beginOffset a, front), t') }
             else do { t' \<leftarrow> vec_set t tag_id (m(meta \<mapsto> a)); Some ((u64_max, value), t') } } }"

text \<open>All entries, in the order in which the maps are walked, which is an argument. The walk over a map stops at the first
  entry that lists its values.\<close>

fun entries_of :: "nat \<Rightarrow> (FlowMetadata \<rightharpoonup> TagAttr) \<Rightarrow> FlowMetadata list \<Rightarrow> (nat \<times> nat \<times> nat) list option" where
  "entries_of i m [] = Some []"
| "entries_of i m (k # ks) = do {
     a \<leftarrow> m k;
     if ta_agg a = 6 then Some []
     else do { front \<leftarrow> vec_get (ta_values a) 0; rest \<leftarrow> entries_of i m ks; Some ((i, ta_beginOffset a, front) # rest) } }"

fun getAll_from :: "nat \<Rightarrow> TagAggregator \<Rightarrow> FlowMetadata list list \<Rightarrow> (nat \<times> nat \<times> nat) list option" where
  "getAll_from i [] orders = Some []"
| "getAll_from i (m # ms) [] = None"
| "getAll_from i (m # ms) (ks # orders) = do {
     xs \<leftarrow> entries_of i m ks;
     rest \<leftarrow> getAll_from (i + 1) ms orders;
     Some (xs @ rest) }"

definition tag_getAll :: "TagAggregator \<Rightarrow> FlowMetadata list list \<Rightarrow> (nat \<times> nat \<times> nat) list option" where
  "tag_getAll t orders = getAll_from 0 t orders"

section \<open>What the table keeps\<close>

record tag_op =
  op_meta :: FlowMetadata
  op_tag :: nat
  op_agg :: nat
  op_value :: nat
  op_offset :: nat
  op_last :: nat

fun add_tags :: "tag_op list \<Rightarrow> TagAggregator \<Rightarrow> TagAggregator option" where
  "add_tags [] t = Some t"
| "add_tags (x # xs) t = do {
     (_, t') \<leftarrow> addTag t (op_meta x) (op_tag x) (op_agg x) (op_value x) (op_offset x) (op_last x);
     add_tags xs t' }"

definition values_of :: "nat \<Rightarrow> FlowMetadata \<Rightarrow> tag_op list \<Rightarrow> nat list" where
  "values_of tag meta xs = map op_value (filter (\<lambda>x. op_tag x = tag \<and> op_meta x = meta) xs)"

text \<open>What is kept of the values of a flow: the sum, the maximum, the minimum, the different values in the order of
  their first occurrence, or the first value.\<close>

definition kept :: "nat \<Rightarrow> nat list \<Rightarrow> nat list" where
  "kept agg vs =
     (if agg = 2 then [sum_list vs mod U64]
      else if agg = 4 then [Max (set vs)]
      else if agg = 5 then [Min (set vs)]
      else if agg = 6 then rev (remdups (rev vs))
      else [hd vs])"

definition table_keeps :: "(nat \<Rightarrow> nat) \<Rightarrow> TagAggregator \<Rightarrow> tag_op list \<Rightarrow> bool" where
  "table_keeps kind t xs \<longleftrightarrow> (\<forall>tag < length t. \<forall>meta. map_option ta_values ((t ! tag) meta) =
     (if values_of tag meta xs = [] then None else Some (kept (kind tag) (values_of tag meta xs))))"

lemma kept_one: "v < U64 \<Longrightarrow> kept agg [v] = [v]"
  by (simp add: kept_def)

lemma kept_more:
  assumes "vs \<noteq> []"
  shows "kept agg (vs @ [v]) =
    (if agg = 2 then [tag_sum (hd (kept agg vs)) v] else if agg = 4 then [tag_max (hd (kept agg vs)) v]
     else if agg = 5 then [tag_min (hd (kept agg vs)) v] else if agg = 6 then snd (tag_contain (kept agg vs) v) else kept agg vs)"
proof -
  have m: "tag_max a v = max v a" "tag_min a v = min v a" for a by (auto simp: tag_max_def tag_min_def)
  have ne: "set vs \<noteq> {}" using assms by simp
  show ?thesis
    using assms unfolding kept_def m
    by (simp add: tag_sum_def tag_contain_def add64_def mod_simps Max_insert [OF _ ne] Min_insert [OF _ ne])
qed

lemma kept_length: "vs \<noteq> [] \<Longrightarrow> kept agg vs \<noteq> [] \<and> (agg \<noteq> 6 \<longrightarrow> length (kept agg vs) = 1)"
  by (auto simp: kept_def)

lemma tag_update_kept:
  assumes "ta_values a = kept agg vs" and "vs \<noteq> []"
  shows "\<exists>a' r. tag_update a agg v = Some (a', r) \<and> ta_values a' = kept agg (vs @ [v])"
proof -
  obtain y ys where y: "kept agg vs = y # ys" "agg \<noteq> 6 \<longrightarrow> ys = []"
    using kept_length [OF assms(2), of agg] by (cases "kept agg vs") auto
  then show ?thesis
    using assms kept_more [OF assms(2), of agg v]
    by (auto simp: tag_update_def with_front_def split: prod.splits)
qed

lemma values_of_snoc: "values_of tag meta (xs @ [x]) =
    values_of tag meta xs @ (if op_tag x = tag \<and> op_meta x = meta then [op_value x] else [])"
  by (simp add: values_of_def)

lemma addTag_keeps:
  assumes keeps: "table_keeps kind t xs" and x: "op_tag x < length t" "op_agg x = kind (op_tag x)" "op_value x < U64"
  shows "\<exists>r t'. addTag t (op_meta x) (op_tag x) (op_agg x) (op_value x) (op_offset x) (op_last x) = Some (r, t') \<and>
    length t' = length t \<and> table_keeps kind t' (xs @ [x])"
proof -
  let ?tag = "op_tag x" and ?meta = "op_meta x" and ?vs = "values_of (op_tag x) (op_meta x) xs"
  let ?m = "t ! ?tag"
  have upd: "table_keeps kind (t[?tag := ?m(?meta \<mapsto> a)]) (xs @ [x])" if a: "ta_values a = kept (kind ?tag) (?vs @ [op_value x])" for a
    unfolding table_keeps_def
  proof (intro allI impI)
    fix tag meta assume tag: "tag < length (t[?tag := ?m(?meta \<mapsto> a)])"
    have old: "map_option ta_values ((t ! tag) meta) =
        (if values_of tag meta xs = [] then None else Some (kept (kind tag) (values_of tag meta xs)))"
      using keeps tag by (simp add: table_keeps_def)
    show "map_option ta_values ((t[?tag := ?m(?meta \<mapsto> a)] ! tag) meta) =
        (if values_of tag meta (xs @ [x]) = [] then None else Some (kept (kind tag) (values_of tag meta (xs @ [x]))))"
      using a tag old x(1) unfolding values_of_snoc by (cases "tag = ?tag"; cases "meta = ?meta") auto
  qed
  have old: "map_option ta_values (?m ?meta) = (if ?vs = [] then None else Some (kept (kind ?tag) ?vs))"
    using keeps x(1) by (simp add: table_keeps_def)
  show ?thesis
  proof (cases "?m ?meta")
    case None
    then have "?vs = []" using old by (simp split: if_splits)
    then show ?thesis using None x kept_one [OF x(3)]
        upd [of "\<lparr>ta_values = [op_value x], ta_beginOffset = op_offset x, ta_agg = op_agg x\<rparr>"]
      by (simp add: addTag_def vec_get_def vec_set_def)
  next
    case (Some a)
    then have vs: "?vs \<noteq> []" "ta_values a = kept (op_agg x) ?vs" using old x(2) by (simp_all split: if_splits)
    from tag_update_kept [OF vs(2,1), of "op_value x"] obtain a' r where a': "tag_update a (op_agg x) (op_value x) = Some (a', r)"
      "ta_values a' = kept (kind ?tag) (?vs @ [op_value x])" using x(2) by auto
    have "ta_values a' \<noteq> []" unfolding a'(2) using kept_length [of "?vs @ [op_value x]"] by blast
    then obtain y ys where y: "ta_values a' = y # ys" by (cases "ta_values a'") auto
    have off: "ta_values (a'\<lparr>ta_beginOffset := op_offset x\<rparr>) = kept (kind ?tag) (?vs @ [op_value x])" using a'(2) by simp
    show ?thesis
      using Some x(1) a'(1) y upd [OF a'(2)] upd [OF off]
      by (simp add: addTag_def vec_get_def vec_set_def split: option.splits)
  qed
qed

lemma add_tags_keeps:
  "table_keeps kind t ys \<Longrightarrow> \<forall>x \<in> set xs. op_tag x < length t \<and> op_agg x = kind (op_tag x) \<and> op_value x < U64 \<Longrightarrow>
   \<exists>t'. add_tags xs t = Some t' \<and> length t' = length t \<and> table_keeps kind t' (ys @ xs)"
proof (induction xs arbitrary: t ys)
  case (Cons x xs)
  then have x: "op_tag x < length t" "op_agg x = kind (op_tag x)" "op_value x < U64" by simp_all
  from addTag_keeps [OF Cons.prems(1) x] obtain r t1 where t1:
    "addTag t (op_meta x) (op_tag x) (op_agg x) (op_value x) (op_offset x) (op_last x) = Some (r, t1)"
    "length t1 = length t" "table_keeps kind t1 (ys @ [x])" by blast
  from Cons.IH [OF t1(3)] Cons.prems(2) t1(1,2) show ?case by auto
qed simp

text \<open>C38: the tag table. If every tag is used with one kind of aggregation, any history of values for any flows is accepted, and for
  every tag and flow the table keeps what its kind says of exactly the values of that flow: their sum modulo
  the word size, their maximum, their minimum, the different values in the order of their first occurrence,
  or the first value; flows without a value have no entry.\<close>

theorem tags_aggregated:
  assumes "\<forall>x \<in> set xs. op_tag x < n \<and> op_agg x = kind (op_tag x) \<and> op_value x < U64" and "tag < n"
  shows "\<exists>t. add_tags xs (TagAggregator_new n) = Some t \<and> map_option ta_values ((t ! tag) meta) =
    (if values_of tag meta xs = [] then None else Some (kept (kind tag) (values_of tag meta xs)))"
proof -
  have "table_keeps kind (TagAggregator_new n) []" by (simp add: table_keeps_def values_of_def TagAggregator_new_def)
  from add_tags_keeps [OF this, of xs] assms(1) obtain t where t: "add_tags xs (TagAggregator_new n) = Some t" "length t = n"
    "table_keeps kind t xs" by (auto simp: TagAggregator_new_def)
  then have "map_option ta_values ((t ! tag) meta) =
      (if values_of tag meta xs = [] then None else Some (kept (kind tag) (values_of tag meta xs)))"
    using assms(2) unfolding table_keeps_def by blast
  with t(1) show ?thesis by blast
qed

definition example_tag_flow :: FlowMetadata where
  "example_tag_flow = \<lparr>sourceAddress = [1], destinationAddress = [2], sourcePort = 3, destinationPort = 4\<rparr>"

definition example_tag_op :: "nat \<Rightarrow> nat \<Rightarrow> tag_op" where
  "example_tag_op tag v = \<lparr>op_meta = example_tag_flow, op_tag = tag, op_agg = (if tag = 0 then 2 else 6), op_value = v, op_offset = 0, op_last = 0\<rparr>"

lemma tags_aggregated_witness:
  "\<exists>t. add_tags [example_tag_op 0 5, example_tag_op 1 8, example_tag_op 0 6] (TagAggregator_new 2) = Some t \<and>
     map_option ta_values ((t ! 0) example_tag_flow) = Some [11]"
  using tags_aggregated [of "[example_tag_op 0 5, example_tag_op 1 8, example_tag_op 0 6]" 2 "\<lambda>tag. if tag = 0 then 2 else 6" 0 example_tag_flow]
  by (simp add: example_tag_op_def values_of_def kept_def)

end
