(* ===== verification/PacketCompressor.thy ===== *)
theory PacketCompressor
  imports Prelude
begin

text \<open>
  The compressor for packets of \<^verbatim>\<open>dpdk_lib/compressor.hpp\<close>. It appends packets to a buffer and replaces bytes that
  occurred before by segments; the dictionary maps a hash of four bytes to a position. Positions are
  natural numbers, a packet is far shorter than the range of the 32-bit counters.
\<close>

declare One_nat_def [simp del]

section \<open>The compressor\<close>

record Compressor =
  cz_dict :: "nat list"
  cz_buffer :: bytes
  bufferOffset :: nat

definition Compressor_new :: "bytes \<Rightarrow> nat \<Rightarrow> Compressor" where
  "Compressor_new buffer dict_len = \<lparr>cz_dict = replicate dict_len 0, cz_buffer = buffer, bufferOffset = 0\<rparr>"

definition cz_write :: "Compressor \<Rightarrow> bytes \<Rightarrow> Compressor option" where
  "cz_write c bs = do {
     m \<leftarrow> mwrite (cz_buffer c) (bufferOffset c) bs;
     Some (c\<lparr>cz_buffer := m, bufferOffset := add64 (bufferOffset c) (length bs)\<rparr>) }"

text \<open>A single byte is escaped if it is the flag of a segment.\<close>

definition cz_put :: "Compressor \<Rightarrow> byte \<Rightarrow> Compressor option" where
  "cz_put c b = do { c \<leftarrow> cz_write c [b]; if b = 254 then cz_write c [0] else Some c }"

fun cz_puts :: "Compressor \<Rightarrow> bytes \<Rightarrow> Compressor option" where
  "cz_puts c [] = Some c"
| "cz_puts c (b # bs) = do { c' \<leftarrow> cz_put c b; cz_puts c' bs }"

text \<open>The bytes are signed characters, so they are extended with their sign.\<close>

definition cz_hash :: "byte \<Rightarrow> byte \<Rightarrow> byte \<Rightarrow> byte \<Rightarrow> nat" where
  "cz_hash b0 b1 b2 b3 =
     unat (drop_bit 5 (33 * (push_bit 5 (push_bit 5 (push_bit 6 (scast b3) XOR scast b2) XOR scast b1) XOR scast b0) :: 32 word) AND 262143)"

text \<open>The length of a match. The first four bytes have been compared, the comparison goes on at the ninth byte.\<close>

function match_length :: "bytes \<Rightarrow> nat \<Rightarrow> bytes \<Rightarrow> nat \<Rightarrow> nat \<Rightarrow> nat \<Rightarrow> nat \<Rightarrow> nat option" where
  "match_length buffer m_pos m pos now data_len len = do {
     a \<leftarrow> vec_get buffer (m_pos + len);
     b \<leftarrow> vec_get m (pos + len);
     if a \<noteq> b then Some len
     else if len + 1 + now = data_len \<or> len + 1 = 255 \<or> len \<ge> 255 then Some (len + 1)
     else match_length buffer m_pos m pos now data_len (len + 1) }"
  by pat_completeness auto

termination
  by (relation "measure (\<lambda>(_, _, _, _, _, _, len). 255 - len)") auto

declare match_length.simps [simp del]

definition segment_bytes :: "nat \<Rightarrow> nat \<Rightarrow> bytes" where
  "segment_bytes len diff = [254, word_of_nat len] @ le_encode 2 (diff mod 65536)"

text \<open>The comparison stops at the first difference.\<close>

fun same_bytes :: "bytes \<Rightarrow> nat \<Rightarrow> bytes \<Rightarrow> bool option" where
  "same_bytes buffer p [] = Some True"
| "same_bytes buffer p (b # bs) = do { a \<leftarrow> vec_get buffer p; if a = b then same_bytes buffer (p + 1) bs else Some False }"

text \<open>One round: a literal byte or a segment. \<open>pos\<close> is the position the pointer had at the start of the round; when bytes are
  dropped, the pointer is not moved. The result is the new position.\<close>

definition cz_literal :: "bytes \<Rightarrow> nat \<Rightarrow> nat \<Rightarrow> nat \<Rightarrow> Compressor \<Rightarrow> (nat \<times> Compressor) option" where
  "cz_literal m pos now dindex c = do {
     d \<leftarrow> vec_set (cz_dict c) dindex ((now + bufferOffset c) mod 4294967296);
     b \<leftarrow> vec_get m pos;
     c' \<leftarrow> cz_put (c\<lparr>cz_dict := d\<rparr>) b;
     Some (now + 1, c') }"

definition cz_step :: "bytes \<Rightarrow> nat \<Rightarrow> nat \<Rightarrow> nat \<Rightarrow> Compressor \<Rightarrow> (nat \<times> Compressor) option" where
  "cz_step m data_len pos now c = do {
     bs \<leftarrow> mread m pos 4;
     let dindex = cz_hash (bs ! 0) (bs ! 1) (bs ! 2) (bs ! 3);
     m_pos \<leftarrow> vec_get (cz_dict c) dindex;
     let m_off = (bufferOffset c + now - m_pos) mod 4294967296;
     if m_pos \<ge> bufferOffset c \<or> m_off > 65536 \<or> m_off < 8 then cz_literal m pos now dindex c
     else do {
       same \<leftarrow> same_bytes (cz_buffer c) m_pos bs;
       if \<not> same then cz_literal m pos now dindex c
       else do {
         len \<leftarrow> match_length (cz_buffer c) m_pos m pos now data_len 8;
         c' \<leftarrow> cz_write c (segment_bytes len m_off);
         d \<leftarrow> vec_set (cz_dict c') dindex ((now + bufferOffset c') mod 4294967296);
         Some (now + len, c'\<lparr>cz_dict := d\<rparr>) } } }"

definition cz_round :: "bytes \<Rightarrow> nat \<Rightarrow> nat \<Rightarrow> nat \<Rightarrow> nat \<Rightarrow> Compressor \<Rightarrow> (nat \<times> Compressor) option" where
  "cz_round m data_len drop_offset drop_len pos c = do {
     (now, c) \<leftarrow> (if pos + 8 = drop_offset
       then do { bs \<leftarrow> mread m pos 8; c' \<leftarrow> cz_puts c bs; Some (pos + 8 + drop_len, c') }
       else Some (pos, c));
     cz_step m data_len pos now c }"

lemma match_length_ge: "match_length buffer m_pos m pos now data_len len = Some n \<Longrightarrow> len \<le> n \<and> (len < 255 \<longrightarrow> n \<le> 255)"
proof (induction buffer m_pos m pos now data_len len rule: match_length.induct)
  case (1 buffer m_pos m pos now data_len len)
  from 1(2) show ?case
    unfolding match_length.simps [of buffer m_pos m pos now data_len len] using 1(1)
    by (fastforce simp: bind_eq_Some_conv One_nat_def split: if_splits)
qed

definition cz_segment :: "bytes \<Rightarrow> nat \<Rightarrow> nat \<Rightarrow> nat \<Rightarrow> Compressor \<Rightarrow> nat \<Rightarrow> Compressor \<Rightarrow> bool" where
  "cz_segment m data_len pos now c now' c' \<longleftrightarrow> (\<exists>mp len diff c2 d. match_length (cz_buffer c) mp m pos now data_len 8 = Some len \<and>
     now' = now + len \<and> cz_write c (segment_bytes len diff) = Some c2 \<and> c' = c2\<lparr>cz_dict := d\<rparr>)"

lemma cz_segmentI: "match_length (cz_buffer c) mp m pos now data_len 8 = Some len \<Longrightarrow>
    cz_write c (segment_bytes len diff) = Some c2 \<Longrightarrow> cz_segment m data_len pos now c (now + len) (c2\<lparr>cz_dict := d\<rparr>)"
  unfolding cz_segment_def by blast

lemma cz_step_cases:
  assumes "cz_step m data_len pos now c = Some (now', c')"
  shows "pos + 4 \<le> length m" and "(\<exists>d. cz_literal m pos now d c = Some (now', c')) \<or> cz_segment m data_len pos now c now' c'"
proof -
  from assms obtain bs mp where b: "mread m pos 4 = Some bs" "vec_get (cz_dict c) (cz_hash (bs ! 0) (bs ! 1) (bs ! 2) (bs ! 3)) = Some mp"
    by (auto simp: cz_step_def Let_def bind_eq_Some_conv)
  show "pos + 4 \<le> length m" using b(1) by (simp add: mread_def split: if_splits)
  note u = assms [unfolded cz_step_def Let_def b(1) bind.bind_lunit b(2)]
  let ?d = "cz_hash (bs ! 0) (bs ! 1) (bs ! 2) (bs ! 3)"
  show "(\<exists>d. cz_literal m pos now d c = Some (now', c')) \<or> cz_segment m data_len pos now c now' c'"
  proof (cases "cz_literal m pos now ?d c = Some (now', c')")
    case False
    then have "cz_segment m data_len pos now c now' c'"
      using u by (auto simp: b bind_eq_Some_conv split: if_splits intro: cz_segmentI)
    then show ?thesis ..
  qed blast
qed

lemma cz_round_advances: "cz_round m data_len drop_offset drop_len pos c = Some (now, c') \<Longrightarrow> pos < now"
  by (auto simp: cz_round_def cz_literal_def cz_segment_def bind_eq_Some_conv dest!: match_length_ge cz_step_cases(2) split: if_splits)

text \<open>The bound is computed without a sign: for less than eight bytes it is huge.\<close>

function cz_loop :: "bytes \<Rightarrow> nat \<Rightarrow> nat \<Rightarrow> nat \<Rightarrow> nat \<Rightarrow> Compressor \<Rightarrow> Compressor option" where
  "cz_loop m data_len drop_offset drop_len now c =
     (if now < (data_len + 4294967296 - 8) mod 4294967296
      then case cz_round m data_len drop_offset drop_len now c of None \<Rightarrow> None
        | Some (now', c') \<Rightarrow> cz_loop m data_len drop_offset drop_len now' c'
      else Some c)"
  by pat_completeness auto

termination
  by (relation "measure (\<lambda>(_, data_len, _, _, now, _). (data_len + 4294967296 - 8) mod 4294967296 - now)")
    (auto dest: cz_round_advances)

declare cz_loop.simps [simp del]

definition cz_compress :: "Compressor \<Rightarrow> bytes \<Rightarrow> bytes \<Rightarrow> nat \<Rightarrow> nat \<Rightarrow> nat \<Rightarrow> Compressor option" where
  "cz_compress c header m data_len drop_offset drop_len = do {
     let new_header = bufferOffset c;
     hd \<leftarrow> mread header 0 16;
     c \<leftarrow> cz_write c hd;
     let origin = bufferOffset c;
     c \<leftarrow> (if data_len < 8 then do { bs \<leftarrow> mread m 0 data_len; cz_write c bs } else Some c);
     c \<leftarrow> cz_loop m data_len drop_offset drop_len 0 c;
     m' \<leftarrow> mwrite (cz_buffer c) (new_header + 8) (le_encode 4 (sub64 (bufferOffset c) origin mod 4294967296));
     Some (c\<lparr>cz_buffer := m'\<rparr>) }"

section \<open>What a compressed packet looks like\<close>

definition cz_ok :: "Compressor \<Rightarrow> bool" where
  "cz_ok c \<longleftrightarrow> bufferOffset c \<le> length (cz_buffer c) \<and> length (cz_buffer c) < U64"

text \<open>At most \<open>n\<close> bytes are appended, nothing before them is changed.\<close>

definition cz_grows :: "Compressor \<Rightarrow> Compressor \<Rightarrow> nat \<Rightarrow> bool" where
  "cz_grows c c' n \<longleftrightarrow> cz_ok c' \<and> length (cz_buffer c') = length (cz_buffer c) \<and> bufferOffset c \<le> bufferOffset c' \<and>
     bufferOffset c' \<le> bufferOffset c + n \<and> take (bufferOffset c) (cz_buffer c') = take (bufferOffset c) (cz_buffer c)"

lemma cz_grows_refl: "cz_ok c \<Longrightarrow> cz_grows c c 0"
  by (simp add: cz_grows_def)

lemma cz_grows_trans: "cz_grows a b n \<Longrightarrow> cz_grows b c k \<Longrightarrow> n + k \<le> l \<Longrightarrow> cz_grows a c l"
  unfolding cz_grows_def by (auto dest: arg_cong [where f = "take (bufferOffset a)"] simp: min_absorb1)

lemma cz_grows_dict: "cz_grows (c\<lparr>cz_dict := d\<rparr>) c' n = cz_grows c c' n" "cz_grows c (c'\<lparr>cz_dict := d\<rparr>) n = cz_grows c c' n"
  "cz_ok (c\<lparr>cz_dict := d\<rparr>) = cz_ok c"
  by (simp_all add: cz_grows_def cz_ok_def)

lemma cz_write_grows:
  assumes "cz_ok c" and "cz_write c bs = Some c'"
  shows "cz_grows c c' (length bs)" and "bufferOffset c' = bufferOffset c + length bs"
    and "mread (cz_buffer c') (bufferOffset c) (length bs) = Some bs"
proof -
  from assms(2) obtain m where m: "mwrite (cz_buffer c) (bufferOffset c) bs = Some m"
    "c' = c\<lparr>cz_buffer := m, bufferOffset := add64 (bufferOffset c) (length bs)\<rparr>"
    by (auto simp: cz_write_def bind_eq_Some_conv)
  have w: "bufferOffset c + length bs \<le> length (cz_buffer c)" "m = take (bufferOffset c) (cz_buffer c) @ bs @ drop (bufferOffset c + length bs) (cz_buffer c)"
    using m(1) by (auto simp: mwrite_def split: if_splits)
  have a: "add64 (bufferOffset c) (length bs) = bufferOffset c + length bs"
    using w(1) assms(1) by (simp add: cz_ok_def add64_small)
  show "bufferOffset c' = bufferOffset c + length bs" using m(2) a by simp
  show "cz_grows c c' (length bs)" using assms(1) w m(2) a by (auto simp: cz_grows_def cz_ok_def)
  show "mread (cz_buffer c') (bufferOffset c) (length bs) = Some bs" using w m(2) assms(1) by (simp add: mread_def cz_ok_def)
qed

lemma cz_put_grows: "cz_ok c \<Longrightarrow> cz_put c b = Some c' \<Longrightarrow> cz_grows c c' 2"
proof -
  assume ok: "cz_ok c" and p: "cz_put c b = Some c'"
  then obtain c1 where c1: "cz_write c [b] = Some c1" "(if b = 254 then cz_write c1 [0] else Some c1) = Some c'"
    by (auto simp: cz_put_def bind_eq_Some_conv)
  note g = cz_write_grows(1) [OF ok c1(1)]
  have "cz_grows c1 c' 1"
    using c1(2) cz_write_grows(1) [of c1 "[0]" c'] g by (auto simp: cz_grows_def One_nat_def split: if_splits)
  with g show ?thesis by (rule cz_grows_trans) (simp add: One_nat_def)
qed

lemma cz_puts_grows: "cz_ok c \<Longrightarrow> cz_puts c bs = Some c' \<Longrightarrow> cz_grows c c' (2 * length bs)"
proof (induction bs arbitrary: c)
  case Nil
  then show ?case by (simp add: cz_grows_refl)
next
  case (Cons b bs)
  then obtain c1 where c1: "cz_put c b = Some c1" "cz_puts c1 bs = Some c'" by (auto simp: bind_eq_Some_conv)
  note g = cz_put_grows [OF Cons.prems(1) c1(1)]
  then have "cz_ok c1" by (simp add: cz_grows_def)
  then have "cz_grows c1 c' (2 * length bs)" using c1(2) by (rule Cons.IH)
  with g show ?case by (rule cz_grows_trans) simp
qed

lemma cz_literal_grows: "cz_ok c \<Longrightarrow> cz_literal m pos now dindex c = Some (now', c') \<Longrightarrow> cz_grows c c' 2 \<and> now' = now + 1"
  by (auto simp: cz_literal_def bind_eq_Some_conv cz_grows_dict dest!: cz_put_grows [rotated])

lemma cz_round_grows:
  assumes ok: "cz_ok c" and r: "cz_round m data_len drop_offset drop_len pos c = Some (now', c')"
  shows "cz_grows c c' (2 * (now' - pos)) \<and> pos < now' \<and> now' \<le> pos + 8 + drop_len + 255 \<and> pos + 4 \<le> length m"
proof -
  from r obtain now c1 where s: "(if pos + 8 = drop_offset
      then do { bs \<leftarrow> mread m pos 8; c' \<leftarrow> cz_puts c bs; Some (pos + 8 + drop_len, c') } else Some (pos, c)) = Some (now, c1)"
    "cz_step m data_len pos now c1 = Some (now', c')"
    unfolding cz_round_def by (auto simp: bind_eq_Some_conv)
  have pre: "cz_grows c c1 (2 * (now - pos))" "pos \<le> now" "now \<le> pos + 8 + drop_len"
  proof -
    have "cz_grows c c1 (2 * (now - pos)) \<and> pos \<le> now \<and> now \<le> pos + 8 + drop_len"
    proof (cases "pos + 8 = drop_offset")
      case True
      then obtain bs where "mread m pos 8 = Some bs" "cz_puts c bs = Some c1" "now = pos + 8 + drop_len"
        using s(1) by (auto simp: bind_eq_Some_conv)
      moreover from this have "cz_grows c c1 (2 * 8)" using cz_puts_grows [OF ok] mread_length by fastforce
      ultimately show ?thesis by (auto simp: cz_grows_def)
    next
      case False
      then show ?thesis using s(1) cz_grows_refl [OF ok] by simp
    qed
    then show "cz_grows c c1 (2 * (now - pos))" "pos \<le> now" "now \<le> pos + 8 + drop_len" by simp_all
  qed
  have ok1: "cz_ok c1" using pre(1) by (simp add: cz_grows_def)
  note len = cz_step_cases(1) [OF s(2)]
  from cz_step_cases(2) [OF s(2)] have "cz_grows c1 c' (2 * (now' - now)) \<and> now < now' \<and> now' \<le> now + 255"
  proof
    assume "\<exists>d. cz_literal m pos now d c1 = Some (now', c')"
    then show ?thesis using cz_literal_grows [OF ok1] by fastforce
  next
    assume "cz_segment m data_len pos now c1 now' c'"
    then obtain mp len d c2 diff where m: "match_length (cz_buffer c1) mp m pos now data_len 8 = Some len" "now' = now + len"
      "cz_write c1 (segment_bytes len diff) = Some c2" "c' = c2\<lparr>cz_dict := d\<rparr>" unfolding cz_segment_def by blast
    have l: "8 \<le> len" "len \<le> 255" using match_length_ge [OF m(1)] by simp_all
    have "length (segment_bytes len diff) = 4" by (simp add: segment_bytes_def)
    then have "cz_grows c1 c' 4" using cz_write_grows(1) [OF ok1 m(3)] m(4) by (simp add: cz_grows_dict)
    then show ?thesis using l m(2) by (auto simp: cz_grows_def)
  qed
  then show ?thesis using cz_grows_trans [OF pre(1), of c' "2 * (now' - now)" "2 * (now' - pos)"] pre(2,3) len by auto
qed

lemma cz_loop_grows:
  "cz_ok c \<Longrightarrow> cz_loop m data_len drop_offset drop_len now c = Some c' \<Longrightarrow>
   cz_grows c c' (2 * ((data_len + 4294967296 - 8) mod 4294967296 + 8 + drop_len + 255 - now)) \<and>
   ((data_len + 4294967296 - 8) mod 4294967296 \<le> now \<or> (data_len + 4294967296 - 8) mod 4294967296 \<le> length m + 8 + drop_len + 255)"
proof (induction m data_len drop_offset drop_len now c rule: cz_loop.induct)
  case (1 m data_len drop_offset drop_len now c)
  let ?bound = "(data_len + 4294967296 - 8) mod 4294967296"
  show ?case
  proof (cases "now < ?bound")
    case False
    then have "c' = c" using 1(3) by (simp add: cz_loop.simps [of m data_len drop_offset drop_len now c])
    then show ?thesis using False cz_grows_refl [OF 1(2)] by (auto simp: cz_grows_def)
  next
    case True
    then obtain now' c1 where r: "cz_round m data_len drop_offset drop_len now c = Some (now', c1)"
      "cz_loop m data_len drop_offset drop_len now' c1 = Some c'"
      using 1(3) by (auto simp: cz_loop.simps [of m data_len drop_offset drop_len now c] split: option.splits)
    note g = cz_round_grows [OF 1(2) r(1)]
    then have ok1: "cz_ok c1" by (simp add: cz_grows_def)
    note h = 1(1) [OF True r(1) refl ok1 r(2)]
    have n: "now < now'" "now' \<le> now + 8 + drop_len + 255" "now + 4 \<le> length m" using g by simp_all
    have "cz_grows c c' (2 * (?bound + 8 + drop_len + 255 - now))"
      by (rule cz_grows_trans [OF conjunct1 [OF g] conjunct1 [OF h]]) (use n True in simp)
    moreover have "?bound \<le> length m + 8 + drop_len + 255" using h n by auto
    ultimately show ?thesis by simp
  qed
qed

section \<open>When the compression returns\<close>










section \<open>The text of a compressed packet\<close>


















definition example_compressor :: Compressor where
  "example_compressor = Compressor_new (replicate 32 0) 1"

lemma example_compress:
  "cz_compress example_compressor (replicate 16 1) (replicate 9 0) 9 0 0 =
     Some \<lparr>cz_dict = [16], cz_buffer = replicate 8 1 @ [1, 0, 0, 0] @ replicate 4 1 @ replicate 16 0, bufferOffset = 17\<rparr>"
proof -
  let ?c1 = "\<lparr>cz_dict = [0], cz_buffer = replicate 16 1 @ replicate 16 0, bufferOffset = 16\<rparr> :: Compressor"
  let ?c2 = "\<lparr>cz_dict = [16], cz_buffer = replicate 16 1 @ replicate 16 0, bufferOffset = 17\<rparr> :: Compressor"
  have h: "mread (replicate 16 1 :: bytes) 0 16 = Some (replicate 16 1)" by (simp add: mread_def)
  have w: "cz_write example_compressor (replicate 16 1) = Some ?c1"
    by (simp add: cz_write_def example_compressor_def Compressor_new_def mwrite_def add64_def One_nat_def)
  have four: "mread (replicate 9 0 :: bytes) 0 4 = Some [0, 0, 0, 0]" by (simp add: mread_def numeral_eq_Suc)
  have hash: "cz_hash 0 0 0 0 = 0" by (simp add: cz_hash_def)
  have same: "same_bytes (replicate 16 1 @ replicate 16 0) 0 [0, 0, 0, 0] = Some False" by (simp add: vec_get_def nth_append)
  have first: "(replicate 16 1 @ replicate 16 0) ! 0 = (1::byte)" by (simp add: nth_append)
  have "drop 16 (replicate 16 (1::byte) @ replicate 16 0) = replicate 16 0" by simp
  then have lit: "cz_literal (replicate 9 0) 0 0 0 ?c1 = Some (1, ?c2)"
    by (simp add: cz_literal_def vec_set_def vec_get_def cz_put_def cz_write_def mwrite_def add64_def)
      (simp add: numeral_eq_Suc)
  have round: "cz_round (replicate 9 0) 9 0 0 0 ?c1 = Some (1, ?c2)"
    unfolding cz_round_def cz_step_def by (simp add: four hash Let_def vec_get_def same lit first)
  have loop1: "cz_loop (replicate 9 0) 9 0 0 1 ?c2 = Some ?c2" by (subst cz_loop.simps) simp
  have loop: "cz_loop (replicate 9 0) 9 0 0 0 ?c1 = Some ?c2"
    unfolding cz_loop.simps [of "replicate 9 0" 9 0 0 0 ?c1] round option.case prod.case loop1 by simp
  have "(4::nat) = Suc (Suc (Suc (Suc 0)))" by simp
  then have e: "le_encode 4 1 = ([1, 0, 0, 0] :: bytes)" by (simp only: le_encode.simps) simp
  have s: "sub64 17 16 mod 4294967296 = 1" by (simp add: sub64_def)
  have "mwrite (replicate 16 1 @ replicate 16 0) 8 [1, 0, 0, 0] = Some (replicate 8 1 @ [1, 0, 0, 0] @ replicate 4 1 @ replicate 16 0 :: bytes)"
    by (simp add: mwrite_def)
  moreover have "bufferOffset example_compressor = 0" by (simp add: example_compressor_def Compressor_new_def)
  ultimately show ?thesis by (simp add: cz_compress_def h w loop Let_def s e)
qed



text \<open>The loop stops eight bytes before the end: a packet of eight bytes disappears, and a packet that is shorter is read
  far behind its end.\<close>

lemma eight_bytes_lost:
  assumes "cz_compress c header m 8 drop_offset drop_len = Some c'" and "cz_ok c"
  shows "bufferOffset c' = bufferOffset c + 16"
proof -
  from assms(1) obtain hd c1 where s: "mread header 0 16 = Some hd" "cz_write c hd = Some c1" "bufferOffset c' = bufferOffset c1"
    by (auto simp: cz_compress_def Let_def bind_eq_Some_conv cz_loop.simps)
  have "length hd = 16" using s(1) by (auto simp: mread_def split: if_splits)
  then show ?thesis using cz_write_grows(2) [OF assms(2) s(2)] s(3) by simp
qed

lemma short_packet_overruns:
  assumes "cz_ok c" and "data_len < 8" and "length m + drop_len < 4294967025"
  shows "cz_compress c header m data_len drop_offset drop_len = None"
proof (rule ccontr)
  assume "cz_compress c header m data_len drop_offset drop_len \<noteq> None"
  then obtain hd c1 bs c2 c3 where s: "cz_write c hd = Some c1" "mread m 0 data_len = Some bs" "cz_write c1 bs = Some c2"
    "cz_loop m data_len drop_offset drop_len 0 c2 = Some c3"
    using assms(2) by (auto simp: cz_compress_def Let_def bind_eq_Some_conv)
  have "cz_ok c1" using cz_write_grows(1) [OF assms(1) s(1)] by (simp add: cz_grows_def)
  then have "cz_ok c2" using cz_write_grows(1) [OF _ s(3)] by (simp add: cz_grows_def)
  from cz_loop_grows [OF this s(4)] assms(2,3) show False by auto
qed

end
