(* ===== verification/StreamBuffers.thy ===== *)
theory StreamBuffers
  imports Prelude
begin

text \<open>
  The buffers of the first version of the capture: \<^verbatim>\<open>dpdk_lib/memoryBuffer.hpp\<close>, blocks of memory that
  a storage thread (\<^verbatim>\<open>dpdk_component/directStorage.cpp\<close>) writes to a file, and
  \<^verbatim>\<open>dpdk_lib/fileBuffer.hpp\<close>, a window of a file mapped into memory. The outcomes of the system calls
  are arguments; a write to the file is its position and its bytes.
\<close>

declare One_nat_def [simp del]

section \<open>The memory buffer\<close>

record MemoryBuffer =
  mb_block_num :: nat
  mb_block_size :: nat
  mb_fileOffset :: nat
  mb_blocks :: "bytes list"
  mb_block_flags :: "bool list"
  mb_write_flags :: "bool list"
  mb_block_id :: nat
  mb_offset :: nat

datatype memory_buffer_error = Not_aligned | Too_few_blocks | Open_failed | Memory_failed

text \<open>\<open>blocks\<close> is the memory the allocation gives, if it does.\<close>

definition MemoryBuffer_new :: "bool \<Rightarrow> bytes list option \<Rightarrow> nat \<Rightarrow> nat \<Rightarrow> nat \<Rightarrow> memory_buffer_error + MemoryBuffer" where
  "MemoryBuffer_new open_ok blocks cap block_num offset =
     (if cap mod 1024 \<noteq> 0 then Inl Not_aligned
      else if block_num < 3 then Inl Too_few_blocks
      else if \<not> open_ok then Inl Open_failed
      else case blocks of None \<Rightarrow> Inl Memory_failed
        | Some bs \<Rightarrow> Inr \<lparr>mb_block_num = block_num, mb_block_size = cap, mb_fileOffset = 0, mb_blocks = bs,
            mb_block_flags = replicate block_num False, mb_write_flags = replicate block_num False, mb_block_id = 0, mb_offset = offset\<rparr>)"

definition mb_last :: "MemoryBuffer \<Rightarrow> nat" where
  "mb_last b = (mb_block_id b + mb_block_num b - 1) mod mb_block_num b"

definition changeFileOffset :: "MemoryBuffer \<Rightarrow> MemoryBuffer" where
  "changeFileOffset b = b\<lparr>mb_fileOffset := add64 (mb_fileOffset b) (mb_block_size b)\<rparr>"

text \<open>A wait for the flag of the block that is left ends only if the storage thread clears it.\<close>

definition changeBlock :: "MemoryBuffer \<Rightarrow> MemoryBuffer option" where
  "changeBlock b = do {
     dirty \<leftarrow> vec_get (mb_block_flags b) (mb_block_id b);
     if dirty then None
     else do {
       last_flag \<leftarrow> vec_get (mb_block_flags b) (mb_last b);
       wf \<leftarrow> vec_set (mb_write_flags b) (mb_last b) last_flag;
       bf \<leftarrow> vec_set (mb_block_flags b) (mb_block_id b) True;
       Some (changeFileOffset (b\<lparr>mb_write_flags := wf, mb_block_flags := bf,
         mb_block_id := (mb_block_id b + 1) mod mb_block_num b, mb_offset := 0\<rparr>)) } }"

definition mb_put :: "MemoryBuffer \<Rightarrow> nat \<Rightarrow> nat \<Rightarrow> bytes \<Rightarrow> MemoryBuffer option" where
  "mb_put b n pos bs = do {
     m \<leftarrow> vec_get (mb_blocks b) n;
     m' \<leftarrow> mwrite m pos bs;
     blocks \<leftarrow> vec_set (mb_blocks b) n m';
     Some (b\<lparr>mb_blocks := blocks\<rparr>) }"

text \<open>The rest of data that do not fit into the block is copied from the start of the data again.\<close>

definition mb_writePointer :: "MemoryBuffer \<Rightarrow> bytes \<Rightarrow> MemoryBuffer option" where
  "mb_writePointer b data =
     (let len = length data in
      if add64 (mb_offset b) len > mb_block_size b
      then do {
        let tmp = sub64 (mb_block_size b) (mb_offset b) mod 4294967296;
        part \<leftarrow> mread data 0 tmp;
        b \<leftarrow> mb_put b (mb_block_id b) (mb_offset b) part;
        b \<leftarrow> changeBlock b;
        rest \<leftarrow> mread data 0 (len - tmp);
        b \<leftarrow> mb_put b (mb_block_id b) (mb_offset b) rest;
        Some (b\<lparr>mb_offset := len - tmp\<rparr>) }
      else do {
        b \<leftarrow> mb_put b (mb_block_id b) (mb_offset b) data;
        Some (b\<lparr>mb_offset := add64 (mb_offset b) len\<rparr>) })"

text \<open>Writing at an earlier position of the file: into the current block, into the last one, or into both.\<close>

definition mb_writeBefore :: "MemoryBuffer \<Rightarrow> bytes \<Rightarrow> nat \<Rightarrow> MemoryBuffer option" where
  "mb_writeBefore b data pos =
     (if add64 pos (length data) > add64 (mb_fileOffset b) (mb_offset b) then Some b
      else if pos > mb_fileOffset b then mb_put b (mb_block_id b) (pos - mb_fileOffset b) data
      else do {
        (b, data) \<leftarrow> (if add64 pos (length data) > mb_fileOffset b
          then do {
            let tmplen = (mb_fileOffset b - pos) mod 4294967296;
            b \<leftarrow> mb_put b (mb_block_id b) 0 (drop tmplen data);
            Some (b, take tmplen data) }
          else Some (b, data));
        if mb_fileOffset b - pos > mb_block_size b then None
        else mb_put b (mb_last b) (mb_block_size b - (mb_fileOffset b - pos)) data })"

text \<open>The storage thread: a block that is ready is written at the present position of the writer.\<close>

definition checkAndWriteFile :: "MemoryBuffer \<Rightarrow> nat \<Rightarrow> (bool \<times> (nat \<times> bytes) list \<times> MemoryBuffer) option" where
  "checkAndWriteFile b n = do {
     ready \<leftarrow> vec_get (mb_write_flags b) n;
     if \<not> ready then Some (False, [], b)
     else do {
       bs \<leftarrow> vec_get (mb_blocks b) n;
       wf \<leftarrow> vec_set (mb_write_flags b) n False;
       bf \<leftarrow> vec_set (mb_block_flags b) n False;
       Some (True, [(mb_fileOffset b, bs)], b\<lparr>mb_write_flags := wf, mb_block_flags := bf\<rparr>) } }"

definition directWriteFile :: "MemoryBuffer \<Rightarrow> nat \<Rightarrow> (nat \<times> bytes) list option" where
  "directWriteFile b n = do {
     bs \<leftarrow> vec_get (mb_blocks b) n;
     if n \<noteq> mb_block_id b
     then do { bs' \<leftarrow> vec_get (mb_blocks b) (n + 1); Some [(mb_fileOffset b, bs), (mb_fileOffset b, bs')] }
     else Some [(mb_fileOffset b, bs)] }"

section \<open>The storage thread\<close>

record DirectStorage =
  ds_buffers :: "MemoryBuffer list"
  ds_checkID :: "nat list"
  ds_stop :: bool

definition DirectStorage_new :: DirectStorage where
  "DirectStorage_new = \<lparr>ds_buffers = [], ds_checkID = [], ds_stop = False\<rparr>"

definition ds_addBuffer :: "DirectStorage \<Rightarrow> MemoryBuffer \<Rightarrow> DirectStorage" where
  "ds_addBuffer s b = s\<lparr>ds_buffers := ds_buffers s @ [b], ds_checkID := ds_checkID s @ [0]\<rparr>"

text \<open>One round over the buffers gives whether a block was written, and the writes of each buffer.\<close>

fun runUnit_loop :: "MemoryBuffer list \<Rightarrow> nat list \<Rightarrow> (bool \<times> (nat \<times> bytes) list list \<times> MemoryBuffer list \<times> nat list) option" where
  "runUnit_loop [] ids = Some (False, [], [], ids)"
| "runUnit_loop (b # bs) [] = None"
| "runUnit_loop (b # bs) (n # ids) = do {
     (written, w, b') \<leftarrow> checkAndWriteFile b n;
     (change, ws, bs', ids') \<leftarrow> runUnit_loop bs ids;
     Some (written \<or> change, w # ws, b' # bs', (if written then (n + 1) mod mb_block_num b else n) # ids') }"

definition ds_runUnit :: "DirectStorage \<Rightarrow> (bool \<times> (nat \<times> bytes) list list \<times> DirectStorage) option" where
  "ds_runUnit s = do {
     (change, ws, bs, ids) \<leftarrow> runUnit_loop (ds_buffers s) (ds_checkID s);
     Some (change, ws, s\<lparr>ds_buffers := bs, ds_checkID := ids\<rparr>) }"

text \<open>After the stop the rest of every buffer is written without a test of its flags.\<close>

fun ds_finish :: "MemoryBuffer list \<Rightarrow> nat list \<Rightarrow> (nat \<times> bytes) list list option" where
  "ds_finish [] ids = Some []"
| "ds_finish (b # bs) [] = None"
| "ds_finish (b # bs) (n # ids) = do { w \<leftarrow> directWriteFile b n; ws \<leftarrow> ds_finish bs ids; Some (w # ws) }"

definition ds_asynchronousStop :: "DirectStorage \<Rightarrow> DirectStorage" where
  "ds_asynchronousStop s = s\<lparr>ds_stop := True\<rparr>"

text \<open>The thread: in every round the writers act first, then the buffers are looked at; after a round without a block that
  begins after the stop the rest is written.\<close>

fun ds_run :: "(DirectStorage \<Rightarrow> DirectStorage) list \<Rightarrow> DirectStorage \<Rightarrow> ((nat \<times> bytes) list list list \<times> DirectStorage) option" where
  "ds_run [] s = None"
| "ds_run (writers # rounds) s = do {
     (change, ws, s) \<leftarrow> ds_runUnit (writers s);
     if \<not> change \<and> ds_stop s
     then do { w \<leftarrow> ds_finish (ds_buffers s) (ds_checkID s); Some ([ws, w], s) }
     else do { (rest, s) \<leftarrow> ds_run rounds s; Some (ws # rest, s) } }"

section \<open>The file buffer\<close>

text \<open>The mapped window is a part of the file; allocating space extends the file by zeros.\<close>

record FileBuffer =
  fb_file :: bytes
  fb_opened :: bool
  fb_name :: "byte list"
  fb_fileID :: nat
  fb_offset :: nat
  fb_capacity :: nat
  fb_length :: nat
  fb_mapped :: "nat option"
  fb_ts_first :: nat
  fb_ts_last :: nat

definition FileBuffer_new :: "nat \<Rightarrow> nat \<Rightarrow> nat \<Rightarrow> FileBuffer" where
  "FileBuffer_new n cap offset = \<lparr>fb_file = [], fb_opened = False, fb_name = [], fb_fileID = n, fb_offset = offset, fb_capacity = cap,
     fb_length = 0, fb_mapped = None, fb_ts_first = 0, fb_ts_last = 0\<rparr>"

definition changeFileName :: "FileBuffer \<Rightarrow> byte list \<Rightarrow> FileBuffer" where
  "changeFileName f n = f\<lparr>fb_name := n\<rparr>"

definition changeFileID :: "FileBuffer \<Rightarrow> nat \<Rightarrow> FileBuffer" where
  "changeFileID f n = f\<lparr>fb_fileID := n\<rparr>"

definition fb_changeFileOffset :: "FileBuffer \<Rightarrow> nat \<Rightarrow> FileBuffer" where
  "fb_changeFileOffset f n = f\<lparr>fb_offset := n\<rparr>"

definition changeFileLength :: "FileBuffer \<Rightarrow> nat \<Rightarrow> FileBuffer" where
  "changeFileLength f n = f\<lparr>fb_length := n\<rparr>"

definition allocated :: "bytes \<Rightarrow> nat \<Rightarrow> bytes" where
  "allocated file n = file @ replicate (n - length file) 0"

text \<open>When allocating or mapping fails, the file is closed, but the descriptor is kept.\<close>

definition openFile :: "bool \<Rightarrow> bytes \<Rightarrow> bool \<Rightarrow> bool \<Rightarrow> FileBuffer \<Rightarrow> bool \<times> FileBuffer" where
  "openFile open_ok file fallocate_ok mmap_ok f =
     (if fb_opened f then (False, f)
      else if fb_name f = [] then (False, f)
      else if \<not> open_ok then (False, f)
      else let f = f\<lparr>fb_opened := True, fb_file := file\<rparr> in
        if \<not> fallocate_ok then (False, f)
        else let f = f\<lparr>fb_file := allocated file (fb_offset f + fb_capacity f)\<rparr> in
          if \<not> mmap_ok then (False, f\<lparr>fb_mapped := None\<rparr>)
          else (True, f\<lparr>fb_mapped := Some (fb_offset f), fb_length := 0\<rparr>))"

definition closeFile :: "FileBuffer \<Rightarrow> FileBuffer" where
  "closeFile f = (if \<not> fb_opened f then f
     else f\<lparr>fb_opened := False, fb_mapped := None, fb_capacity := 0, fb_length := 0\<rparr>)"

definition expandFile :: "bool \<Rightarrow> bool \<Rightarrow> bool \<Rightarrow> FileBuffer \<Rightarrow> bool \<times> FileBuffer" where
  "expandFile munmap_ok fallocate_ok mmap_ok f =
     (if \<not> fb_opened f then (False, f)
      else if \<not> munmap_ok then (False, f)
      else let f = f\<lparr>fb_offset := add64 (fb_capacity f) (fb_offset f), fb_mapped := None\<rparr> in
        if \<not> fallocate_ok then (False, f)
        else let f = f\<lparr>fb_file := allocated (fb_file f) (fb_offset f + fb_capacity f)\<rparr> in
          if \<not> mmap_ok then (False, f)
          else (True, f\<lparr>fb_mapped := Some (fb_offset f), fb_length := 0\<rparr>))"

definition getPointer :: "FileBuffer \<Rightarrow> nat \<Rightarrow> nat option" where
  "getPointer f pos = (if pos \<ge> add64 (fb_offset f) (fb_length f) then None else Some (sub64 pos (fb_offset f)))"

definition fb_put :: "FileBuffer \<Rightarrow> bytes \<Rightarrow> FileBuffer option" where
  "fb_put f bs = do {
     base \<leftarrow> fb_mapped f;
     if fb_length f + length bs > fb_capacity f then None
     else map_option (\<lambda>file. f\<lparr>fb_file := file\<rparr>) (mwrite (fb_file f) (base + fb_length f) bs) }"

definition fb_writePointer :: "bool \<Rightarrow> bool \<Rightarrow> bool \<Rightarrow> FileBuffer \<Rightarrow> bytes \<Rightarrow> (bool \<times> FileBuffer) option" where
  "fb_writePointer munmap_ok fallocate_ok mmap_ok f data =
     (let len = length data in
      if add64 (fb_length f) len > fb_capacity f
      then do {
        let tmp = sub64 (fb_capacity f) (fb_length f) mod 4294967296;
        part \<leftarrow> mread data 0 tmp;
        f \<leftarrow> fb_put f part;
        case expandFile munmap_ok fallocate_ok mmap_ok f of
          (False, f) \<Rightarrow> Some (False, f)
        | (True, f) \<Rightarrow> do {
            rest \<leftarrow> mread data 0 (len - tmp);
            f \<leftarrow> fb_put f rest;
            Some (True, f\<lparr>fb_length := len - tmp\<rparr>) } }
      else do {
        f \<leftarrow> fb_put f data;
        Some (True, f\<lparr>fb_length := add64 (fb_length f) len\<rparr>) })"

definition updateTS :: "FileBuffer \<Rightarrow> nat \<Rightarrow> FileBuffer" where
  "updateTS f ts =
     (let f = (if ts < fb_ts_first f \<or> fb_ts_first f = 0 then f\<lparr>fb_ts_first := ts\<rparr> else f)
      in if ts > fb_ts_last f \<or> fb_ts_last f = 0 then f\<lparr>fb_ts_last := ts\<rparr> else f)"

section \<open>The stream of the memory buffer\<close>

text \<open>The blocks hold the end of the stream \<open>s\<close>: the current block from the file offset on, the
  block before it the bytes in front.\<close>

definition mb_ok :: "MemoryBuffer \<Rightarrow> bool" where
  "mb_ok b \<longleftrightarrow> 3 \<le> mb_block_num b \<and> 0 < mb_block_size b \<and> mb_block_size b < 4294967296 \<and> length (mb_blocks b) = mb_block_num b \<and>
     length (mb_block_flags b) = mb_block_num b \<and> length (mb_write_flags b) = mb_block_num b \<and>
     (\<forall>m \<in> set (mb_blocks b). length m = mb_block_size b) \<and> mb_block_id b < mb_block_num b \<and> mb_offset b \<le> mb_block_size b"

definition mb_stream :: "MemoryBuffer \<Rightarrow> bytes \<Rightarrow> bool" where
  "mb_stream b s \<longleftrightarrow> mb_ok b \<and> length s = mb_fileOffset b + mb_offset b \<and> mb_block_size b dvd mb_fileOffset b \<and>
     take (mb_offset b) (mb_blocks b ! mb_block_id b) = drop (mb_fileOffset b) s \<and>
     (mb_fileOffset b \<noteq> 0 \<longrightarrow> mb_blocks b ! mb_last b = take (mb_block_size b) (drop (mb_fileOffset b - mb_block_size b) s))"

text \<open>What the code puts behind the stream for some data: the part that does not fit the block is the head of the data again,
  where it should be their tail. This is only used to follow the code; the properties compare with the data themselves.\<close>

definition appended :: "nat \<Rightarrow> nat \<Rightarrow> bytes \<Rightarrow> bytes" where
  "appended block offset data = (if offset + length data > block
     then take (block - offset) data @ take (length data - (block - offset)) data else data)"

lemma mb_last_less: "mb_ok b \<Longrightarrow> mb_last b < mb_block_num b"
  by (simp add: mb_ok_def mb_last_def)

lemma mb_last_other: "mb_ok b \<Longrightarrow> mb_last b \<noteq> mb_block_id b"
  by (auto simp: mb_ok_def mb_last_def mod_if)

lemma mb_block_length: "mb_ok b \<Longrightarrow> n < mb_block_num b \<Longrightarrow> length (mb_blocks b ! n) = mb_block_size b"
  by (simp add: mb_ok_def)

lemma mb_put_Some:
  assumes "mb_ok b" and "n < mb_block_num b" and "pos + length bs \<le> mb_block_size b"
  defines "m \<equiv> take pos (mb_blocks b ! n) @ bs @ drop (pos + length bs) (mb_blocks b ! n)"
  shows "mb_put b n pos bs = Some (b\<lparr>mb_blocks := (mb_blocks b)[n := m]\<rparr>)" and "mb_ok (b\<lparr>mb_blocks := (mb_blocks b)[n := m]\<rparr>)"
proof -
  note l = mb_block_length [OF assms(1,2)]
  show "mb_put b n pos bs = Some (b\<lparr>mb_blocks := (mb_blocks b)[n := m]\<rparr>)"
    using assms(1-3) l by (simp add: mb_put_def vec_get_def vec_set_def mwrite_def mb_ok_def m_def)
  have "length m = mb_block_size b" using l assms(3) by (simp add: m_def)
  then show "mb_ok (b\<lparr>mb_blocks := (mb_blocks b)[n := m]\<rparr>)"
    using assms(1,2) by (auto simp: mb_ok_def dest!: set_update_subset_insert [THEN subsetD])
qed

lemma mb_ok_offset: "mb_ok b \<Longrightarrow> n \<le> mb_block_size b \<Longrightarrow> mb_ok (b\<lparr>mb_offset := n\<rparr>)"
  by (simp add: mb_ok_def)

lemma mb_append_stream:
  assumes s: "mb_stream b s" and fits: "mb_offset b + length data \<le> mb_block_size b"
    and small: "mb_fileOffset b + mb_block_size b < U64"
  shows "\<exists>b'. mb_put b (mb_block_id b) (mb_offset b) data = Some b' \<and> mb_stream (b'\<lparr>mb_offset := mb_offset b + length data\<rparr>) (s @ data) \<and>
    mb_block_flags b' = mb_block_flags b \<and> mb_block_size b' = mb_block_size b \<and> mb_fileOffset b' = mb_fileOffset b \<and>
    mb_block_id b' = mb_block_id b \<and> mb_offset b' = mb_offset b \<and> mb_block_num b' = mb_block_num b"
proof -
  have ok: "mb_ok b" and id: "mb_block_id b < mb_block_num b" using s by (simp_all add: mb_stream_def mb_ok_def)
  let ?m = "take (mb_offset b) (mb_blocks b ! mb_block_id b) @ data @ drop (mb_offset b + length data) (mb_blocks b ! mb_block_id b)"
  let ?b = "b\<lparr>mb_blocks := (mb_blocks b)[mb_block_id b := ?m]\<rparr>"
  note p = mb_put_Some [OF ok id fits]
  have len: "length (mb_blocks b) = mb_block_num b" "mb_offset b \<le> length (mb_blocks b ! mb_block_id b)"
    using ok mb_block_length [OF ok id] by (simp_all add: mb_ok_def)
  have f: "mb_fileOffset b \<le> length s" using s by (simp add: mb_stream_def)
  let ?c = "?b\<lparr>mb_offset := mb_offset b + length data\<rparr>"
  have st: "length s = mb_fileOffset b + mb_offset b" "mb_block_size b dvd mb_fileOffset b"
    "take (mb_offset b) (mb_blocks b ! mb_block_id b) = drop (mb_fileOffset b) s"
    "mb_fileOffset b \<noteq> 0 \<longrightarrow> mb_blocks b ! mb_last b = take (mb_block_size b) (drop (mb_fileOffset b - mb_block_size b) s)"
    using s by (simp_all add: mb_stream_def)
  have cok: "mb_ok ?c" by (rule mb_ok_offset [OF p(2)]) (use fits in simp)
  have cur: "mb_blocks ?c ! mb_block_id ?c = ?m" using id len(1) by simp
  have last: "mb_last ?c = mb_last b" by (simp add: mb_last_def)
  have cl: "mb_blocks ?c ! mb_last ?c = mb_blocks b ! mb_last b" unfolding last using mb_last_other [OF ok] by simp
  have "take (mb_offset b + length data) ?m = take (mb_offset b) (mb_blocks b ! mb_block_id b) @ data"
    using len(2) by (simp add: min_absorb2)
  then have 1: "take (mb_offset ?c) (mb_blocks ?c ! mb_block_id ?c) = drop (mb_fileOffset ?c) (s @ data)"
    unfolding cur using st(3) f by simp
  have 2: "mb_blocks ?c ! mb_last ?c = take (mb_block_size ?c) (drop (mb_fileOffset ?c - mb_block_size ?c) (s @ data))"
    if "mb_fileOffset ?c \<noteq> 0"
  proof -
    have "mb_block_size b \<le> mb_fileOffset b" using st(2) that by (auto dest: dvd_imp_le)
    then show ?thesis unfolding cl using st(4) that f by simp
  qed
  have 3: "length (s @ data) = mb_fileOffset ?c + mb_offset ?c" "mb_block_size ?c dvd mb_fileOffset ?c" using st(1,2) by simp_all
  have "mb_stream ?c (s @ data)" unfolding mb_stream_def using cok 1 2 3 by blast
  then show ?thesis using p(1) by simp
qed

lemma next_last: "i < n \<Longrightarrow> ((i + 1) mod n + n - 1) mod n = (i :: nat)"
  by (cases "i + 1 = n") auto

lemma changeBlock_offset: "changeBlock (b\<lparr>mb_offset := n\<rparr>) = changeBlock b"
  by (cases b) (simp add: changeBlock_def changeFileOffset_def mb_last_def cong: if_cong)

lemma changeBlock_stream:
  assumes s: "mb_stream b s" and full: "mb_offset b = mb_block_size b" and clean: "\<not> mb_block_flags b ! mb_block_id b"
    and small: "mb_fileOffset b + mb_block_size b < U64"
  shows "\<exists>b'. changeBlock b = Some b' \<and> mb_stream b' s \<and> mb_offset b' = 0 \<and> mb_block_size b' = mb_block_size b \<and>
    mb_block_num b' = mb_block_num b \<and> mb_fileOffset b' = mb_fileOffset b + mb_block_size b"
proof -
  have ok: "mb_ok b" using s by (simp add: mb_stream_def)
  have id: "mb_block_id b < mb_block_num b" "mb_last b < mb_block_num b" "length (mb_block_flags b) = mb_block_num b"
    "length (mb_write_flags b) = mb_block_num b" "3 \<le> mb_block_num b"
    using ok mb_last_less [OF ok] by (simp_all add: mb_ok_def)
  let ?b = "b\<lparr>mb_write_flags := (mb_write_flags b)[mb_last b := mb_block_flags b ! mb_last b],
    mb_block_flags := (mb_block_flags b)[mb_block_id b := True], mb_block_id := (mb_block_id b + 1) mod mb_block_num b, mb_offset := 0,
    mb_fileOffset := mb_fileOffset b + mb_block_size b\<rparr>"
  have run: "changeBlock b = Some ?b"
    using id clean small by (simp add: changeBlock_def changeFileOffset_def vec_get_def vec_set_def add64_small)
  have last: "mb_last ?b = mb_block_id b"
    using id next_last [OF id(1)] by (simp add: mb_last_def)
  have l: "length (mb_blocks b ! mb_block_id b) = mb_block_size b" by (rule mb_block_length [OF ok id(1)])
  have "mb_ok ?b" using ok by (auto simp: mb_ok_def)
  moreover have d: "drop (mb_fileOffset b) s = mb_blocks b ! mb_block_id b" using s full l by (simp add: mb_stream_def)
  moreover have len: "length s = mb_fileOffset b + mb_block_size b" "mb_block_size b dvd mb_fileOffset b"
    using s full by (simp_all add: mb_stream_def)
  moreover have "take (mb_block_size b) (drop (mb_fileOffset b + mb_block_size b - mb_block_size b) s) = mb_blocks b ! mb_block_id b"
    using d l by simp
  ultimately have "mb_stream ?b s"
    unfolding mb_stream_def last by simp
  then show ?thesis using run by simp
qed

lemma mb_write_stream:
  assumes s: "mb_stream b s" and len: "length data \<le> mb_block_size b"
    and clean: "mb_offset b + length data > mb_block_size b \<longrightarrow> \<not> mb_block_flags b ! mb_block_id b"
    and small: "mb_fileOffset b + 2 * mb_block_size b < U64"
  shows "\<exists>b'. mb_writePointer b data = Some b' \<and> mb_stream b' (s @ appended (mb_block_size b) (mb_offset b) data) \<and>
    mb_block_size b' = mb_block_size b \<and> mb_fileOffset b' \<le> mb_fileOffset b + mb_block_size b"
proof -
  have ok: "mb_ok b" using s by (simp add: mb_stream_def)
  then have o: "mb_offset b \<le> mb_block_size b" "mb_block_size b < 4294967296" by (simp_all add: mb_ok_def)
  have a: "add64 (mb_offset b) (length data) = mb_offset b + length data" using o len by (simp add: add64_small)
  show ?thesis
  proof (cases "mb_offset b + length data > mb_block_size b")
    case False
    then have fits: "mb_offset b + length data \<le> mb_block_size b" and sm: "mb_fileOffset b + mb_block_size b < U64" using small by simp_all
    from mb_append_stream [OF s fits sm] obtain b' where b': "mb_put b (mb_block_id b) (mb_offset b) data = Some b'"
      "mb_stream (b'\<lparr>mb_offset := mb_offset b + length data\<rparr>) (s @ data)" "mb_block_size b' = mb_block_size b"
      "mb_fileOffset b' = mb_fileOffset b" "mb_offset b' = mb_offset b" by blast
    then show ?thesis using False a by (simp add: mb_writePointer_def Let_def appended_def)
  next
    case True
    let ?tmp = "mb_block_size b - mb_offset b"
    have tmp: "sub64 (mb_block_size b) (mb_offset b) mod 4294967296 = ?tmp" using o by (simp add: sub64_ge)
    have parts: "mread data 0 ?tmp = Some (take ?tmp data)" "mread data 0 (length data - ?tmp) = Some (take (length data - ?tmp) data)"
      using True by (simp_all add: mread_def)
    have l1: "length (take ?tmp data) = ?tmp" "length (take (length data - ?tmp) data) = length data - ?tmp" using True by simp_all
    have fits: "mb_offset b + length (take ?tmp data) \<le> mb_block_size b" and sm: "mb_fileOffset b + mb_block_size b < U64" using o l1 small by simp_all
    from mb_append_stream [OF s fits sm] obtain b1 where b1: "mb_put b (mb_block_id b) (mb_offset b) (take ?tmp data) = Some b1"
      "mb_stream (b1\<lparr>mb_offset := mb_offset b + length (take ?tmp data)\<rparr>) (s @ take ?tmp data)" "mb_block_flags b1 = mb_block_flags b"
      "mb_block_size b1 = mb_block_size b" "mb_fileOffset b1 = mb_fileOffset b" "mb_block_id b1 = mb_block_id b" by blast
    let ?c = "b1\<lparr>mb_offset := mb_offset b + length (take ?tmp data)\<rparr>"
    have c: "mb_offset ?c = mb_block_size ?c" "\<not> mb_block_flags ?c ! mb_block_id ?c" "mb_fileOffset ?c + mb_block_size ?c < U64"
      using o l1 b1 True clean sm by simp_all
    from changeBlock_stream [OF b1(2) c] obtain b2 where b2: "changeBlock ?c = Some b2" "mb_stream b2 (s @ take ?tmp data)" "mb_offset b2 = 0"
      "mb_block_size b2 = mb_block_size b" "mb_fileOffset b2 = mb_fileOffset b + mb_block_size b" using b1 by auto
    have cb: "changeBlock b1 = Some b2" using b2(1) unfolding changeBlock_offset .
    have fits2: "mb_offset b2 + length (take (length data - ?tmp) data) \<le> mb_block_size b2" and sm2: "mb_fileOffset b2 + mb_block_size b2 < U64"
      using b2 len l1 small by simp_all
    from mb_append_stream [OF b2(2) fits2 sm2] obtain b3 where b3: "mb_put b2 (mb_block_id b2) (mb_offset b2) (take (length data - ?tmp) data) = Some b3"
      "mb_stream (b3\<lparr>mb_offset := mb_offset b2 + length (take (length data - ?tmp) data)\<rparr>) ((s @ take ?tmp data) @ take (length data - ?tmp) data)"
      "mb_block_size b3 = mb_block_size b2" "mb_fileOffset b3 = mb_fileOffset b2" by blast
    have "mb_writePointer b data = Some (b3\<lparr>mb_offset := length data - ?tmp\<rparr>)"
      using True by (simp add: mb_writePointer_def Let_def a tmp parts b1(1) cb b3(1))
    then show ?thesis using b3 b2 l1 True by (simp add: appended_def)
  qed
qed

text \<open>Bytes in the middle of a list replaced by others.\<close>

definition patched :: "bytes \<Rightarrow> nat \<Rightarrow> bytes \<Rightarrow> bytes" where
  "patched s pos d = take pos s @ d @ drop (pos + length d) s"

lemma length_patched: "pos + length d \<le> length s \<Longrightarrow> length (patched s pos d) = length s"
  by (simp add: patched_def)

lemma drop_patched: "n \<le> pos \<Longrightarrow> pos \<le> length s \<Longrightarrow> drop n (patched s pos d) = patched (drop n s) (pos - n) d"
  by (simp add: patched_def drop_take)

lemma drop_behind: "pos + length d \<le> n \<Longrightarrow> pos + length d \<le> length s \<Longrightarrow> drop n (patched s pos d) = drop n s"
  by (simp add: patched_def)

lemma take_patched: "pos + length d \<le> n \<Longrightarrow> pos \<le> length s \<Longrightarrow> take n (patched s pos d) = patched (take n s) pos d"
  by (simp add: patched_def min_absorb1 drop_take)

lemma take_before: "n \<le> pos \<Longrightarrow> pos \<le> length s \<Longrightarrow> take n (patched s pos d) = take n s"
  by (simp add: patched_def min_absorb1)

lemma window_before: "a + n \<le> pos \<Longrightarrow> pos \<le> length s \<Longrightarrow> take n (drop a (patched s pos d)) = take n (drop a s)"
  using take_before [of "a + n" pos s d] by (simp add: take_drop add.commute)

lemma patched_nothing: "pos \<le> length s \<Longrightarrow> patched s pos [] = s"
  by (simp add: patched_def)

lemma patched_twice: "pos + length d1 + length d2 \<le> length s \<Longrightarrow>
    patched (patched s (pos + length d1) d2) pos d1 = patched s pos (d1 @ d2)"
  by (simp add: patched_def min_absorb1 drop_take ac_simps)

definition same_shape :: "MemoryBuffer \<Rightarrow> MemoryBuffer \<Rightarrow> bool" where
  "same_shape b b' \<longleftrightarrow> mb_block_num b' = mb_block_num b \<and> mb_block_size b' = mb_block_size b \<and> mb_fileOffset b' = mb_fileOffset b \<and>
     mb_offset b' = mb_offset b \<and> mb_block_id b' = mb_block_id b"

lemma patch_current:
  assumes s: "mb_stream b s" and pos: "mb_fileOffset b \<le> pos" "pos + length d \<le> length s"
  shows "\<exists>b'. mb_put b (mb_block_id b) (pos - mb_fileOffset b) d = Some b' \<and> mb_stream b' (patched s pos d) \<and> same_shape b b'"
proof -
  have ok: "mb_ok b" and id: "mb_block_id b < length (mb_blocks b)" "mb_block_id b < mb_block_num b" "mb_offset b \<le> mb_block_size b"
    using s by (simp_all add: mb_stream_def mb_ok_def)
  have st: "length s = mb_fileOffset b + mb_offset b" "mb_block_size b dvd mb_fileOffset b"
    "take (mb_offset b) (mb_blocks b ! mb_block_id b) = drop (mb_fileOffset b) s"
    "mb_fileOffset b \<noteq> 0 \<longrightarrow> mb_blocks b ! mb_last b = take (mb_block_size b) (drop (mb_fileOffset b - mb_block_size b) s)"
    using s by (simp_all add: mb_stream_def)
  have fits: "pos - mb_fileOffset b + length d \<le> mb_block_size b" using pos st(1) id(3) by simp
  let ?m = "patched (mb_blocks b ! mb_block_id b) (pos - mb_fileOffset b) d"
  let ?b = "b\<lparr>mb_blocks := (mb_blocks b)[mb_block_id b := ?m]\<rparr>"
  note p = mb_put_Some [OF ok id(2) fits, folded patched_def]
  note bl = mb_block_length [OF ok id(2)]
  have cur: "mb_blocks ?b ! mb_block_id ?b = ?m" using id by simp
  have last: "mb_blocks ?b ! mb_last ?b = mb_blocks b ! mb_last b" using mb_last_other [OF ok] by (simp add: mb_last_def)
  have 1: "take (mb_offset ?b) (mb_blocks ?b ! mb_block_id ?b) = drop (mb_fileOffset ?b) (patched s pos d)"
    unfolding cur using pos st(1,3) bl id(3) by (simp add: take_patched drop_patched)
  have 2: "mb_blocks ?b ! mb_last ?b = take (mb_block_size ?b) (drop (mb_fileOffset ?b - mb_block_size ?b) (patched s pos d))"
    if "mb_fileOffset ?b \<noteq> 0"
  proof -
    have "mb_block_size b \<le> mb_fileOffset b" using st(2) that by (auto dest: dvd_imp_le)
    then have "take (mb_block_size b) (drop (mb_fileOffset b - mb_block_size b) (patched s pos d)) =
        take (mb_block_size b) (drop (mb_fileOffset b - mb_block_size b) s)" by (intro window_before) (use pos in simp_all)
    then show ?thesis unfolding last using st(4) that by simp
  qed
  have "mb_stream ?b (patched s pos d)"
    unfolding mb_stream_def using p(2) 1 2 st(1,2) pos length_patched by simp
  then show ?thesis using p(1) by (intro exI [of _ ?b]) (simp add: same_shape_def)
qed

lemma patch_last:
  assumes s: "mb_stream b s" and pos: "mb_fileOffset b \<le> pos + mb_block_size b" "pos + length d \<le> mb_fileOffset b"
    and nz: "mb_fileOffset b \<noteq> 0"
  shows "\<exists>b'. mb_put b (mb_last b) (mb_block_size b - (mb_fileOffset b - pos)) d = Some b' \<and> mb_stream b' (patched s pos d) \<and> same_shape b b'"
proof -
  have ok: "mb_ok b" and id: "mb_last b < length (mb_blocks b)" "mb_last b < mb_block_num b"
    using s mb_last_less [of b] by (simp_all add: mb_stream_def mb_ok_def)
  have st: "length s = mb_fileOffset b + mb_offset b" "mb_block_size b dvd mb_fileOffset b"
    "take (mb_offset b) (mb_blocks b ! mb_block_id b) = drop (mb_fileOffset b) s"
    "mb_blocks b ! mb_last b = take (mb_block_size b) (drop (mb_fileOffset b - mb_block_size b) s)"
    using s nz by (simp_all add: mb_stream_def)
  have le: "mb_block_size b \<le> mb_fileOffset b" using st(2) nz by (auto dest: dvd_imp_le)
  let ?at = "mb_block_size b - (mb_fileOffset b - pos)"
  have fits: "?at + length d \<le> mb_block_size b" and at: "?at = pos - (mb_fileOffset b - mb_block_size b)" using pos le by simp_all
  let ?m = "patched (mb_blocks b ! mb_last b) ?at d"
  let ?b = "b\<lparr>mb_blocks := (mb_blocks b)[mb_last b := ?m]\<rparr>"
  note p = mb_put_Some [OF ok id(2) fits, folded patched_def]
  have last: "mb_blocks ?b ! mb_last ?b = ?m" using id by (simp add: mb_last_def)
  have cur: "mb_blocks ?b ! mb_block_id ?b = mb_blocks b ! mb_block_id b" using mb_last_other [OF ok] by simp
  have 1: "take (mb_offset ?b) (mb_blocks ?b ! mb_block_id ?b) = drop (mb_fileOffset ?b) (patched s pos d)"
    unfolding cur using pos st(1,3) by (simp add: drop_behind)
  have "take (mb_block_size b) (drop (mb_fileOffset b - mb_block_size b) (patched s pos d)) =
      take (mb_block_size b) (patched (drop (mb_fileOffset b - mb_block_size b) s) ?at d)"
    using pos le st(1) by (simp add: drop_patched at)
  also have "\<dots> = ?m" unfolding st(4) by (rule take_patched [OF fits]) (use st(1) pos le in simp)
  finally have 2: "mb_blocks ?b ! mb_last ?b = take (mb_block_size ?b) (drop (mb_fileOffset ?b - mb_block_size ?b) (patched s pos d))"
    unfolding last by simp
  have "mb_stream ?b (patched s pos d)"
    unfolding mb_stream_def using p(2) 1 2 st(1,2) pos length_patched by simp
  then show ?thesis using p(1) by (intro exI [of _ ?b]) (simp add: same_shape_def)
qed

lemma mb_put_nothing:
  assumes "mb_ok b" and "n < mb_block_num b" and "pos \<le> mb_block_size b"
  shows "mb_put b n pos [] = Some b"
proof -
  have "pos + length ([] :: bytes) \<le> mb_block_size b" using assms(3) by simp
  note p = mb_put_Some(1) [OF assms(1,2) this, folded patched_def]
  have "patched (mb_blocks b ! n) pos [] = mb_blocks b ! n"
    by (rule patched_nothing) (use mb_block_length [OF assms(1,2)] assms(3) in simp)
  then show ?thesis using p by simp
qed

lemma mb_before_stream:
  assumes s: "mb_stream b s" and pos: "pos + length data \<le> length s" "mb_fileOffset b \<le> pos + mb_block_size b"
    and small: "mb_fileOffset b + mb_block_size b < U64"
  shows "\<exists>b'. mb_writeBefore b data pos = Some b' \<and> mb_stream b' (patched s pos data) \<and> same_shape b b'"
proof -
  have ok: "mb_ok b" and len: "length s = mb_fileOffset b + mb_offset b" using s by (simp_all add: mb_stream_def)
  have o: "mb_offset b \<le> mb_block_size b" "mb_block_size b < 4294967296" using ok by (simp_all add: mb_ok_def)
  have a: "add64 pos (length data) = pos + length data" "add64 (mb_fileOffset b) (mb_offset b) = mb_fileOffset b + mb_offset b"
    using pos(1) len o small by (simp_all add: add64_small)
  have inside: "\<not> add64 pos (length data) > add64 (mb_fileOffset b) (mb_offset b)" using a pos(1) len by simp
  show ?thesis
  proof (cases "mb_fileOffset b < pos")
    case True
    then have "mb_writeBefore b data pos = mb_put b (mb_block_id b) (pos - mb_fileOffset b) data"
      using inside by (simp add: mb_writeBefore_def)
    then show ?thesis using patch_current [OF s, of pos data] True pos(1) by simp
  next
    case False
    let ?n = "mb_fileOffset b - pos"
    have n: "?n mod 4294967296 = ?n" "\<not> ?n > mb_block_size b" using pos(2) o by simp_all
    define d1 d2 where "d1 = take ?n data" and "d2 = drop ?n data"
    have d: "data = d1 @ d2" by (simp add: d1_def d2_def)
    have step: "mb_writeBefore b data pos = do {
        (b, data) \<leftarrow> (if mb_fileOffset b < pos + length data
          then do { b \<leftarrow> mb_put b (mb_block_id b) 0 d2; Some (b, d1) } else Some (b, data));
        if mb_fileOffset b - pos > mb_block_size b then None
        else mb_put b (mb_last b) (mb_block_size b - (mb_fileOffset b - pos)) data }"
      using False inside a(1) n(1) by (simp add: mb_writeBefore_def d1_def d2_def Let_def)
    have first: "\<exists>b1 r. (if mb_fileOffset b < pos + length data then do { b \<leftarrow> mb_put b (mb_block_id b) 0 d2; Some (b, d1) } else Some (b, data)) = Some (b1, r) \<and>
        same_shape b b1 \<and> length r \<le> ?n \<and> pos + length r \<le> length s \<and> (\<exists>q. mb_stream b1 q \<and> length q = length s \<and> patched q pos r = patched s pos data)"
    proof (cases "mb_fileOffset b < pos + length data")
      case True
      have l1: "length d1 = ?n" using True False by (simp add: d1_def)
      then have at: "mb_fileOffset b = pos + length d1" using False by simp
      have l2: "mb_fileOffset b + length d2 \<le> length s" unfolding at using pos(1) unfolding d by simp
      from patch_current [OF s le_refl l2] obtain b1 where b1: "mb_put b (mb_block_id b) 0 d2 = Some b1"
        "mb_stream b1 (patched s (mb_fileOffset b) d2)" "same_shape b b1" by auto
      have e: "patched (patched s (mb_fileOffset b) d2) pos d1 = patched s pos data"
        unfolding at d by (rule patched_twice) (use l2 at in simp)
      show ?thesis
      proof (intro exI conjI)
        show "(if mb_fileOffset b < pos + length data then do { b \<leftarrow> mb_put b (mb_block_id b) 0 d2; Some (b, d1) } else Some (b, data)) = Some (b1, d1)"
          using True b1(1) by simp
        show "length d1 \<le> ?n" using l1 by simp
        show "pos + length d1 \<le> length s" using l2 at by linarith
      qed (rule b1(3) b1(2) e length_patched [OF l2])+
    next
      case no: False
      show ?thesis
      proof (intro exI conjI)
        show "(if mb_fileOffset b < pos + length data then do { b \<leftarrow> mb_put b (mb_block_id b) 0 d2; Some (b, d1) } else Some (b, data)) = Some (b, data)"
          using no by simp
        show "length data \<le> ?n" using no by simp
      qed (rule s pos(1) refl | simp add: same_shape_def)+
    qed
    then obtain b1 r q where f: "(if mb_fileOffset b < pos + length data then do { b \<leftarrow> mb_put b (mb_block_id b) 0 d2; Some (b, d1) } else Some (b, data)) = Some (b1, r)"
      "same_shape b b1" "length r \<le> ?n" "pos + length r \<le> length s" "mb_stream b1 q" "length q = length s" "patched q pos r = patched s pos data" by blast
    have b1: "mb_fileOffset b1 = mb_fileOffset b" "mb_block_size b1 = mb_block_size b" using f(2) by (simp_all add: same_shape_def)
    have run: "mb_writeBefore b data pos = mb_put b1 (mb_last b1) (mb_block_size b1 - (mb_fileOffset b1 - pos)) r"
      unfolding step f(1) using n(2) b1 by simp
    have "\<exists>b'. mb_put b1 (mb_last b1) (mb_block_size b1 - (mb_fileOffset b1 - pos)) r = Some b' \<and> mb_stream b' (patched q pos r) \<and> same_shape b1 b'"
    proof (cases "mb_fileOffset b = 0")
      case True
      then have "r = []" using f(3) by simp
      moreover have "mb_ok b1" using f(5) by (simp add: mb_stream_def)
      ultimately show ?thesis using mb_put_nothing [of b1 "mb_last b1"] mb_last_less f(4-6)
        by (simp add: patched_nothing same_shape_def)
    next
      case nz: False
      show ?thesis by (rule patch_last [OF f(5)]) (use b1 pos(2) f(3) nz False in auto)
    qed
    then show ?thesis using run f(2,7) unfolding same_shape_def by auto
  qed
qed

lemma check_stream:
  assumes "mb_stream b s" and "n < mb_block_num b"
  shows "\<exists>r w b'. checkAndWriteFile b n = Some (r, w, b') \<and> mb_stream b' s \<and> same_shape b b'"
proof -
  have l: "length (mb_write_flags b) = mb_block_num b" "length (mb_block_flags b) = mb_block_num b" "length (mb_blocks b) = mb_block_num b"
    using assms(1) by (simp_all add: mb_stream_def mb_ok_def)
  then show ?thesis using assms
    by (auto simp: checkAndWriteFile_def vec_get_def vec_set_def same_shape_def mb_stream_def mb_ok_def mb_last_def)
qed

section \<open>Writers and storage thread\<close>

datatype mb_op = Mb_write bytes | Mb_before bytes nat | Mb_check nat

fun mb_step :: "mb_op \<Rightarrow> MemoryBuffer \<Rightarrow> MemoryBuffer option" where
  "mb_step (Mb_write d) b = mb_writePointer b d"
| "mb_step (Mb_before d pos) b = mb_writeBefore b d pos"
| "mb_step (Mb_check n) b = map_option (\<lambda>(_, _, b). b) (checkAndWriteFile b n)"

fun mb_run :: "mb_op list \<Rightarrow> MemoryBuffer \<Rightarrow> MemoryBuffer option" where
  "mb_run [] b = Some b"
| "mb_run (x # xs) b = do { b' \<leftarrow> mb_step x b; mb_run xs b' }"

text \<open>When an operation is in order, \<open>n\<close> being the number of bytes so far: a write is not longer than a block and does not meet a block
  that is still to be written, an earlier position is in the last two blocks.\<close>

fun op_fits :: "mb_op \<Rightarrow> MemoryBuffer \<Rightarrow> nat \<Rightarrow> bool" where
  "op_fits (Mb_write d) b n = (length d \<le> mb_block_size b \<and> n + 3 * mb_block_size b < U64 \<and>
     (mb_offset b + length d > mb_block_size b \<longrightarrow> \<not> mb_block_flags b ! mb_block_id b))"
| "op_fits (Mb_before d pos) b n = (pos + length d \<le> n \<and> mb_fileOffset b \<le> pos + mb_block_size b \<and> n + 3 * mb_block_size b < U64)"
| "op_fits (Mb_check i) b n = (i < mb_block_num b)"

fun op_length :: "mb_op \<Rightarrow> nat" where
  "op_length (Mb_write d) = length d"
| "op_length (Mb_before d pos) = 0"
| "op_length (Mb_check i) = 0"

fun ops_fit :: "mb_op list \<Rightarrow> MemoryBuffer \<Rightarrow> nat \<Rightarrow> bool" where
  "ops_fit [] b n = True"
| "ops_fit (x # xs) b n = (op_fits x b n \<and> (case mb_step x b of None \<Rightarrow> True | Some b' \<Rightarrow> ops_fit xs b' (n + op_length x)))"

text \<open>The stream that should be there: the data of the writes one behind the other, those of the writes at earlier positions in
  their places. It does not depend on the buffer.\<close>

fun data_written :: "mb_op list \<Rightarrow> bytes \<Rightarrow> bytes" where
  "data_written [] t = t"
| "data_written (Mb_write d # xs) t = data_written xs (t @ d)"
| "data_written (Mb_before d pos # xs) t = data_written xs (patched t pos d)"
| "data_written (Mb_check i # xs) t = data_written xs t"

text \<open>The positions that a write spoils: when data begin inside a block of the stream, their bytes behind the end of this block. A
  later write at an earlier position mends the bytes it covers.\<close>

definition behind_block :: "nat \<Rightarrow> nat \<Rightarrow> nat \<Rightarrow> nat list" where
  "behind_block block n len = (if n mod block = 0 then [] else filter (\<lambda>p. p div block \<noteq> n div block) [n..<n + len])"

fun spoiled :: "nat \<Rightarrow> mb_op list \<Rightarrow> nat \<Rightarrow> nat list \<Rightarrow> nat list" where
  "spoiled block [] n ps = ps"
| "spoiled block (Mb_write d # xs) n ps = spoiled block xs (n + length d) (ps @ behind_block block n (length d))"
| "spoiled block (Mb_before d pos # xs) n ps = spoiled block xs n (filter (\<lambda>p. p < pos \<or> pos + length d \<le> p) ps)"
| "spoiled block (Mb_check i # xs) n ps = spoiled block xs n ps"

definition agree :: "bytes \<Rightarrow> bytes \<Rightarrow> nat list \<Rightarrow> bool" where
  "agree s t ps \<longleftrightarrow> length s = length t \<and> (\<forall>p < length t. p \<notin> set ps \<longrightarrow> s ! p = t ! p)"

lemma appended_length: "off \<le> block \<Longrightarrow> length d \<le> block \<Longrightarrow> length (appended block off d) = length d"
  by (auto simp: appended_def)

lemma appended_agrees:
  assumes "agree s t ps" and "length t = f + off" and "block dvd f" and "off \<le> block" and "length d \<le> block"
  shows "agree (s @ appended block off d) (t @ d) (ps @ behind_block block (length t) (length d))"
proof -
  let ?n = "length t" and ?tmp = "block - off"
  have l: "length s = ?n" using assms(1) by (simp add: agree_def)
  have "appended block off d ! k = d ! k" if k: "k < length d" "?n + k \<notin> set (behind_block block ?n (length d))" for k
  proof (cases "off + length d > block \<and> ?tmp \<le> k \<and> off < block")
    case True
    then have off: "0 < off" "off < block" using True assms(5) by (cases "off = 0", simp_all)
    obtain q where q: "f = block * q" using assms(3) ..
    have "?n mod block = off" "?n div block = q" using off by (simp_all add: assms(2) q)
    moreover have "(?n + k) div block \<noteq> q"
    proof -
      have "block \<le> off + k" using True by linarith
      then have "block * (q + 1) \<le> ?n + k" by (simp add: assms(2) q algebra_simps)
      then have "q + 1 \<le> (?n + k) div block" using off by (simp add: less_eq_div_iff_mult_less_eq mult.commute)
      then show ?thesis by simp
    qed
    ultimately have False using k off by (simp add: behind_block_def)
    then show ?thesis ..
  next
    case False
    then show ?thesis using k(1) assms(4) by (auto simp: appended_def nth_append)
  qed
  then show ?thesis
    using assms(1) l appended_length [OF assms(4,5)]
    by (auto simp: agree_def nth_append)
qed

lemma patched_agrees:
  assumes "agree s t ps" and "pos + length d \<le> length t"
  shows "agree (patched s pos d) (patched t pos d) (filter (\<lambda>p. p < pos \<or> pos + length d \<le> p) ps)"
proof -
  have l: "length s = length t" using assms(1) by (simp add: agree_def)
  have nth: "patched u pos d ! p = (if p < pos then u ! p else if p < pos + length d then d ! (p - pos) else u ! p)"
    if "p < length t" "length u = length t" for u p
    using that assms(2) by (auto simp: patched_def nth_append)
  show ?thesis using assms l by (auto simp: agree_def length_patched nth)
qed

lemma mb_step_agrees:
  assumes "mb_stream b s" and "op_fits x b (length t)" and "agree s t ps"
  shows "\<exists>b' s'. mb_step x b = Some b' \<and> mb_stream b' s' \<and> mb_block_size b' = mb_block_size b \<and>
    length (data_written [x] t) = length t + op_length x \<and>
    agree s' (data_written [x] t) (spoiled (mb_block_size b) [x] (length t) ps)"
proof -
  have l: "length s = length t" using assms(3) by (simp add: agree_def)
  have st: "length t = mb_fileOffset b + mb_offset b" "mb_block_size b dvd mb_fileOffset b" "mb_offset b \<le> mb_block_size b"
    using assms(1) l by (simp_all add: mb_stream_def mb_ok_def)
  show ?thesis
  proof (cases x)
    case (Mb_write d)
    then have d: "length d \<le> mb_block_size b" using assms(2) by simp
    from mb_write_stream [OF assms(1) d] assms(2) Mb_write st(1) obtain b' where
      "mb_writePointer b d = Some b'" "mb_stream b' (s @ appended (mb_block_size b) (mb_offset b) d)" "mb_block_size b' = mb_block_size b" by auto
    then show ?thesis using appended_agrees [OF assms(3) st d] by (auto simp: Mb_write)
  next
    case (Mb_before d pos)
    from mb_before_stream [OF assms(1), of pos d] assms(2) Mb_before st(1) l obtain b' where
      "mb_writeBefore b d pos = Some b'" "mb_stream b' (patched s pos d)" "mb_block_size b' = mb_block_size b"
      by (auto simp: same_shape_def)
    then show ?thesis using patched_agrees [OF assms(3), of pos d] assms(2) by (auto simp: Mb_before length_patched)
  next
    case (Mb_check n)
    then show ?thesis using check_stream [OF assms(1), of n] assms(2,3) by (auto simp: same_shape_def)
  qed
qed

lemma data_written_Cons: "data_written (x # xs) t = data_written xs (data_written [x] t)"
  by (cases x) simp_all

lemma spoiled_Cons: "spoiled block (x # xs) n ps = spoiled block xs (n + op_length x) (spoiled block [x] n ps)"
  by (cases x) simp_all

lemma mb_run_agrees:
  "mb_stream b s \<Longrightarrow> ops_fit xs b (length t) \<Longrightarrow> agree s t ps \<Longrightarrow>
   \<exists>b' s'. mb_run xs b = Some b' \<and> mb_stream b' s' \<and> mb_block_size b' = mb_block_size b \<and>
     agree s' (data_written xs t) (spoiled (mb_block_size b) xs (length t) ps)"
proof (induction xs arbitrary: b s t ps)
  case (Cons x xs)
  have fits: "op_fits x b (length t)" using Cons.prems(2) by simp
  from mb_step_agrees [OF Cons.prems(1) fits Cons.prems(3)] obtain b1 s1 where b1: "mb_step x b = Some b1" "mb_stream b1 s1"
    "mb_block_size b1 = mb_block_size b" "length (data_written [x] t) = length t + op_length x"
    "agree s1 (data_written [x] t) (spoiled (mb_block_size b) [x] (length t) ps)" by blast
  have "ops_fit xs b1 (length (data_written [x] t))" using Cons.prems(2) b1(1,4) by simp
  from Cons.IH [OF b1(2) this b1(5)] show ?case
    unfolding data_written_Cons [of x xs] spoiled_Cons [of _ x xs] b1(3,4) by (simp add: b1(1))
qed auto

lemma mb_new_stream:
  assumes "MemoryBuffer_new open_ok (Some blocks) cap num 0 = Inr b" and "0 < cap" and "cap < 4294967296"
    and "length blocks = num" and "\<forall>m \<in> set blocks. length m = cap"
  shows "mb_stream b []"
  using assms by (auto simp: MemoryBuffer_new_def mb_stream_def mb_ok_def split: if_splits)

text \<open>C40: the memory buffer holds the end of the bytes written, but for the tails of crossing writes. From a new buffer, any
  sequence of writes, writes at earlier positions in the last two blocks and block writes of the storage thread runs through if no
  write meets a block still to be stored. Let the stream be the data written, one behind the other, with the later changes in their
  places. Then the position of the buffer is the length of the stream, the current block holds it from the file offset on, and the
  block before it the bytes in front of that, each byte in its place, except at the spoiled positions: those behind the end of a
  block that data reach which began inside the block, and which no later write covers.\<close>

theorem memory_buffer_stream:
  assumes "MemoryBuffer_new open_ok (Some blocks) cap num 0 = Inr b" and "0 < cap" and "cap < 4294967296"
    and "length blocks = num" and "\<forall>m \<in> set blocks. length m = cap" and "ops_fit xs b 0" and "t = data_written xs []"
  shows "\<exists>b'. mb_run xs b = Some b' \<and> length t = mb_fileOffset b' + mb_offset b' \<and> mb_offset b' \<le> cap \<and> cap dvd mb_fileOffset b' \<and>
    (\<forall>p < length t. p \<notin> set (spoiled cap xs 0 []) \<longrightarrow>
       (mb_fileOffset b' \<le> p \<longrightarrow> mb_blocks b' ! mb_block_id b' ! (p - mb_fileOffset b') = t ! p) \<and>
       (p < mb_fileOffset b' \<and> mb_fileOffset b' \<le> p + cap \<longrightarrow>
          mb_blocks b' ! mb_last b' ! (p + cap - mb_fileOffset b') = t ! p))"
proof -
  have cap: "mb_block_size b = cap" using assms(1) by (auto simp: MemoryBuffer_new_def split: if_splits)
  have "ops_fit xs b (length [])" "agree [] [] []" using assms(6) by (simp_all add: agree_def)
  from mb_run_agrees [OF mb_new_stream [OF assms(1-5)] this] obtain b' s where
    r: "mb_run xs b = Some b'" "mb_stream b' s" "mb_block_size b' = cap" "agree s t (spoiled cap xs 0 [])"
    unfolding cap assms(7) by auto
  let ?f = "mb_fileOffset b'"
  have len: "length t = ?f + mb_offset b'" "length s = length t" "mb_offset b' \<le> cap" "cap dvd ?f"
    using r(2-4) by (simp_all add: mb_stream_def mb_ok_def agree_def)
  have cur: "mb_blocks b' ! mb_block_id b' ! (p - ?f) = s ! p" if "?f \<le> p" "p < length t" for p
  proof -
    have "take (mb_offset b') (mb_blocks b' ! mb_block_id b') ! (p - ?f) = drop ?f s ! (p - ?f)"
      using r(2) by (simp add: mb_stream_def)
    then show ?thesis using that len by simp
  qed
  have last: "mb_blocks b' ! mb_last b' ! (p + cap - ?f) = s ! p" if "p < ?f" "?f \<le> p + cap" for p
  proof -
    have "mb_block_size b' dvd ?f" using r(2) by (simp add: mb_stream_def)
    then have "cap \<le> ?f" using that r(3) by (auto dest: dvd_imp_le)
    moreover have "mb_blocks b' ! mb_last b' = take cap (drop (?f - cap) s)" using r(2,3) that by (simp add: mb_stream_def)
    ultimately show ?thesis using that len by simp
  qed
  show ?thesis using r(1,4) len cur last by (auto simp: agree_def)
qed

definition example_buffer :: MemoryBuffer where
  "example_buffer = \<lparr>mb_block_num = 3, mb_block_size = 1024, mb_fileOffset = 0, mb_blocks = replicate 3 (replicate 1024 0),
     mb_block_flags = [False, False, False], mb_write_flags = [False, False, False], mb_block_id = 0, mb_offset = 0\<rparr>"

theorem memory_buffer_stream_witness:
  "\<exists>b'. mb_run [Mb_write (replicate 1022 7), Mb_write [1, 2, 3, 4], Mb_before [3] 1024, Mb_check 0] example_buffer = Some b' \<and>
     mb_fileOffset b' = 1024 \<and> mb_blocks b' ! mb_block_id b' ! 0 = 3 \<and> mb_blocks b' ! mb_last b' ! 1023 = 2"
proof -
  let ?d = "replicate 1022 (7::byte)"
  let ?xs = "[Mb_write ?d, Mb_write [1, 2, 3, 4], Mb_before [3] 1024, Mb_check 0]"
  have new: "MemoryBuffer_new True (Some (replicate 3 (replicate 1024 0))) 1024 3 0 = Inr example_buffer"
    by (simp add: MemoryBuffer_new_def example_buffer_def numeral_eq_Suc)
  have st: "mb_stream example_buffer []" by (rule mb_new_stream [OF new]) simp_all
  let ?b = "example_buffer\<lparr>mb_blocks := [?d @ [0, 0], replicate 1024 0, replicate 1024 0], mb_offset := 1022\<rparr>"
  have b1: "mb_step (Mb_write ?d) example_buffer = Some ?b"
    by (simp add: mb_writePointer_def mb_put_def vec_get_def vec_set_def mwrite_def add64_def example_buffer_def)
      (simp add: numeral_eq_Suc)
  have e: "mb_block_size example_buffer = 1024" "mb_block_size ?b = 1024" by (simp_all add: example_buffer_def)
  have f1: "op_fits (Mb_write ?d) example_buffer (length [])" by (simp add: example_buffer_def)
  from mb_step_agrees [OF st f1, of "[]"] obtain s1 where s1: "mb_stream ?b s1" "agree s1 ?d []"
    unfolding b1 e by (auto simp: agree_def behind_block_def)
  have f2: "op_fits (Mb_write [1, 2, 3, 4]) ?b (length ?d)" by (simp add: example_buffer_def)
  from mb_step_agrees [OF s1(1) f2 s1(2)] obtain b2 s2 ps2 where b2: "mb_step (Mb_write [1, 2, 3, 4]) ?b = Some b2" "mb_stream b2 s2"
    "mb_block_size b2 = 1024" "agree s2 (?d @ [1, 2, 3, 4]) ps2"
    unfolding e by auto
  have n2: "mb_fileOffset b2 \<le> 1026" using b2(2,4) by (simp add: mb_stream_def agree_def)
  have f3: "op_fits (Mb_before [3] 1024) b2 (length (?d @ [1, 2, 3, 4]))" using b2(3) n2 by simp
  from mb_step_agrees [OF b2(2) f3 b2(4)] obtain b3 s3 where b3: "mb_step (Mb_before [3] 1024) b2 = Some b3" "mb_stream b3 s3" by blast
  have "0 < mb_block_num b3" using b3(2) by (simp add: mb_stream_def mb_ok_def)
  then have fits: "ops_fit ?xs example_buffer 0"
    using f1 f2 f3 b1 b2(1) b3(1) by (auto split: option.split)
  have sp: "spoiled 1024 ?xs 0 [] = [1025]"
    by (simp add: behind_block_def upt_rec)
  have t: "data_written ?xs [] = ?d @ [1, 2, 3, 4]" by (simp add: patched_def)
  from memory_buffer_stream [OF new _ _ _ _ fits refl, unfolded t sp] obtain b' where r: "mb_run ?xs example_buffer = Some b'"
    "1026 = mb_fileOffset b' + mb_offset b'" "mb_offset b' \<le> 1024" "1024 dvd mb_fileOffset b'"
    "\<And>p. p < 1026 \<Longrightarrow> p \<noteq> 1025 \<Longrightarrow> (mb_fileOffset b' \<le> p \<longrightarrow> mb_blocks b' ! mb_block_id b' ! (p - mb_fileOffset b') = (?d @ [1, 2, 3, 4]) ! p) \<and>
       (p < mb_fileOffset b' \<and> mb_fileOffset b' \<le> p + 1024 \<longrightarrow>
          mb_blocks b' ! mb_last b' ! (p + 1024 - mb_fileOffset b') = (?d @ [1, 2, 3, 4]) ! p)" by auto
  obtain q where "mb_fileOffset b' = 1024 * q" using r(4) ..
  then have f: "mb_fileOffset b' = 1024" using r(2,3) by (cases "q = 1") auto
  then show ?thesis using r(1) r(5) [of 1024] r(5) [of 1023] by (simp add: nth_append)
qed

text \<open>The storage thread writes a block where the writer is by then. When the writer leaves a block, the block before it becomes
  ready: it holds the bytes two blocks in front of the new file offset, but is written at that offset.\<close>

lemma block_written_late:
  assumes s: "mb_stream b s" and full: "mb_offset b = mb_block_size b" and clean: "\<not> mb_block_flags b ! mb_block_id b"
    and dirty: "mb_block_flags b ! mb_last b" and nz: "mb_fileOffset b \<noteq> 0" and small: "mb_fileOffset b + mb_block_size b < U64"
  shows "\<exists>b' b''. changeBlock b = Some b' \<and> checkAndWriteFile b' (mb_last b) =
    Some (True, [(mb_fileOffset b + mb_block_size b, take (mb_block_size b) (drop (mb_fileOffset b - mb_block_size b) s))], b'')"
proof -
  have ok: "mb_ok b" using s by (simp add: mb_stream_def)
  have id: "mb_block_id b < mb_block_num b" "mb_last b < mb_block_num b" "length (mb_block_flags b) = mb_block_num b"
    "length (mb_write_flags b) = mb_block_num b" "length (mb_blocks b) = mb_block_num b"
    using ok mb_last_less [OF ok] by (simp_all add: mb_ok_def)
  let ?b = "b\<lparr>mb_write_flags := (mb_write_flags b)[mb_last b := True],
    mb_block_flags := (mb_block_flags b)[mb_block_id b := True], mb_block_id := (mb_block_id b + 1) mod mb_block_num b, mb_offset := 0,
    mb_fileOffset := mb_fileOffset b + mb_block_size b\<rparr>"
  have run: "changeBlock b = Some ?b"
    using id clean dirty small by (simp add: changeBlock_def changeFileOffset_def vec_get_def vec_set_def add64_small)
  have blk: "mb_blocks b ! mb_last b = take (mb_block_size b) (drop (mb_fileOffset b - mb_block_size b) s)"
    using s nz by (simp add: mb_stream_def)
  have "checkAndWriteFile ?b (mb_last b) = Some (True, [(mb_fileOffset ?b, mb_blocks ?b ! mb_last b)],
      ?b\<lparr>mb_write_flags := (mb_write_flags ?b)[mb_last b := False], mb_block_flags := (mb_block_flags ?b)[mb_last b := False]\<rparr>)"
    using id by (simp add: checkAndWriteFile_def vec_get_def vec_set_def)
  then show ?thesis using run blk by auto
qed

section \<open>The file behind the window\<close>

text \<open>Between its calls the file buffer has written the file from its first offset up to its position.\<close>

definition fb_holds :: "FileBuffer \<Rightarrow> nat \<Rightarrow> bytes \<Rightarrow> bool" where
  "fb_holds f start s \<longleftrightarrow> fb_opened f \<and> fb_mapped f = Some (fb_offset f) \<and> fb_length f \<le> fb_capacity f \<and> 0 < fb_capacity f \<and>
     fb_capacity f < 4294967296 \<and> fb_offset f + fb_capacity f \<le> length (fb_file f) \<and> start \<le> fb_offset f \<and>
     start + length s = fb_offset f + fb_length f \<and> take (length s) (drop start (fb_file f)) = s"

lemma fb_put_holds:
  assumes h: "fb_holds f start s" and fits: "fb_length f + length d \<le> fb_capacity f"
  shows "\<exists>f'. fb_put f d = Some f' \<and> fb_holds (f'\<lparr>fb_length := fb_length f + length d\<rparr>) start (s @ d) \<and> fb_length f' = fb_length f \<and>
    fb_capacity f' = fb_capacity f \<and> fb_offset f' = fb_offset f"
proof -
  let ?pos = "fb_offset f + fb_length f"
  have p: "?pos + length d \<le> length (fb_file f)" "start + length s = ?pos" "fb_mapped f = Some (fb_offset f)"
    "take (length s) (drop start (fb_file f)) = s" "fb_opened f" "start \<le> fb_offset f" "0 < fb_capacity f" "fb_capacity f < 4294967296"
    "fb_offset f + fb_capacity f \<le> length (fb_file f)"
    using h fits by (simp_all add: fb_holds_def)
  let ?file = "patched (fb_file f) ?pos d"
  have w: "fb_put f d = Some (f\<lparr>fb_file := ?file\<rparr>)"
    using p fits by (simp add: fb_put_def mwrite_def patched_def)
  have len: "length ?file = length (fb_file f)" by (rule length_patched [OF p(1)])
  have lp: "?pos - start = length s" using p(2) by simp
  have "take (length (s @ d)) (drop start ?file) = s @ d"
  proof -
    have "drop start ?file = patched (drop start (fb_file f)) (length s) d"
      using p(1,2) drop_patched [of start ?pos "fb_file f" d] by (simp add: lp)
    then show ?thesis using p(1,2,4) by (simp add: patched_def min_absorb2)
  qed
  then have "fb_holds (f\<lparr>fb_file := ?file, fb_length := fb_length f + length d\<rparr>) start (s @ d)"
    using p len fits by (simp add: fb_holds_def)
  then show ?thesis using w by simp
qed

lemma expand_holds:
  assumes h: "fb_holds (f\<lparr>fb_length := fb_capacity f\<rparr>) start s" and small: "fb_offset f + fb_capacity f < U64"
  shows "\<exists>f'. expandFile True True True f = (True, f') \<and> fb_holds f' start s \<and> fb_length f' = 0 \<and> fb_capacity f' = fb_capacity f \<and>
    fb_offset f' = fb_offset f + fb_capacity f"
proof -
  let ?off = "fb_offset f + fb_capacity f"
  let ?f = "f\<lparr>fb_offset := ?off, fb_file := allocated (fb_file f) (?off + fb_capacity f), fb_mapped := Some ?off, fb_length := 0\<rparr>"
  have p: "fb_opened f" "0 < fb_capacity f" "fb_capacity f < 4294967296" "?off \<le> length (fb_file f)" "start \<le> fb_offset f"
    "start + length s = ?off" "take (length s) (drop start (fb_file f)) = s" using h by (simp_all add: fb_holds_def)
  have "add64 (fb_capacity f) (fb_offset f) = ?off" using small by (simp add: add64_small add.commute)
  then have run: "expandFile True True True f = (True, ?f)" using p(1) by (simp add: expandFile_def Let_def)
  have "take (length s) (drop start (allocated (fb_file f) n)) = s" for n
    using p(4,6,7) by (simp add: allocated_def)
  then have "fb_holds ?f start s" using p by (simp add: fb_holds_def allocated_def)
  then show ?thesis using run by simp
qed

lemma fb_write_holds:
  assumes h: "fb_holds f start s" and len: "length d \<le> fb_capacity f" and small: "fb_offset f + 2 * fb_capacity f < U64"
  shows "\<exists>f'. fb_writePointer True True True f d = Some (True, f') \<and>
    fb_holds f' start (s @ appended (fb_capacity f) (fb_length f) d) \<and> fb_capacity f' = fb_capacity f \<and> fb_offset f' \<le> fb_offset f + fb_capacity f"
proof -
  have p: "fb_length f \<le> fb_capacity f" "fb_capacity f < 4294967296" "fb_opened f" using h by (simp_all add: fb_holds_def)
  have a: "add64 (fb_length f) (length d) = fb_length f + length d" using p len by (simp add: add64_small)
  show ?thesis
  proof (cases "fb_length f + length d > fb_capacity f")
    case False
    then have "fb_length f + length d \<le> fb_capacity f" by simp
    from fb_put_holds [OF h this] obtain f' where "fb_put f d = Some f'"
      "fb_holds (f'\<lparr>fb_length := fb_length f + length d\<rparr>) start (s @ d)" "fb_capacity f' = fb_capacity f" "fb_offset f' = fb_offset f" 
      "fb_length f' = fb_length f" by blast
    then show ?thesis using False a by (simp add: fb_writePointer_def Let_def appended_def)
  next
    case True
    let ?tmp = "fb_capacity f - fb_length f"
    have tmp: "sub64 (fb_capacity f) (fb_length f) mod 4294967296 = ?tmp" using p by (simp add: sub64_ge)
    have parts: "mread d 0 ?tmp = Some (take ?tmp d)" "mread d 0 (length d - ?tmp) = Some (take (length d - ?tmp) d)"
      using True by (simp_all add: mread_def)
    have l: "length (take ?tmp d) = ?tmp" "length (take (length d - ?tmp) d) = length d - ?tmp" using True by simp_all
    have fits: "fb_length f + length (take ?tmp d) \<le> fb_capacity f" using p l by simp
    from fb_put_holds [OF h fits] obtain f1 where f1: "fb_put f (take ?tmp d) = Some f1"
      "fb_holds (f1\<lparr>fb_length := fb_length f + length (take ?tmp d)\<rparr>) start (s @ take ?tmp d)" "fb_capacity f1 = fb_capacity f"
      "fb_offset f1 = fb_offset f" by blast
    obtain f2 where f2: "expandFile True True True f1 = (True, f2)" "fb_holds f2 start (s @ take ?tmp d)" "fb_length f2 = 0"
      "fb_capacity f2 = fb_capacity f" "fb_offset f2 = fb_offset f + fb_capacity f"
      using expand_holds [of f1 start "s @ take ?tmp d"] f1(2-4) l p small by auto
    have fits2: "fb_length f2 + length (take (length d - ?tmp) d) \<le> fb_capacity f2" using f2(3,4) l len by simp
    from fb_put_holds [OF f2(2) fits2] obtain f3 where f3: "fb_put f2 (take (length d - ?tmp) d) = Some f3"
      "fb_holds (f3\<lparr>fb_length := fb_length f2 + length (take (length d - ?tmp) d)\<rparr>) start ((s @ take ?tmp d) @ take (length d - ?tmp) d)"
      "fb_capacity f3 = fb_capacity f2" "fb_offset f3 = fb_offset f2" by blast
    have "fb_writePointer True True True f d = Some (True, f3\<lparr>fb_length := length d - ?tmp\<rparr>)"
      using True by (simp add: fb_writePointer_def Let_def a tmp parts f1(1) f2(1) f3(1))
    then show ?thesis using f3 f2(3-5) l(2) True by (simp add: appended_def)
  qed
qed

end
