(* ===== verification/IndexLists.thy ===== *)
theory IndexLists
  imports SkipList IndexPersist
begin

text \<open>
  The older index buffer, \<^verbatim>\<open>dpdk_lib/indexBuffer.hpp\<close>: for every block in memory a prefix Bloom filter
  and one skip list for each index type. An insertion puts the keys of a flow into the filter and the lists of
  its disk block; a finished block is handed on by clearing the lists. The lists are those of \<open>SkipList\<close>, the
  filter writes a column of the shared bitmap.
\<close>

declare One_nat_def [simp del]

section \<open>The buffer\<close>

record ListMeta =
  lm_filter :: PrefixBloomFilter
  lm_lists :: "SkipList list"
  lm_disk_block_id :: nat

record ListBuffer =
  lb_total :: nat
  lb_disk_num :: nat
  lb_metas :: "ListMeta list"
  lb_check_ids :: "nat list"

fun init_lists :: "(nat \<times> nat) list \<Rightarrow> SkipList list option" where
  "init_lists [] = Some []"
| "init_lists ((max_level, key_len) # ls) = do {
     sl \<leftarrow> sl_init SkipList_new max_level key_len 8;
     sls \<leftarrow> init_lists ls;
     Some (sl # sls) }"

text \<open>The lists in the order of the index types; levels and key lengths in bits and bytes.\<close>

definition ListMeta_init :: "BitMap option \<Rightarrow> nat \<Rightarrow> nat \<Rightarrow> ListMeta option" where
  "ListMeta_init bm k disk_block = do {
     lists \<leftarrow> init_lists [(32, 4), (32, 4), (16, 2), (16, 2), (128, 16), (128, 16)];
     Some \<lparr>lm_filter = setWritingCol bm (PrefixBloomFilter_init k) disk_block, lm_lists = lists, lm_disk_block_id = disk_block\<rparr> }"

fun init_metas :: "BitMap option \<Rightarrow> nat \<Rightarrow> nat list \<Rightarrow> ListMeta list option" where
  "init_metas bm k [] = Some []"
| "init_metas bm k (i # is) = do { m \<leftarrow> ListMeta_init bm k i; ms \<leftarrow> init_metas bm k is; Some (m # ms) }"

definition ListBuffer_new :: "bool \<Rightarrow> nat \<Rightarrow> nat \<Rightarrow> BitMap option \<Rightarrow> nat \<Rightarrow> (index_buffer_error + ListBuffer) option" where
  "ListBuffer_new mmap_ok blocks disks bm k =
     (if disks mod blocks \<noteq> 0 then Some (Inl Not_a_multiple)
      else if \<not> mmap_ok then Some (Inl IBuf_mmap_failed)
      else do {
        metas \<leftarrow> init_metas bm k [0..<blocks];
        Some (Inr \<lparr>lb_total = blocks, lb_disk_num = disks, lb_metas = metas, lb_check_ids = []\<rparr>) })"

definition lb_addCheckThread :: "ListBuffer \<Rightarrow> nat \<times> ListBuffer" where
  "lb_addCheckThread b =
     (let n = length (lb_check_ids b) in
      if n \<ge> lb_total b then (u64_max, b) else (n, b\<lparr>lb_check_ids := lb_check_ids b @ [n]\<rparr>))"

text \<open>Filter and list take turns; each key comes with the number drawn for its level.\<close>

fun insert_entries :: "(bytes \<Rightarrow> nat) \<Rightarrow> (nat \<Rightarrow> nat) \<Rightarrow> nat \<Rightarrow> PrefixBloomFilter \<Rightarrow> (bytes \<times> IndexType \<times> nat) list \<Rightarrow>
    BitMap option \<Rightarrow> SkipList list \<Rightarrow> (bool \<times> BitMap option \<times> SkipList list) option" where
  "insert_entries h1 h2 position f [] bm sls = Some (True, bm, sls)"
| "insert_entries h1 h2 position f ((key, t, drawn) # es) bm sls =
     (case pbf_insert h1 h2 f bm (key_of_bytes key t) t of (ok, bm') \<Rightarrow>
        if \<not> ok then Some (False, bm', sls)
        else do {
          sl \<leftarrow> vec_get sls (index_num t);
          (ok, sl') \<leftarrow> sl_insert sl key position drawn;
          let sls' = sls[index_num t := sl'];
          if \<not> ok then Some (False, bm', sls') else insert_entries h1 h2 position f es bm' sls' })"

definition lb_insert :: "(bytes \<Rightarrow> nat) \<Rightarrow> (nat \<Rightarrow> nat) \<Rightarrow> BitMap option \<Rightarrow> ListBuffer \<Rightarrow> FlowMetadata \<Rightarrow> nat \<Rightarrow> nat \<Rightarrow>
    (IndexType \<Rightarrow> nat) \<Rightarrow> (bool \<times> BitMap option \<times> ListBuffer) option" where
  "lb_insert h1 h2 bm b meta position disk_block_id drawn = do {
     let i = disk_block_id mod lb_total b;
     m \<leftarrow> vec_get (lb_metas b) i;
     if lm_disk_block_id m \<noteq> disk_block_id then Some (False, bm, b)
     else do {
       (ok, bm', lists) \<leftarrow> insert_entries h1 h2 position (lm_filter m)
         (map (\<lambda>(key, t). (key, t, drawn t)) (query_keys meta)) bm (lm_lists m);
       Some (ok, bm', b\<lparr>lb_metas := (lb_metas b)[i := m\<lparr>lm_lists := lists\<rparr>]\<rparr>) } }"

definition lb_getCheckDishID :: "ListBuffer \<Rightarrow> nat \<Rightarrow> nat option" where
  "lb_getCheckDishID b thread_id =
     (if thread_id \<ge> length (lb_check_ids b) then Some u64_max
      else map_option lm_disk_block_id (vec_get (lb_metas b) (lb_check_ids b ! thread_id)))"

definition lb_checkIndexCount :: "ListBuffer \<Rightarrow> nat \<Rightarrow> IndexType \<Rightarrow> nat option" where
  "lb_checkIndexCount b thread_id t =
     (if thread_id \<ge> length (lb_check_ids b) then Some u64_max
      else do {
        m \<leftarrow> vec_get (lb_metas b) (lb_check_ids b ! thread_id);
        sl \<leftarrow> vec_get (lm_lists m) (index_num t);
        Some (sl_nodeNum sl) })"

text \<open>A null pointer, or the index of the record.\<close>

definition lb_getIndexBufferMeta :: "ListBuffer \<Rightarrow> nat \<Rightarrow> nat option" where
  "lb_getIndexBufferMeta b thread_id =
     (if thread_id \<ge> length (lb_check_ids b) then None else Some (lb_check_ids b ! thread_id))"

fun clear_lists :: "SkipList list \<Rightarrow> SkipList list option" where
  "clear_lists [] = Some []"
| "clear_lists (sl # sls) = do { sl' \<leftarrow> sl_clear sl; sls' \<leftarrow> clear_lists sls; Some (sl' # sls') }"

definition lb_updateMeta :: "BitMap option \<Rightarrow> ListBuffer \<Rightarrow> nat \<Rightarrow> nat \<Rightarrow> ListBuffer option" where
  "lb_updateMeta bm b thread_id bitmap_col =
     (if thread_id \<ge> length (lb_check_ids b) then Some b
      else do {
        let i = lb_check_ids b ! thread_id;
        m \<leftarrow> vec_get (lb_metas b) i;
        lists \<leftarrow> clear_lists (lm_lists m);
        let m' = \<lparr>lm_filter = setWritingCol bm (lm_filter m) bitmap_col, lm_lists = lists,
                  lm_disk_block_id = (lm_disk_block_id m + lb_total b) mod lb_disk_num b\<rparr>;
        Some (b\<lparr>lb_metas := (lb_metas b)[i := m'],
          lb_check_ids := (lb_check_ids b)[thread_id := (i + length (lb_check_ids b)) mod lb_total b]\<rparr>) })"

section \<open>What the lists hold\<close>

definition list_holds :: "nat \<Rightarrow> (bytes \<times> nat \<times> nat) list \<Rightarrow> SkipList \<Rightarrow> bool" where
  "list_holds kl ops s \<longleftrightarrow> ops_ok kl ops \<and> sl_keyLen s = kl \<and> sl_nodeNum s = length ops mod U64 \<and>
     (\<exists>h ns. sl_rep s h ns \<and> map (entry_of s) ns = sorted_entries kl ops)"

lemma list_insert:
  assumes "list_holds kl ops s" and "length key = kl" and "0 < drawn"
  shows "\<exists>s'. sl_insert s key v drawn = Some (True, s') \<and> list_holds kl (ops @ [(key, v, drawn)]) s'"
proof -
  from assms(1) obtain h ns where r: "sl_rep s h ns" "map (entry_of s) ns = sorted_entries kl ops" "sl_keyLen s = kl"
    "sl_nodeNum s = length ops mod U64" "ops_ok kl ops" unfolding list_holds_def by blast
  have "length key = sl_keyLen s" using assms(2) r(3) by simp
  from sl_insert_spec [OF r(1) this assms(3), of v] obtain s' ns' where s': "sl_insert s key v drawn = Some (True, s')" "sl_rep s' h ns'"
    "map (entry_of s') ns' = sorted_insert (key_lt kl) (key, v) (sorted_entries kl ops)" "sl_keyLen s' = kl" "sl_nodeNum s' = add64 (sl_nodeNum s) 1"
    unfolding r(2,3) by blast
  have "sorted_entries kl (ops @ [(key, v, drawn)]) = sorted_insert (key_lt kl) (key, v) (sorted_entries kl ops)"
    by (simp add: sorted_entries_def)
  moreover have "sl_nodeNum s' = length (ops @ [(key, v, drawn)]) mod U64"
    unfolding s'(5) r(4) by (simp add: add64_def mod_simps One_nat_def)
  moreover have "ops_ok kl (ops @ [(key, v, drawn)])" using r(5) assms(2,3) by (auto simp: ops_ok_def)
  ultimately show ?thesis using s' unfolding list_holds_def by auto
qed

text \<open>A query for a key gives the values inserted under it, the newest first, cut to 32 bits.\<close>

lemma list_find:
  assumes "list_holds kl ops s" and "length key = kl" and "kl = 1 \<or> kl = 2 \<or> kl = 4 \<or> kl = 8 \<or> kl = 16"
  shows "findByKey s key = Some (map (\<lambda>x. fst (snd x) mod 4294967296) (filter (\<lambda>x. fst x = key) (rev ops)))"
proof -
  from assms(1) obtain h ns where r: "sl_rep s h ns" "map (entry_of s) ns = sorted_entries kl ops" "sl_keyLen s = kl" "ops_ok kl ops"
    unfolding list_holds_def by blast
  let ?P = "\<lambda>e :: bytes \<times> nat. \<not> key_lt kl (fst e) key \<and> \<not> key_lt kl key (fst e)"
  have "length key = sl_keyLen s" using assms(2) r(3) by simp
  from findByKey_spec [OF r(1) this] have "findByKey s key = Some (map (\<lambda>e. snd e mod 4294967296) (filter ?P (sorted_entries kl ops)))"
    unfolding r(2,3) .
  also have "filter ?P (sorted_entries kl ops) = filter ?P (map (\<lambda>(k, v, d). (k, v)) (rev ops))"
    using filter_same_key [OF refl, of kl key ops "[]"] by (simp add: sorted_entries_def)
  also have "\<dots> = filter (\<lambda>e. fst e = key) (map (\<lambda>(k, v, d). (k, v)) (rev ops))"
  proof (rule filter_cong [OF refl])
    fix e assume "e \<in> set (map (\<lambda>(k, v, d). (k, v)) (rev ops))"
    then have "length (fst e) = kl" using r(4) by (auto simp: ops_ok_def)
    then show "?P e = (fst e = key)" by (rule key_unordered [OF assms(3) _ assms(2)])
  qed
  finally show ?thesis by (simp add: filter_map comp_def case_prod_beta)
qed

definition lists_hold :: "(IndexType \<Rightarrow> (bytes \<times> nat \<times> nat) list) \<Rightarrow> SkipList list \<Rightarrow> bool" where
  "lists_hold ops sls \<longleftrightarrow> length sls = 6 \<and> (\<forall>t. t \<noteq> TOTAL_INDEX \<longrightarrow> list_holds (type_key_len t) (ops t) (sls ! index_num t))"

lemma index_num_less: "t \<noteq> TOTAL_INDEX \<Longrightarrow> index_num t < 6"
  by (cases t) simp_all

lemma lists_insert:
  assumes "lists_hold ops sls" and "t \<noteq> TOTAL_INDEX" and "length key = type_key_len t" and "0 < drawn"
  shows "\<exists>sl sl'. vec_get sls (index_num t) = Some sl \<and> sl_insert sl key v drawn = Some (True, sl') \<and>
    lists_hold (ops(t := ops t @ [(key, v, drawn)])) (sls[index_num t := sl'])"
proof -
  have l: "length sls = 6" "list_holds (type_key_len t) (ops t) (sls ! index_num t)" using assms(1,2) by (simp_all add: lists_hold_def)
  from list_insert [OF l(2) assms(3,4)] obtain sl' where sl': "sl_insert (sls ! index_num t) key v drawn = Some (True, sl')"
    "list_holds (type_key_len t) (ops t @ [(key, v, drawn)]) sl'" by blast
  have "list_holds (type_key_len u) ((ops(t := ops t @ [(key, v, drawn)])) u) (sls[index_num t := sl'] ! index_num u)"
    if "u \<noteq> TOTAL_INDEX" for u
  proof (cases "u = t")
    case True
    then show ?thesis using sl'(2) l(1) index_num_less [OF assms(2)] by simp
  next
    case False
    then have "index_num t \<noteq> index_num u" using index_num_inj by metis
    then show ?thesis using False assms(1) that by (simp add: lists_hold_def)
  qed
  then have "lists_hold (ops(t := ops t @ [(key, v, drawn)])) (sls[index_num t := sl'])" using l(1) by (simp add: lists_hold_def)
  then show ?thesis using sl'(1) l(1) index_num_less [OF assms(2)] by (intro exI [of _ "sls ! index_num t"] exI [of _ sl']) (simp add: vec_get_def)
qed

definition entries_for :: "nat \<Rightarrow> (bytes \<times> IndexType \<times> nat) list \<Rightarrow> IndexType \<Rightarrow> (bytes \<times> nat \<times> nat) list" where
  "entries_for position es t = map (\<lambda>(key, _, drawn). (key, position, drawn)) (filter (\<lambda>(_, t', _). t' = t) es)"

definition entry_ok :: "bytes \<times> IndexType \<times> nat \<Rightarrow> bool" where
  "entry_ok e \<longleftrightarrow> (case e of (key, t, drawn) \<Rightarrow> t \<noteq> TOTAL_INDEX \<and> length key = type_key_len t \<and> 0 < drawn)"

lemma insert_entries_hold:
  "lists_hold ops sls \<Longrightarrow> \<forall>e \<in> set es. entry_ok e \<Longrightarrow>
   insert_keys h1 h2 f bm (map (\<lambda>(key, t, _). (key_of_bytes key t, t)) es) = (True, bm') \<Longrightarrow>
   \<exists>sls'. insert_entries h1 h2 position f es bm sls = Some (True, bm', sls') \<and>
     lists_hold (\<lambda>t. ops t @ entries_for position es t) sls'"
proof (induction es arbitrary: ops sls bm)
  case Nil
  then show ?case by (simp add: entries_for_def)
next
  case (Cons e es)
  obtain key t drawn where e: "e = (key, t, drawn)" by (cases e)
  have ok: "t \<noteq> TOTAL_INDEX" "length key = type_key_len t" "0 < drawn" using Cons.prems(2) e by (simp_all add: entry_ok_def)
  from lists_insert [OF Cons.prems(1) ok, of position] obtain sl sl' where sl: "vec_get sls (index_num t) = Some sl"
    "sl_insert sl key position drawn = Some (True, sl')"
    "lists_hold (ops(t := ops t @ [(key, position, drawn)])) (sls[index_num t := sl'])" by blast
  obtain bm1 where bm1: "pbf_insert h1 h2 f bm (key_of_bytes key t) t = (True, bm1)"
    "insert_keys h1 h2 f bm1 (map (\<lambda>(key, t, _). (key_of_bytes key t, t)) es) = (True, bm')"
    using Cons.prems(3) e by (auto split: prod.splits if_splits)
  from Cons.IH [OF sl(3) _ bm1(2)] Cons.prems(2) obtain sls' where
    sls': "insert_entries h1 h2 position f es bm1 (sls[index_num t := sl']) = Some (True, bm', sls')"
    "lists_hold (\<lambda>u. (ops(t := ops t @ [(key, position, drawn)])) u @ entries_for position es u) sls'" by auto
  have "(\<lambda>u. (ops(t := ops t @ [(key, position, drawn)])) u @ entries_for position es u) = (\<lambda>u. ops u @ entries_for position (e # es) u)"
    by (simp add: fun_eq_iff entries_for_def e)
  then show ?case using sls' bm1(1) sl(1,2) e by (intro exI [of _ sls']) simp
qed

section \<open>Flows\<close>

fun lb_inserts :: "(bytes \<Rightarrow> nat) \<Rightarrow> (nat \<Rightarrow> nat) \<Rightarrow> nat \<Rightarrow> (FlowMetadata \<times> nat \<times> (IndexType \<Rightarrow> nat)) list \<Rightarrow>
    BitMap option \<Rightarrow> ListBuffer \<Rightarrow> (bool \<times> BitMap option \<times> ListBuffer) option" where
  "lb_inserts h1 h2 disk_block [] bm b = Some (True, bm, b)"
| "lb_inserts h1 h2 disk_block ((meta, position, drawn) # flows) bm b = do {
     (ok, bm', b') \<leftarrow> lb_insert h1 h2 bm b meta position disk_block drawn;
     if ok then lb_inserts h1 h2 disk_block flows bm' b' else Some (False, bm', b') }"

definition flow_ops :: "(FlowMetadata \<times> nat \<times> (IndexType \<Rightarrow> nat)) list \<Rightarrow> IndexType \<Rightarrow> (bytes \<times> nat \<times> nat) list" where
  "flow_ops flows t = concat (map (\<lambda>(meta, position, drawn). entries_for position (map (\<lambda>(key, t). (key, t, drawn t)) (query_keys meta)) t) flows)"

text \<open>The positions of the flows that have a key, the newest first, as the 32 bits the lists return.\<close>

definition positions_of :: "bytes \<Rightarrow> IndexType \<Rightarrow> (FlowMetadata \<times> nat \<times> (IndexType \<Rightarrow> nat)) list \<Rightarrow> nat list" where
  "positions_of key t flows = map (\<lambda>x. fst (snd x) mod 4294967296) (filter (\<lambda>x. (key, t) \<in> set (query_keys (fst x))) (rev flows))"

lemma query_keys_ok: "\<forall>t. 0 < drawn t \<Longrightarrow> e \<in> set (map (\<lambda>(key, t). (key, t, drawn t)) (query_keys meta)) \<Longrightarrow> entry_ok e"
  by (auto simp: query_keys_def entry_ok_def length_le_encode split: if_splits)

lemma query_keys_fit: "\<forall>(key, t) \<in> set (flow_keys meta). key_fits key t"
  by (auto simp: flow_keys_def key_of_bytes_def key_fits_def)

lemma flow_ops_positions:
  "map (\<lambda>x. fst (snd x) mod 4294967296) (filter (\<lambda>x. fst x = key) (rev (flow_ops flows t))) = positions_of key t flows"
proof (induction flows)
  case (Cons fl flows)
  obtain meta position drawn where f: "fl = (meta, position, drawn)" by (cases fl)
  have one: "map (\<lambda>x. fst (snd x) mod 4294967296) (filter (\<lambda>x. fst x = key)
      (rev (entries_for position (map (\<lambda>(key, t). (key, t, drawn t)) (query_keys meta)) t))) =
    (if (key, t) \<in> set (query_keys meta) then [position mod 4294967296] else [])"
    by (cases t) (auto simp: entries_for_def query_keys_def)
  have "flow_ops (fl # flows) t = entries_for position (map (\<lambda>(key, t). (key, t, drawn t)) (query_keys meta)) t @ flow_ops flows t"
    by (simp add: flow_ops_def f)
  then show ?case using one Cons.IH by (simp add: positions_of_def f)
qed (simp add: flow_ops_def positions_of_def)

lemma insert_keys_size:
  "BitMap_inv m \<Longrightarrow> insert_keys h1 h2 f (Some m) ks = (ok, bm) \<Longrightarrow>
   \<exists>m'. bm = Some m' \<and> BitMap_inv m' \<and> col_count m' = col_count m \<and> row_count m' = row_count m"
proof (induction ks arbitrary: m)
  case (Cons kt ks)
  obtain key t where kt: "kt = (key, t)" by (cases kt)
  obtain m1 where m1: "m1 = run_filter_op h1 h2 (Insert f key t) m" by blast
  obtain done_it where r: "pbf_insert h1 h2 f (Some m) key t = (done_it, Some m1)"
    by (cases "pbf_insert h1 h2 f (Some m) key t") (auto simp: m1 pbf_insert_seq split: if_splits)
  have c: "col_count m1 = col_count m \<and> row_count m1 = row_count m" by (simp add: m1 pbf_insert_seq set_seq_size)
  have inv: "BitMap_inv m1" unfolding m1 by (rule run_filter_op_step(1) [OF Cons.prems(1)])
  show ?case
  proof (cases done_it)
    case True
    then have "insert_keys h1 h2 f (Some m1) ks = (ok, bm)" using Cons.prems(2) kt r by simp
    from Cons.IH [OF inv this] c show ?thesis by simp
  next
    case False
    then have "bm = Some m1" using Cons.prems(2) kt r by simp
    then show ?thesis using inv c by simp
  qed
qed auto

text \<open>The block of the buffer for one disk block holds these flows, and the filter reports their keys.\<close>

definition block_holds :: "(bytes \<Rightarrow> nat) \<Rightarrow> (nat \<Rightarrow> nat) \<Rightarrow> nat \<Rightarrow> nat \<Rightarrow> (FlowMetadata \<times> nat \<times> (IndexType \<Rightarrow> nat)) list \<Rightarrow> BitMap \<Rightarrow> ListBuffer \<Rightarrow> bool" where
  "block_holds h1 h2 k d flows m b \<longleftrightarrow> BitMap_inv m \<and> pbf_rows_needed \<le> row_count m \<and> d mod lb_total b < length (lb_metas b) \<and>
     (let im = lb_metas b ! (d mod lb_total b) in lm_disk_block_id im = d \<and> pb_k (lm_filter im) = k \<and> writing_col (lm_filter im) < col_count m \<and>
       lists_hold (flow_ops flows) (lm_lists im) \<and>
       (\<forall>(meta, _) \<in> set flows. \<forall>(key, t) \<in> set (flow_keys meta). key_fits key t \<and>
          get_seq BitMap_get m (key_rows h1 h2 k key t) (writing_col (lm_filter im))))"

text \<open>An insertion leaves the sizes and the threads alone.\<close>

definition same_frame :: "BitMap \<Rightarrow> ListBuffer \<Rightarrow> BitMap \<Rightarrow> ListBuffer \<Rightarrow> bool" where
  "same_frame m b m' b' \<longleftrightarrow> lb_total b' = lb_total b \<and> lb_disk_num b' = lb_disk_num b \<and> lb_check_ids b' = lb_check_ids b \<and>
     col_count m' = col_count m"

lemma lb_insert_holds:
  assumes h: "block_holds h1 h2 k d flows m b" and dr: "\<forall>t. 0 < drawn t"
  shows "\<exists>m' b'. lb_insert h1 h2 (Some m) b meta position d drawn = Some (True, Some m', b') \<and>
    block_holds h1 h2 k d (flows @ [(meta, position, drawn)]) m' b' \<and> same_frame m b m' b'"
proof -
  let ?i = "d mod lb_total b" let ?im = "lb_metas b ! ?i" let ?f = "lm_filter ?im"
  let ?es = "map (\<lambda>(key, t). (key, t, drawn t)) (query_keys meta)"
  have p: "BitMap_inv m" "pbf_rows_needed \<le> row_count m" "?i < length (lb_metas b)" "lm_disk_block_id ?im = d" "pb_k ?f = k"
    "writing_col ?f < col_count m" "lists_hold (flow_ops flows) (lm_lists ?im)"
    "\<forall>(meta, _) \<in> set flows. \<forall>(key, t) \<in> set (flow_keys meta). key_fits key t \<and> get_seq BitMap_get m (key_rows h1 h2 k key t) (writing_col ?f)"
    using h by (simp_all add: block_holds_def Let_def)
  from insert_keys_ok [OF p(1,2,6) query_keys_fit] obtain bm where bm: "insert_keys h1 h2 ?f (Some m) (flow_keys meta) = (True, bm)" by blast
  from insert_keys_size [OF p(1) bm] obtain m' where m': "bm = Some m'" "BitMap_inv m'" "col_count m' = col_count m" "row_count m' = row_count m" by blast
  have c: "\<forall>(key, t) \<in> set (flow_keys meta). key_fits key t \<and> get_seq BitMap_get m' (key_rows h1 h2 (pb_k ?f) key t) (writing_col ?f)"
    "\<forall>rows c. get_seq BitMap_get m rows c \<longrightarrow> get_seq BitMap_get m' rows c"
    using insert_keys_contains [OF p(1) bm] m'(1) by auto
  have e: "map (\<lambda>(key, t, _). (key_of_bytes key t, t)) ?es = flow_keys meta"
    by (simp add: query_flow_keys case_prod_beta comp_def)
  have "\<forall>e \<in> set ?es. entry_ok e" using query_keys_ok [OF dr] by blast
  from insert_entries_hold [OF p(7) this, of h1 h2 ?f "Some m" bm position, unfolded e, OF bm] obtain sls where
    sls: "insert_entries h1 h2 position ?f ?es (Some m) (lm_lists ?im) = Some (True, bm, sls)"
    "lists_hold (\<lambda>t. flow_ops flows t @ entries_for position ?es t) sls" by blast
  let ?b = "b\<lparr>lb_metas := (lb_metas b)[?i := ?im\<lparr>lm_lists := sls\<rparr>]\<rparr>"
  have run: "lb_insert h1 h2 (Some m) b meta position d drawn = Some (True, Some m', ?b)"
    using p(3,4) sls(1) m'(1) by (simp add: lb_insert_def Let_def vec_get_def)
  have ops: "flow_ops (flows @ [(meta, position, drawn)]) = (\<lambda>t. flow_ops flows t @ entries_for position ?es t)"
    by (simp add: fun_eq_iff flow_ops_def)
  have "block_holds h1 h2 k d (flows @ [(meta, position, drawn)]) m' ?b"
    unfolding block_holds_def Let_def ops
    using p(3-6,8) m'(2-4) p(2) sls(2) c by fastforce
  then show ?thesis using run m'(3) by (auto simp: same_frame_def)
qed

lemma lb_inserts_hold:
  "block_holds h1 h2 k d flows m b \<Longrightarrow> \<forall>(_, _, drawn) \<in> set new. \<forall>t. 0 < drawn t \<Longrightarrow>
   \<exists>m' b'. lb_inserts h1 h2 d new (Some m) b = Some (True, Some m', b') \<and> block_holds h1 h2 k d (flows @ new) m' b' \<and> same_frame m b m' b'"
proof (induction new arbitrary: flows m b)
  case (Cons fl new)
  obtain meta position drawn where f: "fl = (meta, position, drawn)" by (cases fl)
  have "\<forall>t. 0 < drawn t" using Cons.prems(2) f by simp
  from lb_insert_holds [OF Cons.prems(1) this, of meta position] obtain m1 b1 where
    1: "lb_insert h1 h2 (Some m) b meta position d drawn = Some (True, Some m1, b1)"
    "block_holds h1 h2 k d (flows @ [(meta, position, drawn)]) m1 b1" "same_frame m b m1 b1" by blast
  from Cons.IH [OF 1(2)] Cons.prems(2) obtain m2 b2 where 2: "lb_inserts h1 h2 d new (Some m1) b1 = Some (True, Some m2, b2)"
    "block_holds h1 h2 k d ((flows @ [(meta, position, drawn)]) @ new) m2 b2" "same_frame m1 b1 m2 b2" by auto
  have "same_frame m b m2 b2" using 1(3) 2(3) by (simp add: same_frame_def)
  then show ?case using 1(1) 2(1,2) f by simp
qed (simp add: same_frame_def)

section \<open>Construction and recycling\<close>

lemma init_lists_hold:
  "\<exists>sls. init_lists [(32, 4), (32, 4), (16, 2), (16, 2), (128, 16), (128, 16)] = Some sls \<and> lists_hold (\<lambda>t. []) sls"
proof -
  have one: "\<exists>s. sl_init SkipList_new l kl 8 = Some s \<and> list_holds kl [] s"
    if "kl = 2 \<or> kl = 4 \<or> kl = 16" "0 < l" "l < 2147483648" for l kl
  proof -
    have "supported kl" using that(1) by (auto simp: supported_def)
    from sl_init_rep [OF this that(2,3), of 8] obtain s where "sl_init SkipList_new l kl 8 = Some s" "sl_rep s 0 []" "sl_keyLen s = kl" "sl_nodeNum s = 0"
      by blast
    then show ?thesis unfolding list_holds_def by (auto simp: ops_ok_def sorted_entries_def)
  qed
  obtain a where a: "sl_init SkipList_new 32 4 8 = Some a" "list_holds 4 [] a" using one [of 4 32] by auto
  obtain b where b: "sl_init SkipList_new 16 2 8 = Some b" "list_holds 2 [] b" using one [of 2 16] by auto
  obtain c where c: "sl_init SkipList_new 128 16 8 = Some c" "list_holds 16 [] c" using one [of 16 128] by auto
  have "list_holds (type_key_len t) [] ([a, a, b, b, c, c] ! index_num t)" if "t \<noteq> TOTAL_INDEX" for t
    using that a(2) b(2) c(2) by (cases t) (simp_all add: numeral_eq_Suc One_nat_def)
  then show ?thesis using a(1) b(1) c(1) by (intro exI [of _ "[a, a, b, b, c, c]"]) (simp add: lists_hold_def)
qed

lemma init_metas_hold:
  obtains ms where "init_metas bm k is = Some ms" and "length ms = length is"
    and "\<And>j. j < length is \<Longrightarrow> lm_disk_block_id (ms ! j) = is ! j \<and> lists_hold (\<lambda>t. []) (lm_lists (ms ! j)) \<and>
      lm_filter (ms ! j) = setWritingCol bm (PrefixBloomFilter_init k) (is ! j)"
proof -
  obtain sls where sls: "init_lists [(32, 4), (32, 4), (16, 2), (16, 2), (128, 16), (128, 16)] = Some sls" "lists_hold (\<lambda>t. []) sls"
    using init_lists_hold by blast
  let ?m = "\<lambda>i. \<lparr>lm_filter = setWritingCol bm (PrefixBloomFilter_init k) i, lm_lists = sls, lm_disk_block_id = i\<rparr>"
  have "ListMeta_init bm k i = Some (?m i)" for i unfolding ListMeta_init_def sls(1) by simp
  then have "init_metas bm k is = Some (map ?m is)" by (induction "is") simp_all
  then show ?thesis by (rule that) (simp_all add: sls(2))
qed

lemma new_block_holds:
  assumes "disks mod blocks = 0" and "d < blocks" and "BitMap_inv m" and "pbf_rows_needed \<le> row_count m" and "d < col_count m"
  shows "\<exists>b. ListBuffer_new True blocks disks (Some m) k = Some (Inr b) \<and> block_holds h1 h2 k d [] m b \<and> lb_total b = blocks \<and>
    lb_disk_num b = disks \<and> lb_check_ids b = []"
proof -
  from init_metas_hold [of "Some m" k "[0..<blocks]"] obtain ms where ms: "init_metas (Some m) k [0..<blocks] = Some ms" "length ms = blocks"
    "\<And>j. j < blocks \<Longrightarrow> lm_disk_block_id (ms ! j) = j \<and> lists_hold (\<lambda>t. []) (lm_lists (ms ! j)) \<and>
      lm_filter (ms ! j) = setWritingCol (Some m) (PrefixBloomFilter_init k) j" by (metis length_upt nth_upt add_0 diff_zero)
  have "flow_ops [] = (\<lambda>t. [])" by (simp add: fun_eq_iff flow_ops_def)
  then show ?thesis using assms ms
    by (simp add: ListBuffer_new_def block_holds_def setWritingCol_def PrefixBloomFilter_init_def)
qed

lemma clear_lists_hold:
  assumes "lists_hold ops sls"
  shows "\<exists>sls'. clear_lists sls = Some sls' \<and> lists_hold (\<lambda>t. []) sls'"
proof -
  have one: "\<exists>s'. sl_clear s = Some s' \<and> list_holds kl [] s'" if h: "list_holds kl os s" for kl os s
  proof -
    from h obtain p ns where r: "sl_rep s p ns" "sl_keyLen s = kl" unfolding list_holds_def by blast
    have "\<exists>s'. sl_clear s = Some s' \<and> sl_rep s' p [] \<and> sl_keyLen s' = sl_keyLen s \<and> sl_nodeNum s' = 0"
      by (rule sl_clear_spec) (use r(1) in \<open>simp_all add: sl_rep_def\<close>)
    then show ?thesis using r(2) unfolding list_holds_def by (auto simp: ops_ok_def sorted_entries_def)
  qed
  have l: "length sls = 6" and each: "\<forall>t. t \<noteq> TOTAL_INDEX \<longrightarrow> list_holds (type_key_len t) (ops t) (sls ! index_num t)"
    using assms by (simp_all add: lists_hold_def)
  obtain a b c d e f where s: "sls = [a, b, c, d, e, f]"
    using l by (auto simp: numeral_eq_Suc length_Suc_conv)
  have h: "list_holds 4 (ops SRCIP) a" "list_holds 4 (ops DSTIP) b" "list_holds 2 (ops SRCPORT) c" "list_holds 2 (ops DSTPORT) d"
    "list_holds 16 (ops SRCIPv6) e" "list_holds 16 (ops DSTIPv6) f"
    using each [rule_format, of SRCIP] each [rule_format, of DSTIP] each [rule_format, of SRCPORT] each [rule_format, of DSTPORT]
      each [rule_format, of SRCIPv6] each [rule_format, of DSTIPv6] by (simp_all add: s numeral_eq_Suc One_nat_def)
  from one [OF h(1)] one [OF h(2)] one [OF h(3)] one [OF h(4)] one [OF h(5)] one [OF h(6)] obtain a' b' c' d' e' f' where
    n: "sl_clear a = Some a'" "list_holds 4 [] a'" "sl_clear b = Some b'" "list_holds 4 [] b'" "sl_clear c = Some c'" "list_holds 2 [] c'"
    "sl_clear d = Some d'" "list_holds 2 [] d'" "sl_clear e = Some e'" "list_holds 16 [] e'" "sl_clear f = Some f'" "list_holds 16 [] f'" by blast
  have "list_holds (type_key_len t) [] ([a', b', c', d', e', f'] ! index_num t)" if "t \<noteq> TOTAL_INDEX" for t
    using that n by (cases t) (simp_all add: numeral_eq_Suc One_nat_def)
  then show ?thesis using n by (intro exI [of _ "[a', b', c', d', e', f']"]) (simp add: s lists_hold_def)
qed

lemma recycled_block_holds:
  assumes h: "block_holds h1 h2 k d flows m b" and th: "thread < length (lb_check_ids b)" "lb_check_ids b ! thread = d mod lb_total b"
    and col: "col < col_count m" and disks: "lb_disk_num b mod lb_total b = 0"
  shows "\<exists>b'. lb_updateMeta (Some m) b thread col = Some b' \<and> block_holds h1 h2 k ((d + lb_total b) mod lb_disk_num b) [] m b' \<and> lb_total b' = lb_total b"
proof -
  let ?i = "d mod lb_total b" let ?im = "lb_metas b ! ?i"
  have p: "BitMap_inv m" "pbf_rows_needed \<le> row_count m" "?i < length (lb_metas b)" "lm_disk_block_id ?im = d" "pb_k (lm_filter ?im) = k"
    "lists_hold (flow_ops flows) (lm_lists ?im)" using h by (simp_all add: block_holds_def Let_def)
  from clear_lists_hold [OF p(6)] obtain sls where sls: "clear_lists (lm_lists ?im) = Some sls" "lists_hold (\<lambda>t. []) sls" by blast
  let ?m = "\<lparr>lm_filter = setWritingCol (Some m) (lm_filter ?im) col, lm_lists = sls, lm_disk_block_id = (d + lb_total b) mod lb_disk_num b\<rparr>"
  let ?b = "b\<lparr>lb_metas := (lb_metas b)[?i := ?m], lb_check_ids := (lb_check_ids b)[thread := (?i + length (lb_check_ids b)) mod lb_total b]\<rparr>"
  have run: "lb_updateMeta (Some m) b thread col = Some ?b"
    using th p(3,4) sls(1) by (simp add: lb_updateMeta_def Let_def vec_get_def)
  have "lb_total b dvd lb_disk_num b" using disks by auto
  then have i: "(d + lb_total b) mod lb_disk_num b mod lb_total b = ?i" by (simp add: mod_mod_cancel)
  have "flow_ops [] = (\<lambda>t. [])" by (simp add: fun_eq_iff flow_ops_def)
  then have "block_holds h1 h2 k ((d + lb_total b) mod lb_disk_num b) [] m ?b"
    using p(1-3,5) sls(2) col by (simp add: block_holds_def Let_def i setWritingCol_def)
  then show ?thesis using run by (intro exI [of _ ?b]) simp
qed

section \<open>Property\<close>

text \<open>What a block answers: every list gives the positions of the flows that have the key, and the filter reports the keys of
  all flows once its column is the one that is read.\<close>

definition block_answers :: "(bytes \<Rightarrow> nat) \<Rightarrow> (nat \<Rightarrow> nat) \<Rightarrow> BitMap \<Rightarrow> ListMeta \<Rightarrow> (FlowMetadata \<times> nat \<times> (IndexType \<Rightarrow> nat)) list \<Rightarrow> bool" where
  "block_answers h1 h2 m im flows \<longleftrightarrow>
     (\<forall>key t. t \<noteq> TOTAL_INDEX \<and> length key = type_key_len t \<longrightarrow> findByKey (lm_lists im ! index_num t) key = Some (positions_of key t flows)) \<and>
     (\<forall>(meta, _) \<in> set flows. \<forall>(key, t) \<in> set (query_keys meta).
        pbf_contains h1 h2 ((lm_filter im)\<lparr>reading_col := writing_col (lm_filter im)\<rparr>) (Some m) (key_of_bytes key t) t)"

lemma holds_answers:
  assumes "block_holds h1 h2 k d flows m b"
  shows "block_answers h1 h2 m (lb_metas b ! (d mod lb_total b)) flows"
proof -
  let ?im = "lb_metas b ! (d mod lb_total b)"
  have p: "lists_hold (flow_ops flows) (lm_lists ?im)" "pb_k (lm_filter ?im) = k"
    "\<forall>(meta, _) \<in> set flows. \<forall>(key, t) \<in> set (flow_keys meta). key_fits key t \<and>
       get_seq BitMap_get m (key_rows h1 h2 k key t) (writing_col (lm_filter ?im))"
    using assms by (simp_all add: block_holds_def Let_def)
  have "findByKey (lm_lists ?im ! index_num t) key = Some (positions_of key t flows)"
    if "t \<noteq> TOTAL_INDEX" "length key = type_key_len t" for key t
  proof -
    have "list_holds (type_key_len t) (flow_ops flows t) (lm_lists ?im ! index_num t)" using p(1) that(1) by (simp add: lists_hold_def)
    moreover have "type_key_len t = 1 \<or> type_key_len t = 2 \<or> type_key_len t = 4 \<or> type_key_len t = 8 \<or> type_key_len t = 16" using that(1) by (cases t) simp_all
    ultimately show ?thesis using list_find [OF _ that(2)] by (simp add: flow_ops_positions)
  qed
  then show ?thesis using p(2,3) by (fastforce simp: block_answers_def pbf_contains_seq query_flow_keys)
qed

lemma check_threads: "n \<le> lb_total b \<Longrightarrow> lb_check_ids b = [] \<Longrightarrow>
    ((\<lambda>b. snd (lb_addCheckThread b)) ^^ n) b = b\<lparr>lb_check_ids := [0..<n]\<rparr>"
  by (induction n) (simp_all add: lb_addCheckThread_def Let_def)

text \<open>C19: the older index buffer answers as the list of its flows. With a thread for every block up to the one of disk block \<open>d\<close>,
  every flow is accepted for \<open>d\<close>; each skip list of its block then gives exactly the positions of the flows with
  the key asked for, the newest first and cut to 32 bits, and the filter reports all their keys. After the thread
  of the block has recycled it, the same holds for the flows of the next disk block, and those before are gone.\<close>

theorem older_index_holds_flows:
  assumes "disks mod blocks = 0" and "d < blocks" and "BitMap_inv m" and "pbf_rows_needed \<le> row_count m" and "d < col_count m" and "col < col_count m"
    and "\<forall>(_, _, drawn) \<in> set flows \<union> set flows'. \<forall>t. 0 < drawn t"
  shows "\<exists>b m1 b1 b2 m2 b3. ListBuffer_new True blocks disks (Some m) k = Some (Inr b) \<and>
    lb_inserts h1 h2 d flows (Some m) (((\<lambda>b. snd (lb_addCheckThread b)) ^^ (d + 1)) b) = Some (True, Some m1, b1) \<and>
    block_answers h1 h2 m1 (lb_metas b1 ! d) flows \<and>
    lb_updateMeta (Some m1) b1 d col = Some b2 \<and>
    lb_inserts h1 h2 ((d + blocks) mod disks) flows' (Some m1) b2 = Some (True, Some m2, b3) \<and>
    block_answers h1 h2 m2 (lb_metas b3 ! d) flows'"
proof -
  from new_block_holds [OF assms(1-5), of k h1 h2] obtain b where b: "ListBuffer_new True blocks disks (Some m) k = Some (Inr b)"
    "block_holds h1 h2 k d [] m b" "lb_total b = blocks" "lb_disk_num b = disks" "lb_check_ids b = []" by blast
  let ?b = "b\<lparr>lb_check_ids := [0..<d + 1]\<rparr>"
  have th: "((\<lambda>b. snd (lb_addCheckThread b)) ^^ (d + 1)) b = ?b" by (rule check_threads) (use b(3,5) assms(2) in simp_all)
  have "block_holds h1 h2 k d [] m ?b" using b(2) by (simp add: block_holds_def)
  from lb_inserts_hold [OF this, of flows] assms(7) obtain m1 b1 where 1: "lb_inserts h1 h2 d flows (Some m) ?b = Some (True, Some m1, b1)"
    "block_holds h1 h2 k d flows m1 b1" "same_frame m ?b m1 b1" by auto
  have f1: "lb_total b1 = blocks" "lb_disk_num b1 = disks" "lb_check_ids b1 = [0..<d + 1]" "col_count m1 = col_count m"
    using 1(3) b(3,4) by (simp_all add: same_frame_def)
  have t1: "d < length (lb_check_ids b1)" "lb_check_ids b1 ! d = d mod lb_total b1" using f1 assms(2) by (simp_all add: nth_append)
  have c1: "col < col_count m1" "lb_disk_num b1 mod lb_total b1 = 0" using f1 assms(1,6) by simp_all
  from recycled_block_holds [OF 1(2) t1 c1] obtain b2 where 2: "lb_updateMeta (Some m1) b1 d col = Some b2"
    "block_holds h1 h2 k ((d + blocks) mod disks) [] m1 b2" "lb_total b2 = blocks" unfolding f1 by blast
  from lb_inserts_hold [OF 2(2), of flows'] assms(7) obtain m2 b3 where 3: "lb_inserts h1 h2 ((d + blocks) mod disks) flows' (Some m1) b2 = Some (True, Some m2, b3)"
    "block_holds h1 h2 k ((d + blocks) mod disks) flows' m2 b3" "same_frame m1 b2 m2 b3" by auto
  have "blocks dvd disks" using assms(1) by auto
  then have i: "(d + blocks) mod disks mod lb_total b3 = d" using 2(3) 3(3) assms(2) by (simp add: same_frame_def mod_mod_cancel)
  have "d mod lb_total b1 = d" using f1(1) assms(2) by simp
  then have "block_answers h1 h2 m1 (lb_metas b1 ! d) flows" using holds_answers [OF 1(2)] by simp
  moreover have "block_answers h1 h2 m2 (lb_metas b3 ! d) flows'" using holds_answers [OF 3(2)] unfolding i .
  moreover have "lb_inserts h1 h2 d flows (Some m) (((\<lambda>b. snd (lb_addCheckThread b)) ^^ (d + 1)) b) = Some (True, Some m1, b1)"
    unfolding th by (rule 1(1))
  ultimately show ?thesis using b(1) 2(1) 3(1) by (intro exI conjI) (assumption | rule refl)+
qed

lemma older_index_holds_flows_witness:
  "\<exists>b m1 b1. ListBuffer_new True 2 4 (Some (example_store 0)) 2 = Some (Inr b) \<and>
     lb_inserts (\<lambda>_. 7) id 1 [(example_flow, 7, \<lambda>_. 1), (example_flow, 9, \<lambda>_. 2)] (Some (example_store 0))
       (((\<lambda>b. snd (lb_addCheckThread b)) ^^ 2) b) = Some (True, Some m1, b1) \<and>
     findByKey (lm_lists (lb_metas b1 ! 1) ! 0) [1, 1, 168, 192] = Some [9, 7]"
proof -
  let ?fl = "[(example_flow, 7, \<lambda>_. 1), (example_flow, 9, \<lambda>_. 2)]"
  have "pbf_rows_needed \<le> row_count (example_store 0)" by (simp add: pbf_rows_needed_def example_store_def)
  from older_index_holds_flows [OF _ _ example_store_inv this, of 4 2 1 2 ?fl "[]" 2 "\<lambda>_. 7" id] obtain b m1 b1 where
    r: "ListBuffer_new True 2 4 (Some (example_store 0)) 2 = Some (Inr b)"
    "lb_inserts (\<lambda>_. 7) id 1 ?fl (Some (example_store 0)) (((\<lambda>b. snd (lb_addCheckThread b)) ^^ (1 + 1)) b) = Some (True, Some m1, b1)"
    "block_answers (\<lambda>_. 7) id m1 (lb_metas b1 ! 1) ?fl" by (auto simp: example_store_def)
  have "length [1, 1, 168, 192] = type_key_len SRCIP" by simp
  then have "findByKey (lm_lists (lb_metas b1 ! 1) ! index_num SRCIP) [1, 1, 168, 192] = Some (positions_of [1, 1, 168, 192] SRCIP ?fl)"
    using r(3) unfolding block_answers_def by blast
  moreover have "positions_of [1, 1, 168, 192] SRCIP ?fl = [9, 7]"
    by (simp add: positions_of_def query_keys_def example_flow_def)
  ultimately show ?thesis using r(1,2) by auto
qed

end
