(* ===== verification/Spec2Isabelle.thy ===== *)
theory Spec2Isabelle
  imports QueryExpr SkipListLayers ZOrderTree FlosisEngine TrieTrees StringBloom TagTable PacketCompressor StreamBuffers IndexLists
begin

text \<open>
  A verification development for traffic-database, a system that captures packets at line rate, stores them
  on disks, indexes their flows and answers queries over the stored packets.

  \<^bold>\<open>The program and its parts.\<close> Capture threads (\<^verbatim>\<open>dpdk_component/dpdkReader.cpp\<close>) take packets from the
  network card, give each a header and write it to the packet buffer (\<^verbatim>\<open>dpdk_lib/dataBlockbuffer.hpp\<close>), a
  cyclic memory whose blocks stand for blocks of the data disks. The first packet of a flow chain is
  announced over a ring (\<^verbatim>\<open>dpdk_lib/singleRingBuffer.hpp\<close>); the index generator
  (\<^verbatim>\<open>dpdk_component/indexGenerator.cpp\<close>) inserts it into the memory pools and Bloom filters of the index
  buffer (\<^verbatim>\<open>dpdk_lib/memoryPool.hpp\<close>, \<^verbatim>\<open>indexMemoryPool.hpp\<close>, \<^verbatim>\<open>prefixBloomFilter.hpp\<close>, \<^verbatim>\<open>bitMap.hpp\<close>,
  \<^verbatim>\<open>indexBufferWithPool.hpp\<close>). The persister (\<^verbatim>\<open>dpdk_component/indexPersister.cpp\<close>) moves the index of a
  finished disk block to the index block buffer (\<^verbatim>\<open>indexBlockBuffer.hpp\<close>), sorted by key, and records its
  ranges in the disk metadata (\<^verbatim>\<open>diskBuffer.hpp\<close>). Disk managers and agents (\<^verbatim>\<open>diskManager.cpp\<close>,
  \<^verbatim>\<open>diskAgent.hpp\<close>) write blocks to the disks, the memory manager recycles them when the writes are done.
  The querier (\<^verbatim>\<open>dpdk_component/querier.cpp\<close>) parses an expression, asks the filters of the disk metadata,
  searches the sorted index ranges and reads the packets back.

  \<^bold>\<open>Theories and code.\<close>
  \<^item> \<open>Prelude\<close>: 64-bit arithmetic on \<open>nat\<close> with the wrap-around written out, checked arrays, byte memory
    (\<open>mread\<close>, \<open>mwrite\<close> stand for pointer reads and \<open>memcpy\<close>), little-endian encodings, cyclic ranges.
  \<^item> \<open>KeyTypes\<close>: \<^verbatim>\<open>util.hpp\<close>; the index types, IPv6 addresses with comparisons and shift, flow four-tuples,
    all as instances of \<open>linorder\<close>.
  \<^item> \<open>BitMapStore\<close>, \<open>PrefixBloom\<close>: \<^verbatim>\<open>bitMap.hpp\<close>, \<^verbatim>\<open>prefixBloomFilter.hpp\<close>. The filter is proved inside the locale
    \<open>bit_store\<close> over any store of independent bits; the interpretation on the bitmap discharges its laws.
  \<^item> \<open>SpscRing\<close>: \<^verbatim>\<open>singleRingBuffer.hpp\<close> and the polling and draining of \<^verbatim>\<open>indexGenerator.cpp\<close>; put and get as
    steps of an interleaving of one producer and one consumer; a locale for bounded queues. A put into a full ring
    waits: \<open>put_wait\<close> takes what the consumer does in each turn meanwhile.
  \<^item> \<open>BlockRing\<close>, \<open>DataBlocks\<close>, \<open>IndexBlocks\<close>: the two block buffers. What they share, the relation between
    a place of the ring and the disk block it stands for, and the windows of the writing threads, is a
    locale (\<open>block_ring\<close>), interpreted on both. A write tests the block of its position and the next one
    (\<open>db_admits\<close>); for data that end before the block behind these, this is that the buffer stands for all the
    disk blocks touched (\<open>db_stands_for\<close>).
  \<^item> \<open>FlowAggregate\<close>: \<^verbatim>\<open>packetAggregator.hpp\<close>, the table of the latest packets of the flows.
  \<^item> \<open>MemPool\<close>: \<^verbatim>\<open>memoryPool.hpp\<close>, \<^verbatim>\<open>indexMemoryPool.hpp\<close>; a pool refines a bounded log of record segments.
  \<^item> \<open>IndexPersist\<close>: \<^verbatim>\<open>diskBuffer.hpp\<close>, \<^verbatim>\<open>indexBufferWithPool.hpp\<close>, \<^verbatim>\<open>indexPersister.cpp\<close>; from the insertion of a
    flow to the metadata a query asks.
  \<^item> \<open>PacketWriter\<close>: \<^verbatim>\<open>dpdkReader.cpp\<close>; the layout of packets in cells, the parsing of addresses and ports, one
    round of the capture loop. While a write is refused, the other threads act as their schedule says.
  \<^item> \<open>DiskIO\<close>: \<^verbatim>\<open>diskAgent.hpp\<close>, \<^verbatim>\<open>diskManager.cpp\<close>, \<^verbatim>\<open>memoryManager.cpp\<close>; the outcomes of the io_uring calls are
    parameters, the completions a queue.
  \<^item> \<open>SkipList\<close>, \<open>SkipListUnlock\<close>: \<^verbatim>\<open>skipList.hpp\<close>, \<^verbatim>\<open>skipListUnlock.hpp\<close>; nodes in a heap, linked on every level; the
    list refines the sorted list of its entries.
  \<^item> \<open>ZOrder\<close>, \<open>ZOrderTree\<close>: \<^verbatim>\<open>zOrderTree.hpp\<close>; interleaved codes of flows, the tree over sorted codes, its search.
  \<^item> \<open>TrieTrees\<close>: \<^verbatim>\<open>TrieTree.hpp\<close>, \<^verbatim>\<open>binaryTree.hpp\<close>; a tree that keeps a value list as high as it can and one that
    does not; \<open>StringBloom\<close>: \<^verbatim>\<open>bloomFilter.hpp\<close>; \<open>TagTable\<close>: \<^verbatim>\<open>tagAggregator.hpp\<close>; \<open>PacketCompressor\<close>:
    \<^verbatim>\<open>compressor.hpp\<close>.
  \<^item> \<open>StreamBuffers\<close>: \<^verbatim>\<open>memoryBuffer.hpp\<close>, \<^verbatim>\<open>fileBuffer.hpp\<close> and the storage thread of \<^verbatim>\<open>directStorage.cpp\<close>; the bytes
    written, where the buffers hold them, and which of them a write across a block end spoils.
  \<^item> \<open>SkipListLayers\<close>: the compressed outputs of \<^verbatim>\<open>skipListUnlock.hpp\<close>; a tree of key slices in layers, proved first on
    towers of entries, then on the strings.
  \<^item> \<open>IndexLists\<close>: \<^verbatim>\<open>indexBuffer.hpp\<close>, the older index buffer made of skip lists and filters.
  \<^item> \<open>RingPools\<close>: \<^verbatim>\<open>pointerRingBuffer.hpp\<close> and the block pool \<^verbatim>\<open>baseline/flosis/lib/pointerRingPool.hpp\<close>.
  \<^item> \<open>FlosisBuffers\<close>, \<open>FlosisEngine\<close>: the baseline in \<^verbatim>\<open>baseline/flosis\<close>; aggregates of pool blocks, flow buffers and
    write buffer, then the engine that sorts packets into flows, the checker and the dumper.
  \<^item> \<open>QuerySearch\<close>, \<open>QueryExpr\<close>: \<^verbatim>\<open>querier.cpp\<close>; binary searches, position lists, the way from a key to the packets;
    tokens, regular expressions (by derivatives), grammar, the two-stack evaluation, the outer functions.

  \<^bold>\<open>Conventions.\<close> A result \<open>None\<close> means that the C++ code would have undefined behaviour (an access outside an
  object, a null pointer, a shift too far) or would never leave a spin loop; exceptions are \<open>Inl\<close> of an error
  type. Unsigned 64-bit counters are natural numbers with \<open>add64\<close>, \<open>sub64\<close>, \<open>mul64\<close>; keys are words. Shared
  memory is a list of bytes in the state. Loops that wait for other threads take the list of what these do,
  loops over packets take fuel: one unit for each packet read or each completion consumed; the theorems give
  the amount that is enough.

  \<^bold>\<open>What is shown.\<close> Capture: a packet fills its cell without gaps, is stored cyclically in blocks the buffer
  stands for, is counted once and announced with the keys of its header (at a full ring the thread waits, no announcement is lost); reading the disk back gives its payload
  unless the end of the cell falls into the payload. Buffers: a write whose data end before the block behind the next one
  succeeds exactly when the buffer stands for the disk blocks of the data and of the byte behind them, a block is handed out
  when all writers have left its window, and a write is accepted after its blocks were recycled often enough.
  Index: pools refine logs, a persisted flow is found by a query of its disk block (the filters have no false
  negatives), sorting gives a sorted permutation, and a search of the sorted range returns the values of
  exactly the matching records. Queries: the tokenizer loses nothing, an accepted expression never makes the
  evaluation use an empty stack, and the evaluation computes the expression tree. Disks: requests stay inside the
  area of the agent except at its end, checked blocks reach their agents, completions are recycled in order.
  Older structures: a skip list answers as a sorted list of its entries and is written out in order, its compressed string can be searched for every key, the older index buffer
  made of such lists as the list of its flows; the
  search of the Z-order tree returns the points whose digits lie between those of the bounds, the two
  prefix trees hold the same values, the text of a compressed packet covers it but for at most its last eight bytes, the tag table keeps what its kind of
  aggregation says, the memory buffer holds the end of the bytes written, but for the tails
  of writes across a block end. Baseline: pool blocks in use
  are disjoint, the columns of a flow hold the parts of its packets, the engine counts every packet in one buffer.
  Some lemmas show where the code departs from this: the duplicated or lost tail of a split packet, a gap left by
  packets that are not IP, a waiting allocation that recycling never releases, the column of a Bloom
  filter after a wrap, the empty answers of the lookups, the IPv6 addresses that lose most of their bytes, the digit-wise
  bounds of the Z-order search, the write buffer of the baseline that can be filled only once, a
  write into the packet buffer that reaches a third block, the last bytes of a compressed packet.

  \<^bold>\<open>Not modelled.\<close> DPDK and io_uring themselves, hash functions, \<open>std::sort\<close> and \<open>inet_aton\<close> are
  parameters. The controllers only construct and join threads and read configuration. The storage thread
  of the older index buffer (\<^verbatim>\<open>indexStorage.cpp\<close>) calls operations the buffer no longer has and cannot be compiled
  against it; \<^verbatim>\<open>littleHeap.hpp\<close> has no operations. Experiments, tests and
  scripts are not part of the program.
\<close>

end
